(* ===== verification/Prelude.thy ===== *)
theory Prelude
  imports Complex_Main "HOL-Library.AList" "HOL-Library.Multiset" "HOL-Library.List_Lexorder" "HOL-Library.Char_ord"
    "HOL-Library.Product_Lexorder" "HOL-Library.Word"
begin

text \<open>
  Shared vocabulary of the development.

  \<^item> JavaScript numbers. A \<^verbatim>\<open>number\<close> is an exact rational (\<open>jsnum\<close>): the double rounding
    of the language is not modelled, and neither are NaN and the infinities, except where the
    source tests for them (\<open>js_float\<close>).
  \<^item> JavaScript \<^verbatim>\<open>Map\<close> objects. A \<^verbatim>\<open>Map\<close> keeps its entries in insertion order, and setting an
    existing key keeps its place. That is what association lists with \<^const>\<open>AList.update\<close> and
    \<^const>\<open>AList.delete\<close> do, so \<open>('k, 'v) jsmap\<close> is an association list.
  \<^item> Generic lemmas on lists, options and association lists that several components share,
    and the simplification collections of the development.
\<close>

named_theorems js_map_simps \<open>reading a JavaScript Map after an update\<close>
named_theorems string_simps \<open>splitting, joining and printing strings\<close>
named_theorems limit_simps \<open>reading a field of merged quota limits\<close>

section \<open>Numbers\<close>

type_synonym jsnum = rat

datatype js_float = Finite jsnum | NaN | PosInfinity | NegInfinity

definition math_ceil :: "jsnum \<Rightarrow> jsnum" where
  "math_ceil x = of_int \<lceil>x\<rceil>"

definition math_floor :: "jsnum \<Rightarrow> jsnum" where
  "math_floor x = of_int \<lfloor>x\<rfloor>"

text \<open>\<^verbatim>\<open>Math.round\<close> rounds halves up: it is the floor of the value plus one half.\<close>

definition math_round :: "jsnum \<Rightarrow> jsnum" where
  "math_round x = of_int \<lfloor>x + 1 / 2\<rfloor>"

lemma math_ceil_of_int [simp]: "math_ceil (of_int n) = of_int n"
  by (simp add: math_ceil_def)

lemma math_ceil_numeral [simp]: "math_ceil (numeral n) = numeral n"
  by (simp add: math_ceil_def)

lemma math_ceil_0 [simp]: "math_ceil 0 = 0"
  by (simp add: math_ceil_def)

lemma math_ceil_1 [simp]: "math_ceil 1 = 1"
  by (simp add: math_ceil_def)

lemma math_ceil_ge: "x \<le> math_ceil x"
  by (simp add: math_ceil_def le_of_int_ceiling)

lemma math_ceil_mono: "x \<le> y \<Longrightarrow> math_ceil x \<le> math_ceil y"
  by (simp add: math_ceil_def ceiling_mono)

lemma math_round_of_int [simp]: "math_round (of_int n) = of_int n"
  unfolding math_round_def by (rule arg_cong [where f = of_int]) linarith

lemma math_round_0 [simp]: "math_round 0 = 0"
  using math_round_of_int [of 0] by simp

lemma math_round_numeral [simp]: "math_round (numeral n) = numeral n"
  using math_round_of_int [of "numeral n"] by simp

lemma math_round_mono: "x \<le> y \<Longrightarrow> math_round x \<le> math_round y"
  by (simp add: math_round_def floor_mono)

lemma math_round_nonneg: "0 \<le> x \<Longrightarrow> 0 \<le> math_round x"
  using math_round_mono [of 0 x] by simp

section \<open>Maps\<close>

type_synonym ('k, 'v) jsmap = "('k \<times> 'v) list"

abbreviation map_get :: "('k, 'v) jsmap \<Rightarrow> 'k \<Rightarrow> 'v option" where
  "map_get m k \<equiv> map_of m k"

abbreviation map_set :: "('k, 'v) jsmap \<Rightarrow> 'k \<Rightarrow> 'v \<Rightarrow> ('k, 'v) jsmap" where
  "map_set m k v \<equiv> AList.update k v m"

abbreviation map_delete :: "('k, 'v) jsmap \<Rightarrow> 'k \<Rightarrow> ('k, 'v) jsmap" where
  "map_delete m k \<equiv> AList.delete k m"

abbreviation map_has :: "('k, 'v) jsmap \<Rightarrow> 'k \<Rightarrow> bool" where
  "map_has m k \<equiv> map_of m k \<noteq> None"

text \<open>Deleting, while iterating, every entry that satisfies a test.\<close>

definition map_delete_if :: "('k \<Rightarrow> 'v \<Rightarrow> bool) \<Rightarrow> ('k, 'v) jsmap \<Rightarrow> ('k, 'v) jsmap" where
  "map_delete_if P m = filter (\<lambda>(k, v). \<not> P k v) m"

text \<open>Reading a map is kept as it is: with distinct keys the library would turn it into membership.\<close>

declare map_of_eq_Some_iff [simp del] Some_eq_map_of_iff [simp del]

lemma map_get_set [simp, js_map_simps]:
  "map_get (map_set m k v) k' = (if k' = k then Some v else map_get m k')"
  by (simp add: AList.update_conv')

lemma map_get_delete [simp, js_map_simps]:
  "map_get (map_delete m k) k' = (if k' = k then None else map_get m k')"
  by (simp add: AList.delete_conv')

lemma map_get_delete_if:
  "distinct (map fst m) \<Longrightarrow>
   map_get (map_delete_if P m) k =
     (case map_get m k of None \<Rightarrow> None | Some v \<Rightarrow> if P k v then None else Some v)"
  by (induction m) (auto simp: map_delete_if_def split: option.splits dest: map_of_SomeD
      intro!: image_eqI simp flip: map_of_eq_None_iff)

lemma map_set_distinct: "distinct (map fst m) \<Longrightarrow> distinct (map fst (map_set m k v))"
  by (rule AList.distinct_update)

lemma map_delete_distinct: "distinct (map fst m) \<Longrightarrow> distinct (map fst (map_delete m k))"
  by (rule AList.distinct_delete)

lemma map_delete_if_distinct:
  "distinct (map fst m) \<Longrightarrow> distinct (map fst (map_delete_if P m))"
  by (auto simp: map_delete_if_def distinct_map intro: inj_on_subset)

lemmas map_distinct = map_set_distinct map_delete_distinct map_delete_if_distinct

lemma set_map_set: "set (map_set m k v) \<subseteq> insert (k, v) (set m)"
  by (induction m) auto

lemma set_map_delete: "set (map_delete m k) = {e \<in> set m. fst e \<noteq> k}"
  by (auto simp: AList.delete_eq)

lemma map_delete_None: "map_get m k = None \<Longrightarrow> map_delete m k = m"
  by (metis delete_id map_of_eq_None_iff)

lemma map_set_new: "map_get m k = None \<Longrightarrow> map_set m k v = m @ [(k, v)]"
  by (induction m) (auto split: if_splits)

lemma mset_map_delete:
  "distinct (map fst m) \<Longrightarrow> map_get m k = Some v \<Longrightarrow> mset m = add_mset (k, v) (mset (map_delete m k))"
proof (induction m)
  case (Cons x m)
  have "map_delete m (fst x) = m" using Cons.prems(1) by (intro map_delete_None) (simp add: map_of_eq_None_iff)
  then show ?case using Cons by (cases x) (simp split: if_splits)
qed simp

lemma mset_map_set:
  "distinct (map fst m) \<Longrightarrow> mset (map_set m k v) = add_mset (k, v) (mset (map_delete m k))"
  using mset_map_delete [of "map_set m k v" k v] by (simp add: map_set_distinct delete_update_same)

lemma map_get_empty:
  assumes "\<And>k. map_get m k = None"
  shows "m = []"
proof (cases m)
  case (Cons x xs)
  then show ?thesis using assms [of "fst x"] by (cases x) simp
qed

lemma map_get_delete_if_key:
  "map_get (map_delete_if (\<lambda>k v. Q k) m) key = (if Q key then None else map_get m key)"
  by (induction m) (auto simp: map_delete_if_def)

section \<open>Options\<close>

text \<open>The \<^verbatim>\<open>??\<close> operator: the left operand unless it is null or undefined.\<close>

definition nullish :: "'a option \<Rightarrow> 'a \<Rightarrow> 'a" where
  "nullish x d = (case x of None \<Rightarrow> d | Some v \<Rightarrow> v)"

lemma nullish_simps [simp]: "nullish None d = d" "nullish (Some v) d = v"
  by (simp_all add: nullish_def)

definition opt_or :: "'a option \<Rightarrow> 'a option \<Rightarrow> 'a option" where
  "opt_or x y = (case x of None \<Rightarrow> y | Some v \<Rightarrow> Some v)"

lemma opt_or_simps [simp]: "opt_or None y = y" "opt_or (Some v) y = Some v" "opt_or x None = x"
  by (simp_all add: opt_or_def split: option.split)

lemma opt_or_assoc: "opt_or (opt_or x y) z = opt_or x (opt_or y z)"
  by (cases x) simp_all

section \<open>Lists\<close>

lemma find_SomeD: "find P xs = Some x \<Longrightarrow> P x \<and> x \<in> set xs"
  by (auto simp: find_Some_iff)

lemma list_all_filter: "list_all P xs \<Longrightarrow> list_all P (filter Q xs)"
  by (auto simp: list_all_iff)

end
