(* ===== verification/JsString.thy ===== *)
theory JsString
  imports Prelude
begin

text \<open>
  The string operations the source uses, on \<^typ>\<open>string\<close>. A JavaScript string is a sequence of
  UTF-16 code units; the model has the units below 256 (\<^typ>\<open>char\<close>), which is every character an
  address, a range, a counter key or an identifier of the modelled code is built from.

  \<open>js_trim\<close>, \<open>split_on\<close>, \<open>split_on2\<close>, \<open>js_join\<close>, \<open>last_index_of\<close>, \<open>index_of\<close> and \<open>to_lower\<close>
  are \<^verbatim>\<open>trim\<close>, \<^verbatim>\<open>split\<close> on a separator of one and of two characters, \<^verbatim>\<open>join\<close>, \<^verbatim>\<open>lastIndexOf\<close>,
  \<^verbatim>\<open>indexOf\<close> and \<^verbatim>\<open>toLowerCase\<close>; \<open>to_radix\<close> is \<^verbatim>\<open>Number.prototype.toString(radix)\<close> on natural
  numbers and \<open>parse_radix\<close> is \<^verbatim>\<open>parseInt\<close> (or \<^verbatim>\<open>Number\<close>, radix 10) on a string of digits. The
  lemmas are the round trips the address and counter-key proofs rest on.
\<close>

section \<open>Operations\<close>

definition code :: "char \<Rightarrow> nat" where
  "code c = of_char c"

definition is_space :: "char \<Rightarrow> bool" where
  "is_space c \<longleftrightarrow> (9 \<le> code c \<and> code c \<le> 13) \<or> code c = 32 \<or> code c = 160"

definition js_trim :: "string \<Rightarrow> string" where
  "js_trim s = rev (dropWhile is_space (rev (dropWhile is_space s)))"

fun cons_head :: "char \<Rightarrow> string list \<Rightarrow> string list" where
  "cons_head c [] = [[c]]"
| "cons_head c (x # xs) = (c # x) # xs"

fun split_on :: "char \<Rightarrow> string \<Rightarrow> string list" where
  "split_on d [] = [[]]"
| "split_on d (c # s) = (if c = d then [] # split_on d s else cons_head c (split_on d s))"

fun split_on2 :: "char \<Rightarrow> char \<Rightarrow> string \<Rightarrow> string list" where
  "split_on2 d e [] = [[]]"
| "split_on2 d e [c] = [[c]]"
| "split_on2 d e (c # c' # s) =
     (if c = d \<and> c' = e then [] # split_on2 d e s else cons_head c (split_on2 d e (c' # s)))"

fun js_join :: "string \<Rightarrow> string list \<Rightarrow> string" where
  "js_join sep [] = []"
| "js_join sep [x] = x"
| "js_join sep (x # y # ys) = x @ sep @ js_join sep (y # ys)"

fun index_of :: "char \<Rightarrow> string \<Rightarrow> nat option" where
  "index_of d [] = None"
| "index_of d (c # s) = (if c = d then Some 0 else map_option Suc (index_of d s))"

fun last_index_of :: "char \<Rightarrow> string \<Rightarrow> nat option" where
  "last_index_of d [] = None"
| "last_index_of d (c # s) =
     (case last_index_of d s of
        Some i \<Rightarrow> Some (Suc i)
      | None \<Rightarrow> if c = d then Some 0 else None)"

definition is_digit :: "char \<Rightarrow> bool" where
  "is_digit c \<longleftrightarrow> 48 \<le> code c \<and> code c \<le> 57"

definition is_hex :: "char \<Rightarrow> bool" where
  "is_hex c \<longleftrightarrow> is_digit c \<or> (97 \<le> code c \<and> code c \<le> 102) \<or> (65 \<le> code c \<and> code c \<le> 70)"

definition digit_val :: "char \<Rightarrow> nat" where
  "digit_val c =
     (if is_digit c then code c - 48
      else if 97 \<le> code c \<and> code c \<le> 102 then code c - 87
      else if 65 \<le> code c \<and> code c \<le> 70 then code c - 55
      else 0)"

definition to_lower_char :: "char \<Rightarrow> char" where
  "to_lower_char c =
     (if (65 \<le> code c \<and> code c \<le> 90) \<or> (192 \<le> code c \<and> code c \<le> 222 \<and> code c \<noteq> 215)
      then char_of (code c + 32) else c)"

definition to_lower :: "string \<Rightarrow> string" where
  "to_lower s = map to_lower_char s"

definition parse_radix :: "nat \<Rightarrow> string \<Rightarrow> nat" where
  "parse_radix r s = foldl (\<lambda>acc c. acc * r + digit_val c) 0 s"

definition digit_char :: "nat \<Rightarrow> char" where
  "digit_char n = (if n < 10 then char_of (48 + n) else char_of (87 + n))"

text \<open>\<^verbatim>\<open>includes\<close> of a string.\<close>

fun includes_str :: "string \<Rightarrow> string \<Rightarrow> bool" where
  "includes_str [] w = (w = [])"
| "includes_str (c # s) w = (take (length w) (c # s) = w \<or> includes_str s w)"

definition to_upper_char :: "char \<Rightarrow> char" where
  "to_upper_char c = (if 97 \<le> code c \<and> code c \<le> 122 then char_of (code c - 32) else c)"

definition to_upper :: "string \<Rightarrow> string" where
  "to_upper s = map to_upper_char s"

function to_radix :: "nat \<Rightarrow> nat \<Rightarrow> string" where
  "to_radix r n = (if n < r \<or> r < 2 then [digit_char n] else to_radix r (n div r) @ [digit_char (n mod r)])"
  by pat_completeness auto
termination
  by (relation "measure snd") (auto intro: div_less_dividend)

declare to_radix.simps [simp del]

section \<open>Trimming\<close>

lemma js_trim_fixed:
  assumes "s \<noteq> []" "\<not> is_space (hd s)" "\<not> is_space (last s)"
  shows "js_trim s = s"
proof -
  have "dropWhile is_space s = s"
    using assms(1,2) by (cases s) auto
  moreover have "dropWhile is_space (rev s) = rev s"
    using assms(1,3) by (cases s rule: rev_cases) auto
  ultimately show ?thesis by (simp add: js_trim_def)
qed

lemma js_trim_no_space: "list_all (\<lambda>c. \<not> is_space c) s \<Longrightarrow> js_trim s = s"
  by (cases "s = []") (simp add: js_trim_def, simp add: js_trim_fixed list_all_iff)

section \<open>Splitting and joining\<close>

lemma split_on_not_Nil [simp]: "split_on d s \<noteq> []"
proof (induction s)
  case (Cons c s)
  then show ?case by (cases "split_on d s") auto
qed simp

lemma js_join_cons_head: "xs \<noteq> [] \<Longrightarrow> js_join sep (cons_head c xs) = c # js_join sep xs"
  by (cases xs; cases "tl xs") auto

lemma js_join_Cons: "xs \<noteq> [] \<Longrightarrow> js_join sep (x # xs) = x @ sep @ js_join sep xs"
  by (cases xs) auto

lemma js_join_split_on [string_simps]: "js_join [d] (split_on d s) = s"
  by (induction s) (auto simp: js_join_cons_head js_join_Cons)

lemma split_on_no_sep [string_simps]: "d \<notin> set s \<Longrightarrow> split_on d s = [s]"
  by (induction s) auto

lemma split_on_append [string_simps]: "d \<notin> set s \<Longrightarrow> split_on d (s @ d # t) = s # split_on d t"
  by (induction s) auto

lemma split_on_join [string_simps]:
  "xs \<noteq> [] \<Longrightarrow> \<forall>x \<in> set xs. d \<notin> set x \<Longrightarrow> split_on d (js_join [d] xs) = xs"
  by (induction "[d]" xs rule: js_join.induct) (auto simp: split_on_no_sep split_on_append)

lemma cons_head_not_Nil [simp]: "cons_head c xs \<noteq> []"
  by (cases xs) auto

lemma set_cons_head: "\<Union> (set ` set (cons_head c xs)) = insert c (\<Union> (set ` set xs))"
  by (cases xs) auto

lemma split_on_members: "x \<in> set (split_on d s) \<Longrightarrow> set x \<subseteq> set s - {d}"
proof -
  have "\<Union> (set ` set (split_on d s)) \<subseteq> set s - {d}"
    by (induction s) (auto simp: set_cons_head)
  then show "x \<in> set (split_on d s) \<Longrightarrow> set x \<subseteq> set s - {d}" by auto
qed

lemma length_split_on [string_simps]: "length (split_on d s) = Suc (count_list s d)"
proof (induction s)
  case (Cons c s)
  then show ?case by (cases "split_on d s") auto
qed simp

text \<open>Two lists of colon-free segments with the same joined text are the same list.\<close>

lemma js_join_inject:
  assumes "js_join [d] xs = js_join [d] ys" "xs \<noteq> []" "ys \<noteq> []"
    and "\<forall>x \<in> set xs. d \<notin> set x" "\<forall>y \<in> set ys. d \<notin> set y"
  shows "xs = ys"
  using assms split_on_join by metis

section \<open>Positions\<close>

lemma index_of_None_iff: "index_of d s = None \<longleftrightarrow> d \<notin> set s"
  by (induction s) auto

lemma index_of_append: "d \<notin> set s \<Longrightarrow> index_of d (s @ d # t) = Some (length s)"
  by (induction s) auto

lemma index_of_SomeD:
  "index_of d s = Some i \<Longrightarrow> i < length s \<and> s = take i s @ d # drop (Suc i) s \<and> d \<notin> set (take i s)"
  by (induction s arbitrary: i) (auto split: if_splits)

lemma last_index_of_None_iff: "last_index_of d s = None \<longleftrightarrow> d \<notin> set s"
  by (induction s) (auto split: option.splits)

lemma last_index_of_SomeD:
  "last_index_of d s = Some i \<Longrightarrow> i < length s \<and> s = take i s @ d # drop (Suc i) s \<and> d \<notin> set (drop (Suc i) s)"
  by (induction s arbitrary: i)
    (auto split: option.splits if_splits simp: last_index_of_None_iff)

lemma last_index_of_append: "d \<notin> set t \<Longrightarrow> last_index_of d (s @ d # t) = Some (length s)"
proof (induction s)
  case Nil
  then have "last_index_of d t = None" by (simp add: last_index_of_None_iff)
  then show ?case by simp
qed simp

section \<open>Digits\<close>

lemma code_char_of [simp]: "n < 256 \<Longrightarrow> code (char_of n) = n"
  by (simp add: code_def)

lemma code_less [simp]: "code c < 256"
  by (simp add: code_def)

lemma code_inject: "code c = code d \<longleftrightarrow> c = d"
  by (simp add: code_def)

lemma digit_val_digit_char [simp]: "n < 16 \<Longrightarrow> digit_val (digit_char n) = n"
  by (auto simp: digit_val_def digit_char_def is_digit_def)

lemma is_hex_digit_char [simp]: "n < 16 \<Longrightarrow> is_hex (digit_char n)"
  by (auto simp: is_hex_def digit_char_def is_digit_def)

lemma is_digit_digit_char [simp]: "n < 10 \<Longrightarrow> is_digit (digit_char n)"
  by (auto simp: digit_char_def is_digit_def)

lemma digit_val_less: "is_hex c \<Longrightarrow> digit_val c < 16"
  by (auto simp: digit_val_def is_hex_def is_digit_def)

lemma digit_val_digit_less: "is_digit c \<Longrightarrow> digit_val c < 10"
  by (auto simp: digit_val_def is_digit_def)

lemma is_hex_is_digit: "is_digit c \<Longrightarrow> is_hex c"
  by (simp add: is_hex_def)

lemma to_lower_hex:
  "is_hex c \<Longrightarrow> is_hex (to_lower_char c) \<and> digit_val (to_lower_char c) = digit_val c"
  by (auto simp: is_hex_def is_digit_def to_lower_char_def digit_val_def)

lemma to_lower_char_fixed [simp]: "code c < 65 \<Longrightarrow> to_lower_char c = c"
  by (simp add: to_lower_char_def)

lemma to_lower_char_code:
  "code (to_lower_char c) =
     (if (65 \<le> code c \<and> code c \<le> 90) \<or> (192 \<le> code c \<and> code c \<le> 222 \<and> code c \<noteq> 215)
      then code c + 32 else code c)"
  by (simp add: to_lower_char_def)

lemma to_lower_idem [simp]: "to_lower (to_lower s) = to_lower s"
proof -
  have "to_lower_char (to_lower_char c) = to_lower_char c" for c
    by (simp add: to_lower_char_code code_inject [symmetric])
  then show ?thesis by (simp add: to_lower_def)
qed

lemma length_to_lower [simp]: "length (to_lower s) = length s"
  by (simp add: to_lower_def)

lemma to_lower_Cons [simp]: "to_lower (c # s) = to_lower_char c # to_lower s"
  by (simp add: to_lower_def)

lemma to_lower_append [simp]: "to_lower (s @ t) = to_lower s @ to_lower t"
  by (simp add: to_lower_def)

section \<open>Numerals in a radix\<close>

lemma parse_radix_Nil [simp]: "parse_radix r [] = 0"
  by (simp add: parse_radix_def)

lemma parse_radix_snoc [simp]: "parse_radix r (s @ [c]) = parse_radix r s * r + digit_val c"
  by (simp add: parse_radix_def)

lemma parse_to_radix [string_simps]:
  assumes "2 \<le> r" "r \<le> 16"
  shows "parse_radix r (to_radix r n) = n"
  using assms
proof (induction r n rule: to_radix.induct)
  case (1 r n)
  show ?case
  proof (cases "n < r")
    case True
    with "1.prems" show ?thesis
      by (simp add: to_radix.simps [of r n] parse_radix_def)
  next
    case False
    with "1.prems" have "n mod r < 16"
      by (meson less_le_trans mod_less_divisor not_less zero_less_numeral order_less_le_trans)
    with False "1.prems" "1.IH" show ?thesis
      by (simp add: to_radix.simps [of r n])
  qed
qed

lemma to_radix_digits:
  assumes "2 \<le> r" and ok: "\<And>d. d < r \<Longrightarrow> P (digit_char d)"
  shows "list_all P (to_radix r n)"
  using assms
proof (induction r n rule: to_radix.induct)
  case (1 r n)
  have "n mod r < r" using "1.prems"(1) by simp
  with 1 show ?case
    by (cases "n < r") (simp_all add: to_radix.simps [of r n])
qed

lemma to_radix_not_Nil [simp]: "to_radix r n \<noteq> []"
  by (simp add: to_radix.simps [of r n])

lemma length_to_radix:
  assumes "2 \<le> r" "n < r ^ Suc k"
  shows "length (to_radix r n) \<le> Suc k"
  using assms
proof (induction k arbitrary: n)
  case 0
  then show ?case by (simp add: to_radix.simps [of r n])
next
  case (Suc k)
  show ?case
  proof (cases "n < r")
    case True
    then show ?thesis by (simp add: to_radix.simps [of r n])
  next
    case False
    have "n div r < r ^ Suc k"
      using Suc.prems by (simp add: less_mult_imp_div_less mult.commute)
    with Suc False show ?thesis
      by (simp add: to_radix.simps [of r n])
  qed
qed

lemma parse_radix_bound:
  assumes "list_all (\<lambda>c. digit_val c < r) s"
  shows "parse_radix r s < r ^ length s"
  using assms
proof (induction s rule: rev_induct)
  case (snoc c s)
  then have "parse_radix r s + 1 \<le> r ^ length s" "digit_val c < r" by auto
  then have "(parse_radix r s + 1) * r \<le> r ^ length s * r" by (simp only: mult_le_mono1)
  with \<open>digit_val c < r\<close> show ?case by (simp add: algebra_simps)
qed simp

lemma parse_radix_to_lower:
  "list_all is_hex s \<Longrightarrow> parse_radix r (to_lower s) = parse_radix r s"
  by (induction s rule: rev_induct) (auto simp: to_lower_def to_lower_hex)

end
