(* ===== verification/IpAllowlist.thy ===== *)
theory IpAllowlist
  imports JsString
begin

text \<open>
  \<^verbatim>\<open>src/lib/services/apiTokens/ipAllowlist.ts\<close>: the IP allowlists of API tokens.

  The first part translates the module: the IPv4 and IPv6 parsers, the CIDR parser, prefix
  matching, the stored lists with their memo table (\<open>PARSED_CACHE\<close>, threaded as a state), the
  allowlist a token may pass on, and the validation of a submitted list. The second part gives
  addresses their meaning as numbers (\<open>ip_num\<close>) and ranges theirs as sets, and shows that
  matching, containment and delegation decide what those meanings say.
\<close>

unbundle bit_operations_syntax

section \<open>Model\<close>

datatype ip_family = Fam4 | Fam6

record ParsedIp =
  family :: ip_family
  parts :: "nat list"

record ParsedCidr = ParsedIp +
  prefix :: nat

definition MAX_ALLOWED_IP_RANGES :: nat where
  "MAX_ALLOWED_IP_RANGES = 100"

definition MAX_RANGE_LENGTH :: nat where
  "MAX_RANGE_LENGTH = 64"

text \<open>One alternative of \<open>V4_OCTET\<close> per length; \<open>V4_RE\<close> is four of them separated by dots.\<close>

definition v4_octet :: "string \<Rightarrow> bool" where
  "v4_octet s =
     (case s of
        [a] \<Rightarrow> is_digit a
      | [a, b] \<Rightarrow> is_digit a \<and> a \<noteq> CHR ''0'' \<and> is_digit b
      | [a, b, c] \<Rightarrow>
          (a = CHR ''2'' \<and> b = CHR ''5'' \<and> is_digit c \<and> code c \<le> 53)
          \<or> (a = CHR ''2'' \<and> is_digit b \<and> code b \<le> 52 \<and> is_digit c)
          \<or> (a = CHR ''1'' \<and> is_digit b \<and> is_digit c)
      | _ \<Rightarrow> False)"

definition parseIpv4 :: "string \<Rightarrow> nat list option" where
  "parseIpv4 text =
     (let octets = split_on CHR ''.'' text
      in if length octets = 4 \<and> list_all v4_octet octets
         then Some (map (parse_radix 10) octets) else None)"

definition hex_group :: "string \<Rightarrow> bool" where
  "hex_group g \<longleftrightarrow> 1 \<le> length g \<and> length g \<le> 4 \<and> list_all is_hex g"

text \<open>The loop that checks and converts the groups; it stops at the first bad one.\<close>

fun parse_groups :: "string list \<Rightarrow> nat list option" where
  "parse_groups [] = Some []"
| "parse_groups (g # gs) =
     (if \<not> hex_group g then None
      else map_option (\<lambda>ps. parse_radix 16 g # ps) (parse_groups gs))"

text \<open>
  The part of \<open>parseIpv6\<close> after the rewriting of an embedded IPv4 tail: the groups the two halves
  around \<^verbatim>\<open>::\<close> stand for, then their conversion.
\<close>

definition ipv6_groups :: "string list \<Rightarrow> string list option" where
  "ipv6_groups halves =
     (if length halves > 2 then None
      else
        let compressed = (length halves = 2);
            head = (if halves ! 0 = [] then [] else split_on CHR '':'' (halves ! 0));
            rest = (if compressed \<and> halves ! 1 \<noteq> [] then split_on CHR '':'' (halves ! 1) else []);
            total = length head + length rest
        in if (if compressed then total > 7 else total \<noteq> 8) then None
           else Some (if compressed then head @ replicate (8 - total) ''0'' @ rest else head))"

definition parse_ipv6_text :: "string \<Rightarrow> nat list option" where
  "parse_ipv6_text s =
     (case ipv6_groups (split_on2 CHR '':'' CHR '':'' s) of
        None \<Rightarrow> None
      | Some groups \<Rightarrow> parse_groups groups)"

definition v4_hex_tail :: "nat list \<Rightarrow> string" where
  "v4_hex_tail v4 =
     to_radix 16 (push_bit 8 (v4 ! 0) OR (v4 ! 1)) @ '':''
       @ to_radix 16 (push_bit 8 (v4 ! 2) OR (v4 ! 3))"

definition parseIpv6 :: "string \<Rightarrow> nat list option" where
  "parseIpv6 text =
     (if length text = 0 \<or> length text > 45 then None
      else case last_index_of CHR '':'' text of
        None \<Rightarrow> None
      | Some lastColon \<Rightarrow>
          let tail = drop (lastColon + 1) text in
          if CHR ''.'' \<in> set tail then
            (case parseIpv4 tail of
               None \<Rightarrow> None
             | Some v4 \<Rightarrow> parse_ipv6_text (take (lastColon + 1) text @ v4_hex_tail v4))
          else parse_ipv6_text text)"

text \<open>An array read out of range is \<^verbatim>\<open>undefined\<close>, which none of the tests below equals.\<close>

definition part_is :: "nat list \<Rightarrow> nat \<Rightarrow> nat \<Rightarrow> bool" where
  "part_is p i v \<longleftrightarrow> i < length p \<and> p ! i = v"

definition unmapIpv4 :: "ParsedIp \<Rightarrow> ParsedIp" where
  "unmapIpv4 ip =
     (if family ip \<noteq> Fam6 then ip
      else
        let p = parts ip;
            mapped = (part_is p 0 0 \<and> part_is p 1 0 \<and> part_is p 2 0 \<and> part_is p 3 0 \<and> part_is p 4 0
                      \<and> part_is p 5 65535)
        in if \<not> mapped then ip
           else \<lparr>family = Fam4,
                 parts = [drop_bit 8 (p ! 6), p ! 6 AND 255, drop_bit 8 (p ! 7), p ! 7 AND 255]\<rparr>)"

definition parseAddress :: "string \<Rightarrow> ParsedIp option" where
  "parseAddress text =
     (case parseIpv4 text of
        Some v4 \<Rightarrow> Some \<lparr>family = Fam4, parts = v4\<rparr>
      | None \<Rightarrow>
          (case parseIpv6 text of
             Some v6 \<Rightarrow> Some \<lparr>family = Fam6, parts = v6\<rparr>
           | None \<Rightarrow> None))"

definition strip_brackets :: "string \<Rightarrow> string" where
  "strip_brackets text =
     (if text \<noteq> [] \<and> hd text = CHR ''['' \<and> last text = CHR '']'' then butlast (tl text) else text)"

definition strip_zone :: "string \<Rightarrow> string" where
  "strip_zone text = (case index_of CHR ''%'' text of None \<Rightarrow> text | Some zone \<Rightarrow> take zone text)"

definition parseClientIp :: "string option \<Rightarrow> ParsedIp option" where
  "parseClientIp raw =
     (case raw of
        None \<Rightarrow> None
      | Some r \<Rightarrow>
          let text = js_trim r in
          if text = [] \<or> length text > MAX_RANGE_LENGTH then None
          else map_option unmapIpv4 (parseAddress (strip_zone (strip_brackets text))))"

datatype CidrIssue = Issue_empty | Issue_tooLong | Issue_address | Issue_prefix | Issue_type

datatype CidrCheck = CidrOk string ParsedCidr | CidrBad CidrIssue

definition unmapRange :: "ParsedCidr \<Rightarrow> ParsedCidr" where
  "unmapRange rng =
     (if family rng \<noteq> Fam6 \<or> prefix rng < 96 then rng
      else
        let unmapped = unmapIpv4 (ParsedIp.truncate rng) in
        if unmapped = ParsedIp.truncate rng then rng
        else \<lparr>family = family unmapped, parts = parts unmapped, prefix = prefix rng - 96\<rparr>)"

definition family_bits :: "ip_family \<Rightarrow> nat" where
  "family_bits f = (case f of Fam4 \<Rightarrow> 32 | Fam6 \<Rightarrow> 128)"

definition checkCidr :: "string \<Rightarrow> CidrCheck" where
  "checkCidr input =
     (let text = js_trim input in
      if text = [] then CidrBad Issue_empty
      else if length text > MAX_RANGE_LENGTH then CidrBad Issue_tooLong
      else
        let slash = index_of CHR ''/'' text;
            addressText = (case slash of None \<Rightarrow> text | Some i \<Rightarrow> take i text);
            prefixText = (case slash of None \<Rightarrow> None | Some i \<Rightarrow> Some (drop (i + 1) text))
        in case parseAddress addressText of
             None \<Rightarrow> CidrBad Issue_address
           | Some address \<Rightarrow>
               let maxPrefix = family_bits (family address);
                   checked = (case prefixText of
                       None \<Rightarrow> Some maxPrefix
                     | Some t \<Rightarrow>
                         if \<not> (1 \<le> length t \<and> length t \<le> 3 \<and> list_all is_digit t) then None
                         else if parse_radix 10 t > maxPrefix then None
                         else Some (parse_radix 10 t))
               in case checked of
                    None \<Rightarrow> CidrBad Issue_prefix
                  | Some px \<Rightarrow>
                      CidrOk ((if family address = Fam6 then to_lower addressText else addressText)
                                @ ''/'' @ to_radix 10 px)
                        (unmapRange \<lparr>family = family address, parts = parts address, prefix = px\<rparr>))"

text \<open>
  The loop over the groups of \<open>a\<close>. A group \<open>b\<close> lacks reads as \<^verbatim>\<open>undefined\<close>, which \<^verbatim>\<open>>>\<close> turns into 0.
\<close>

fun prefixMatches :: "nat list \<Rightarrow> nat list \<Rightarrow> nat \<Rightarrow> nat \<Rightarrow> bool" where
  "prefixMatches [] b remaining groupBits = True"
| "prefixMatches (x # a) b remaining groupBits =
     (if remaining = 0 then True
      else
        let bits = min groupBits remaining;
            shift = groupBits - bits;
            y = (case b of [] \<Rightarrow> 0 | y # _ \<Rightarrow> y)
        in if drop_bit shift x \<noteq> drop_bit shift y then False
           else prefixMatches a (tl b) (remaining - bits) groupBits)"

definition group_bits :: "ip_family \<Rightarrow> nat" where
  "group_bits f = (case f of Fam4 \<Rightarrow> 8 | Fam6 \<Rightarrow> 16)"

definition ipMatchesRange :: "ParsedIp \<Rightarrow> ParsedCidr \<Rightarrow> bool" where
  "ipMatchesRange ip rng =
     (if family ip \<noteq> family rng then False
      else prefixMatches (parts ip) (parts rng) (prefix rng) (group_bits (family ip)))"

text \<open>A stored value of unknown shape: an array entry that is not a string is \<^const>\<open>None\<close>.\<close>

datatype stored_ranges =
  StoredNullish | StoredArray "string option list" | StoredString string | StoredOther

fun coerceStoredRanges :: "stored_ranges \<Rightarrow> string list option" where
  "coerceStoredRanges StoredNullish = None"
| "coerceStoredRanges (StoredArray items) =
     (if items = [] then None else Some (map (\<lambda>item. nullish item '''') items))"
| "coerceStoredRanges (StoredString s) = (if js_trim s = [] then None else Some [s])"
| "coerceStoredRanges StoredOther = Some ['''']"

definition hasIpRestriction :: "stored_ranges \<Rightarrow> bool" where
  "hasIpRestriction v \<longleftrightarrow> coerceStoredRanges v \<noteq> None"

type_synonym range_cache = "(string, ParsedCidr list) jsmap"

definition PARSED_CACHE_MAX :: nat where
  "PARSED_CACHE_MAX = 256"

definition usable_cidrs :: "string list \<Rightarrow> ParsedCidr list" where
  "usable_cidrs items =
     concat (map (\<lambda>item. case checkCidr item of CidrOk _ c \<Rightarrow> [c] | CidrBad _ \<Rightarrow> []) items)"

definition range_key :: "string list \<Rightarrow> string" where
  "range_key items = js_join [CHR 0x0A] items"

text \<open>The memoised parse, with the bound of the table as an argument.\<close>

definition memo_parse :: "nat \<Rightarrow> range_cache \<Rightarrow> string list \<Rightarrow> ParsedCidr list \<times> range_cache" where
  "memo_parse bound cache items =
     (let key = range_key items in
      case map_get cache key of
        Some hit \<Rightarrow> (hit, cache)
      | None \<Rightarrow>
          let parsed = usable_cidrs items;
              cache' = (if length cache \<ge> bound then [] else cache)
          in (parsed, map_set cache' key parsed))"

definition parseRanges :: "range_cache \<Rightarrow> string list \<Rightarrow> ParsedCidr list \<times> range_cache" where
  "parseRanges cache items = memo_parse PARSED_CACHE_MAX cache items"

definition isIpAllowed :: "range_cache \<Rightarrow> string option \<Rightarrow> stored_ranges \<Rightarrow> bool \<times> range_cache" where
  "isIpAllowed cache clientIp allowedIpRanges =
     (case coerceStoredRanges allowedIpRanges of
        None \<Rightarrow> (True, cache)
      | Some items \<Rightarrow>
          (case parseClientIp clientIp of
             None \<Rightarrow> (False, cache)
           | Some ip \<Rightarrow>
               let (ranges, cache') = parseRanges cache items
               in (list_ex (ipMatchesRange ip) ranges, cache')))"

definition isRangeWithin :: "ParsedCidr \<Rightarrow> ParsedCidr \<Rightarrow> bool" where
  "isRangeWithin child parent =
     (if family child \<noteq> family parent \<or> prefix child < prefix parent then False
      else prefixMatches (parts child) (parts parent) (prefix parent) (group_bits (family child)))"

datatype ChildAllowlist = ChildOk "string list option" | ChildBad "string list"

definition offends :: "ParsedCidr list \<Rightarrow> string \<Rightarrow> bool" where
  "offends parents item =
     (case checkCidr item of
        CidrBad _ \<Rightarrow> True
      | CidrOk _ cidr \<Rightarrow> \<not> list_ex (isRangeWithin cidr) parents)"

definition resolveChildAllowlist ::
  "range_cache \<Rightarrow> stored_ranges \<Rightarrow> string list option \<Rightarrow> ChildAllowlist \<times> range_cache" where
  "resolveChildAllowlist cache parentRanges requested =
     (case coerceStoredRanges parentRanges of
        None \<Rightarrow> (ChildOk requested, cache)
      | Some parentList \<Rightarrow>
          (case requested of
             None \<Rightarrow> (ChildOk (Some parentList), cache)
           | Some items \<Rightarrow>
               let (parents, cache') = parseRanges cache parentList;
                   offending = filter (offends parents) items
               in (if offending \<noteq> [] then ChildBad offending else ChildOk (Some items), cache')))"

subsection \<open>Request input\<close>

record IpRangeIssueDetail =
  issue_index :: nat
  issue_value :: string
  issue_reason :: CidrIssue
  issue_message :: string

datatype AllowedIpRangesResult =
  RangesOk "string list option" | RangesBad string "IpRangeIssueDetail list"

text \<open>A submitted value: the text of a value that is not a string is its \<^verbatim>\<open>String(...)\<close> rendering.\<close>

datatype submitted_item = ItemString string | ItemOther string

datatype submitted = SubmittedNullish | SubmittedArray "submitted_item list" | SubmittedOther string

definition ISSUE_MESSAGE :: "CidrIssue \<Rightarrow> string" where
  "ISSUE_MESSAGE r =
     (case r of
        Issue_empty \<Rightarrow> ''is empty''
      | Issue_tooLong \<Rightarrow> ''is longer than '' @ to_radix 10 MAX_RANGE_LENGTH @ '' characters''
      | Issue_address \<Rightarrow> ''is not a valid IPv4 or IPv6 address''
      | Issue_prefix \<Rightarrow> ''has an invalid prefix length (IPv4: 0-32, IPv6: 0-128)''
      | Issue_type \<Rightarrow> ''must be a string'')"

text \<open>The accumulators of the \<^verbatim>\<open>forEach\<close>: the issues found so far and the ranges kept so far.\<close>

fun validate_items ::
  "nat \<Rightarrow> IpRangeIssueDetail list \<Rightarrow> string list \<Rightarrow> submitted_item list
   \<Rightarrow> IpRangeIssueDetail list \<times> string list" where
  "validate_items i issues ranges [] = (issues, ranges)"
| "validate_items i issues ranges (ItemOther v # rest) =
     validate_items (Suc i)
       (issues @ [\<lparr>issue_index = i, issue_value = v, issue_reason = Issue_type,
                   issue_message = ''Entry '' @ to_radix 10 (i + 1) @ '' '' @ ISSUE_MESSAGE Issue_type\<rparr>])
       ranges rest"
| "validate_items i issues ranges (ItemString s # rest) =
     (case checkCidr s of
        CidrBad r \<Rightarrow>
          validate_items (Suc i)
            (issues @ [\<lparr>issue_index = i, issue_value = s, issue_reason = r,
                        issue_message = [CHR 0x22] @ s @ [CHR 0x22] @ '' '' @ ISSUE_MESSAGE r\<rparr>])
            ranges rest
      | CidrOk normalized _ \<Rightarrow>
          validate_items (Suc i) issues
            (if normalized \<in> set ranges then ranges else ranges @ [normalized]) rest)"

definition validateAllowedIpRanges :: "submitted \<Rightarrow> AllowedIpRangesResult" where
  "validateAllowedIpRanges input =
     (case input of
        SubmittedNullish \<Rightarrow> RangesOk None
      | SubmittedOther v \<Rightarrow>
          RangesBad ''allowedIpRanges must be an array of CIDR ranges''
            [\<lparr>issue_index = 0, issue_value = v, issue_reason = Issue_type,
              issue_message = ''allowedIpRanges must be an array of CIDR ranges''\<rparr>]
      | SubmittedArray items \<Rightarrow>
          if length items > MAX_ALLOWED_IP_RANGES then
            RangesBad (''At most '' @ to_radix 10 MAX_ALLOWED_IP_RANGES @ '' IP ranges are allowed per token'') []
          else
            let (issues, ranges) = validate_items 0 [] [] items in
            if issues \<noteq> [] then RangesBad ''allowedIpRanges contains invalid entries'' issues
            else RangesOk (if ranges = [] then None else Some ranges))"

text \<open>
  \<^verbatim>\<open>splitIpRangeText\<close> splits at runs of separators; splitting at every separator only adds empty
  pieces, which the filter drops.
\<close>

definition is_separator :: "char \<Rightarrow> bool" where
  "is_separator c \<longleftrightarrow> is_space c \<or> c = CHR '','' \<or> c = CHR '';''"

fun split_class :: "(char \<Rightarrow> bool) \<Rightarrow> string \<Rightarrow> string list" where
  "split_class P [] = [[]]"
| "split_class P (c # s) = (if P c then [] # split_class P s else cons_head c (split_class P s))"

definition splitIpRangeText :: "string \<Rightarrow> string list" where
  "splitIpRangeText text = filter (\<lambda>s. s \<noteq> []) (map js_trim (split_class is_separator text))"

section \<open>Addresses as numbers, ranges as sets\<close>

definition group_count :: "ip_family \<Rightarrow> nat" where
  "group_count f = (case f of Fam4 \<Rightarrow> 4 | Fam6 \<Rightarrow> 8)"

definition wf_parts :: "ip_family \<Rightarrow> nat list \<Rightarrow> bool" where
  "wf_parts f ps \<longleftrightarrow> length ps = group_count f \<and> list_all (\<lambda>p. p < 2 ^ group_bits f) ps"

definition wf_ip :: "ParsedIp \<Rightarrow> bool" where
  "wf_ip ip \<longleftrightarrow> wf_parts (family ip) (parts ip)"

definition wf_cidr :: "ParsedCidr \<Rightarrow> bool" where
  "wf_cidr c \<longleftrightarrow> wf_parts (family c) (parts c) \<and> prefix c \<le> family_bits (family c)"

fun ip_num :: "nat \<Rightarrow> nat list \<Rightarrow> nat" where
  "ip_num b [] = 0"
| "ip_num b (x # xs) = x * 2 ^ (b * length xs) + ip_num b xs"

text \<open>The network a number belongs to: the number without its host bits.\<close>

definition network :: "ip_family \<Rightarrow> nat \<Rightarrow> nat \<Rightarrow> nat" where
  "network f px n = n div 2 ^ (family_bits f - px)"

definition cidr_num :: "('a ParsedIp_scheme) \<Rightarrow> nat" where
  "cidr_num a = ip_num (group_bits (family a)) (parts a)"

lemma ip_num_less:
  "list_all (\<lambda>p. p < 2 ^ b) ps \<Longrightarrow> ip_num b ps < 2 ^ (b * length ps)"
proof (induction ps)
  case (Cons p ps)
  then have "p + 1 \<le> 2 ^ b" "ip_num b ps < 2 ^ (b * length ps)" by auto
  then have "(p + 1) * 2 ^ (b * length ps) \<le> 2 ^ b * 2 ^ (b * length ps)"
    by (simp only: mult_le_mono1)
  with \<open>ip_num b ps < _\<close> show ?case by (simp add: power_add algebra_simps)
qed simp

lemma digits_eq_iff:
  fixes x y m m' K :: nat
  assumes "m < K" "m' < K"
  shows "x * K + m = y * K + m' \<longleftrightarrow> x = y \<and> m = m'"
proof
  assume eq: "x * K + m = y * K + m'"
  have "(x * K + m) div K = x" "(y * K + m') div K = y" using assms by simp_all
  with eq show "x = y \<and> m = m'" by simp
qed simp

lemma quotient_of_digits:
  fixes m j K :: nat
  shows "j < K \<Longrightarrow> (m * K + j) div K = m"
  by simp

lemma div_high:
  fixes x m :: nat
  assumes "k \<le> L"
  shows "(x * 2 ^ L + m) div 2 ^ k = x * 2 ^ (L - k) + m div 2 ^ k"
proof -
  have "(2::nat) ^ L = 2 ^ k * 2 ^ (L - k)"
    using assms by (simp flip: power_add)
  then have "x * 2 ^ L + m = m + (x * 2 ^ (L - k)) * 2 ^ k" by simp
  then show ?thesis by (simp only: div_mult_self1 power_not_zero) simp
qed

lemma div_low:
  fixes x m :: nat
  assumes "m < 2 ^ L"
  shows "(x * 2 ^ L + m) div 2 ^ (L + j) = x div 2 ^ j"
  using assms by (simp add: power_add div_mult2_eq)

lemma div_less_power:
  fixes m :: nat
  assumes "m < 2 ^ L" "k \<le> L"
  shows "m div 2 ^ k < 2 ^ (L - k)"
proof -
  have "(2::nat) ^ L = 2 ^ (L - k) * 2 ^ k" using assms(2) by (simp flip: power_add)
  with assms(1) show ?thesis by (simp add: less_mult_imp_div_less)
qed

lemma prefixMatches_iff:
  assumes "length a = length b" "r \<le> g * length a" "0 < g"
    and "list_all (\<lambda>p. p < 2 ^ g) a" "list_all (\<lambda>p. p < 2 ^ g) b"
  shows "prefixMatches a b r g \<longleftrightarrow>
    ip_num g a div 2 ^ (g * length a - r) = ip_num g b div 2 ^ (g * length a - r)"
  using assms
proof (induction a arbitrary: b r)
  case Nil
  then show ?case by simp
next
  case (Cons x a)
  then obtain y b' where b: "b = y # b'" by (cases b) auto
  let ?L = "g * length a"
  have len: "length a = length b'" and x: "x < 2 ^ g" and y: "y < 2 ^ g"
    and a: "list_all (\<lambda>p. p < 2 ^ g) a" and b': "list_all (\<lambda>p. p < 2 ^ g) b'"
    using Cons.prems b by auto
  have na: "ip_num g a < 2 ^ ?L" and nb: "ip_num g b' < 2 ^ ?L"
    using ip_num_less [OF a] ip_num_less [OF b'] len by simp_all
  consider "r = 0" | "0 < r" "r \<le> g" | "g < r" by linarith
  then show ?case
  proof cases
    case 1
    have "ip_num g (x # a) < 2 ^ (g * length (x # a))"
      by (rule ip_num_less [OF Cons.prems(4)])
    moreover have "ip_num g b < 2 ^ (g * length (x # a))"
      by (subst Cons.prems(1)) (rule ip_num_less [OF Cons.prems(5)])
    ultimately
    show ?thesis by (simp add: 1)
  next
    case 2
    have e: "g * length (x # a) - r = ?L + (g - r)" using 2 by simp
    have "prefixMatches a b' 0 g" by (cases a) auto
    then have "prefixMatches (x # a) b r g \<longleftrightarrow> x div 2 ^ (g - r) = y div 2 ^ (g - r)"
      using 2 by (simp add: b min_absorb2 Let_def drop_bit_eq_div)
    moreover have "ip_num g (x # a) div 2 ^ (?L + (g - r)) = x div 2 ^ (g - r)"
      unfolding ip_num.simps by (rule div_low [OF na])
    moreover have "ip_num g b div 2 ^ (?L + (g - r)) = y div 2 ^ (g - r)"
      unfolding b ip_num.simps len [symmetric] by (rule div_low [OF nb])
    ultimately show ?thesis unfolding e by simp
  next
    case 3
    let ?k = "?L - (r - g)"
    have r: "r - g \<le> ?L" using Cons.prems(2) by simp
    have e: "g * length (x # a) - r = ?k" using 3 by simp
    have IH: "prefixMatches a b' (r - g) g \<longleftrightarrow> ip_num g a div 2 ^ ?k = ip_num g b' div 2 ^ ?k"
      using Cons.IH [OF len r \<open>0 < g\<close> a b'] .
    have "ip_num g a div 2 ^ ?k < 2 ^ (?L - ?k)" "ip_num g b' div 2 ^ ?k < 2 ^ (?L - ?k)"
      using na nb by (auto intro: div_less_power)
    then show ?thesis
      unfolding e using 3 b len IH
      by (simp add: div_high digits_eq_iff min_def)
  qed
qed

lemma group_total: "group_bits f * group_count f = family_bits f"
  by (cases f) (simp_all add: group_bits_def group_count_def family_bits_def)

lemma prefixMatches_network:
  assumes "wf_parts f a" "wf_parts f b" "px \<le> family_bits f"
  shows "prefixMatches a b px (group_bits f) \<longleftrightarrow>
    network f px (ip_num (group_bits f) a) = network f px (ip_num (group_bits f) b)"
proof -
  have "0 < group_bits f" by (cases f) (simp_all add: group_bits_def)
  then show ?thesis
    using assms prefixMatches_iff [of a b px "group_bits f"]
    by (simp add: wf_parts_def network_def group_total)
qed

lemma ipMatchesRange_network:
  assumes "wf_ip ip" "wf_cidr r"
  shows "ipMatchesRange ip r \<longleftrightarrow>
    family ip = family r \<and> network (family r) (prefix r) (cidr_num ip) = network (family r) (prefix r) (cidr_num r)"
  using assms prefixMatches_network [of "family r" "parts ip" "parts r" "prefix r"]
  by (auto simp: ipMatchesRange_def wf_ip_def wf_cidr_def cidr_num_def)

text \<open>A coarser network is a function of a finer one.\<close>

lemma network_coarser:
  assumes "p \<le> q" "q \<le> family_bits f"
  shows "network f p n = network f q n div 2 ^ (q - p)"
proof -
  have "family_bits f - p = (family_bits f - q) + (q - p)" using assms by simp
  then show ?thesis by (simp add: network_def power_add div_mult2_eq)
qed

fun num_parts :: "nat \<Rightarrow> nat \<Rightarrow> nat \<Rightarrow> nat list" where
  "num_parts b 0 n = []"
| "num_parts b (Suc k) n = (n div 2 ^ (b * k)) mod 2 ^ b # num_parts b k n"

lemma length_num_parts [simp]: "length (num_parts b k n) = k"
  by (induction k) auto

lemma num_parts_bound: "list_all (\<lambda>p. p < 2 ^ b) (num_parts b k n)"
  by (induction k) auto

lemma ip_num_num_parts: "ip_num b (num_parts b k n) = n mod 2 ^ (b * k)"
proof (induction k)
  case (Suc k)
  have "n mod 2 ^ (b * k + b) = 2 ^ (b * k) * (n div 2 ^ (b * k) mod 2 ^ b) + n mod 2 ^ (b * k)"
    by (simp add: power_add mod_mult2_eq)
  with Suc show ?case by (simp add: algebra_simps)
qed simp

definition ip_of_num :: "ip_family \<Rightarrow> nat \<Rightarrow> ParsedIp" where
  "ip_of_num f n = \<lparr>family = f, parts = num_parts (group_bits f) (group_count f) n\<rparr>"

lemma ip_of_num [simp]:
  "wf_ip (ip_of_num f n)" "family (ip_of_num f n) = f"
  "n < 2 ^ family_bits f \<Longrightarrow> cidr_num (ip_of_num f n) = n"
  by (simp_all add: ip_of_num_def wf_ip_def wf_parts_def num_parts_bound cidr_num_def
      ip_num_num_parts group_total)

lemma cidr_num_less: "wf_parts (family c) (parts c) \<Longrightarrow> cidr_num c < 2 ^ family_bits (family c)"
  using ip_num_less [of "group_bits (family c)" "parts c"]
  by (simp add: cidr_num_def wf_parts_def group_total)

text \<open>The first and the last address of a range.\<close>

lemma network_bounds:
  assumes "n < 2 ^ family_bits f" "px \<le> family_bits f"
  defines "K \<equiv> (2::nat) ^ (family_bits f - px)"
  shows "network f px n * K < 2 ^ family_bits f" "network f px (network f px n * K) = network f px n"
    "network f px n * K + (K - 1) < 2 ^ family_bits f"
    "network f px (network f px n * K + (K - 1)) = network f px n"
proof -
  have K: "0 < K" by (simp add: K_def)
  have b: "network f px n < 2 ^ px"
    using div_less_power [OF assms(1), of "family_bits f - px"] assms(2) by (simp add: network_def)
  have tot: "(2::nat) ^ family_bits f = 2 ^ px * K"
    using assms(2) by (simp add: K_def flip: power_add)
  have "(network f px n + 1) * K \<le> 2 ^ px * K" using b by (simp only: mult_le_mono1 Suc_eq_plus1 [symmetric] Suc_leI)
  then show top: "network f px n * K + (K - 1) < 2 ^ family_bits f"
    using K tot by (simp add: algebra_simps)
  then show "network f px n * K < 2 ^ family_bits f" by simp
  show "network f px (network f px n * K) = network f px n"
    using K by (simp add: network_def K_def)
  show "network f px (network f px n * K + (K - 1)) = network f px n"
    unfolding network_def K_def [symmetric]
    by (rule quotient_of_digits) (use K in simp)
qed

section \<open>What the parsers return is well formed\<close>

lemma digit_val_code: "is_digit c \<Longrightarrow> digit_val c = code c - 48"
  by (simp add: digit_val_def)

lemma octet_digits [simp]: "digit_val CHR ''1'' = 1" "digit_val CHR ''2'' = 2" "digit_val CHR ''5'' = 5"
  by (simp_all add: digit_val_def is_digit_def code_def)

lemma v4_octet_bound: "v4_octet s \<Longrightarrow> parse_radix 10 s < 256"
proof -
  assume s: "v4_octet s"
  then consider (1) a where "s = [a]" "is_digit a"
    | (2) a b where "s = [a, b]" "is_digit a" "is_digit b"
    | (3) a b c where "s = [a, b, c]" "a = CHR ''2''" "b = CHR ''5''" "is_digit c" "code c \<le> 53"
    | (4) a b c where "s = [a, b, c]" "a = CHR ''2''" "is_digit b" "code b \<le> 52" "is_digit c"
    | (5) a b c where "s = [a, b, c]" "a = CHR ''1''" "is_digit b" "is_digit c"
    by (auto simp: v4_octet_def split: list.splits)
  then show ?thesis
    by cases (use digit_val_digit_less in \<open>fastforce simp: parse_radix_def digit_val_code is_digit_def\<close>)+
qed

lemma parseIpv4_wf: "parseIpv4 t = Some ps \<Longrightarrow> wf_parts Fam4 ps"
  by (auto simp: parseIpv4_def Let_def wf_parts_def group_count_def group_bits_def list_all_iff
      v4_octet_bound split: if_splits)

lemma hex_group_bound: "hex_group g \<Longrightarrow> parse_radix 16 g < 65536"
proof -
  assume g: "hex_group g"
  then have "parse_radix 16 g < 16 ^ length g"
    by (intro parse_radix_bound) (auto simp: hex_group_def list_all_iff digit_val_less)
  also have "(16::nat) ^ length g \<le> 16 ^ 4"
    using g by (intro power_increasing) (auto simp: hex_group_def)
  finally show ?thesis by simp
qed

lemma parse_groups_wf:
  "parse_groups gs = Some ps \<Longrightarrow> length ps = length gs \<and> list_all (\<lambda>p. p < 65536) ps"
  by (induction gs arbitrary: ps) (auto split: if_splits simp: hex_group_bound)

lemma parse_ipv6_text_wf: "parse_ipv6_text s = Some ps \<Longrightarrow> wf_parts Fam6 ps"
  by (auto simp: parse_ipv6_text_def ipv6_groups_def Let_def wf_parts_def group_count_def group_bits_def
      dest: parse_groups_wf split: if_splits option.splits)

lemma parseIpv6_wf: "parseIpv6 t = Some ps \<Longrightarrow> wf_parts Fam6 ps"
  by (auto simp: parseIpv6_def Let_def dest: parse_ipv6_text_wf split: if_splits option.splits)

lemma parseAddress_wf: "parseAddress t = Some ip \<Longrightarrow> wf_ip ip"
  by (auto simp: parseAddress_def wf_ip_def dest: parseIpv4_wf parseIpv6_wf split: option.splits)

lemma wf_parts6_cases:
  assumes "wf_parts Fam6 ps"
  obtains a b c d e f g h where "ps = [a, b, c, d, e, f, g, h]"
    "list_all (\<lambda>p. p < 65536) [a, b, c, d, e, f, g, h]"
proof -
  from assms have "length ps = Suc (Suc (Suc (Suc (Suc (Suc (Suc (Suc 0)))))))"
    by (simp add: wf_parts_def group_count_def eval_nat_numeral)
  then obtain a b c d e f g h where "ps = [a, b, c, d, e, f, g, h]"
    by (auto simp: length_Suc_conv)
  with assms that show ?thesis by (auto simp: wf_parts_def group_bits_def)
qed

lemma and_255: "(n::nat) AND 255 = n mod 256"
  using take_bit_eq_mask [of 8 n] take_bit_eq_mod [of 8 n] by (simp add: mask_eq_exp_minus_1)

lemma unmapIpv4_wf: "wf_ip ip \<Longrightarrow> wf_ip (unmapIpv4 ip)"
proof -
  assume wf: "wf_ip ip"
  show ?thesis
  proof (cases "family ip = Fam6 \<and> unmapIpv4 ip \<noteq> ip")
    case True
    with wf obtain a b c d e f g h where ps: "parts ip = [a, b, c, d, e, f, g, h]"
      and lt: "list_all (\<lambda>p. p < 65536) [a, b, c, d, e, f, g, h]"
      by (auto simp: wf_ip_def elim: wf_parts6_cases)
    with True have "unmapIpv4 ip = \<lparr>family = Fam4,
        parts = [drop_bit 8 g, g AND 255, drop_bit 8 h, h AND 255]\<rparr>"
      by (auto simp: unmapIpv4_def part_is_def Let_def split: if_splits)
    with lt show ?thesis
      by (auto simp: wf_ip_def wf_parts_def group_count_def group_bits_def drop_bit_eq_div and_255
          intro: less_mult_imp_div_less)
  next
    case False
    with wf show ?thesis by (auto simp: unmapIpv4_def split: if_splits)
  qed
qed

lemma parseClientIp_wf: "parseClientIp raw = Some ip \<Longrightarrow> wf_ip ip"
  by (auto simp: parseClientIp_def Let_def dest: parseAddress_wf unmapIpv4_wf
      split: option.splits if_splits)

lemma unmapRange_wf: "wf_cidr r \<Longrightarrow> wf_cidr (unmapRange r)"
proof (cases "unmapRange r = r")
  case False
  assume wf: "wf_cidr r"
  have f: "family r = Fam6" and ne: "unmapIpv4 (ParsedIp.truncate r) \<noteq> ParsedIp.truncate r"
    using False by (auto simp: unmapRange_def Let_def split: if_splits)
  have wf': "wf_ip (ParsedIp.truncate r)"
    using wf by (simp add: wf_cidr_def wf_ip_def ParsedIp.truncate_def)
  have fam: "family (unmapIpv4 (ParsedIp.truncate r)) = Fam4"
    using ne f by (auto simp: unmapIpv4_def Let_def split: if_splits)
  have "unmapRange r = \<lparr>family = family (unmapIpv4 (ParsedIp.truncate r)),
      parts = parts (unmapIpv4 (ParsedIp.truncate r)), prefix = prefix r - 96\<rparr>"
    using False by (auto simp: unmapRange_def Let_def split: if_splits)
  with unmapIpv4_wf [OF wf'] wf f fam show ?thesis
    by (auto simp: wf_cidr_def wf_ip_def family_bits_def)
qed simp

lemma checkCidr_wf: "checkCidr s = CidrOk t c \<Longrightarrow> wf_cidr c"
  by (auto simp: checkCidr_def Let_def wf_cidr_def wf_ip_def intro!: unmapRange_wf [unfolded wf_cidr_def]
      dest!: parseAddress_wf split: if_splits option.splits)

lemma usable_cidrs_wf: "c \<in> set (usable_cidrs items) \<Longrightarrow> wf_cidr c"
  by (auto simp: usable_cidrs_def intro: checkCidr_wf [OF sym] split: CidrCheck.splits)

section \<open>Containment\<close>

definition covers :: "ParsedCidr \<Rightarrow> ParsedCidr \<Rightarrow> bool" where
  "covers parent child \<longleftrightarrow> (\<forall>ip. wf_ip ip \<longrightarrow> ipMatchesRange ip child \<longrightarrow> ipMatchesRange ip parent)"

lemma isRangeWithin_network:
  assumes "wf_cidr c" "wf_cidr p"
  shows "isRangeWithin c p \<longleftrightarrow>
    family c = family p \<and> prefix p \<le> prefix c
    \<and> network (family p) (prefix p) (cidr_num c) = network (family p) (prefix p) (cidr_num p)"
  using assms prefixMatches_network [of "family p" "parts c" "parts p" "prefix p"]
  by (auto simp: isRangeWithin_def wf_cidr_def cidr_num_def)

lemma isRangeWithin_covers:
  assumes wf: "wf_cidr c" "wf_cidr p" and within: "isRangeWithin c p"
  shows "covers p c"
proof -
  note w = within [unfolded isRangeWithin_network [OF wf]]
  have "prefix c \<le> family_bits (family p)" using wf(1) w by (simp add: wf_cidr_def)
  then show ?thesis
    unfolding covers_def
    using w wf by (auto simp: ipMatchesRange_network network_coarser [of "prefix p" "prefix c"])
qed

text \<open>The two ends of a range wider than \<open>p\<close> lie in different networks of \<open>p\<close>.\<close>

lemma ends_differ:
  fixes N K j :: nat
  assumes "0 < j" "0 < K"
  shows "(N * (K * 2 ^ j)) div K \<noteq> (N * (K * 2 ^ j) + (K * 2 ^ j - 1)) div K"
proof -
  have "1 < (2::nat) ^ j" using assms(1) by (intro one_less_power) simp_all
  then obtain m where m: "(2::nat) ^ j = Suc m" and "0 < m"
    by (cases "(2::nat) ^ j") auto
  have K: "K * Suc m - 1 = K * m + (K - 1)" using assms(2) by simp
  have "N * (K * Suc m) + (K * m + (K - 1)) = (N * Suc m + m) * K + (K - 1)"
    by (simp add: algebra_simps)
  then have "(N * (K * Suc m) + (K * Suc m - 1)) div K = N * Suc m + m"
    unfolding K using quotient_of_digits [of "K - 1" K] assms(2) by simp
  moreover have "(N * (K * Suc m)) div K = N * Suc m"
    using assms(2) by (simp add: mult.left_commute [of N K] del: mult_Suc_right)
  ultimately show ?thesis unfolding m using \<open>0 < m\<close> by simp
qed

lemma covers_prefix_le:
  assumes wf: "wf_cidr c" "wf_cidr p" and f: "family c = family p" and cov: "covers p c"
  shows "prefix p \<le> prefix c"
proof (rule ccontr)
  assume "\<not> prefix p \<le> prefix c"
  then have lt: "prefix c < prefix p" by simp
  let ?f = "family p" and ?W = "family_bits (family p)"
  let ?K = "(2::nat) ^ (?W - prefix p)" and ?j = "prefix p - prefix c"
  have pb: "prefix p \<le> ?W" "prefix c \<le> ?W" and cn: "cidr_num c < 2 ^ ?W"
    using wf f cidr_num_less [of c] by (simp_all add: wf_cidr_def)
  have "?W - prefix c = (?W - prefix p) + ?j" using lt pb by simp
  then have C: "(2::nat) ^ (?W - prefix c) = ?K * 2 ^ ?j" by (simp add: power_add)
  let ?N = "network ?f (prefix c) (cidr_num c)"
  let ?lo = "?N * (?K * 2 ^ ?j)" and ?hi = "?N * (?K * 2 ^ ?j) + (?K * 2 ^ ?j - 1)"
  note b = network_bounds [OF cn pb(2), unfolded C]
  have "ipMatchesRange (ip_of_num ?f n) p"
    if "n < 2 ^ ?W" "network ?f (prefix c) n = ?N" for n
    using that wf f
    by (intro cov [unfolded covers_def, rule_format]) (simp_all add: ipMatchesRange_network)
  then have "network ?f (prefix p) n = network ?f (prefix p) (cidr_num p)"
    if "n < 2 ^ ?W" "network ?f (prefix c) n = ?N" for n
    using that wf by (simp add: ipMatchesRange_network)
  from this [OF b(1,2)] this [OF b(3,4)]
  have "network ?f (prefix p) ?lo = network ?f (prefix p) ?hi" by simp
  moreover have "?lo div ?K \<noteq> ?hi div ?K"
    using lt by (intro ends_differ) simp_all
  ultimately show False by (simp add: network_def)
qed

lemma self_match: "wf_cidr c \<Longrightarrow> ipMatchesRange (ip_of_num (family c) (cidr_num c)) c"
  by (simp add: ipMatchesRange_network cidr_num_less wf_cidr_def)

lemma covers_isRangeWithin:
  assumes wf: "wf_cidr c" "wf_cidr p" and cov: "covers p c"
  shows "isRangeWithin c p"
proof -
  let ?a = "ip_of_num (family c) (cidr_num c)"
  have "ipMatchesRange ?a p"
    using cov self_match [OF wf(1)] by (simp add: covers_def)
  then have "family c = family p
      \<and> network (family p) (prefix p) (cidr_num c) = network (family p) (prefix p) (cidr_num p)"
    using wf cidr_num_less [of c] by (auto simp: ipMatchesRange_network wf_cidr_def)
  with covers_prefix_le [OF wf _ cov] show ?thesis
    by (simp add: isRangeWithin_network [OF wf])
qed

section \<open>The characters of an address\<close>

definition addr_char :: "char \<Rightarrow> bool" where
  "addr_char c \<longleftrightarrow> is_hex c \<or> c = CHR '':'' \<or> c = CHR ''.''"

lemma code_punct [simp]: "code CHR '':'' = 58" "code CHR ''.'' = 46" "code CHR ''/'' = 47"
  by (simp_all add: code_def)

lemma addr_char_facts:
  "addr_char c \<Longrightarrow> \<not> is_space c" "addr_char c \<Longrightarrow> c \<noteq> CHR ''/''"
  by (auto simp: addr_char_def is_space_def is_hex_def is_digit_def)

lemma v4_octet_digits: "v4_octet s \<Longrightarrow> list_all is_digit s \<and> s \<noteq> [] \<and> length s \<le> 3"
proof -
  have "is_digit CHR ''1''" "is_digit CHR ''2''" "is_digit CHR ''5''"
    by (simp_all add: is_digit_def code_def)
  then show "v4_octet s \<Longrightarrow> list_all is_digit s \<and> s \<noteq> [] \<and> length s \<le> 3"
    by (auto simp: v4_octet_def split: list.splits)
qed

lemma parseIpv4_text:
  assumes "parseIpv4 t = Some ps"
  obtains a b c d where "t = a @ ''.'' @ b @ ''.'' @ c @ ''.'' @ d"
    "v4_octet a" "v4_octet b" "v4_octet c" "v4_octet d"
proof -
  from assms have "length (split_on CHR ''.'' t) = Suc (Suc (Suc (Suc 0)))"
    and oct: "list_all v4_octet (split_on CHR ''.'' t)"
    by (auto simp: parseIpv4_def Let_def split: if_splits)
  then obtain a b c d where s: "split_on CHR ''.'' t = [a, b, c, d]"
    by (auto simp: length_Suc_conv)
  with js_join_split_on [of "CHR ''.''" t] have "t = a @ ''.'' @ b @ ''.'' @ c @ ''.'' @ d"
    by simp
  with oct s that show ?thesis by simp
qed

lemma parseIpv4_chars:
  assumes "parseIpv4 t = Some ps"
  shows "list_all (\<lambda>c. is_digit c \<or> c = CHR ''.'') t" "t \<noteq> []" "length t \<le> 15"
proof -
  obtain a b c d where t: "t = a @ ''.'' @ b @ ''.'' @ c @ ''.'' @ d"
    and "v4_octet a" "v4_octet b" "v4_octet c" "v4_octet d"
    using parseIpv4_text [OF assms] .
  then have o: "list_all is_digit a \<and> a \<noteq> [] \<and> length a \<le> 3" "list_all is_digit b \<and> length b \<le> 3"
    "list_all is_digit c \<and> length c \<le> 3" "list_all is_digit d \<and> length d \<le> 3"
    using v4_octet_digits by blast+
  then show "list_all (\<lambda>c. is_digit c \<or> c = CHR ''.'') t"
    unfolding t by (auto simp: list_all_iff)
  from o t show "t \<noteq> []" "length t \<le> 15" by auto
qed

lemma split_on2_not_Nil [simp]: "split_on2 d e s \<noteq> []"
  by (induction d e s rule: split_on2.induct) auto

lemma js_join_split_on2: "js_join [d, e] (split_on2 d e s) = s"
proof (induction d e s rule: split_on2.induct)
  case (3 d e c c' s)
  then show ?case by (auto simp: js_join_cons_head js_join_Cons)
qed auto

lemma set_js_join: "set (js_join sep xs) \<subseteq> \<Union> (set ` set xs) \<union> set sep"
  by (induction sep xs rule: js_join.induct) auto

lemma hex_group_chars: "hex_group g \<Longrightarrow> set g \<subseteq> Collect is_hex"
  by (auto simp: hex_group_def list_all_iff)

lemma parse_groups_hex: "parse_groups gs = Some ps \<Longrightarrow> list_all hex_group gs"
  by (induction gs arbitrary: ps) (auto split: if_splits)

lemma split_groups_chars:
  assumes "list_all hex_group (split_on CHR '':'' s)"
  shows "set s \<subseteq> Collect addr_char"
proof -
  have "set s \<subseteq> \<Union> (set ` set (split_on CHR '':'' s)) \<union> {CHR '':''}"
    using set_js_join [of "'':''" "split_on CHR '':'' s"] by (simp add: js_join_split_on)
  also have "\<dots> \<subseteq> Collect addr_char"
    using assms hex_group_chars by (fastforce simp: list_all_iff addr_char_def)
  finally show ?thesis .
qed

lemma parse_ipv6_text_chars:
  assumes "parse_ipv6_text s = Some ps"
  shows "set s \<subseteq> Collect addr_char"
proof -
  define halves where "halves = split_on2 CHR '':'' CHR '':'' s"
  define gs where "gs h = (if h = [] then [] else split_on CHR '':'' h)" for h
  have len: "length halves \<le> 2" and ne: "halves \<noteq> []"
    using assms
    by (auto simp: parse_ipv6_text_def ipv6_groups_def halves_def split: option.splits if_splits)
  have "list_all hex_group (gs h)" if "h \<in> set halves" for h
  proof -
    from len ne consider x where "halves = [x]" | x y where "halves = [x, y]"
      by (cases halves; cases "tl halves"; cases "tl (tl halves)") auto
    then show ?thesis
      using assms that
      by cases (auto simp: parse_ipv6_text_def ipv6_groups_def halves_def [symmetric] gs_def Let_def
          dest!: parse_groups_hex split: option.splits if_splits)
  qed
  then have "set h \<subseteq> Collect addr_char" if "h \<in> set halves" for h
    using that split_groups_chars by (fastforce simp: gs_def split: if_splits)
  moreover have "set s \<subseteq> \<Union> (set ` set halves) \<union> {CHR '':''}"
    using set_js_join [of "''::''" halves] by (simp add: halves_def js_join_split_on2)
  moreover have "addr_char CHR '':''" by (simp add: addr_char_def)
  ultimately show ?thesis by blast
qed

lemma digit_or_dot_addr: "is_digit c \<or> c = CHR ''.'' \<Longrightarrow> addr_char c"
  by (auto simp: addr_char_def is_hex_def)

lemma parseIpv6_chars:
  assumes "parseIpv6 t = Some ps"
  shows "set t \<subseteq> Collect addr_char" "t \<noteq> []" "length t \<le> 45" "CHR '':'' \<in> set t"
proof -
  from assms obtain i where i: "last_index_of CHR '':'' t = Some i"
    by (auto simp: parseIpv6_def split: if_splits option.splits)
  then have t: "t = take (i + 1) t @ drop (i + 1) t" and c: "CHR '':'' \<in> set t"
    using last_index_of_None_iff [of "CHR '':''" t] by auto
  show "set t \<subseteq> Collect addr_char"
  proof (cases "CHR ''.'' \<in> set (drop (i + 1) t)")
    case True
    then obtain v4 where v4: "parseIpv4 (drop (i + 1) t) = Some v4"
      and p: "parse_ipv6_text (take (i + 1) t @ v4_hex_tail v4) = Some ps"
      using assms i by (auto simp: parseIpv6_def Let_def split: if_splits option.splits)
    have "set (drop (i + 1) t) \<subseteq> Collect addr_char"
      using parseIpv4_chars(1) [OF v4] digit_or_dot_addr by (auto simp: list_all_iff)
    moreover have "set (take (i + 1) t) \<subseteq> Collect addr_char"
      using parse_ipv6_text_chars [OF p] by simp
    ultimately show ?thesis using t by (metis Un_least set_append)
  next
    case False
    with assms i show ?thesis
      by (auto simp: parseIpv6_def Let_def split: if_splits intro: parse_ipv6_text_chars [THEN subsetD, THEN CollectD])
  qed
  show "t \<noteq> []" "length t \<le> 45" "CHR '':'' \<in> set t"
    using assms c by (auto simp: parseIpv6_def split: if_splits)
qed

lemma parseAddress_chars:
  assumes "parseAddress t = Some ip"
  shows "set t \<subseteq> Collect addr_char" "t \<noteq> []" "length t \<le> 45"
proof -
  have "set t \<subseteq> Collect addr_char \<and> t \<noteq> [] \<and> length t \<le> 45"
  proof (cases "parseIpv4 t")
    case None
    with assms show ?thesis
      using parseIpv6_chars by (auto simp: parseAddress_def split: option.splits)
  next
    case (Some v4)
    show ?thesis
      using parseIpv4_chars [OF Some] digit_or_dot_addr by (auto simp: list_all_iff)
  qed
  then show "set t \<subseteq> Collect addr_char" "t \<noteq> []" "length t \<le> 45" by auto
qed

section \<open>Lower-casing an IPv6 text\<close>

lemma cons_head_map: "cons_head (f c) (map (map f) xs) = map (map f) (cons_head c xs)"
  by (cases xs) auto

lemma split_on_map:
  assumes "\<And>c. f c = d \<longleftrightarrow> c = d"
  shows "split_on d (map f s) = map (map f) (split_on d s)"
  by (induction s) (auto simp: assms cons_head_map)

lemma split_on2_map:
  assumes "\<And>c. f c = d \<longleftrightarrow> c = d"
  shows "split_on2 d d (map f s) = map (map f) (split_on2 d d s)"
proof (induction s rule: length_induct)
  case (1 s)
  show ?case
  proof (cases "(d, d, s)" rule: split_on2.cases)
    case (3 d' e c c' r)
    then have "length r < length s" "length (c' # r) < length s" by auto
    with 1 have "split_on2 d d (map f r) = map (map f) (split_on2 d d r)"
      "split_on2 d d (map f (c' # r)) = map (map f) (split_on2 d d (c' # r))"
      by blast+
    with 3 assms show ?thesis by (auto simp: cons_head_map)
  qed auto
qed

lemma last_index_of_map:
  assumes "\<And>c. f c = d \<longleftrightarrow> c = d"
  shows "last_index_of d (map f s) = last_index_of d s"
  by (induction s) (auto simp: assms split: option.splits)

lemma to_lower_punct:
  "to_lower_char c = CHR '':'' \<longleftrightarrow> c = CHR '':''" "to_lower_char c = CHR ''.'' \<longleftrightarrow> c = CHR ''.''"
  by (auto simp: to_lower_char_code simp flip: code_inject)

lemma to_lower_fixed: "list_all (\<lambda>c. code c < 65) s \<Longrightarrow> to_lower s = s"
  by (induction s) (auto simp: to_lower_def)

lemma hex_group_to_lower: "hex_group g \<Longrightarrow> hex_group (to_lower g)"
  by (auto simp: hex_group_def to_lower_def list_all_iff to_lower_hex)

lemma hex_group_list: "hex_group g \<Longrightarrow> list_all is_hex g"
  by (simp add: hex_group_def)

lemma parse_groups_to_lower:
  "parse_groups gs = Some ps \<Longrightarrow> parse_groups (map to_lower gs) = Some ps"
  by (induction gs arbitrary: ps)
    (auto split: if_splits simp: hex_group_to_lower hex_group_list parse_radix_to_lower)

lemma split_to_lower:
  "split_on CHR '':'' (to_lower s) = map to_lower (split_on CHR '':'' s)"
  "split_on2 CHR '':'' CHR '':'' (to_lower s) = map to_lower (split_on2 CHR '':'' CHR '':'' s)"
  using split_on_map [of to_lower_char "CHR '':''" s] split_on2_map [of to_lower_char "CHR '':''" s]
  by (simp_all add: to_lower_punct to_lower_def [abs_def])

lemma to_lower_zero: "to_lower ''0'' = ''0''"
  by (simp add: to_lower_def to_lower_char_def code_def)

lemma to_lower_Nil_iff: "to_lower s = [] \<longleftrightarrow> s = []"
  by (simp add: to_lower_def)

lemma ipv6_groups_to_lower:
  assumes "halves \<noteq> []"
  shows "ipv6_groups (map to_lower halves) = map_option (map to_lower) (ipv6_groups halves)"
proof -
  consider x where "halves = [x]" | x y where "halves = [x, y]" | "length halves > 2"
    using assms by (cases halves; cases "tl halves"; cases "tl (tl halves)") auto
  then show ?thesis
    by cases (auto simp: ipv6_groups_def split_to_lower to_lower_Nil_iff to_lower_zero Let_def
        simp del: to_lower_Cons)
qed

lemma parse_ipv6_text_to_lower:
  "parse_ipv6_text s = Some ps \<Longrightarrow> parse_ipv6_text (to_lower s) = Some ps"
  by (auto simp: parse_ipv6_text_def split_to_lower ipv6_groups_to_lower parse_groups_to_lower
      split: option.splits)

lemma to_lower_v4_hex_tail: "to_lower (v4_hex_tail v4) = v4_hex_tail v4"
proof -
  have d: "to_lower_char (digit_char n) = digit_char n" if "n < 16" for n
    using that by (auto simp: to_lower_char_def digit_char_def)
  have "list_all (\<lambda>c. to_lower_char c = c) (to_radix 16 n)" for n
    by (rule to_radix_digits) (simp_all add: d)
  then have "to_lower (to_radix 16 n) = to_radix 16 n" for n
    unfolding to_lower_def list_all_iff by (simp add: map_idI)
  moreover have "to_lower '':'' = '':''" by (simp add: to_lower_def)
  ultimately show ?thesis by (simp add: v4_hex_tail_def)
qed

lemma parseIpv6_to_lower:
  assumes "parseIpv6 t = Some ps"
  shows "parseIpv6 (to_lower t) = Some ps"
proof -
  from assms obtain i where i: "last_index_of CHR '':'' t = Some i" and len: "t \<noteq> []" "length t \<le> 45"
    by (auto simp: parseIpv6_def split: if_splits option.splits)
  have i': "last_index_of CHR '':'' (to_lower t) = Some i"
    using i last_index_of_map [of to_lower_char "CHR '':''" t] by (simp add: to_lower_punct to_lower_def)
  have dr: "drop n (to_lower t) = to_lower (drop n t)" and tk: "take n (to_lower t) = to_lower (take n t)" for n
    by (simp_all add: to_lower_def drop_map take_map)
  have dot: "CHR ''.'' \<in> set (to_lower s) \<longleftrightarrow> CHR ''.'' \<in> set s" for s
    using to_lower_punct(2) by (force simp: to_lower_def image_iff)
  show ?thesis
  proof (cases "CHR ''.'' \<in> set (drop (i + 1) t)")
    case True
    then obtain v4 where v4: "parseIpv4 (drop (i + 1) t) = Some v4"
      and p: "parse_ipv6_text (take (i + 1) t @ v4_hex_tail v4) = Some ps"
      using assms i by (auto simp: parseIpv6_def Let_def split: if_splits option.splits)
    have "to_lower (drop (i + 1) t) = drop (i + 1) t"
      using parseIpv4_chars(1) [OF v4] by (intro to_lower_fixed) (auto simp: list_all_iff is_digit_def)
    moreover have "parse_ipv6_text (to_lower (take (i + 1) t) @ v4_hex_tail v4) = Some ps"
      using parse_ipv6_text_to_lower [OF p] by (simp add: to_lower_v4_hex_tail)
    ultimately show ?thesis
      using True v4 i' len by (simp add: parseIpv6_def dr tk to_lower_Nil_iff)
  next
    case False
    then have "parse_ipv6_text (to_lower t) = Some ps"
      using assms i by (auto simp: parseIpv6_def intro: parse_ipv6_text_to_lower split: if_splits)
    with False i' len show ?thesis by (simp add: parseIpv6_def dr dot to_lower_Nil_iff)
  qed
qed

lemma parseAddress_to_lower:
  assumes "parseAddress t = Some ip" "family ip = Fam6"
  shows "parseAddress (to_lower t) = Some ip"
proof -
  from assms have p6: "parseIpv6 t = Some (parts ip)" and ip: "ip = \<lparr>family = Fam6, parts = parts ip\<rparr>"
    by (auto simp: parseAddress_def split: option.splits)
  have "CHR '':'' \<in> set (to_lower t)"
    using parseIpv6_chars(4) [OF p6] to_lower_punct(1) by (force simp: to_lower_def image_iff)
  then have "parseIpv4 (to_lower t) = None"
    using parseIpv4_chars(1) [of "to_lower t"]
    by (cases "parseIpv4 (to_lower t)") (auto simp: list_all_iff is_digit_def)
  with parseIpv6_to_lower [OF p6] ip show ?thesis by (simp add: parseAddress_def)
qed

section \<open>Normalised ranges\<close>

lemma to_radix_10_digits: "list_all is_digit (to_radix 10 n)"
  by (rule to_radix_digits) simp_all

lemma addr_char_to_lower: "addr_char c \<Longrightarrow> addr_char (to_lower_char c)"
  by (auto simp: addr_char_def to_lower_hex)

text \<open>A text built from a parsed address and a prefix length parses to exactly those two.\<close>

lemma checkCidr_build:
  assumes ip: "parseAddress A = Some ip" and px: "px \<le> family_bits (family ip)"
  shows "checkCidr (A @ ''/'' @ to_radix 10 px) =
    CidrOk ((if family ip = Fam6 then to_lower A else A) @ ''/'' @ to_radix 10 px)
      (unmapRange \<lparr>family = family ip, parts = parts ip, prefix = px\<rparr>)"
proof -
  let ?t = "A @ CHR ''/'' # to_radix 10 px"
  have A: "set A \<subseteq> Collect addr_char" "A \<noteq> []" "length A \<le> 45"
    using parseAddress_chars [OF ip] .
  have "px \<le> 128" using px by (cases "family ip") (simp_all add: family_bits_def)
  then have len: "length (to_radix 10 px) \<le> 3"
    using length_to_radix [of 10 px 2] by (simp add: eval_nat_numeral)
  have "\<not> is_space c" if "c \<in> set A" for c
    using that A(1) addr_char_facts(1) by blast
  moreover have "\<not> is_space c" if "c \<in> set (to_radix 10 px)" for c
    using that to_radix_10_digits [of px] by (auto simp: list_all_iff is_space_def is_digit_def)
  ultimately have sp: "\<not> is_space c" if "c \<in> set ?t" for c
    using that by (auto simp: is_space_def)
  have trim: "js_trim ?t = ?t"
    by (rule js_trim_no_space) (use sp in \<open>auto simp: list_all_iff\<close>)
  have slash: "index_of CHR ''/'' ?t = Some (length A)"
    using index_of_append [of "CHR ''/''" A] A(1) addr_char_facts(2) by auto
  have pos: "1 \<le> length (to_radix 10 px)"
    by (simp add: Suc_leI)
  show ?thesis
    using A len px pos
    by (simp add: checkCidr_def trim slash ip parse_to_radix to_radix_10_digits MAX_RANGE_LENGTH_def Let_def)
qed

lemma checkCidr_OkD:
  assumes "checkCidr s = CidrOk t c"
  obtains A ip px where "parseAddress A = Some ip" "px \<le> family_bits (family ip)"
    "t = (if family ip = Fam6 then to_lower A else A) @ ''/'' @ to_radix 10 px"
    "c = unmapRange \<lparr>family = family ip, parts = parts ip, prefix = px\<rparr>"
proof (cases "index_of CHR ''/'' (js_trim s)")
  case None
  with assms that [of "js_trim s"] show ?thesis
    by (force simp: checkCidr_def Let_def split: if_splits option.splits)
next
  case (Some i)
  with assms obtain ip where "parseAddress (take i (js_trim s)) = Some ip"
    "parse_radix 10 (drop (i + 1) (js_trim s)) \<le> family_bits (family ip)"
    "t = (if family ip = Fam6 then to_lower (take i (js_trim s)) else take i (js_trim s)) @ ''/''
           @ to_radix 10 (parse_radix 10 (drop (i + 1) (js_trim s)))"
    "c = unmapRange \<lparr>family = family ip, parts = parts ip, prefix = parse_radix 10 (drop (i + 1) (js_trim s))\<rparr>"
    by (auto simp: checkCidr_def Let_def split: if_splits option.splits)
  then show ?thesis by (rule that)
qed

lemma checkCidr_idem:
  assumes "checkCidr s = CidrOk t c"
  shows "checkCidr t = CidrOk t c"
proof -
  obtain A ip px where h: "parseAddress A = Some ip" "px \<le> family_bits (family ip)"
    and t: "t = (if family ip = Fam6 then to_lower A else A) @ ''/'' @ to_radix 10 px"
    and c: "c = unmapRange \<lparr>family = family ip, parts = parts ip, prefix = px\<rparr>"
    using checkCidr_OkD [OF assms] .
  show ?thesis
  proof (cases "family ip = Fam6")
    case True
    then have "parseAddress (to_lower A) = Some ip" using h(1) by (simp add: parseAddress_to_lower)
    from checkCidr_build [OF this h(2)] True t c show ?thesis by simp
  next
    case False
    from checkCidr_build [OF h] False t c show ?thesis by simp
  qed
qed

section \<open>The memo table\<close>

definition clean_ranges :: "string list \<Rightarrow> bool" where
  "clean_ranges items \<longleftrightarrow> items \<noteq> [] \<and> (\<forall>x \<in> set items. CHR 0x0A \<notin> set x)"

definition coherent :: "range_cache \<Rightarrow> bool" where
  "coherent cache \<longleftrightarrow>
     (\<forall>key v. map_get cache key = Some v \<longrightarrow> v = usable_cidrs (split_on CHR 0x0A key))"

lemma coherent_Nil [simp]: "coherent []"
  by (simp add: coherent_def)

lemma coherentD:
  "coherent cache \<Longrightarrow> map_get cache key = Some v \<Longrightarrow> v = usable_cidrs (split_on CHR 0x0A key)"
  by (simp add: coherent_def)

lemma clean_range_key: "clean_ranges items \<Longrightarrow> split_on CHR 0x0A (range_key items) = items"
  by (simp add: clean_ranges_def range_key_def split_on_join)

text \<open>
  What the callers of a memoised range parser rely on: from a coherent table, a list of
  newline-free entries is answered with exactly its usable ranges, and the table stays coherent.
\<close>

locale range_memo =
  fixes run :: "range_cache \<Rightarrow> string list \<Rightarrow> ParsedCidr list \<times> range_cache"
  assumes run_result: "coherent cache \<Longrightarrow> clean_ranges items \<Longrightarrow> fst (run cache items) = usable_cidrs items"
    and run_coherent: "coherent cache \<Longrightarrow> clean_ranges items \<Longrightarrow> coherent (snd (run cache items))"
begin

lemma run_test:
  assumes "coherent cache" "clean_ranges items" "run cache items = (rs, cache')"
  shows "list_ex P rs \<longleftrightarrow> (\<exists>c \<in> set (usable_cidrs items). P c)" "coherent cache'"
  using run_result [OF assms(1,2)] run_coherent [OF assms(1,2)] assms(3)
  by (auto simp: list_ex_iff)

lemma run_sequence:
  assumes "coherent cache" "list_all clean_ranges qs"
  shows "coherent (foldl (\<lambda>c l. snd (run c l)) cache qs)"
  using assms
proof (induction qs arbitrary: cache)
  case (Cons l qs)
  then have "coherent (snd (run cache l))" by (simp add: run_coherent)
  with Cons show ?case by simp
qed simp

end

lemma memo_parse_result:
  "coherent cache \<Longrightarrow> clean_ranges items \<Longrightarrow> fst (memo_parse b cache items) = usable_cidrs items"
  by (auto simp: memo_parse_def Let_def clean_range_key dest!: coherentD split: option.splits)

lemma memo_parse_coherent:
  assumes "coherent cache" "clean_ranges items"
  shows "coherent (snd (memo_parse b cache items))"
  using assms
  by (auto simp: memo_parse_def Let_def coherent_def clean_range_key split: option.splits if_splits)

lemma length_map_set: "length (map_set m k v) \<le> Suc (length m)"
  by (induction m) auto

lemma memo_parse_bound:
  "0 < b \<Longrightarrow> length cache \<le> b \<Longrightarrow> length (snd (memo_parse b cache items)) \<le> b"
  using length_map_set [of "range_key items" "usable_cidrs items" cache]
  by (auto simp: memo_parse_def Let_def split: option.splits)

interpretation token_memo: range_memo parseRanges
  by unfold_locales (simp_all add: parseRanges_def memo_parse_result memo_parse_coherent)

section \<open>Allowing an address\<close>

definition allows :: "string list \<Rightarrow> ParsedIp \<Rightarrow> bool" where
  "allows items ip \<longleftrightarrow> (\<exists>c \<in> set (usable_cidrs items). ipMatchesRange ip c)"

lemma isIpAllowed_iff:
  assumes "coherent cache" "coerceStoredRanges v = Some items" "clean_ranges items"
  shows "fst (isIpAllowed cache raw v) \<longleftrightarrow> (\<exists>ip. parseClientIp raw = Some ip \<and> allows items ip)"
  using assms(2) token_memo.run_result [OF assms(1,3)]
  by (auto simp: isIpAllowed_def allows_def list_ex_iff split: option.splits prod.splits)

lemma usable_cidrs_mem:
  "c \<in> set (usable_cidrs items) \<longleftrightarrow> (\<exists>x \<in> set items. \<exists>t. checkCidr x = CidrOk t c)"
proof (induction items)
  case (Cons x items)
  then show ?case by (cases "checkCidr x") (auto simp: usable_cidrs_def)
qed (simp add: usable_cidrs_def)

text \<open>A list none of whose entries offends is contained, address by address, in the parent list.\<close>

lemma no_offence_allows:
  assumes "filter (offends (usable_cidrs parents)) items = []" "allows items ip" "wf_ip ip"
  shows "allows parents ip"
proof -
  from assms(2) obtain x t c where x: "x \<in> set items" "checkCidr x = CidrOk t c" "ipMatchesRange ip c"
    by (auto simp: allows_def usable_cidrs_mem)
  from assms(1) x(1) have "\<not> offends (usable_cidrs parents) x" by (simp add: filter_empty_conv)
  then obtain p where p: "p \<in> set (usable_cidrs parents)" "isRangeWithin c p"
    using x(2) by (auto simp: offends_def list_ex_iff)
  have "covers p c"
    using p checkCidr_wf [OF x(2)] usable_cidrs_wf by (blast intro: isRangeWithin_covers)
  with p(1) x(3) assms(3) show ?thesis by (auto simp: allows_def covers_def)
qed

section \<open>Submitted qs\<close>

fun item_ok :: "submitted_item \<Rightarrow> bool" where
  "item_ok (ItemOther v) = False"
| "item_ok (ItemString s) = (case checkCidr s of CidrOk _ _ \<Rightarrow> True | CidrBad _ \<Rightarrow> False)"

fun item_normal :: "submitted_item \<Rightarrow> string list" where
  "item_normal (ItemOther v) = []"
| "item_normal (ItemString s) = (case checkCidr s of CidrOk t _ \<Rightarrow> [t] | CidrBad _ \<Rightarrow> [])"

fun item_text :: "submitted_item \<Rightarrow> string" where
  "item_text (ItemOther v) = v"
| "item_text (ItemString s) = s"

lemma validate_items_issues:
  "fst (validate_items i issues ranges items) = [] \<longleftrightarrow> issues = [] \<and> list_all item_ok items"
  by (induction i issues ranges items rule: validate_items.induct)
    (auto split: CidrCheck.splits)

lemma validate_items_ranges:
  "set (snd (validate_items i issues ranges items)) = set ranges \<union> set (concat (map item_normal items))"
  by (induction i issues ranges items rule: validate_items.induct)
    (auto split: CidrCheck.splits)

lemma validate_items_distinct:
  "distinct ranges \<Longrightarrow> distinct (snd (validate_items i issues ranges items))"
  by (induction i issues ranges items rule: validate_items.induct)
    (auto split: CidrCheck.splits)

lemma validate_items_length:
  "length (snd (validate_items i issues ranges items)) \<le> length ranges + length items"
proof (induction i issues ranges items rule: validate_items.induct)
  case (3 i issues ranges s rest)
  then show ?case by (cases "checkCidr s") (fastforce split: if_splits)+
qed auto

lemma item_normal_fixed:
  assumes "t \<in> set (item_normal x)"
  obtains c where "checkCidr t = CidrOk t c" "checkCidr (item_text x) = CidrOk t c"
proof (cases x)
  case (ItemString s)
  with assms obtain c where "checkCidr s = CidrOk t c" by (cases "checkCidr s") auto
  with ItemString that checkCidr_idem show ?thesis by auto
qed (use assms in simp)

lemma normal_text_chars:
  assumes "checkCidr s = CidrOk t c"
  shows "CHR 0x0A \<notin> set t"
proof -
  obtain A ip px where h: "parseAddress A = Some ip"
    and t: "t = (if family ip = Fam6 then to_lower A else A) @ ''/'' @ to_radix 10 px"
    using checkCidr_OkD [OF assms] .
  have "\<not> addr_char CHR 0x0A" "\<not> is_digit CHR 0x0A"
    by (auto simp: addr_char_def is_hex_def is_digit_def code_def)
  moreover have "set (to_lower A) \<subseteq> Collect addr_char"
    using parseAddress_chars(1) [OF h] addr_char_to_lower by (auto simp: to_lower_def)
  ultimately show ?thesis
    using t parseAddress_chars(1) [OF h] to_radix_10_digits [of px]
    by (auto simp: list_all_iff)
qed

lemma validate_RangesOk:
  assumes "validateAllowedIpRanges input = RangesOk (Some rs)"
  obtains items where "input = SubmittedArray items" "rs \<noteq> []" "distinct rs" "length rs \<le> length items"
    "length items \<le> 100" "list_all item_ok items" "set rs = set (concat (map item_normal items))"
proof -
  from assms obtain items where i: "input = SubmittedArray items" "length items \<le> 100"
    and v: "fst (validate_items 0 [] [] items) = []" "rs = snd (validate_items 0 [] [] items)" "rs \<noteq> []"
    by (cases input)
      (auto simp: validateAllowedIpRanges_def MAX_ALLOWED_IP_RANGES_def split: if_splits prod.splits)
  show ?thesis
    using that [OF i(1) v(3)] i(2) v(1) validate_items_issues [of 0 "[]" "[]" items]
      validate_items_ranges [of 0 "[]" "[]" items] validate_items_distinct [of "[]" 0 "[]" items]
      validate_items_length [of 0 "[]" "[]" items]
    unfolding v(2) by simp
qed

lemma validated_clean:
  assumes "validateAllowedIpRanges input = RangesOk (Some rs)"
  shows "clean_ranges rs"
proof -
  obtain items where "rs \<noteq> []" "set rs = set (concat (map item_normal items))"
    using validate_RangesOk [OF assms] .
  then show ?thesis
    by (fastforce simp: clean_ranges_def elim: item_normal_fixed dest: normal_text_chars)
qed

definition stored_of :: "string list option \<Rightarrow> stored_ranges" where
  "stored_of r = (case r of None \<Rightarrow> StoredNullish | Some items \<Rightarrow> StoredArray (map Some items))"

lemma coerce_stored_of:
  "coerceStoredRanges (stored_of r) = (case r of None \<Rightarrow> None | Some items \<Rightarrow> if items = [] then None else Some items)"
  by (auto simp: stored_of_def comp_def split: option.splits)

lemma code_digit_char: "n < 10 \<Longrightarrow> code (digit_char n) = 48 + n"
  by (simp add: digit_char_def)

lemma digit_char_eq:
  "n < 10 \<Longrightarrow> digit_char n = CHR ''0'' \<longleftrightarrow> n = 0" "n < 10 \<Longrightarrow> digit_char n = CHR ''1'' \<longleftrightarrow> n = 1"
  "n < 10 \<Longrightarrow> digit_char n = CHR ''2'' \<longleftrightarrow> n = 2" "n < 10 \<Longrightarrow> digit_char n = CHR ''5'' \<longleftrightarrow> n = 5"
proof -
  have "code CHR ''0'' = 48" "code CHR ''1'' = 49" "code CHR ''2'' = 50" "code CHR ''5'' = 53"
    by (simp_all add: code_def)
  then show "n < 10 \<Longrightarrow> digit_char n = CHR ''0'' \<longleftrightarrow> n = 0" "n < 10 \<Longrightarrow> digit_char n = CHR ''1'' \<longleftrightarrow> n = 1"
    "n < 10 \<Longrightarrow> digit_char n = CHR ''2'' \<longleftrightarrow> n = 2" "n < 10 \<Longrightarrow> digit_char n = CHR ''5'' \<longleftrightarrow> n = 5"
    by (simp_all add: code_digit_char flip: code_inject)
qed

lemma v4_octet_print:
  assumes "n < 256"
  shows "v4_octet (to_radix 10 n)"
proof -
  consider "n < 10" | "10 \<le> n" "n < 100" | "100 \<le> n" by linarith
  then show ?thesis
  proof cases
    case 1
    then show ?thesis by (simp add: to_radix.simps [of 10 n] v4_octet_def)
  next
    case 2
    then have "n div 10 < 10" by linarith
    with 2 show ?thesis
      by (simp add: to_radix.simps [of 10 n] to_radix.simps [of 10 "n div 10"] v4_octet_def digit_char_eq)
  next
    case 3
    define a b c where "a = n div 10 div 10" and "b = n div 10 mod 10" and "c = n mod 10"
    have lt: "a < 10" "b < 10" "c < 10"
      using assms by (simp_all add: a_def b_def c_def)
    have n: "n = 100 * a + 10 * b + c"
      unfolding a_def b_def c_def
      using mult_div_mod_eq [of 10 n] mult_div_mod_eq [of 10 "n div 10"] by linarith
    have "\<not> n div 10 < 10" "n div 10 div 10 < 10" using 3 assms by linarith+
    then have "to_radix 10 n = [digit_char a, digit_char b, digit_char c]"
      using 3
      by (simp add: to_radix.simps [of 10 n] to_radix.simps [of 10 "n div 10"]
          to_radix.simps [of 10 "n div 10 div 10"] a_def b_def c_def)
    moreover have "a = 1 \<or> a = 2 \<and> (b \<le> 4 \<or> b = 5 \<and> c \<le> 5)"
    proof -
      have "1 \<le> a" "a \<le> 2" using n 3 assms lt by linarith+
      moreover have "b \<le> 5" "b = 5 \<Longrightarrow> c \<le> 5" if "a = 2" using that n assms lt by linarith+
      ultimately show ?thesis by linarith
    qed
    ultimately show ?thesis
      using lt by (auto simp: v4_octet_def digit_char_eq code_digit_char)
  qed
qed

section \<open>Properties\<close>

text \<open>
  C2: A token that is confined to some ranges can only mint a token that is confined as well, and
  every client address the child accepts is one the parent accepts: network scope never widens.
  The requested list is what the validation of the request returned, the parent's stored entries
  have no newline in them, and the memo tables are coherent.
\<close>

theorem child_allowlist_never_widens:
  assumes parent: "coerceStoredRanges parent = Some ps" "clean_ranges ps"
    and valid: "validateAllowedIpRanges input = RangesOk requested"
    and caches: "coherent cA" "coherent cB" "coherent cC"
    and resolved: "fst (resolveChildAllowlist cA parent requested) = ChildOk ranges"
    and allowed: "fst (isIpAllowed cB raw (stored_of ranges))"
  shows "hasIpRestriction (stored_of ranges) \<and> fst (isIpAllowed cC raw parent)"
proof (cases requested)
  case None
  then have r: "ranges = Some ps" and "ps \<noteq> []"
    using resolved parent by (auto simp: resolveChildAllowlist_def clean_ranges_def)
  then have "coerceStoredRanges (stored_of ranges) = Some ps" by (simp add: coerce_stored_of)
  with allowed caches parent show ?thesis
    by (auto simp: hasIpRestriction_def isIpAllowed_iff)
next
  case (Some rs)
  have clean: "clean_ranges rs" using validated_clean valid Some by simp
  have r: "ranges = Some rs" and ok: "filter (offends (usable_cidrs ps)) rs = []"
    using resolved parent Some token_memo.run_result [OF caches(1) parent(2)]
    by (auto simp: resolveChildAllowlist_def Let_def split: prod.splits if_splits)
  have co: "coerceStoredRanges (stored_of ranges) = Some rs"
    using r clean by (simp add: coerce_stored_of clean_ranges_def)
  obtain ip where ip: "parseClientIp raw = Some ip" "allows rs ip"
    using allowed isIpAllowed_iff [OF caches(2) co clean] by auto
  have "allows ps ip"
    using no_offence_allows [OF ok ip(2) parseClientIp_wf [OF ip(1)]] .
  with ip(1) co isIpAllowed_iff [OF caches(3) parent] show ?thesis
    by (auto simp: hasIpRestriction_def)
qed

theorem child_allowlist_never_widens_witness:
  "hasIpRestriction (stored_of (Some [''10.1.0.0/16'']))
   \<and> fst (isIpAllowed [] (Some ''10.1.2.3'') (StoredArray [Some ''10.0.0.0/8'']))"
  by (rule child_allowlist_never_widens [where ps = "[''10.0.0.0/8'']" and cA = "[]" and cB = "[]"
        and input = "SubmittedArray [ItemString ''10.1.0.0/16'']" and requested = "Some [''10.1.0.0/16'']"])
    (simp, simp add: clean_ranges_def, code_simp, simp, simp, simp, code_simp, code_simp)

text \<open>
  Containment of ranges is exact. For two accepted range texts, \<open>isRangeWithin\<close> holds if and only
  if every well-formed address of the child range is an address of the parent range.
\<close>

theorem isRangeWithin_exact:
  assumes "checkCidr s = CidrOk t child" "checkCidr s' = CidrOk t' parent"
  shows "isRangeWithin child parent \<longleftrightarrow>
    (\<forall>ip. wf_ip ip \<and> ipMatchesRange ip child \<longrightarrow> ipMatchesRange ip parent)"
proof -
  have wf: "wf_cidr child" "wf_cidr parent" using assms checkCidr_wf by blast+
  then have "isRangeWithin child parent \<longleftrightarrow> covers parent child"
    using isRangeWithin_covers covers_isRangeWithin by blast
  then show ?thesis by (auto simp: covers_def)
qed

theorem isRangeWithin_exact_witness:
  "isRangeWithin \<lparr>family = Fam4, parts = [10, 1, 0, 0], prefix = 16\<rparr>
     \<lparr>family = Fam4, parts = [10, 0, 0, 0], prefix = 8\<rparr> \<longleftrightarrow>
   (\<forall>ip. wf_ip ip \<and> ipMatchesRange ip \<lparr>family = Fam4, parts = [10, 1, 0, 0], prefix = 16\<rparr>
      \<longrightarrow> ipMatchesRange ip \<lparr>family = Fam4, parts = [10, 0, 0, 0], prefix = 8\<rparr>)"
  by (rule isRangeWithin_exact [of "''10.1.0.0/16''" "''10.1.0.0/16''" _ "''10.0.0.0/8''" "''10.0.0.0/8''"])
    code_simp+

text \<open>
  Matching an address against a range compares exactly the leading \<open>prefix\<close> bits: for a parsed client
  address and an accepted range of the same family, dividing both addresses (as 32-bit or 128-bit
  numbers) by the size of the host part gives the same network number.
\<close>

theorem ipMatchesRange_prefix_bits:
  assumes "parseClientIp raw = Some ip" "checkCidr s = CidrOk t r"
  shows "ipMatchesRange ip r \<longleftrightarrow>
    family ip = family r \<and>
    cidr_num ip div 2 ^ (family_bits (family r) - prefix r) =
      cidr_num r div 2 ^ (family_bits (family r) - prefix r)"
  using ipMatchesRange_network [OF parseClientIp_wf [OF assms(1)] checkCidr_wf [OF assms(2)]]
  by (simp add: network_def)

theorem ipMatchesRange_prefix_bits_witness:
  "ipMatchesRange \<lparr>family = Fam4, parts = [10, 1, 2, 3]\<rparr> \<lparr>family = Fam4, parts = [10, 1, 0, 0], prefix = 16\<rparr> \<longleftrightarrow>
    Fam4 = Fam4 \<and>
    cidr_num \<lparr>family = Fam4, parts = [10, 1, 2, 3]\<rparr> div 2 ^ (family_bits Fam4 - 16) =
      cidr_num \<lparr>family = Fam4, parts = [10, 1, 0, 0], prefix = 16\<rparr> div 2 ^ (family_bits Fam4 - 16)"
proof -
  have h: "parseClientIp (Some ''10.1.2.3'') = Some \<lparr>family = Fam4, parts = [10, 1, 2, 3]\<rparr>"
    "checkCidr ''10.1.0.0/16'' = CidrOk ''10.1.0.0/16'' \<lparr>family = Fam4, parts = [10, 1, 0, 0], prefix = 16\<rparr>"
    by code_simp+
  show ?thesis using ipMatchesRange_prefix_bits [OF h] by simp
qed

text \<open>
  A stored range text is a normal form. When a range is accepted, its normalised text is accepted
  too, normalises to itself and stands for the same range, so storing it loses nothing.
\<close>

theorem checkCidr_normal_form:
  assumes "checkCidr s = CidrOk t c"
  shows "checkCidr t = CidrOk t c"
  using assms by (rule checkCidr_idem)

theorem checkCidr_normal_form_witness:
  "checkCidr ''10.0.0.5/24'' = CidrOk ''10.0.0.5/24'' \<lparr>family = Fam4, parts = [10, 0, 0, 5], prefix = 24\<rparr>"
  by (rule checkCidr_normal_form [of "'' 10.0.0.5/024 ''"]) code_simp

text \<open>
  An accepted submission. When the validation of a submitted array returns ranges, they are between
  1 and 100, without duplicates, each is its own normal form, every entry of the submission was a
  usable range, and the ranges stored denote exactly the ranges submitted.
\<close>

theorem validateAllowedIpRanges_accepts:
  assumes "validateAllowedIpRanges (SubmittedArray items) = RangesOk (Some rs)"
  shows "1 \<le> length rs \<and> length rs \<le> 100 \<and> distinct rs
    \<and> list_all (\<lambda>t. \<exists>c. checkCidr t = CidrOk t c) rs
    \<and> list_all item_ok items
    \<and> set (usable_cidrs rs) = set (usable_cidrs (map item_text items))"
proof -
  obtain items' where i: "SubmittedArray items = SubmittedArray items'" "rs \<noteq> []" "distinct rs"
    "length rs \<le> length items'" "length items' \<le> 100" "list_all item_ok items'"
    "set rs = set (concat (map item_normal items'))"
    using validate_RangesOk [OF assms] .
  have sub: "\<exists>x \<in> set items. t \<in> set (item_normal x)" if "t \<in> set rs" for t
    using that i(1,7) by auto
  have "c \<in> set (usable_cidrs rs)" if "x \<in> set items" "checkCidr (item_text x) = CidrOk t c" for x t c
  proof -
    have "item_ok x" using that(1) i(1,6) by (simp add: list_all_iff)
    then have "t \<in> set (item_normal x)" using that(2) by (cases x) auto
    then have "t \<in> set rs" using that(1) i(1,7) by auto
    then show ?thesis using checkCidr_idem [OF that(2)] by (auto simp: usable_cidrs_mem)
  qed
  moreover have "c \<in> set (usable_cidrs (map item_text items))" if "t \<in> set rs" "checkCidr t = CidrOk u c" for t u c
    using sub [OF that(1)] that(2) by (fastforce simp: usable_cidrs_mem elim: item_normal_fixed)
  ultimately have "set (usable_cidrs rs) = set (usable_cidrs (map item_text items))"
    by (fastforce simp: usable_cidrs_mem)
  moreover have "list_all (\<lambda>t. \<exists>c. checkCidr t = CidrOk t c) rs"
    using sub by (fastforce simp: list_all_iff elim: item_normal_fixed)
  moreover have "1 \<le> length rs" "length rs \<le> 100"
    using i by (auto simp: Suc_le_eq)
  ultimately show ?thesis using i by simp
qed

theorem validateAllowedIpRanges_accepts_witness:
  "1 \<le> length [''10.0.0.5/24''] \<and> length [''10.0.0.5/24''] \<le> 100 \<and> distinct [''10.0.0.5/24'']
    \<and> list_all (\<lambda>t. \<exists>c. checkCidr t = CidrOk t c) [''10.0.0.5/24'']
    \<and> list_all item_ok [ItemString ''10.0.0.5/24'', ItemString '' 10.0.0.5/024'']
    \<and> set (usable_cidrs [''10.0.0.5/24'']) = set (usable_cidrs (map item_text
         [ItemString ''10.0.0.5/24'', ItemString '' 10.0.0.5/024'']))"
  by (rule validateAllowedIpRanges_accepts) code_simp

text \<open>
  The enforcement decision. With a coherent memo table and newline-free stored entries, a token may be
  used from an address exactly when the stored value is no restriction at all, or the address can be read
  and lies in one of the stored ranges that can be read: an unreadable address and a list without a
  usable range are refused.
\<close>

theorem isIpAllowed_decision:
  assumes "coherent cache" and clean: "\<forall>items. coerceStoredRanges v = Some items \<longrightarrow> clean_ranges items"
  shows "fst (isIpAllowed cache raw v) \<longleftrightarrow>
    (case coerceStoredRanges v of
       None \<Rightarrow> True
     | Some items \<Rightarrow> \<exists>ip x t c. parseClientIp raw = Some ip \<and> x \<in> set items
         \<and> checkCidr x = CidrOk t c \<and> ipMatchesRange ip c)"
proof (cases "coerceStoredRanges v")
  case None
  then show ?thesis by (simp add: isIpAllowed_def)
next
  case (Some items)
  with clean have "clean_ranges items" by blast
  from isIpAllowed_iff [OF assms(1) Some this] show ?thesis
    unfolding Some allows_def Bex_def usable_cidrs_mem by (simp only: option.case) blast
qed

theorem isIpAllowed_decision_witness:
  "fst (isIpAllowed [] (Some ''unknown'') StoredOther) \<longleftrightarrow>
    (\<exists>ip x t c. parseClientIp (Some ''unknown'') = Some ip \<and> x \<in> set ['''']
         \<and> checkCidr x = CidrOk t c \<and> ipMatchesRange ip c)"
  using isIpAllowed_decision [of "[]" StoredOther "Some ''unknown''"] by (simp add: clean_ranges_def)

text \<open>
  The memo table joins the entries of a list with a newline, so two different stored values can share
  a key. A stored text with a newline in it has no usable range and denies an address when it is read
  first, but allows the address after the two-entry list of its lines has been read.
\<close>

theorem parse_cache_key_collision:
  "let merged = StoredString (''10.0.0.0/8'' @ [CHR 0x0A] @ ''11.0.0.0/8'');
       listed = StoredArray [Some ''10.0.0.0/8'', Some ''11.0.0.0/8''];
       ip = Some ''10.1.2.3''
   in fst (isIpAllowed [] ip merged) = False
      \<and> fst (isIpAllowed (snd (isIpAllowed [] ip listed)) ip merged) = True"
proof -
  let ?m = "''10.0.0.0/8'' @ [CHR 0x0A] @ ''11.0.0.0/8''"
  let ?r = "\<lparr>family = Fam4, parts = [10, 0, 0, 0], prefix = 8\<rparr>"
  have ip: "parseClientIp (Some ''10.1.2.3'') = Some \<lparr>family = Fam4, parts = [10, 1, 2, 3]\<rparr>"
    by code_simp
  have m: "checkCidr ?m = CidrBad Issue_prefix" "js_trim ?m \<noteq> []"
    by code_simp+
  obtain c where l: "checkCidr ''10.0.0.0/8'' = CidrOk ''10.0.0.0/8'' ?r" "checkCidr ''11.0.0.0/8'' = CidrOk ''11.0.0.0/8'' c"
    by (rule that, code_simp, code_simp)
  have hit: "ipMatchesRange \<lparr>family = Fam4, parts = [10, 1, 2, 3]\<rparr> ?r" by code_simp
  have key: "range_key [''10.0.0.0/8'', ''11.0.0.0/8''] = ?m" "range_key [?m] = ?m"
    by (simp_all add: range_key_def)
  have "parseRanges [] [''10.0.0.0/8'', ''11.0.0.0/8''] = ([?r, c], [(?m, [?r, c])])"
    "parseRanges [(?m, [?r, c])] [?m] = ([?r, c], [(?m, [?r, c])])" "parseRanges [] [?m] = ([], [(?m, [])])"
    unfolding parseRanges_def memo_parse_def Let_def key
    by (simp_all add: PARSED_CACHE_MAX_def usable_cidrs_def l m [simplified])
  then show ?thesis
    using ip hit m(2) by (simp add: isIpAllowed_def Let_def split: prod.splits)
qed

text \<open>
  Printing an IPv4 address (its octets in decimal, joined by dots) and parsing it gives the address back.
\<close>

theorem parseIpv4_print:
  assumes "wf_parts Fam4 ps"
  shows "parseIpv4 (js_join ''.'' (map (to_radix 10) ps)) = Some ps"
proof -
  have oct: "v4_octet (to_radix 10 n)" if "n < 256" for n
    using that by (rule v4_octet_print)
  have ne: "map (to_radix 10) ps \<noteq> []" and len: "length ps = 4" and lt: "\<forall>p \<in> set ps. p < 256"
    using assms by (auto simp: wf_parts_def group_count_def group_bits_def list_all_iff)
  have "CHR ''.'' \<notin> set (to_radix 10 n)" for n
    using to_radix_10_digits [of n] by (auto simp: list_all_iff is_digit_def)
  then have "split_on CHR ''.'' (js_join ''.'' (map (to_radix 10) ps)) = map (to_radix 10) ps"
    using ne by (intro split_on_join) auto
  with len lt oct show ?thesis
    by (simp add: parseIpv4_def list_all_iff comp_def parse_to_radix)
qed

theorem parseIpv4_print_witness:
  "parseIpv4 (js_join ''.'' (map (to_radix 10) [192, 168, 0, 1])) = Some [192, 168, 0, 1]"
  by (rule parseIpv4_print) (simp add: wf_parts_def group_count_def group_bits_def)

end
