(* ===== verification/Resilience.thy ===== *)
theory Resilience
  imports JsString
begin

text \<open>
  \<^verbatim>\<open>src/lib/core/resilience.ts\<close>: retry with exponential backoff and a circuit breaker per key.

  \<^item> \<open>thrown\<close> is a thrown value as the module looks at it: an \<^verbatim>\<open>Error\<close> instance, another object or
    something that is no object, with the fields \<open>isRetryable\<close> reads.
  \<^item> \<open>circuits\<close> is the module's \<^verbatim>\<open>Map\<close> of breaker states; \<open>checkCircuit\<close>, \<open>recordSuccess\<close>,
    \<open>recordFailure\<close>, \<open>recordCallFailure\<close> and the two resets are functions on it.
  \<^item> \<open>runAttempt\<close> is the race of one attempt: the operation settles after some time or never, the
    timeout fires, the caller's signal aborts; the earliest wins (the operation before the timeout
    before the abort when they coincide). An attempt that never ends is \<^const>\<open>None\<close>.
  \<^item> \<open>withResilience\<close> is the whole call. What it cannot know is a \<open>world\<close>: how the operation behaves
    at each attempt, the random numbers, when the caller aborts, and what concurrent calls do to
    \<open>circuits\<close> while this one is suspended in an \<^verbatim>\<open>await\<close>. Logging is left out.
\<close>

section \<open>Errors\<close>

record error_info =
  err_name :: string
  err_message :: string
  err_retryable :: "bool option"
  err_status :: "jsnum option"
  err_statusCode :: "jsnum option"
  err_httpStatusCode :: "jsnum option"
  err_code :: "string option"

datatype thrown = ErrorInstance error_info | OtherObject error_info | NotObject

definition plain_error :: "string \<Rightarrow> string \<Rightarrow> error_info" where
  "plain_error n m =
     \<lparr>err_name = n, err_message = m, err_retryable = None, err_status = None,
      err_statusCode = None, err_httpStatusCode = None, err_code = None\<rparr>"

definition NON_RETRYABLE_STATUSES :: "jsnum set" where
  "NON_RETRYABLE_STATUSES = {400, 401, 403, 404, 409, 413, 422}"

definition NON_RETRYABLE_ERROR_CODES :: "string set" where
  "NON_RETRYABLE_ERROR_CODES =
     {''ERR_INVALID_CHAR'', ''ERR_INVALID_HTTP_TOKEN'', ''ENOENT'', ''ENOTDIR'', ''EISDIR''}"

definition option_list :: "'a option \<Rightarrow> 'a list" where
  "option_list x = (case x of None \<Rightarrow> [] | Some v \<Rightarrow> [v])"

fun errorStatusCodes :: "thrown \<Rightarrow> jsnum list" where
  "errorStatusCodes NotObject = []"
| "errorStatusCodes (ErrorInstance e) =
     option_list (err_status e) @ option_list (err_statusCode e) @ option_list (err_httpStatusCode e)"
| "errorStatusCodes (OtherObject e) =
     option_list (err_status e) @ option_list (err_statusCode e) @ option_list (err_httpStatusCode e)"

fun starts_with :: "string \<Rightarrow> string \<Rightarrow> bool" where
  "starts_with [] s = True"
| "starts_with (c # p) [] = False"
| "starts_with (c # p) (d # s) = (c = d \<and> starts_with p s)"

fun str_includes :: "string \<Rightarrow> string \<Rightarrow> bool" where
  "str_includes p [] = (p = [])"
| "str_includes p (c # s) = (starts_with p (c # s) \<or> str_includes p s)"

text \<open>
  \<^verbatim>\<open>msg.match(/status[:\s]*(\d{3})/)\<close>: the three digits of the leftmost match. No character of the
  class is a digit, so the greedy run is the only one that can be followed by a digit.
\<close>

definition status_digits :: "string \<Rightarrow> string option" where
  "status_digits s =
     (let r = take 3 (dropWhile (\<lambda>c. c = CHR '':'' \<or> is_space c) s)
      in if length r = 3 \<and> list_all is_digit r then Some r else None)"

fun status_match :: "string \<Rightarrow> string option" where
  "status_match [] = None"
| "status_match (c # s) =
     (if starts_with ''status'' (c # s) \<and> status_digits (drop 6 (c # s)) \<noteq> None
      then status_digits (drop 6 (c # s)) else status_match s)"

fun isRetryable :: "thrown \<Rightarrow> bool" where
  "isRetryable (ErrorInstance e) =
     (if err_retryable e = Some False then False
      else if err_retryable e = Some True then True
      else
        let msg = to_lower (err_message e) in
        if str_includes ''unauthorized'' msg \<or> str_includes ''forbidden'' msg \<or> str_includes ''api key'' msg then False
        else if (case status_match msg of
                   None \<Rightarrow> False
                 | Some d \<Rightarrow> of_nat (parse_radix 10 d) \<in> NON_RETRYABLE_STATUSES) then False
        else if list_ex (\<lambda>s. s \<in> NON_RETRYABLE_STATUSES) (errorStatusCodes (ErrorInstance e)) then False
        else if (case err_code e of None \<Rightarrow> False | Some c \<Rightarrow> c \<in> NON_RETRYABLE_ERROR_CODES) then False
        else True)"
| "isRetryable (OtherObject e) = True"
| "isRetryable NotObject = True"

section \<open>The circuit breaker\<close>

datatype CircuitState = Closed | Open | HalfOpen

record CircuitBreakerState =
  state :: CircuitState
  failures :: nat
  lastFailureAt :: jsnum
  lastAttemptAt :: jsnum

record CircuitBreakerConfig =
  cb_enabled :: bool
  threshold :: jsnum
  resetMs :: jsnum

record RetryConfig =
  retry_enabled :: bool
  maxAttempts :: int
  initialDelayMs :: jsnum
  maxDelayMs :: jsnum
  jitterFactor :: jsnum

type_synonym circuits = "(string, CircuitBreakerState) jsmap"

definition fresh_circuit :: CircuitBreakerState where
  "fresh_circuit = \<lparr>state = Closed, failures = 0, lastFailureAt = 0, lastAttemptAt = 0\<rparr>"

text \<open>The dash of the message, outside ASCII, as its UTF-8 bytes.\<close>

definition em_dash :: string where
  "em_dash = [CHR 0xE2, CHR 0x80, CHR 0x94]"

definition CircuitOpenError :: "string \<Rightarrow> thrown" where
  "CircuitOpenError key =
     ErrorInstance (plain_error ''CircuitOpenError''
       (''Circuit breaker is open for '' @ [CHR 0x22] @ key @ [CHR 0x22, CHR 0x20] @ em_dash @ '' request rejected''))"

definition timeout_message :: "string \<Rightarrow> int \<Rightarrow> string" where
  "timeout_message key timeoutMs =
     ''Request to '' @ [CHR 0x22] @ key @ [CHR 0x22] @ '' timed out after '' @ to_radix 10 (nat timeoutMs) @ ''ms''"

definition RequestTimeoutError :: "string \<Rightarrow> int \<Rightarrow> thrown" where
  "RequestTimeoutError key timeoutMs =
     ErrorInstance (plain_error ''RequestTimeoutError'' (timeout_message key timeoutMs))"

text \<open>\<open>getCircuit\<close> stores the fresh state it hands out, so reading a key creates it.\<close>

definition getCircuit :: "string \<Rightarrow> circuits \<Rightarrow> CircuitBreakerState \<times> circuits" where
  "getCircuit key cs =
     (case map_get cs key of
        Some c \<Rightarrow> (c, cs)
      | None \<Rightarrow> (fresh_circuit, map_set cs key fresh_circuit))"

definition checkCircuit ::
  "string \<Rightarrow> CircuitBreakerConfig \<Rightarrow> jsnum \<Rightarrow> circuits \<Rightarrow> thrown option \<times> circuits" where
  "checkCircuit key cfg now cs =
     (if \<not> cb_enabled cfg then (None, cs)
      else
        let (c, cs') = getCircuit key cs in
        if state c = Open then
          if now - lastFailureAt c \<ge> resetMs cfg
          then (None, map_set cs' key (c\<lparr>state := HalfOpen, lastAttemptAt := now\<rparr>))
          else (Some (CircuitOpenError key), cs')
        else (None, map_set cs' key (c\<lparr>lastAttemptAt := now\<rparr>)))"

definition recordSuccess :: "string \<Rightarrow> CircuitBreakerConfig \<Rightarrow> circuits \<Rightarrow> circuits" where
  "recordSuccess key cfg cs =
     (if \<not> cb_enabled cfg then cs
      else let (c, cs') = getCircuit key cs in map_set cs' key (c\<lparr>state := Closed, failures := 0\<rparr>))"

definition recordFailure :: "string \<Rightarrow> CircuitBreakerConfig \<Rightarrow> jsnum \<Rightarrow> circuits \<Rightarrow> circuits" where
  "recordFailure key cfg now cs =
     (if \<not> cb_enabled cfg then cs
      else
        let (c, cs') = getCircuit key cs;
            c' = c\<lparr>failures := failures c + 1, lastFailureAt := now\<rparr>
        in map_set cs' key
             (if state c = HalfOpen \<or> of_nat (failures c') \<ge> threshold cfg then c'\<lparr>state := Open\<rparr> else c'))"

text \<open>
  The caller's predicate: absent, or a function that answers \<^verbatim>\<open>false\<close> (\<^term>\<open>Some False\<close>), anything else
  (\<^term>\<open>Some True\<close>) or throws (\<^const>\<open>None\<close>).
\<close>

definition countsAsFailure :: "(thrown \<Rightarrow> bool option) option \<Rightarrow> thrown \<Rightarrow> bool" where
  "countsAsFailure countFailure e =
     (case countFailure of
        None \<Rightarrow> True
      | Some f \<Rightarrow> (case f e of None \<Rightarrow> True | Some answer \<Rightarrow> answer))"

definition recordCallFailure ::
  "string \<Rightarrow> (thrown \<Rightarrow> bool option) option \<Rightarrow> CircuitBreakerConfig \<Rightarrow> jsnum \<Rightarrow> thrown \<Rightarrow> circuits \<Rightarrow> circuits" where
  "recordCallFailure key countFailure cfg now e cs =
     (if \<not> cb_enabled cfg then cs
      else if \<not> countsAsFailure countFailure e then cs
      else recordFailure key cfg now cs)"

definition getCircuitState :: "string \<Rightarrow> circuits \<Rightarrow> CircuitBreakerState option" where
  "getCircuitState key cs = map_get cs key"

definition resetCircuit :: "string \<Rightarrow> circuits \<Rightarrow> circuits" where
  "resetCircuit key cs = map_delete cs key"

definition resetAllCircuits :: "circuits \<Rightarrow> circuits" where
  "resetAllCircuits cs = []"

section \<open>Retrying\<close>

definition calculateDelay :: "nat \<Rightarrow> RetryConfig \<Rightarrow> jsnum \<Rightarrow> jsnum" where
  "calculateDelay attempt cfg random =
     (let baseDelay = initialDelayMs cfg * 2 ^ (attempt - 1);
          cappedDelay = min baseDelay (maxDelayMs cfg);
          jitter = cappedDelay * jitterFactor cfg * (random * 2 - 1)
      in max 0 (math_round (cappedDelay + jitter)))"

text \<open>How an operation settles, counted from its start.\<close>

datatype 'r settle = Resolves jsnum 'r | Rejects jsnum thrown | Hangs

text \<open>
  The caller's signal: the instant it aborts, if it ever does, and its reason when that is an
  \<^verbatim>\<open>Error\<close> named \<^verbatim>\<open>AbortError\<close>.
\<close>

record abort_signal =
  aborts_at :: "jsnum option"
  abort_reason :: "error_info option"

definition abortErrorFrom :: "abort_signal option \<Rightarrow> thrown" where
  "abortErrorFrom signal =
     (case (case signal of None \<Rightarrow> None | Some s \<Rightarrow> abort_reason s) of
        Some r \<Rightarrow> if err_name r = ''AbortError'' then ErrorInstance r
                  else ErrorInstance (plain_error ''AbortError'' ''The operation was aborted'')
      | None \<Rightarrow> ErrorInstance (plain_error ''AbortError'' ''The operation was aborted''))"

definition aborted :: "abort_signal option \<Rightarrow> jsnum \<Rightarrow> bool" where
  "aborted signal now =
     (case signal of
        None \<Rightarrow> False
      | Some s \<Rightarrow> (case aborts_at s of None \<Rightarrow> False | Some t \<Rightarrow> t \<le> now))"

text \<open>The settlements of a race as (instant, outcome), in the order they were put in.\<close>

definition op_settlement :: "jsnum \<Rightarrow> 'r settle \<Rightarrow> (jsnum \<times> (thrown + 'r)) list" where
  "op_settlement now s =
     (case s of
        Resolves d r \<Rightarrow> [(now + d, Inr r)]
      | Rejects d e \<Rightarrow> [(now + d, Inl e)]
      | Hangs \<Rightarrow> [])"

definition interruptions ::
  "string \<Rightarrow> int \<Rightarrow> abort_signal option \<Rightarrow> jsnum \<Rightarrow> (jsnum \<times> (thrown + 'r)) list" where
  "interruptions key timeoutMs signal now =
     (if timeoutMs > 0 then [(now + of_int timeoutMs, Inl (RequestTimeoutError key timeoutMs))] else [])
     @ (case signal of
          None \<Rightarrow> []
        | Some s \<Rightarrow> (case aborts_at s of None \<Rightarrow> [] | Some t \<Rightarrow> [(t, Inl (abortErrorFrom signal))]))"

fun race :: "(jsnum \<times> 'a) list \<Rightarrow> (jsnum \<times> 'a) option" where
  "race [] = None"
| "race ((t, x) # rest) =
     (case race rest of
        None \<Rightarrow> Some (t, x)
      | Some (t', x') \<Rightarrow> if t \<le> t' then Some (t, x) else Some (t', x'))"

definition runAttempt ::
  "string \<Rightarrow> int \<Rightarrow> abort_signal option \<Rightarrow> 'r settle \<Rightarrow> jsnum \<Rightarrow> (jsnum \<times> (thrown + 'r)) option" where
  "runAttempt key timeoutMs signal op now =
     (if aborted signal now then Some (now, Inl (abortErrorFrom signal))
      else if timeoutMs \<le> 0 \<and> signal = None then race (op_settlement now op)
      else race (op_settlement now op @ interruptions key timeoutMs signal now))"

text \<open>The instant a sleep ends: after its delay, or when the signal aborts.\<close>

definition sleep_until :: "jsnum \<Rightarrow> abort_signal option \<Rightarrow> jsnum \<Rightarrow> jsnum" where
  "sleep_until ms signal now =
     (if aborted signal now then now
      else case signal of
        None \<Rightarrow> now + ms
      | Some s \<Rightarrow> (case aborts_at s of None \<Rightarrow> now + ms | Some t \<Rightarrow> min t (now + ms)))"

record 'r world =
  operation :: "nat \<Rightarrow> 'r settle"
  random :: "nat \<Rightarrow> jsnum"
  during_attempt :: "nat \<Rightarrow> circuits \<Rightarrow> circuits"
  during_sleep :: "nat \<Rightarrow> circuits \<Rightarrow> circuits"

record resilience_call =
  call_key :: string
  retry_cfg :: RetryConfig
  cb_cfg :: CircuitBreakerConfig
  timeout_ms :: int
  caller_signal :: "abort_signal option"
  count_failure :: "(thrown \<Rightarrow> bool option) option"

text \<open>The gateway's configuration and the options a caller may override it with.\<close>

record gateway_config =
  retryEnabled :: bool
  retryMaxAttempts :: int
  retryInitialDelayMs :: jsnum
  circuitBreakerEnabled :: bool
  circuitBreakerThreshold :: jsnum
  circuitBreakerResetMs :: jsnum
  requestTimeoutMs :: int

record ResilienceOptions =
  opt_key :: string
  opt_retry_enabled :: "bool option"
  opt_maxAttempts :: "int option"
  opt_initialDelayMs :: "jsnum option"
  opt_maxDelayMs :: "jsnum option"
  opt_jitterFactor :: "jsnum option"
  opt_cb_enabled :: "bool option"
  opt_threshold :: "jsnum option"
  opt_resetMs :: "jsnum option"
  opt_timeoutMs :: "int option"
  opt_signal :: "abort_signal option"
  opt_countFailure :: "(thrown \<Rightarrow> bool option) option"

definition resolve_options :: "gateway_config \<Rightarrow> ResilienceOptions \<Rightarrow> resilience_call" where
  "resolve_options g opts =
     \<lparr>call_key = opt_key opts,
      retry_cfg = \<lparr>retry_enabled = nullish (opt_retry_enabled opts) (retryEnabled g),
                   maxAttempts = nullish (opt_maxAttempts opts) (retryMaxAttempts g),
                   initialDelayMs = nullish (opt_initialDelayMs opts) (retryInitialDelayMs g),
                   maxDelayMs = nullish (opt_maxDelayMs opts) 5000,
                   jitterFactor = nullish (opt_jitterFactor opts) (1 / 4)\<rparr>,
      cb_cfg = \<lparr>cb_enabled = nullish (opt_cb_enabled opts) (circuitBreakerEnabled g),
                threshold = nullish (opt_threshold opts) (circuitBreakerThreshold g),
                resetMs = nullish (opt_resetMs opts) (circuitBreakerResetMs g)\<rparr>,
      timeout_ms = nullish (opt_timeoutMs opts) (requestTimeoutMs g),
      caller_signal = opt_signal opts,
      count_failure = opt_countFailure opts\<rparr>"

text \<open>What a call leaves: its outcome, the circuits, the instant, and how often it ran the operation.\<close>

record 'r call_result =
  outcome :: "thrown + 'r"
  circuits_after :: circuits
  ended_at :: jsnum
  attempts_run :: nat

definition finish :: "thrown + 'r \<Rightarrow> circuits \<Rightarrow> jsnum \<Rightarrow> nat \<Rightarrow> 'r call_result option" where
  "finish r cs now n = Some \<lparr>outcome = r, circuits_after = cs, ended_at = now, attempts_run = n\<rparr>"

definition max_attempts :: "resilience_call \<Rightarrow> int" where
  "max_attempts call = (if retry_enabled (retry_cfg call) then maxAttempts (retry_cfg call) else 1)"

text \<open>
  The \<^verbatim>\<open>for\<close> loop from an attempt number on, with the last error, the circuits and the clock.
  \<^const>\<open>None\<close> is a call that stays suspended in an attempt for ever.
\<close>

function attempt_loop ::
  "resilience_call \<Rightarrow> 'r world \<Rightarrow> nat \<Rightarrow> thrown \<Rightarrow> circuits \<Rightarrow> jsnum \<Rightarrow> 'r call_result option" where
  "attempt_loop call w attempt lastError cs now =
     (if int attempt > max_attempts call then finish (Inl lastError) cs now (attempt - 1)
      else
        let key = call_key call; signal = caller_signal call in
        case runAttempt key (timeout_ms call) signal (operation w attempt) now of
          None \<Rightarrow> None
        | Some (t, result) \<Rightarrow>
            let csA = during_attempt w attempt cs in
            case result of
              Inr r \<Rightarrow> finish (Inr r) (recordSuccess key (cb_cfg call) csA) t attempt
            | Inl e \<Rightarrow>
                if aborted signal t then finish (Inl (abortErrorFrom signal)) csA t attempt
                else if \<not> isRetryable e then
                  finish (Inl e) (recordCallFailure key (count_failure call) (cb_cfg call) t e csA) t attempt
                else if int attempt < max_attempts call then
                  let delay = calculateDelay attempt (retry_cfg call) (random w attempt);
                      t' = sleep_until delay signal t;
                      csS = during_sleep w attempt csA
                  in if aborted signal t' then finish (Inl (abortErrorFrom signal)) csS t' attempt
                     else case checkCircuit key (cb_cfg call) t' csS of
                            (Some cbError, csC) \<Rightarrow> finish (Inl cbError) csC t' attempt
                          | (None, csC) \<Rightarrow> attempt_loop call w (attempt + 1) e csC t'
                else finish (Inl e) (recordCallFailure key (count_failure call) (cb_cfg call) t e csA) t attempt)"
  by pat_completeness auto
termination
  by (relation "measure (\<lambda>(call, w, attempt, e, cs, now). nat (max_attempts call + 1 - int attempt))") auto

declare attempt_loop.simps [simp del]

definition withResilience ::
  "resilience_call \<Rightarrow> 'r world \<Rightarrow> circuits \<Rightarrow> jsnum \<Rightarrow> 'r call_result option" where
  "withResilience call w cs now =
     (let key = call_key call; signal = caller_signal call in
      if aborted signal now then finish (Inl (abortErrorFrom signal)) cs now 0
      else case checkCircuit key (cb_cfg call) now cs of
             (Some cbError, csC) \<Rightarrow> finish (Inl cbError) csC now 0
           | (None, csC) \<Rightarrow> attempt_loop call w 1 NotObject csC now)"

section \<open>One breaker\<close>

lemma getCircuit_snd [simp]: "map_get (snd (getCircuit key cs)) k =
    (if k = key then Some (fst (getCircuit key cs)) else map_get cs k)"
  by (auto simp: getCircuit_def split: option.splits)

lemma checkCircuit_other [simp]: "k \<noteq> key \<Longrightarrow> map_get (snd (checkCircuit key cfg now cs)) k = map_get cs k"
  by (auto simp: checkCircuit_def getCircuit_def split: option.splits)

lemma recordSuccess_other [simp]: "k \<noteq> key \<Longrightarrow> map_get (recordSuccess key cfg cs) k = map_get cs k"
  by (auto simp: recordSuccess_def getCircuit_def split: option.splits)

lemma recordFailure_other [simp]: "k \<noteq> key \<Longrightarrow> map_get (recordFailure key cfg now cs) k = map_get cs k"
  by (auto simp: recordFailure_def getCircuit_def Let_def split: option.splits)

text \<open>The circuit of a key as the operations see it: an absent one is fresh.\<close>

definition circuit_of :: "circuits \<Rightarrow> string \<Rightarrow> CircuitBreakerState" where
  "circuit_of cs key = nullish (map_get cs key) fresh_circuit"

lemma fst_getCircuit: "fst (getCircuit key cs) = circuit_of cs key"
  by (auto simp: getCircuit_def circuit_of_def split: option.splits)

lemma circuit_of_checkCircuit:
  "circuit_of (snd (checkCircuit key cfg now cs)) key =
     (let c = circuit_of cs key in
      if \<not> cb_enabled cfg then c
      else if state c \<noteq> Open then c\<lparr>lastAttemptAt := now\<rparr>
      else if now - lastFailureAt c \<ge> resetMs cfg then c\<lparr>state := HalfOpen, lastAttemptAt := now\<rparr>
      else c)"
  by (auto simp: checkCircuit_def getCircuit_def circuit_of_def split: option.splits)

lemma checkCircuit_rejects:
  "fst (checkCircuit key cfg now cs) =
     (if cb_enabled cfg \<and> state (circuit_of cs key) = Open
         \<and> now - lastFailureAt (circuit_of cs key) < resetMs cfg
      then Some (CircuitOpenError key) else None)"
  by (auto simp: checkCircuit_def getCircuit_def circuit_of_def fresh_circuit_def split: option.splits)

lemma circuit_of_recordSuccess:
  "circuit_of (recordSuccess key cfg cs) key =
     (if cb_enabled cfg then (circuit_of cs key)\<lparr>state := Closed, failures := 0\<rparr> else circuit_of cs key)"
  by (auto simp: recordSuccess_def getCircuit_def circuit_of_def split: option.splits)

lemma circuit_of_recordFailure:
  "circuit_of (recordFailure key cfg now cs) key =
     (let c = circuit_of cs key;
          c' = c\<lparr>failures := failures c + 1, lastFailureAt := now\<rparr>
      in if \<not> cb_enabled cfg then c
         else if state c = HalfOpen \<or> of_nat (failures c') \<ge> threshold cfg then c'\<lparr>state := Open\<rparr> else c')"
  by (auto simp: recordFailure_def getCircuit_def circuit_of_def Let_def split: option.splits)

lemmas circuit_of_ops = circuit_of_checkCircuit circuit_of_recordSuccess circuit_of_recordFailure

section \<open>The runs of a call\<close>

text \<open>
  The ways a loop can go, one rule per exit and one for a retry: the relational reading of
  \<open>attempt_loop\<close>, for proofs by rule induction.
\<close>

inductive run ::
  "resilience_call \<Rightarrow> 'r world \<Rightarrow> nat \<Rightarrow> thrown \<Rightarrow> circuits \<Rightarrow> jsnum \<Rightarrow> 'r call_result \<Rightarrow> bool"
  for call :: resilience_call and w :: "'r world" where
  no_attempt:
    "int n > max_attempts call \<Longrightarrow> finish (Inl e0) cs now (n - 1) = Some r \<Longrightarrow> run call w n e0 cs now r"
| success:
    "int n \<le> max_attempts call \<Longrightarrow>
     runAttempt (call_key call) (timeout_ms call) (caller_signal call) (operation w n) now = Some (t, Inr x) \<Longrightarrow>
     finish (Inr x) (recordSuccess (call_key call) (cb_cfg call) (during_attempt w n cs)) t n = Some r \<Longrightarrow>
     run call w n e0 cs now r"
| cancelled:
    "int n \<le> max_attempts call \<Longrightarrow>
     runAttempt (call_key call) (timeout_ms call) (caller_signal call) (operation w n) now = Some (t, Inl e) \<Longrightarrow>
     aborted (caller_signal call) t \<Longrightarrow>
     finish (Inl (abortErrorFrom (caller_signal call))) (during_attempt w n cs) t n = Some r \<Longrightarrow>
     run call w n e0 cs now r"
| failed:
    "int n \<le> max_attempts call \<Longrightarrow>
     runAttempt (call_key call) (timeout_ms call) (caller_signal call) (operation w n) now = Some (t, Inl e) \<Longrightarrow>
     \<not> aborted (caller_signal call) t \<Longrightarrow> \<not> isRetryable e \<or> int n = max_attempts call \<Longrightarrow>
     finish (Inl e) (recordCallFailure (call_key call) (count_failure call) (cb_cfg call) t e
       (during_attempt w n cs)) t n = Some r \<Longrightarrow>
     run call w n e0 cs now r"
| cancelled_asleep:
    "int n < max_attempts call \<Longrightarrow>
     runAttempt (call_key call) (timeout_ms call) (caller_signal call) (operation w n) now = Some (t, Inl e) \<Longrightarrow>
     \<not> aborted (caller_signal call) t \<Longrightarrow> isRetryable e \<Longrightarrow>
     t' = sleep_until (calculateDelay n (retry_cfg call) (random w n)) (caller_signal call) t \<Longrightarrow>
     aborted (caller_signal call) t' \<Longrightarrow>
     finish (Inl (abortErrorFrom (caller_signal call))) (during_sleep w n (during_attempt w n cs)) t' n = Some r \<Longrightarrow>
     run call w n e0 cs now r"
| tripped:
    "int n < max_attempts call \<Longrightarrow>
     runAttempt (call_key call) (timeout_ms call) (caller_signal call) (operation w n) now = Some (t, Inl e) \<Longrightarrow>
     \<not> aborted (caller_signal call) t \<Longrightarrow> isRetryable e \<Longrightarrow>
     t' = sleep_until (calculateDelay n (retry_cfg call) (random w n)) (caller_signal call) t \<Longrightarrow>
     \<not> aborted (caller_signal call) t' \<Longrightarrow>
     checkCircuit (call_key call) (cb_cfg call) t' (during_sleep w n (during_attempt w n cs)) = (Some cbError, csC) \<Longrightarrow>
     finish (Inl cbError) csC t' n = Some r \<Longrightarrow>
     run call w n e0 cs now r"
| retry:
    "int n < max_attempts call \<Longrightarrow>
     runAttempt (call_key call) (timeout_ms call) (caller_signal call) (operation w n) now = Some (t, Inl e) \<Longrightarrow>
     \<not> aborted (caller_signal call) t \<Longrightarrow> isRetryable e \<Longrightarrow>
     t' = sleep_until (calculateDelay n (retry_cfg call) (random w n)) (caller_signal call) t \<Longrightarrow>
     \<not> aborted (caller_signal call) t' \<Longrightarrow>
     checkCircuit (call_key call) (cb_cfg call) t' (during_sleep w n (during_attempt w n cs)) = (None, csC) \<Longrightarrow>
     run call w (n + 1) e csC t' r \<Longrightarrow>
     run call w n e0 cs now r"

lemma attempt_loop_run: "attempt_loop call w n e0 cs now = Some r \<Longrightarrow> run call w n e0 cs now r"
proof (induction call w n e0 cs now rule: attempt_loop.induct)
  case (1 call w n e0 cs now)
  let ?attempt = "runAttempt (call_key call) (timeout_ms call) (caller_signal call) (operation w n) now"
  note step = 1(2) [unfolded attempt_loop.simps [of call w n]]
  show ?case
  proof (cases "int n > max_attempts call")
    case True
    then show ?thesis using step by (intro no_attempt) simp_all
  next
    case le: False
    then obtain t res where att: "?attempt = Some (t, res)"
      using step by (auto simp: Let_def split: option.splits)
    show ?thesis
    proof (cases res)
      case (Inr x)
      then show ?thesis using step le att by (intro success [of n call w now t x]) simp_all
    next
      case (Inl e)
      let ?t' = "sleep_until (calculateDelay n (retry_cfg call) (random w n)) (caller_signal call) t"
      obtain verdict csC where check: "checkCircuit (call_key call) (cb_cfg call) ?t'
          (during_sleep w n (during_attempt w n cs)) = (verdict, csC)"
        by (meson surj_pair)
      consider "aborted (caller_signal call) t"
        | "\<not> aborted (caller_signal call) t" "\<not> isRetryable e \<or> int n = max_attempts call"
        | "\<not> aborted (caller_signal call) t" "isRetryable e" "int n < max_attempts call"
        using le by linarith
      then show ?thesis
      proof cases
        case 1
        then show ?thesis using step le att Inl by (intro cancelled [of n call w now t e]) simp_all
      next
        case 2
        then show ?thesis using step le att Inl by (intro failed [of n call w now t e]) (auto simp: Let_def split: if_splits)
      next
        case 3
        show ?thesis
        proof (cases "aborted (caller_signal call) ?t'")
          case True
          then show ?thesis
            using step le att Inl 3 by (intro cancelled_asleep [of n call w now t e]) (auto simp: Let_def)
        next
          case False
          show ?thesis
          proof (cases verdict)
            case None
            then have "attempt_loop call w (n + 1) e csC ?t' = Some r"
              using step le att Inl 3 False check by (simp add: Let_def)
            then have "run call w (n + 1) e csC ?t' r"
              using 1 le att Inl 3 False check None by (simp add: Let_def)
            then show ?thesis
              using att Inl 3 False check None by (intro retry [of n call w now t e]) auto
          next
            case (Some cbError)
            then show ?thesis using step le att Inl 3 False check
              by (intro tripped [of n call w now t e]) (auto simp: Let_def)
          qed
        qed
      qed
    qed
  qed
qed


lemma withResilience_cases:
  assumes "withResilience call w cs now = Some r"
  obtains (cancelled_before) "aborted (caller_signal call) now" "outcome r = Inl (abortErrorFrom (caller_signal call))"
      "circuits_after r = cs" "ended_at r = now" "attempts_run r = 0"
  | (rejected) cbError where "\<not> aborted (caller_signal call) now"
      "fst (checkCircuit (call_key call) (cb_cfg call) now cs) = Some cbError" "outcome r = Inl cbError"
      "circuits_after r = snd (checkCircuit (call_key call) (cb_cfg call) now cs)"
      "ended_at r = now" "attempts_run r = 0"
  | (started) "\<not> aborted (caller_signal call) now"
      "fst (checkCircuit (call_key call) (cb_cfg call) now cs) = None"
      "run call w 1 NotObject (snd (checkCircuit (call_key call) (cb_cfg call) now cs)) now r"
  using assms
  by (auto simp: withResilience_def finish_def Let_def split: if_splits prod.splits option.splits
           dest: attempt_loop_run)

lemma run_attempts: "run call w n e0 cs now r \<Longrightarrow> 1 \<le> n \<Longrightarrow>
    n - 1 \<le> attempts_run r \<and> int (attempts_run r) \<le> max (max_attempts call) (int n - 1)"
  by (induction rule: run.induct) (auto simp: finish_def)

section \<open>What concurrent calls may rely on\<close>

text \<open>
  A predicate on \<open>circuits\<close> that the three breaker operations of one key keep. Whatever is such a
  predicate survives a whole call, provided the concurrent calls keep it too.
\<close>

locale circuit_rely =
  fixes I :: "circuits \<Rightarrow> bool" and key :: string and cfg :: CircuitBreakerConfig
  assumes check_keeps: "I cs \<Longrightarrow> I (snd (checkCircuit key cfg now cs))"
    and success_keeps: "I cs \<Longrightarrow> I (recordSuccess key cfg cs)"
    and failure_keeps: "I cs \<Longrightarrow> I (recordFailure key cfg now cs)"
begin

lemma call_failure_keeps: "I cs \<Longrightarrow> I (recordCallFailure key cf cfg now e cs)"
  by (simp add: recordCallFailure_def failure_keeps)

lemma checked_keeps: "checkCircuit key cfg now cs = (v, cs') \<Longrightarrow> I cs \<Longrightarrow> I cs'"
  using check_keeps [of cs now] by simp

lemma run_keeps:
  assumes "run call w n e0 cs now r" "I cs" and "call_key call = key" "cb_cfg call = cfg"
    and "\<And>i cs. I cs \<Longrightarrow> I (during_attempt w i cs)" "\<And>i cs. I cs \<Longrightarrow> I (during_sleep w i cs)"
  shows "I (circuits_after r)"
  using assms(1,2)
  by (induction rule: run.induct)
     (auto simp: finish_def assms(3-) success_keeps call_failure_keeps dest: checked_keeps)

lemma call_keeps:
  assumes "withResilience call w cs now = Some r" "I cs" and "call_key call = key" "cb_cfg call = cfg"
    and "\<And>i cs. I cs \<Longrightarrow> I (during_attempt w i cs)" "\<And>i cs. I cs \<Longrightarrow> I (during_sleep w i cs)"
  shows "I (circuits_after r)"
  using assms(1)
  by (cases rule: withResilience_cases) (auto simp: assms(2-) check_keeps dest: run_keeps [OF _ _ assms(3-6)])

end

interpretation frame: circuit_rely "\<lambda>cs. k \<noteq> key \<longrightarrow> map_get cs k = c" key cfg for k c key cfg
  by unfold_locales auto

interpretation keys: circuit_rely "\<lambda>cs. distinct (map fst cs)" key cfg for key cfg
  by unfold_locales
     (auto simp: checkCircuit_def recordSuccess_def recordFailure_def getCircuit_def Let_def
           split: option.splits intro: map_set_distinct)

lemma circuit_of_other [simp]:
  "k \<noteq> key \<Longrightarrow> circuit_of (snd (checkCircuit k c now cs)) key = circuit_of cs key"
  "k \<noteq> key \<Longrightarrow> circuit_of (recordSuccess k c cs) key = circuit_of cs key"
  "k \<noteq> key \<Longrightarrow> circuit_of (recordFailure k c now cs) key = circuit_of cs key"
  by (simp_all add: circuit_of_def)

lemma circuit_of_reset [simp]:
  "circuit_of (resetCircuit k cs) key = (if k = key then fresh_circuit else circuit_of cs key)"
  "circuit_of (resetAllCircuits cs) key = fresh_circuit"
  "circuit_of [] key = fresh_circuit"
  by (simp_all add: circuit_of_def resetCircuit_def resetAllCircuits_def)

text \<open>A call, and a quiet world in which its operation resolves with the given result after a while.\<close>

definition sample_call :: "string \<Rightarrow> int \<Rightarrow> resilience_call" where
  "sample_call key n =
     \<lparr>call_key = key,
      retry_cfg = \<lparr>retry_enabled = True, maxAttempts = n, initialDelayMs = 2, maxDelayMs = 10, jitterFactor = 0\<rparr>,
      cb_cfg = \<lparr>cb_enabled = True, threshold = 2, resetMs = 30\<rparr>,
      timeout_ms = 20, caller_signal = None, count_failure = None\<rparr>"

definition sample_world :: "(nat \<Rightarrow> nat settle) \<Rightarrow> nat world" where
  "sample_world ops = \<lparr>operation = ops, random = (\<lambda>i. 0), during_attempt = (\<lambda>i cs. cs), during_sleep = (\<lambda>i cs. cs)\<rparr>"

lemmas sample_simps = sample_call_def sample_world_def withResilience_def attempt_loop.simps checkCircuit_def
  getCircuit_def fresh_circuit_def Let_def aborted_def runAttempt_def op_settlement_def interruptions_def
  max_attempts_def recordSuccess_def recordFailure_def recordCallFailure_def countsAsFailure_def finish_def
  sleep_until_def calculateDelay_def circuit_of_def

text \<open>
  While a key's breaker is open and its reset time has not passed since the last failure, a call
  is rejected with a \<open>CircuitOpenError\<close> at once: the operation is not run, and the circuits stay as
  they are.
\<close>

theorem open_circuit_rejects:
  assumes "map_get cs (call_key call) = Some c" "state c = Open" "cb_enabled (cb_cfg call)"
    and "now - lastFailureAt c < resetMs (cb_cfg call)" and "\<not> aborted (caller_signal call) now"
  shows "withResilience call w cs now =
    Some \<lparr>outcome = Inl (CircuitOpenError (call_key call)), circuits_after = cs, ended_at = now, attempts_run = 0\<rparr>"
  using assms by (simp add: withResilience_def checkCircuit_def getCircuit_def finish_def Let_def)

theorem open_circuit_rejects_witness:
  "attempts_run (the (withResilience (sample_call ''p'' 3) (sample_world (\<lambda>i. Resolves 1 7))
     [(''p'', \<lparr>state = Open, failures = 2, lastFailureAt = 90, lastAttemptAt = 80\<rparr>)] 100)) = 0"
  using open_circuit_rejects
    [of "[(''p'', \<lparr>state = Open, failures = 2, lastFailureAt = 90, lastAttemptAt = 80\<rparr>)]" "sample_call ''p'' 3"
      "\<lparr>state = Open, failures = 2, lastFailureAt = 90, lastAttemptAt = 80\<rparr>" 100
      "sample_world (\<lambda>i. Resolves 1 7)"]
  by (simp add: sample_call_def aborted_def)

definition failed_at :: "string \<Rightarrow> CircuitBreakerConfig \<Rightarrow> jsnum list \<Rightarrow> circuits" where
  "failed_at key cfg ts = foldl (\<lambda>cs t. recordFailure key cfg t cs) [] ts"

lemma recorded_failures:
  assumes "cb_enabled cfg" "0 < threshold cfg" "ts \<noteq> []"
  shows "circuit_of (failed_at key cfg ts) key =
    \<lparr>state = (if of_nat (length ts) \<ge> threshold cfg then Open else Closed), failures = length ts,
     lastFailureAt = last ts, lastAttemptAt = 0\<rparr>"
  using assms(3)
proof (induction ts rule: rev_nonempty_induct)
  case (single t)
  then show ?case using assms(1,2) by (simp add: failed_at_def circuit_of_ops Let_def fresh_circuit_def)
next
  case (snoc t ts)
  then show ?case using assms(1,2) by (simp add: failed_at_def circuit_of_ops Let_def add.commute)
qed

text \<open>
  Starting from no circuits, any number of consecutive counted failures of a key leaves its breaker
  open exactly when they are at least as many as the threshold, with the instant of the last one; and from
  then on a check passes exactly when the reset time has passed since, making the breaker half open.
\<close>

theorem breaker_trips_at_threshold:
  assumes "cb_enabled cfg" "0 < threshold cfg" "ts \<noteq> []"
  shows "(state (circuit_of (failed_at key cfg ts) key) = Open \<longleftrightarrow> of_nat (length ts) \<ge> threshold cfg) \<and>
    (of_nat (length ts) \<ge> threshold cfg \<longrightarrow>
      (fst (checkCircuit key cfg now (failed_at key cfg ts)) = None \<longleftrightarrow> now - last ts \<ge> resetMs cfg) \<and>
      (now - last ts \<ge> resetMs cfg \<longrightarrow>
        state (circuit_of (snd (checkCircuit key cfg now (failed_at key cfg ts))) key) = HalfOpen))"
  using assms recorded_failures [of cfg ts key]
  by (auto simp: checkCircuit_rejects circuit_of_checkCircuit Let_def)

theorem breaker_trips_at_threshold_witness:
  "state (circuit_of (failed_at ''p'' \<lparr>cb_enabled = True, threshold = 2, resetMs = 30\<rparr> [5, 9]) ''p'') = Open"
  using breaker_trips_at_threshold [of "\<lparr>cb_enabled = True, threshold = 2, resetMs = 30\<rparr>" "[5, 9]" "''p''" 10]
  by simp

section \<open>A call ends\<close>

lemma race_defined: "race xs = None \<longleftrightarrow> xs = []"
  by (cases xs rule: race.cases) (auto split: option.splits)

lemma race_le: "race xs = Some (t, x) \<Longrightarrow> (t', x') \<in> set xs \<Longrightarrow> t \<le> t'"
proof (induction xs arbitrary: t x rule: race.induct)
  case (2 t0 x0 rest)
  show ?case
  proof (cases "race rest")
    case None
    then show ?thesis using 2 by (auto simp: race_defined)
  next
    case (Some y)
    then show ?thesis using 2 by (cases y) (fastforce split: if_splits)
  qed
qed simp

lemma runAttempt_timeout:
  assumes "0 < timeoutMs"
  shows "runAttempt key timeoutMs signal op now \<noteq> None"
    and "runAttempt key timeoutMs signal op now = Some (t, x) \<Longrightarrow> t \<le> now + of_int timeoutMs"
  using assms
  by (auto simp: runAttempt_def interruptions_def race_defined simp del: not_None_eq split: if_splits dest: race_le)

lemma sleep_until_le: "0 \<le> ms \<Longrightarrow> sleep_until ms signal now \<le> now + ms"
  by (auto simp: sleep_until_def split: option.splits)

definition longest_delay :: "RetryConfig \<Rightarrow> jsnum" where
  "longest_delay cfg = math_round (maxDelayMs cfg * (1 + jitterFactor cfg))"

definition retry_ok :: "RetryConfig \<Rightarrow> bool" where
  "retry_ok cfg \<longleftrightarrow> 0 \<le> initialDelayMs cfg \<and> 0 \<le> maxDelayMs cfg \<and> 0 \<le> jitterFactor cfg"

lemma calculateDelay_bounds:
  assumes "retry_ok cfg" "rnd \<le> 1"
  shows "0 \<le> calculateDelay n cfg rnd" and "calculateDelay n cfg rnd \<le> longest_delay cfg"
proof -
  let ?c = "min (initialDelayMs cfg * 2 ^ (n - 1)) (maxDelayMs cfg)" and ?j = "jitterFactor cfg"
  have c: "0 \<le> ?c" "?c \<le> maxDelayMs cfg" and j: "0 \<le> ?j" "0 \<le> maxDelayMs cfg"
    using assms(1) by (simp_all add: retry_ok_def)
  have "?c + ?c * ?j * (rnd * 2 - 1) \<le> ?c * (1 + ?j)"
    using mult_left_mono [of "rnd * 2 - 1" 1 "?c * ?j"] assms(2) c j by (simp add: algebra_simps)
  also have "\<dots> \<le> maxDelayMs cfg * (1 + ?j)"
    using c j by (intro mult_right_mono) auto
  finally have "math_round (?c + ?c * ?j * (rnd * 2 - 1)) \<le> longest_delay cfg"
    unfolding longest_delay_def by (rule math_round_mono)
  moreover have "0 \<le> longest_delay cfg"
    using j by (simp add: longest_delay_def math_round_nonneg)
  ultimately show "calculateDelay n cfg rnd \<le> longest_delay cfg"
    by (simp add: calculateDelay_def Let_def)
qed (simp add: calculateDelay_def Let_def)

lemma longest_delay_nonneg: "retry_ok cfg \<Longrightarrow> 0 \<le> longest_delay cfg"
  by (simp add: longest_delay_def retry_ok_def math_round_nonneg)

lemma attempt_loop_returns:
  "0 < timeout_ms call \<Longrightarrow> attempt_loop call w n e0 cs now \<noteq> None"
proof (induction call w n e0 cs now rule: attempt_loop.induct)
  case (1 call w n e0 cs now)
  then show ?case
    using runAttempt_timeout(1) [OF 1(2), of "call_key call" "caller_signal call" "operation w n" now]
    by (subst attempt_loop.simps) (auto simp: finish_def Let_def split: option.splits sum.splits prod.splits)
qed

lemma run_latency:
  assumes "run call w n e0 cs now r" "1 \<le> n" "0 < timeout_ms call" "retry_ok (retry_cfg call)" "\<And>i. random w i \<le> 1"
  shows "ended_at r \<le> now + of_nat (attempts_run r - (n - 1)) * (of_int (timeout_ms call) + longest_delay (retry_cfg call))"
  using assms(1,2)
proof (induction rule: run.induct)
  case (retry n now t e t' cs csC r e0)
  let ?T = "of_int (timeout_ms call) + longest_delay (retry_cfg call)"
  have "t' \<le> now + ?T"
    using runAttempt_timeout(2) [OF assms(3) retry(2)] retry(5) calculateDelay_bounds [OF assms(4,5), of n n]
      sleep_until_le [of "calculateDelay n (retry_cfg call) (random w n)" "caller_signal call" t]
    by linarith
  moreover have "attempts_run r - (n - 1) = Suc (attempts_run r - n)"
    using run_attempts [OF retry(8)] retry(10) by auto
  ultimately show ?case using retry(9) by (simp add: algebra_simps)
next
  case (cancelled_asleep n now t e t' cs r e0)
  then show ?case
    using runAttempt_timeout(2) [OF assms(3) cancelled_asleep(2)] calculateDelay_bounds [OF assms(4,5), of n n]
      sleep_until_le [of "calculateDelay n (retry_cfg call) (random w n)" "caller_signal call" t]
    by (auto simp: finish_def)
next
  case (tripped n now t e t' cs cbError csC r e0)
  then show ?case
    using runAttempt_timeout(2) [OF assms(3) tripped(2)] calculateDelay_bounds [OF assms(4,5), of n n]
      sleep_until_le [of "calculateDelay n (retry_cfg call) (random w n)" "caller_signal call" t]
    by (auto simp: finish_def)
qed (use longest_delay_nonneg [OF assms(4)] in
     \<open>auto simp: finish_def dest!: runAttempt_timeout(2) [OF assms(3), rotated]\<close>)

text \<open>
  C35: With a positive timeout every call ends, even if the operation never settles: it runs the
  operation at most as often as the retry configuration allows and ends within the timeout plus the
  longest jittered delay per attempt it ran.
\<close>

theorem withResilience_ends_in_time:
  assumes "0 < timeout_ms call" "retry_ok (retry_cfg call)" "\<And>i. random w i \<le> 1"
  shows "\<exists>r. withResilience call w cs now = Some r \<and>
    int (attempts_run r) \<le> max 0 (max_attempts call) \<and>
    ended_at r \<le> now + of_nat (attempts_run r) * (of_int (timeout_ms call) + longest_delay (retry_cfg call))"
proof -
  have "withResilience call w cs now \<noteq> None"
    using attempt_loop_returns [OF assms(1)]
    by (auto simp: withResilience_def finish_def Let_def split: prod.splits option.splits)
  then obtain r where r: "withResilience call w cs now = Some r" by blast
  then show ?thesis
  proof (cases rule: withResilience_cases)
    case started
    then show ?thesis
      using r run_attempts [OF started(3)] run_latency [OF started(3) _ assms] by auto
  qed (use r in auto)
qed

theorem withResilience_ends_in_time_witness:
  "\<exists>r. withResilience (sample_call ''p'' 2) (sample_world (\<lambda>i. Hangs)) [] 100 = Some r \<and>
     int (attempts_run r) \<le> 2 \<and> ended_at r \<le> 100 + of_nat (attempts_run r) * 30"
  using withResilience_ends_in_time [of "sample_call ''p'' 2" "sample_world (\<lambda>i. Hangs)" "[]" 100]
  by (simp add: sample_call_def sample_world_def retry_ok_def longest_delay_def max_attempts_def)

section \<open>What a call does to its breaker\<close>

text \<open>The fields of a circuit that decide about later calls.\<close>

definition verdict_fields :: "CircuitBreakerState \<Rightarrow> CircuitState \<times> nat \<times> jsnum" where
  "verdict_fields c = (state c, failures c, lastFailureAt c)"

definition quiet :: "'r world \<Rightarrow> bool" where
  "quiet w \<longleftrightarrow> during_attempt w = (\<lambda>i cs. cs) \<and> during_sleep w = (\<lambda>i cs. cs)"

definition effect_on_breaker :: "resilience_call \<Rightarrow> 'r call_result \<Rightarrow> CircuitBreakerState \<Rightarrow> CircuitState \<times> nat \<times> jsnum" where
  "effect_on_breaker call r c =
     (case outcome r of
        Inr x \<Rightarrow> (Closed, 0, lastFailureAt c)
      | Inl e \<Rightarrow>
          if attempts_run r = 0 \<or> aborted (caller_signal call) (ended_at r)
             \<or> \<not> countsAsFailure (count_failure call) e
          then verdict_fields c
          else (if state c = HalfOpen \<or> of_nat (failures c + 1) \<ge> threshold (cb_cfg call) then Open else state c,
                failures c + 1, ended_at r))"

lemma checkCircuit_passes_again:
  assumes "cb_enabled cfg" "state (circuit_of cs key) \<noteq> Open"
  shows "fst (checkCircuit key cfg now cs) = None"
    and "verdict_fields (circuit_of (snd (checkCircuit key cfg now cs)) key) = verdict_fields (circuit_of cs key)"
  using assms by (simp_all add: checkCircuit_rejects circuit_of_checkCircuit verdict_fields_def)

lemma checkCircuit_passed:
  assumes "fst (checkCircuit key cfg now cs) = None" "cb_enabled cfg"
  shows "state (circuit_of (snd (checkCircuit key cfg now cs)) key) \<noteq> Open"
  using assms by (auto simp: checkCircuit_rejects circuit_of_checkCircuit Let_def split: if_splits)

lemma effect_on_breaker_cong:
  "verdict_fields c = verdict_fields c' \<Longrightarrow> effect_on_breaker call r c = effect_on_breaker call r c'"
  by (simp add: effect_on_breaker_def verdict_fields_def split: sum.split)

lemma run_effect:
  assumes "run call w n e0 cs now r" "1 \<le> n" "n = 1 \<or> int n \<le> max_attempts call"
    and "state (circuit_of cs (call_key call)) \<noteq> Open" "cb_enabled (cb_cfg call)" "quiet w"
  shows "verdict_fields (circuit_of (circuits_after r) (call_key call)) =
    effect_on_breaker call r (circuit_of cs (call_key call))"
  using assms(1-4)
proof (induction rule: run.induct)
  case (retry n now t e t' cs csC r e0)
  have check: "verdict_fields (circuit_of csC (call_key call)) = verdict_fields (circuit_of cs (call_key call))"
    using checkCircuit_passes_again(2) [OF assms(5) retry(12), of t'] retry(7) assms(6) by (simp add: quiet_def)
  then have "state (circuit_of csC (call_key call)) \<noteq> Open"
    using retry(12) by (simp add: verdict_fields_def)
  then show ?case
    using retry check by (simp add: effect_on_breaker_cong [OF check])
next
  case (tripped n now t e t' cs cbError csC r e0)
  then show ?case
    using checkCircuit_passes_again(1) [OF assms(5) tripped(11), of t'] assms(6) by (simp add: quiet_def)
next
  case (failed n now t e cs r e0)
  then show ?case
    using assms(5,6) by (auto simp: finish_def effect_on_breaker_def recordCallFailure_def circuit_of_ops Let_def
        quiet_def verdict_fields_def)
qed (use assms(5,6) in \<open>auto simp: finish_def effect_on_breaker_def circuit_of_ops quiet_def verdict_fields_def\<close>)

text \<open>
  A call that got past the breaker and is not disturbed does to it exactly this. A result closes it
  and clears its count. A caller's cancellation, and a failure the caller's predicate does not count,
  change nothing. Any other failure counts once, however many attempts were made, and opens
  the breaker when it was half open or the count reached the threshold.
\<close>

theorem call_counts_once:
  assumes "withResilience call w cs now = Some r" "quiet w" "cb_enabled (cb_cfg call)"
    and "\<not> aborted (caller_signal call) now" "fst (checkCircuit (call_key call) (cb_cfg call) now cs) = None"
  shows "verdict_fields (circuit_of (circuits_after r) (call_key call)) =
    effect_on_breaker call r (circuit_of (snd (checkCircuit (call_key call) (cb_cfg call) now cs)) (call_key call))"
  using assms(1)
proof (cases rule: withResilience_cases)
  case started
  then show ?thesis
    using run_effect [OF started(3)] checkCircuit_passed [OF assms(5,3)] assms(2,3) by simp
qed (use assms in auto)

lemma sample_two_failures:
  "withResilience (sample_call ''p'' 2) (sample_world (\<lambda>i. Rejects 3 NotObject)) [] 100 =
   Some \<lparr>outcome = Inl NotObject,
         circuits_after = [(''p'', \<lparr>state = Closed, failures = 1, lastFailureAt = 108, lastAttemptAt = 105\<rparr>)],
         ended_at = 108, attempts_run = 2\<rparr>"
  by (simp add: sample_simps)

theorem call_counts_once_witness:
  "verdict_fields (circuit_of (circuits_after (the (withResilience (sample_call ''p'' 2)
     (sample_world (\<lambda>i. Rejects 3 NotObject)) [] 100))) ''p'') = (Closed, 1, 108)"
  using call_counts_once [OF sample_two_failures]
  by (simp add: sample_two_failures)
     (simp add: quiet_def sample_call_def sample_world_def aborted_def checkCircuit_def getCircuit_def circuit_of_def
        fresh_circuit_def effect_on_breaker_def countsAsFailure_def)

section \<open>What a breaker remembers\<close>

text \<open>
  The record of a key: the instants of the failures that happened and count, since the last success or reset, latest first.
  It is kept from the calls and their outcomes and never read from the circuits. What a whole call adds to it follows from
  its outcome.
\<close>

definition call_log :: "resilience_call \<Rightarrow> 'r call_result \<Rightarrow> jsnum list \<Rightarrow> jsnum list" where
  "call_log call r fs =
     (case outcome r of
        Inr x \<Rightarrow> []
      | Inl e \<Rightarrow> if attempts_run r = 0 \<or> aborted (caller_signal call) (ended_at r) \<or> \<not> countsAsFailure (count_failure call) e
                then fs else ended_at r # fs)"

text \<open>
  Nothing else runs between two \<^verbatim>\<open>await\<close>s, so any interleaving of calls is a sequence of what they do between their awaits:
  checks, successes and failures of the callers of \<open>key\<close>, who share \<open>cfg\<close>, and those of other keys with any configuration.
  The administrator's resets come in between. Whole calls that nothing disturbs are in it too.
\<close>

inductive breaker_run :: "string \<Rightarrow> CircuitBreakerConfig \<Rightarrow> circuits \<Rightarrow> jsnum list \<Rightarrow> bool"
  for key :: string and cfg :: CircuitBreakerConfig where
  start: "breaker_run key cfg [] []"
| check: "breaker_run key cfg cs fs \<Longrightarrow> (k = key \<Longrightarrow> c = cfg) \<Longrightarrow> breaker_run key cfg (snd (checkCircuit k c now cs)) fs"
| succeed: "breaker_run key cfg cs fs \<Longrightarrow> (k = key \<Longrightarrow> c = cfg) \<Longrightarrow>
    breaker_run key cfg (recordSuccess k c cs) (if k = key then [] else fs)"
| fail: "breaker_run key cfg cs fs \<Longrightarrow> (k = key \<Longrightarrow> c = cfg) \<Longrightarrow>
    breaker_run key cfg (recordCallFailure k f c now e cs) (if k = key \<and> countsAsFailure f e then now # fs else fs)"
| reset: "breaker_run key cfg cs fs \<Longrightarrow> breaker_run key cfg (resetCircuit k cs) (if k = key then [] else fs)"
| reset_all: "breaker_run key cfg cs fs \<Longrightarrow> breaker_run key cfg (resetAllCircuits cs) []"
| call: "breaker_run key cfg cs fs \<Longrightarrow> withResilience call (w :: nat world) cs now = Some r \<Longrightarrow> quiet w \<Longrightarrow>
    (call_key call = key \<Longrightarrow> cb_cfg call = cfg) \<Longrightarrow>
    breaker_run key cfg (circuits_after r) (if call_key call = key then call_log call r fs else fs)"

text \<open>What the circuit of the key has to be, given the record.\<close>

definition remembers :: "CircuitBreakerConfig \<Rightarrow> jsnum list \<Rightarrow> CircuitBreakerState \<Rightarrow> bool" where
  "remembers cfg fs c \<longleftrightarrow>
     failures c = length fs \<and> (state c = Closed \<longleftrightarrow> of_nat (length fs) < threshold cfg)
     \<and> (fs \<noteq> [] \<longrightarrow> lastFailureAt c = hd fs)"

lemma remembers_cong: "verdict_fields c = verdict_fields c' \<Longrightarrow> remembers cfg fs c = remembers cfg fs c'"
  by (simp add: remembers_def verdict_fields_def)

lemma remembers_ops:
  assumes "cb_enabled cfg" "0 < threshold cfg" "remembers cfg fs (circuit_of cs key)"
  shows "remembers cfg fs (circuit_of (snd (checkCircuit key cfg now cs)) key)"
    and "remembers cfg [] (circuit_of (recordSuccess key cfg cs) key)"
    and "remembers cfg (now # fs) (circuit_of (recordFailure key cfg now cs) key)"
    and "remembers cfg [] fresh_circuit"
  using assms by (auto simp: remembers_def circuit_of_ops fresh_circuit_def Let_def)

lemma remembers_call:
  assumes "cb_enabled (cb_cfg call)" "0 < threshold (cb_cfg call)" "remembers (cb_cfg call) fs (circuit_of cs (call_key call))"
    and run: "withResilience call w cs now = Some r" "quiet w"
  shows "remembers (cb_cfg call) (call_log call r fs) (circuit_of (circuits_after r) (call_key call))"
  using run(1)
proof (cases rule: withResilience_cases)
  case cancelled_before
  then show ?thesis using assms(3) by (simp add: call_log_def)
next
  case (rejected cbError)
  then show ?thesis using remembers_ops(1) [OF assms(1-3)] by (simp add: call_log_def)
next
  case started
  let ?c = "circuit_of (snd (checkCircuit (call_key call) (cb_cfg call) now cs)) (call_key call)"
  have c: "remembers (cb_cfg call) fs ?c" by (rule remembers_ops(1) [OF assms(1-3)])
  have "verdict_fields (circuit_of (circuits_after r) (call_key call)) = effect_on_breaker call r ?c"
    using run_effect [OF started(3)] checkCircuit_passed [OF started(2) assms(1)] assms(1) run(2) by simp
  then show ?thesis
    using c assms(2) by (auto simp: effect_on_breaker_def call_log_def remembers_def verdict_fields_def split: sum.splits if_splits)
qed

lemma call_of_other_key:
  assumes "withResilience call w cs now = Some r" "quiet w" "call_key call \<noteq> key"
  shows "circuit_of (circuits_after r) key = circuit_of cs key"
  using frame.call_keeps [OF assms(1), of key "call_key call" "map_get cs key" "cb_cfg call"] assms(2,3)
  by (simp add: circuit_of_def quiet_def)

lemma breaker_run_remembers:
  assumes "breaker_run key cfg cs fs" "cb_enabled cfg" "0 < threshold cfg"
  shows "remembers cfg fs (circuit_of cs key)"
  using assms(1)
proof (induction rule: breaker_run.induct)
  case (check cs fs k c now)
  then show ?case by (cases "k = key") (simp_all add: remembers_ops(1) [OF assms(2,3)])
next
  case (succeed cs fs k c)
  then show ?case by (cases "k = key") (simp_all add: remembers_ops(2) [OF assms(2,3)])
next
  case (fail cs fs k c f now e)
  then show ?case
    using assms(2) by (cases "k = key") (auto simp: recordCallFailure_def remembers_ops(3) [OF assms(2,3)])
next
  case (call cs fs call w now r)
  then show ?case
    using assms(2,3) by (cases "call_key call = key") (auto simp: call_of_other_key remembers_call)
qed (simp_all add: remembers_ops(4) [OF assms(2,3)] remembers_def fresh_circuit_def assms(3))

text \<open>A call that runs amid such steps of other calls stays among them.\<close>

interpretation breaker: circuit_rely "\<lambda>cs. \<exists>fs. breaker_run key cfg cs fs" key cfg for key cfg
  by unfold_locales (use breaker_run.check breaker_run.succeed breaker_run.fail [where f = None and e = NotObject] in
    \<open>fastforce simp: recordCallFailure_def countsAsFailure_def recordFailure_def\<close>)+

text \<open>
  C5: A breaker is closed exactly while fewer failures than the threshold have happened since the last success or reset of its key.
  The failures are those of the calls themselves, in any interleaving of the steps of calls, of whole calls and of resets, not
  the breaker's own count; a failure that the caller's predicate does not count, a cancelled call and a rejected one are
  no failures. A call is turned away only when the threshold was reached and the last of these failures is more recent
  than the reset time.
\<close>

theorem breaker_closed_iff_below_threshold:
  assumes "breaker_run key cfg cs fs" "cb_enabled cfg" "0 < threshold cfg"
  shows "(state (circuit_of cs key) = Closed \<longleftrightarrow> of_nat (length fs) < threshold cfg)
     \<and> (fst (checkCircuit key cfg now cs) \<noteq> None \<longrightarrow> threshold cfg \<le> of_nat (length fs) \<and> now - hd fs < resetMs cfg)"
proof -
  have r: "remembers cfg fs (circuit_of cs key)" by (rule breaker_run_remembers [OF assms])
  moreover have "fs \<noteq> []" if "threshold cfg \<le> of_nat (length fs)" using that assms(3) by auto
  ultimately show ?thesis by (auto simp: remembers_def checkCircuit_rejects not_less split: if_splits)
qed

text \<open>Two calls fail, each after its two attempts.\<close>

lemma sample_trip:
  "withResilience (sample_call ''p'' 2) (sample_world (\<lambda>i. Rejects 3 NotObject))
     [(''p'', \<lparr>state = Closed, failures = 1, lastFailureAt = 108, lastAttemptAt = 105\<rparr>)] 200 =
   Some \<lparr>outcome = Inl NotObject,
         circuits_after = [(''p'', \<lparr>state = Open, failures = 2, lastFailureAt = 208, lastAttemptAt = 205\<rparr>)],
         ended_at = 208, attempts_run = 2\<rparr>"
  by (simp add: sample_simps)

theorem breaker_closed_iff_below_threshold_witness:
  "state (circuit_of [(''p'', \<lparr>state = Open, failures = 2, lastFailureAt = 208, lastAttemptAt = 205\<rparr>)] ''p'') \<noteq> Closed"
proof -
  let ?cfg = "\<lparr>cb_enabled = True, threshold = 2, resetMs = 30\<rparr>"
  have q: "quiet (sample_world (\<lambda>i. Rejects 3 NotObject))" by (simp add: quiet_def sample_world_def)
  have "breaker_run ''p'' ?cfg [(''p'', \<lparr>state = Closed, failures = 1, lastFailureAt = 108, lastAttemptAt = 105\<rparr>)] [108]"
    using breaker_run.call [OF breaker_run.start sample_two_failures q, of "''p''" ?cfg]
    by (simp add: call_log_def sample_call_def aborted_def countsAsFailure_def)
  from breaker_run.call [OF this sample_trip q]
  have "breaker_run ''p'' ?cfg [(''p'', \<lparr>state = Open, failures = 2, lastFailureAt = 208, lastAttemptAt = 205\<rparr>)] [208, 108]"
    by (simp add: call_log_def sample_call_def aborted_def countsAsFailure_def)
  from breaker_closed_iff_below_threshold [OF this, of 210] show ?thesis by simp
qed

section \<open>Retrying until the operation succeeds\<close>

definition fails_retryably :: "resilience_call \<Rightarrow> 'r settle \<Rightarrow> jsnum \<Rightarrow> bool" where
  "fails_retryably call op now =
     (case runAttempt (call_key call) (timeout_ms call) (caller_signal call) op now of
        Some (t, Inl e) \<Rightarrow> isRetryable e
      | _ \<Rightarrow> False)"

definition succeeds_with :: "resilience_call \<Rightarrow> 'r settle \<Rightarrow> jsnum \<Rightarrow> 'r \<Rightarrow> bool" where
  "succeeds_with call op now x =
     (case runAttempt (call_key call) (timeout_ms call) (caller_signal call) op now of
        Some (t, Inr y) \<Rightarrow> y = x
      | _ \<Rightarrow> False)"

lemma never_aborted [simp]: "\<not> aborted None now"
  by (simp add: aborted_def)

lemma loop_until_success:
  assumes "quiet w" "caller_signal call = None" "cb_enabled (cb_cfg call)" "int k \<le> max_attempts call"
    and "\<And>i now. i < k \<Longrightarrow> fails_retryably call (operation w i) now"
    and "\<And>now. succeeds_with call (operation w k) now x"
  shows "n \<le> k \<Longrightarrow> state (circuit_of cs (call_key call)) \<noteq> Open \<Longrightarrow>
    \<exists>r. attempt_loop call w n e0 cs now = Some r \<and> outcome r = Inr x \<and> attempts_run r = k"
proof (induction "k - n" arbitrary: n e0 cs now)
  case 0
  then show ?case
    using assms(6) [of now] assms(4)
    by (subst attempt_loop.simps)
       (auto simp: succeeds_with_def finish_def Let_def split: option.splits prod.splits sum.splits)
next
  case (Suc d)
  let ?key = "call_key call" and ?att = "runAttempt (call_key call) (timeout_ms call) None (operation w n) now"
  have n: "n < k" "int n < max_attempts call" using Suc.hyps(2) assms(4) by auto
  then obtain t e where att: "?att = Some (t, Inl e)" "isRetryable e"
    using assms(5) [of n now] assms(2)
    by (auto simp: fails_retryably_def split: option.splits prod.splits sum.splits)
  define t' where "t' = sleep_until (calculateDelay n (retry_cfg call) (random w n)) None t"
  obtain csC where check: "checkCircuit ?key (cb_cfg call) t' cs = (None, csC)"
    and closed: "state (circuit_of csC ?key) \<noteq> Open"
    using checkCircuit_passes_again [OF assms(3) Suc.prems(2), of t'] Suc.prems(2)
    by (cases "checkCircuit ?key (cb_cfg call) t' cs") (auto simp: verdict_fields_def)
  have "attempt_loop call w n e0 cs now = attempt_loop call w (n + 1) e csC t'"
    using n att check assms(1,2) by (subst attempt_loop.simps) (simp add: Let_def quiet_def flip: t'_def)
  then show ?case using Suc.hyps(1) [of "n + 1" csC e t'] Suc.hyps(2) n closed by simp
qed

text \<open>
  C36: If the first attempts of an undisturbed call fail retryably and attempt \<open>k\<close> succeeds,
  within the configured number of attempts, then the call returns that result after exactly \<open>k\<close> runs
  of the operation, whether the breaker was closed, half open or due for a probe.
\<close>

theorem retries_until_success:
  assumes "quiet w" "caller_signal call = None" "cb_enabled (cb_cfg call)"
    and "fst (checkCircuit (call_key call) (cb_cfg call) now cs) = None"
    and "1 \<le> k" "int k \<le> max_attempts call"
    and "\<And>i now. i < k \<Longrightarrow> fails_retryably call (operation w i) now"
    and "\<And>now. succeeds_with call (operation w k) now x"
  shows "\<exists>r. withResilience call w cs now = Some r \<and> outcome r = Inr x \<and> attempts_run r = k"
proof -
  obtain csC where check: "checkCircuit (call_key call) (cb_cfg call) now cs = (None, csC)"
    using assms(4) by (cases "checkCircuit (call_key call) (cb_cfg call) now cs") simp
  have "state (circuit_of csC (call_key call)) \<noteq> Open"
    using checkCircuit_passed [OF assms(4,3)] check by simp
  then show ?thesis
    using loop_until_success [of w call k x 1 csC NotObject now] assms check
    by (simp add: withResilience_def)
qed

theorem retries_until_success_witness:
  "\<exists>r. withResilience (sample_call ''p'' 3)
     (sample_world (\<lambda>i. if i < 3 then Rejects 4 NotObject else Resolves 5 8)) [] 100 = Some r \<and>
   outcome r = Inr 8 \<and> attempts_run r = 3"
  by (rule retries_until_success)
     (simp_all add: quiet_def fails_retryably_def succeeds_with_def sample_simps)

section \<open>Which failures are retried\<close>

lemma starts_with_iff: "starts_with p s \<longleftrightarrow> (\<exists>t. s = p @ t)"
  by (induction p s rule: starts_with.induct) auto

lemma str_includes_iff: "str_includes p s \<longleftrightarrow> (\<exists>a b. s = a @ p @ b)"
proof (induction s)
  case (Cons c s)
  have "(\<exists>a b. c # s = a @ p @ b) \<longleftrightarrow> (\<exists>b. c # s = p @ b) \<or> (\<exists>a b. s = a @ p @ b)"
    by (auto simp: Cons_eq_append_conv)
  then show ?case using Cons by (simp add: starts_with_iff)
qed auto

lemma str_includes_infix: "str_includes p s \<Longrightarrow> str_includes p (a @ s @ b)"
  unfolding str_includes_iff by (metis append.assoc)

text \<open>
  The message of a timeout quotes the breaker key, and the retry rule reads messages. A timeout of
  a key whose name contains one of the authentication words is therefore final, although timeouts are
  documented as retryable.
\<close>

theorem timeout_not_retried_for_auth_like_key:
  assumes "\<exists>word \<in> {''unauthorized'', ''forbidden'', ''api key''}. str_includes word (to_lower key)"
  shows "\<not> isRetryable (RequestTimeoutError key timeoutMs)"
proof -
  obtain a b where "to_lower (timeout_message key timeoutMs) = a @ to_lower key @ b"
    unfolding timeout_message_def to_lower_append by (metis append.assoc)
  then show ?thesis
    using assms by (auto simp: RequestTimeoutError_def plain_error_def Let_def str_includes_infix)
qed

theorem timeout_not_retried_for_auth_like_key_witness:
  "\<not> isRetryable (RequestTimeoutError ''Forbidden-City:tenant'' 30)"
  by (rule timeout_not_retried_for_auth_like_key) code_simp

end
