(* ===== verification/Counters.thy ===== *)
theory Counters
  imports Prelude
begin

text \<open>
  Fixed-window counters: what the rate limiter and the budgets count with.

  \<^item> The interface is the locale \<open>window_counter\<close>: an increment opens a window for its key or adds to the
    live one, and answers the count and the end of the window. Its client lemma is the reason counters limit
    anything: of the requests of one window, those that are answered a count within the limit do not
    add up to more than the limit.
  \<^item> The database counter is \<open>incrementRateLimit\<close> of
    \<^verbatim>\<open>src/lib/database/sqlite/provider-record.mixin.ts\<close> with its sweep of ended windows. Instants are
    numbers of milliseconds: the ISO texts the table stores compare like them. That a sweep may fail
    (\<^verbatim>\<open>catch\<close>) is an argument.
\<close>

section \<open>The interface\<close>

text \<open>A request for a counter: key, window in seconds, amount and the instant it arrives.\<close>

record counter_request =
  req_key :: string
  req_window :: jsnum
  req_amount :: jsnum
  req_at :: jsnum

type_synonym counter_answer = "jsnum \<times> jsnum"

text \<open>Serving requests one after the other, and what those that are within a limit add up to.\<close>

fun serve ::
  "('s \<Rightarrow> string \<Rightarrow> jsnum \<Rightarrow> jsnum \<Rightarrow> jsnum \<Rightarrow> counter_answer \<times> 's) \<Rightarrow> 's \<Rightarrow> counter_request list
     \<Rightarrow> (counter_request \<times> counter_answer) list \<times> 's" where
  "serve incr s [] = ([], s)"
| "serve incr s (q # qs) =
     (let (answer, s') = incr s (req_key q) (req_window q) (req_amount q) (req_at q);
          (answers, s'') = serve incr s' qs
      in ((q, answer) # answers, s''))"

fun admitted :: "(jsnum \<Rightarrow> jsnum) \<Rightarrow> string \<Rightarrow> jsnum \<Rightarrow> (counter_request \<times> counter_answer) list \<Rightarrow> jsnum" where
  "admitted charge k limit [] = 0"
| "admitted charge k limit ((q, (cnt, resetAt)) # rest) =
     (if req_key q = k \<and> cnt \<le> limit then charge (req_amount q) else 0) + admitted charge k limit rest"

text \<open>Requests in the order of time, from an instant on, none of them after the window ended.\<close>

fun in_window :: "(jsnum \<Rightarrow> bool) \<Rightarrow> jsnum \<Rightarrow> counter_request list \<Rightarrow> bool" where
  "in_window alive t [] = True"
| "in_window alive t (q # qs) = (t \<le> req_at q \<and> alive (req_at q) \<and> in_window alive (req_at q) qs)"

locale window_counter =
  fixes incr :: "'s \<Rightarrow> string \<Rightarrow> jsnum \<Rightarrow> jsnum \<Rightarrow> jsnum \<Rightarrow> counter_answer \<times> 's"
    and current :: "'s \<Rightarrow> string \<Rightarrow> jsnum \<Rightarrow> counter_answer option"
    and charge :: "jsnum \<Rightarrow> jsnum"
    and live :: "jsnum \<Rightarrow> jsnum \<Rightarrow> bool"
    and ok :: "'s \<Rightarrow> bool"
  assumes opens: "ok s \<Longrightarrow> current s k now = None \<Longrightarrow> fst (fst (incr s k window amount now)) = charge amount"
    and adds: "ok s \<Longrightarrow> current s k now = Some (c, r) \<Longrightarrow> fst (incr s k window amount now) = (c + charge amount, r)"
    and reads_back: "ok s \<Longrightarrow> now \<le> t \<Longrightarrow> current (snd (incr s k window amount now)) k t =
          (if live (snd (fst (incr s k window amount now))) t then Some (fst (incr s k window amount now)) else None)"
    and others: "ok s \<Longrightarrow> now \<le> t \<Longrightarrow> k' \<noteq> k \<Longrightarrow> current (snd (incr s k window amount now)) k' t = current s k' t"
    and expires: "ok s \<Longrightarrow> t \<le> t' \<Longrightarrow> current s k t = Some (c, r) \<Longrightarrow>
          current s k t' = (if live r t' then Some (c, r) else None)"
    and stays_ok: "ok s \<Longrightarrow> ok (snd (incr s k window amount now))"
begin

text \<open>Within one window every answer carries the same end, and the count is the sum of the charges.\<close>

lemma serve_in_window:
  assumes "ok s" "current s k t = Some (c, r)" "in_window (live r) t qs"
    and "\<And>q. q \<in> set qs \<Longrightarrow> 0 \<le> charge (req_amount q)"
  shows "admitted charge k limit (fst (serve incr s qs)) \<le> max 0 (limit - c)"
  using assms
proof (induction qs arbitrary: s t c)
  case (Cons q qs)
  let ?t = "req_at q" and ?answer = "fst (incr s (req_key q) (req_window q) (req_amount q) (req_at q))"
    and ?s = "snd (incr s (req_key q) (req_window q) (req_amount q) (req_at q))"
  have now: "t \<le> ?t" "live r ?t" "in_window (live r) ?t qs" using Cons.prems(3) by auto
  have cur: "current s k ?t = Some (c, r)"
    using expires [OF Cons.prems(1) now(1) Cons.prems(2)] now(2) by simp
  have pos: "0 \<le> charge (req_amount q)" using Cons.prems(4) by simp
  show ?case
  proof (cases "req_key q = k")
    case True
    have answer: "?answer = (c + charge (req_amount q), r)"
      using adds [OF Cons.prems(1) cur] True by simp
    then have "current ?s k ?t = Some (c + charge (req_amount q), r)"
      using reads_back [OF Cons.prems(1) order_refl, where k = k] True now(2) by simp
    then have "admitted charge k limit (fst (serve incr ?s qs)) \<le> max 0 (limit - (c + charge (req_amount q)))"
      using Cons.IH stays_ok [OF Cons.prems(1)] now(3) Cons.prems(4) by simp
    then show ?thesis
      using True answer pos by (auto simp: split_beta max_def split: if_splits)
  next
    case False
    then have "current ?s k ?t = Some (c, r)"
      using others [OF Cons.prems(1) order_refl, where k = "req_key q" and k' = k] cur by simp
    then have "admitted charge k limit (fst (serve incr ?s qs)) \<le> max 0 (limit - c)"
      using Cons.IH stays_ok [OF Cons.prems(1)] now(3) Cons.prems(4) by simp
    then show ?thesis
      using False by (cases ?answer) (auto simp: split_beta)
  qed
qed simp

end

text \<open>Requests in the order of time, all of them from one instant on and before another.\<close>

fun in_span :: "jsnum \<Rightarrow> jsnum \<Rightarrow> counter_request list \<Rightarrow> bool" where
  "in_span t stop [] = True"
| "in_span t stop (q # qs) = (t \<le> req_at q \<and> req_at q < stop \<and> in_span (req_at q) stop qs)"

lemma in_span_in_window: "(\<And>u. t \<le> u \<Longrightarrow> u < stop \<Longrightarrow> alive u) \<Longrightarrow> in_span t stop qs \<Longrightarrow> in_window alive t qs"
  by (induction qs arbitrary: t) auto

text \<open>A counter whose windows last as long as they were asked for, and that charges no less than it was asked to.\<close>

locale timed_window_counter = window_counter +
  assumes opens_for: "ok s \<Longrightarrow> current s k now = None \<Longrightarrow> now \<le> t \<Longrightarrow> t < now + window * 1000 \<Longrightarrow>
          live (snd (fst (incr s k window amount now))) t"
    and stays_closed: "ok s \<Longrightarrow> t \<le> t' \<Longrightarrow> current s k t = None \<Longrightarrow> current s k t' = None"
    and charges: "amount \<le> charge amount"
begin

lemma admitted_within_limit:
  assumes "ok s" "0 \<le> limit" "current s k t = None" "in_span t (t + window * 1000) qs"
    and "\<And>q. q \<in> set qs \<Longrightarrow> 0 \<le> req_amount q" and "\<And>q. q \<in> set qs \<Longrightarrow> req_key q = k \<Longrightarrow> req_window q = window"
  shows "admitted charge k limit (fst (serve incr s qs)) \<le> limit"
proof -
  have "admitted charge k limit (fst (serve incr s qs)) \<le> limit"
    if "ok s" "current s k u = None" "t \<le> u" "in_span u (t + window * 1000) qs"
      "\<And>q. q \<in> set qs \<Longrightarrow> 0 \<le> charge (req_amount q)" "\<And>q. q \<in> set qs \<Longrightarrow> req_key q = k \<Longrightarrow> req_window q = window" for u
    using that
  proof (induction qs arbitrary: s u)
    case (Cons q qs)
    let ?s = "snd (incr s (req_key q) (req_window q) (req_amount q) (req_at q))"
    have span: "u \<le> req_at q" "req_at q < t + window * 1000" "in_span (req_at q) (t + window * 1000) qs"
      using Cons.prems(4) by auto
    have closed: "current s k (req_at q) = None" using stays_closed [OF Cons.prems(1) span(1) Cons.prems(2)] .
    show ?case
    proof (cases "req_key q = k")
      case True
      obtain r where answer: "fst (incr s k (req_window q) (req_amount q) (req_at q)) = (charge (req_amount q), r)"
        using opens [OF Cons.prems(1) closed] by (metis prod.collapse)
      have window: "req_window q = window" using Cons.prems(6) True by simp
      have alive: "live r v" if "req_at q \<le> v" "v < t + window * 1000" for v
        using opens_for [OF Cons.prems(1) closed that(1), of window "req_amount q"] that span(1) Cons.prems(3) answer window by simp
      have "current ?s k (req_at q) = Some (charge (req_amount q), r)"
        using reads_back [OF Cons.prems(1) order_refl, where k = k] answer True alive span(2) by simp
      then have "admitted charge k limit (fst (serve incr ?s qs)) \<le> max 0 (limit - charge (req_amount q))"
        using serve_in_window [OF stays_ok [OF Cons.prems(1)]] in_span_in_window [OF alive span(3)] Cons.prems(5) by simp
      then show ?thesis
        using answer True assms(2) Cons.prems(5) [of q] by (auto simp: split_beta max_def split: if_splits)
    next
      case False
      then have "current ?s k (req_at q) = None"
        using others [OF Cons.prems(1) order_refl, where k = "req_key q" and k' = k] closed by simp
      then have "admitted charge k limit (fst (serve incr ?s qs)) \<le> limit"
        using Cons.IH [OF stays_ok [OF Cons.prems(1)]] span Cons.prems(3,5,6) by simp
      then show ?thesis
        using False by (cases "fst (incr s (req_key q) (req_window q) (req_amount q) (req_at q))") (simp add: split_beta)
    qed
  qed (use assms(2) in simp)
  moreover have "0 \<le> charge (req_amount q)" if "q \<in> set qs" for q
    using assms(5) [OF that] charges order_trans by blast
  ultimately show ?thesis using assms by blast
qed

end

text \<open>What a counter shows: nothing when no window is open.\<close>

definition counter_value :: "counter_answer option \<Rightarrow> jsnum" where
  "counter_value answer = (case answer of None \<Rightarrow> 0 | Some (c, r) \<Rightarrow> c)"

context timed_window_counter
begin

lemma answer_count: "ok s \<Longrightarrow> fst (fst (incr s k window amount now)) = counter_value (current s k now) + charge amount"
  using opens [of s k now] adds [of s k now] by (cases "current s k now") (auto simp: counter_value_def)

lemma value_after:
  assumes "ok s" "0 < window"
  shows "counter_value (current (snd (incr s k window amount now)) k now) = counter_value (current s k now) + charge amount"
proof -
  have "live (snd (fst (incr s k window amount now))) now"
  proof (cases "current s k now")
    case None
    then show ?thesis using opens_for [OF assms(1) None order_refl] assms(2) by simp
  next
    case (Some cr)
    then obtain c r where cr: "current s k now = Some (c, r)" by (cases cr) auto
    then show ?thesis using expires [OF assms(1) order_refl cr] adds [OF assms(1) cr] by (simp split: if_splits)
  qed
  then show ?thesis
    using reads_back [OF assms(1) order_refl, of k window amount now] answer_count [OF assms(1), of k window amount now]
    by (simp add: counter_value_def split_beta)
qed

lemma serve_others:
  "ok s \<Longrightarrow> (\<And>q. q \<in> set qs \<Longrightarrow> req_key q \<noteq> k \<and> req_at q \<le> t) \<Longrightarrow> current (snd (serve incr s qs)) k t = current s k t"
proof (induction qs arbitrary: s)
  case (Cons q qs)
  have "current (snd (incr s (req_key q) (req_window q) (req_amount q) (req_at q))) k t = current s k t"
    using Cons.prems(2) [of q] by (intro others [OF Cons.prems(1)]) auto
  then show ?case
    using Cons.IH [OF stays_ok [OF Cons.prems(1)]] Cons.prems(2) by (simp add: split_beta)
qed simp

end

section \<open>The counters of the database\<close>

record rate_limit_row =
  row_count :: jsnum
  row_resetAt :: jsnum

record rate_limit_db =
  rateLimits :: "(string, rate_limit_row) jsmap"
  lastRateLimitSweep :: "jsnum option"

definition RATE_LIMIT_SWEEP_INTERVAL_MS :: jsnum where
  "RATE_LIMIT_SWEEP_INTERVAL_MS = 5 * 60 * 1000"

definition sweepExpiredRateLimits :: "bool \<Rightarrow> rate_limit_db \<Rightarrow> jsnum \<Rightarrow> rate_limit_db" where
  "sweepExpiredRateLimits delete_fails db now =
     (if now - nullish (lastRateLimitSweep db) 0 < RATE_LIMIT_SWEEP_INTERVAL_MS then db
      else
        let db' = db\<lparr>lastRateLimitSweep := Some now\<rparr> in
        if delete_fails then db'
        else db'\<lparr>rateLimits := map_delete_if (\<lambda>key row. row_resetAt row < now) (rateLimits db')\<rparr>)"

definition incrementRateLimit ::
  "bool \<Rightarrow> rate_limit_db \<Rightarrow> string \<Rightarrow> jsnum \<Rightarrow> jsnum \<Rightarrow> jsnum \<Rightarrow> counter_answer \<times> rate_limit_db" where
  "incrementRateLimit delete_fails db key windowSeconds amount now =
     (let resetAt = now + windowSeconds * 1000 in
      case map_get (rateLimits db) key of
        Some existing \<Rightarrow>
          if row_resetAt existing < now then
            let db' = sweepExpiredRateLimits delete_fails db now
            in ((amount, resetAt),
                db'\<lparr>rateLimits := map_set (rateLimits db') key \<lparr>row_count = amount, row_resetAt = resetAt\<rparr>\<rparr>)
          else
            let updated = existing\<lparr>row_count := row_count existing + amount\<rparr>
            in ((row_count updated, row_resetAt updated),
                db\<lparr>rateLimits := map_set (rateLimits db) key updated\<rparr>)
      | None \<Rightarrow>
          let db' = sweepExpiredRateLimits delete_fails db now
          in ((amount, resetAt),
              db'\<lparr>rateLimits := map_set (rateLimits db') key \<lparr>row_count = amount, row_resetAt = resetAt\<rparr>\<rparr>))"

text \<open>The live window of a key.\<close>

definition db_current :: "rate_limit_db \<Rightarrow> string \<Rightarrow> jsnum \<Rightarrow> counter_answer option" where
  "db_current db key now =
     (case map_get (rateLimits db) key of
        None \<Rightarrow> None
      | Some row \<Rightarrow> if now \<le> row_resetAt row then Some (row_count row, row_resetAt row) else None)"

definition db_ok :: "rate_limit_db \<Rightarrow> bool" where
  "db_ok db \<longleftrightarrow> distinct (map fst (rateLimits db))"

lemma sweep_ok: "db_ok db \<Longrightarrow> db_ok (sweepExpiredRateLimits f db now)"
  by (simp add: db_ok_def sweepExpiredRateLimits_def Let_def map_delete_if_distinct)

text \<open>A sweep only drops windows that are over, so nobody can tell whether it ran.\<close>

lemma sweep_invisible: "db_ok db \<Longrightarrow> now \<le> t \<Longrightarrow> db_current (sweepExpiredRateLimits f db now) key t = db_current db key t"
  by (auto simp: db_ok_def db_current_def sweepExpiredRateLimits_def Let_def map_get_delete_if split: option.splits)

lemma db_current_set: "db_current (db\<lparr>rateLimits := map_set (rateLimits db) k row\<rparr>) key t =
    (if key = k then (if t \<le> row_resetAt row then Some (row_count row, row_resetAt row) else None)
     else db_current db key t)"
  by (simp add: db_current_def)

lemma db_ok_set: "db_ok db \<Longrightarrow> db_ok (db\<lparr>rateLimits := map_set (rateLimits db) k row\<rparr>)"
  by (simp add: db_ok_def map_set_distinct)

interpretation db_counter: timed_window_counter "incrementRateLimit f" db_current "\<lambda>amount. amount"
    "\<lambda>resetAt now. now \<le> resetAt" db_ok for f
proof unfold_locales
  fix db k now t k' window amount
  assume ok: "db_ok db" and later: "(now :: jsnum) \<le> t"
  show "db_current (snd (incrementRateLimit f db k window amount now)) k t =
      (if t \<le> snd (fst (incrementRateLimit f db k window amount now))
       then Some (fst (incrementRateLimit f db k window amount now)) else None)"
    by (auto simp: incrementRateLimit_def Let_def db_current_set split: option.splits)
  show "k' \<noteq> k \<Longrightarrow> db_current (snd (incrementRateLimit f db k window amount now)) k' t = db_current db k' t"
    using sweep_invisible [OF ok later]
    by (auto simp: incrementRateLimit_def Let_def db_current_set split: option.splits)
next
  fix db k now window amount
  assume "db_ok db"
  then show "db_ok (snd (incrementRateLimit f db k window amount now))"
    by (auto simp: incrementRateLimit_def Let_def db_ok_set sweep_ok split: option.splits)
qed (auto simp: incrementRateLimit_def Let_def db_current_def split: option.splits if_splits)

end
