(* ===== verification/MemoryCache.thy ===== *)
theory MemoryCache
  imports Counters
begin

text \<open>
  The in-memory cache provider, \<^verbatim>\<open>src/lib/core/cache/memoryCacheProvider.ts\<close>, and the disabled one,
  \<^verbatim>\<open>nullCacheProvider.ts\<close>: cached values with a time to live, fixed-window counters and locks with an owner token.

  \<open>MemoryCacheProvider\<close> is the record of the provider's three maps. Every method is a function of the instant it runs at
  (\<^verbatim>\<open>Date.now()\<close>); no method awaits anything, so each is one step. Stored values are of any type and never
  \<^verbatim>\<open>undefined\<close>. The token that \<^verbatim>\<open>randomUUID()\<close> gives is an argument.

  The interfaces: \<open>window_counter\<close> for counters, \<open>lease_lock\<close> for locks, and for values a specification of what
  a read returns in terms of the history of writes, in which reads and eviction sweeps do not occur.
\<close>

record 'v CacheEntry =
  entry_value :: 'v
  entry_expiresAt :: jsnum

record CounterEntry =
  counter_count :: jsnum
  counter_expiresAt :: jsnum

record LockEntry =
  lock_token :: string
  lock_expiresAt :: jsnum

record 'v MemoryCacheProvider =
  cache_store :: "(string, 'v CacheEntry) jsmap"
  cache_counters :: "(string, CounterEntry) jsmap"
  cache_locks :: "(string, LockEntry) jsmap"
  defaultTtl :: jsnum
  eviction_on :: bool

definition new_cache :: "jsnum \<Rightarrow> 'v MemoryCacheProvider" where
  "new_cache defaultTtlSeconds =
     \<lparr>cache_store = [], cache_counters = [], cache_locks = [], defaultTtl = defaultTtlSeconds, eviction_on = True\<rparr>"

definition entry_expired :: "jsnum \<Rightarrow> 'v CacheEntry \<Rightarrow> bool" where
  "entry_expired now e \<longleftrightarrow> entry_expiresAt e > 0 \<and> now > entry_expiresAt e"

definition cache_get :: "'v MemoryCacheProvider \<Rightarrow> string \<Rightarrow> jsnum \<Rightarrow> 'v option \<times> 'v MemoryCacheProvider" where
  "cache_get c key now =
     (case map_get (cache_store c) key of
        None \<Rightarrow> (None, c)
      | Some e \<Rightarrow>
          if entry_expired now e then (None, c\<lparr>cache_store := map_delete (cache_store c) key\<rparr>)
          else (Some (entry_value e), c))"

definition expiry :: "jsnum \<Rightarrow> jsnum \<Rightarrow> jsnum" where
  "expiry ttl now = (if ttl > 0 then now + ttl * 1000 else 0)"

definition cache_set :: "'v MemoryCacheProvider \<Rightarrow> string \<Rightarrow> 'v \<Rightarrow> jsnum option \<Rightarrow> jsnum \<Rightarrow> 'v MemoryCacheProvider" where
  "cache_set c key value ttlSeconds now =
     (let ttl = nullish ttlSeconds (defaultTtl c)
      in c\<lparr>cache_store := map_set (cache_store c) key \<lparr>entry_value = value, entry_expiresAt = expiry ttl now\<rparr>\<rparr>)"

definition cache_del :: "'v MemoryCacheProvider \<Rightarrow> string \<Rightarrow> 'v MemoryCacheProvider" where
  "cache_del c key = c\<lparr>cache_store := map_delete (cache_store c) key\<rparr>"

definition cache_has :: "'v MemoryCacheProvider \<Rightarrow> string \<Rightarrow> jsnum \<Rightarrow> bool \<times> 'v MemoryCacheProvider" where
  "cache_has c key now = (let (val, c') = cache_get c key now in (val \<noteq> None, c'))"

definition cache_clear :: "'v MemoryCacheProvider \<Rightarrow> 'v MemoryCacheProvider" where
  "cache_clear c = c\<lparr>cache_store := [], cache_counters := [], cache_locks := []\<rparr>"

definition window_ttl :: "jsnum \<Rightarrow> jsnum" where
  "window_ttl ttlSeconds = max 1 (math_ceil ttlSeconds)"

definition increment_by :: "jsnum \<Rightarrow> jsnum" where
  "increment_by amount = max 0 (math_ceil amount)"

definition incrementCounter ::
  "'v MemoryCacheProvider \<Rightarrow> string \<Rightarrow> jsnum \<Rightarrow> jsnum \<Rightarrow> jsnum \<Rightarrow> counter_answer \<times> 'v MemoryCacheProvider" where
  "incrementCounter c key ttlSeconds amount now =
     (let expiresAt = now + window_ttl ttlSeconds * 1000;
          fresh = ((increment_by amount, expiresAt),
                   c\<lparr>cache_counters := map_set (cache_counters c) key
                       \<lparr>counter_count = increment_by amount, counter_expiresAt = expiresAt\<rparr>\<rparr>)
      in case map_get (cache_counters c) key of
           None \<Rightarrow> fresh
         | Some existing \<Rightarrow>
             if counter_expiresAt existing \<le> now then fresh
             else
               let existing' = existing\<lparr>counter_count := counter_count existing + increment_by amount\<rparr>
               in ((counter_count existing', counter_expiresAt existing'),
                   c\<lparr>cache_counters := map_set (cache_counters c) key existing'\<rparr>))"

definition acquireLock ::
  "'v MemoryCacheProvider \<Rightarrow> string \<Rightarrow> jsnum \<Rightarrow> string \<Rightarrow> jsnum \<Rightarrow> string option \<times> 'v MemoryCacheProvider" where
  "acquireLock c key ttlSeconds uuid now =
     (let taken = (Some uuid, c\<lparr>cache_locks := map_set (cache_locks c) key
                      \<lparr>lock_token = uuid, lock_expiresAt = now + window_ttl ttlSeconds * 1000\<rparr>\<rparr>)
      in case map_get (cache_locks c) key of
           None \<Rightarrow> taken
         | Some existing \<Rightarrow> if lock_expiresAt existing > now then (None, c) else taken)"

definition releaseLock :: "'v MemoryCacheProvider \<Rightarrow> string \<Rightarrow> string \<Rightarrow> 'v MemoryCacheProvider" where
  "releaseLock c key token =
     (case map_get (cache_locks c) key of
        None \<Rightarrow> c
      | Some existing \<Rightarrow>
          if lock_token existing = token then c\<lparr>cache_locks := map_delete (cache_locks c) key\<rparr> else c)"

definition cache_destroy :: "'v MemoryCacheProvider \<Rightarrow> 'v MemoryCacheProvider" where
  "cache_destroy c = c\<lparr>eviction_on := False, cache_store := [], cache_counters := [], cache_locks := []\<rparr>"

definition evict :: "'v MemoryCacheProvider \<Rightarrow> jsnum \<Rightarrow> 'v MemoryCacheProvider" where
  "evict c now =
     c\<lparr>cache_store := map_delete_if (\<lambda>key e. entry_expired now e) (cache_store c),
       cache_locks := map_delete_if (\<lambda>key l. now > lock_expiresAt l) (cache_locks c),
       cache_counters := map_delete_if (\<lambda>key e. now > counter_expiresAt e) (cache_counters c)\<rparr>"

text \<open>The disabled provider has no state.\<close>

definition null_get :: "string \<Rightarrow> 'v option" where
  "null_get key = None"

definition null_incrementCounter :: "string \<Rightarrow> jsnum \<Rightarrow> jsnum \<Rightarrow> jsnum \<Rightarrow> counter_answer" where
  "null_incrementCounter key ttlSeconds amount now = (increment_by amount, now + window_ttl ttlSeconds * 1000)"

definition null_acquireLock :: "string \<Rightarrow> string option" where
  "null_acquireLock uuid = Some uuid"

section \<open>The invariant\<close>

text \<open>The keys of a \<^verbatim>\<open>Map\<close> are distinct.\<close>

definition cache_ok :: "'v MemoryCacheProvider \<Rightarrow> bool" where
  "cache_ok c \<longleftrightarrow> distinct (map fst (cache_store c)) \<and> distinct (map fst (cache_counters c))
     \<and> distinct (map fst (cache_locks c))"

lemma cache_ok_updates [simp]:
  "cache_ok c \<Longrightarrow> cache_ok (c\<lparr>cache_store := map_set (cache_store c) k e\<rparr>)"
  "cache_ok c \<Longrightarrow> cache_ok (c\<lparr>cache_store := map_delete (cache_store c) k\<rparr>)"
  "cache_ok c \<Longrightarrow> cache_ok (c\<lparr>cache_counters := map_set (cache_counters c) k n\<rparr>)"
  "cache_ok c \<Longrightarrow> cache_ok (c\<lparr>cache_locks := map_set (cache_locks c) k l\<rparr>)"
  "cache_ok c \<Longrightarrow> cache_ok (c\<lparr>cache_locks := map_delete (cache_locks c) k\<rparr>)"
  by (simp_all add: cache_ok_def map_distinct)

lemma cache_ok_ops [simp]:
  "cache_ok (new_cache ttl)"
  "cache_ok c \<Longrightarrow> cache_ok (snd (cache_get c key now))"
  "cache_ok c \<Longrightarrow> cache_ok (cache_set c key value ttl' now)"
  "cache_ok c \<Longrightarrow> cache_ok (cache_del c key)"
  "cache_ok c \<Longrightarrow> cache_ok (cache_clear c)"
  "cache_ok c \<Longrightarrow> cache_ok (snd (incrementCounter c key ttl amount now))"
  "cache_ok c \<Longrightarrow> cache_ok (snd (acquireLock c key ttl uuid now))"
  "cache_ok c \<Longrightarrow> cache_ok (releaseLock c key token)"
  "cache_ok c \<Longrightarrow> cache_ok (evict c now)"
  by (auto simp: new_cache_def cache_get_def cache_set_def cache_del_def incrementCounter_def acquireLock_def
      releaseLock_def Let_def split: option.splits)
     (auto simp: cache_ok_def cache_clear_def evict_def map_distinct)

section \<open>Counters\<close>

definition cache_current :: "'v MemoryCacheProvider \<Rightarrow> string \<Rightarrow> jsnum \<Rightarrow> counter_answer option" where
  "cache_current c key now =
     (case map_get (cache_counters c) key of
        None \<Rightarrow> None
      | Some e \<Rightarrow> if now < counter_expiresAt e then Some (counter_count e, counter_expiresAt e) else None)"

lemma increment_by_nonneg [simp]: "0 \<le> increment_by amount"
  by (simp add: increment_by_def)

lemma window_ttl_ge: "window \<le> window_ttl window"
  by (simp add: window_ttl_def math_ceil_ge le_max_iff_disj)

lemma increment_by_ge: "amount \<le> increment_by amount"
  by (simp add: increment_by_def math_ceil_ge le_max_iff_disj)

interpretation cache_counter: timed_window_counter incrementCounter cache_current increment_by
    "\<lambda>resetAt now. now < resetAt" cache_ok
proof unfold_locales
  fix c :: "'v MemoryCacheProvider" and k now t window amount
  assume "cache_ok c" "cache_current c k now = None" "(now :: jsnum) \<le> t" "t < now + window * 1000"
  then show "t < snd (fst (incrementCounter c k window amount now))"
    using window_ttl_ge [of window]
    by (auto simp: incrementCounter_def cache_current_def Let_def split: option.splits if_splits)
qed (auto simp: incrementCounter_def cache_current_def Let_def increment_by_ge split: option.splits if_splits)

lemma evict_keeps_counters:
  "cache_ok c \<Longrightarrow> now \<le> t \<Longrightarrow> cache_current (evict c now) key t = cache_current c key t"
  by (auto simp: cache_ok_def cache_current_def evict_def map_get_delete_if split: option.splits)

section \<open>Locks\<close>

datatype lock_event =
    Acquire string jsnum string jsnum
  | Release string string jsnum
  | Tidy jsnum

fun event_at :: "lock_event \<Rightarrow> jsnum" where
  "event_at (Acquire key ttl uuid t) = t"
| "event_at (Release key token t) = t"
| "event_at (Tidy t) = t"

fun ordered_before :: "jsnum \<Rightarrow> jsnum \<Rightarrow> lock_event list \<Rightarrow> bool" where
  "ordered_before t until [] = True"
| "ordered_before t until (e # es) = (t \<le> event_at e \<and> event_at e < until \<and> ordered_before (event_at e) until es)"

text \<open>Running lock events, with the answers of the acquisitions of one key.\<close>

fun run_locks ::
  "('s \<Rightarrow> string \<Rightarrow> jsnum \<Rightarrow> string \<Rightarrow> jsnum \<Rightarrow> string option \<times> 's) \<Rightarrow> ('s \<Rightarrow> string \<Rightarrow> string \<Rightarrow> 's)
     \<Rightarrow> ('s \<Rightarrow> jsnum \<Rightarrow> 's) \<Rightarrow> string \<Rightarrow> 's \<Rightarrow> lock_event list \<Rightarrow> string option list \<times> 's" where
  "run_locks acq rel tidy key s [] = ([], s)"
| "run_locks acq rel tidy key s (Acquire k ttl uuid t # es) =
     (let (answer, s') = acq s k ttl uuid t; (answers, s'') = run_locks acq rel tidy key s' es
      in (if k = key then answer # answers else answers, s''))"
| "run_locks acq rel tidy key s (Release k token t # es) = run_locks acq rel tidy key (rel s k token) es"
| "run_locks acq rel tidy key s (Tidy t # es) = run_locks acq rel tidy key (tidy s t) es"

locale lease_lock =
  fixes acq :: "'s \<Rightarrow> string \<Rightarrow> jsnum \<Rightarrow> string \<Rightarrow> jsnum \<Rightarrow> string option \<times> 's"
    and rel :: "'s \<Rightarrow> string \<Rightarrow> string \<Rightarrow> 's"
    and tidy :: "'s \<Rightarrow> jsnum \<Rightarrow> 's"
    and holder :: "'s \<Rightarrow> string \<Rightarrow> jsnum \<Rightarrow> (string \<times> jsnum) option"
    and lease :: "jsnum \<Rightarrow> jsnum"
    and ok :: "'s \<Rightarrow> bool"
  assumes free: "ok s \<Longrightarrow> holder s k t = None \<Longrightarrow> fst (acq s k ttl uuid t) = Some uuid \<and>
          holder (snd (acq s k ttl uuid t)) k t = Some (uuid, t + lease ttl)"
    and held: "ok s \<Longrightarrow> holder s k t = Some h \<Longrightarrow> acq s k ttl uuid t = (None, s)"
    and other: "ok s \<Longrightarrow> k' \<noteq> k \<Longrightarrow> holder (snd (acq s k' ttl uuid t)) k t = holder s k t"
    and foreign: "ok s \<Longrightarrow> holder s k t = Some (token, until) \<Longrightarrow> (k', token') \<noteq> (k, token) \<Longrightarrow>
          holder (rel s k' token') k t = Some (token, until)"
    and owner: "ok s \<Longrightarrow> holder s k t = Some (token, until) \<Longrightarrow> holder (rel s k token) k t = None"
    and tidied: "ok s \<Longrightarrow> holder (tidy s t) k t = holder s k t"
    and lasts: "ok s \<Longrightarrow> holder s k t = Some (token, until) \<Longrightarrow> t \<le> t' \<Longrightarrow> t' < until \<Longrightarrow>
          holder s k t' = Some (token, until)"
    and keeps_ok: "ok s \<Longrightarrow> ok (snd (acq s k ttl uuid t))" "ok s \<Longrightarrow> ok (rel s k token)" "ok s \<Longrightarrow> ok (tidy s t)"
begin

lemma exclusive:
  assumes "ok s" "holder s key t = Some (token, until)" "ordered_before t until es"
    and "\<And>t. Release key token t \<notin> set es" "t' = (if es = [] then t else event_at (last es))"
  shows "set (fst (run_locks acq rel tidy key s es)) \<subseteq> {None} \<and>
    holder (snd (run_locks acq rel tidy key s es)) key t' = Some (token, until)"
  using assms
proof (induction es arbitrary: s t)
  case (Cons e es)
  let ?t = "event_at e"
  have cur: "holder s key ?t = Some (token, until)"
    using Cons.prems(1-3) by (auto intro: lasts)
  have rest: "ordered_before ?t until es" "\<And>t. Release key token t \<notin> set es"
    using Cons.prems(3,4) by auto
  show ?case
  proof (cases e)
    case (Acquire k ttl uuid t0)
    then have "holder (snd (acq s k ttl uuid t0)) key t0 = Some (token, until)"
      and "k = key \<Longrightarrow> fst (acq s k ttl uuid t0) = None"
      using cur held [OF Cons.prems(1), of key t0] other [OF Cons.prems(1), of k key] by (cases "k = key"; simp)+
    then show ?thesis
      using Cons.IH [of "snd (acq s k ttl uuid t0)" t0] Cons.prems(1,5) rest Acquire
      by (auto simp: keeps_ok split_beta split: if_splits)
  next
    case (Release k tok t0)
    then have "holder (rel s k tok) key t0 = Some (token, until)"
      using foreign [OF Cons.prems(1) cur, of k tok] Cons.prems(4) [of t0] by auto
    then show ?thesis
      using Cons.IH [of "rel s k tok" t0] Cons.prems(1,5) rest Release by (auto simp: keeps_ok split: if_splits)
  next
    case (Tidy t0)
    then show ?thesis
      using Cons.IH [of "tidy s t0" t0] Cons.prems(1,5) rest cur by (auto simp: keeps_ok tidied split: if_splits)
  qed
qed auto

end

definition lock_holder :: "'v MemoryCacheProvider \<Rightarrow> string \<Rightarrow> jsnum \<Rightarrow> (string \<times> jsnum) option" where
  "lock_holder c key now =
     (case map_get (cache_locks c) key of
        None \<Rightarrow> None
      | Some l \<Rightarrow> if lock_expiresAt l > now then Some (lock_token l, lock_expiresAt l) else None)"

lemma window_ttl_pos [simp]: "0 < window_ttl ttl"
  by (simp add: window_ttl_def less_max_iff_disj)

interpretation cache_lock: lease_lock acquireLock releaseLock evict lock_holder "\<lambda>ttl. window_ttl ttl * 1000" cache_ok
proof unfold_locales
  fix c :: "'v MemoryCacheProvider" and k t
  assume "cache_ok c"
  then show "lock_holder (evict c t) k t = lock_holder c k t"
    by (auto simp: cache_ok_def lock_holder_def evict_def map_get_delete_if split: option.splits)
qed (auto simp: acquireLock_def releaseLock_def lock_holder_def Let_def split: option.splits if_splits)

text \<open>
  A lock of the in-memory cache is exclusive for as long as its lease: after a successful acquisition, whatever
  acquisitions, releases and eviction sweeps follow in time before the lease ends, as long as the holder's own token does not release it, every acquisition of that key is refused and the holder stays the same.
\<close>

theorem lock_is_exclusive:
  fixes c :: "'v MemoryCacheProvider"
  assumes "cache_ok c" "acquireLock c key ttl uuid t = (Some token, c')"
    and "ordered_before t (t + window_ttl ttl * 1000) es" and "\<And>t. Release key token t \<notin> set es"
  shows "set (fst (run_locks acquireLock releaseLock evict key c' es)) \<subseteq> {None} \<and>
    lock_holder (snd (run_locks acquireLock releaseLock evict key c' es)) key
      (if es = [] then t else event_at (last es)) = Some (token, t + window_ttl ttl * 1000)"
proof -
  have "lock_holder c key t = None"
    using cache_lock.held [OF assms(1), of key t] assms(2) by (cases "lock_holder c key t") auto
  from cache_lock.free [OF assms(1) this, of ttl uuid] have "lock_holder c' key t = Some (token, t + window_ttl ttl * 1000)"
    using assms(2) by simp
  moreover have "cache_ok c'" using cache_ok_ops(7) [OF assms(1), of key ttl uuid t] assms(2) by simp
  ultimately show ?thesis by (intro cache_lock.exclusive) (use assms(3,4) in auto)
qed

theorem lock_is_exclusive_witness:
  "set (fst (run_locks acquireLock releaseLock evict ''job''
     (snd (acquireLock (new_cache 300 :: nat MemoryCacheProvider) ''job'' 1 ''A'' 10))
     [Acquire ''job'' 5 ''B'' 20, Release ''job'' ''B'' 30, Tidy 40, Acquire ''job'' 5 ''C'' 50])) \<subseteq> {None}"
proof -
  have "Release ''job'' ''A'' t \<notin> set [Acquire ''job'' 5 ''B'' 20, Release ''job'' ''B'' 30, Tidy 40, Acquire ''job'' 5 ''C'' 50]"
    for t by simp
  then show ?thesis
    using lock_is_exclusive [of "new_cache 300 :: nat MemoryCacheProvider" "''job''" 1 "''A''" 10 "''A''"
        "snd (acquireLock (new_cache 300 :: nat MemoryCacheProvider) ''job'' 1 ''A'' 10)"
        "[Acquire ''job'' 5 ''B'' 20, Release ''job'' ''B'' 30, Tidy 40, Acquire ''job'' 5 ''C'' 50]"]
    by (simp add: new_cache_def acquireLock_def window_ttl_def cache_ok_def)
qed

section \<open>Values\<close>

datatype 'v cache_op =
    OGet string
  | OHas string
  | OSet string 'v "jsnum option"
  | ODel string
  | OClear
  | OEvict
  | OIncrement string jsnum jsnum
  | OAcquire string jsnum string
  | ORelease string string

fun perform :: "'v MemoryCacheProvider \<Rightarrow> 'v cache_op \<times> jsnum \<Rightarrow> 'v MemoryCacheProvider" where
  "perform c (OGet key, now) = snd (cache_get c key now)"
| "perform c (OHas key, now) = snd (cache_has c key now)"
| "perform c (OSet key v ttl, now) = cache_set c key v ttl now"
| "perform c (ODel key, now) = cache_del c key"
| "perform c (OClear, now) = cache_clear c"
| "perform c (OEvict, now) = evict c now"
| "perform c (OIncrement key ttl amount, now) = snd (incrementCounter c key ttl amount now)"
| "perform c (OAcquire key ttl uuid, now) = snd (acquireLock c key ttl uuid now)"
| "perform c (ORelease key token, now) = releaseLock c key token"

text \<open>
  The specification: the last write of a key in a history, given newest first, ignores everything but writes to the key,
  and a value read is the last write unless its time to live is over.
\<close>

fun last_write :: "jsnum \<Rightarrow> string \<Rightarrow> ('v cache_op \<times> jsnum) list \<Rightarrow> 'v CacheEntry option" where
  "last_write d key [] = None"
| "last_write d key ((op, now) # earlier) =
     (case op of
        OSet k v ttl \<Rightarrow>
          if k = key then Some \<lparr>entry_value = v, entry_expiresAt = expiry (nullish ttl d) now\<rparr>
          else last_write d key earlier
      | ODel k \<Rightarrow> if k = key then None else last_write d key earlier
      | OClear \<Rightarrow> None
      | _ \<Rightarrow> last_write d key earlier)"

definition spec_read :: "jsnum \<Rightarrow> string \<Rightarrow> ('v cache_op \<times> jsnum) list \<Rightarrow> jsnum \<Rightarrow> 'v option" where
  "spec_read d key past now =
     (case last_write d key past of
        None \<Rightarrow> None
      | Some e \<Rightarrow> if entry_expired now e then None else Some (entry_value e))"

fun newest_first :: "jsnum \<Rightarrow> ('v cache_op \<times> jsnum) list \<Rightarrow> bool" where
  "newest_first now [] = True"
| "newest_first now ((op, t) # earlier) = (t \<le> now \<and> newest_first t earlier)"

definition cache_after :: "jsnum \<Rightarrow> ('v cache_op \<times> jsnum) list \<Rightarrow> 'v MemoryCacheProvider" where
  "cache_after d past = foldr (\<lambda>op c. perform c op) past (new_cache d)"

lemma newest_first_later: "newest_first t past \<Longrightarrow> t \<le> t' \<Longrightarrow> newest_first t' past"
  by (cases past) auto

lemma entry_expired_later: "entry_expired t e \<Longrightarrow> t \<le> t' \<Longrightarrow> entry_expired t' e"
  by (auto simp: entry_expired_def)

lemma cache_ok_perform [simp]: "cache_ok c \<Longrightarrow> cache_ok (perform c opt)"
  by (cases "(c, opt)" rule: perform.cases) (auto simp: cache_has_def split_beta)

lemma cache_ok_after [simp]: "cache_ok (cache_after d past)"
  unfolding cache_after_def by (induction past) auto

lemma defaultTtl_perform [simp]: "defaultTtl (perform c opt) = defaultTtl c"
  by (cases "(c, opt)" rule: perform.cases)
     (auto simp: cache_get_def cache_has_def cache_set_def cache_del_def cache_clear_def evict_def incrementCounter_def
       acquireLock_def releaseLock_def Let_def split: option.splits)

lemma defaultTtl_after [simp]: "defaultTtl (cache_after d past) = d"
  unfolding cache_after_def by (induction past) (auto simp: new_cache_def)

text \<open>The simulation: the store holds the last write of a key, or nothing once that has expired.\<close>

definition agrees :: "jsnum \<Rightarrow> 'v CacheEntry option \<Rightarrow> 'v CacheEntry option \<Rightarrow> bool" where
  "agrees now stored written \<longleftrightarrow>
     stored = written \<or> (stored = None \<and> (case written of None \<Rightarrow> True | Some e \<Rightarrow> entry_expired now e))"

lemma agrees_later: "agrees t stored written \<Longrightarrow> t \<le> t' \<Longrightarrow> agrees t' stored written"
  by (auto simp: agrees_def intro: entry_expired_later split: option.splits)

lemma store_after_perform:
  assumes "cache_ok c"
  shows "map_get (cache_store (perform c (op, now))) key =
    (case op of
       OSet k v ttl \<Rightarrow> if k = key then Some \<lparr>entry_value = v, entry_expiresAt = expiry (nullish ttl (defaultTtl c)) now\<rparr>
                       else map_get (cache_store c) key
     | ODel k \<Rightarrow> if k = key then None else map_get (cache_store c) key
     | OClear \<Rightarrow> None
     | OGet k \<Rightarrow> map_get (cache_store (snd (cache_get c k now))) key
     | OHas k \<Rightarrow> map_get (cache_store (snd (cache_get c k now))) key
     | OEvict \<Rightarrow> map_get (cache_store (evict c now)) key
     | _ \<Rightarrow> map_get (cache_store c) key)"
  by (cases op) (auto simp: cache_has_def cache_set_def cache_del_def cache_clear_def incrementCounter_def acquireLock_def
       releaseLock_def Let_def split_beta split: option.splits)

lemma agrees_get:
  "agrees now (map_get (cache_store c) key) w \<Longrightarrow> agrees now (map_get (cache_store (snd (cache_get c k now))) key) w"
  by (auto simp: agrees_def cache_get_def split: option.splits)

lemma agrees_evict:
  "cache_ok c \<Longrightarrow> agrees now (map_get (cache_store c) key) w \<Longrightarrow> agrees now (map_get (cache_store (evict c now)) key) w"
  by (cases "map_get (cache_store c) key") (auto simp: agrees_def cache_ok_def evict_def map_get_delete_if split: if_splits)

lemma simulation:
  "newest_first now past \<Longrightarrow> agrees now (map_get (cache_store (cache_after d past)) key) (last_write d key past)"
proof (induction past arbitrary: now)
  case Nil
  then show ?case by (simp add: cache_after_def new_cache_def agrees_def)
next
  case (Cons p past)
  obtain op t where p: "p = (op, t)" by force
  let ?c = "cache_after d past"
  have after: "cache_after d (p # past) = perform ?c (op, t)" by (simp add: cache_after_def p)
  have IH: "agrees t (map_get (cache_store ?c) key) (last_write d key past)"
    using Cons by (simp add: p)
  then have "agrees t (map_get (cache_store (perform ?c (op, t))) key) (last_write d key (p # past))"
    by (auto simp: store_after_perform p agrees_get agrees_evict split: cache_op.split) (auto simp: agrees_def)
  then show ?case unfolding after by (rule agrees_later) (use Cons.prems p in auto)
qed

text \<open>
  C37: After any history of operations of the in-memory cache, reads, counters, locks and eviction sweeps included, a
  read returns the last value written to the key, unless the key was deleted or the cache cleared since or the value's
  time to live is over; no sweep and no other key makes a difference.
\<close>

theorem cache_get_refines_last_write:
  assumes "newest_first now past"
  shows "fst (cache_get (cache_after d past) key now) = spec_read d key past now"
  using simulation [OF assms, of d key]
  by (auto simp: agrees_def cache_get_def spec_read_def split: option.splits)

theorem cache_get_refines_last_write_witness:
  "fst (cache_get (cache_after 300
     [(OEvict, 1009), (OGet ''k'', 1008), (OSet ''j'' 2 (Some 1), 8), (OSet ''k'' 1 (Some 1), 7), (OSet ''k'' (0::nat) None, 6)])
     ''k'' 1010) = None"
  using cache_get_refines_last_write [of 1010
     "[(OEvict, 1009), (OGet ''k'', 1008), (OSet ''j'' 2 (Some 1), 8), (OSet ''k'' 1 (Some 1), 7), (OSet ''k'' (0::nat) None, 6)]"
     300 "''k''"]
  by (simp add: spec_read_def entry_expired_def expiry_def)

section \<open>Expiry\<close>

text \<open>
  The interface of the clients that rely on values going away: what is stored under a key with the instant it
  expires (0 when it never does), reads that answer nothing expired, and operations that only change their own key
  or forget. \<open>ends_by\<close> says that what is stored under a key expires by an instant.
\<close>

definition ends_by :: "('v \<times> jsnum) option \<Rightarrow> jsnum \<Rightarrow> bool" where
  "ends_by entry e \<longleftrightarrow> (\<forall>v x. entry = Some (v, x) \<longrightarrow> 0 < x \<and> x \<le> e)"

lemma ends_by_simps [simp]: "ends_by None e" "ends_by (Some (v, x)) e \<longleftrightarrow> 0 < x \<and> x \<le> e"
  by (auto simp: ends_by_def)

lemma ends_by_mono: "ends_by entry e \<Longrightarrow> e \<le> e' \<Longrightarrow> ends_by entry e'"
  by (fastforce simp: ends_by_def)

locale expiring_cache =
  fixes get :: "'c \<Rightarrow> string \<Rightarrow> jsnum \<Rightarrow> 'v option \<times> 'c"
    and put :: "'c \<Rightarrow> string \<Rightarrow> 'v \<Rightarrow> jsnum option \<Rightarrow> jsnum \<Rightarrow> 'c"
    and del :: "'c \<Rightarrow> string \<Rightarrow> 'c"
    and sweep :: "'c \<Rightarrow> jsnum \<Rightarrow> 'c"
    and stored :: "'c \<Rightarrow> string \<Rightarrow> ('v \<times> jsnum) option"
    and ok :: "'c \<Rightarrow> bool"
  assumes get_ok: "ok c \<Longrightarrow> ok (snd (get c k now))"
    and put_ok: "ok c \<Longrightarrow> ok (put c k v given now)"
    and del_ok: "ok c \<Longrightarrow> ok (del c k)"
    and sweep_ok: "ok c \<Longrightarrow> ok (sweep c now)"
    and get_stored: "ok c \<Longrightarrow> fst (get c k now) = Some v \<Longrightarrow> \<exists>x. stored c k = Some (v, x) \<and> (x \<le> 0 \<or> now \<le> x)"
    and stored_get: "ok c \<Longrightarrow> stored (snd (get c k now)) k' \<in> {None, stored c k'}"
    and stored_put: "ok c \<Longrightarrow> 0 < ttl \<Longrightarrow>
      stored (put c k v (Some ttl) now) k' = (if k' = k then Some (v, now + ttl * 1000) else stored c k')"
    and stored_del: "ok c \<Longrightarrow> stored (del c k) k' = (if k' = k then None else stored c k')"
    and stored_sweep: "ok c \<Longrightarrow> stored (sweep c now) k' \<in> {None, stored c k'}"
begin

lemma over: "ok c \<Longrightarrow> ends_by (stored c k) e \<Longrightarrow> e < now \<Longrightarrow> fst (get c k now) = None"
  using get_stored [of c k now] by (cases "fst (get c k now)") (fastforce simp: ends_by_def)+

lemma absent: "ok c \<Longrightarrow> stored c k = None \<Longrightarrow> fst (get c k now) = None"
  using get_stored [of c k now] by (cases "fst (get c k now)") fastforce+

lemma ends_get: "ok c \<Longrightarrow> ends_by (stored c k) e \<Longrightarrow> ends_by (stored (snd (get c k' now)) k) e"
  using stored_get [of c k' now k] by auto

lemma ends_sweep: "ok c \<Longrightarrow> ends_by (stored c k) e \<Longrightarrow> ends_by (stored (sweep c now) k) e"
  using stored_sweep [of c now k] by auto

lemma ends_del: "ok c \<Longrightarrow> ends_by (stored c k) e \<Longrightarrow> ends_by (stored (del c k') k) e"
  by (simp add: stored_del)

lemma ends_put: "ok c \<Longrightarrow> 0 < ttl \<Longrightarrow> 0 \<le> now \<Longrightarrow> now + ttl * 1000 \<le> e \<Longrightarrow> ends_by (stored c k) e \<Longrightarrow>
    ends_by (stored (put c k' v (Some ttl) now) k) e"
  by (auto simp: stored_put add_nonneg_pos)

lemma other_put: "ok c \<Longrightarrow> 0 < ttl \<Longrightarrow> k' \<noteq> k \<Longrightarrow> stored (put c k' v (Some ttl) now) k = stored c k"
  by (simp add: stored_put)

end

definition stored_entry :: "'v MemoryCacheProvider \<Rightarrow> string \<Rightarrow> ('v \<times> jsnum) option" where
  "stored_entry c k = map_option (\<lambda>e. (entry_value e, entry_expiresAt e)) (map_get (cache_store c) k)"

interpretation expiring: expiring_cache cache_get cache_set cache_del evict stored_entry cache_ok
proof unfold_locales
  fix c :: "'v MemoryCacheProvider" and k now v
  assume "cache_ok c" "fst (cache_get c k now) = Some v"
  then show "\<exists>x. stored_entry c k = Some (v, x) \<and> (x \<le> 0 \<or> now \<le> x)"
    by (fastforce simp: cache_get_def stored_entry_def entry_expired_def split: option.splits if_splits)
next
  fix c :: "'v MemoryCacheProvider" and k k' now
  show "stored_entry (snd (cache_get c k now)) k' \<in> {None, stored_entry c k'}"
    by (auto simp: cache_get_def stored_entry_def split: option.splits)
next
  fix c :: "'v MemoryCacheProvider" and now k'
  assume "cache_ok c"
  then show "stored_entry (evict c now) k' \<in> {None, stored_entry c k'}"
    by (auto simp: cache_ok_def evict_def stored_entry_def map_get_delete_if split: option.splits)
qed (auto simp: cache_set_def cache_del_def stored_entry_def expiry_def Let_def)

end
