(* ===== verification/RuntimePool.thy ===== *)
theory RuntimePool
  imports JsString
begin

text \<open>
  The pool of provider runtimes, \<^verbatim>\<open>src/lib/core/runtimePool.ts\<close>: clients that own connections, cached per key,
  rebuilt when their configuration changes and closed some time after they were dropped.

  \<^item> A runtime is its identity and whether it has a \<^verbatim>\<open>close()\<close>. A creation object is its identity and the hash it is for.
  \<^item> \<open>rt_pool\<close> is the state of the class, plus what the environment sees: the runtimes \<^verbatim>\<open>close()\<close> was called on,
    in order, and the builds whose factory has not answered yet.
  \<^item> Every method up to its first \<^verbatim>\<open>await\<close> is a function. The rest of \<open>build\<close>, which runs when the factory answers,
    is \<open>build_resumes\<close>. \<open>pool_step\<close> interleaves them in any order.
  \<^item> The configuration is read afresh by each method and is an argument. Logging is left out.
\<close>

section \<open>The pool\<close>

record runtime =
  rt_id :: nat
  rt_has_close :: bool

record PoolEntry =
  entry_runtime :: runtime
  entry_hash :: string
  createdAt :: jsnum
  lastUsedAt :: jsnum

record PendingDisposal =
  pd_key :: string
  pd_runtime :: runtime
  disposeAt :: jsnum

record PendingCreation =
  creation_id :: nat
  creation_hash :: string

record provider_runtime_config =
  cacheTtlSeconds :: jsnum
  disposeGraceSeconds :: jsnum

record rt_pool =
  pool :: "(string, PoolEntry) jsmap"
  creating :: "(string, PendingCreation) jsmap"
  pendingDisposal :: "PendingDisposal list"
  sweepTimer :: bool
  closed :: "runtime list"
  next_creation :: nat
  in_flight :: "(string \<times> PendingCreation) list"

definition new_pool :: rt_pool where
  "new_pool = \<lparr>pool = [], creating = [], pendingDisposal = [], sweepTimer = True, closed = [],
     next_creation = 0, in_flight = []\<rparr>"

definition closeRuntime :: "runtime \<Rightarrow> rt_pool \<Rightarrow> rt_pool" where
  "closeRuntime r p = (if rt_has_close r then p\<lparr>closed := closed p @ [r]\<rparr> else p)"

definition retire :: "provider_runtime_config \<Rightarrow> jsnum \<Rightarrow> string \<Rightarrow> runtime \<Rightarrow> rt_pool \<Rightarrow> rt_pool" where
  "retire cfg now key r p =
     (if \<not> rt_has_close r then p
      else
        let graceMs = disposeGraceSeconds cfg * 1000 in
        if graceMs \<le> 0 \<or> \<not> sweepTimer p then closeRuntime r p
        else p\<lparr>pendingDisposal := pendingDisposal p @ [\<lparr>pd_key = key, pd_runtime = r, disposeAt = now + graceMs\<rparr>]\<rparr>)"

definition evict_entry :: "provider_runtime_config \<Rightarrow> jsnum \<Rightarrow> string \<Rightarrow> PoolEntry option \<Rightarrow> rt_pool \<Rightarrow> rt_pool" where
  "evict_entry cfg now key known p =
     (let entry = opt_or known (map_get (pool p) key);
          p' = p\<lparr>pool := map_delete (pool p) key\<rparr>
      in case entry of None \<Rightarrow> p' | Some e \<Rightarrow> retire cfg now key (entry_runtime e) p')"

definition drainDisposals :: "bool \<Rightarrow> jsnum \<Rightarrow> rt_pool \<Rightarrow> rt_pool" where
  "drainDisposals force now p =
     (if pendingDisposal p = [] then p
      else
        let due = filter (\<lambda>item. force \<or> disposeAt item \<le> now) (pendingDisposal p);
            waiting = filter (\<lambda>item. \<not> (force \<or> disposeAt item \<le> now)) (pendingDisposal p)
        in fold (\<lambda>item. closeRuntime (pd_runtime item)) due (p\<lparr>pendingDisposal := waiting\<rparr>))"

text \<open>What a request gets at once: a pooled runtime, or a build to wait for, shared or its own.\<close>

datatype pool_answer = Pooled runtime | Shares nat | Builds nat

definition is_expired :: "provider_runtime_config \<Rightarrow> jsnum \<Rightarrow> PoolEntry \<Rightarrow> bool" where
  "is_expired cfg now e \<longleftrightarrow> cacheTtlSeconds cfg * 1000 > 0 \<and> now - createdAt e > cacheTtlSeconds cfg * 1000"

definition share_or_build :: "string \<Rightarrow> string \<Rightarrow> rt_pool \<Rightarrow> pool_answer \<times> rt_pool" where
  "share_or_build key hash p =
     (let start = (let creation = \<lparr>creation_id = next_creation p, creation_hash = hash\<rparr>
                   in (Builds (next_creation p),
                       p\<lparr>creating := map_set (creating p) key creation, next_creation := next_creation p + 1,
                         in_flight := (key, creation) # in_flight p\<rparr>))
      in case map_get (creating p) key of
           Some inFlight \<Rightarrow> if creation_hash inFlight = hash then (Shares (creation_id inFlight), p) else start
         | None \<Rightarrow> start)"

definition getOrCreate ::
  "provider_runtime_config \<Rightarrow> jsnum \<Rightarrow> string \<Rightarrow> string \<Rightarrow> rt_pool \<Rightarrow> pool_answer \<times> rt_pool" where
  "getOrCreate cfg now key hash p =
     (case map_get (pool p) key of
        Some existing \<Rightarrow>
          if \<not> is_expired cfg now existing \<and> entry_hash existing = hash
          then (Pooled (entry_runtime existing), p\<lparr>pool := map_set (pool p) key (existing\<lparr>lastUsedAt := now\<rparr>)\<rparr>)
          else share_or_build key hash (evict_entry cfg now key None p)
      | None \<Rightarrow> share_or_build key hash p)"

definition adopt :: "provider_runtime_config \<Rightarrow> jsnum \<Rightarrow> string \<Rightarrow> PendingCreation \<Rightarrow> runtime \<Rightarrow> rt_pool \<Rightarrow> rt_pool" where
  "adopt cfg now key creation r p =
     (if map_get (creating p) key \<noteq> Some creation then retire cfg now key r p
      else
        let p' = (if map_has (pool p) key then evict_entry cfg now key None p else p)
        in p'\<lparr>pool := map_set (pool p') key
             \<lparr>entry_runtime = r, entry_hash = creation_hash creation, createdAt = now, lastUsedAt = now\<rparr>\<rparr>)"

text \<open>The factory of a build answers, with a runtime or by failing (\<^const>\<open>None\<close>).\<close>

definition build_resumes ::
  "provider_runtime_config \<Rightarrow> jsnum \<Rightarrow> string \<Rightarrow> PendingCreation \<Rightarrow> runtime option \<Rightarrow> rt_pool \<Rightarrow> rt_pool" where
  "build_resumes cfg now key creation answer p =
     (let pA = (case answer of None \<Rightarrow> p | Some r \<Rightarrow> adopt cfg now key creation r p);
          pB = (if map_get (creating pA) key = Some creation
                then pA\<lparr>creating := map_delete (creating pA) key\<rparr> else pA)
      in pB\<lparr>in_flight := remove1 (key, creation) (in_flight pB)\<rparr>)"

definition invalidate :: "provider_runtime_config \<Rightarrow> jsnum \<Rightarrow> string \<Rightarrow> rt_pool \<Rightarrow> rt_pool" where
  "invalidate cfg now key p =
     (let p' = evict_entry cfg now key None p in p'\<lparr>creating := map_delete (creating p') key\<rparr>)"

definition starts_with_prefix :: "string \<Rightarrow> string \<Rightarrow> bool" where
  "starts_with_prefix key prefix \<longleftrightarrow> take (length prefix) key = prefix"

definition invalidateByPrefix :: "provider_runtime_config \<Rightarrow> jsnum \<Rightarrow> string \<Rightarrow> rt_pool \<Rightarrow> rt_pool" where
  "invalidateByPrefix cfg now prefix p =
     (let p' = fold (\<lambda>key. if starts_with_prefix key prefix then evict_entry cfg now key None else id) (map fst (pool p)) p
      in p'\<lparr>creating := map_delete_if (\<lambda>key c. starts_with_prefix key prefix) (creating p')\<rparr>)"

definition sweep :: "provider_runtime_config \<Rightarrow> jsnum \<Rightarrow> rt_pool \<Rightarrow> rt_pool" where
  "sweep cfg now p =
     (let p' = drainDisposals False now p; ttl = cacheTtlSeconds cfg * 1000 in
      if ttl \<le> 0 then p'
      else fold (\<lambda>(key, e). if now - createdAt e > ttl then evict_entry cfg now key (Some e) else id) (pool p') p')"

definition stats :: "rt_pool \<Rightarrow> nat \<times> string list" where
  "stats p = (length (pool p), map fst (pool p))"

definition destroy :: "provider_runtime_config \<Rightarrow> jsnum \<Rightarrow> rt_pool \<Rightarrow> rt_pool" where
  "destroy cfg now p =
     (let pA = p\<lparr>sweepTimer := False\<rparr>;
          pB = fold (\<lambda>key. evict_entry cfg now key None) (map fst (pool pA)) pA;
          pC = drainDisposals True now (pB\<lparr>creating := []\<rparr>)
      in pC\<lparr>pool := []\<rparr>)"

section \<open>Hashing a configuration\<close>

text \<open>
  JSON values, with a number as its printed text, and \<^verbatim>\<open>JSON.stringify\<close>. The digest is an argument.
\<close>

datatype json = JNull | JBool bool | JNum string | JStr string | JArr "json list" | JObj "(string \<times> json) list"

definition quote_char :: "char \<Rightarrow> string" where
  "quote_char c =
     (if c = CHR 0x22 \<or> c = CHR 0x5C then [CHR 0x5C, c]
      else if code c = 8 then [CHR 0x5C, CHR ''b'']
      else if code c = 9 then [CHR 0x5C, CHR ''t'']
      else if code c = 10 then [CHR 0x5C, CHR ''n'']
      else if code c = 12 then [CHR 0x5C, CHR ''f'']
      else if code c = 13 then [CHR 0x5C, CHR ''r'']
      else if code c < 32 then [CHR 0x5C, CHR ''u'', CHR ''0'', CHR ''0'', digit_char (code c div 16), digit_char (code c mod 16)]
      else [c])"

definition quote :: "string \<Rightarrow> string" where
  "quote s = [CHR 0x22] @ concat (map quote_char s) @ [CHR 0x22]"

fun stringify :: "json \<Rightarrow> string" where
  "stringify JNull = ''null''"
| "stringify (JBool b) = (if b then ''true'' else ''false'')"
| "stringify (JNum n) = n"
| "stringify (JStr s) = quote s"
| "stringify (JArr xs) = ''['' @ js_join '','' (map stringify xs) @ '']''"
| "stringify (JObj kvs) = ''{'' @ js_join '','' (map (\<lambda>(k, v). quote k @ '':'' @ stringify v) kvs) @ ''}''"

text \<open>The replacer is applied to every value from the outside in, so every object's keys end up sorted.\<close>

fun sortObjectKeys :: "json \<Rightarrow> json" where
  "sortObjectKeys (JArr xs) = JArr (map sortObjectKeys xs)"
| "sortObjectKeys (JObj kvs) = JObj (sort_key fst (map (\<lambda>(k, v). (k, sortObjectKeys v)) kvs))"
| "sortObjectKeys v = v"

definition hashCredentials :: "(string \<Rightarrow> string) \<Rightarrow> json \<Rightarrow> string" where
  "hashCredentials sha256_hex credentials = take 16 (sha256_hex (stringify credentials))"

definition hashRuntimeConfig :: "(string \<Rightarrow> string) \<Rightarrow> json \<Rightarrow> string" where
  "hashRuntimeConfig sha256_hex config = take 16 (sha256_hex (stringify (sortObjectKeys config)))"

section \<open>Accounting for runtimes\<close>

definition pooled :: "rt_pool \<Rightarrow> runtime list" where
  "pooled p = filter rt_has_close (map (entry_runtime \<circ> snd) (pool p))"

definition pending :: "rt_pool \<Rightarrow> runtime list" where
  "pending p = map pd_runtime (pendingDisposal p)"

text \<open>All runtimes with a \<^verbatim>\<open>close()\<close> that the pool is answerable for, each as often as it is held or was closed.\<close>

definition accounted :: "rt_pool \<Rightarrow> runtime multiset" where
  "accounted p = mset (pooled p) + mset (pending p) + mset (closed p)"

definition owned :: "runtime \<Rightarrow> runtime multiset" where
  "owned r = (if rt_has_close r then {#r#} else {#})"

definition keys_ok :: "rt_pool \<Rightarrow> bool" where
  "keys_ok p \<longleftrightarrow> distinct (map fst (pool p)) \<and> distinct (map fst (creating p))"

lemma mset_pooled: "mset (pooled p) = filter_mset rt_has_close (image_mset (entry_runtime \<circ> snd) (mset (pool p)))"
  by (simp add: pooled_def)

lemma accounted_cong:
  "pool p = pool q \<Longrightarrow> pendingDisposal p = pendingDisposal q \<Longrightarrow> closed p = closed q \<Longrightarrow> accounted p = accounted q"
  by (simp add: accounted_def pooled_def pending_def)

lemma accounted_close: "accounted (closeRuntime r p) = accounted p + owned r"
  by (simp add: accounted_def pooled_def pending_def closeRuntime_def owned_def)

lemma accounted_retire: "accounted (retire cfg now key r p) = accounted p + owned r"
  by (simp add: retire_def Let_def accounted_close) (simp add: accounted_def pooled_def pending_def owned_def)

lemma retire_frame [simp]:
  "pool (retire cfg now key r p) = pool p" "creating (retire cfg now key r p) = creating p"
  "in_flight (retire cfg now key r p) = in_flight p" "next_creation (retire cfg now key r p) = next_creation p"
  "sweepTimer (retire cfg now key r p) = sweepTimer p"
  by (simp_all add: retire_def closeRuntime_def Let_def)

lemma evict_frame [simp]:
  "pool (evict_entry cfg now key known p) = map_delete (pool p) key"
  "creating (evict_entry cfg now key known p) = creating p"
  "in_flight (evict_entry cfg now key known p) = in_flight p"
  "next_creation (evict_entry cfg now key known p) = next_creation p"
  "sweepTimer (evict_entry cfg now key known p) = sweepTimer p"
  by (auto simp: evict_entry_def Let_def split: option.splits)

lemma accounted_delete:
  "keys_ok p \<Longrightarrow> map_get (pool p) key = Some e \<Longrightarrow>
   accounted p = accounted (p\<lparr>pool := map_delete (pool p) key\<rparr>) + owned (entry_runtime e)"
  using mset_map_delete [of "pool p" key e]
  by (auto simp: keys_ok_def accounted_def mset_pooled pending_def owned_def)

lemma accounted_evict:
  assumes "keys_ok p" "known = None \<or> known = map_get (pool p) key"
  shows "accounted (evict_entry cfg now key known p) = accounted p"
proof (cases "map_get (pool p) key")
  case None
  then show ?thesis using assms by (auto simp: evict_entry_def map_delete_None intro: accounted_cong)
next
  case (Some e)
  then show ?thesis
    using assms accounted_delete [OF assms(1) Some] by (auto simp: evict_entry_def accounted_retire)
qed

lemma keys_ok_evict [simp]: "keys_ok p \<Longrightarrow> keys_ok (evict_entry cfg now key known p)"
  by (simp add: keys_ok_def map_distinct)

lemma fold_close_frame [simp]:
  "pool (fold (\<lambda>item. closeRuntime (pd_runtime item)) items p) = pool p"
  "creating (fold (\<lambda>item. closeRuntime (pd_runtime item)) items p) = creating p"
  "in_flight (fold (\<lambda>item. closeRuntime (pd_runtime item)) items p) = in_flight p"
  "next_creation (fold (\<lambda>item. closeRuntime (pd_runtime item)) items p) = next_creation p"
  "sweepTimer (fold (\<lambda>item. closeRuntime (pd_runtime item)) items p) = sweepTimer p"
  "pendingDisposal (fold (\<lambda>item. closeRuntime (pd_runtime item)) items p) = pendingDisposal p"
  by (induction items arbitrary: p) (simp_all add: closeRuntime_def)

lemma drain_frame [simp]:
  "pool (drainDisposals force now p) = pool p" "creating (drainDisposals force now p) = creating p"
  "in_flight (drainDisposals force now p) = in_flight p"
  "next_creation (drainDisposals force now p) = next_creation p"
  "sweepTimer (drainDisposals force now p) = sweepTimer p"
  "pendingDisposal (drainDisposals force now p) =
     filter (\<lambda>item. \<not> (force \<or> disposeAt item \<le> now)) (pendingDisposal p)"
  by (simp_all add: drainDisposals_def Let_def)

lemma accounted_fold_close:
  "accounted (fold (\<lambda>item. closeRuntime (pd_runtime item)) items p) = accounted p + (\<Sum>item\<leftarrow>items. owned (pd_runtime item))"
  by (induction items arbitrary: p) (simp_all add: accounted_close ac_simps)

text \<open>Only runtimes with a \<^verbatim>\<open>close()\<close> are ever queued for closing.\<close>

definition queue_ok :: "rt_pool \<Rightarrow> bool" where
  "queue_ok p \<longleftrightarrow> list_all rt_has_close (pending p)"

lemma queue_sum: "list_all rt_has_close (map pd_runtime items) \<Longrightarrow>
    (\<Sum>item\<leftarrow>items. owned (pd_runtime item)) = mset (map pd_runtime items)"
  by (induction items) (auto simp: owned_def)

lemma accounted_drain:
  assumes "queue_ok p"
  shows "accounted (drainDisposals force now p) = accounted p"
proof -
  let ?due = "\<lambda>item. force \<or> disposeAt item \<le> now" and ?q = "pendingDisposal p"
  have "(\<Sum>item\<leftarrow>filter ?due ?q. owned (pd_runtime item)) = mset (map pd_runtime (filter ?due ?q))"
    using assms by (intro queue_sum) (auto simp: queue_ok_def pending_def list_all_iff)
  moreover have "mset (map pd_runtime (filter ?due ?q)) + mset (map pd_runtime (filter (\<lambda>i. \<not> ?due i) ?q)) = mset (map pd_runtime ?q)"
    by (metis image_mset_union mset_filter mset_map multiset_partition)
  ultimately show ?thesis
    by (auto simp: drainDisposals_def Let_def accounted_fold_close) (auto simp: accounted_def pooled_def pending_def ac_simps)
qed

lemma queue_ok_retire [simp]: "queue_ok p \<Longrightarrow> queue_ok (retire cfg now key r p)"
  by (auto simp: queue_ok_def pending_def retire_def closeRuntime_def Let_def)

lemma queue_ok_cong: "pendingDisposal p = pendingDisposal q \<Longrightarrow> queue_ok p = queue_ok q"
  by (simp add: queue_ok_def pending_def)

lemma queue_ok_evict [simp]: "queue_ok p \<Longrightarrow> queue_ok (evict_entry cfg now key known p)"
  by (auto simp: evict_entry_def Let_def queue_ok_cong [of "p\<lparr>pool := x\<rparr>" p for x] split: option.splits intro: queue_ok_retire)

lemma queue_ok_drain [simp]: "queue_ok p \<Longrightarrow> queue_ok (drainDisposals force now p)"
  by (auto simp: queue_ok_def pending_def list_all_iff)

text \<open>Evicting a list of keys, each with its entry if that is at hand.\<close>

definition evict_all :: "provider_runtime_config \<Rightarrow> jsnum \<Rightarrow> (string \<times> PoolEntry option) list \<Rightarrow> rt_pool \<Rightarrow> rt_pool" where
  "evict_all cfg now items = fold (\<lambda>(key, known). evict_entry cfg now key known) items"

lemma evict_all_simps [simp]:
  "evict_all cfg now [] p = p"
  "evict_all cfg now ((key, known) # items) p = evict_all cfg now items (evict_entry cfg now key known p)"
  by (simp_all add: evict_all_def)

lemma evict_all_frame [simp]:
  "creating (evict_all cfg now items p) = creating p"
  "in_flight (evict_all cfg now items p) = in_flight p"
  "next_creation (evict_all cfg now items p) = next_creation p"
  "sweepTimer (evict_all cfg now items p) = sweepTimer p"
  "map_get (pool (evict_all cfg now items p)) k = (if k \<in> fst ` set items then None else map_get (pool p) k)"
  by (induction items arbitrary: p) force+

lemma evict_all_ok [simp]:
  "keys_ok p \<Longrightarrow> keys_ok (evict_all cfg now items p)"
  "queue_ok p \<Longrightarrow> queue_ok (evict_all cfg now items p)"
  by (induction items arbitrary: p) auto

lemma evict_all_accounted:
  "keys_ok p \<Longrightarrow> distinct (map fst items) \<Longrightarrow>
   (\<And>key known. (key, known) \<in> set items \<Longrightarrow> known = None \<or> known = map_get (pool p) key) \<Longrightarrow>
   accounted (evict_all cfg now items p) = accounted p"
proof (induction items arbitrary: p)
  case (Cons item items)
  obtain key known where item: "item = (key, known)" by force
  have "accounted (evict_all cfg now items (evict_entry cfg now key known p)) =
      accounted (evict_entry cfg now key known p)"
    using Cons.prems by (intro Cons.IH) (auto simp: item image_iff)
  then show ?case using Cons.prems(1,3) item by (simp add: accounted_evict)
qed simp

lemma fold_if: "fold (\<lambda>x. if Q x then f x else id) xs s = fold f (filter Q xs) s"
  by (induction xs arbitrary: s) auto

lemma invalidateByPrefix_alt:
  "invalidateByPrefix cfg now prefix p =
     (let p' = evict_all cfg now (map (\<lambda>key. (key, None)) (filter (\<lambda>key. starts_with_prefix key prefix) (map fst (pool p)))) p
      in p'\<lparr>creating := map_delete_if (\<lambda>key c. starts_with_prefix key prefix) (creating p')\<rparr>)"
  by (simp add: invalidateByPrefix_def evict_all_def fold_if fold_map filter_map o_def)

lemma sweep_alt:
  "sweep cfg now p =
     (let p' = drainDisposals False now p; ttl = cacheTtlSeconds cfg * 1000 in
      if ttl \<le> 0 then p'
      else evict_all cfg now (map (\<lambda>(key, e). (key, Some e)) (filter (\<lambda>(key, e). now - createdAt e > ttl) (pool p'))) p')"
  by (simp add: sweep_def evict_all_def fold_map o_def split_def Let_def fold_if)

lemma destroy_alt:
  "destroy cfg now p =
     (let pB = evict_all cfg now (map (\<lambda>key. (key, None)) (map fst (pool p))) (p\<lparr>sweepTimer := False\<rparr>)
      in (drainDisposals True now (pB\<lparr>creating := []\<rparr>))\<lparr>pool := []\<rparr>)"
  by (simp add: destroy_def evict_all_def fold_map o_def Let_def)

section \<open>Reachable pools\<close>

text \<open>
  A build and what it is for: the key and hash it was started with. \<open>reach p built\<close> holds of the pools that
  any interleaving of requests, answering factories, invalidations, sweeps and shutdowns can lead to, with the
  runtimes that factories have handed over. A factory hands over a runtime nobody has seen before.
\<close>

type_synonym provenance = "runtime \<times> string \<times> string"

inductive reach :: "rt_pool \<Rightarrow> provenance list \<Rightarrow> bool" where
  initially: "reach new_pool []"
| request: "reach p built \<Longrightarrow> reach (snd (getOrCreate cfg now key hash p)) built"
| built: "reach p built \<Longrightarrow> (key, creation) \<in> set (in_flight p) \<Longrightarrow> r \<notin> fst ` set built \<Longrightarrow>
    reach (build_resumes cfg now key creation (Some r) p) ((r, key, creation_hash creation) # built)"
| build_failed: "reach p built \<Longrightarrow> (key, creation) \<in> set (in_flight p) \<Longrightarrow>
    reach (build_resumes cfg now key creation None p) built"
| invalidated: "reach p built \<Longrightarrow> reach (invalidate cfg now key p) built"
| prefix_invalidated: "reach p built \<Longrightarrow> reach (invalidateByPrefix cfg now prefix p) built"
| swept: "reach p built \<Longrightarrow> reach (sweep cfg now p) built"
| destroyed: "reach p built \<Longrightarrow> reach (destroy cfg now p) built"

text \<open>The invariant.\<close>

definition creations_ok :: "rt_pool \<Rightarrow> bool" where
  "creations_ok p \<longleftrightarrow>
     (\<forall>k c. map_get (creating p) k = Some c \<longrightarrow> (k, c) \<in> set (in_flight p) \<and> map_get (pool p) k = None) \<and>
     (\<forall>(k, c) \<in> set (in_flight p). creation_id c < next_creation p) \<and>
     distinct (map (creation_id \<circ> snd) (in_flight p))"

definition entries_ok :: "rt_pool \<Rightarrow> provenance list \<Rightarrow> bool" where
  "entries_ok p built \<longleftrightarrow>
     (\<forall>k e. map_get (pool p) k = Some e \<longrightarrow> (entry_runtime e, k, entry_hash e) \<in> set built)"

definition pool_ok :: "rt_pool \<Rightarrow> provenance list \<Rightarrow> bool" where
  "pool_ok p built \<longleftrightarrow> keys_ok p \<and> queue_ok p \<and> creations_ok p \<and> entries_ok p built
     \<and> accounted p = mset (filter rt_has_close (map fst built)) \<and> distinct (map fst built)"

lemma pool_ok_evict:
  assumes "pool_ok p built"
  shows "pool_ok (evict_entry cfg now key None p) built"
  using assms by (auto simp: pool_ok_def accounted_evict creations_ok_def entries_ok_def)

lemma pool_ok_drop_creations:
  assumes "pool_ok p built"
  shows "pool_ok (p\<lparr>creating := map_delete_if (\<lambda>key c. Q key) (creating p)\<rparr>) built"
    and "pool_ok (p\<lparr>creating := map_delete (creating p) key\<rparr>) built"
    and "pool_ok (p\<lparr>creating := []\<rparr>) built"
  using assms
  by (auto simp: pool_ok_def keys_ok_def queue_ok_def pending_def creations_ok_def entries_ok_def accounted_def pooled_def
      map_distinct map_get_delete_if split: option.splits if_splits)

lemma pool_ok_evict_all:
  assumes "pool_ok p built" "distinct (map fst items)"
    and "\<And>key known. (key, known) \<in> set items \<Longrightarrow> known = None \<or> known = map_get (pool p) key"
  shows "pool_ok (evict_all cfg now items p) built"
  using assms by (auto simp: pool_ok_def evict_all_accounted creations_ok_def entries_ok_def)

lemma pool_ok_drain: "pool_ok p built \<Longrightarrow> pool_ok (drainDisposals force now p) built"
  by (auto simp: pool_ok_def accounted_drain keys_ok_def creations_ok_def entries_ok_def)

lemma pool_ok_timer: "pool_ok p built \<Longrightarrow> pool_ok (p\<lparr>sweepTimer := b\<rparr>) built"
  by (auto simp: pool_ok_def keys_ok_def queue_ok_def pending_def creations_ok_def entries_ok_def accounted_def pooled_def)

lemma pool_ok_share:
  assumes "pool_ok p built" "map_get (pool p) key = None"
  shows "pool_ok (snd (share_or_build key hash p)) built"
  using assms
  by (auto simp: share_or_build_def Let_def pool_ok_def keys_ok_def queue_ok_def pending_def creations_ok_def entries_ok_def
      accounted_def pooled_def map_set_distinct less_Suc_eq split: option.splits)

lemma pool_ok_touch:
  assumes "pool_ok p built" "map_get (pool p) key = Some e"
  shows "pool_ok (p\<lparr>pool := map_set (pool p) key (e\<lparr>lastUsedAt := now\<rparr>)\<rparr>) built"
proof -
  have d: "distinct (map fst (pool p))" using assms(1) by (simp add: pool_ok_def keys_ok_def)
  have "accounted (p\<lparr>pool := map_set (pool p) key (e\<lparr>lastUsedAt := now\<rparr>)\<rparr>) = accounted p"
    using mset_map_delete [OF d assms(2)]
    by (simp add: accounted_def mset_pooled pending_def mset_map_set [OF d])
  moreover have "map_get (creating p) key = None"
    using assms by (cases "map_get (creating p) key") (auto simp: pool_ok_def creations_ok_def)
  ultimately show ?thesis
    using assms by (auto simp: pool_ok_def keys_ok_def queue_ok_def pending_def creations_ok_def entries_ok_def map_set_distinct)
qed

lemma pool_ok_request:
  assumes "pool_ok p built"
  shows "pool_ok (snd (getOrCreate cfg now key hash p)) built"
  using assms pool_ok_evict [OF assms]
  by (auto simp: getOrCreate_def pool_ok_touch pool_ok_share split: option.splits)

text \<open>A build that is over: out of \<open>creating\<close> if it still counted, and out of the builds in flight.\<close>

definition settle_build :: "string \<Rightarrow> PendingCreation \<Rightarrow> rt_pool \<Rightarrow> rt_pool" where
  "settle_build key creation p =
     (let p' = (if map_get (creating p) key = Some creation then p\<lparr>creating := map_delete (creating p) key\<rparr> else p)
      in p'\<lparr>in_flight := remove1 (key, creation) (in_flight p')\<rparr>)"

lemma settle_frame [simp]:
  "pool (settle_build key creation p) = pool p" "pendingDisposal (settle_build key creation p) = pendingDisposal p"
  "closed (settle_build key creation p) = closed p" "next_creation (settle_build key creation p) = next_creation p"
  "sweepTimer (settle_build key creation p) = sweepTimer p"
  "in_flight (settle_build key creation p) = remove1 (key, creation) (in_flight p)"
  by (simp_all add: settle_build_def Let_def)

lemma creating_settle:
  "map_get (creating (settle_build key creation p)) k =
     (if k = key \<and> map_get (creating p) key = Some creation then None else map_get (creating p) k)"
  by (simp add: settle_build_def Let_def)

lemma creations_ok_settle:
  assumes "creations_ok p"
  shows "creations_ok (settle_build key creation p)"
proof -
  have "(k, c) \<in> set (remove1 (key, creation) (in_flight p))"
    if "map_get (creating (settle_build key creation p)) k = Some c" for k c
  proof -
    have "(k, c) \<noteq> (key, creation)" using that by (auto simp: creating_settle split: if_splits)
    then show ?thesis
      using assms that by (simp add: creations_ok_def creating_settle in_set_remove1 split: if_splits)
  qed
  moreover have "distinct (map (creation_id \<circ> snd) (remove1 (key, creation) (in_flight p)))"
    using assms by (metis creations_ok_def distinct_map distinct_remove1 inj_on_subset set_remove1_subset)
  ultimately show ?thesis
    using assms by (auto simp: creations_ok_def creating_settle dest!: subsetD [OF set_remove1_subset] split: if_splits)
qed

lemma pool_ok_settle: "pool_ok p built \<Longrightarrow> pool_ok (settle_build key creation p) built"
  by (simp add: pool_ok_def creations_ok_settle entries_ok_def queue_ok_def pending_def accounted_def pooled_def)
     (auto simp: keys_ok_def settle_build_def Let_def map_distinct)

lemma build_resumes_None: "build_resumes cfg now key creation None p = settle_build key creation p"
  by (simp add: build_resumes_def settle_build_def Let_def)

lemma build_resumes_Some:
  "build_resumes cfg now key creation (Some r) p = settle_build key creation (adopt cfg now key creation r p)"
  by (simp add: build_resumes_def settle_build_def Let_def)

lemma pool_ok_add:
  assumes "pool_ok p built" "map_get (creating p) key = None" "map_get (pool p) key = None" "entry_runtime e \<notin> fst ` set built"
  shows "pool_ok (p\<lparr>pool := map_set (pool p) key e\<rparr>) ((entry_runtime e, key, entry_hash e) # built)"
proof -
  have d: "distinct (map fst (pool p))" using assms(1) by (simp add: pool_ok_def keys_ok_def)
  have "accounted (p\<lparr>pool := map_set (pool p) key e\<rparr>) = accounted p + owned (entry_runtime e)"
    using assms(3) by (simp add: accounted_def mset_pooled pending_def mset_map_set [OF d] map_delete_None owned_def)
  then show ?thesis
    using assms by (auto simp: pool_ok_def keys_ok_def queue_ok_def pending_def creations_ok_def entries_ok_def map_set_distinct
        owned_def)
qed

lemma pool_ok_retire:
  assumes "pool_ok p built" "r \<notin> fst ` set built"
  shows "pool_ok (retire cfg now key r p) ((r, k, h) # built)"
  using assms by (auto simp: pool_ok_def keys_ok_def creations_ok_def entries_ok_def accounted_retire owned_def)

lemma pool_ok_built:
  assumes "pool_ok p built" "r \<notin> fst ` set built"
  shows "pool_ok (build_resumes cfg now key creation (Some r) p) ((r, key, creation_hash creation) # built)"
proof (cases "map_get (creating p) key = Some creation")
  case True
  let ?e = "\<lparr>entry_runtime = r, entry_hash = creation_hash creation, createdAt = now, lastUsedAt = now\<rparr>"
    and ?q = "settle_build key creation p"
  have none: "map_get (pool p) key = None" using assms(1) True by (auto simp: pool_ok_def creations_ok_def)
  have "pool_ok (?q\<lparr>pool := map_set (pool ?q) key ?e\<rparr>) ((entry_runtime ?e, key, entry_hash ?e) # built)"
    using assms none True by (intro pool_ok_add) (auto simp: pool_ok_settle creating_settle)
  moreover have "build_resumes cfg now key creation (Some r) p = ?q\<lparr>pool := map_set (pool ?q) key ?e\<rparr>"
    using none True by (simp add: build_resumes_Some adopt_def settle_build_def Let_def)
  ultimately show ?thesis by simp
next
  case False
  then show ?thesis
    using assms by (simp add: build_resumes_Some adopt_def pool_ok_retire pool_ok_settle)
qed

lemma pool_ok_sweep:
  assumes "pool_ok p built"
  shows "pool_ok (sweep cfg now p) built"
proof -
  let ?old = "filter (\<lambda>(key, e). now - createdAt e > cacheTtlSeconds cfg * 1000) (pool p)"
  have d: "distinct (map fst (pool p))" using assms by (simp add: pool_ok_def keys_ok_def)
  then have "distinct (map fst ?old)" by (auto simp: distinct_map intro: inj_on_subset)
  then have "pool_ok (evict_all cfg now (map (\<lambda>(key, e). (key, Some e)) ?old) (drainDisposals False now p)) built"
    using assms d by (intro pool_ok_evict_all pool_ok_drain) (auto simp: o_def split_def map_of_eq_Some_iff)
  then show ?thesis using assms by (simp add: sweep_alt Let_def pool_ok_drain)
qed

lemma pool_ok_destroy:
  assumes "pool_ok p built"
  shows "pool_ok (destroy cfg now p) built" "pool (destroy cfg now p) = []" "pendingDisposal (destroy cfg now p) = []"
    "creating (destroy cfg now p) = []" "sweepTimer (destroy cfg now p) = False"
    "in_flight (destroy cfg now p) = in_flight p"
proof -
  let ?items = "map (\<lambda>key. (key, None)) (map fst (pool p)) :: (string \<times> PoolEntry option) list"
  let ?q = "evict_all cfg now ?items (p\<lparr>sweepTimer := False\<rparr>)"
  have d: "distinct (map fst (pool p))" using assms by (simp add: pool_ok_def keys_ok_def)
  have "map_get (pool ?q) k = None" for k
    by (auto simp: image_iff map_of_eq_None_iff)
  then have empty: "pool ?q = []" by (rule map_get_empty)
  have "pool_ok ?q built"
    using assms d by (intro pool_ok_evict_all pool_ok_timer) (auto simp: o_def)
  then have "pool_ok (drainDisposals True now (?q\<lparr>creating := []\<rparr>)) built"
    by (intro pool_ok_drain pool_ok_drop_creations)
  moreover have "destroy cfg now p = drainDisposals True now (?q\<lparr>creating := []\<rparr>)"
    unfolding destroy_alt Let_def using empty by (intro rt_pool.equality) simp_all
  ultimately show "pool_ok (destroy cfg now p) built" "pool (destroy cfg now p) = []"
    "pendingDisposal (destroy cfg now p) = []" "creating (destroy cfg now p) = []"
    "sweepTimer (destroy cfg now p) = False" "in_flight (destroy cfg now p) = in_flight p"
    using empty by simp_all
qed

lemma reach_ok: "reach p built \<Longrightarrow> pool_ok p built"
proof (induction rule: reach.induct)
  case initially
  then show ?case
    by (simp add: pool_ok_def new_pool_def keys_ok_def queue_ok_def pending_def creations_ok_def entries_ok_def accounted_def pooled_def)
next
  case (invalidated p built cfg now key)
  then show ?case by (simp add: invalidate_def Let_def pool_ok_drop_creations(2) [OF pool_ok_evict, simplified])
next
  case (prefix_invalidated p built cfg now prefix)
  have "distinct (map fst (pool p))" using prefix_invalidated.IH by (simp add: pool_ok_def keys_ok_def)
  then show ?case
    unfolding invalidateByPrefix_alt Let_def using prefix_invalidated.IH
    by (intro pool_ok_drop_creations(1) pool_ok_evict_all) (auto simp: o_def)
qed (auto intro: pool_ok_request pool_ok_built pool_ok_sweep pool_ok_destroy(1) simp: build_resumes_None pool_ok_settle)

section \<open>What the pool guarantees\<close>

lemma reach_partition:
  assumes "reach p built"
  shows "mset (pooled p @ pending p @ closed p) = mset (filter rt_has_close (map fst built))"
    and "distinct (pooled p @ pending p @ closed p)"
    and "set (pending p) \<union> set (closed p) \<subseteq> {r. rt_has_close r}"
proof -
  show eq: "mset (pooled p @ pending p @ closed p) = mset (filter rt_has_close (map fst built))"
    using reach_ok [OF assms] by (simp add: pool_ok_def accounted_def ac_simps)
  have "distinct (map fst built)" using reach_ok [OF assms] by (simp add: pool_ok_def)
  then show "distinct (pooled p @ pending p @ closed p)"
    using eq by (metis distinct_filter mset_eq_imp_distinct_iff)
  show "set (pending p) \<union> set (closed p) \<subseteq> {r. rt_has_close r}"
    using mset_eq_setD [OF eq] by auto
qed

text \<open>
  C4: Whatever requests, answering factories, invalidations, sweeps and shutdowns are interleaved, every runtime that owns
  connections and was handed over by a factory is in exactly one of three places: pooled under one key, queued for
  closing once, or closed once. None leaks, none is closed twice, none is closed while the pool still hands it
  out. A shutdown leaves all of them closed.
\<close>

theorem pool_accounts_for_every_runtime:
  assumes "reach p built"
  shows "mset (pooled p @ pending p @ closed p) = mset (filter rt_has_close (map fst built)) \<and>
    distinct (pooled p @ pending p @ closed p) \<and>
    mset (closed (destroy cfg now p)) = mset (filter rt_has_close (map fst built))"
  using reach_partition [OF assms] pool_ok_destroy [OF reach_ok [OF assms], of cfg now]
  by (simp add: pool_ok_def accounted_def pooled_def pending_def)

definition sample_config :: provider_runtime_config where
  "sample_config = \<lparr>cacheTtlSeconds = 1, disposeGraceSeconds = 1\<rparr>"

definition sample_runtime :: "nat \<Rightarrow> runtime" where
  "sample_runtime n = \<lparr>rt_id = n, rt_has_close = True\<rparr>"

text \<open>A build of hash \<open>h\<close> under way, then done.\<close>

definition sample_building :: rt_pool where
  "sample_building = snd (getOrCreate sample_config 10 ''k'' ''h'' new_pool)"

definition sample_built :: rt_pool where
  "sample_built = build_resumes sample_config 20 ''k'' \<lparr>creation_id = 0, creation_hash = ''h''\<rparr> (Some (sample_runtime 7)) sample_building"

lemmas sample_pool_simps = sample_built_def sample_building_def sample_config_def sample_runtime_def getOrCreate_def
  share_or_build_def new_pool_def build_resumes_def adopt_def evict_entry_def retire_def is_expired_def

lemma sample_building_reach: "reach sample_building []"
  unfolding sample_building_def by (intro reach.intros)

lemma sample_built_reach: "reach sample_built [(sample_runtime 7, ''k'', ''h'')]"
  using reach.built [OF sample_building_reach, of "''k''" "\<lparr>creation_id = 0, creation_hash = ''h''\<rparr>" "sample_runtime 7" sample_config 20]
  unfolding sample_built_def by (simp add: sample_building_def getOrCreate_def share_or_build_def new_pool_def Let_def)

theorem pool_accounts_for_every_runtime_witness:
  "mset (closed (destroy sample_config 30 sample_built)) = {#sample_runtime 7#}"
  using pool_accounts_for_every_runtime [OF sample_built_reach, of sample_config 30]
  by (simp add: sample_runtime_def)

text \<open>
  A request that is answered from the pool gets a runtime that was built for its very key and configuration hash, is
  not older than the time to live, and is neither closed nor waiting to be closed.
\<close>

theorem pooled_answer_is_current:
  assumes "reach p built" "getOrCreate cfg now key hash p = (Pooled r, p')"
  shows "(r, key, hash) \<in> set built \<and> r \<notin> set (closed p') \<and> r \<notin> set (pending p') \<and>
    (0 < cacheTtlSeconds cfg \<longrightarrow> (\<exists>e. map_get (pool p) key = Some e \<and> now - createdAt e \<le> cacheTtlSeconds cfg * 1000))"
proof -
  note ok = reach_ok [OF assms(1)]
  obtain e where e: "map_get (pool p) key = Some e" "\<not> is_expired cfg now e" "entry_hash e = hash" "r = entry_runtime e"
    and p': "closed p' = closed p" "pending p' = pending p"
    using assms(2) by (auto simp: getOrCreate_def share_or_build_def pending_def Let_def split: option.splits if_splits)
  have "(r, key, hash) \<in> set built"
    using ok e by (auto simp: pool_ok_def entries_ok_def)
  moreover have "r \<notin> set (closed p) \<and> r \<notin> set (pending p)"
  proof (cases "rt_has_close r")
    case True
    then have "r \<in> set (pooled p)" using map_of_SomeD [OF e(1)] e(4) by (force simp: pooled_def)
    then show ?thesis using reach_partition(2) [OF assms(1)] by auto
  next
    case False
    then show ?thesis using reach_partition(3) [OF assms(1)] by auto
  qed
  ultimately show ?thesis using e(1,2) p' by (auto simp: is_expired_def)
qed

theorem pooled_answer_is_current_witness:
  "sample_runtime 7 \<notin> set (closed (snd (getOrCreate sample_config 30 ''k'' ''h'' sample_built)))"
  using pooled_answer_is_current [OF sample_built_reach, of sample_config 30 "''k''" "''h''" "sample_runtime 7"
      "snd (getOrCreate sample_config 30 ''k'' ''h'' sample_built)"]
  by (simp add: sample_pool_simps Let_def)

text \<open>Requests for one key and hash at a sequence of instants, while the factory has not answered.\<close>

fun requests :: "provider_runtime_config \<Rightarrow> string \<Rightarrow> string \<Rightarrow> jsnum list \<Rightarrow> rt_pool \<Rightarrow> pool_answer list \<times> rt_pool" where
  "requests cfg key hash [] p = ([], p)"
| "requests cfg key hash (now # ts) p =
     (let (answer, p') = getOrCreate cfg now key hash p; (answers, p'') = requests cfg key hash ts p'
      in (answer # answers, p''))"

lemma requests_share:
  assumes "map_get (pool p) key = None" "map_get (creating p) key = Some c" "creation_hash c = hash"
  shows "requests cfg key hash ts p = (replicate (length ts) (Shares (creation_id c)), p)"
  using assms by (induction ts) (auto simp: getOrCreate_def share_or_build_def)

text \<open>
  However many requests for a key and hash arrive before the first build answers, exactly one build is started:
  the first request starts it, all others wait for the same one. When it hands over its runtime, that is what the pool holds, and the next
  request gets it without another build.
\<close>

theorem concurrent_requests_build_once:
  assumes "map_get (pool p) key = None" "map_get (creating p) key = None"
    and "requests cfg key hash (t # ts) p = (answers, p')"
    and "\<not> is_expired cfg later \<lparr>entry_runtime = r, entry_hash = hash, createdAt = now, lastUsedAt = now\<rparr>"
  shows "answers = Builds (next_creation p) # replicate (length ts) (Shares (next_creation p)) \<and>
    in_flight p' = (key, \<lparr>creation_id = next_creation p, creation_hash = hash\<rparr>) # in_flight p \<and>
    fst (getOrCreate cfg later key hash
      (build_resumes cfg now key \<lparr>creation_id = next_creation p, creation_hash = hash\<rparr> (Some r) p')) = Pooled r"
proof -
  let ?c = "\<lparr>creation_id = next_creation p, creation_hash = hash\<rparr>"
  let ?q = "p\<lparr>creating := map_set (creating p) key ?c, next_creation := next_creation p + 1, in_flight := (key, ?c) # in_flight p\<rparr>"
  have "getOrCreate cfg t key hash p = (Builds (next_creation p), ?q)"
    using assms(1,2) by (simp add: getOrCreate_def share_or_build_def Let_def)
  moreover have "requests cfg key hash ts ?q = (replicate (length ts) (Shares (next_creation p)), ?q)"
    using requests_share [of ?q key ?c hash cfg ts] assms(1) by simp
  ultimately have "answers = Builds (next_creation p) # replicate (length ts) (Shares (next_creation p))" "p' = ?q"
    using assms(3) by auto
  then show ?thesis
    using assms(1,4) by (simp add: build_resumes_def adopt_def getOrCreate_def Let_def)
qed

theorem concurrent_requests_build_once_witness:
  "fst (requests sample_config ''k'' ''h'' [1, 2, 3] new_pool) = [Builds 0, Shares 0, Shares 0]"
  using concurrent_requests_build_once [of new_pool "''k''" sample_config "''h''" 1 "[2, 3]"
      "fst (requests sample_config ''k'' ''h'' [1, 2, 3] new_pool)" "snd (requests sample_config ''k'' ''h'' [1, 2, 3] new_pool)"
      20 "sample_runtime 7" 10]
  by (simp add: new_pool_def sample_config_def is_expired_def)

text \<open>A creation that no longer counts: it is not the one \<open>creating\<close> has for its key, and its identity is used up.\<close>

definition superseded :: "string \<Rightarrow> PendingCreation \<Rightarrow> rt_pool \<Rightarrow> bool" where
  "superseded key c p \<longleftrightarrow> map_get (creating p) key \<noteq> Some c \<and> creation_id c < next_creation p"

lemma superseded_request:
  "superseded key c p \<Longrightarrow> superseded key c (snd (getOrCreate cfg now k hash p))"
  by (auto simp: superseded_def getOrCreate_def share_or_build_def Let_def split: option.splits)

inductive pool_steps :: "rt_pool \<Rightarrow> rt_pool \<Rightarrow> bool" for p :: rt_pool where
  stop: "pool_steps p p"
| request: "pool_steps p q \<Longrightarrow> pool_steps p (snd (getOrCreate cfg now key hash q))"
| resume: "pool_steps p q \<Longrightarrow> pool_steps p (build_resumes cfg now key c answer q)"
| invalidate: "pool_steps p q \<Longrightarrow> pool_steps p (invalidate cfg now key q)"
| invalidate_prefix: "pool_steps p q \<Longrightarrow> pool_steps p (invalidateByPrefix cfg now prefix q)"
| sweep: "pool_steps p q \<Longrightarrow> pool_steps p (sweep cfg now q)"
| destroy: "pool_steps p q \<Longrightarrow> pool_steps p (destroy cfg now q)"

lemma adopt_frame [simp]:
  "creating (adopt cfg now key c r p) = creating p" "next_creation (adopt cfg now key c r p) = next_creation p"
  by (simp_all add: adopt_def Let_def)

lemma sweep_frame: "creating (sweep cfg now p) = creating p" "next_creation (sweep cfg now p) = next_creation p"
  by (simp_all add: sweep_alt Let_def)

lemma destroy_frame: "creating (destroy cfg now p) = []" "next_creation (destroy cfg now p) = next_creation p"
  by (simp_all add: destroy_alt Let_def)

lemma superseded_steps:
  assumes "pool_steps p q" "superseded key c p"
  shows "superseded key c q"
  using assms
proof (induction rule: pool_steps.induct)
  case (resume q cfg now k c' answer)
  then show ?case
    by (cases answer) (auto simp: build_resumes_None build_resumes_Some creating_settle superseded_def)
next
  case (invalidate q cfg now k)
  then show ?case by (simp add: superseded_def invalidate_def Let_def)
next
  case (invalidate_prefix q cfg now prefix)
  then show ?case by (simp add: superseded_def invalidateByPrefix_alt Let_def map_get_delete_if_key)
next
  case (request q cfg now k hash)
  then show ?case by (simp add: superseded_request)
qed (auto simp: superseded_def sweep_frame destroy_frame)

text \<open>
  A build that was in flight when its key was invalidated never reaches the pool, whatever happens before its factory
  answers, even if new builds of the same key and hash start: its runtime is only handed to those who waited
  for it and retired.
\<close>

theorem invalidated_build_never_pooled:
  assumes "reach p built" "(key, c) \<in> set (in_flight p)"
    and "pool_steps (invalidate cfg now key p) q"
  shows "build_resumes cfg' now' key c (Some r) q = settle_build key c (retire cfg' now' key r q) \<and>
    pool (build_resumes cfg' now' key c (Some r) q) = pool q"
proof -
  have "creation_id c < next_creation p"
    using reach_ok [OF assms(1)] assms(2) by (auto simp: pool_ok_def creations_ok_def)
  then have "superseded key c (invalidate cfg now key p)"
    by (simp add: superseded_def invalidate_def Let_def)
  then have "superseded key c q" using superseded_steps [OF assms(3)] by blast
  then show ?thesis by (simp add: build_resumes_Some adopt_def superseded_def)
qed

theorem invalidated_build_never_pooled_witness:
  "pool (build_resumes sample_config 40 ''k'' \<lparr>creation_id = 0, creation_hash = ''h''\<rparr> (Some (sample_runtime 7))
     (snd (getOrCreate sample_config 30 ''k'' ''h'' (invalidate sample_config 20 ''k'' sample_building)))) = []"
  using invalidated_build_never_pooled [OF sample_building_reach, of "''k''" "\<lparr>creation_id = 0, creation_hash = ''h''\<rparr>"
      sample_config 20 "snd (getOrCreate sample_config 30 ''k'' ''h'' (invalidate sample_config 20 ''k'' sample_building))"
      sample_config 40 "sample_runtime 7"]
    pool_steps.request [OF pool_steps.stop, of "invalidate sample_config 20 ''k'' sample_building" sample_config 30 "''k''" "''h''"]
  by (simp add: sample_pool_simps invalidate_def Let_def)

section \<open>Hashes\<close>

text \<open>Configurations that differ only in the order of keys, at any depth. The keys of an object are distinct.\<close>

inductive same_json :: "json \<Rightarrow> json \<Rightarrow> bool" where
  same_refl: "same_json v v"
| same_arr: "list_all2 same_json xs ys \<Longrightarrow> same_json (JArr xs) (JArr ys)"
| same_obj: "list_all2 (\<lambda>e e'. fst e = fst e' \<and> same_json (snd e) (snd e')) kvs kvs' \<Longrightarrow> mset kvs' = mset kvs'' \<Longrightarrow>
    distinct (map fst kvs'') \<Longrightarrow> same_json (JObj kvs) (JObj kvs'')"

lemma sort_key_fst_unique:
  assumes "mset xs = mset ys" "distinct (map fst ys)"
  shows "sort_key fst xs = sort_key fst (ys :: (string \<times> 'a) list)"
proof (rule properties_for_sort_key)
  show "mset (sort_key fst ys) = mset xs" using assms(1) by simp
  have d: "distinct (map fst xs)" using assms by (metis mset_eq_imp_distinct_iff mset_map)
  have one: "filter (\<lambda>y. fst x = fst y) zs = [x]" if "distinct (map fst zs)" "x \<in> set zs" for x :: "string \<times> 'a" and zs
    using that by (induction zs) (auto simp: filter_empty_conv)
  show "filter (\<lambda>y. fst x = fst y) (sort_key fst ys) = filter (\<lambda>y. fst x = fst y) xs"
    if "x \<in> set (sort_key fst ys)" for x
    using that one [OF d, of x] one [OF assms(2), of x] mset_eq_setD [OF assms(1)]
    by (simp add: filter_sort)
qed simp

lemma sortObjectKeys_same: "same_json a b \<Longrightarrow> sortObjectKeys a = sortObjectKeys b"
proof (induction rule: same_json.induct)
  case (same_arr xs ys)
  then show ?case by (auto simp: list_all2_conv_all_nth intro: nth_equalityI)
next
  case (same_obj kvs kvs' kvs'')
  let ?f = "\<lambda>(k, v). (k, sortObjectKeys v)"
  have "map ?f kvs = map ?f kvs'"
    using same_obj(1) by (fastforce simp: list_all2_conv_all_nth split_beta intro: nth_equalityI)
  moreover have "mset (map ?f kvs') = mset (map ?f kvs'')" using same_obj(2) by simp
  moreover have "distinct (map fst (map ?f kvs''))" using same_obj(3) by (simp add: o_def split_def)
  ultimately show ?case by (simp add: sort_key_fst_unique)
qed simp

text \<open>
  The hash of a runtime configuration does not depend on the order of keys, in the configuration or in anything nested in
  it, so a re-saved but unchanged provider does not rebuild its runtime.
\<close>

theorem hashRuntimeConfig_ignores_key_order:
  assumes "same_json a b"
  shows "hashRuntimeConfig sha256_hex a = hashRuntimeConfig sha256_hex b"
  using sortObjectKeys_same [OF assms] by (simp add: hashRuntimeConfig_def)

theorem hashRuntimeConfig_ignores_key_order_witness:
  "hashRuntimeConfig rev (JObj [(''b'', JNum ''1''), (''a'', JObj [(''y'', JNull), (''x'', JBool True)])]) =
   hashRuntimeConfig rev (JObj [(''a'', JObj [(''x'', JBool True), (''y'', JNull)]), (''b'', JNum ''1'')])"
proof (rule hashRuntimeConfig_ignores_key_order)
  let ?inner = "JObj [(''x'', JBool True), (''y'', JNull)]"
  have inner: "same_json (JObj [(''y'', JNull), (''x'', JBool True)]) ?inner"
    by (rule same_obj [where kvs' = "[(''y'', JNull), (''x'', JBool True)]"]) (auto intro: same_refl)
  show "same_json (JObj [(''b'', JNum ''1''), (''a'', JObj [(''y'', JNull), (''x'', JBool True)])])
      (JObj [(''a'', ?inner), (''b'', JNum ''1'')])"
    by (rule same_obj [where kvs' = "[(''b'', JNum ''1''), (''a'', ?inner)]"]) (auto intro: same_refl inner)
qed

end
