(* ===== verification/MemoryQueue.thy ===== *)
theory MemoryQueue
  imports JsString
begin

text \<open>
  The in-process job queue, \<^verbatim>\<open>src/lib/core/queue/memoryQueueProvider.ts\<close>, and the interface it implements,
  \<^verbatim>\<open>queueProvider.interface.ts\<close>.

  \<^item> Jobs and consumer slots are objects that several parts of the provider hold on to: a job stays reachable from the timer of the
    call that invoked it while it moves between its queue and \<open>runJob\<close>, a slot from the jobs it runs after its worker was closed.
    \<open>heap_jobs\<close> and \<open>heap_slots\<close> are the stores of these objects, and queues, consumers and running jobs hold references.
  \<^item> The environment sees \<open>running\<close> (the handler invocations that have not settled), \<open>timers\<close> (the timeouts of invoked jobs) and
    \<open>settlements\<close> (the calls of an invocation's \<^verbatim>\<open>resolve\<close> and \<^verbatim>\<open>reject\<close>, in order: a promise keeps its first one).
  \<^item> Every method is a function. \<open>runJob_ends\<close> is the part of \<open>runJob\<close> after its \<^verbatim>\<open>await\<close>. \<open>queue_step\<close> interleaves them.
    Handlers run elsewhere: that a handler publishes jobs of its own is a separate step.
\<close>

section \<open>The interface\<close>

record job_error =
  je_is_object :: bool
  je_retryable :: "bool option"
  je_message :: string

definition isNonRetryableJobError :: "job_error \<Rightarrow> bool" where
  "isNonRetryableJobError e \<longleftrightarrow> je_is_object e \<and> je_retryable e = Some False"

record JobOptions =
  opt_attempts :: "nat option"
  opt_backoffMs :: "jsnum option"
  opt_delayMs :: "jsnum option"
  opt_dedupKey :: "string option"

section \<open>The provider\<close>

record 'p Job =
  job_queue :: string
  job_name :: string
  job_payload :: 'p
  attempts :: nat
  attemptsMade :: nat
  backoffMs :: jsnum
  availableAt :: jsnum
  dedupKey :: "string option"
  waiter :: "nat option"

record ConsumerSlot =
  slot_handler :: nat
  concurrency :: nat
  active :: nat
  paused :: bool

datatype 'r call_settlement = Resolved 'r | Rejected string | TimedOut

record ('p, 'r) memory_queue =
  queues :: "(string, nat list) jsmap"
  consumers :: "(string, nat) jsmap"
  dedup :: "(string, nat) jsmap"
  schedules :: "(string, string \<times> string \<times> 'p \<times> jsnum) jsmap"
  shuttingDown :: bool
  draining :: bool
  default_attempts :: nat
  default_backoffMs :: jsnum
  heap_jobs :: "(nat, 'p Job) jsmap"
  heap_slots :: "(nat, ConsumerSlot) jsmap"
  running :: "(nat \<times> nat) list"
  timers :: "(nat \<times> nat) list"
  settlements :: "(nat \<times> 'r call_settlement) list"
  next_ref :: nat

definition new_queue :: "nat \<Rightarrow> jsnum \<Rightarrow> ('p, 'r) memory_queue" where
  "new_queue a b =
     \<lparr>queues = [], consumers = [], dedup = [], schedules = [], shuttingDown = False, draining = True,
      default_attempts = a, default_backoffMs = b, heap_jobs = [], heap_slots = [], running = [], timers = [],
      settlements = [], next_ref = 0\<rparr>"

text \<open>An absent or empty dedup key counts as none.\<close>

definition truthy :: "string option \<Rightarrow> string option" where
  "truthy s = (if s = Some [] then None else s)"

definition queued :: "('p, 'r) memory_queue \<Rightarrow> string \<Rightarrow> nat list" where
  "queued q name = nullish (map_get (queues q) name) []"

definition fresh_job :: "('p, 'r) memory_queue \<Rightarrow> string \<Rightarrow> string \<Rightarrow> 'p \<Rightarrow> JobOptions \<Rightarrow> jsnum \<Rightarrow> 'p Job" where
  "fresh_job q queueName jobName payload opts now =
     \<lparr>job_queue = queueName, job_name = jobName, job_payload = payload,
      attempts = nullish (opt_attempts opts) (default_attempts q), attemptsMade = 0,
      backoffMs = nullish (opt_backoffMs opts) (default_backoffMs q),
      availableAt = now + max (nullish (opt_delayMs opts) 0) 0, dedupKey = opt_dedupKey opts, waiter = None\<rparr>"

definition add_job :: "('p, 'r) memory_queue \<Rightarrow> string \<Rightarrow> 'p Job \<Rightarrow> nat \<times> ('p, 'r) memory_queue" where
  "add_job q queueName job =
     (let ref = next_ref q;
          q' = q\<lparr>heap_jobs := map_set (heap_jobs q) ref job, next_ref := ref + 1,
                 queues := map_set (queues q) queueName (queued q queueName @ [ref])\<rparr>
      in (ref, case truthy (dedupKey job) of None \<Rightarrow> q' | Some key \<Rightarrow> q'\<lparr>dedup := map_set (dedup q') key ref\<rparr>))"

definition dedup_hit :: "('p, 'r) memory_queue \<Rightarrow> string \<Rightarrow> JobOptions \<Rightarrow> nat option" where
  "dedup_hit q queueName opts =
     (case truthy (opt_dedupKey opts) of
        None \<Rightarrow> None
      | Some key \<Rightarrow>
          (case map_get (dedup q) key of
             None \<Rightarrow> None
           | Some existingId \<Rightarrow> find (\<lambda>ref. ref = existingId) (queued q queueName)))"

definition enqueue ::
  "('p, 'r) memory_queue \<Rightarrow> string \<Rightarrow> string \<Rightarrow> 'p \<Rightarrow> JobOptions \<Rightarrow> jsnum \<Rightarrow> nat \<times> ('p, 'r) memory_queue" where
  "enqueue q queueName jobName payload opts now =
     (case dedup_hit q queueName opts of
        Some existing \<Rightarrow> (existing, q)
      | None \<Rightarrow> add_job q queueName (fresh_job q queueName jobName payload opts now))"

definition publish ::
  "('p, 'r) memory_queue \<Rightarrow> string \<Rightarrow> string \<Rightarrow> 'p \<Rightarrow> JobOptions \<Rightarrow> jsnum \<Rightarrow> nat \<times> ('p, 'r) memory_queue" where
  "publish q queueName jobName payload opts now = enqueue q queueName jobName payload opts now"

definition update_job :: "nat \<Rightarrow> ('p Job \<Rightarrow> 'p Job) \<Rightarrow> ('p, 'r) memory_queue \<Rightarrow> ('p, 'r) memory_queue" where
  "update_job ref f q =
     (case map_get (heap_jobs q) ref of
        None \<Rightarrow> q
      | Some job \<Rightarrow> q\<lparr>heap_jobs := map_set (heap_jobs q) ref (f job)\<rparr>)"

text \<open>An invocation: its promise is a reference of its own, which becomes the job's resolver.\<close>

definition invoke ::
  "('p, 'r) memory_queue \<Rightarrow> string \<Rightarrow> string \<Rightarrow> 'p \<Rightarrow> JobOptions \<Rightarrow> jsnum \<Rightarrow> nat \<times> ('p, 'r) memory_queue" where
  "invoke q queueName jobName payload opts now =
     (let (ref, qA) = enqueue q queueName jobName payload opts now;
          call = next_ref qA;
          qB = update_job ref (\<lambda>job. job\<lparr>waiter := Some call\<rparr>) qA
      in (call, qB\<lparr>timers := timers qB @ [(call, ref)], next_ref := call + 1\<rparr>))"

definition settle :: "nat option \<Rightarrow> 'r call_settlement \<Rightarrow> ('p, 'r) memory_queue \<Rightarrow> ('p, 'r) memory_queue" where
  "settle target how q = (case target of None \<Rightarrow> q | Some call \<Rightarrow> q\<lparr>settlements := settlements q @ [(call, how)]\<rparr>)"

definition timeout_fires :: "('p, 'r) memory_queue \<Rightarrow> nat \<times> nat \<Rightarrow> ('p, 'r) memory_queue" where
  "timeout_fires q timer =
     (let (call, ref) = timer;
          q' = update_job ref (\<lambda>job. job\<lparr>waiter := None\<rparr>) (q\<lparr>timers := remove1 timer (timers q)\<rparr>)
      in settle (Some call) TimedOut q')"

definition promise_outcome :: "('p, 'r) memory_queue \<Rightarrow> nat \<Rightarrow> 'r call_settlement option" where
  "promise_outcome q call = map_of (settlements q) call"

definition consume :: "('p, 'r) memory_queue \<Rightarrow> string \<Rightarrow> nat \<Rightarrow> nat option \<Rightarrow> nat \<times> ('p, 'r) memory_queue" where
  "consume q queueName handler opt_concurrency =
     (case map_get (consumers q) queueName of
        Some ref \<Rightarrow> (ref, q)
      | None \<Rightarrow>
          (let ref = next_ref q;
               slot = \<lparr>slot_handler = handler, concurrency = max (nullish opt_concurrency 1) 1, active = 0, paused = False\<rparr>
           in (ref, q\<lparr>consumers := map_set (consumers q) queueName ref, heap_slots := map_set (heap_slots q) ref slot,
                      next_ref := ref + 1\<rparr>)))"

definition update_slot :: "nat \<Rightarrow> (ConsumerSlot \<Rightarrow> ConsumerSlot) \<Rightarrow> ('p, 'r) memory_queue \<Rightarrow> ('p, 'r) memory_queue" where
  "update_slot ref f q =
     (case map_get (heap_slots q) ref of
        None \<Rightarrow> q
      | Some slot \<Rightarrow> q\<lparr>heap_slots := map_set (heap_slots q) ref (f slot)\<rparr>)"

definition worker_pause :: "nat \<Rightarrow> ('p, 'r) memory_queue \<Rightarrow> ('p, 'r) memory_queue" where
  "worker_pause ref = update_slot ref (\<lambda>slot. slot\<lparr>paused := True\<rparr>)"

definition worker_resume :: "nat \<Rightarrow> ('p, 'r) memory_queue \<Rightarrow> ('p, 'r) memory_queue" where
  "worker_resume ref = update_slot ref (\<lambda>slot. slot\<lparr>paused := False\<rparr>)"

definition worker_close :: "string \<Rightarrow> ('p, 'r) memory_queue \<Rightarrow> ('p, 'r) memory_queue" where
  "worker_close queueName q = q\<lparr>consumers := map_delete (consumers q) queueName\<rparr>"

definition hasLocalConsumer :: "('p, 'r) memory_queue \<Rightarrow> string \<Rightarrow> bool" where
  "hasLocalConsumer q queueName \<longleftrightarrow> map_has (consumers q) queueName"

definition schedule ::
  "('p, 'r) memory_queue \<Rightarrow> string \<Rightarrow> string \<Rightarrow> string \<Rightarrow> 'p \<Rightarrow> jsnum \<Rightarrow> ('p, 'r) memory_queue" where
  "schedule q schedulerId queueName jobName payload everyMs =
     q\<lparr>schedules := map_set (schedules q) schedulerId (queueName, jobName, payload, max 1000 (math_floor everyMs))\<rparr>"

definition schedule_ticks :: "('p, 'r) memory_queue \<Rightarrow> string \<Rightarrow> jsnum \<Rightarrow> ('p, 'r) memory_queue" where
  "schedule_ticks q schedulerId now =
     (case map_get (schedules q) schedulerId of
        None \<Rightarrow> q
      | Some (queueName, jobName, payload, everyMs) \<Rightarrow>
          snd (enqueue q queueName jobName payload
            \<lparr>opt_attempts = Some 1, opt_backoffMs = None, opt_delayMs = None, opt_dedupKey = Some (''schedule:'' @ schedulerId)\<rparr> now))"

text \<open>
  The \<^verbatim>\<open>while\<close> loop of \<open>drain\<close> over one queue: as long as the slot has room, the first job that is due leaves the list.
  It gives the jobs in the order they are started, and what stays.
\<close>

definition find_index :: "('a \<Rightarrow> bool) \<Rightarrow> 'a list \<Rightarrow> nat option" where
  "find_index P xs = (if list_ex P xs then Some (length (takeWhile (\<lambda>x. \<not> P x) xs)) else None)"

function drain_list :: "(nat \<Rightarrow> bool) \<Rightarrow> nat \<Rightarrow> nat \<Rightarrow> nat list \<Rightarrow> nat list \<times> nat list" where
  "drain_list due conc act xs =
     (if act < conc \<and> xs \<noteq> [] then
        case find_index due xs of
          None \<Rightarrow> ([], xs)
        | Some idx \<Rightarrow>
            let (started, rest) = drain_list due conc (act + 1) (take idx xs @ drop (idx + 1) xs)
            in (xs ! idx # started, rest)
      else ([], xs))"
  by pat_completeness auto
termination
  by (relation "measure (\<lambda>(due, conc, act, xs). conc - act)") auto

declare drain_list.simps [simp del]

definition job_due :: "('p, 'r) memory_queue \<Rightarrow> jsnum \<Rightarrow> nat \<Rightarrow> bool" where
  "job_due q now ref = (case map_get (heap_jobs q) ref of None \<Rightarrow> False | Some job \<Rightarrow> availableAt job \<le> now)"

definition runJob_starts :: "nat \<Rightarrow> nat \<Rightarrow> ('p, 'r) memory_queue \<Rightarrow> ('p, 'r) memory_queue" where
  "runJob_starts slotRef ref q =
     (let q' = update_job ref (\<lambda>job. job\<lparr>attemptsMade := attemptsMade job + 1\<rparr>)
                 (update_slot slotRef (\<lambda>slot. slot\<lparr>active := active slot + 1\<rparr>) q)
      in q'\<lparr>running := running q' @ [(slotRef, ref)]\<rparr>)"

definition drain_queue :: "jsnum \<Rightarrow> string \<Rightarrow> ('p, 'r) memory_queue \<Rightarrow> ('p, 'r) memory_queue" where
  "drain_queue now queueName q =
     (case map_get (consumers q) queueName of
        None \<Rightarrow> q
      | Some slotRef \<Rightarrow>
          (case map_get (heap_slots q) slotRef of
             None \<Rightarrow> q
           | Some slot \<Rightarrow>
               if paused slot then q
               else
                 let (started, rest) = drain_list (job_due q now) (concurrency slot) (active slot) (queued q queueName)
                 in fold (runJob_starts slotRef) started (q\<lparr>queues := map_set (queues q) queueName rest\<rparr>)))"

definition drain :: "jsnum \<Rightarrow> ('p, 'r) memory_queue \<Rightarrow> ('p, 'r) memory_queue" where
  "drain now q = (if shuttingDown q then q else fold (drain_queue now) (map fst (queues q)) q)"

definition forget_dedup :: "'p Job \<Rightarrow> ('p, 'r) memory_queue \<Rightarrow> ('p, 'r) memory_queue" where
  "forget_dedup job q =
     (case truthy (dedupKey job) of None \<Rightarrow> q | Some key \<Rightarrow> q\<lparr>dedup := map_delete (dedup q) key\<rparr>)"

text \<open>
  The end of \<open>runJob\<close> for a running job whose handler settled. A retried job goes back to its queue; a queue that a shutdown has
  removed is not created again, and the job is dropped.
\<close>

definition requeue :: "nat \<Rightarrow> 'p Job \<Rightarrow> ('p, 'r) memory_queue \<Rightarrow> ('p, 'r) memory_queue" where
  "requeue ref job q =
     (case map_get (queues q) (job_queue job) of
        None \<Rightarrow> q
      | Some refs \<Rightarrow> q\<lparr>queues := map_set (queues q) (job_queue job) (refs @ [ref])\<rparr>)"

definition runJob_ends ::
  "nat \<Rightarrow> nat \<Rightarrow> job_error + 'r \<Rightarrow> jsnum \<Rightarrow> ('p, 'r) memory_queue \<Rightarrow> ('p, 'r) memory_queue" where
  "runJob_ends slotRef ref result now q =
     (case map_get (heap_jobs q) ref of
        None \<Rightarrow> q
      | Some job \<Rightarrow>
          let qA =
            (case result of
               Inr r \<Rightarrow> forget_dedup job (settle (waiter job) (Resolved r) q)
             | Inl e \<Rightarrow>
                 if attemptsMade job < attempts job \<and> \<not> isNonRetryableJobError e then
                   requeue ref job
                     (update_job ref (\<lambda>j. j\<lparr>availableAt := now + backoffMs j * 2 ^ (attemptsMade j - 1)\<rparr>) q)
                 else forget_dedup job (settle (waiter job) (Rejected (je_message e)) q))
          in (update_slot slotRef (\<lambda>slot. slot\<lparr>active := active slot - 1\<rparr>) qA)
               \<lparr>running := remove1 (slotRef, ref) (running qA)\<rparr>)"

definition reject_all :: "nat list \<Rightarrow> ('p, 'r) memory_queue \<Rightarrow> ('p, 'r) memory_queue" where
  "reject_all refs q =
     fold (\<lambda>ref q. case map_get (heap_jobs q) ref of
                     None \<Rightarrow> q
                   | Some job \<Rightarrow> settle (waiter job) (Rejected ''Queue shutting down'') q) refs q"

definition destroy_queue :: "('p, 'r) memory_queue \<Rightarrow> ('p, 'r) memory_queue" where
  "destroy_queue q =
     (let qA = q\<lparr>shuttingDown := True, draining := False, schedules := []\<rparr>;
          qB = reject_all (concat (map snd (queues qA))) qA
      in qB\<lparr>queues := [], consumers := [], dedup := []\<rparr>)"

section \<open>Draining one queue\<close>

lemma find_index_split:
  assumes "find_index P xs = Some i"
  shows "\<exists>ys y zs. xs = ys @ y # zs \<and> length ys = i \<and> P y \<and> filter P ys = []"
proof -
  have ex: "list_ex P xs" and i: "i = length (takeWhile (\<lambda>x. \<not> P x) xs)"
    using assms by (auto simp: find_index_def split: if_splits)
  then have "dropWhile (\<lambda>x. \<not> P x) xs \<noteq> []" by (auto simp: list_ex_iff)
  then obtain y zs where d: "dropWhile (\<lambda>x. \<not> P x) xs = y # zs" by (cases "dropWhile (\<lambda>x. \<not> P x) xs") auto
  then have "P y" using hd_dropWhile [of "\<lambda>x. \<not> P x" xs] by simp
  moreover have "xs = takeWhile (\<lambda>x. \<not> P x) xs @ y # zs" using d by (metis takeWhile_dropWhile_id)
  ultimately show ?thesis using i by (auto simp: filter_empty_conv dest: set_takeWhileD)
qed

lemma find_index_None: "find_index P xs = None \<longleftrightarrow> filter P xs = []"
  by (auto simp: find_index_def list_ex_iff filter_empty_conv)

lemma drain_list_spec:
  "fst (drain_list due conc act xs) = take (conc - act) (filter due xs) \<and>
   mset xs = mset (fst (drain_list due conc act xs)) + mset (snd (drain_list due conc act xs))"
proof (induction due conc act xs rule: drain_list.induct)
  case (1 due conc act xs)
  show ?case
  proof (cases "act < conc \<and> xs \<noteq> []")
    case go: True
    show ?thesis
    proof (cases "find_index due xs")
      case None
      then show ?thesis using go find_index_None [of due xs] by (simp add: drain_list.simps [of due conc act xs])
    next
      case (Some i)
      from find_index_split [OF Some] obtain ys y zs
        where s: "xs = ys @ y # zs" "length ys = i" "due y" "filter due ys = []" by blast
      have rest: "take i xs @ drop (i + 1) xs = ys @ zs" and nth: "xs ! i = y" using s by auto
      note IH = 1 [OF go Some, unfolded rest]
      have "drain_list due conc act xs =
          (y # fst (drain_list due conc (act + 1) (ys @ zs)), snd (drain_list due conc (act + 1) (ys @ zs)))"
        using go Some rest nth by (simp add: drain_list.simps [of due conc act xs] split_beta)
      moreover have "conc - act = Suc (conc - (act + 1))" using go by linarith
      ultimately show ?thesis using IH s by simp
    qed
  next
    case False
    then show ?thesis by (auto simp: drain_list.simps [of due conc act xs])
  qed
qed

lemmas drain_list_started = drain_list_spec [THEN conjunct1]
lemmas drain_list_mset = drain_list_spec [THEN conjunct2]

section \<open>Where the jobs are\<close>

definition queued_mset :: "(string, nat list) jsmap \<Rightarrow> nat multiset" where
  "queued_mset m = (\<Sum>e\<in>#mset m. mset (snd e))"

lemma queued_mset_Nil [simp]: "queued_mset [] = {#}"
  by (simp add: queued_mset_def)

lemma queued_mset_set:
  assumes "distinct (map fst m)"
  shows "queued_mset (map_set m k v) + mset (nullish (map_get m k) []) = queued_mset m + mset v"
proof (cases "map_get m k")
  case None
  then show ?thesis by (simp add: queued_mset_def mset_map_set [OF assms] map_delete_None ac_simps)
next
  case (Some w)
  then show ?thesis
    using mset_map_delete [OF assms Some] by (simp add: queued_mset_def mset_map_set [OF assms] ac_simps)
qed

lemma queued_mset_mem: "distinct (map fst m) \<Longrightarrow> map_get m k = Some v \<Longrightarrow> mset v \<subseteq># queued_mset m"
  using mset_map_delete [of m k v] by (simp add: queued_mset_def)

definition job_keys :: "('p, 'r) memory_queue \<Rightarrow> nat multiset" where
  "job_keys q = mset (map fst (heap_jobs q))"

definition placed :: "('p, 'r) memory_queue \<Rightarrow> nat multiset" where
  "placed q = queued_mset (queues q) + mset (map snd (running q))"

definition final :: "'p Job \<Rightarrow> job_error + 'r \<Rightarrow> bool" where
  "final job result =
     (case result of Inr r \<Rightarrow> True | Inl e \<Rightarrow> \<not> (attemptsMade job < attempts job \<and> \<not> isNonRetryableJobError e))"

text \<open>
  The reachable states, with the jobs that are over: those whose handler answered and those whose last attempt failed.
\<close>

inductive qreach :: "('p, 'r) memory_queue \<Rightarrow> nat list \<Rightarrow> bool" where
  initially: "qreach (new_queue a b) []"
| published: "qreach q over \<Longrightarrow> qreach (snd (publish q name job payload opts now)) over"
| invoked: "qreach q over \<Longrightarrow> qreach (snd (invoke q name job payload opts now)) over"
| timed_out: "qreach q over \<Longrightarrow> timer \<in> set (timers q) \<Longrightarrow> qreach (timeout_fires q timer) over"
| consumed: "qreach q over \<Longrightarrow> qreach (snd (consume q name handler c)) over"
| paused: "qreach q over \<Longrightarrow> qreach (worker_pause ref q) over"
| resumed: "qreach q over \<Longrightarrow> qreach (worker_resume ref q) over"
| closed: "qreach q over \<Longrightarrow> qreach (worker_close name q) over"
| scheduled: "qreach q over \<Longrightarrow> qreach (schedule q sid name job payload every) over"
| ticked: "qreach q over \<Longrightarrow> qreach (schedule_ticks q sid now) over"
| drained: "qreach q over \<Longrightarrow> qreach (drain now q) over"
| retried: "qreach q over \<Longrightarrow> (slot, ref) \<in> set (running q) \<Longrightarrow> map_get (heap_jobs q) ref = Some job \<Longrightarrow>
    \<not> final job result \<Longrightarrow> qreach (runJob_ends slot ref result now q) over"
| finished: "qreach q over \<Longrightarrow> (slot, ref) \<in> set (running q) \<Longrightarrow> map_get (heap_jobs q) ref = Some job \<Longrightarrow>
    final job result \<Longrightarrow> qreach (runJob_ends slot ref result now q) (ref # over)"
| destroyed: "qreach q over \<Longrightarrow> qreach (destroy_queue q) over"

definition maps_ok :: "('p, 'r) memory_queue \<Rightarrow> bool" where
  "maps_ok q \<longleftrightarrow> distinct (map fst (queues q)) \<and> distinct (map fst (heap_jobs q)) \<and>
     (\<forall>ref. map_has (heap_jobs q) ref \<longrightarrow> ref < next_ref q) \<and>
     (\<forall>ref job. map_get (heap_jobs q) ref = Some job \<longrightarrow> \<not> shuttingDown q \<longrightarrow> map_has (queues q) (job_queue job))"

definition jobs_ok :: "('p, 'r) memory_queue \<Rightarrow> nat list \<Rightarrow> bool" where
  "jobs_ok q over \<longleftrightarrow> placed q + mset over \<subseteq># job_keys q \<and>
     (\<not> shuttingDown q \<longrightarrow> placed q + mset over = job_keys q)"

definition slot_ok :: "(nat \<times> nat) list \<Rightarrow> nat \<Rightarrow> ConsumerSlot \<Rightarrow> bool" where
  "slot_ok rn s slot \<longleftrightarrow> active slot = length (filter (\<lambda>x. fst x = s) rn) \<and> active slot \<le> concurrency slot"

definition slots_ok :: "('p, 'r) memory_queue \<Rightarrow> bool" where
  "slots_ok q \<longleftrightarrow>
     (\<forall>s slot. map_get (heap_slots q) s = Some slot \<longrightarrow> s < next_ref q \<and> slot_ok (running q) s slot) \<and>
     (\<forall>x \<in> set (running q). map_has (heap_slots q) (fst x))"

definition job_ok :: "nat multiset \<Rightarrow> (nat \<times> nat) list \<Rightarrow> nat \<Rightarrow> 'p Job \<Rightarrow> bool" where
  "job_ok qm rn ref job \<longleftrightarrow> attemptsMade job \<le> max 1 (attempts job) \<and>
     (ref \<in># qm \<longrightarrow> attemptsMade job < max 1 (attempts job)) \<and> (ref \<in> snd ` set rn \<longrightarrow> 0 < attemptsMade job)"

definition attempts_ok :: "('p, 'r) memory_queue \<Rightarrow> bool" where
  "attempts_ok q \<longleftrightarrow>
     (\<forall>ref job. map_get (heap_jobs q) ref = Some job \<longrightarrow> job_ok (queued_mset (queues q)) (running q) ref job)"

definition queue_inv :: "('p, 'r) memory_queue \<Rightarrow> nat list \<Rightarrow> bool" where
  "queue_inv q over \<longleftrightarrow> maps_ok q \<and> jobs_ok q over \<and> slots_ok q \<and> attempts_ok q"

section \<open>Every step keeps the invariant\<close>

lemma inv_cong:
  assumes "queue_inv q over"
    and "queues q' = queues q" "heap_jobs q' = heap_jobs q" "heap_slots q' = heap_slots q" "running q' = running q"
    and "shuttingDown q' = shuttingDown q" "next_ref q \<le> next_ref q'"
  shows "queue_inv q' over"
  using assms
  by (force simp: queue_inv_def maps_ok_def jobs_ok_def slots_ok_def attempts_ok_def placed_def job_keys_def)

lemma slot_ok_cong: "active s' = active s \<Longrightarrow> concurrency s' = concurrency s \<Longrightarrow> slot_ok rn k s' = slot_ok rn k s"
  by (simp add: slot_ok_def)

lemma job_ok_cong:
  "attempts j' = attempts j \<Longrightarrow> attemptsMade j' = attemptsMade j \<Longrightarrow> job_ok qm rn ref j' = job_ok qm rn ref j"
  by (simp add: job_ok_def)

lemma job_ok_other: "ref \<noteq> r \<Longrightarrow> job_ok (add_mset r qm) rn ref job = job_ok qm rn ref job"
  by (simp add: job_ok_def)

lemma job_ok_fresh: "attemptsMade job = 0 \<Longrightarrow> ref \<notin> snd ` set rn \<Longrightarrow> job_ok qm rn ref job"
  by (auto simp: job_ok_def)

lemma keys_map_set: "map_has m k \<Longrightarrow> map fst (map_set m k v) = map fst m"
  by (induction m) auto

lemma update_job_simps [simp]:
  "queues (update_job ref f q) = queues q" "heap_slots (update_job ref f q) = heap_slots q"
  "running (update_job ref f q) = running q" "shuttingDown (update_job ref f q) = shuttingDown q"
  "next_ref (update_job ref f q) = next_ref q" "timers (update_job ref f q) = timers q"
  "consumers (update_job ref f q) = consumers q" "settlements (update_job ref f q) = settlements q"
  "dedup (update_job ref f q) = dedup q"
  "map fst (heap_jobs (update_job ref f q)) = map fst (heap_jobs q)"
  "map_get (heap_jobs (update_job ref f q)) r =
     (if r = ref then map_option f (map_get (heap_jobs q) ref) else map_get (heap_jobs q) r)"
  by (auto simp: update_job_def keys_map_set split: option.splits)

lemma update_slot_simps [simp]:
  "queues (update_slot ref f q) = queues q" "heap_jobs (update_slot ref f q) = heap_jobs q"
  "running (update_slot ref f q) = running q" "shuttingDown (update_slot ref f q) = shuttingDown q"
  "next_ref (update_slot ref f q) = next_ref q"
  "map_get (heap_slots (update_slot ref f q)) s =
     (if s = ref then map_option f (map_get (heap_slots q) ref) else map_get (heap_slots q) s)"
  by (auto simp: update_slot_def split: option.splits)

lemma settle_simps [simp]:
  "queues (settle t how q) = queues q" "heap_slots (settle t how q) = heap_slots q" "heap_jobs (settle t how q) = heap_jobs q"
  "running (settle t how q) = running q" "shuttingDown (settle t how q) = shuttingDown q" "next_ref (settle t how q) = next_ref q"
  by (simp_all add: settle_def split: option.split)

lemma forget_dedup_simps [simp]:
  "queues (forget_dedup job q) = queues q" "heap_slots (forget_dedup job q) = heap_slots q"
  "heap_jobs (forget_dedup job q) = heap_jobs q" "running (forget_dedup job q) = running q"
  "shuttingDown (forget_dedup job q) = shuttingDown q" "next_ref (forget_dedup job q) = next_ref q"
  by (simp_all add: forget_dedup_def split: option.split)

lemma inv_update_job:
  assumes "queue_inv q over" and "\<And>j. job_queue (f j) = job_queue j \<and> attempts (f j) = attempts j \<and> attemptsMade (f j) = attemptsMade j"
  shows "queue_inv (update_job ref f q) over"
proof -
  have keys: "job_keys (update_job ref f q) = job_keys q" by (simp add: job_keys_def flip: mset_map)
  have "maps_ok (update_job ref f q)"
    using assms by (auto simp: queue_inv_def maps_ok_def split: if_splits)
  moreover have "attempts_ok (update_job ref f q)"
    using assms job_ok_cong [of "f j" j for j] by (auto simp: queue_inv_def attempts_ok_def split: if_splits)
  ultimately show ?thesis
    using assms(1) by (simp add: queue_inv_def jobs_ok_def slots_ok_def placed_def keys)
qed

lemma inv_update_slot:
  assumes "queue_inv q over" and "\<And>s. active (f s) = active s \<and> concurrency (f s) = concurrency s"
  shows "queue_inv (update_slot ref f q) over"
proof -
  have "slots_ok (update_slot ref f q)"
    using assms slot_ok_cong [of "f s" s for s] by (auto simp: queue_inv_def slots_ok_def split: if_splits)
  then show ?thesis
    using assms(1) by (simp add: queue_inv_def maps_ok_def jobs_ok_def attempts_ok_def placed_def job_keys_def)
qed

lemma add_job_simps:
  "queues (snd (add_job q name job)) = map_set (queues q) name (queued q name @ [next_ref q])"
  "heap_jobs (snd (add_job q name job)) = map_set (heap_jobs q) (next_ref q) job"
  "heap_slots (snd (add_job q name job)) = heap_slots q" "running (snd (add_job q name job)) = running q"
  "shuttingDown (snd (add_job q name job)) = shuttingDown q" "next_ref (snd (add_job q name job)) = next_ref q + 1"
  by (simp_all add: add_job_def Let_def split: option.split)

lemma queued_mset_push:
  "distinct (map fst m) \<Longrightarrow> queued_mset (map_set m name (nullish (map_get m name) [] @ [ref])) = add_mset ref (queued_mset m)"
  using queued_mset_set [of m name "nullish (map_get m name) [] @ [ref]"] by simp

lemma job_keys_fresh:
  "distinct (map fst m) \<Longrightarrow> map_get m ref = None \<Longrightarrow> mset (map fst (map_set m ref job)) = add_mset ref (mset (map fst m))"
  by (simp add: mset_map_set map_delete_None)

lemma in_job_keys: "r \<in># job_keys q \<longleftrightarrow> map_has (heap_jobs q) r"
  by (simp add: job_keys_def map_of_eq_None_iff)

lemma inv_fresh_ref:
  assumes "queue_inv q over"
  shows "map_get (heap_jobs q) (next_ref q) = None" "next_ref q \<notin># placed q"
proof -
  show none: "map_get (heap_jobs q) (next_ref q) = None"
    using assms by (auto simp: queue_inv_def maps_ok_def)
  show "next_ref q \<notin># placed q"
  proof
    assume "next_ref q \<in># placed q"
    then have "next_ref q \<in># job_keys q"
      using assms by (metis UnCI jobs_ok_def queue_inv_def mset_subset_eqD set_mset_union)
    then show False using none by (simp add: in_job_keys)
  qed
qed

lemma inv_add_job:
  assumes "queue_inv q over" "job_queue job = name" "attemptsMade job = 0"
  shows "queue_inv (snd (add_job q name job)) over"
proof -
  note fresh = inv_fresh_ref [OF assms(1)]
  have d: "distinct (map fst (queues q))" "distinct (map fst (heap_jobs q))"
    using assms(1) by (simp_all add: queue_inv_def maps_ok_def)
  have qm: "queued_mset (map_set (queues q) name (queued q name @ [next_ref q])) = add_mset (next_ref q) (queued_mset (queues q))"
    using queued_mset_push [OF d(1)] by (simp add: queued_def)
  then have pl: "placed (snd (add_job q name job)) = add_mset (next_ref q) (placed q)"
    by (simp add: placed_def add_job_simps)
  have "job_keys (snd (add_job q name job)) = add_mset (next_ref q) (job_keys q)"
    using job_keys_fresh [OF d(2) fresh(1)] by (simp add: job_keys_def add_job_simps)
  then have "jobs_ok (snd (add_job q name job)) over"
    using assms(1) pl by (simp add: queue_inv_def jobs_ok_def add_job_simps)
  moreover have "maps_ok (snd (add_job q name job))"
    using assms(1,2) by (auto simp: queue_inv_def maps_ok_def add_job_simps map_set_distinct less_Suc_eq)
  moreover have "attempts_ok (snd (add_job q name job))"
    using assms(1,3) fresh(2)
    by (auto simp: queue_inv_def attempts_ok_def qm placed_def add_job_simps job_ok_other intro: job_ok_fresh)
  moreover have "slots_ok (snd (add_job q name job))"
    using assms(1) by (auto simp: queue_inv_def slots_ok_def add_job_simps less_Suc_eq)
  ultimately show ?thesis by (simp add: queue_inv_def)
qed

lemma inv_enqueue: "queue_inv q over \<Longrightarrow> queue_inv (snd (enqueue q name job payload opts now)) over"
  by (auto simp: enqueue_def fresh_job_def intro: inv_add_job split: option.splits)

lemma inv_invoke:
  assumes "queue_inv q over"
  shows "queue_inv (snd (invoke q name job payload opts now)) over"
proof -
  let ?e = "enqueue q name job payload opts now" and ?f = "\<lambda>c j. j\<lparr>waiter := Some c\<rparr>"
  have "queue_inv (update_job (fst ?e) (?f (next_ref (snd ?e))) (snd ?e)) over"
    by (rule inv_update_job [OF inv_enqueue [OF assms]]) simp
  then show ?thesis by (rule inv_cong) (simp_all add: invoke_def Let_def split_beta)
qed

lemma inv_timeout:
  assumes "queue_inv q over"
  shows "queue_inv (timeout_fires q timer) over"
proof -
  let ?q = "update_job (snd timer) (\<lambda>j. j\<lparr>waiter := None\<rparr>) (q\<lparr>timers := remove1 timer (timers q)\<rparr>)"
  have "queue_inv (q\<lparr>timers := remove1 timer (timers q)\<rparr>) over" using assms by (rule inv_cong) simp_all
  then have "queue_inv ?q over" by (rule inv_update_job) simp
  then show ?thesis by (rule inv_cong) (simp_all add: timeout_fires_def Let_def split_beta)
qed

lemma inv_consume:
  assumes "queue_inv q over"
  shows "queue_inv (snd (consume q name handler c)) over"
proof (cases "map_get (consumers q) name")
  case None
  have new: "\<forall>x \<in> set (running q). fst x \<noteq> next_ref q"
    using assms by (force simp: queue_inv_def slots_ok_def)
  then have "filter (\<lambda>x. fst x = next_ref q) (running q) = []" by (simp add: filter_empty_conv)
  then have "slots_ok (snd (consume q name handler c))"
    using assms None new by (auto simp: consume_def Let_def queue_inv_def slots_ok_def less_Suc_eq) (simp add: slot_ok_def)
  moreover have "maps_ok (snd (consume q name handler c))"
    using assms None by (auto simp: consume_def Let_def queue_inv_def maps_ok_def less_Suc_eq)
  ultimately show ?thesis
    using assms None by (simp add: consume_def Let_def queue_inv_def jobs_ok_def attempts_ok_def placed_def job_keys_def)
qed (simp add: consume_def assms)

text \<open>What starting a list of distinct jobs does.\<close>

lemma starts_frame [simp]:
  "queues (runJob_starts s ref q) = queues q" "shuttingDown (runJob_starts s ref q) = shuttingDown q"
  "next_ref (runJob_starts s ref q) = next_ref q" "running (runJob_starts s ref q) = running q @ [(s, ref)]"
  "map fst (heap_jobs (runJob_starts s ref q)) = map fst (heap_jobs q)"
  "map_get (heap_jobs (runJob_starts s ref q)) r =
     (if r = ref then map_option (\<lambda>job. job\<lparr>attemptsMade := attemptsMade job + 1\<rparr>) (map_get (heap_jobs q) ref)
      else map_get (heap_jobs q) r)"
  "map_get (heap_slots (runJob_starts s ref q)) s' =
     (if s' = s then map_option (\<lambda>slot. slot\<lparr>active := active slot + 1\<rparr>) (map_get (heap_slots q) s)
      else map_get (heap_slots q) s')"
  by (simp_all add: runJob_starts_def Let_def)

definition dequeue :: "string \<Rightarrow> nat list \<Rightarrow> ('p, 'r) memory_queue \<Rightarrow> ('p, 'r) memory_queue" where
  "dequeue name rest q = q\<lparr>queues := map_set (queues q) name rest\<rparr>"

lemma slot_ok_snoc:
  "s' \<noteq> s \<Longrightarrow> slot_ok (rn @ [(s, ref)]) s' slot = slot_ok rn s' slot"
  "slot_ok rn s slot \<Longrightarrow> active slot < concurrency slot \<Longrightarrow> slot_ok (rn @ [(s, ref)]) s (slot\<lparr>active := Suc (active slot)\<rparr>)"
  by (simp_all add: slot_ok_def)

lemma slot_ok_le: "slot_ok rn s slot \<Longrightarrow> active slot \<le> concurrency slot"
  by (simp add: slot_ok_def)

text \<open>
  Taking jobs out of a queue and starting them one by one: \<open>k\<close> is how many of the jobs taken are still to be started.
\<close>

definition starting_inv :: "nat list \<Rightarrow> ('p, 'r) memory_queue \<Rightarrow> nat list \<Rightarrow> bool" where
  "starting_inv todo q over \<longleftrightarrow> maps_ok q \<and> slots_ok q \<and>
     placed q + mset todo + mset over \<subseteq># job_keys q \<and>
     (\<not> shuttingDown q \<longrightarrow> placed q + mset todo + mset over = job_keys q) \<and>
     (\<forall>ref job. map_get (heap_jobs q) ref = Some job \<longrightarrow> job_ok (queued_mset (queues q) + mset todo) (running q) ref job)"

lemma starting_inv_Nil: "starting_inv [] q over = queue_inv q over"
  by (auto simp: starting_inv_def queue_inv_def jobs_ok_def attempts_ok_def)

lemma job_keys_distinct: "maps_ok q \<Longrightarrow> r \<in># job_keys q \<Longrightarrow> count (job_keys q) r = 1"
  by (simp add: maps_ok_def job_keys_def count_image_mset distinct_count_atmost_1 flip: mset_map)

lemma starting_step:
  assumes "starting_inv (ref # todo) q over"
    and "\<And>slot. map_get (heap_slots q) s = Some slot \<Longrightarrow> active slot < concurrency slot" "map_has (heap_slots q) s"
  shows "starting_inv todo (runJob_starts s ref q) over"
proof -
  have inv: "maps_ok q" "slots_ok q" "placed q + mset (ref # todo) + mset over \<subseteq># job_keys q"
    using assms(1) by (simp_all add: starting_inv_def)
  have keys: "job_keys (runJob_starts s ref q) = job_keys q" by (simp add: job_keys_def flip: mset_map)
  have "count (placed q + mset (ref # todo) + mset over) ref \<le> count (job_keys q) ref"
    by (rule mset_subset_eq_count [OF inv(3)])
  moreover have "ref \<in># job_keys q" using inv(3) by (rule mset_subset_eqD) simp
  ultimately have once: "ref \<notin># queued_mset (queues q) + mset todo" 
    using job_keys_distinct [OF inv(1), of ref] by (auto simp: placed_def not_in_iff)
  have "maps_ok (runJob_starts s ref q)"
    using inv(1) by (auto simp: maps_ok_def split: if_splits)
  moreover have "slots_ok (runJob_starts s ref q)"
    using inv(2) assms(2,3) by (auto simp: slots_ok_def slot_ok_snoc split: if_splits)
  moreover have "job_ok (queued_mset (queues q) + mset todo) (running q @ [(s, ref)]) r job"
    if "map_get (heap_jobs (runJob_starts s ref q)) r = Some job" for r job
    using that assms(1) once by (auto simp: starting_inv_def job_ok_def less_Suc_eq_le Suc_le_eq split: if_splits)
  ultimately show ?thesis
    using assms(1) by (simp add: starting_inv_def keys placed_def)
qed

lemma starting_all:
  "starting_inv todo q over \<Longrightarrow> map_get (heap_slots q) s = Some slot \<Longrightarrow> active slot + length todo \<le> concurrency slot \<Longrightarrow>
   queue_inv (fold (runJob_starts s) todo q) over"
proof (induction todo arbitrary: q slot)
  case (Cons ref todo)
  have "starting_inv todo (runJob_starts s ref q) over"
    using Cons.prems by (intro starting_step) auto
  then show ?case using Cons.prems by (auto intro!: Cons.IH)
qed (simp add: starting_inv_Nil)

lemma inv_drain_queue:
  assumes "queue_inv q over"
  shows "queue_inv (drain_queue now name q) over"
proof (cases "map_get (consumers q) name")
  case (Some s)
  show ?thesis
  proof (cases "map_get (heap_slots q) s")
    case slot: (Some slot)
    let ?d = "drain_list (job_due q now) (concurrency slot) (active slot) (queued q name)"
    have d: "distinct (map fst (queues q))" and inv: "maps_ok q" "slots_ok q" "jobs_ok q over" "attempts_ok q"
      using assms by (simp_all add: queue_inv_def maps_ok_def)
    have move: "queued_mset (queues (dequeue name (snd ?d) q)) + mset (fst ?d) = queued_mset (queues q)"
      using queued_mset_set [OF d, of name "snd ?d"]
        drain_list_mset [of "queued q name" "job_due q now" "concurrency slot" "active slot"]
      by (simp add: dequeue_def queued_def ac_simps)
    have "maps_ok (dequeue name (snd ?d) q)"
      using inv(1) by (auto simp: maps_ok_def dequeue_def map_set_distinct)
    moreover have "slots_ok (dequeue name (snd ?d) q)" using inv(2) by (simp add: slots_ok_def dequeue_def)
    ultimately have "starting_inv (fst ?d) (dequeue name (snd ?d) q) over"
      using inv(3,4) move
      by (auto simp: starting_inv_def jobs_ok_def attempts_ok_def placed_def) (auto simp: dequeue_def job_keys_def ac_simps)
    moreover have "active slot \<le> concurrency slot" using inv(2) slot by (auto simp: slots_ok_def intro: slot_ok_le)
    then have "active slot + length (fst ?d) \<le> concurrency slot"
      by (simp add: drain_list_started)
    ultimately have "queue_inv (fold (runJob_starts s) (fst ?d) (dequeue name (snd ?d) q)) over"
      using slot by (intro starting_all) (auto simp: dequeue_def)
    then show ?thesis using assms Some slot by (simp add: drain_queue_def dequeue_def split_beta)
  qed (use assms Some in \<open>simp add: drain_queue_def\<close>)
qed (use assms in \<open>simp add: drain_queue_def\<close>)

lemma inv_drain: "queue_inv q over \<Longrightarrow> queue_inv (drain now q) over"
proof -
  have "queue_inv q over \<Longrightarrow> queue_inv (fold (drain_queue now) names q) over" for names
    by (induction names arbitrary: q) (auto intro: inv_drain_queue)
  then show "queue_inv q over \<Longrightarrow> queue_inv (drain now q) over" by (simp add: drain_def)
qed

text \<open>The end of a job.\<close>

lemma slot_ok_remove:
  "s' \<noteq> s \<Longrightarrow> slot_ok (remove1 (s, ref) rn) s' slot = slot_ok rn s' slot"
  "(s, ref) \<in> set rn \<Longrightarrow> slot_ok rn s slot \<Longrightarrow> slot_ok (remove1 (s, ref) rn) s (slot\<lparr>active := active slot - 1\<rparr>)"
proof -
  have "length (filter (\<lambda>x. fst x = s') (remove1 (s, ref) rn)) = length (filter (\<lambda>x. fst x = s') rn)" if "s' \<noteq> s"
    using that by (induction rn) auto
  then show "s' \<noteq> s \<Longrightarrow> slot_ok (remove1 (s, ref) rn) s' slot = slot_ok rn s' slot" by (simp add: slot_ok_def)
  have "length (filter (\<lambda>x. fst x = s) (remove1 (s, ref) rn)) = length (filter (\<lambda>x. fst x = s) rn) - 1 \<and>
      0 < length (filter (\<lambda>x. fst x = s) rn)" if "(s, ref) \<in> set rn"
    using that by (induction rn) auto
  then show "(s, ref) \<in> set rn \<Longrightarrow> slot_ok rn s slot \<Longrightarrow> slot_ok (remove1 (s, ref) rn) s (slot\<lparr>active := active slot - 1\<rparr>)"
    by (auto simp: slot_ok_def)
qed

definition leave_slot :: "nat \<Rightarrow> nat \<Rightarrow> ('p, 'r) memory_queue \<Rightarrow> ('p, 'r) memory_queue" where
  "leave_slot s ref q =
     (update_slot s (\<lambda>slot. slot\<lparr>active := active slot - 1\<rparr>) q)\<lparr>running := remove1 (s, ref) (running q)\<rparr>"

lemma leave_slot_simps [simp]:
  "queues (leave_slot s ref q) = queues q" "heap_jobs (leave_slot s ref q) = heap_jobs q"
  "running (leave_slot s ref q) = remove1 (s, ref) (running q)" "shuttingDown (leave_slot s ref q) = shuttingDown q"
  "next_ref (leave_slot s ref q) = next_ref q"
  by (simp_all add: leave_slot_def)

lemma runJob_ends_cases:
  assumes "map_get (heap_jobs q) ref = Some job"
  shows "final job result \<Longrightarrow> \<exists>how. runJob_ends s ref result now q = leave_slot s ref (forget_dedup job (settle (waiter job) how q))"
    and "\<not> final job result \<Longrightarrow> runJob_ends s ref result now q =
      leave_slot s ref (requeue ref job (update_job ref (\<lambda>j. j\<lparr>availableAt := now + backoffMs j * 2 ^ (attemptsMade j - 1)\<rparr>) q))"
  using assms by (auto simp: runJob_ends_def final_def leave_slot_def requeue_def Let_def split: sum.splits option.splits)

lemma slots_ok_leave: "slots_ok q \<Longrightarrow> (s, ref) \<in> set (running q) \<Longrightarrow> slots_ok (leave_slot s ref q)"
  by (auto simp: slots_ok_def leave_slot_def slot_ok_remove [unfolded One_nat_def] split: if_splits dest: set_mp [OF set_remove1_subset])

lemma placed_leave:
  "(s, ref) \<in> set (running q) \<Longrightarrow> placed q = add_mset ref (placed (leave_slot s ref q))"
  by (simp add: placed_def) (metis image_mset_add_mset insert_DiffM set_mset_mset snd_conv)

lemma inv_finished:
  assumes "queue_inv q over" "(s, ref) \<in> set (running q)"
  shows "queue_inv (leave_slot s ref q) (ref # over)"
proof -
  have "job_ok qm (remove1 (s, ref) (running q)) r job" if "job_ok qm (running q) r job" for qm r and job :: "'a Job"
    using that by (auto simp: job_ok_def dest: set_mp [OF set_remove1_subset])
  then show ?thesis
    using assms placed_leave [OF assms(2)]
    by (auto simp: queue_inv_def jobs_ok_def attempts_ok_def slots_ok_leave maps_ok_def job_keys_def)
qed

lemma requeue_simps [simp]:
  "heap_jobs (requeue ref job q) = heap_jobs q" "heap_slots (requeue ref job q) = heap_slots q"
  "running (requeue ref job q) = running q" "shuttingDown (requeue ref job q) = shuttingDown q"
  "next_ref (requeue ref job q) = next_ref q"
  by (simp_all add: requeue_def split: option.split)

lemma inv_requeued:
  assumes "queue_inv q over" "(s, ref) \<in> set (running q)" "map_get (heap_jobs q) ref = Some job"
    and "attemptsMade job < attempts job"
  shows "queue_inv (leave_slot s ref (requeue ref job q)) over"
proof -
  have inv: "maps_ok q" "jobs_ok q over" "slots_ok q" "attempts_ok q" and d: "distinct (map fst (queues q))"
    using assms(1) by (simp_all add: queue_inv_def maps_ok_def)
  have run: "mset (map snd (running q)) = add_mset ref (mset (map snd (remove1 (s, ref) (running q))))"
    using placed_leave [OF assms(2)] by (simp add: placed_def)
  have qm: "queued_mset (queues (requeue ref job q)) =
      (if map_has (queues q) (job_queue job) then add_mset ref (queued_mset (queues q)) else queued_mset (queues q))"
    using queued_mset_push [OF d, of "job_queue job" ref] by (auto simp: requeue_def split: option.splits)
  have "maps_ok (requeue ref job q)"
    using inv(1) by (auto simp: maps_ok_def) (auto simp: requeue_def map_set_distinct split: option.splits)
  moreover have "slots_ok (leave_slot s ref (requeue ref job q))"
    using inv(3) assms(2) by (intro slots_ok_leave) (simp_all add: slots_ok_def)
  moreover have "jobs_ok (leave_slot s ref (requeue ref job q)) over"
    using inv(1,2) assms(3) run
    by (auto simp: jobs_ok_def placed_def qm job_keys_def maps_ok_def dest: mset_subset_eq_insertD subset_mset.less_imp_le)
  moreover have "job_ok (queued_mset (queues (requeue ref job q))) (remove1 (s, ref) (running q)) r j"
    if "map_get (heap_jobs q) r = Some j" for r j
    using inv(4) that assms(3,4) by (auto simp: attempts_ok_def qm job_ok_def dest: set_mp [OF set_remove1_subset])
  ultimately show ?thesis by (simp add: queue_inv_def attempts_ok_def maps_ok_def)
qed

lemma inv_ends:
  assumes "queue_inv q over" "(s, ref) \<in> set (running q)" "map_get (heap_jobs q) ref = Some job"
  shows "final job result \<Longrightarrow> queue_inv (runJob_ends s ref result now q) (ref # over)"
    and "\<not> final job result \<Longrightarrow> queue_inv (runJob_ends s ref result now q) over"
proof -
  assume "final job result"
  then obtain how where eq: "runJob_ends s ref result now q = leave_slot s ref (forget_dedup job (settle (waiter job) how q))"
    using runJob_ends_cases(1) [OF assms(3)] by blast
  have "queue_inv (forget_dedup job (settle (waiter job) how q)) over" using assms(1) by (rule inv_cong) simp_all
  then show "queue_inv (runJob_ends s ref result now q) (ref # over)"
    unfolding eq using assms(2) by (intro inv_finished) simp_all
next
  assume nf: "\<not> final job result"
  let ?f = "\<lambda>j :: 'a Job. j\<lparr>availableAt := now + backoffMs j * 2 ^ (attemptsMade j - 1)\<rparr>"
  have "queue_inv (leave_slot s ref (requeue ref (?f job) (update_job ref ?f q))) over"
    using assms(2,3) nf
    by (intro inv_requeued inv_update_job [OF assms(1)]) (auto simp: final_def split: sum.splits)
  moreover have "requeue ref (?f job) q' = requeue ref job q'" for q' :: "('a, 'b) memory_queue"
    by (simp add: requeue_def cong: option.case_cong)
  ultimately show "queue_inv (runJob_ends s ref result now q) over"
    by (simp only: runJob_ends_cases(2) [OF assms(3) nf])
qed

lemma reject_all_simps [simp]:
  "queues (reject_all refs q) = queues q" "heap_jobs (reject_all refs q) = heap_jobs q"
  "heap_slots (reject_all refs q) = heap_slots q" "running (reject_all refs q) = running q"
  "shuttingDown (reject_all refs q) = shuttingDown q" "next_ref (reject_all refs q) = next_ref q"
  unfolding reject_all_def by (induction refs arbitrary: q) (auto split: option.split)

lemma inv_destroy:
  assumes "queue_inv q over"
  shows "queue_inv (destroy_queue q) over"
proof -
  have "mset (map snd (running q)) + mset over \<subseteq># placed q + mset over" by (simp add: placed_def)
  also have "\<dots> \<subseteq># job_keys q" using assms by (simp add: queue_inv_def jobs_ok_def)
  finally have "jobs_ok (destroy_queue q) over"
    by (simp add: jobs_ok_def destroy_queue_def Let_def placed_def job_keys_def)
  then show ?thesis
    using assms by (auto simp: queue_inv_def maps_ok_def slots_ok_def attempts_ok_def job_ok_def destroy_queue_def Let_def)
qed

lemma qreach_inv: "qreach q over \<Longrightarrow> queue_inv q over"
proof (induction rule: qreach.induct)
  case (initially a b)
  then show ?case
    by (simp add: new_queue_def queue_inv_def maps_ok_def jobs_ok_def slots_ok_def attempts_ok_def placed_def job_keys_def)
next
  case (closed q over name)
  from closed.IH show ?case by (rule inv_cong) (simp_all add: worker_close_def)
next
  case (scheduled q over sid name job payload every)
  from scheduled.IH show ?case by (rule inv_cong) (simp_all add: schedule_def)
next
  case (ticked q over sid now)
  then show ?case by (auto simp: schedule_ticks_def inv_enqueue split: option.split)
qed (auto simp: publish_def worker_pause_def worker_resume_def
      intro: inv_enqueue inv_invoke inv_timeout inv_consume inv_update_slot inv_drain inv_ends inv_destroy)

section \<open>What the queue guarantees\<close>

text \<open>
  C6: Until the provider is shut down, in every state that any interleaving of publishing, invoking, timing out, consuming,
  pausing, closing, scheduling, draining and finishing handlers can reach, every job ever created is in exactly one place: waiting in a queue,
  running, or over (answered, or failed for good). No job is lost and none is run twice at the same time.
\<close>

theorem every_job_is_in_one_place:
  assumes "qreach q over" "\<not> shuttingDown q"
  shows "queued_mset (queues q) + mset (map snd (running q)) + mset over = mset (map fst (heap_jobs q)) \<and>
    distinct (map fst (heap_jobs q))"
  using qreach_inv [OF assms(1)] assms(2)
  by (simp add: queue_inv_def jobs_ok_def maps_ok_def placed_def job_keys_def)

definition sample_options :: "string option \<Rightarrow> JobOptions" where
  "sample_options key = \<lparr>opt_attempts = Some 2, opt_backoffMs = Some 10, opt_delayMs = None, opt_dedupKey = key\<rparr>"

text \<open>A job published, consumed and running, under a dedup key.\<close>

definition sample_running :: "(nat, nat) memory_queue" where
  "sample_running = drain 5 (snd (consume (snd (publish (new_queue 3 100) ''jobs'' ''ingest'' 1 (sample_options (Some ''doc'')) 1)) ''jobs'' 0 None))"

lemma sample_running_reach: "qreach sample_running []"
  unfolding sample_running_def by (intro qreach.intros)

lemmas queue_simps = new_queue_def publish_def enqueue_def dedup_hit_def truthy_def add_job_def fresh_job_def queued_def
  sample_options_def consume_def drain_def drain_queue_def drain_list.simps find_index_def job_due_def runJob_starts_def
  update_job_def update_slot_def Let_def

lemma sample_running_unfold:
  "sample_running =
     \<lparr>queues = [(''jobs'', [])], consumers = [(''jobs'', 1)], dedup = [(''doc'', 0)], schedules = [], shuttingDown = False,
      draining = True, default_attempts = 3, default_backoffMs = 100,
      heap_jobs = [(0, \<lparr>job_queue = ''jobs'', job_name = ''ingest'', job_payload = 1, attempts = 2, attemptsMade = 1,
                       backoffMs = 10, availableAt = 1, dedupKey = Some ''doc'', waiter = None\<rparr>)],
      heap_slots = [(1, \<lparr>slot_handler = 0, concurrency = 1, active = 1, paused = False\<rparr>)],
      running = [(1, 0)], timers = [], settlements = [], next_ref = 2\<rparr>"
  by (simp add: sample_running_def queue_simps)

theorem every_job_is_in_one_place_witness:
  "queued_mset (queues sample_running) + mset (map snd (running sample_running)) = {#0#}"
  using every_job_is_in_one_place [OF sample_running_reach] by (simp add: sample_running_unfold)

text \<open>
  C38: In every reachable state the number of jobs a worker runs is its slot's \<open>active\<close> count and never exceeds its concurrency, and no job
  has been attempted more often than its options allow (at least once).
\<close>

theorem concurrency_and_attempts_are_bounded:
  assumes "qreach q over"
  shows "(map_get (heap_slots q) s = Some slot \<longrightarrow>
      length (filter (\<lambda>x. fst x = s) (running q)) = active slot \<and> active slot \<le> concurrency slot) \<and>
    (map_get (heap_jobs q) ref = Some job \<longrightarrow> attemptsMade job \<le> max 1 (attempts job))"
proof -
  have "slots_ok q" "attempts_ok q" using qreach_inv [OF assms] by (simp_all add: queue_inv_def)
  then show ?thesis
    by (metis attempts_ok_def job_ok_def slot_ok_def slots_ok_def)
qed

theorem concurrency_and_attempts_are_bounded_witness:
  "length (filter (\<lambda>x. fst x = 1) (running sample_running)) \<le> 1"
  using concurrency_and_attempts_are_bounded [OF sample_running_reach, of 1
      "\<lparr>slot_handler = 0, concurrency = 1, active = 1, paused = False\<rparr>" 0]
  by (simp add: sample_running_unfold)

lemma running_starts: "running (fold (runJob_starts s) refs q) = running q @ map (Pair s) refs"
  by (induction refs arbitrary: q) simp_all

text \<open>
  One pass over a queue with an unpaused worker starts the jobs that are due in the order of the queue, as many as the worker has room for, and
  starts nothing else.
\<close>

theorem drain_is_first_in_first_out:
  assumes "map_get (consumers q) name = Some s" "map_get (heap_slots q) s = Some slot" "\<not> paused slot"
  shows "running (drain_queue now name q) =
    running q @ map (Pair s) (take (concurrency slot - active slot) (filter (job_due q now) (queued q name)))"
  using assms by (simp add: drain_queue_def split_beta running_starts drain_list_started)

theorem drain_is_first_in_first_out_witness:
  "running (drain_queue 9 ''jobs'' sample_running) = running sample_running"
  using drain_is_first_in_first_out [of sample_running "''jobs''" 1
      "\<lparr>slot_handler = 0, concurrency = 1, active = 1, paused = False\<rparr>" 9]
  by (simp add: sample_running_unfold)

text \<open>
  A running job whose handler fails is put back at the end of its queue if it has attempts left and the error does not say that retrying is
  pointless, and is not due again before its backoff, doubled per attempt made; otherwise it is over and the
  caller that waits for it, if any, gets the error.
\<close>

theorem failed_job_is_retried_or_rejected:
  assumes "qreach q over" "\<not> shuttingDown q" "(s, ref) \<in> set (running q)" "map_get (heap_jobs q) ref = Some job"
    and "q' = runJob_ends s ref (Inl e) now q"
  shows "if attemptsMade job < attempts job \<and> \<not> isNonRetryableJobError e
    then queued q' (job_queue job) = queued q (job_queue job) @ [ref] \<and> settlements q' = settlements q \<and>
      (\<forall>t. job_due q' t ref \<longleftrightarrow> now + backoffMs job * 2 ^ (attemptsMade job - 1) \<le> t)
    else queues q' = queues q \<and>
      settlements q' = settlements q @ (case waiter job of None \<Rightarrow> [] | Some call \<Rightarrow> [(call, Rejected (je_message e))])"
proof -
  obtain refs where refs: "map_get (queues q) (job_queue job) = Some refs"
    using qreach_inv [OF assms(1)] assms(2,4) unfolding queue_inv_def maps_ok_def by blast
  have slot: "settlements (update_slot s f q) = settlements q" "dedup (update_slot s f q) = dedup q" for f and q :: "('a, 'b) memory_queue"
    by (simp_all add: update_slot_def split: option.split)
  show ?thesis
    using assms(4) refs
    by (auto simp: assms(5) runJob_ends_def Let_def requeue_def queued_def job_due_def slot settle_def forget_dedup_def
        split: option.split)
qed

theorem failed_job_is_retried_or_rejected_witness:
  "queued (runJob_ends 1 0 (Inl \<lparr>je_is_object = True, je_retryable = None, je_message = ''down''\<rparr>) 20 sample_running) ''jobs'' = [0]"
  using failed_job_is_retried_or_rejected [OF sample_running_reach, of 1 0
      "\<lparr>job_queue = ''jobs'', job_name = ''ingest'', job_payload = 1, attempts = 2, attemptsMade = 1,
        backoffMs = 10, availableAt = 1, dedupKey = Some ''doc'', waiter = None\<rparr>"
      "runJob_ends 1 0 (Inl \<lparr>je_is_object = True, je_retryable = None, je_message = ''down''\<rparr>) 20 sample_running"
      "\<lparr>je_is_object = True, je_retryable = None, je_message = ''down''\<rparr>" 20]
  by (simp add: sample_running_unfold isNonRetryableJobError_def queued_def)

section \<open>Two flaws\<close>

text \<open>
  A dedup key does not keep jobs apart once the first one runs. Published again while it runs, the job is queued a second time under
  the same key; when the first run ends it forgets the key of the second; and a third publication is queued as well, so that
  two jobs with one dedup key wait in the same queue.
\<close>

theorem dedup_key_is_lost_while_running:
  "\<exists>a b. let again = snd (publish sample_running ''jobs'' ''ingest'' 1 (sample_options (Some ''doc'')) 10);
            ended = runJob_ends 1 0 (Inr 7) 20 again;
            third = snd (publish ended ''jobs'' ''ingest'' 1 (sample_options (Some ''doc'')) 30)
        in a \<noteq> b \<and> queued third ''jobs'' = [a, b] \<and>
           map_option dedupKey (map_get (heap_jobs third) a) = Some (Some ''doc'') \<and>
           map_option dedupKey (map_get (heap_jobs third) b) = Some (Some ''doc'')"
  by (rule exI [of _ 2], rule exI [of _ 3])
     (simp add: sample_running_unfold publish_def enqueue_def dedup_hit_def truthy_def add_job_def fresh_job_def queued_def
        sample_options_def runJob_ends_def forget_dedup_def settle_def update_slot_def Let_def)

definition two_invocations :: "(nat, nat) memory_queue" where
  "two_invocations =
     (let qA = snd (invoke (new_queue 3 100) ''rpc'' ''ask'' 1 (sample_options (Some ''k'')) 1);
          qB = snd (invoke qA ''rpc'' ''ask'' 1 (sample_options (Some ''k'')) 2)
      in drain 3 (snd (consume qB ''rpc'' 0 None)))"

text \<open>
  Two invocations of one dedup key share a job but not its result: the second takes the place of the first as the one to be
  answered. When the timer of the first fires, it takes the resolver of the second away, so that the job's result reaches
  neither of the two callers.
\<close>

theorem deduplicated_invocation_gets_no_result:
  "promise_outcome (runJob_ends 3 0 (Inr 7) 9 two_invocations) 2 = Some (Resolved 7) \<and>
   promise_outcome (runJob_ends 3 0 (Inr 7) 9 two_invocations) 1 = None \<and>
   promise_outcome (runJob_ends 3 0 (Inr 7) 9 (timeout_fires two_invocations (1, 0))) 2 = None"
  by (simp add: two_invocations_def promise_outcome_def invoke_def timeout_fires_def runJob_ends_def forget_dedup_def settle_def
      queue_simps)

end
