(* ===== verification/Cluster.thy ===== *)
theory Cluster
  imports JsString
begin

text \<open>
  The cluster: which node runs a call. \<^verbatim>\<open>src/lib/core/cluster/\<close> (\<^verbatim>\<open>nodeRegistry.ts\<close>, \<^verbatim>\<open>instanceAssignmentStore.ts\<close>,
  \<^verbatim>\<open>defaultNode.ts\<close>, \<^verbatim>\<open>serviceRouter.ts\<close>) over the two tables of \<^verbatim>\<open>src/lib/database/sqlite/cluster.mixin.ts\<close>.

  \<^item> \<open>main_db\<close> is the pair of tables every node shares; its operations are functions on it. A database that cannot be
    reached is \<^const>\<open>None\<close> where the code catches the error or passes it on.
  \<^item> \<open>node_process\<close> is the module state of one process: its resolved name, whether it registered, and its two caches.
  \<^item> A read through the assignment cache that misses is two steps, before and after its \<^verbatim>\<open>await\<close>
    (\<open>lookup_starts\<close>, \<open>lookup_resumes\<close>), so that other steps can come in between.
  \<^item> \<open>routeInstanceCall\<close> is the decision where a call runs, and \<open>invokeRemote\<close> what becomes of a forwarded one. Whether a relay for live
    callbacks is asked for and can be opened are arguments (\<^verbatim>\<open>streamRelay.ts\<close> is not modelled).
\<close>

section \<open>The tables\<close>

datatype NodeRole = Main | Worker | All

datatype NodeStatus = Online | Offline | Draining

record INodeRecord =
  node_name :: string
  node_role :: NodeRole
  node_url :: "string option"
  node_tags :: "string list"
  node_status :: NodeStatus
  lastHeartbeatAt :: jsnum
  startedAt :: jsnum
  node_version :: "string option"
  hostname :: "string option"
  pid :: "int option"

datatype InstanceEntityType =
  Agent | Mcp | Browser | InferenceServer | AlertRule | Automation | Crawler | Ocr | Batch

fun entity_name :: "InstanceEntityType \<Rightarrow> string" where
  "entity_name Agent = ''agent''"
| "entity_name Mcp = ''mcp''"
| "entity_name Browser = ''browser''"
| "entity_name InferenceServer = ''inference-server''"
| "entity_name AlertRule = ''alert-rule''"
| "entity_name Automation = ''automation''"
| "entity_name Crawler = ''crawler''"
| "entity_name Ocr = ''ocr''"
| "entity_name Batch = ''batch''"

datatype InstanceAssignmentMode = Strict | Preferred

record IInstanceAssignment =
  asg_nodeName :: string
  asg_mode :: InstanceAssignmentMode
  asg_updatedAt :: jsnum
  asg_updatedBy :: "string option"

record main_db =
  nodes :: "(string, INodeRecord) jsmap"
  instanceAssignments :: "(InstanceEntityType \<times> string, IInstanceAssignment) jsmap"

definition upsertNode :: "INodeRecord \<Rightarrow> main_db \<Rightarrow> main_db" where
  "upsertNode record db = db\<lparr>nodes := map_set (nodes db) (node_name record) record\<rparr>"

definition heartbeatNode :: "string \<Rightarrow> jsnum \<Rightarrow> main_db \<Rightarrow> main_db" where
  "heartbeatNode name beat db =
     (case map_get (nodes db) name of
        None \<Rightarrow> db
      | Some n \<Rightarrow> db\<lparr>nodes := map_set (nodes db) name
          (n\<lparr>lastHeartbeatAt := beat, node_status := (if node_status n = Offline then Online else node_status n)\<rparr>)\<rparr>)"

definition setNodeStatus :: "string \<Rightarrow> NodeStatus \<Rightarrow> main_db \<Rightarrow> main_db" where
  "setNodeStatus name st db =
     (case map_get (nodes db) name of
        None \<Rightarrow> db
      | Some n \<Rightarrow> db\<lparr>nodes := map_set (nodes db) name (n\<lparr>node_status := st\<rparr>)\<rparr>)"

definition findNode :: "string \<Rightarrow> main_db \<Rightarrow> INodeRecord option" where
  "findNode name db = map_get (nodes db) name"

definition listNodes :: "NodeStatus option \<Rightarrow> main_db \<Rightarrow> INodeRecord list" where
  "listNodes st db =
     sort_key node_name (filter (\<lambda>n. case st of None \<Rightarrow> True | Some s \<Rightarrow> node_status n = s) (map snd (nodes db)))"

definition is_stale :: "jsnum \<Rightarrow> INodeRecord \<Rightarrow> bool" where
  "is_stale olderThan n \<longleftrightarrow> node_status n \<noteq> Offline \<and> lastHeartbeatAt n < olderThan"

definition markStaleNodesOffline :: "jsnum \<Rightarrow> main_db \<Rightarrow> nat \<times> main_db" where
  "markStaleNodesOffline olderThan db =
     (length (filter (is_stale olderThan) (map snd (nodes db))),
      db\<lparr>nodes := map (\<lambda>(k, n). (k, if is_stale olderThan n then n\<lparr>node_status := Offline\<rparr> else n)) (nodes db)\<rparr>)"

definition deleteNode :: "string \<Rightarrow> main_db \<Rightarrow> bool \<times> main_db" where
  "deleteNode name db = (map_has (nodes db) name, db\<lparr>nodes := map_delete (nodes db) name\<rparr>)"

definition db_setInstanceAssignment ::
  "InstanceEntityType \<Rightarrow> string \<Rightarrow> string \<Rightarrow> InstanceAssignmentMode \<Rightarrow> string option \<Rightarrow> jsnum \<Rightarrow> main_db
     \<Rightarrow> IInstanceAssignment \<times> main_db" where
  "db_setInstanceAssignment ty i nodeName mode updatedBy now db =
     (let a = \<lparr>asg_nodeName = nodeName, asg_mode = mode, asg_updatedAt = now, asg_updatedBy = updatedBy\<rparr>
      in (a, db\<lparr>instanceAssignments := map_set (instanceAssignments db) (ty, i) a\<rparr>))"

definition db_findInstanceAssignment :: "InstanceEntityType \<Rightarrow> string \<Rightarrow> main_db \<Rightarrow> IInstanceAssignment option" where
  "db_findInstanceAssignment ty i db = map_get (instanceAssignments db) (ty, i)"

definition db_deleteInstanceAssignment :: "InstanceEntityType \<Rightarrow> string \<Rightarrow> main_db \<Rightarrow> bool \<times> main_db" where
  "db_deleteInstanceAssignment ty i db =
     (map_has (instanceAssignments db) (ty, i), db\<lparr>instanceAssignments := map_delete (instanceAssignments db) (ty, i)\<rparr>)"

definition listInstanceAssignments ::
  "InstanceEntityType option \<Rightarrow> string option \<Rightarrow> main_db \<Rightarrow> ((InstanceEntityType \<times> string) \<times> IInstanceAssignment) list" where
  "listInstanceAssignments ty nodeName db =
     sort_key (\<lambda>((t, i), a). (entity_name t, i))
       (filter (\<lambda>((t, i), a). (case ty of None \<Rightarrow> True | Some x \<Rightarrow> t = x) \<and>
                              (case nodeName of None \<Rightarrow> True | Some n \<Rightarrow> n = [] \<or> asg_nodeName a = n))
         (instanceAssignments db))"

section \<open>A process\<close>

record node_config =
  cfg_name :: string
  cfg_role :: NodeRole
  cfg_url :: string
  cfg_tags :: "string list"
  cfg_version :: string
  cfg_hostname :: string
  cfg_pid :: int
  heartbeatMs :: jsnum
  offlineAfterMs :: jsnum
  defaultNodeName :: string
  isOnPrem :: bool

record placement_entry =
  pe_value :: "IInstanceAssignment option"
  pe_expiresAt :: jsnum

record node_process =
  resolvedNodeName :: "string option"
  registered :: bool
  heartbeat_on :: bool
  assignment_cache :: "(string, placement_entry) jsmap"
  cachedDefault :: "(string \<times> jsnum) option"

definition new_process :: node_process where
  "new_process = \<lparr>resolvedNodeName = None, registered = False, heartbeat_on = False, assignment_cache = [], cachedDefault = None\<rparr>"

text \<open>The process identifier is printed in decimal.\<close>

definition derived_name :: "node_config \<Rightarrow> string" where
  "derived_name cfg =
     (if js_trim (cfg_name cfg) \<noteq> [] then js_trim (cfg_name cfg)
      else cfg_hostname cfg @ ''-'' @ to_radix 10 (nat (cfg_pid cfg)))"

definition getThisNodeName :: "node_config \<Rightarrow> node_process \<Rightarrow> string \<times> node_process" where
  "getThisNodeName cfg p =
     (case resolvedNodeName p of
        Some n \<Rightarrow> if n \<noteq> [] then (n, p) else (derived_name cfg, p\<lparr>resolvedNodeName := Some (derived_name cfg)\<rparr>)
      | None \<Rightarrow> (derived_name cfg, p\<lparr>resolvedNodeName := Some (derived_name cfg)\<rparr>))"

definition registerThisNode :: "node_config \<Rightarrow> jsnum \<Rightarrow> node_process \<Rightarrow> main_db \<Rightarrow> node_process \<times> main_db" where
  "registerThisNode cfg now p db =
     (let (name, p') = getThisNodeName cfg p in
      (p'\<lparr>registered := True, heartbeat_on := True\<rparr>,
       upsertNode \<lparr>node_name = name, node_role = cfg_role cfg,
         node_url = (if cfg_url cfg = [] then None else Some (js_trim (cfg_url cfg))), node_tags = cfg_tags cfg,
         node_status = Online, lastHeartbeatAt = now, startedAt = now, node_version = Some (cfg_version cfg),
         hostname = Some (cfg_hostname cfg), pid = Some (cfg_pid cfg)\<rparr> db))"

definition heartbeatOnce :: "node_config \<Rightarrow> jsnum \<Rightarrow> node_process \<Rightarrow> main_db \<Rightarrow> node_process \<times> main_db" where
  "heartbeatOnce cfg now p db = (let (name, p') = getThisNodeName cfg p in (p', heartbeatNode name now db))"

definition sweepStaleNodes :: "node_config \<Rightarrow> jsnum \<Rightarrow> main_db \<Rightarrow> main_db" where
  "sweepStaleNodes cfg now db = snd (markStaleNodesOffline (now - offlineAfterMs cfg) db)"

definition deregisterThisNode :: "node_config \<Rightarrow> node_process \<Rightarrow> main_db \<Rightarrow> node_process \<times> main_db" where
  "deregisterThisNode cfg p db =
     (let p' = p\<lparr>heartbeat_on := False\<rparr> in
      if \<not> registered p' then (p', db)
      else let (name, p'') = getThisNodeName cfg p' in (p''\<lparr>registered := False\<rparr>, setNodeStatus name Offline db))"

section \<open>Placement\<close>

definition ASSIGNMENT_CACHE_TTL_MS :: jsnum where
  "ASSIGNMENT_CACHE_TTL_MS = 5000"

definition cacheKey :: "InstanceEntityType \<Rightarrow> string \<Rightarrow> string" where
  "cacheKey ty i = entity_name ty @ '':'' @ i"

definition getCached :: "InstanceEntityType \<Rightarrow> string \<Rightarrow> jsnum \<Rightarrow> node_process \<Rightarrow> placement_entry option \<times> node_process" where
  "getCached ty i now p =
     (case map_get (assignment_cache p) (cacheKey ty i) of
        None \<Rightarrow> (None, p)
      | Some e \<Rightarrow>
          if pe_expiresAt e < now
          then (None, p\<lparr>assignment_cache := map_delete (assignment_cache p) (cacheKey ty i)\<rparr>)
          else (Some e, p))"

definition setCached ::
  "InstanceEntityType \<Rightarrow> string \<Rightarrow> IInstanceAssignment option \<Rightarrow> jsnum \<Rightarrow> node_process \<Rightarrow> node_process" where
  "setCached ty i v now p =
     p\<lparr>assignment_cache := map_set (assignment_cache p) (cacheKey ty i)
         \<lparr>pe_value = v, pe_expiresAt = now + ASSIGNMENT_CACHE_TTL_MS\<rparr>\<rparr>"

definition invalidate_assignment :: "InstanceEntityType \<Rightarrow> string \<Rightarrow> node_process \<Rightarrow> node_process" where
  "invalidate_assignment ty i p = p\<lparr>assignment_cache := map_delete (assignment_cache p) (cacheKey ty i)\<rparr>"

datatype lookup = Answered "IInstanceAssignment option" | AsksDatabase

definition lookup_starts ::
  "node_config \<Rightarrow> InstanceEntityType \<Rightarrow> string \<Rightarrow> jsnum \<Rightarrow> node_process \<Rightarrow> lookup \<times> node_process" where
  "lookup_starts cfg ty i now p =
     (if \<not> isOnPrem cfg then (Answered None, p)
      else case getCached ty i now p of
             (Some e, p') \<Rightarrow> (Answered (pe_value e), p')
           | (None, p') \<Rightarrow> (AsksDatabase, p'))"

definition lookup_resumes ::
  "InstanceEntityType \<Rightarrow> string \<Rightarrow> IInstanceAssignment option \<Rightarrow> jsnum \<Rightarrow> node_process \<Rightarrow> IInstanceAssignment option \<times> node_process" where
  "lookup_resumes ty i v now p = (v, setCached ty i v now p)"

text \<open>The lookup when nothing comes in between.\<close>

definition findInstanceAssignment ::
  "node_config \<Rightarrow> InstanceEntityType \<Rightarrow> string \<Rightarrow> jsnum \<Rightarrow> main_db \<Rightarrow> node_process \<Rightarrow> IInstanceAssignment option \<times> node_process" where
  "findInstanceAssignment cfg ty i now db p =
     (case lookup_starts cfg ty i now p of
        (Answered v, p') \<Rightarrow> (v, p')
      | (AsksDatabase, p') \<Rightarrow> lookup_resumes ty i (db_findInstanceAssignment ty i db) now p')"

definition setInstanceAssignment ::
  "InstanceEntityType \<Rightarrow> string \<Rightarrow> string \<Rightarrow> InstanceAssignmentMode option \<Rightarrow> string option \<Rightarrow> jsnum \<Rightarrow> main_db \<Rightarrow> node_process
     \<Rightarrow> main_db \<times> node_process" where
  "setInstanceAssignment ty i nodeName mode updatedBy now db p =
     (snd (db_setInstanceAssignment ty i nodeName (nullish mode Strict) updatedBy now db), invalidate_assignment ty i p)"

definition deleteInstanceAssignment ::
  "InstanceEntityType \<Rightarrow> string \<Rightarrow> main_db \<Rightarrow> node_process \<Rightarrow> bool \<times> main_db \<times> node_process" where
  "deleteInstanceAssignment ty i db p =
     (let (ok, db') = db_deleteInstanceAssignment ty i db in (ok, db', invalidate_assignment ty i p))"

definition clearInstanceAssignmentCache :: "node_process \<Rightarrow> node_process" where
  "clearInstanceAssignmentCache p = p\<lparr>assignment_cache := []\<rparr>"

definition DEFAULT_NODE_CACHE_TTL_MS :: jsnum where
  "DEFAULT_NODE_CACHE_TTL_MS = 10000"

definition pick_default :: "string \<Rightarrow> main_db option \<Rightarrow> string" where
  "pick_default thisNode db =
     (case db of
        None \<Rightarrow> thisNode
      | Some d \<Rightarrow>
          (case find (\<lambda>n. node_role n = Main \<or> node_role n = All) (listNodes (Some Online) d) of
             None \<Rightarrow> thisNode
           | Some main \<Rightarrow> node_name main))"

definition resolveDefaultNodeName :: "node_config \<Rightarrow> jsnum \<Rightarrow> main_db option \<Rightarrow> node_process \<Rightarrow> string \<times> node_process" where
  "resolveDefaultNodeName cfg now db p =
     (if js_trim (defaultNodeName cfg) \<noteq> [] then (js_trim (defaultNodeName cfg), p)
      else
        let recompute =
              (let (thisNode, p') = getThisNodeName cfg p; resolved = pick_default thisNode db
               in (resolved, p'\<lparr>cachedDefault := Some (resolved, now + DEFAULT_NODE_CACHE_TTL_MS)\<rparr>))
        in case cachedDefault p of
             None \<Rightarrow> recompute
           | Some (name, expiresAt) \<Rightarrow> if expiresAt > now then (name, p) else recompute)"

record placement =
  pl_nodeName :: string
  pl_mode :: InstanceAssignmentMode
  pl_explicit :: bool

definition resolveInstancePlacement ::
  "node_config \<Rightarrow> InstanceEntityType \<Rightarrow> string \<Rightarrow> jsnum \<Rightarrow> main_db \<Rightarrow> node_process \<Rightarrow> placement \<times> node_process" where
  "resolveInstancePlacement cfg ty i now db p =
     (case findInstanceAssignment cfg ty i now db p of
        (Some a, p') \<Rightarrow> (\<lparr>pl_nodeName = asg_nodeName a, pl_mode = asg_mode a, pl_explicit = True\<rparr>, p')
      | (None, p') \<Rightarrow>
          (let (defaultName, p'') = resolveDefaultNodeName cfg now (Some db) p'
           in (\<lparr>pl_nodeName = defaultName, pl_mode = Preferred, pl_explicit = False\<rparr>, p'')))"

section \<open>Routing\<close>

datatype queue_kind = InMemory | BullMq

text \<open>Where a call runs: here, on the queue for a node or for any consumer, or nowhere.\<close>

datatype routing =
    RunsLocally
  | Forwards string "string option"
  | RefusedOffline string

definition queueNameFor :: "InstanceEntityType \<Rightarrow> string" where
  "queueNameFor ty = ''cluster.'' @ entity_name ty"

definition isNodeOnline :: "string \<Rightarrow> main_db option \<Rightarrow> bool" where
  "isNodeOnline name db =
     (case db of
        None \<Rightarrow> False
      | Some d \<Rightarrow>
          (case find (\<lambda>n. node_name n = name) (listNodes None d) of
             None \<Rightarrow> False
           | Some n \<Rightarrow> node_status n = Online))"

definition route_target :: "InstanceEntityType \<Rightarrow> placement \<Rightarrow> string \<Rightarrow> queue_kind \<Rightarrow> main_db option \<Rightarrow> routing" where
  "route_target ty target thisNode queue db =
     (if \<not> pl_explicit target \<or> pl_nodeName target = thisNode then RunsLocally
      else if queue = InMemory then RunsLocally
      else if pl_mode target = Strict then
        if isNodeOnline (pl_nodeName target) db then Forwards (queueNameFor ty) (Some (pl_nodeName target))
        else RefusedOffline (pl_nodeName target)
      else if isNodeOnline (pl_nodeName target) db then Forwards (queueNameFor ty) (Some (pl_nodeName target))
      else Forwards (queueNameFor ty) None)"

text \<open>
  The call: the placement is forced or looked up at \<open>now\<close>; the node table is read later, when it may have changed or be out of
  reach.
\<close>

definition routeInstanceCall ::
  "node_config \<Rightarrow> InstanceEntityType \<Rightarrow> string \<Rightarrow> string option \<Rightarrow> jsnum \<Rightarrow> main_db \<Rightarrow> queue_kind \<Rightarrow> main_db option
     \<Rightarrow> node_process \<Rightarrow> routing \<times> node_process" where
  "routeInstanceCall cfg ty i forceNodeName now db queue later_db p =
     (let (thisNode, pA) = getThisNodeName cfg p;
          (target, pB) =
            (case forceNodeName of
               Some n \<Rightarrow> if n \<noteq> [] then (\<lparr>pl_nodeName = n, pl_mode = Strict, pl_explicit = True\<rparr>, pA)
                         else resolveInstancePlacement cfg ty i now db pA
             | None \<Rightarrow> resolveInstancePlacement cfg ty i now db pA)
      in (route_target ty target thisNode queue later_db, pB))"

text \<open>
  A forwarded call: with a relay the queue is asked for a single attempt, and the relay is finished after a result and
  closed after an error.
\<close>

datatype relay_end = NoRelay | RelayFinished | RelayClosed

record queue_call =
  qc_queue :: string
  qc_job :: string
  qc_target :: "string option"
  qc_attempts :: "nat option"
  qc_relay :: bool

definition invokeRemote ::
  "string \<Rightarrow> string \<Rightarrow> string option \<Rightarrow> nat option \<Rightarrow> bool \<Rightarrow> bool \<Rightarrow> (queue_call \<Rightarrow> 'e + 'r) \<Rightarrow> ('e + 'r) \<times> queue_call \<times> relay_end" where
  "invokeRemote queueName jobName targetNode attempts relayUseful relayOpens queue_invoke =
     (let relay = relayUseful \<and> relayOpens;
          call = \<lparr>qc_queue = queueName, qc_job = jobName, qc_target = targetNode,
                  qc_attempts = (if relay then Some 1 else attempts), qc_relay = relay\<rparr>;
          result = queue_invoke call
      in (result, call,
          if \<not> relay then NoRelay else case result of Inr r \<Rightarrow> RelayFinished | Inl e \<Rightarrow> RelayClosed))"

section \<open>Where calls run\<close>

text \<open>The node table is keyed by name.\<close>

definition nodes_ok :: "main_db \<Rightarrow> bool" where
  "nodes_ok db \<longleftrightarrow> distinct (map fst (nodes db)) \<and> (\<forall>k n. map_get (nodes db) k = Some n \<longrightarrow> node_name n = k)"

lemma isNodeOnline_iff:
  assumes "nodes_ok db"
  shows "isNodeOnline name (Some db) \<longleftrightarrow> (\<exists>n. findNode name db = Some n \<and> node_status n = Online)"
proof -
  have keyed: "(k, n) \<in> set (nodes db) \<Longrightarrow> node_name n = k \<and> map_get (nodes db) k = Some n" for k n
    using assms by (auto simp: nodes_ok_def)
  have mem: "n \<in> set (listNodes None db) \<longleftrightarrow> (\<exists>k. (k, n) \<in> set (nodes db))" for n
    by (force simp: listNodes_def)
  show ?thesis
  proof (cases "find (\<lambda>n. node_name n = name) (listNodes None db)")
    case None
    then have "\<not> (\<exists>n. (name, n) \<in> set (nodes db))"
      using keyed by (auto simp: find_None_iff mem)
    then have "findNode name db = None" by (auto simp: findNode_def dest: map_of_SomeD intro: option.exhaust)
    then show ?thesis using None by (simp add: isNodeOnline_def)
  next
    case (Some n)
    from find_SomeD [OF this] obtain k where "(k, n) \<in> set (nodes db)" "node_name n = name"
      using mem by blast
    then have "findNode name db = Some n" using keyed by (auto simp: findNode_def)
    then show ?thesis using Some by (simp add: isNodeOnline_def)
  qed
qed

text \<open>
  On a deployment with a distributed queue, a call of an instance whose assignment names another node and is strict runs on that
  node or nowhere: it is forwarded to that node's queue if the node table has it online, and refused otherwise, never run here
  and never put on the shared channel. A preferred assignment is forwarded to its node when online and to the shared channel
  otherwise.
\<close>

theorem assigned_call_goes_to_its_node:
  assumes "isOnPrem cfg" "fst (findInstanceAssignment cfg ty i now db (snd (getThisNodeName cfg p))) = Some a"
    and "asg_nodeName a \<noteq> fst (getThisNodeName cfg p)" "nodes_ok later"
  shows "fst (routeInstanceCall cfg ty i None now db BullMq (Some later) p) =
    (if \<exists>n. findNode (asg_nodeName a) later = Some n \<and> node_status n = Online
     then Forwards (queueNameFor ty) (Some (asg_nodeName a))
     else if asg_mode a = Strict then RefusedOffline (asg_nodeName a) else Forwards (queueNameFor ty) None)"
  using assms isNodeOnline_iff [OF assms(4), of "asg_nodeName a"]
  by (auto simp: routeInstanceCall_def resolveInstancePlacement_def route_target_def split_beta split: prod.splits option.splits)

definition sample_node_config :: node_config where
  "sample_node_config = \<lparr>cfg_name = ''n1'', cfg_role = All, cfg_url = [], cfg_tags = [], cfg_version = ''1'', cfg_hostname = ''h'',
     cfg_pid = 7, heartbeatMs = 10, offlineAfterMs = 30, defaultNodeName = ''n2'', isOnPrem = True\<rparr>"

definition sample_node :: "string \<Rightarrow> jsnum \<Rightarrow> INodeRecord" where
  "sample_node name beat = \<lparr>node_name = name, node_role = Worker, node_url = None, node_tags = [], node_status = Online,
     lastHeartbeatAt = beat, startedAt = 0, node_version = None, hostname = None, pid = None\<rparr>"

definition sample_db :: main_db where
  "sample_db = \<lparr>nodes = [(''n2'', sample_node ''n2'' 0)],
     instanceAssignments = [((Agent, ''a''), \<lparr>asg_nodeName = ''n2'', asg_mode = Strict, asg_updatedAt = 0, asg_updatedBy = None\<rparr>)]\<rparr>"

lemmas lookup_defs = findInstanceAssignment_def lookup_starts_def lookup_resumes_def getCached_def setCached_def
  db_findInstanceAssignment_def

theorem assigned_call_goes_to_its_node_witness:
  "fst (routeInstanceCall sample_node_config Agent ''a'' None 5 sample_db BullMq
     (Some (sweepStaleNodes sample_node_config 50 sample_db)) new_process) = RefusedOffline ''n2''"
  using assigned_call_goes_to_its_node [of sample_node_config Agent "''a''" 5 sample_db new_process
      "\<lparr>asg_nodeName = ''n2'', asg_mode = Strict, asg_updatedAt = 0, asg_updatedBy = None\<rparr>"
      "sweepStaleNodes sample_node_config 50 sample_db"]
  by (simp add: sample_node_config_def sample_db_def sample_node_def new_process_def getThisNodeName_def derived_name_def
      lookup_defs sweepStaleNodes_def markStaleNodesOffline_def is_stale_def findNode_def nodes_ok_def js_trim_def is_space_def code_def)

text \<open>
  A call of an instance without an assignment runs on the node that received it, whatever default node is configured or
  elected, and on a hosted deployment every call that is not forced to a node does, whatever assignments are stored.
\<close>

theorem unassigned_call_runs_locally:
  assumes "\<not> isOnPrem cfg \<or> fst (findInstanceAssignment cfg ty i now db (snd (getThisNodeName cfg p))) = None"
  shows "fst (routeInstanceCall cfg ty i None now db queue later p) = RunsLocally"
  using assms
  by (auto simp: routeInstanceCall_def resolveInstancePlacement_def route_target_def findInstanceAssignment_def lookup_starts_def
      split_beta split: prod.splits option.splits lookup.splits)

theorem unassigned_call_runs_locally_witness:
  "fst (routeInstanceCall sample_node_config Agent ''b'' None 5 sample_db BullMq (Some sample_db) new_process) = RunsLocally"
  by (rule unassigned_call_runs_locally)
     (simp add: sample_db_def new_process_def getThisNodeName_def lookup_defs sample_node_config_def cacheKey_def)

section \<open>The assignment cache\<close>

lemma entity_name_no_colon: "CHR '':'' \<notin> set (entity_name ty)"
  by (cases ty) simp_all

lemma entity_name_inject: "entity_name ty = entity_name ty' \<Longrightarrow> ty = ty'"
  by (cases ty; cases ty') simp_all

lemma cacheKey_inject: "cacheKey ty i = cacheKey ty' i' \<longleftrightarrow> ty = ty' \<and> i = i'"
proof
  assume eq: "cacheKey ty i = cacheKey ty' i'"
  have "takeWhile (\<lambda>c. c \<noteq> CHR '':'') (cacheKey t j) = entity_name t" for t j
    using entity_name_no_colon [of t] by (simp add: cacheKey_def takeWhile_append)
  then have "ty = ty'" using eq entity_name_inject by metis
  then show "ty = ty' \<and> i = i'" using eq by (simp add: cacheKey_def)
qed simp

text \<open>
  Steps of one process that do not overlap: lookups, writes and time passing. What is cached is what the database holds.
\<close>

definition cache_coherent :: "main_db \<Rightarrow> node_process \<Rightarrow> bool" where
  "cache_coherent db p \<longleftrightarrow>
     (\<forall>ty i e. map_get (assignment_cache p) (cacheKey ty i) = Some e \<longrightarrow> pe_value e = db_findInstanceAssignment ty i db)"

inductive single_node :: "node_config \<Rightarrow> main_db \<Rightarrow> node_process \<Rightarrow> bool" for cfg :: node_config where
  boot: "single_node cfg db new_process"
| lookup: "single_node cfg db p \<Longrightarrow> single_node cfg db (snd (findInstanceAssignment cfg ty i now db p))"
| assign: "single_node cfg db p \<Longrightarrow>
    single_node cfg (fst (setInstanceAssignment ty i n m who now db p)) (snd (setInstanceAssignment ty i n m who now db p))"
| unassign: "single_node cfg db p \<Longrightarrow>
    single_node cfg (fst (snd (deleteInstanceAssignment ty i db p))) (snd (snd (deleteInstanceAssignment ty i db p)))"
| clear: "single_node cfg db p \<Longrightarrow> single_node cfg db (clearInstanceAssignmentCache p)"
| route: "single_node cfg db p \<Longrightarrow> single_node cfg db (snd (routeInstanceCall cfg ty i force now db queue later p))"

lemma coherent_find: "cache_coherent db p \<Longrightarrow> cache_coherent db (snd (findInstanceAssignment cfg ty i now db p))"
  by (auto simp: cache_coherent_def lookup_defs cacheKey_inject split: option.splits if_splits)

lemma coherent_cong: "assignment_cache p' = assignment_cache p \<Longrightarrow> cache_coherent db p' = cache_coherent db p"
  by (simp add: cache_coherent_def)

lemma cache_unchanged [simp]:
  "assignment_cache (snd (getThisNodeName cfg p)) = assignment_cache p"
  "assignment_cache (snd (resolveDefaultNodeName cfg now db p)) = assignment_cache p"
  by (auto simp: getThisNodeName_def resolveDefaultNodeName_def Let_def split_beta split: option.splits)

lemma coherent_placement: "cache_coherent db p \<Longrightarrow> cache_coherent db (snd (resolveInstancePlacement cfg ty i now db p))"
proof -
  assume "cache_coherent db p"
  then have c: "cache_coherent db (snd (findInstanceAssignment cfg ty i now db p))" by (rule coherent_find)
  obtain v q where f: "findInstanceAssignment cfg ty i now db p = (v, q)" by force
  then have "cache_coherent db (snd (resolveDefaultNodeName cfg now (Some db) q))"
    using c by (simp add: coherent_cong [of "snd (resolveDefaultNodeName cfg now (Some db) q)" q])
  then show ?thesis using c f by (cases v) (simp_all add: resolveInstancePlacement_def split_beta)
qed

lemma single_node_coherent: "single_node cfg db p \<Longrightarrow> cache_coherent db p"
proof (induction rule: single_node.induct)
  case (route db p ty i force now queue later)
  then have "cache_coherent db (snd (getThisNodeName cfg p))" by (simp add: coherent_cong [of "snd (getThisNodeName cfg p)" p])
  then show ?case
    by (auto simp: routeInstanceCall_def split_beta coherent_placement split: option.splits)
next
  case (lookup db p ty i now)
  from lookup.IH show ?case by (rule coherent_find)
qed (auto simp: new_process_def cache_coherent_def setInstanceAssignment_def deleteInstanceAssignment_def
      db_setInstanceAssignment_def db_deleteInstanceAssignment_def db_findInstanceAssignment_def invalidate_assignment_def
      clearInstanceAssignmentCache_def cacheKey_inject Let_def)

lemma find_coherent:
  "cache_coherent db p \<Longrightarrow> isOnPrem cfg \<Longrightarrow> fst (findInstanceAssignment cfg ty i now db p) = db_findInstanceAssignment ty i db"
  by (auto simp: cache_coherent_def lookup_defs split: option.splits)

text \<open>
  As long as the lookups and writes of a process do not overlap and no other process writes, the short-lived cache of
  assignments is invisible: a lookup returns what the database holds, in particular right after a write or a removal.
\<close>

theorem assignment_cache_is_transparent:
  assumes "single_node cfg db p" "isOnPrem cfg"
  shows "fst (findInstanceAssignment cfg ty i now db p) = db_findInstanceAssignment ty i db"
  using find_coherent [OF single_node_coherent [OF assms(1)] assms(2)] .

theorem assignment_cache_is_transparent_witness:
  "fst (findInstanceAssignment sample_node_config Agent ''a'' 6
     (fst (setInstanceAssignment Agent ''a'' ''n3'' None None 5 sample_db (snd (findInstanceAssignment sample_node_config Agent ''a'' 4 sample_db new_process))))
     (snd (setInstanceAssignment Agent ''a'' ''n3'' None None 5 sample_db (snd (findInstanceAssignment sample_node_config Agent ''a'' 4 sample_db new_process))))) =
   Some \<lparr>asg_nodeName = ''n3'', asg_mode = Strict, asg_updatedAt = 5, asg_updatedBy = None\<rparr>"
  using assignment_cache_is_transparent [OF single_node.assign [OF single_node.lookup [OF single_node.boot [of sample_node_config sample_db],
        of Agent "''a''" 4], of Agent "''a''" "''n3''" None None 5], of Agent "''a''" 6]
  by (simp add: sample_node_config_def sample_db_def setInstanceAssignment_def db_setInstanceAssignment_def db_findInstanceAssignment_def Let_def)

text \<open>
  A lookup that is waiting for the database when an assignment is written puts the value it had read back into the cache
  after the write has invalidated it: for the next five seconds the process acts on the assignment that was replaced.
\<close>

theorem overlapping_lookup_caches_replaced_assignment:
  assumes "isOnPrem cfg" "map_get (assignment_cache p) (cacheKey ty i) = None"
    and "t \<le> resumed + ASSIGNMENT_CACHE_TTL_MS"
  shows "lookup_starts cfg ty i now p = (AsksDatabase, p) \<and>
    fst (findInstanceAssignment cfg ty i t
      (fst (setInstanceAssignment ty i n m who written db p))
      (snd (lookup_resumes ty i (db_findInstanceAssignment ty i db) resumed
        (snd (setInstanceAssignment ty i n m who written db p))))) = db_findInstanceAssignment ty i db"
  using assms by (auto simp: lookup_defs setInstanceAssignment_def invalidate_assignment_def)

theorem overlapping_lookup_caches_replaced_assignment_witness:
  "fst (findInstanceAssignment sample_node_config Agent ''a'' 100
     (fst (setInstanceAssignment Agent ''a'' ''n3'' None None 5 sample_db new_process))
     (snd (lookup_resumes Agent ''a'' (db_findInstanceAssignment Agent ''a'' sample_db) 6
       (snd (setInstanceAssignment Agent ''a'' ''n3'' None None 5 sample_db new_process))))) =
   Some \<lparr>asg_nodeName = ''n2'', asg_mode = Strict, asg_updatedAt = 0, asg_updatedBy = None\<rparr>"
  using overlapping_lookup_caches_replaced_assignment [of sample_node_config new_process Agent "''a''" 100 6 4 "''n3''" None None 5 sample_db]
  by (simp add: sample_node_config_def new_process_def ASSIGNMENT_CACHE_TTL_MS_def sample_db_def db_findInstanceAssignment_def)

section \<open>Liveness of nodes\<close>

lemma findNode_sweep:
  "findNode name (sweepStaleNodes cfg now db) =
     map_option (\<lambda>n. if is_stale (now - offlineAfterMs cfg) n then n\<lparr>node_status := Offline\<rparr> else n) (findNode name db)"
proof -
  have "map_get (map (\<lambda>(k, n). (k, f n)) m) name = map_option f (map_get m name)" for f :: "INodeRecord \<Rightarrow> INodeRecord" and m
    by (induction m) auto
  then show ?thesis by (simp add: findNode_def sweepStaleNodes_def markStaleNodesOffline_def)
qed

lemma findNode_heartbeat:
  "findNode name (heartbeatNode n beat db) =
     (if name = n then map_option (\<lambda>r. r\<lparr>lastHeartbeatAt := beat,
        node_status := (if node_status r = Offline then Online else node_status r)\<rparr>) (findNode n db) else findNode name db)"
  by (auto simp: findNode_def heartbeatNode_def split: option.splits)

text \<open>What the processes of a cluster do to the node table over time: heartbeats and sweeps, each at its instant.\<close>

datatype beat = Beats string jsnum | Sweeps jsnum

fun beat_at :: "beat \<Rightarrow> jsnum" where
  "beat_at (Beats name t) = t"
| "beat_at (Sweeps t) = t"

fun apply_beat :: "node_config \<Rightarrow> beat \<Rightarrow> main_db \<Rightarrow> main_db" where
  "apply_beat cfg (Beats name t) db = heartbeatNode name t db"
| "apply_beat cfg (Sweeps t) db = sweepStaleNodes cfg t db"

text \<open>A node that never lets more than the tolerated time pass between two of its heartbeats, as seen by every event.\<close>

fun beats_regularly :: "node_config \<Rightarrow> string \<Rightarrow> jsnum \<Rightarrow> beat list \<Rightarrow> bool" where
  "beats_regularly cfg name lastBeat [] = True"
| "beats_regularly cfg name lastBeat (b # bs) =
     (beat_at b - lastBeat \<le> offlineAfterMs cfg \<and>
      beats_regularly cfg name (case b of Beats n t \<Rightarrow> if n = name then t else lastBeat | Sweeps t \<Rightarrow> lastBeat) bs)"

lemma regular_node_online:
  "findNode name db = Some n \<Longrightarrow> node_status n = Online \<Longrightarrow> beats_regularly cfg name (lastHeartbeatAt n) bs \<Longrightarrow>
   \<exists>n'. findNode name (fold (apply_beat cfg) bs db) = Some n' \<and> node_status n' = Online"
proof (induction bs arbitrary: db n)
  case (Cons b bs)
  show ?case
  proof (cases b)
    case (Beats k t)
    then show ?thesis
      using Cons.prems Cons.IH [of "heartbeatNode k t db" "if name = k then n\<lparr>lastHeartbeatAt := t\<rparr> else n"]
      by (cases "name = k") (auto simp: findNode_heartbeat)
  next
    case (Sweeps t)
    then have "\<not> is_stale (t - offlineAfterMs cfg) n" using Cons.prems(3) by (simp add: is_stale_def)
    then show ?thesis
      using Sweeps Cons.prems Cons.IH [of "sweepStaleNodes cfg t db" n] by (simp add: findNode_sweep)
  qed
qed auto

lemma sweep_leaves_fresh:
  assumes "findNode k (sweepStaleNodes cfg now db) = Some m" "node_status m \<noteq> Offline"
  shows "now - lastHeartbeatAt m \<le> offlineAfterMs cfg"
proof -
  obtain z where m: "m = (if is_stale (now - offlineAfterMs cfg) z then z\<lparr>node_status := Offline\<rparr> else z)"
    using assms(1) by (auto simp: findNode_sweep)
  then show ?thesis using assms(2) by (cases "is_stale (now - offlineAfterMs cfg) z") (auto simp: is_stale_def)
qed

text \<open>
  C40: An online node whose heartbeats are never further apart than the configured time is never marked offline, whatever the
  heartbeats of other nodes and however many nodes sweep; and right after a sweep every node that is not offline has a heartbeat
  within that time.
\<close>

theorem heartbeats_decide_liveness:
  assumes "findNode name db = Some n" "node_status n = Online" "beats_regularly cfg name (lastHeartbeatAt n) bs"
  shows "(\<exists>n'. findNode name (fold (apply_beat cfg) bs db) = Some n' \<and> node_status n' = Online) \<and>
    (\<forall>k m. findNode k (sweepStaleNodes cfg now db) = Some m \<longrightarrow> node_status m \<noteq> Offline \<longrightarrow>
       now - lastHeartbeatAt m \<le> offlineAfterMs cfg)"
  using regular_node_online [OF assms] sweep_leaves_fresh by blast

theorem heartbeats_decide_liveness_witness:
  "\<exists>n'. findNode ''n2'' (fold (apply_beat sample_node_config) [Sweeps 20, Beats ''n2'' 25, Beats ''n9'' 40, Sweeps 50] sample_db) = Some n' \<and>
     node_status n' = Online"
  using heartbeats_decide_liveness [of "''n2''" sample_db "sample_node ''n2'' 0" sample_node_config
      "[Sweeps 20, Beats ''n2'' 25, Beats ''n9'' 40, Sweeps 50]" 0]
  by (simp add: sample_db_def sample_node_def sample_node_config_def findNode_def)

end
