(* ===== verification/QuotaTypes.thy ===== *)
theory QuotaTypes
  imports JsString
begin

text \<open>
  The vocabulary of quotas: \<^verbatim>\<open>src/lib/quota/types.ts\<close> (scopes, domains, limits, policies), \<^verbatim>\<open>domains.ts\<close> (what each
  service can be limited on) and \<^verbatim>\<open>targets.ts\<close> (what a resource or provider limit points at).

  An optional number of the source is a \<^typ>\<open>jsnum option\<close>; \<open>-1\<close> means unlimited and is a number like any other here. An object
  whose fields are all optional numbers is a function from its fields: \<open>rate_limits\<close> from counter kind and
  window, \<open>per_request\<close> and \<open>resource_caps\<close> from their fields. Whether such an object is present at all is kept.
\<close>

section \<open>Scopes and domains\<close>

datatype QuotaScope = ScopeTenant | ScopeGroup | ScopeUser | ScopeToken | ScopeResource | ScopeProvider | ScopeIp

datatype QuotaDomain =
    DGlobal | DLlm | DEmbedding | DVector | DFile | DTracing | DStt | DTts | DOcr | DImage | DModeration | DDecision | DAgent
  | DWebsearch | DRag | DMcp | DRerank | DMemory | DBrowser | DCrawler | DGuardrail | DJobs | DSandbox

fun domain_name :: "QuotaDomain \<Rightarrow> string" where
  "domain_name DGlobal = ''global''"
| "domain_name DLlm = ''llm''"
| "domain_name DEmbedding = ''embedding''"
| "domain_name DVector = ''vector''"
| "domain_name DFile = ''file''"
| "domain_name DTracing = ''tracing''"
| "domain_name DStt = ''stt''"
| "domain_name DTts = ''tts''"
| "domain_name DOcr = ''ocr''"
| "domain_name DImage = ''image''"
| "domain_name DModeration = ''moderation''"
| "domain_name DDecision = ''decision''"
| "domain_name DAgent = ''agent''"
| "domain_name DWebsearch = ''websearch''"
| "domain_name DRag = ''rag''"
| "domain_name DMcp = ''mcp''"
| "domain_name DRerank = ''rerank''"
| "domain_name DMemory = ''memory''"
| "domain_name DBrowser = ''browser''"
| "domain_name DCrawler = ''crawler''"
| "domain_name DGuardrail = ''guardrail''"
| "domain_name DJobs = ''jobs''"
| "domain_name DSandbox = ''sandbox''"

datatype QuotaGroupMode = GroupPerMember | GroupShared

datatype QuotaIpMode = IpPerAddress | IpShared

definition MAX_QUOTA_IP_RANGES :: nat where
  "MAX_QUOTA_IP_RANGES = 100"

section \<open>Limits\<close>

datatype rate_window = PerSecond | PerMinute | PerHour | PerDay | PerMonth

datatype QuotaRateKind = RRequests | RTokens | RVectors | RFiles | RStorage | RUnits

type_synonym rate_limits = "QuotaRateKind \<Rightarrow> rate_window \<Rightarrow> jsnum option"

datatype per_request_field =
    MaxInputTokens | MaxOutputTokens | MaxTotalTokens | MaxVectorsPerUpsert | MaxQueryResults | MaxDimensions
  | MaxFileSize | MaxFilesPerRequest | MaxEventsPerSession | MaxSessionDurationMs | MaxConcurrentRequests

type_synonym per_request = "per_request_field \<Rightarrow> jsnum option"

datatype resource_cap =
    MaxProjects | MaxModels | MaxVectorIndexes | MaxVectorsTotal | MaxFileBuckets | MaxStorageBytes | MaxFilesTotal
  | MaxTracingSessions | MaxTracingRetentionDays | MaxApiTokens | MaxUsers | MaxAgents | MaxAgentSyncTimeoutSeconds
  | MaxAgentBackgroundDurationMinutes | MaxConcurrentAgentRuns | MaxActiveAgentReminders | MaxAgentRemindersPerDay

type_synonym resource_caps = "resource_cap \<Rightarrow> jsnum option"

record QuotaBudget =
  dailySpendLimit :: "jsnum option"
  monthlySpendLimit :: "jsnum option"
  alertThresholds :: "jsnum list option"

record QuotaLimits =
  lim_rateLimit :: "rate_limits option"
  lim_perRequest :: "per_request option"
  lim_quotas :: "resource_caps option"
  lim_budget :: "QuotaBudget option"

definition no_limits :: QuotaLimits where
  "no_limits = \<lparr>lim_rateLimit = None, lim_perRequest = None, lim_quotas = None, lim_budget = None\<rparr>"

text \<open>
  A field may be absent or \<^verbatim>\<open>null\<close>; \<^verbatim>\<open>===\<close> tells the two apart. The scope id of a policy that has none is
  \<^verbatim>\<open>null\<close> in a row of the SQLite store. Compared with a caller's id that is absent, only the absent one is equal.
\<close>

datatype 'a js_field = Undefined | Null | Given 'a

type_synonym scope_id = "string js_field"

fun scope_id_is :: "scope_id \<Rightarrow> string option \<Rightarrow> bool" where
  "scope_id_is Undefined x = (x = None)"
| "scope_id_is Null x = False"
| "scope_id_is (Given s) x = (x = Some s)"

record QuotaPolicy =
  pol_id :: string
  pol_tenantId :: string
  pol_projectId :: "string option"
  pol_scope :: QuotaScope
  pol_scopeId :: scope_id
  pol_groupMode :: "QuotaGroupMode option"
  pol_ipRanges :: "string list option"
  pol_ipMode :: "QuotaIpMode option"
  pol_domain :: QuotaDomain
  pol_priority :: jsnum
  pol_limits :: QuotaLimits
  pol_enabled :: bool
  pol_createdAt :: jsnum

definition isTenantWideKind :: "QuotaPolicy \<Rightarrow> bool" where
  "isTenantWideKind p \<longleftrightarrow> pol_scope p = ScopeGroup \<or> pol_scope p = ScopeIp \<or> pol_domain p = DAgent"

definition quotaGroupMode :: "QuotaPolicy \<Rightarrow> QuotaGroupMode option" where
  "quotaGroupMode p =
     (if pol_scope p \<noteq> ScopeGroup then None
      else if pol_groupMode p = Some GroupShared then Some GroupShared else Some GroupPerMember)"

definition quotaIpMode :: "QuotaPolicy \<Rightarrow> QuotaIpMode option" where
  "quotaIpMode p =
     (if pol_scope p \<noteq> ScopeIp then None
      else if pol_ipMode p = Some IpShared then Some IpShared else Some IpPerAddress)"

section \<open>The domain registry\<close>

datatype QuotaDomainGroup = GPlatform | GModel | GData | GTool | GRuntime

datatype QuotaUnit = UDocument | UPage | UMinute

record QuotaDomainSpec =
  spec_group :: QuotaDomainGroup
  spec_rateKinds :: "QuotaRateKind list"
  spec_unit :: "QuotaUnit option"
  spec_perRequest :: "per_request_field list"
  spec_resourceCaps :: bool
  spec_budget :: bool
  spec_globalFallback :: bool
  spec_enforced :: bool

definition MODEL_TOKENS :: "per_request_field list" where
  "MODEL_TOKENS = [MaxInputTokens, MaxOutputTokens, MaxTotalTokens]"

definition registry_service ::
  "QuotaDomainGroup \<Rightarrow> QuotaRateKind list option \<Rightarrow> QuotaUnit option \<Rightarrow> per_request_field list option \<Rightarrow> QuotaDomainSpec" where
  "registry_service grp kinds unit perReq =
     \<lparr>spec_group = grp, spec_rateKinds = nullish kinds [RRequests], spec_unit = unit, spec_perRequest = nullish perReq [],
      spec_resourceCaps = False, spec_budget = False, spec_globalFallback = False, spec_enforced = True\<rparr>"

definition modelService :: QuotaDomainSpec where
  "modelService =
     \<lparr>spec_group = GModel, spec_rateKinds = [RRequests], spec_unit = None, spec_perRequest = [], spec_resourceCaps = False,
      spec_budget = True, spec_globalFallback = True, spec_enforced = True\<rparr>"

definition older_service :: "QuotaDomainGroup \<Rightarrow> QuotaRateKind list \<Rightarrow> per_request_field list \<Rightarrow> QuotaDomainSpec" where
  "older_service grp kinds perReq =
     \<lparr>spec_group = grp, spec_rateKinds = kinds, spec_unit = None, spec_perRequest = perReq, spec_resourceCaps = True,
      spec_budget = True, spec_globalFallback = True, spec_enforced = True\<rparr>"

fun QUOTA_DOMAIN_SPECS :: "QuotaDomain \<Rightarrow> QuotaDomainSpec" where
  "QUOTA_DOMAIN_SPECS DGlobal = older_service GPlatform [RRequests, RTokens, RVectors, RFiles, RStorage]
     (MODEL_TOKENS @ [MaxVectorsPerUpsert, MaxQueryResults, MaxFileSize, MaxFilesPerRequest, MaxEventsPerSession, MaxSessionDurationMs])"
| "QUOTA_DOMAIN_SPECS DLlm = older_service GModel [RRequests, RTokens] MODEL_TOKENS"
| "QUOTA_DOMAIN_SPECS DEmbedding = older_service GModel [RRequests, RTokens] MODEL_TOKENS"
| "QUOTA_DOMAIN_SPECS DImage = modelService"
| "QUOTA_DOMAIN_SPECS DStt = modelService"
| "QUOTA_DOMAIN_SPECS DTts = modelService"
| "QUOTA_DOMAIN_SPECS DOcr = modelService"
| "QUOTA_DOMAIN_SPECS DDecision = modelService"
| "QUOTA_DOMAIN_SPECS DModeration = modelService\<lparr>spec_budget := False\<rparr>"
| "QUOTA_DOMAIN_SPECS DVector = older_service GData [RRequests, RVectors] [MaxVectorsPerUpsert, MaxQueryResults]"
| "QUOTA_DOMAIN_SPECS DFile = older_service GData [RRequests, RFiles, RStorage] [MaxFileSize, MaxFilesPerRequest]"
| "QUOTA_DOMAIN_SPECS DTracing = older_service GPlatform [RRequests] [MaxEventsPerSession, MaxSessionDurationMs]"
| "QUOTA_DOMAIN_SPECS DAgent =
     \<lparr>spec_group = GRuntime, spec_rateKinds = [RRequests, RTokens], spec_unit = None, spec_perRequest = [], spec_resourceCaps = False,
      spec_budget = False, spec_globalFallback = False, spec_enforced = True\<rparr>"
| "QUOTA_DOMAIN_SPECS DRag = registry_service GData (Some [RRequests, RUnits]) (Some UDocument) None"
| "QUOTA_DOMAIN_SPECS DMemory = registry_service GData None None None"
| "QUOTA_DOMAIN_SPECS DWebsearch = registry_service GTool None None None"
| "QUOTA_DOMAIN_SPECS DMcp = registry_service GTool None None None"
| "QUOTA_DOMAIN_SPECS DRerank = registry_service GTool (Some [RRequests, RUnits]) (Some UDocument) None"
| "QUOTA_DOMAIN_SPECS DBrowser = registry_service GTool None None (Some [MaxConcurrentRequests])"
| "QUOTA_DOMAIN_SPECS DCrawler = registry_service GTool (Some [RRequests, RUnits]) (Some UPage) None"
| "QUOTA_DOMAIN_SPECS DGuardrail = registry_service GTool None None None"
| "QUOTA_DOMAIN_SPECS DJobs = registry_service GRuntime None None None"
| "QUOTA_DOMAIN_SPECS DSandbox =
     (registry_service GRuntime (Some [RRequests, RUnits]) (Some UMinute) (Some [MaxConcurrentRequests]))\<lparr>spec_enforced := False\<rparr>"

definition quotaDomainSpec :: "QuotaDomain \<Rightarrow> QuotaDomainSpec" where
  "quotaDomainSpec d = QUOTA_DOMAIN_SPECS d"

definition domainFallsBackToGlobal :: "QuotaDomain \<Rightarrow> bool" where
  "domainFallsBackToGlobal d \<longleftrightarrow> d \<noteq> DGlobal \<and> spec_globalFallback (quotaDomainSpec d)"

section \<open>Targets\<close>

datatype QuotaTargetNoun = NModel | NVectorIndex | NFileBucket | NAgent | NAgentName | NProvider | NResource

datatype value_field = KeyField | NameField

record QuotaTargetSource =
  src_id :: string
  src_scope :: QuotaScope
  src_types :: "string list"
  src_attributes :: "(string \<times> string list) list"
  src_valueField :: value_field
  src_allowsUnregistered :: bool
  src_neverApplies :: bool
  src_noun :: QuotaTargetNoun

definition MODEL_SERVICES :: "QuotaDomain set" where
  "MODEL_SERVICES = {DLlm, DEmbedding, DImage, DStt, DTts, DOcr, DDecision, DModeration}"

fun REGISTRY_TARGETS :: "QuotaDomain \<Rightarrow> (string list \<times> (string \<times> string list) list) option" where
  "REGISTRY_TARGETS DWebsearch = Some ([''provider''], [(''type'', [''websearch''])])"
| "REGISTRY_TARGETS DRag = Some ([''rag-module''], [])"
| "REGISTRY_TARGETS DMcp = Some ([''mcp-server''], [])"
| "REGISTRY_TARGETS DRerank = Some ([''reranker''], [])"
| "REGISTRY_TARGETS DMemory = Some ([''memory-store''], [])"
| "REGISTRY_TARGETS DBrowser = Some ([''browser''], [])"
| "REGISTRY_TARGETS DCrawler = Some ([''crawler''], [])"
| "REGISTRY_TARGETS DGuardrail = Some ([''guardrail''], [])"
| "REGISTRY_TARGETS DSandbox = Some ([''sandbox-template''], [])"
| "REGISTRY_TARGETS d = None"

fun REPORTED_PROVIDER_TYPES :: "QuotaDomain \<Rightarrow> string list option" where
  "REPORTED_PROVIDER_TYPES DVector = Some [''vector'']"
| "REPORTED_PROVIDER_TYPES DFile = Some [''file'']"
| "REPORTED_PROVIDER_TYPES DGlobal = Some [''vector'', ''file'']"
| "REPORTED_PROVIDER_TYPES d = None"

definition resource_common :: "string \<Rightarrow> string list \<Rightarrow> (string \<times> string list) list \<Rightarrow> QuotaTargetNoun \<Rightarrow> QuotaTargetSource" where
  "resource_common i types attrs noun =
     \<lparr>src_id = i, src_scope = ScopeResource, src_types = types, src_attributes = attrs, src_valueField = KeyField,
      src_allowsUnregistered = False, src_neverApplies = False, src_noun = noun\<rparr>"

definition resourceSource :: "QuotaDomain \<Rightarrow> QuotaTargetSource" where
  "resourceSource d =
     (if d \<in> MODEL_SERVICES then
        resource_common (''model:'' @ domain_name d) [''model''] [(''category'', [domain_name d])] NModel
      else case REGISTRY_TARGETS d of
        Some (types, attrs) \<Rightarrow> resource_common (''registry:'' @ domain_name d) types attrs NResource
      | None \<Rightarrow>
          (case d of
             DJobs \<Rightarrow> (resource_common ''job-kind'' [] [] NResource)\<lparr>src_allowsUnregistered := True\<rparr>
           | DVector \<Rightarrow> resource_common ''vector-index'' [''vector-index''] [] NVectorIndex
           | DFile \<Rightarrow> resource_common ''file-bucket'' [''file-bucket''] [] NFileBucket
           | DAgent \<Rightarrow> resource_common ''agent:key'' [''agent''] [] NAgent
           | DTracing \<Rightarrow> (resource_common ''agent:name'' [''agent''] [] NAgentName)
                           \<lparr>src_valueField := NameField, src_allowsUnregistered := True\<rparr>
           | _ \<Rightarrow> resource_common ''global'' [''model'', ''vector-index'', ''file-bucket''] [] NResource))"

definition providerSource :: "QuotaDomain \<Rightarrow> QuotaTargetSource" where
  "providerSource d =
     (case REPORTED_PROVIDER_TYPES d of
        Some types \<Rightarrow>
          \<lparr>src_id = ''provider:'' @ js_join ''+'' types, src_scope = ScopeProvider, src_types = [''provider''],
           src_attributes = [(''type'', types)], src_valueField = KeyField, src_allowsUnregistered = False,
           src_neverApplies = False, src_noun = NProvider\<rparr>
      | None \<Rightarrow>
          \<lparr>src_id = ''provider:any'', src_scope = ScopeProvider, src_types = [''provider''], src_attributes = [],
           src_valueField = KeyField, src_allowsUnregistered = False, src_neverApplies = True, src_noun = NProvider\<rparr>)"

definition quotaTargetSource :: "QuotaDomain \<Rightarrow> QuotaScope \<Rightarrow> QuotaTargetSource option" where
  "quotaTargetSource d sc =
     (if sc = ScopeResource then Some (resourceSource d)
      else if sc = ScopeProvider then Some (providerSource d) else None)"

definition isSameTargetKind :: "QuotaScope \<Rightarrow> QuotaDomain \<Rightarrow> QuotaDomain \<Rightarrow> bool" where
  "isSameTargetKind sc a b \<longleftrightarrow>
     map_option src_id (quotaTargetSource a sc) = map_option src_id (quotaTargetSource b sc)"

text \<open>Resource targets of different services are never interchangeable.\<close>

lemma resource_target_kinds_differ: "isSameTargetKind ScopeResource a b \<longleftrightarrow> a = b"
  by (cases a; cases b)
     (simp_all add: isSameTargetKind_def quotaTargetSource_def resourceSource_def MODEL_SERVICES_def resource_common_def)

lemma domain_name_inject: "domain_name a = domain_name b \<longleftrightarrow> a = b"
  by (cases a; cases b) simp_all

lemma domain_name_no_colon: "CHR '':'' \<notin> set (domain_name d)"
  by (cases d) simp_all

text \<open>Only the services that predate the registry are reached by \<^verbatim>\<open>global\<close> policies.\<close>

lemma global_reaches:
  "domainFallsBackToGlobal d \<longleftrightarrow>
   d \<in> {DLlm, DEmbedding, DVector, DFile, DTracing, DStt, DTts, DOcr, DImage, DModeration, DDecision}"
  by (cases d) (simp_all add: domainFallsBackToGlobal_def quotaDomainSpec_def older_service_def modelService_def registry_service_def)

end
