(* ===== verification/QuotaGuard.thy ===== *)
theory QuotaGuard
  imports QuotaTypes IpAllowlist MemoryCache
begin

text \<open>
  The quota guard: \<^verbatim>\<open>src/lib/quota/quotaGuard.ts\<close> with \<^verbatim>\<open>ipScope.ts\<close>, \<^verbatim>\<open>serviceQuota.ts\<close> and \<^verbatim>\<open>shadowLlmQuota.ts\<close>.

  \<^item> \<open>resolveLimits\<close> is the decision which limits and which counters apply to a caller, from the license defaults, the
    stored policies, the caller's groups and address. What it loads (\<open>fetchPolicies\<close>, \<open>loadPolicySource\<close>,
    \<open>callerGroupIds\<close>) are functions of what the database answers and of the caches.
  \<^item> The checks (\<open>checkRateLimit\<close>, \<open>checkBudget\<close>, \<open>checkResourceQuota\<close>, \<open>checkPerRequestLimits\<close>, \<open>checkConcurrency\<close>) are functions
    of the resolved limits. Counters are reached through \<open>incrementRateLimitCounter\<close>, over the database counter or the
    in-memory one; an increment that throws is \<^const>\<open>None\<close>. The increments of one check run in the order of the list, at one instant.
  \<^item> A refusal carries a structured reason instead of a formatted message, and reasons keep their order.
\<close>

section \<open>Addresses\<close>

definition INVALID_ADDRESS_KEY :: string where
  "INVALID_ADDRESS_KEY = ''invalid''"

definition IPV6_CLIENT_GROUPS :: nat where
  "IPV6_CLIENT_GROUPS = 4"

definition quotaAddressKey :: "ParsedIp option \<Rightarrow> string" where
  "quotaAddressKey ip =
     (case ip of
        None \<Rightarrow> INVALID_ADDRESS_KEY
      | Some a \<Rightarrow>
          if family a = Fam4 then js_join ''.'' (map (to_radix 10) (parts a))
          else js_join '':'' (map (to_radix 16) (take IPV6_CLIENT_GROUPS (parts a))) @ ''::/64'')"

definition PARSED_MAX :: nat where
  "PARSED_MAX = 512"

definition parsedRanges :: "range_cache \<Rightarrow> string list \<Rightarrow> ParsedCidr list \<times> range_cache" where
  "parsedRanges cache ranges = memo_parse PARSED_MAX cache ranges"

definition addressMatchesRanges :: "range_cache \<Rightarrow> ParsedIp option \<Rightarrow> string list option \<Rightarrow> bool \<times> range_cache" where
  "addressMatchesRanges cache ip ranges =
     (case ranges of
        None \<Rightarrow> (False, cache)
      | Some rs \<Rightarrow>
          if rs = [] then (False, cache)
          else
            let (parsed, cache') = parsedRanges cache rs
            in (case ip of
                  None \<Rightarrow> list_ex (\<lambda>r. prefix r = 0) parsed
                | Some a \<Rightarrow> list_ex (ipMatchesRange a) parsed, cache'))"

datatype QuotaIpRangesResult = QuotaRangesOk "string list" | QuotaRangesBad string "IpRangeIssueDetail list"

text \<open>\<^verbatim>\<open>String.replace\<close> with a text replaces the first occurrence.\<close>

fun replace_first :: "string \<Rightarrow> string \<Rightarrow> string \<Rightarrow> string" where
  "replace_first pat rep [] = []"
| "replace_first pat rep (c # s) =
     (if take (length pat) (c # s) = pat then rep @ drop (length pat) (c # s) else c # replace_first pat rep s)"

definition validateQuotaIpRanges :: "submitted \<Rightarrow> QuotaIpRangesResult" where
  "validateQuotaIpRanges input =
     (if (case input of SubmittedArray items \<Rightarrow> length items > MAX_QUOTA_IP_RANGES | _ \<Rightarrow> False)
      then QuotaRangesBad (''At most '' @ to_radix 10 MAX_QUOTA_IP_RANGES @ '' IP ranges are allowed per limit'') []
      else case validateAllowedIpRanges input of
             RangesBad msg issues \<Rightarrow> QuotaRangesBad (replace_first ''allowedIpRanges'' ''ipRanges'' msg) issues
           | RangesOk ranges \<Rightarrow>
               (case ranges of
                  None \<Rightarrow> QuotaRangesBad ''An IP limit needs at least one range in ipRanges'' []
                | Some rs \<Rightarrow>
                    if rs = [] then QuotaRangesBad ''An IP limit needs at least one range in ipRanges'' []
                    else QuotaRangesOk rs))"

section \<open>The caller and the policies\<close>

record QuotaContext =
  ctx_tenantDbName :: string
  ctx_tenantId :: string
  ctx_projectId :: string
  ctx_userId :: "string option"
  ctx_tokenId :: "string option"
  ctx_groupIds :: "string list option"
  ctx_domain :: QuotaDomain
  ctx_resourceKey :: "string option"
  ctx_providerKey :: "string option"
  ctx_clientIp :: "string option"

text \<open>The tenant-wide policies a project reads besides its own.\<close>

definition fetchPolicies :: "QuotaPolicy list \<Rightarrow> QuotaPolicy list \<Rightarrow> QuotaPolicy list" where
  "fetchPolicies projectPolicies tenantWide =
     (let known = set (map pol_id projectPolicies);
          applicable = filter (\<lambda>p. isTenantWideKind p \<and> pol_id p \<notin> known) tenantWide
      in if applicable = [] then projectPolicies else projectPolicies @ applicable)"

record ClientAddress =
  client_ip :: "ParsedIp option"
  client_key :: string

text \<open>The address comes from the context, else from the request context; an empty one counts as none.\<close>

definition clientAddressOf :: "string option \<Rightarrow> QuotaContext \<Rightarrow> ClientAddress option" where
  "clientAddressOf requestIp ctx =
     (case opt_or (ctx_clientIp ctx) requestIp of
        None \<Rightarrow> None
      | Some raw \<Rightarrow>
          if raw = [] then None
          else Some \<lparr>client_ip = parseClientIp (Some raw), client_key = quotaAddressKey (parseClientIp (Some raw))\<rparr>)"

definition matchesScope ::
  "range_cache \<Rightarrow> QuotaPolicy \<Rightarrow> QuotaContext \<Rightarrow> string list \<Rightarrow> ClientAddress option \<Rightarrow> bool \<times> range_cache" where
  "matchesScope cache p ctx groupIds client =
     (if \<not> pol_enabled p then (False, cache)
      else case pol_scope p of
        ScopeTenant \<Rightarrow> (True, cache)
      | ScopeGroup \<Rightarrow> (case pol_scopeId p of Given g \<Rightarrow> g \<in> set groupIds | _ \<Rightarrow> False, cache)
      | ScopeUser \<Rightarrow> (scope_id_is (pol_scopeId p) (ctx_userId ctx), cache)
      | ScopeToken \<Rightarrow> (scope_id_is (pol_scopeId p) (ctx_tokenId ctx), cache)
      | ScopeResource \<Rightarrow> (scope_id_is (pol_scopeId p) (ctx_resourceKey ctx), cache)
      | ScopeProvider \<Rightarrow> (scope_id_is (pol_scopeId p) (ctx_providerKey ctx), cache)
      | ScopeIp \<Rightarrow>
          (case client of
             None \<Rightarrow> (False, cache)
           | Some c \<Rightarrow> addressMatchesRanges cache (client_ip c) (pol_ipRanges p)))"

definition matchesDomain :: "QuotaPolicy \<Rightarrow> QuotaContext \<Rightarrow> bool" where
  "matchesDomain p ctx =
     (if pol_domain p = DGlobal then ctx_domain ctx = DGlobal \<or> domainFallsBackToGlobal (ctx_domain ctx)
      else pol_domain p = ctx_domain ctx)"

fun matching_policies ::
  "range_cache \<Rightarrow> QuotaContext \<Rightarrow> string list \<Rightarrow> ClientAddress option \<Rightarrow> QuotaPolicy list \<Rightarrow> QuotaPolicy list \<times> range_cache" where
  "matching_policies cache ctx groupIds client [] = ([], cache)"
| "matching_policies cache ctx groupIds client (p # ps) =
     (let (m, cache') = matchesScope cache p ctx groupIds client;
          (rest, cache'') = matching_policies cache' ctx groupIds client ps
      in (if m \<and> matchesDomain p ctx then p # rest else rest, cache''))"

section \<open>Merging limits\<close>

definition over :: "('f \<Rightarrow> jsnum option) \<Rightarrow> ('f \<Rightarrow> jsnum option) \<Rightarrow> 'f \<Rightarrow> jsnum option" where
  "over new old f = opt_or (new f) (old f)"

definition merge_section :: "('f \<Rightarrow> jsnum option) option \<Rightarrow> ('f \<Rightarrow> jsnum option) option \<Rightarrow> ('f \<Rightarrow> jsnum option) option" where
  "merge_section old new =
     (case new of None \<Rightarrow> old | Some n \<Rightarrow> Some (over n (nullish old (\<lambda>f. None))))"

definition merge_rates :: "rate_limits option \<Rightarrow> rate_limits option \<Rightarrow> rate_limits option" where
  "merge_rates old new =
     (case new of None \<Rightarrow> old | Some n \<Rightarrow> Some (\<lambda>kind. over (n kind) (nullish old (\<lambda>kind w. None) kind)))"

definition merge_budget :: "QuotaBudget option \<Rightarrow> QuotaBudget option \<Rightarrow> QuotaBudget option" where
  "merge_budget old new =
     (case new of
        None \<Rightarrow> old
      | Some n \<Rightarrow>
          (case old of
             None \<Rightarrow> Some n
           | Some b \<Rightarrow> Some \<lparr>dailySpendLimit = opt_or (dailySpendLimit n) (dailySpendLimit b),
                             monthlySpendLimit = opt_or (monthlySpendLimit n) (monthlySpendLimit b),
                             alertThresholds = opt_or (alertThresholds n) (alertThresholds b)\<rparr>))"

definition mergeLimits :: "QuotaLimits \<Rightarrow> QuotaLimits \<Rightarrow> QuotaLimits" where
  "mergeLimits base override =
     \<lparr>lim_rateLimit = merge_rates (lim_rateLimit base) (lim_rateLimit override),
      lim_perRequest = merge_section (lim_perRequest base) (lim_perRequest override),
      lim_quotas = merge_section (lim_quotas base) (lim_quotas override),
      lim_budget = merge_budget (lim_budget base) (lim_budget override)\<rparr>"

fun SCOPE_SPECIFICITY :: "QuotaScope \<Rightarrow> nat" where
  "SCOPE_SPECIFICITY ScopeTenant = 0"
| "SCOPE_SPECIFICITY ScopeGroup = 1"
| "SCOPE_SPECIFICITY ScopeResource = 2"
| "SCOPE_SPECIFICITY ScopeProvider = 2"
| "SCOPE_SPECIFICITY ScopeUser = 3"
| "SCOPE_SPECIFICITY ScopeToken = 4"
| "SCOPE_SPECIFICITY ScopeIp = 0"

definition isSharedGroupPolicy :: "QuotaPolicy \<Rightarrow> bool" where
  "isSharedGroupPolicy p \<longleftrightarrow> pol_scope p = ScopeGroup \<and> pol_groupMode p = Some GroupShared"

definition statelessPart :: "QuotaLimits \<Rightarrow> QuotaLimits" where
  "statelessPart l = no_limits\<lparr>lim_perRequest := lim_perRequest l, lim_quotas := lim_quotas l\<rparr>"

definition statefulPart :: "QuotaLimits \<Rightarrow> QuotaLimits" where
  "statefulPart l = no_limits\<lparr>lim_rateLimit := lim_rateLimit l, lim_budget := lim_budget l\<rparr>"

definition merged_part :: "QuotaPolicy \<Rightarrow> QuotaLimits" where
  "merged_part p = (if isSharedGroupPolicy p then statelessPart (pol_limits p) else pol_limits p)"

definition mergePolicies :: "QuotaLimits \<Rightarrow> QuotaPolicy list \<Rightarrow> QuotaLimits" where
  "mergePolicies base ps = foldl (\<lambda>merged p. mergeLimits merged (merged_part p)) base ps"

section \<open>Tenant ceilings\<close>

text \<open>The numbers of a limits object by their path; thresholds are a list and not visited.\<close>

datatype limit_path =
    RatePath QuotaRateKind rate_window
  | PerRequestPath per_request_field
  | QuotaPath resource_cap
  | DailySpendPath
  | MonthlySpendPath

definition all_paths :: "limit_path list" where
  "all_paths =
     [RatePath k w. k \<leftarrow> [RRequests, RTokens, RVectors, RFiles, RStorage, RUnits], w \<leftarrow> [PerSecond, PerMinute, PerHour, PerDay, PerMonth]]
     @ map PerRequestPath [MaxInputTokens, MaxOutputTokens, MaxTotalTokens, MaxVectorsPerUpsert, MaxQueryResults, MaxDimensions,
         MaxFileSize, MaxFilesPerRequest, MaxEventsPerSession, MaxSessionDurationMs, MaxConcurrentRequests]
     @ map QuotaPath [MaxProjects, MaxModels, MaxVectorIndexes, MaxVectorsTotal, MaxFileBuckets, MaxStorageBytes, MaxFilesTotal,
         MaxTracingSessions, MaxTracingRetentionDays, MaxApiTokens, MaxUsers, MaxAgents, MaxAgentSyncTimeoutSeconds,
         MaxAgentBackgroundDurationMinutes, MaxConcurrentAgentRuns, MaxActiveAgentReminders, MaxAgentRemindersPerDay]
     @ [DailySpendPath, MonthlySpendPath]"

fun readPath :: "QuotaLimits \<Rightarrow> limit_path \<Rightarrow> jsnum option" where
  "readPath l (RatePath k w) = (case lim_rateLimit l of None \<Rightarrow> None | Some r \<Rightarrow> r k w)"
| "readPath l (PerRequestPath f) = (case lim_perRequest l of None \<Rightarrow> None | Some r \<Rightarrow> r f)"
| "readPath l (QuotaPath f) = (case lim_quotas l of None \<Rightarrow> None | Some r \<Rightarrow> r f)"
| "readPath l DailySpendPath = (case lim_budget l of None \<Rightarrow> None | Some b \<Rightarrow> dailySpendLimit b)"
| "readPath l MonthlySpendPath = (case lim_budget l of None \<Rightarrow> None | Some b \<Rightarrow> monthlySpendLimit b)"

definition numericLeaves :: "QuotaLimits \<Rightarrow> (limit_path \<times> jsnum) list" where
  "numericLeaves l = concat (map (\<lambda>p. case readPath l p of None \<Rightarrow> [] | Some v \<Rightarrow> [(p, v)]) all_paths)"

fun writePath :: "QuotaLimits \<Rightarrow> limit_path \<Rightarrow> jsnum \<Rightarrow> QuotaLimits" where
  "writePath l (RatePath k w) v = l\<lparr>lim_rateLimit := map_option (\<lambda>r. r(k := (r k)(w := Some v))) (lim_rateLimit l)\<rparr>"
| "writePath l (PerRequestPath f) v = l\<lparr>lim_perRequest := map_option (\<lambda>r. r(f := Some v)) (lim_perRequest l)\<rparr>"
| "writePath l (QuotaPath f) v = l\<lparr>lim_quotas := map_option (\<lambda>r. r(f := Some v)) (lim_quotas l)\<rparr>"
| "writePath l DailySpendPath v = l\<lparr>lim_budget := map_option (\<lambda>b. b\<lparr>dailySpendLimit := Some v\<rparr>) (lim_budget l)\<rparr>"
| "writePath l MonthlySpendPath v = l\<lparr>lim_budget := map_option (\<lambda>b. b\<lparr>monthlySpendLimit := Some v\<rparr>) (lim_budget l)\<rparr>"

definition clamp_leaf :: "QuotaLimits \<Rightarrow> QuotaLimits \<Rightarrow> limit_path \<times> jsnum \<Rightarrow> QuotaLimits \<Rightarrow> QuotaLimits" where
  "clamp_leaf withoutGroups ceilings leaf clamped =
     (let (path, value) = leaf in
      if readPath withoutGroups path = Some value then clamped
      else case readPath ceilings path of
             None \<Rightarrow> clamped
           | Some cap \<Rightarrow>
               if cap = -1 then clamped
               else if value = -1 \<or> value > cap then writePath clamped path cap else clamped)"

definition applyTenantCeilings :: "QuotaLimits \<Rightarrow> QuotaLimits \<Rightarrow> QuotaLimits \<Rightarrow> QuotaLimits" where
  "applyTenantCeilings merged withoutGroups ceilings =
     fold (clamp_leaf withoutGroups ceilings) (numericLeaves merged) merged"

section \<open>Counters that apply\<close>

record LimitBucket =
  b_id :: string
  b_limits :: QuotaLimits
  b_identity :: string
  b_provider :: bool
  b_resource :: bool
  b_reasonPrefix :: string

record ResolvedLimits =
  effective :: QuotaLimits
  buckets :: "LimitBucket list"

text \<open>An empty user or token id is falsy.\<close>

definition callerIdentity :: "QuotaContext \<Rightarrow> string" where
  "callerIdentity ctx =
     (case ctx_userId ctx of
        Some u \<Rightarrow> if u \<noteq> [] then ''user:'' @ u
                 else (case ctx_tokenId ctx of
                         Some t \<Rightarrow> if t \<noteq> [] then ''token:'' @ t else ''tenant:'' @ ctx_tenantId ctx
                       | None \<Rightarrow> ''tenant:'' @ ctx_tenantId ctx)
      | None \<Rightarrow>
          (case ctx_tokenId ctx of
             Some t \<Rightarrow> if t \<noteq> [] then ''token:'' @ t else ''tenant:'' @ ctx_tenantId ctx
           | None \<Rightarrow> ''tenant:'' @ ctx_tenantId ctx))"

definition subjectBucket :: "QuotaContext \<Rightarrow> QuotaLimits \<Rightarrow> LimitBucket" where
  "subjectBucket ctx limits =
     (let agent = (ctx_domain ctx = DAgent)
      in \<lparr>b_id = ''subject'', b_limits = limits, b_identity = callerIdentity ctx, b_provider = \<not> agent, b_resource = \<not> agent,
          b_reasonPrefix = ''Rate limit exceeded for''\<rparr>)"

definition rate_only :: "QuotaLimits \<Rightarrow> QuotaLimits" where
  "rate_only l = no_limits\<lparr>lim_rateLimit := lim_rateLimit l\<rparr>"

definition ipBuckets :: "QuotaPolicy list \<Rightarrow> ClientAddress \<Rightarrow> LimitBucket list" where
  "ipBuckets policies client =
     (let ordered = sort_key pol_priority policies;
          perAddress = filter (\<lambda>p. quotaIpMode p = Some IpPerAddress \<and> lim_rateLimit (pol_limits p) \<noteq> None) ordered;
          pools = filter (\<lambda>p. quotaIpMode p = Some IpShared \<and> lim_rateLimit (pol_limits p) \<noteq> None) ordered
      in (if perAddress = [] then []
          else [\<lparr>b_id = ''ip'', b_limits = foldl (\<lambda>acc p. mergeLimits acc (rate_only (pol_limits p))) no_limits perAddress,
                 b_identity = ''ip:'' @ client_key client, b_provider = False, b_resource = False,
                 b_reasonPrefix = ''IP rate limit exceeded for''\<rparr>])
         @ map (\<lambda>p. \<lparr>b_id = ''iprange:'' @ pol_id p, b_limits = rate_only (pol_limits p), b_identity = ''iprange:'' @ pol_id p,
                     b_provider = False, b_resource = False, b_reasonPrefix = ''IP range rate limit exceeded for''\<rparr>) pools)"

text \<open>The shared pools of groups, in the order their first policy comes.\<close>

definition add_pool :: "(string, QuotaPolicy list) jsmap \<Rightarrow> QuotaPolicy \<Rightarrow> (string, QuotaPolicy list) jsmap" where
  "add_pool pools p =
     (case pol_scopeId p of
        Given g \<Rightarrow>
          if \<not> isSharedGroupPolicy p \<or> g = [] then pools
          else map_set pools g (nullish (map_get pools g) [] @ [p])
      | _ \<Rightarrow> pools)"

definition groupBuckets :: "bool \<Rightarrow> QuotaPolicy list \<Rightarrow> LimitBucket list" where
  "groupBuckets agentDomain wide =
     concat (map (\<lambda>(groupId, members).
       let limits = foldl (\<lambda>acc p. mergeLimits acc (statefulPart (pol_limits p))) no_limits members
       in if lim_rateLimit limits = None \<and> lim_budget limits = None then []
          else [\<lparr>b_id = ''group:'' @ groupId, b_limits = limits, b_identity = ''group:'' @ groupId, b_provider = \<not> agentDomain,
                 b_resource = \<not> agentDomain, b_reasonPrefix = ''Group rate limit exceeded for''\<rparr>])
       (foldl add_pool [] wide))"

text \<open>The license defaults, copied.\<close>

definition limits_base :: "QuotaLimits \<Rightarrow> QuotaLimits" where
  "limits_base licenseDefaults = licenseDefaults\<lparr>lim_quotas := Some (nullish (lim_quotas licenseDefaults) (\<lambda>f. None))\<rparr>"

definition wide_limits :: "QuotaLimits \<Rightarrow> QuotaPolicy list \<Rightarrow> QuotaLimits" where
  "wide_limits base wide =
     (if list_ex (\<lambda>p. pol_scope p = ScopeGroup) wide
      then applyTenantCeilings (mergePolicies base wide)
             (mergePolicies base (filter (\<lambda>p. pol_scope p \<noteq> ScopeGroup) wide))
             (mergePolicies no_limits (filter (\<lambda>p. pol_scope p = ScopeTenant) wide))
      else mergePolicies base wide)"

text \<open>The policies that matched, in the order they are merged; of the agent domain those for one agent are apart.\<close>

definition applicable_policies :: "QuotaContext \<Rightarrow> QuotaPolicy list \<Rightarrow> QuotaPolicy list" where
  "applicable_policies ctx matching =
     (if ctx_domain ctx = DAgent \<or> list_ex (\<lambda>p. pol_scope p = ScopeGroup) matching
      then sort_key (\<lambda>p. (pol_priority p, SCOPE_SPECIFICITY (pol_scope p))) matching
      else sort_key pol_priority matching)"

definition narrowed_policies :: "QuotaContext \<Rightarrow> QuotaPolicy list \<Rightarrow> QuotaPolicy list" where
  "narrowed_policies ctx matching =
     (if ctx_domain ctx = DAgent then filter (\<lambda>p. pol_scope p = ScopeResource) (applicable_policies ctx matching) else [])"

definition wide_policies :: "QuotaContext \<Rightarrow> QuotaPolicy list \<Rightarrow> QuotaPolicy list" where
  "wide_policies ctx matching =
     (if ctx_domain ctx = DAgent then filter (\<lambda>p. pol_scope p \<noteq> ScopeResource) (applicable_policies ctx matching)
      else applicable_policies ctx matching)"

text \<open>The limits of the policies that matched, address policies left out.\<close>

definition resolve_matching :: "QuotaContext \<Rightarrow> QuotaLimits \<Rightarrow> QuotaPolicy list \<Rightarrow> ResolvedLimits" where
  "resolve_matching ctx base matching =
     (if ctx_domain ctx \<noteq> DAgent \<and> \<not> list_ex (\<lambda>p. pol_scope p = ScopeGroup) matching then
        (let eff = mergePolicies base (applicable_policies ctx matching)
         in \<lparr>effective = eff, buckets = [subjectBucket ctx eff]\<rparr>)
      else
        let agentDomain = (ctx_domain ctx = DAgent);
            narrowed = narrowed_policies ctx matching;
            wide = wide_policies ctx matching;
            wideLimits = wide_limits base wide;
            narrowedLimits = mergePolicies no_limits narrowed
        in \<lparr>effective = (if narrowed = [] then wideLimits else mergeLimits wideLimits narrowedLimits),
            buckets = [subjectBucket ctx wideLimits]
              @ (if narrowed = [] then []
                 else [\<lparr>b_id = ''resource'', b_limits = narrowedLimits, b_identity = callerIdentity ctx, b_provider = False,
                        b_resource = True, b_reasonPrefix = ''Agent rate limit exceeded for''\<rparr>])
              @ groupBuckets agentDomain wide\<rparr>)"

text \<open>An address is read only when an enabled address policy exists.\<close>

definition client_for :: "string option \<Rightarrow> QuotaContext \<Rightarrow> QuotaPolicy list \<Rightarrow> ClientAddress option" where
  "client_for requestIp ctx policies =
     (if list_ex (\<lambda>p. pol_enabled p \<and> pol_scope p = ScopeIp) policies then clientAddressOf requestIp ctx else None)"

definition resolve_loaded ::
  "range_cache \<Rightarrow> string option \<Rightarrow> QuotaContext \<Rightarrow> QuotaLimits \<Rightarrow> QuotaPolicy list \<Rightarrow> string list \<Rightarrow> ResolvedLimits \<times> range_cache" where
  "resolve_loaded cache requestIp ctx licenseDefaults policies groupIds =
     (let client = client_for requestIp ctx policies;
          (matchingAll, cache') = matching_policies cache ctx groupIds client policies;
          ipPolicies = filter (\<lambda>p. pol_scope p = ScopeIp) matchingAll;
          matching = filter (\<lambda>p. pol_scope p \<noteq> ScopeIp) matchingAll;
          resolved = resolve_matching ctx (limits_base licenseDefaults) matching
      in (case client of
            None \<Rightarrow> resolved
          | Some c \<Rightarrow> if ipPolicies = [] then resolved else resolved\<lparr>buckets := buckets resolved @ ipBuckets ipPolicies c\<rparr>,
          cache'))"

section \<open>Reading merged limits\<close>

lemma readPath_no_limits [simp]: "readPath no_limits path = None"
  by (cases path) (simp_all add: no_limits_def)

lemma readPath_mergeLimits [simp, limit_simps]:
  "readPath (mergeLimits base override) path = opt_or (readPath override path) (readPath base path)"
  by (cases path)
     (auto simp: mergeLimits_def merge_rates_def merge_section_def merge_budget_def over_def opt_or_def
        split: option.splits)

lemma readPath_writePath:
  "readPath (writePath l path v) path' =
     (if path' = path \<and> (case path of
          RatePath k w \<Rightarrow> lim_rateLimit l \<noteq> None | PerRequestPath f \<Rightarrow> lim_perRequest l \<noteq> None
        | QuotaPath f \<Rightarrow> lim_quotas l \<noteq> None | _ \<Rightarrow> lim_budget l \<noteq> None)
      then Some v else readPath l path')"
  by (cases path; cases path') (auto split: option.splits)

lemma readPath_writePath_present:
  "readPath l path \<noteq> None \<Longrightarrow> readPath (writePath l path v) path' = (if path' = path then Some v else readPath l path')"
  by (auto simp: readPath_writePath split: limit_path.splits option.splits)

text \<open>A value that a list of policies gives a field: the last policy that sets it decides.\<close>

definition deciding :: "limit_path \<Rightarrow> QuotaPolicy list \<Rightarrow> QuotaPolicy option" where
  "deciding path ps = find (\<lambda>p. readPath (merged_part p) path \<noteq> None) (rev ps)"

lemma readPath_mergePolicies [limit_simps]:
  "readPath (mergePolicies base ps) path =
     (case deciding path ps of None \<Rightarrow> readPath base path | Some p \<Rightarrow> readPath (merged_part p) path)"
  by (induction ps rule: rev_induct)
     (auto simp: mergePolicies_def deciding_def split: option.splits)

lemma all_paths_distinct: "distinct all_paths"
  by (simp add: all_paths_def)

lemma all_paths_all: "path \<in> set all_paths"
proof (cases path)
  case (RatePath k w)
  then show ?thesis by (cases k; cases w) (simp_all add: all_paths_def)
next
  case (PerRequestPath f)
  then show ?thesis by (cases f) (simp_all add: all_paths_def)
next
  case (QuotaPath f)
  then show ?thesis by (cases f) (simp_all add: all_paths_def)
qed (simp_all add: all_paths_def)

section \<open>Ceilings\<close>

text \<open>What becomes of one field: what a group changed is held to the tenant's value.\<close>

definition ceiling_of :: "jsnum option \<Rightarrow> jsnum option \<Rightarrow> jsnum option \<Rightarrow> jsnum option" where
  "ceiling_of merged without tenant =
     (case merged of
        None \<Rightarrow> None
      | Some v \<Rightarrow>
          if without = Some v then Some v
          else case tenant of
                 None \<Rightarrow> Some v
               | Some c \<Rightarrow> if c \<noteq> -1 \<and> (v = -1 \<or> v > c) then Some c else Some v)"

lemma readPath_clamp_leaf:
  assumes "readPath clamped path = Some v"
  shows "readPath (clamp_leaf wg cs (path, v) clamped) path' =
     (if path' = path then ceiling_of (Some v) (readPath wg path) (readPath cs path) else readPath clamped path')"
  using assms by (auto simp: clamp_leaf_def ceiling_of_def readPath_writePath_present split: option.splits)

definition leaf_of :: "QuotaLimits \<Rightarrow> limit_path \<Rightarrow> (limit_path \<times> jsnum) list" where
  "leaf_of l p = (case readPath l p of None \<Rightarrow> [] | Some v \<Rightarrow> [(p, v)])"

lemma clamp_leaves:
  assumes "distinct ps" and "\<And>p. p \<in> set ps \<Longrightarrow> readPath l p = readPath m p"
  shows "readPath (fold (clamp_leaf wg cs) (concat (map (leaf_of m) ps)) l) path =
     (if path \<in> set ps then ceiling_of (readPath m path) (readPath wg path) (readPath cs path) else readPath l path)"
  using assms
proof (induction ps arbitrary: l)
  case (Cons p ps)
  show ?case
  proof (cases "readPath m p")
    case None
    then have "leaf_of m p = []" by (simp add: leaf_of_def)
    then show ?thesis using Cons None by (auto simp: ceiling_of_def)
  next
    case (Some v)
    let ?l = "clamp_leaf wg cs (p, v) l"
    have read: "readPath ?l p' = (if p' = p then ceiling_of (Some v) (readPath wg p) (readPath cs p) else readPath l p')" for p'
      using Cons.prems(2) [of p] Some by (simp add: readPath_clamp_leaf)
    have leaf: "leaf_of m p = [(p, v)]" using Some by (simp add: leaf_of_def)
    have "\<And>q. q \<in> set ps \<Longrightarrow> readPath ?l q = readPath m q"
      using Cons.prems by (auto simp: read)
    then show ?thesis
      using Cons.IH [of ?l] Cons.prems(1) Some by (auto simp: read leaf)
  qed
qed simp

lemma readPath_applyTenantCeilings [limit_simps]:
  "readPath (applyTenantCeilings merged without ceilings) path =
     ceiling_of (readPath merged path) (readPath without path) (readPath ceilings path)"
  using clamp_leaves [OF all_paths_distinct, of merged merged without ceilings path]
  by (simp add: applyTenantCeilings_def numericLeaves_def leaf_of_def all_paths_all cong: map_cong)

section \<open>Which policy decides\<close>


lemma set_applicable [simp]: "set (applicable_policies ctx matching) = set matching"
  by (simp add: applicable_policies_def)



lemma subject_limits: "b_limits (hd (buckets (resolve_matching ctx base matching))) = wide_limits base (wide_policies ctx matching)"
proof -
  have "list_ex (\<lambda>p. pol_scope p = ScopeGroup) (applicable_policies ctx matching)
      \<longleftrightarrow> list_ex (\<lambda>p. pol_scope p = ScopeGroup) matching"
    by (simp add: list_ex_iff)
  then show ?thesis
    by (simp add: resolve_matching_def Let_def subjectBucket_def wide_policies_def wide_limits_def)
qed



definition sample_context :: QuotaContext where
  "sample_context =
     \<lparr>ctx_tenantDbName = ''t'', ctx_tenantId = ''t1'', ctx_projectId = ''p'', ctx_userId = Some ''u'', ctx_tokenId = None,
      ctx_groupIds = Some [''g''], ctx_domain = DLlm, ctx_resourceKey = None, ctx_providerKey = None,
      ctx_clientIp = Some ''10.0.0.1''\<rparr>"

definition sample_policy :: "string \<Rightarrow> QuotaScope \<Rightarrow> scope_id \<Rightarrow> jsnum \<Rightarrow> jsnum \<Rightarrow> QuotaPolicy" where
  "sample_policy i sc target priority perMinute =
     \<lparr>pol_id = i, pol_tenantId = ''t1'', pol_projectId = Some ''p'', pol_scope = sc, pol_scopeId = target, pol_groupMode = None,
      pol_ipRanges = None, pol_ipMode = None, pol_domain = DLlm, pol_priority = priority,
      pol_limits = no_limits\<lparr>lim_rateLimit := Some (\<lambda>k w. if k = RRequests \<and> w = PerMinute then Some perMinute else None)\<rparr>,
      pol_enabled = True, pol_createdAt = 0\<rparr>"

lemma sample_policy_simps [simp]:
  "pol_scope (sample_policy i sc target priority n) = sc"
  "pol_priority (sample_policy i sc target priority n) = priority"
  "pol_limits (sample_policy i sc target priority n) =
     no_limits\<lparr>lim_rateLimit := Some (\<lambda>k w. if k = RRequests \<and> w = PerMinute then Some n else None)\<rparr>"
  "merged_part (sample_policy i sc target priority n) = pol_limits (sample_policy i sc target priority n)"
  by (simp_all add: sample_policy_def merged_part_def isSharedGroupPolicy_def)

lemma sample_policy_reads [simp]:
  "readPath (no_limits\<lparr>lim_rateLimit := Some (\<lambda>k w. if k = RRequests \<and> w = PerMinute then Some n else None)\<rparr>)
     (RatePath RRequests PerMinute) = Some n"
  by simp

definition sample_policies :: "QuotaPolicy list" where
  "sample_policies =
     [sample_policy ''a'' ScopeTenant Undefined 0 10, sample_policy ''b'' ScopeGroup (Given ''g'') 0 50]"


text \<open>
  C31: Tenant policies are ceilings for what groups add to a caller's own limits. When the tenant's policies set a finite limit
  for a field, the limit of the caller's own counter is a number within it, or it is the very value the caller would have
  without any group policy. The pools that the members of a group share are counters of their own and are not capped.
\<close>

theorem group_limits_stay_under_tenant_ceiling:
  assumes "readPath (mergePolicies no_limits (filter (\<lambda>p. pol_scope p = ScopeTenant) (wide_policies ctx matching))) path = Some cap"
    and "cap \<noteq> -1"
    and "readPath (b_limits (hd (buckets (resolve_matching ctx base matching)))) path = Some v"
  shows "v \<noteq> -1 \<and> v \<le> cap
     \<or> readPath (mergePolicies base (filter (\<lambda>p. pol_scope p \<noteq> ScopeGroup) (wide_policies ctx matching))) path = Some v"
proof (cases "list_ex (\<lambda>p. pol_scope p = ScopeGroup) (wide_policies ctx matching)")
  case True
  then have "ceiling_of (readPath (mergePolicies base (wide_policies ctx matching)) path)
      (readPath (mergePolicies base (filter (\<lambda>p. pol_scope p \<noteq> ScopeGroup) (wide_policies ctx matching))) path) (Some cap) = Some v"
    using assms(1,3) by (simp add: subject_limits wide_limits_def readPath_applyTenantCeilings)
  then show ?thesis
    using assms(2) by (auto simp: ceiling_of_def split: option.splits if_splits)
next
  case False
  then have "filter (\<lambda>p. pol_scope p \<noteq> ScopeGroup) (wide_policies ctx matching) = wide_policies ctx matching"
    by (auto simp: list_ex_iff intro: filter_True)
  then show ?thesis using assms(3) False by (simp add: subject_limits wide_limits_def)
qed

theorem group_limits_stay_under_tenant_ceiling_witness:
  "(10 :: jsnum) \<noteq> -1 \<and> (10 :: jsnum) \<le> 10
     \<or> readPath (mergePolicies no_limits (filter (\<lambda>p. pol_scope p \<noteq> ScopeGroup) (wide_policies sample_context sample_policies)))
         (RatePath RRequests PerMinute) = Some 10"
  by (rule group_limits_stay_under_tenant_ceiling [where ctx = sample_context and matching = sample_policies])
     (simp_all add: subject_limits wide_policies_def applicable_policies_def wide_limits_def limit_simps ceiling_of_def
        deciding_def sample_context_def sample_policies_def del: readPath.simps)

section \<open>Address limits stay apart\<close>

lemma matchesScope_not_ip:
  "pol_scope p \<noteq> ScopeIp \<Longrightarrow> matchesScope cache p ctx gs client = (fst (matchesScope [] p ctx gs None), cache)"
  by (cases "pol_scope p") (simp_all add: matchesScope_def)

lemma matching_policies_not_ip:
  "filter (\<lambda>p. pol_scope p \<noteq> ScopeIp) (fst (matching_policies cache ctx gs client ps)) =
   fst (matching_policies cache' ctx gs client' (filter (\<lambda>p. pol_scope p \<noteq> ScopeIp) ps))"
proof (induction ps arbitrary: cache cache')
  case (Cons p ps)
  show ?case
  proof (cases "pol_scope p = ScopeIp")
    case True
    then show ?thesis
      using Cons.IH [of "snd (matchesScope cache p ctx gs client)" cache'] by (simp add: split_beta)
  next
    case False
    have "matchesScope cache p ctx gs client = (fst (matchesScope [] p ctx gs None), cache)"
      "matchesScope cache' p ctx gs client' = (fst (matchesScope [] p ctx gs None), cache')"
      using False by (rule matchesScope_not_ip)+
    then show ?thesis
      using False Cons.IH [of cache cache'] by (simp add: split_beta)
  qed
qed simp

lemma merge_rate_only:
  "statelessPart (foldl (\<lambda>acc p. mergeLimits acc (rate_only (pol_limits p))) l ps) = statelessPart l
   \<and> lim_budget (foldl (\<lambda>acc p. mergeLimits acc (rate_only (pol_limits p))) l ps) = lim_budget l"
  by (induction ps arbitrary: l)
     (simp_all add: statelessPart_def mergeLimits_def rate_only_def no_limits_def merge_section_def merge_budget_def)

lemma ipBuckets_rate_only:
  "list_all (\<lambda>b. statelessPart (b_limits b) = no_limits \<and> lim_budget (b_limits b) = None) (ipBuckets ps c)"
proof -
  have "statelessPart no_limits = no_limits" "lim_budget no_limits = None"
    "statelessPart (rate_only l) = no_limits" "lim_budget (rate_only l) = None" for l
    by (simp_all add: statelessPart_def no_limits_def rate_only_def)
  then show ?thesis
    by (simp add: ipBuckets_def Let_def merge_rate_only list_all_iff)
qed

text \<open>
  Limits on addresses never touch the others. Whatever the address policies of a tenant say and whatever ranges were
  parsed before, the effective limits are those of the same tenant without its address policies, and so are the
  counters, in the same order; counters of address policies only come behind them, and carry nothing but rate limits.
\<close>

theorem ip_policies_stay_apart:
  "\<exists>extra. effective (fst (resolve_loaded cache requestIp ctx defaults policies gs))
       = effective (fst (resolve_loaded cache' requestIp ctx defaults (filter (\<lambda>p. pol_scope p \<noteq> ScopeIp) policies) gs))
     \<and> buckets (fst (resolve_loaded cache requestIp ctx defaults policies gs))
       = buckets (fst (resolve_loaded cache' requestIp ctx defaults (filter (\<lambda>p. pol_scope p \<noteq> ScopeIp) policies) gs)) @ extra
     \<and> list_all (\<lambda>b. statelessPart (b_limits b) = no_limits \<and> lim_budget (b_limits b) = None) extra"
proof -
  let ?others = "filter (\<lambda>p. pol_scope p \<noteq> ScopeIp) policies"
  let ?client = "client_for requestIp ctx policies"
  let ?resolved = "resolve_matching ctx (limits_base defaults) (fst (matching_policies cache' ctx gs None ?others))"
  let ?ip = "filter (\<lambda>p. pol_scope p = ScopeIp) (fst (matching_policies cache ctx gs ?client policies))"
  have none: "client_for requestIp ctx ?others = None"
    by (auto simp: client_for_def list_ex_iff)
  have "filter (\<lambda>p. pol_scope p \<noteq> ScopeIp) (fst (matching_policies cache' ctx gs None ?others))
      = fst (matching_policies cache' ctx gs None ?others)"
    using matching_policies_not_ip [of cache' ctx gs None ?others cache' None] by simp
  then have without: "fst (resolve_loaded cache' requestIp ctx defaults ?others gs) = ?resolved"
    using none by (simp add: resolve_loaded_def Let_def split_beta)
  have "fst (resolve_loaded cache requestIp ctx defaults policies gs) =
      (case ?client of None \<Rightarrow> ?resolved
       | Some c \<Rightarrow> if ?ip = [] then ?resolved else ?resolved\<lparr>buckets := buckets ?resolved @ ipBuckets ?ip c\<rparr>)"
    by (simp only: resolve_loaded_def Let_def split_beta fst_conv
        matching_policies_not_ip [of cache ctx gs ?client policies cache' None])
  moreover have "list_all (\<lambda>b. statelessPart (b_limits b) = no_limits \<and> lim_budget (b_limits b) = None) (ipBuckets ps c)" for ps c
    by (rule ipBuckets_rate_only)
  ultimately show ?thesis
    unfolding without
    by (cases ?client) (auto intro: exI [of _ "[]"])
qed

end
