(* ===== verification/QuotaStore.thy ===== *)
theory QuotaStore
  imports QuotaTypes
begin

text \<open>
  The stored quota policies: the SQLite provider, \<^verbatim>\<open>src/lib/database/sqlite/quota.mixin.ts\<close>.

  A tenant's table is the list of its rows in the order they were inserted; ids are unique (the primary key). A row is the
  policy that \<^verbatim>\<open>mapQuotaRow\<close> makes of it: absent values are stored as \<^verbatim>\<open>NULL\<close>, so a scope id that was
  not given reads back as \<^verbatim>\<open>null\<close>. Rows of equal priority and creation time, whose order SQL leaves open, are
  listed as they were inserted. The id and the instant of a write are arguments. Labels, descriptions and authors, which nothing
  decides on, are left out.
\<close>

fun stored_field :: "'a js_field \<Rightarrow> 'a js_field" where
  "stored_field Undefined = Null"
| "stored_field f = f"

text \<open>An empty project id filters nothing: it is falsy.\<close>

definition given_project :: "string option \<Rightarrow> string option" where
  "given_project projectId = (case projectId of Some p \<Rightarrow> if p = [] then None else Some p | None \<Rightarrow> None)"

definition in_project :: "string option \<Rightarrow> QuotaPolicy \<Rightarrow> bool" where
  "in_project projectId row =
     (case given_project projectId of None \<Rightarrow> True | Some p \<Rightarrow> pol_projectId row = Some p)"

definition policy_order :: "QuotaPolicy list \<Rightarrow> QuotaPolicy list" where
  "policy_order rows = sort_key (\<lambda>p. (pol_priority p, - pol_createdAt p)) rows"

definition createQuotaPolicy ::
  "QuotaPolicy list \<Rightarrow> QuotaPolicy \<Rightarrow> string \<Rightarrow> jsnum \<Rightarrow> QuotaPolicy \<times> QuotaPolicy list" where
  "createQuotaPolicy rows policy newId now =
     (let created = policy\<lparr>pol_id := newId, pol_createdAt := now\<rparr>
      in (created, rows @ [created\<lparr>pol_scopeId := stored_field (pol_scopeId created)\<rparr>]))"

definition listQuotaPolicies :: "QuotaPolicy list \<Rightarrow> string \<Rightarrow> string option \<Rightarrow> QuotaPolicy list" where
  "listQuotaPolicies rows tenantId projectId =
     policy_order (filter (\<lambda>row. pol_tenantId row = tenantId \<and> in_project projectId row) rows)"

definition has_no_project :: "QuotaPolicy \<Rightarrow> bool" where
  "has_no_project row \<longleftrightarrow> pol_projectId row = None \<or> pol_projectId row = Some []"

definition listTenantWideQuotaPolicies :: "QuotaPolicy list \<Rightarrow> string \<Rightarrow> QuotaPolicy list" where
  "listTenantWideQuotaPolicies rows tenantId =
     policy_order (filter (\<lambda>row. pol_tenantId row = tenantId \<and> has_no_project row) rows)"

text \<open>A partial update: a field that is absent is left as it is.\<close>

record policy_patch =
  pt_limits :: "QuotaLimits option"
  pt_scope :: "QuotaScope option"
  pt_scopeId :: "string js_field"
  pt_groupMode :: "QuotaGroupMode js_field"
  pt_ipRanges :: "string list js_field"
  pt_ipMode :: "QuotaIpMode js_field"
  pt_projectId :: "string js_field"
  pt_domain :: "QuotaDomain option"
  pt_priority :: "jsnum option"
  pt_enabled :: "bool option"

fun set_nullable :: "'a js_field \<Rightarrow> 'a option \<Rightarrow> 'a option" where
  "set_nullable Undefined old = old"
| "set_nullable Null old = None"
| "set_nullable (Given v) old = Some v"

fun set_scope_id :: "string js_field \<Rightarrow> string js_field \<Rightarrow> string js_field" where
  "set_scope_id Undefined old = old"
| "set_scope_id f old = f"

definition patch_row :: "policy_patch \<Rightarrow> QuotaPolicy \<Rightarrow> QuotaPolicy" where
  "patch_row patch row =
     row\<lparr>pol_limits := nullish (pt_limits patch) (pol_limits row),
         pol_scope := nullish (pt_scope patch) (pol_scope row),
         pol_scopeId := set_scope_id (pt_scopeId patch) (pol_scopeId row),
         pol_groupMode := set_nullable (pt_groupMode patch) (pol_groupMode row),
         pol_ipRanges := set_nullable (pt_ipRanges patch) (pol_ipRanges row),
         pol_ipMode := set_nullable (pt_ipMode patch) (pol_ipMode row),
         pol_projectId := (case pt_projectId patch of Undefined \<Rightarrow> pol_projectId row | Null \<Rightarrow> None
                           | Given p \<Rightarrow> given_project (Some p)),
         pol_domain := nullish (pt_domain patch) (pol_domain row),
         pol_priority := nullish (pt_priority patch) (pol_priority row),
         pol_enabled := nullish (pt_enabled patch) (pol_enabled row)\<rparr>"

definition addressed :: "string \<Rightarrow> string \<Rightarrow> string option \<Rightarrow> QuotaPolicy \<Rightarrow> bool" where
  "addressed i tenantId projectId row \<longleftrightarrow> pol_id row = i \<and> pol_tenantId row = tenantId \<and> in_project projectId row"

definition updateQuotaPolicy ::
  "QuotaPolicy list \<Rightarrow> string \<Rightarrow> string \<Rightarrow> policy_patch \<Rightarrow> string option \<Rightarrow> QuotaPolicy option \<times> QuotaPolicy list" where
  "updateQuotaPolicy rows i tenantId patch projectId =
     (let rows' = map (\<lambda>row. if addressed i tenantId projectId row then patch_row patch row else row) rows
      in (find (\<lambda>row. pol_id row = i) rows', rows'))"

definition deleteQuotaPolicy :: "QuotaPolicy list \<Rightarrow> string \<Rightarrow> string \<Rightarrow> string option \<Rightarrow> bool \<times> QuotaPolicy list" where
  "deleteQuotaPolicy rows i tenantId projectId =
     (list_ex (addressed i tenantId projectId) rows, filter (\<lambda>row. \<not> addressed i tenantId projectId row) rows)"

section \<open>Who sees a row\<close>

text \<open>What a project reads of a table depends only on its own rows and those without a project.\<close>

lemma listQuotaPolicies_cong:
  assumes "filter (\<lambda>row. pol_tenantId row = tenantId \<and> in_project projectId row) rows
      = filter (\<lambda>row. pol_tenantId row = tenantId \<and> in_project projectId row) rows'"
  shows "listQuotaPolicies rows tenantId projectId = listQuotaPolicies rows' tenantId projectId"
  using assms by (simp add: listQuotaPolicies_def)

lemma set_policy_order [simp]: "set (policy_order rows) = set rows"
  by (simp add: policy_order_def)

lemma set_listQuotaPolicies:
  "set (listQuotaPolicies rows tenantId projectId) = {row \<in> set rows. pol_tenantId row = tenantId \<and> in_project projectId row}"
  by (auto simp: listQuotaPolicies_def)

text \<open>An update or a deletion of a policy that is not there, or not in the named project, changes nothing.\<close>

lemma update_unaddressed:
  "\<not> list_ex (addressed i tenantId projectId) rows \<Longrightarrow> snd (updateQuotaPolicy rows i tenantId patch projectId) = rows"
  by (auto simp: updateQuotaPolicy_def Let_def list_ex_iff intro: map_idI)

lemma delete_unaddressed:
  "\<not> fst (deleteQuotaPolicy rows i tenantId projectId) \<Longrightarrow> snd (deleteQuotaPolicy rows i tenantId projectId) = rows"
  by (auto simp: deleteQuotaPolicy_def list_ex_iff intro: filter_True)

text \<open>
  Whatever an update matched, its answer is the row with that id, of any tenant and project: an update that changed nothing
  because the policy is another tenant's answers that tenant's policy.
\<close>

lemma update_answers_unaddressed_row:
  assumes "distinct (map pol_id rows)" "row \<in> set rows" "pol_tenantId row \<noteq> tenantId"
  shows "updateQuotaPolicy rows (pol_id row) tenantId patch projectId = (Some row, rows)"
proof -
  have same: "r = row" if "r \<in> set rows" "pol_id r = pol_id row" for r
    using assms(1,2) that by (auto simp: distinct_map dest: inj_onD)
  then have "\<not> list_ex (addressed (pol_id row) tenantId projectId) rows"
    using assms(3) by (auto simp: list_ex_iff addressed_def)
  moreover have "find (\<lambda>r. pol_id r = pol_id row) rows = Some row"
  proof (cases "find (\<lambda>r. pol_id r = pol_id row) rows")
    case (Some r)
    then show ?thesis using same [of r] by (auto dest: find_SomeD)
  qed (use assms(2) in \<open>auto simp: find_None_iff\<close>)
  ultimately show ?thesis
    using update_unaddressed [of "pol_id row" tenantId projectId rows patch]
    by (simp add: updateQuotaPolicy_def Let_def)
qed

end
