(* ===== verification/License.thy ===== *)
theory License
  imports QuotaTypes
begin

text \<open>
  The license of a tenant: the parts of \<^verbatim>\<open>src/lib/license/license-manager.ts\<close> that decide which license is in
  force and which limits it gives. The feature table of \<^verbatim>\<open>config/policies.json\<close> is an argument: the
  license types it names, and the features with whether they need an enterprise license.

  A stored payload is not trusted to be of its type, so its fields are what was found there: \<open>raw_value\<close> is a
  number (any double) or something else. A date is its number of milliseconds, NaN when it was not a date.
\<close>

datatype raw_value = RawNumber js_float | RawOther

text \<open>The \<^verbatim>\<open>limits\<close> claim: not an object, or what \<^verbatim>\<open>quotas.maxProjects\<close> and \<^verbatim>\<open>maxProjects\<close> hold there.\<close>

datatype raw_limits = NotLimits | RawLimits "raw_value option" "raw_value option"

datatype LicenseType = FREE | STARTER | PROFESSIONAL | ENTERPRISE | ON_PREMISE

definition FREE_PROJECT_LIMIT :: jsnum where
  "FREE_PROJECT_LIMIT = 2"

definition isEnterpriseLicenseType :: "LicenseType \<Rightarrow> bool" where
  "isEnterpriseLicenseType t \<longleftrightarrow> t = ENTERPRISE"

definition isLicenseType :: "string \<Rightarrow> LicenseType option" where
  "isLicenseType value =
     (if value = ''FREE'' then Some FREE
      else if value = ''STARTER'' then Some STARTER
      else if value = ''PROFESSIONAL'' then Some PROFESSIONAL
      else if value = ''ENTERPRISE'' then Some ENTERPRISE
      else if value = ''ON_PREMISE'' then Some ON_PREMISE
      else None)"

definition isAlwaysFreeFeature :: "string \<Rightarrow> bool" where
  "isAlwaysFreeFeature featureKey \<longleftrightarrow> take 3 featureKey = ''PII''"

definition normalizeLimits :: "raw_limits \<Rightarrow> jsnum option" where
  "normalizeLimits value =
     (case value of
        NotLimits \<Rightarrow> None
      | RawLimits inQuotas direct \<Rightarrow>
          (case opt_or inQuotas direct of
             Some (RawNumber (Finite maxProjects)) \<Rightarrow> Some maxProjects
           | _ \<Rightarrow> None))"

definition mergeLicenseLimits :: "jsnum \<Rightarrow> jsnum option \<Rightarrow> jsnum" where
  "mergeLicenseLimits base override = nullish override base"

definition toQuotaLimits :: "jsnum \<Rightarrow> QuotaLimits" where
  "toQuotaLimits maxProjects =
     no_limits\<lparr>lim_quotas := Some (\<lambda>f. if f = MaxProjects then Some maxProjects else None)\<rparr>"

record policy_config =
  cfg_licenses :: "LicenseType list"
  cfg_features :: "(string \<times> bool) list"

definition getFeaturesForLicense :: "policy_config \<Rightarrow> LicenseType \<Rightarrow> string list" where
  "getFeaturesForLicense cfg licenseType =
     (if licenseType \<notin> set (cfg_licenses cfg) then []
      else map fst (filter (\<lambda>(key, requiresEnterprise).
             isEnterpriseLicenseType licenseType \<or> isAlwaysFreeFeature key \<or> \<not> requiresEnterprise) (cfg_features cfg)))"

datatype license_status = StatusFree | StatusActive | StatusExpired | StatusInvalid

record license_payload =
  pl_licenseId :: string
  pl_licenseType :: string
  pl_limits :: raw_limits
  pl_exp :: "raw_value option"

record license_tenant =
  tn_licenseStatus :: license_status
  tn_licensePayload :: "license_payload option"
  tn_licenseId :: string
  tn_licenseExpiresAt :: "js_float option"

record EffectiveLicense =
  lic_id :: string
  lic_type :: LicenseType
  lic_status :: license_status
  lic_features :: "string list"
  lic_maxProjects :: jsnum
  lic_expiresAt :: "js_float option"

definition getDefaultFreeLicense :: "policy_config \<Rightarrow> EffectiveLicense" where
  "getDefaultFreeLicense cfg =
     \<lparr>lic_id = ''FREE'', lic_type = FREE, lic_status = StatusFree, lic_features = getFeaturesForLicense cfg FREE,
      lic_maxProjects = FREE_PROJECT_LIMIT, lic_expiresAt = None\<rparr>"

text \<open>
  \<^verbatim>\<open>new Date(exp * 1000)\<close> of a number that is no valid instant is an invalid date, and no comparison with it
  holds. The range of valid dates is not bounded here.
\<close>

fun seconds_to_date :: "js_float \<Rightarrow> js_float" where
  "seconds_to_date (Finite s) = Finite (s * 1000)"
| "seconds_to_date f = NaN"

definition license_expiry :: "js_float option \<Rightarrow> raw_value option \<Rightarrow> js_float option" where
  "license_expiry stored expClaim =
     (case stored of
        Some (Finite ms) \<Rightarrow> Some (Finite ms)
      | _ \<Rightarrow> (case expClaim of Some (RawNumber s) \<Rightarrow> Some (seconds_to_date s) | _ \<Rightarrow> None))"

definition passed :: "js_float option \<Rightarrow> jsnum \<Rightarrow> bool" where
  "passed expiresAt now = (case expiresAt of Some (Finite ms) \<Rightarrow> ms \<le> now | _ \<Rightarrow> False)"

definition getEffectiveLicenseForTenant :: "policy_config \<Rightarrow> license_tenant option \<Rightarrow> jsnum \<Rightarrow> EffectiveLicense" where
  "getEffectiveLicenseForTenant cfg tenant now =
     (case tenant of
        None \<Rightarrow> getDefaultFreeLicense cfg
      | Some t \<Rightarrow>
          if tn_licenseStatus t \<noteq> StatusActive then getDefaultFreeLicense cfg
          else case tn_licensePayload t of
                 None \<Rightarrow> getDefaultFreeLicense cfg
               | Some payload \<Rightarrow>
                   (let licenseType = nullish (isLicenseType (pl_licenseType payload)) FREE;
                        expiresAt = license_expiry (tn_licenseExpiresAt t) (pl_exp payload)
                    in if passed expiresAt now then (getDefaultFreeLicense cfg)\<lparr>lic_status := StatusExpired\<rparr>
                       else
                         \<lparr>lic_id = (if tn_licenseId t \<noteq> [] then tn_licenseId t else pl_licenseId payload),
                          lic_type = licenseType, lic_status = StatusActive,
                          lic_features = getFeaturesForLicense cfg licenseType,
                          lic_maxProjects = mergeLicenseLimits FREE_PROJECT_LIMIT (normalizeLimits (pl_limits payload)),
                          lic_expiresAt = expiresAt\<rparr>))"

definition getQuotaLimitsForTenant :: "policy_config \<Rightarrow> license_tenant option \<Rightarrow> jsnum \<Rightarrow> QuotaLimits" where
  "getQuotaLimitsForTenant cfg tenant now = toQuotaLimits (lic_maxProjects (getEffectiveLicenseForTenant cfg tenant now))"

section \<open>What a license gives\<close>

text \<open>Features of a type that is not enterprise never need an enterprise license, personal-data handling apart.\<close>

lemma features_gated:
  "key \<in> set (getFeaturesForLicense cfg t) \<Longrightarrow> \<not> isEnterpriseLicenseType t \<Longrightarrow>
   isAlwaysFreeFeature key \<or> (key, False) \<in> set (cfg_features cfg)"
  by (auto simp: getFeaturesForLicense_def split: if_splits)

text \<open>
  A license that is not in force gives what the free one gives. Unless the tenant's stored license is active, has a
  payload and has not expired, its type, features and limits are exactly those of the free license; and whatever
  the stored payload holds, a feature that needs an enterprise license is only in force under an
  active, unexpired license whose payload says enterprise.
\<close>

theorem license_not_in_force_is_free:
  "(lic_status (getEffectiveLicenseForTenant cfg tenant now) \<noteq> StatusActive \<longrightarrow>
      lic_type (getEffectiveLicenseForTenant cfg tenant now) = FREE
      \<and> lic_features (getEffectiveLicenseForTenant cfg tenant now) = getFeaturesForLicense cfg FREE
      \<and> getQuotaLimitsForTenant cfg tenant now = toQuotaLimits FREE_PROJECT_LIMIT)
   \<and> (key \<in> set (lic_features (getEffectiveLicenseForTenant cfg tenant now)) \<and> \<not> isAlwaysFreeFeature key
        \<and> (key, False) \<notin> set (cfg_features cfg) \<longrightarrow>
      (\<exists>t payload. tenant = Some t \<and> tn_licenseStatus t = StatusActive \<and> tn_licensePayload t = Some payload
         \<and> pl_licenseType payload = ''ENTERPRISE'' \<and> \<not> passed (license_expiry (tn_licenseExpiresAt t) (pl_exp payload)) now))"
proof -
  have enterprise: "isLicenseType s = Some ENTERPRISE \<Longrightarrow> s = ''ENTERPRISE''" for s
    by (simp add: isLicenseType_def split: if_splits)
  have "key \<in> set (getFeaturesForLicense cfg t) \<Longrightarrow> \<not> isAlwaysFreeFeature key \<Longrightarrow> (key, False) \<notin> set (cfg_features cfg) \<Longrightarrow>
      t = ENTERPRISE" for t
    using features_gated [of key cfg t] by (auto simp: isEnterpriseLicenseType_def)
  note feature = this this [of FREE]
  have named: "isLicenseType s = Some t \<Longrightarrow> key \<in> set (getFeaturesForLicense cfg t) \<Longrightarrow> \<not> isAlwaysFreeFeature key \<Longrightarrow>
      (key, False) \<notin> set (cfg_features cfg) \<Longrightarrow> s = ''ENTERPRISE''" for s t
    using feature(1) [of t] enterprise [of s] by simp
  show ?thesis
    by (cases tenant; cases "isLicenseType (pl_licenseType (the (tn_licensePayload (the tenant))))")
       (auto simp: getEffectiveLicenseForTenant_def getDefaultFreeLicense_def getQuotaLimitsForTenant_def Let_def
          split: option.splits if_splits dest: feature(2) named)
qed

definition sample_tenant :: "string \<Rightarrow> license_tenant" where
  "sample_tenant ltype =
     \<lparr>tn_licenseStatus = StatusActive,
      tn_licensePayload = Some \<lparr>pl_licenseId = ''l'', pl_licenseType = ltype, pl_limits = RawLimits None (Some (RawNumber (Finite 9))),
        pl_exp = Some (RawNumber (Finite 5))\<rparr>,
      tn_licenseId = [], tn_licenseExpiresAt = Some NaN\<rparr>"

theorem license_not_in_force_is_free_witness:
  "getQuotaLimitsForTenant \<lparr>cfg_licenses = [FREE, ENTERPRISE], cfg_features = [(''SSO'', True)]\<rparr>
     (Some (sample_tenant ''ENTERPRISE'')) 6000 = toQuotaLimits FREE_PROJECT_LIMIT"
  using license_not_in_force_is_free [of "\<lparr>cfg_licenses = [FREE, ENTERPRISE], cfg_features = [(''SSO'', True)]\<rparr>"
      "Some (sample_tenant ''ENTERPRISE'')" 6000 "''SSO''"]
  by (simp add: sample_tenant_def getEffectiveLicenseForTenant_def Let_def license_expiry_def passed_def
      getDefaultFreeLicense_def)

end
