(* ===== verification/QuotaChecks.thy ===== *)
theory QuotaChecks
  imports QuotaGuard QuotaStore License
begin

text \<open>
  The checks of the quota guard: the loading half of \<^verbatim>\<open>src/lib/quota/quotaGuard.ts\<close> (policy source, group memberships,
  counters) and every check on the resolved limits.

  \<^item> \<open>guard_state\<close> is what the guard reads and writes: each tenant's tables of policies, memberships and counters, the cache
    provider (policy sources by value, and its counters) and the guard's own two caches. \<open>guard_world\<close> is configuration and
    whatever may go wrong: a cache or a counter that throws, a database read that fails. Cache providers are the in-memory one
    and the disabled one; with Redis the cache is another process and is not modelled.
  \<^item> A function that may throw answers an option, with the state as it was when it threw.
  \<^item> The increments of one check are started together and awaited together; they run in the order they are started, at one
    instant. A refusal carries a structured reason instead of a formatted message, and reasons keep their order.
\<close>

section \<open>The state of the guard\<close>

datatype rate_provider = RateMongodb | RateMemory | RateRedis

datatype cache_kind = CacheMemory | CacheNone

record QuotaPolicySource =
  source_licenseDefaults :: QuotaLimits
  source_policies :: "QuotaPolicy list"

record group_ids_entry =
  entry_until :: jsnum
  entry_ids :: "string list"

record guard_state =
  g_policies :: "string \<Rightarrow> QuotaPolicy list"
  g_members :: "string \<Rightarrow> (string \<times> string) list"
  g_counters :: "string \<Rightarrow> rate_limit_db"
  g_cache :: "QuotaPolicySource MemoryCacheProvider"
  groupIdsCache :: "(string, group_ids_entry) jsmap"
  g_parsed :: range_cache

record guard_world =
  w_rateProvider :: rate_provider
  w_cacheKind :: cache_kind
  w_policyTtl :: jsnum
  w_cacheFails :: bool
  w_tenants :: "string \<Rightarrow> license_tenant option"
  w_policyConfig :: policy_config
  w_policyReadFails :: bool
  w_memberReadFails :: bool
  w_counterFails :: "string \<Rightarrow> jsnum \<Rightarrow> bool"
  w_sweepFails :: bool
  w_requestIp :: "string option"
  w_projects :: "string \<Rightarrow> string \<Rightarrow> string list option"

section \<open>The caller's groups\<close>

definition GROUP_IDS_TTL_MS :: jsnum where
  "GROUP_IDS_TTL_MS = 15000"

definition GROUP_IDS_MAX_ENTRIES :: nat where
  "GROUP_IDS_MAX_ENTRIES = 5000"

definition nul :: char where
  "nul = char_of (0 :: nat)"

definition groupIdsKey :: "string \<Rightarrow> string \<Rightarrow> string" where
  "groupIdsKey tenantDbName userId = tenantDbName @ nul # userId"

datatype iam_event = UserChanged string "string option" | TenantPrincipalsChanged "string option" | OtherIamEvent

definition key_of_user :: "string \<Rightarrow> string option \<Rightarrow> string \<Rightarrow> bool" where
  "key_of_user userId tenantDbName key \<longleftrightarrow>
     (case split_on nul key of
        tenant # user # rest \<Rightarrow> user = userId \<and> (case tenantDbName of None \<Rightarrow> True | Some t \<Rightarrow> tenant = t)
      | _ \<Rightarrow> False)"

definition key_of_tenant :: "string option \<Rightarrow> string \<Rightarrow> bool" where
  "key_of_tenant tenantDbName key \<longleftrightarrow>
     (case tenantDbName of None \<Rightarrow> True | Some t \<Rightarrow> take (length (t @ [nul])) key = t @ [nul])"

definition onIamInvalidation :: "(string, group_ids_entry) jsmap \<Rightarrow> iam_event \<Rightarrow> (string, group_ids_entry) jsmap" where
  "onIamInvalidation cache event =
     (case event of
        UserChanged userId tenantDbName \<Rightarrow> map_delete_if (\<lambda>key e. key_of_user userId tenantDbName key) cache
      | TenantPrincipalsChanged tenantDbName \<Rightarrow> map_delete_if (\<lambda>key e. key_of_tenant tenantDbName key) cache
      | OtherIamEvent \<Rightarrow> cache)"

text \<open>\<^verbatim>\<open>[...new Set(xs)]\<close> keeps the first occurrence of each value.\<close>

definition js_unique :: "'a list \<Rightarrow> 'a list" where
  "js_unique xs = rev (remdups (rev xs))"

definition loadGroupIds :: "guard_world \<Rightarrow> guard_state \<Rightarrow> string \<Rightarrow> string \<Rightarrow> string list option" where
  "loadGroupIds w s tenantDbName userId =
     (if w_memberReadFails w then None
      else Some (js_unique (map snd (filter (\<lambda>m. fst m = userId) (g_members s tenantDbName)))))"

definition callerGroupIds ::
  "guard_world \<Rightarrow> guard_state \<Rightarrow> QuotaContext \<Rightarrow> QuotaPolicy list \<Rightarrow> jsnum \<Rightarrow> string list option \<times> guard_state" where
  "callerGroupIds w s ctx policies now =
     (case ctx_groupIds ctx of
        Some ids \<Rightarrow> (Some ids, s)
      | None \<Rightarrow>
          (let userId = nullish (ctx_userId ctx) [] in
           if userId = [] then (Some [], s)
           else if \<not> list_ex (\<lambda>p. pol_enabled p \<and> pol_scope p = ScopeGroup \<and> matchesDomain p ctx) policies then (Some [], s)
           else
             let key = groupIdsKey (ctx_tenantDbName ctx) userId;
                 load =
                   (let evicted = (if length (groupIdsCache s) \<ge> GROUP_IDS_MAX_ENTRIES
                                   then drop 1 (groupIdsCache s) else groupIdsCache s)
                    in case loadGroupIds w s (ctx_tenantDbName ctx) userId of
                         None \<Rightarrow> (None, s\<lparr>groupIdsCache := map_delete evicted key\<rparr>)
                       | Some ids \<Rightarrow>
                           (Some ids, s\<lparr>groupIdsCache :=
                              map_set evicted key \<lparr>entry_until = now + GROUP_IDS_TTL_MS, entry_ids = ids\<rparr>\<rparr>))
             in case map_get (groupIdsCache s) key of
                  None \<Rightarrow> load
                | Some cached \<Rightarrow> if entry_until cached > now then (Some (entry_ids cached), s) else load))"

section \<open>The policy source\<close>

definition quotaPolicyCacheKey :: "string \<Rightarrow> string \<Rightarrow> string \<Rightarrow> string" where
  "quotaPolicyCacheKey tenantDbName tenantId projectId =
     ''quota:policy-src:'' @ tenantDbName @ '':'' @ tenantId @ '':'' @ projectId"

definition read_source :: "guard_world \<Rightarrow> guard_state \<Rightarrow> string \<Rightarrow> string \<Rightarrow> string \<Rightarrow> jsnum \<Rightarrow> QuotaPolicySource" where
  "read_source w s tenantDbName tenantId projectId now =
     \<lparr>source_licenseDefaults = getQuotaLimitsForTenant (w_policyConfig w) (w_tenants w tenantId) now,
      source_policies = fetchPolicies (listQuotaPolicies (g_policies s tenantDbName) tenantId (Some projectId))
                          (listTenantWideQuotaPolicies (g_policies s tenantDbName) tenantId)\<rparr>"

definition cached_source :: "guard_world \<Rightarrow> guard_state \<Rightarrow> string \<Rightarrow> jsnum \<Rightarrow> QuotaPolicySource option \<times> guard_state" where
  "cached_source w s key now =
     (if w_policyTtl w > 0 \<and> \<not> w_cacheFails w \<and> w_cacheKind w = CacheMemory
      then let (found, cache') = cache_get (g_cache s) key now in (found, s\<lparr>g_cache := cache'\<rparr>)
      else (None, s))"

definition cache_source :: "guard_world \<Rightarrow> guard_state \<Rightarrow> string \<Rightarrow> QuotaPolicySource \<Rightarrow> jsnum \<Rightarrow> guard_state" where
  "cache_source w s key source now =
     (if w_policyTtl w > 0 \<and> \<not> w_cacheFails w \<and> w_cacheKind w = CacheMemory
      then s\<lparr>g_cache := cache_set (g_cache s) key source (Some (w_policyTtl w)) now\<rparr>
      else s)"

text \<open>
  A load that nothing disturbs: the cache lookup, the reads and the cache write at one moment. \<^verbatim>\<open>PolicyRaces.thy\<close> cuts it at
  its awaits and lets writes and other loads run in between.
\<close>

definition loadPolicySource :: "guard_world \<Rightarrow> guard_state \<Rightarrow> QuotaContext \<Rightarrow> jsnum \<Rightarrow> QuotaPolicySource option \<times> guard_state" where
  "loadPolicySource w s ctx now =
     (let key = quotaPolicyCacheKey (ctx_tenantDbName ctx) (ctx_tenantId ctx) (ctx_projectId ctx)
      in case cached_source w s key now of
           (Some source, s') \<Rightarrow> (Some source, s')
         | (None, s') \<Rightarrow>
             if w_policyReadFails w then (None, s')
             else let source = read_source w s' (ctx_tenantDbName ctx) (ctx_tenantId ctx) (ctx_projectId ctx) now
                  in (Some source, cache_source w s' key source now))"

definition resolveLimits :: "guard_world \<Rightarrow> guard_state \<Rightarrow> QuotaContext \<Rightarrow> jsnum \<Rightarrow> ResolvedLimits option \<times> guard_state" where
  "resolveLimits w s ctx now =
     (case loadPolicySource w s ctx now of
        (None, s1) \<Rightarrow> (None, s1)
      | (Some source, s1) \<Rightarrow>
          (case callerGroupIds w s1 ctx (source_policies source) now of
             (None, s2) \<Rightarrow> (None, s2)
           | (Some groupIds, s2) \<Rightarrow>
               let (resolved, parsed) = resolve_loaded (g_parsed s2) (w_requestIp w) ctx (source_licenseDefaults source)
                                          (source_policies source) groupIds
               in (Some resolved, s2\<lparr>g_parsed := parsed\<rparr>)))"

definition resolveEffectiveLimits :: "guard_world \<Rightarrow> guard_state \<Rightarrow> QuotaContext \<Rightarrow> jsnum \<Rightarrow> QuotaLimits option \<times> guard_state" where
  "resolveEffectiveLimits w s ctx now = (let (r, s') = resolveLimits w s ctx now in (map_option effective r, s'))"

section \<open>Checks without counters\<close>

datatype quota_resource =
    ResProjects | ResModels | ResVectorIndexes | ResApiTokens | ResUsers | ResAgents | ResFileBuckets | ResTracingSessions
  | ResFilesTotal

datatype request_measure =
    InputTokens | OutputTokens | TotalTokens | FileSize | FilesPerRequest | VectorCount | VectorDimensions | QueryResults
  | EventsPerSession | SessionDurationMs

datatype budget_window = BudgetPerDay | BudgetPerMonth

datatype refusal =
    ResourceLimitReached quota_resource jsnum jsnum
  | RequestExceeds request_measure jsnum jsnum
  | ConcurrentLimitReached QuotaDomain jsnum jsnum
  | RateExceeded string QuotaRateKind rate_window jsnum jsnum
  | RateUnavailable
  | BudgetExceeded budget_window jsnum jsnum
  | BudgetUnavailable budget_window

record QuotaCheckResult =
  allowed :: bool
  reason :: "refusal option"
  effectiveLimits :: QuotaLimits

definition allow :: "QuotaLimits \<Rightarrow> QuotaCheckResult" where
  "allow limits = \<lparr>allowed = True, reason = None, effectiveLimits = limits\<rparr>"

definition refuse :: "refusal \<Rightarrow> QuotaLimits \<Rightarrow> QuotaCheckResult" where
  "refuse why limits = \<lparr>allowed = False, reason = Some why, effectiveLimits = limits\<rparr>"

definition decide :: "refusal list \<Rightarrow> QuotaLimits \<Rightarrow> QuotaCheckResult" where
  "decide errors limits = (case errors of [] \<Rightarrow> allow limits | e # es \<Rightarrow> refuse e limits)"

definition checkQuota :: "guard_world \<Rightarrow> guard_state \<Rightarrow> QuotaContext \<Rightarrow> jsnum \<Rightarrow> QuotaCheckResult option \<times> guard_state" where
  "checkQuota w s ctx now = (let (limits, s') = resolveEffectiveLimits w s ctx now in (map_option allow limits, s'))"

fun quotaKeyMap :: "quota_resource \<Rightarrow> resource_cap" where
  "quotaKeyMap ResProjects = MaxProjects"
| "quotaKeyMap ResModels = MaxModels"
| "quotaKeyMap ResVectorIndexes = MaxVectorIndexes"
| "quotaKeyMap ResApiTokens = MaxApiTokens"
| "quotaKeyMap ResUsers = MaxUsers"
| "quotaKeyMap ResAgents = MaxAgents"
| "quotaKeyMap ResFileBuckets = MaxFileBuckets"
| "quotaKeyMap ResTracingSessions = MaxTracingSessions"
| "quotaKeyMap ResFilesTotal = MaxFilesTotal"

definition resource_decision :: "QuotaLimits \<Rightarrow> quota_resource \<Rightarrow> jsnum \<Rightarrow> QuotaCheckResult" where
  "resource_decision limits resource currentCount =
     (case (case lim_quotas limits of None \<Rightarrow> None | Some caps \<Rightarrow> caps (quotaKeyMap resource)) of
        None \<Rightarrow> allow limits
      | Some limit \<Rightarrow>
          if limit \<noteq> -1 \<and> currentCount \<ge> limit then refuse (ResourceLimitReached resource currentCount limit) limits
          else allow limits)"

definition checkResourceQuota ::
  "guard_world \<Rightarrow> guard_state \<Rightarrow> QuotaContext \<Rightarrow> quota_resource \<Rightarrow> jsnum \<Rightarrow> jsnum \<Rightarrow> QuotaCheckResult option \<times> guard_state" where
  "checkResourceQuota w s ctx resource currentCount now =
     (let (limits, s') = resolveEffectiveLimits w s ctx now
      in (map_option (\<lambda>l. resource_decision l resource currentCount) limits, s'))"

text \<open>The bounds of one request, in the order they are tested.\<close>

definition request_bounds :: "(per_request_field \<times> request_measure) list" where
  "request_bounds =
     [(MaxInputTokens, InputTokens), (MaxOutputTokens, OutputTokens), (MaxTotalTokens, TotalTokens), (MaxFileSize, FileSize),
      (MaxFilesPerRequest, FilesPerRequest), (MaxVectorsPerUpsert, VectorCount), (MaxDimensions, VectorDimensions),
      (MaxQueryResults, QueryResults), (MaxEventsPerSession, EventsPerSession), (MaxSessionDurationMs, SessionDurationMs)]"

definition exceeds :: "per_request \<Rightarrow> (request_measure \<Rightarrow> jsnum option) \<Rightarrow> per_request_field \<times> request_measure \<Rightarrow> bool" where
  "exceeds perRequest request bound =
     (case (perRequest (fst bound), request (snd bound)) of
        (Some limit, Some amount) \<Rightarrow> limit \<noteq> -1 \<and> amount > limit
      | _ \<Rightarrow> False)"

definition per_request_decision :: "QuotaLimits \<Rightarrow> (request_measure \<Rightarrow> jsnum option) \<Rightarrow> QuotaCheckResult" where
  "per_request_decision limits request =
     (case lim_perRequest limits of
        None \<Rightarrow> allow limits
      | Some perRequest \<Rightarrow>
          (case find (exceeds perRequest request) request_bounds of
             None \<Rightarrow> allow limits
           | Some (field, part) \<Rightarrow>
               refuse (RequestExceeds part (nullish (request part) 0) (nullish (perRequest field) 0)) limits))"

definition checkPerRequestLimits ::
  "guard_world \<Rightarrow> guard_state \<Rightarrow> QuotaContext \<Rightarrow> (request_measure \<Rightarrow> jsnum option) \<Rightarrow> jsnum \<Rightarrow> QuotaCheckResult option \<times> guard_state" where
  "checkPerRequestLimits w s ctx request now =
     (let (limits, s') = resolveEffectiveLimits w s ctx now
      in (map_option (\<lambda>l. per_request_decision l request) limits, s'))"

definition concurrency_decision :: "QuotaLimits \<Rightarrow> QuotaDomain \<Rightarrow> jsnum \<Rightarrow> QuotaCheckResult" where
  "concurrency_decision limits domain activeCount =
     (case (case lim_perRequest limits of None \<Rightarrow> None | Some r \<Rightarrow> r MaxConcurrentRequests) of
        None \<Rightarrow> allow limits
      | Some limit \<Rightarrow>
          if limit \<noteq> -1 \<and> activeCount \<ge> limit then refuse (ConcurrentLimitReached domain activeCount limit) limits
          else allow limits)"

definition checkConcurrency ::
  "guard_world \<Rightarrow> guard_state \<Rightarrow> QuotaContext \<Rightarrow> jsnum \<Rightarrow> jsnum \<Rightarrow> QuotaCheckResult option \<times> guard_state" where
  "checkConcurrency w s ctx activeCount now =
     (let (limits, s') = resolveEffectiveLimits w s ctx now
      in (map_option (\<lambda>l. concurrency_decision l (ctx_domain ctx) activeCount) limits, s'))"

section \<open>Rate limits\<close>

text \<open>The two counter stores an increment may reach.\<close>

definition store_increment ::
  "guard_world \<Rightarrow> string \<Rightarrow> guard_state \<Rightarrow> string \<Rightarrow> jsnum \<Rightarrow> jsnum \<Rightarrow> jsnum \<Rightarrow> counter_answer \<times> guard_state" where
  "store_increment w tenantDbName s key windowSeconds amount now =
     (if w_rateProvider w = RateMongodb
      then let (answer, db) = incrementRateLimit (w_sweepFails w) (g_counters s tenantDbName) key windowSeconds amount now
           in (answer, s\<lparr>g_counters := (g_counters s)(tenantDbName := db)\<rparr>)
      else let (answer, cache') = incrementCounter (g_cache s) (tenantDbName @ '':'' @ key) windowSeconds amount now
           in (answer, s\<lparr>g_cache := cache'\<rparr>))"

definition counters_configured :: "guard_world \<Rightarrow> bool" where
  "counters_configured w \<longleftrightarrow>
     w_rateProvider w = RateMongodb \<or> w_rateProvider w = RateMemory \<and> w_cacheKind w = CacheMemory \<and> \<not> w_cacheFails w"

definition incrementRateLimitCounter ::
  "guard_world \<Rightarrow> guard_state \<Rightarrow> QuotaContext \<Rightarrow> string \<Rightarrow> jsnum \<Rightarrow> jsnum \<Rightarrow> jsnum \<Rightarrow> counter_answer option \<times> guard_state" where
  "incrementRateLimitCounter w s ctx key windowSeconds amount now =
     (if \<not> counters_configured w \<or> w_counterFails w key now then (None, s)
      else let (answer, s') = store_increment w (ctx_tenantDbName ctx) s key windowSeconds amount now in (Some answer, s'))"

type_synonym RateLimitCost = "QuotaRateKind \<Rightarrow> jsnum option"

record CheckRateLimitOptions =
  opt_headroom :: "QuotaRateKind list option"
  opt_counterPrefix :: "string option"

text \<open>The rate kinds in their order, the names of their counters, and the windows.\<close>

definition RATE_KINDS :: "QuotaRateKind list" where
  "RATE_KINDS = [RRequests, RTokens, RVectors, RFiles, RStorage, RUnits]"

fun counter_name :: "QuotaRateKind \<Rightarrow> string" where
  "counter_name RRequests = ''requests''"
| "counter_name RTokens = ''tokens''"
| "counter_name RVectors = ''vectors''"
| "counter_name RFiles = ''files''"
| "counter_name RStorage = ''storageBytes''"
| "counter_name RUnits = ''units''"

fun window_name :: "rate_window \<Rightarrow> string" where
  "window_name PerSecond = ''perSecond''"
| "window_name PerMinute = ''perMinute''"
| "window_name PerHour = ''perHour''"
| "window_name PerDay = ''perDay''"
| "window_name PerMonth = ''perMonth''"

fun window_seconds :: "rate_window \<Rightarrow> jsnum" where
  "window_seconds PerSecond = 1"
| "window_seconds PerMinute = 60"
| "window_seconds PerHour = 3600"
| "window_seconds PerDay = 86400"
| "window_seconds PerMonth = 2592000"

definition RATE_WINDOWS :: "rate_window list" where
  "RATE_WINDOWS = [PerSecond, PerMinute, PerHour, PerDay, PerMonth]"

text \<open>An empty provider or resource key is falsy.\<close>

definition scope_part :: "bool \<Rightarrow> string \<Rightarrow> string option \<Rightarrow> string list" where
  "scope_part scoped label key =
     (case key of None \<Rightarrow> [] | Some k \<Rightarrow> if scoped \<and> k \<noteq> [] then [label @ k] else [])"

definition counterScope :: "QuotaContext \<Rightarrow> LimitBucket \<Rightarrow> string list" where
  "counterScope ctx bucket =
     scope_part (b_provider bucket) ''prov:'' (ctx_providerKey ctx)
     @ scope_part (b_resource bucket) ''res:'' (ctx_resourceKey ctx)
     @ [b_identity bucket]"

definition rate_key :: "QuotaContext \<Rightarrow> CheckRateLimitOptions \<Rightarrow> LimitBucket \<Rightarrow> QuotaRateKind \<Rightarrow> rate_window \<Rightarrow> string" where
  "rate_key ctx options bucket kind window =
     js_join '':'' ([nullish (opt_counterPrefix options) ''rate_limit'', domain_name (ctx_domain ctx), counter_name kind,
                    window_name window] @ counterScope ctx bucket)"

text \<open>One counter to increment or to inspect.\<close>

record window_check =
  wc_key :: string
  wc_kind :: QuotaRateKind
  wc_window :: rate_window
  wc_limit :: jsnum
  wc_amount :: jsnum
  wc_prefix :: string

definition plan_window ::
  "QuotaContext \<Rightarrow> RateLimitCost \<Rightarrow> CheckRateLimitOptions \<Rightarrow> LimitBucket \<Rightarrow> rate_limits \<Rightarrow> QuotaRateKind \<Rightarrow> rate_window \<Rightarrow> window_check list" where
  "plan_window ctx cost options bucket rateLimit kind window =
     (let incrementBy = nullish (cost kind) 0 in
      case rateLimit kind window of
        None \<Rightarrow> []
      | Some limit \<Rightarrow>
          if limit = -1 then []
          else if incrementBy = 0 \<and> kind \<notin> set (nullish (opt_headroom options) []) then []
          else [\<lparr>wc_key = rate_key ctx options bucket kind window, wc_kind = kind, wc_window = window, wc_limit = limit,
                 wc_amount = incrementBy, wc_prefix = b_reasonPrefix bucket\<rparr>])"

definition rate_plan :: "QuotaContext \<Rightarrow> RateLimitCost \<Rightarrow> CheckRateLimitOptions \<Rightarrow> LimitBucket list \<Rightarrow> window_check list" where
  "rate_plan ctx cost options bs =
     concat (map (\<lambda>bucket.
       case lim_rateLimit (b_limits bucket) of
         None \<Rightarrow> []
       | Some rateLimit \<Rightarrow>
           concat (map (\<lambda>kind. concat (map (plan_window ctx cost options bucket rateLimit kind) RATE_WINDOWS)) RATE_KINDS)) bs)"

definition window_error :: "window_check \<Rightarrow> counter_answer option \<Rightarrow> refusal list" where
  "window_error check answer =
     (case answer of
        None \<Rightarrow> [RateUnavailable]
      | Some (cnt, resetAt) \<Rightarrow>
          if (if wc_amount check = 0 then cnt \<ge> wc_limit check else cnt > wc_limit check)
          then [RateExceeded (wc_prefix check) (wc_kind check) (wc_window check) cnt (wc_limit check)]
          else [])"

fun check_windows :: "guard_world \<Rightarrow> guard_state \<Rightarrow> QuotaContext \<Rightarrow> window_check list \<Rightarrow> jsnum \<Rightarrow> refusal list \<times> guard_state" where
  "check_windows w s ctx [] now = ([], s)"
| "check_windows w s ctx (check # checks) now =
     (let (answer, s') = incrementRateLimitCounter w s ctx (wc_key check) (window_seconds (wc_window check)) (wc_amount check) now;
          (errors, s'') = check_windows w s' ctx checks now
      in (window_error check answer @ errors, s''))"

text \<open>The check on limits that are resolved, and the whole check.\<close>

definition rate_check ::
  "guard_world \<Rightarrow> guard_state \<Rightarrow> QuotaContext \<Rightarrow> ResolvedLimits \<Rightarrow> RateLimitCost \<Rightarrow> CheckRateLimitOptions \<Rightarrow> jsnum
     \<Rightarrow> QuotaCheckResult \<times> guard_state" where
  "rate_check w s ctx resolved cost options now =
     (if \<not> list_ex (\<lambda>b. lim_rateLimit (b_limits b) \<noteq> None) (buckets resolved) then (allow (effective resolved), s)
      else let (errors, s') = check_windows w s ctx (rate_plan ctx cost options (buckets resolved)) now
           in (decide errors (effective resolved), s'))"

definition checkRateLimit ::
  "guard_world \<Rightarrow> guard_state \<Rightarrow> QuotaContext \<Rightarrow> RateLimitCost \<Rightarrow> CheckRateLimitOptions \<Rightarrow> jsnum
     \<Rightarrow> QuotaCheckResult option \<times> guard_state" where
  "checkRateLimit w s ctx cost options now =
     (case resolveLimits w s ctx now of
        (None, s') \<Rightarrow> (None, s')
      | (Some resolved, s') \<Rightarrow> (let (result, s'') = rate_check w s' ctx resolved cost options now in (Some result, s'')))"

section \<open>The counters as one interface\<close>

definition store_current :: "guard_world \<Rightarrow> string \<Rightarrow> guard_state \<Rightarrow> string \<Rightarrow> jsnum \<Rightarrow> counter_answer option" where
  "store_current w tenantDbName s key now =
     (if w_rateProvider w = RateMongodb then db_current (g_counters s tenantDbName) key now
      else cache_current (g_cache s) (tenantDbName @ '':'' @ key) now)"

definition store_charge :: "guard_world \<Rightarrow> jsnum \<Rightarrow> jsnum" where
  "store_charge w amount = (if w_rateProvider w = RateMongodb then amount else increment_by amount)"

definition store_live :: "guard_world \<Rightarrow> jsnum \<Rightarrow> jsnum \<Rightarrow> bool" where
  "store_live w resetAt now = (if w_rateProvider w = RateMongodb then now \<le> resetAt else now < resetAt)"

definition guard_ok :: "guard_state \<Rightarrow> bool" where
  "guard_ok s \<longleftrightarrow> (\<forall>t. db_ok (g_counters s t)) \<and> cache_ok (g_cache s)"

lemmas store_defs = store_increment_def store_current_def store_charge_def store_live_def guard_ok_def split_beta Let_def

lemma store_counter_db:
  assumes "w_rateProvider w = RateMongodb"
  shows "timed_window_counter (store_increment w t) (store_current w t) (store_charge w) (store_live w) guard_ok"
  using assms
  by unfold_locales
     (auto simp: store_defs db_counter.opens db_counter.adds db_counter.reads_back db_counter.others db_counter.expires
        db_counter.stays_ok db_counter.opens_for db_counter.stays_closed)

lemma store_counter_cache:
  assumes "w_rateProvider w \<noteq> RateMongodb"
  shows "timed_window_counter (store_increment w t) (store_current w t) (store_charge w) (store_live w) guard_ok"
  using assms
  by unfold_locales
     (auto simp: store_defs cache_counter.opens cache_counter.adds cache_counter.reads_back cache_counter.others
        cache_counter.expires cache_counter.stays_ok cache_counter.opens_for cache_counter.stays_closed cache_counter.charges)

interpretation guard_counter: timed_window_counter "store_increment w t" "store_current w t" "store_charge w" "store_live w" guard_ok
  for w t
  by (cases "w_rateProvider w = RateMongodb") (rule store_counter_db store_counter_cache; assumption)+

section \<open>Counter keys\<close>

lemma counter_name_no_colon: "CHR '':'' \<notin> set (counter_name k)"
  by (cases k) simp_all

lemma window_name_no_colon: "CHR '':'' \<notin> set (window_name win)"
  by (cases win) simp_all

lemma window_name_inject: "window_name v = window_name u \<longleftrightarrow> v = u"
  by (cases v; cases u) simp_all

lemma counterScope_not_Nil [simp]: "counterScope ctx b \<noteq> []"
  by (simp add: counterScope_def)

definition counter_prefix :: "CheckRateLimitOptions \<Rightarrow> string" where
  "counter_prefix options = nullish (opt_counterPrefix options) ''rate_limit''"

text \<open>The first segments of a rate key: prefix, domain, counter and window can be read off it.\<close>

lemma rate_key_split:
  assumes "CHR '':'' \<notin> set (counter_prefix options)"
  shows "take 4 (split_on CHR '':'' (rate_key ctx options b kind win)) =
     [counter_prefix options, domain_name (ctx_domain ctx), counter_name kind, window_name win]"
  using assms counter_name_no_colon [of kind] window_name_no_colon [of win] domain_name_no_colon [of "ctx_domain ctx"]
  by (simp add: rate_key_def js_join_Cons split_on_append counter_prefix_def)

lemma rate_key_window:
  assumes "rate_key ctx options b kind win = rate_key ctx' options' b' kind' win'"
    and "CHR '':'' \<notin> set (counter_prefix options)" "CHR '':'' \<notin> set (counter_prefix options')"
  shows "win = win'" "counter_prefix options = counter_prefix options'"
  using rate_key_split [OF assms(2), of ctx b kind win] rate_key_split [OF assms(3), of ctx' b' kind' win'] assms(1)
  by (simp_all add: window_name_inject)

section \<open>A rate limit holds over any run of checks\<close>

text \<open>What a check asks of the counters, and a run of checks one after the other.\<close>

definition check_request :: "jsnum \<Rightarrow> window_check \<Rightarrow> counter_request" where
  "check_request now x =
     \<lparr>req_key = wc_key x, req_window = window_seconds (wc_window x), req_amount = wc_amount x, req_at = now\<rparr>"

definition asked :: "guard_world \<Rightarrow> jsnum \<Rightarrow> window_check list \<Rightarrow> counter_request list" where
  "asked w now checks = map (check_request now) (filter (\<lambda>x. \<not> w_counterFails w (wc_key x) now) checks)"

definition on_counter :: "string \<Rightarrow> jsnum \<Rightarrow> window_check \<Rightarrow> bool" where
  "on_counter key limit x \<longleftrightarrow> wc_key x = key \<and> wc_limit x \<le> limit"

definition charged_to :: "string \<Rightarrow> jsnum \<Rightarrow> window_check list \<Rightarrow> jsnum" where
  "charged_to key limit checks = sum_list (map wc_amount (filter (on_counter key limit) checks))"

record rate_call =
  call_ctx :: QuotaContext
  call_resolved :: ResolvedLimits
  call_cost :: RateLimitCost
  call_options :: CheckRateLimitOptions
  call_at :: jsnum

definition call_plan :: "rate_call \<Rightarrow> window_check list" where
  "call_plan c = rate_plan (call_ctx c) (call_cost c) (call_options c) (buckets (call_resolved c))"

fun rate_calls :: "guard_world \<Rightarrow> guard_state \<Rightarrow> rate_call list \<Rightarrow> (rate_call \<times> bool) list \<times> guard_state" where
  "rate_calls w s [] = ([], s)"
| "rate_calls w s (c # cs) =
     (let (result, s') = rate_check w s (call_ctx c) (call_resolved c) (call_cost c) (call_options c) (call_at c);
          (rest, s'') = rate_calls w s' cs
      in ((c, allowed result) # rest, s''))"

definition admitted_cost :: "string \<Rightarrow> jsnum \<Rightarrow> (rate_call \<times> bool) list \<Rightarrow> jsnum" where
  "admitted_cost key limit outcomes =
     sum_list (map (\<lambda>(c, ok). if ok then charged_to key limit (call_plan c) else 0) outcomes)"

text \<open>The counter that every check of a run belongs to, at any of its instants.\<close>

fun calls_in_span :: "jsnum \<Rightarrow> jsnum \<Rightarrow> rate_call list \<Rightarrow> bool" where
  "calls_in_span t stop [] = True"
| "calls_in_span t stop (c # cs) = (t \<le> call_at c \<and> call_at c < stop \<and> calls_in_span (call_at c) stop cs)"

lemma allowed_decide [simp]: "allowed (decide errors limits) \<longleftrightarrow> errors = []"
  by (simp add: decide_def allow_def refuse_def split: list.splits)

lemma serve_append:
  "serve incr s (xs @ ys) =
     (fst (serve incr s xs) @ fst (serve incr (snd (serve incr s xs)) ys), snd (serve incr (snd (serve incr s xs)) ys))"
  by (induction xs arbitrary: s) (simp_all add: split_beta)

lemma admitted_append: "admitted charge k limit (xs @ ys) = admitted charge k limit xs + admitted charge k limit ys"
  by (induction xs) auto

lemma map_fst_serve: "map fst (fst (serve incr s qs)) = qs"
  by (induction qs arbitrary: s) (simp_all add: split_beta)

lemma admitted_nonneg:
  "(\<And>q. q \<in> set (map fst xs) \<Longrightarrow> 0 \<le> charge (req_amount q)) \<Longrightarrow> 0 \<le> admitted charge k limit xs"
  by (induction xs) auto

lemma rate_plan_amount:
  "x \<in> set (rate_plan ctx cost options bs) \<Longrightarrow>
   wc_amount x = nullish (cost (wc_kind x)) 0 \<and> (\<exists>b \<in> set bs. wc_key x = rate_key ctx options b (wc_kind x) (wc_window x))"
  by (auto simp: rate_plan_def plan_window_def Let_def split: option.splits if_splits)

lemma check_windows_serve:
  assumes "counters_configured w"
  shows "snd (check_windows w s ctx checks now) =
      snd (serve (store_increment w (ctx_tenantDbName ctx)) s (asked w now checks))"
    and "fst (check_windows w s ctx checks now) = [] \<Longrightarrow> (\<And>x. x \<in> set checks \<Longrightarrow> 0 \<le> wc_amount x) \<Longrightarrow>
      charged_to key limit checks
        \<le> admitted (store_charge w) key limit
            (fst (serve (store_increment w (ctx_tenantDbName ctx)) s (asked w now checks)))"
proof (induction checks arbitrary: s)
  case (Cons x checks)
  let ?incr = "store_increment w (ctx_tenantDbName ctx)"
  let ?ans = "\<lambda>s. ?incr s (wc_key x) (window_seconds (wc_window x)) (wc_amount x) now"
  have step: "incrementRateLimitCounter w s ctx (wc_key x) (window_seconds (wc_window x)) (wc_amount x) now =
      (if w_counterFails w (wc_key x) now then (None, s) else (Some (fst (?ans s)), snd (?ans s)))" for s
    using assms by (simp add: incrementRateLimitCounter_def split_beta)
  {
    case 1
    show ?case using Cons.IH(1) by (simp add: step asked_def split_beta check_request_def)
  next
    case 2
    then have ok: "\<not> w_counterFails w (wc_key x) now"
      by (auto simp: step split_beta window_error_def split: if_splits)
    obtain cnt r where answer: "fst (?ans s) = (cnt, r)" by fastforce
    have errors: "window_error x (Some (cnt, r)) = []" "fst (check_windows w (snd (?ans s)) ctx checks now) = []"
      using 2(1) ok answer by (simp_all add: step split_beta)
    then have rest: "charged_to key limit checks \<le> admitted (store_charge w) key limit
        (fst (serve ?incr (snd (?ans s)) (asked w now checks)))"
      using Cons.IH(2) [of "snd (?ans s)"] 2(2) by simp
    have "cnt \<le> wc_limit x" using errors(1) by (simp add: window_error_def split: if_splits)
    moreover have "wc_amount x \<le> store_charge w (wc_amount x)" by (rule guard_counter.charges)
    ultimately show ?case
      using rest ok answer 2(2) [of x]
      by (auto simp: asked_def charged_to_def on_counter_def check_request_def split_beta)
  }
qed (simp_all add: asked_def charged_to_def)

lemma rate_plan_no_rates: "\<not> list_ex (\<lambda>b. lim_rateLimit (b_limits b) \<noteq> None) bs \<Longrightarrow> rate_plan ctx cost options bs = []"
  by (auto simp: rate_plan_def list_ex_iff)

lemma rate_check_windows:
  "snd (rate_check w s ctx resolved cost options now) =
     snd (check_windows w s ctx (rate_plan ctx cost options (buckets resolved)) now)"
  "allowed (fst (rate_check w s ctx resolved cost options now)) \<longleftrightarrow>
     fst (check_windows w s ctx (rate_plan ctx cost options (buckets resolved)) now) = []"
  by (simp_all add: rate_check_def split_beta rate_plan_no_rates allow_def)

text \<open>Costs are not negative.\<close>

definition cost_ok :: "RateLimitCost \<Rightarrow> bool" where
  "cost_ok cost \<longleftrightarrow> (\<forall>kind. 0 \<le> nullish (cost kind) 0)"

definition asked_by :: "guard_world \<Rightarrow> rate_call list \<Rightarrow> counter_request list" where
  "asked_by w cs = concat (map (\<lambda>c. asked w (call_at c) (call_plan c)) cs)"

lemma call_amounts: "cost_ok (call_cost c) \<Longrightarrow> x \<in> set (call_plan c) \<Longrightarrow> 0 \<le> wc_amount x"
  using rate_plan_amount [of x] by (auto simp: call_plan_def cost_ok_def)

lemma asked_amounts:
  "(\<And>c. c \<in> set cs \<Longrightarrow> cost_ok (call_cost c)) \<Longrightarrow> q \<in> set (asked_by w cs) \<Longrightarrow> 0 \<le> req_amount q"
  using call_amounts by (fastforce simp: asked_by_def asked_def check_request_def)

lemma rate_calls_serve:
  assumes "counters_configured w" "\<And>c. c \<in> set cs \<Longrightarrow> ctx_tenantDbName (call_ctx c) = t \<and> cost_ok (call_cost c)"
  shows "admitted_cost key limit (fst (rate_calls w s cs))
     \<le> admitted (store_charge w) key limit (fst (serve (store_increment w t) s (asked_by w cs)))"
  using assms(2)
proof (induction cs arbitrary: s)
  case (Cons c cs)
  let ?asked = "asked w (call_at c) (call_plan c)"
  let ?s = "snd (serve (store_increment w t) s ?asked)"
  have t: "ctx_tenantDbName (call_ctx c) = t" and cost: "cost_ok (call_cost c)" using Cons.prems by auto
  note one = check_windows_serve [OF assms(1), of s "call_ctx c" "call_plan c" "call_at c", unfolded t]
  have state: "snd (rate_check w s (call_ctx c) (call_resolved c) (call_cost c) (call_options c) (call_at c)) = ?s"
    using one(1) by (simp add: rate_check_windows call_plan_def)
  have "0 \<le> admitted (store_charge w) key limit (fst (serve (store_increment w t) s ?asked))"
    using order_trans [OF _ guard_counter.charges] call_amounts [OF cost]
    by (intro admitted_nonneg) (auto simp: map_fst_serve asked_def check_request_def)
  moreover have "charged_to key limit (call_plan c) \<le> admitted (store_charge w) key limit (fst (serve (store_increment w t) s ?asked))"
    if "allowed (fst (rate_check w s (call_ctx c) (call_resolved c) (call_cost c) (call_options c) (call_at c)))"
    using one(2) that call_amounts [OF cost] by (simp add: rate_check_windows call_plan_def)
  moreover have "admitted_cost key limit (fst (rate_calls w ?s cs))
      \<le> admitted (store_charge w) key limit (fst (serve (store_increment w t) ?s (asked_by w cs)))"
    using Cons by simp
  ultimately show ?case
    by (auto simp: split_beta state admitted_cost_def asked_by_def serve_append admitted_append)
qed (simp add: admitted_cost_def asked_by_def)

lemma asked_in_span: "t \<le> now \<Longrightarrow> now < stop \<Longrightarrow> in_span now stop rest \<Longrightarrow> in_span t stop rest \<Longrightarrow> in_span t stop (asked w now xs @ rest)"
  by (induction xs arbitrary: t) (auto simp: asked_def check_request_def)

lemma in_span_earlier: "in_span t stop qs \<Longrightarrow> u \<le> t \<Longrightarrow> in_span u stop qs"
  by (cases qs) auto

lemma calls_asked_in_span: "calls_in_span t stop cs \<Longrightarrow> in_span t stop (asked_by w cs)"
proof (induction cs arbitrary: t)
  case (Cons c cs)
  then show ?case
    using asked_in_span [of t "call_at c" stop "asked_by w cs" w "call_plan c"] in_span_earlier [of "call_at c" stop "asked_by w cs" t]
    by (simp add: asked_by_def)
qed (simp add: asked_by_def)

lemma unconfigured_allows_nothing:
  assumes "\<not> counters_configured w"
  shows "snd (check_windows w s ctx checks now) = s"
    and "fst (check_windows w s ctx checks now) = [] \<Longrightarrow> checks = []"
proof -
  show "snd (check_windows w s ctx checks now) = s"
    using assms by (induction checks) (simp_all add: incrementRateLimitCounter_def split_beta)
  show "fst (check_windows w s ctx checks now) = [] \<Longrightarrow> checks = []"
    using assms by (cases checks) (simp_all add: incrementRateLimitCounter_def split_beta window_error_def)
qed

lemma admitted_cost_unconfigured:
  assumes "\<not> counters_configured w"
  shows "admitted_cost key limit (fst (rate_calls w s cs)) = 0"
proof (induction cs)
  case (Cons c cs)
  have "charged_to key limit (call_plan c) = 0"
    if "allowed (fst (rate_check w s (call_ctx c) (call_resolved c) (call_cost c) (call_options c) (call_at c)))"
    using unconfigured_allows_nothing(2) [OF assms that [unfolded rate_check_windows(2)]] by (simp add: call_plan_def charged_to_def)
  then show ?case
    using Cons unconfigured_allows_nothing(1) [OF assms] by (simp add: admitted_cost_def split_beta rate_check_windows)
qed (simp add: admitted_cost_def)

definition prefix_ok :: "CheckRateLimitOptions \<Rightarrow> bool" where
  "prefix_ok options \<longleftrightarrow> CHR '':'' \<notin> set (counter_prefix options)"

lemma asked_window:
  assumes "\<And>c. c \<in> set cs \<Longrightarrow> prefix_ok (call_options c)" "prefix_ok options"
    and "q \<in> set (asked_by w cs)" "req_key q = rate_key ctx options b kind win"
  shows "req_window q = window_seconds win"
proof -
  obtain c x where x: "c \<in> set cs" "x \<in> set (call_plan c)" "q = check_request (call_at c) x"
    using assms(3) by (auto simp: asked_by_def asked_def)
  then obtain b' where "wc_key x = rate_key (call_ctx c) (call_options c) b' (wc_kind x) (wc_window x)"
    using rate_plan_amount [of x] unfolding call_plan_def by blast
  then have "wc_window x = win"
    using assms(1) [OF x(1)] assms(2,4) x(3) rate_key_window(1) [of "call_ctx c" "call_options c" b' "wc_kind x" "wc_window x" ctx options b kind win]
    by (simp add: check_request_def prefix_ok_def)
  then show ?thesis using x(3) by (simp add: check_request_def)
qed

text \<open>
  C1: A rate limit is never exceeded. Take the counter of any caller, kind and window, closed at some instant, and any
  sequence of checks of the tenant from then until the window's length has passed: by any callers, for any costs,
  on any policies (which may change between the checks), with counters of either provider that may fail now and then.
  What the checks that were allowed charged to that counter under a limit of at most \<open>limit\<close> adds up to at most
  \<open>limit\<close>.
\<close>

theorem rate_limit_never_exceeded:
  assumes "guard_ok s" "0 \<le> limit" "prefix_ok options"
    and "store_current w t s (rate_key ctx options b kind win) start = None"
    and "calls_in_span start (start + window_seconds win * 1000) cs"
    and "\<forall>c\<in>set cs. ctx_tenantDbName (call_ctx c) = t \<and> cost_ok (call_cost c) \<and> prefix_ok (call_options c)"
  shows "admitted_cost (rate_key ctx options b kind win) limit (fst (rate_calls w s cs)) \<le> limit"
proof (cases "counters_configured w")
  case True
  let ?key = "rate_key ctx options b kind win"
  have "admitted (store_charge w) ?key limit (fst (serve (store_increment w t) s (asked_by w cs))) \<le> limit"
    using assms(6) asked_amounts [of cs _ w] asked_window [of cs options _ w ctx b kind win] assms(3)
    by (intro guard_counter.admitted_within_limit [OF assms(1,2,4) calls_asked_in_span [OF assms(5)]]) auto
  then show ?thesis
    using rate_calls_serve [OF True, of cs t ?key limit s] assms(6) by force
next
  case False
  then show ?thesis using assms(2) by (simp add: admitted_cost_unconfigured)
qed

definition sample_world :: "rate_provider \<Rightarrow> guard_world" where
  "sample_world provider =
     \<lparr>w_rateProvider = provider, w_cacheKind = CacheMemory, w_policyTtl = 30, w_cacheFails = False, w_tenants = (\<lambda>i. None),
      w_policyConfig = \<lparr>cfg_licenses = [FREE], cfg_features = []\<rparr>, w_policyReadFails = False, w_memberReadFails = False,
      w_counterFails = (\<lambda>key now. False), w_sweepFails = False, w_requestIp = None,
      w_projects = (\<lambda>t i. Some [''p'', ''q''])\<rparr>"

definition empty_guard :: guard_state where
  "empty_guard =
     \<lparr>g_policies = (\<lambda>t. []), g_members = (\<lambda>t. []), g_counters = (\<lambda>t. \<lparr>rateLimits = [], lastRateLimitSweep = None\<rparr>),
      g_cache = new_cache 300, groupIdsCache = [], g_parsed = []\<rparr>"

definition sample_limits :: QuotaLimits where
  "sample_limits = no_limits\<lparr>lim_rateLimit := Some (\<lambda>k w. if k = RRequests \<and> w = PerMinute then Some 2 else None)\<rparr>"

definition default_options :: CheckRateLimitOptions where
  "default_options = \<lparr>opt_headroom = None, opt_counterPrefix = None\<rparr>"

definition sample_call :: "jsnum \<Rightarrow> rate_call" where
  "sample_call now =
     \<lparr>call_ctx = sample_context, call_resolved = \<lparr>effective = sample_limits, buckets = [subjectBucket sample_context sample_limits]\<rparr>,
      call_cost = (\<lambda>k. if k = RRequests then Some 1 else None), call_options = default_options, call_at = now\<rparr>"

lemma empty_guard_ok: "guard_ok empty_guard"
  by (simp add: guard_ok_def empty_guard_def db_ok_def)

lemma empty_guard_closed: "store_current w t empty_guard key now = None"
  by (simp add: store_current_def empty_guard_def db_current_def cache_current_def new_cache_def)

lemma sample_call_simps [simp]:
  "ctx_tenantDbName (call_ctx (sample_call now)) = ''t''" "call_at (sample_call now) = now"
  "cost_ok (call_cost (sample_call now))" "call_options (sample_call now) = default_options" "prefix_ok default_options"
  by (simp_all add: sample_call_def sample_context_def cost_ok_def prefix_ok_def counter_prefix_def default_options_def)

theorem rate_limit_never_exceeded_witness:
  "admitted_cost (rate_key sample_context default_options (subjectBucket sample_context sample_limits) RRequests PerMinute) 2
     (fst (rate_calls (sample_world RateMemory) empty_guard (map sample_call [0, 1, 2, 59000]))) \<le> 2"
  by (rule rate_limit_never_exceeded [where t = "''t''" and start = 0])
     (simp_all add: empty_guard_ok empty_guard_closed)

section \<open>What a rate check decides\<close>

lemma window_seconds_pos: "0 < window_seconds win"
  by (cases win) simp_all

definition shown :: "guard_world \<Rightarrow> string \<Rightarrow> guard_state \<Rightarrow> string \<Rightarrow> jsnum \<Rightarrow> jsnum" where
  "shown w t s key now = counter_value (store_current w t s key now)"

definition window_passes :: "guard_world \<Rightarrow> string \<Rightarrow> guard_state \<Rightarrow> jsnum \<Rightarrow> window_check \<Rightarrow> bool" where
  "window_passes w t s now x \<longleftrightarrow>
     counters_configured w \<and> \<not> w_counterFails w (wc_key x) now
     \<and> (if wc_amount x = 0 then shown w t s (wc_key x) now < wc_limit x
        else shown w t s (wc_key x) now + store_charge w (wc_amount x) \<le> wc_limit x)"

lemma store_charge_0 [simp]: "store_charge w 0 = 0"
  by (simp add: store_charge_def increment_by_def)

lemma shown_increment:
  assumes "guard_ok s"
  shows "shown w t (snd (store_increment w t s key (window_seconds win) amount now)) key' now =
     shown w t s key' now + (if key' = key then store_charge w amount else 0)"
  using guard_counter.value_after [OF assms window_seconds_pos, of w t key win amount now]
    guard_counter.others [OF assms order_refl, of key' key w t "window_seconds win" amount now]
  by (simp add: shown_def)

lemma increment_answer:
  assumes "counters_configured w" "guard_ok s"
  shows "window_error x (fst (incrementRateLimitCounter w s ctx (wc_key x) (window_seconds (wc_window x)) (wc_amount x) now)) = []
      \<longleftrightarrow> window_passes w (ctx_tenantDbName ctx) s now x"
    and "guard_ok (snd (incrementRateLimitCounter w s ctx (wc_key x) (window_seconds (wc_window x)) (wc_amount x) now))"
    and "shown w (ctx_tenantDbName ctx) (snd (incrementRateLimitCounter w s ctx (wc_key x) (window_seconds (wc_window x)) (wc_amount x) now)) key now =
      shown w (ctx_tenantDbName ctx) s key now
        + (if key = wc_key x \<and> \<not> w_counterFails w key now then store_charge w (wc_amount x) else 0)"
proof -
  let ?answer = "store_increment w (ctx_tenantDbName ctx) s (wc_key x) (window_seconds (wc_window x)) (wc_amount x) now"
  have step: "incrementRateLimitCounter w s ctx (wc_key x) (window_seconds (wc_window x)) (wc_amount x) now =
      (if w_counterFails w (wc_key x) now then (None, s) else (Some (fst ?answer), snd ?answer))"
    using assms(1) by (simp add: incrementRateLimitCounter_def split_beta)
  show "window_error x (fst (incrementRateLimitCounter w s ctx (wc_key x) (window_seconds (wc_window x)) (wc_amount x) now)) = []
      \<longleftrightarrow> window_passes w (ctx_tenantDbName ctx) s now x"
    using assms(1) guard_counter.answer_count [OF assms(2), of w "ctx_tenantDbName ctx" "wc_key x" "window_seconds (wc_window x)" "wc_amount x" now]
    by (cases "fst ?answer") (auto simp: step window_error_def window_passes_def shown_def split: if_splits)
  show "guard_ok (snd (incrementRateLimitCounter w s ctx (wc_key x) (window_seconds (wc_window x)) (wc_amount x) now))"
    using guard_counter.stays_ok [OF assms(2)] assms(2) by (simp add: step)
  show "shown w (ctx_tenantDbName ctx) (snd (incrementRateLimitCounter w s ctx (wc_key x) (window_seconds (wc_window x)) (wc_amount x) now)) key now =
      shown w (ctx_tenantDbName ctx) s key now
        + (if key = wc_key x \<and> \<not> w_counterFails w key now then store_charge w (wc_amount x) else 0)"
    by (auto simp: step shown_increment [OF assms(2)])
qed

text \<open>What a check adds to a counter: the amounts planned for it, whether or not the check is allowed in the end.\<close>

definition counted :: "guard_world \<Rightarrow> window_check list \<Rightarrow> string \<Rightarrow> jsnum \<Rightarrow> jsnum" where
  "counted w checks key now =
     (if w_counterFails w key now then 0
      else sum_list (map (\<lambda>x. store_charge w (wc_amount x)) (filter (\<lambda>x. wc_key x = key) checks)))"

lemma check_windows_decides:
  assumes "counters_configured w" "guard_ok s" "distinct (map wc_key checks)"
  shows "fst (check_windows w s ctx checks now) = []
      \<longleftrightarrow> (\<forall>x\<in>set checks. window_passes w (ctx_tenantDbName ctx) s now x)"
    and "shown w (ctx_tenantDbName ctx) (snd (check_windows w s ctx checks now)) key now =
      shown w (ctx_tenantDbName ctx) s key now + counted w checks key now"
  using assms(2,3)
proof (induction checks arbitrary: s)
  case (Cons x checks)
  let ?t = "ctx_tenantDbName ctx"
  let ?s = "\<lambda>s. snd (incrementRateLimitCounter w s ctx (wc_key x) (window_seconds (wc_window x)) (wc_amount x) now)"
  note step = increment_answer [OF assms(1)]
  {
    case 1
    have "window_passes w ?t (?s s) now y \<longleftrightarrow> window_passes w ?t s now y" if "y \<in> set checks" for y
    proof -
      have "wc_key y \<noteq> wc_key x" using that 1(2) by (auto simp: image_iff)
      then show ?thesis by (simp add: window_passes_def step(3) [OF 1(1)])
    qed
    then show ?case
      using Cons.IH(1) [of "?s s"] 1 step(1,2) by (simp add: split_beta)
  next
    case 2
    then show ?case
      using Cons.IH(2) [of "?s s"] step(2,3) by (simp add: split_beta counted_def)
  }
qed (simp_all add: counted_def)

text \<open>
  A rate check decides exactly by what its counters show. When the counters of a check are different ones, it is allowed
  just when every counter can be reached and stays within its limit with the cost added (or, for a counter that
  is only inspected, is below its limit); with a counter that cannot be reached or counters that are not configured, it is refused. And
  whatever it decides, every counter it reached has been charged, no other one of the tenant.
\<close>

theorem rate_check_decides:
  assumes "guard_ok s" "distinct (map wc_key (rate_plan ctx cost options (buckets resolved)))"
  shows "(allowed (fst (rate_check w s ctx resolved cost options now)) \<longleftrightarrow>
      (\<forall>x\<in>set (rate_plan ctx cost options (buckets resolved)). window_passes w (ctx_tenantDbName ctx) s now x))
    \<and> shown w (ctx_tenantDbName ctx) (snd (rate_check w s ctx resolved cost options now)) key now =
        shown w (ctx_tenantDbName ctx) s key now
        + (if counters_configured w then counted w (rate_plan ctx cost options (buckets resolved)) key now else 0)"
proof (cases "counters_configured w")
  case True
  then show ?thesis using check_windows_decides [OF True assms] by (simp add: rate_check_windows)
next
  case False
  then have "fst (check_windows w s ctx checks now) = [] \<longleftrightarrow> checks = []" for checks
    using unconfigured_allows_nothing(2) [OF False] by auto
  moreover have "(\<forall>x\<in>set checks. window_passes w (ctx_tenantDbName ctx) s now x) \<longleftrightarrow> checks = []" for checks
    using False by (cases checks) (auto simp: window_passes_def)
  ultimately show ?thesis
    using unconfigured_allows_nothing(1) [OF False] False by (simp add: rate_check_windows)
qed

lemma subjectBucket_simps [simp]:
  "b_limits (subjectBucket ctx l) = l" "b_reasonPrefix (subjectBucket ctx l) = ''Rate limit exceeded for''"
  by (simp_all add: subjectBucket_def Let_def)

lemma sample_plan:
  "rate_plan sample_context (\<lambda>k. if k = RRequests then Some 1 else None) default_options [subjectBucket sample_context sample_limits] =
     [\<lparr>wc_key = rate_key sample_context default_options (subjectBucket sample_context sample_limits) RRequests PerMinute,
       wc_kind = RRequests, wc_window = PerMinute, wc_limit = 2, wc_amount = 1, wc_prefix = ''Rate limit exceeded for''\<rparr>]"
  by (simp add: rate_plan_def plan_window_def RATE_KINDS_def RATE_WINDOWS_def sample_limits_def default_options_def)

theorem rate_check_decides_witness:
  "allowed (fst (rate_check (sample_world RateMongodb) empty_guard sample_context
      \<lparr>effective = sample_limits, buckets = [subjectBucket sample_context sample_limits]\<rparr>
      (\<lambda>k. if k = RRequests then Some 1 else None) default_options 5))"
  using rate_check_decides [of empty_guard sample_context "\<lambda>k. if k = RRequests then Some 1 else None" default_options
      "\<lparr>effective = sample_limits, buckets = [subjectBucket sample_context sample_limits]\<rparr>" "sample_world RateMongodb" 5 "''''"]
  by (simp add: empty_guard_ok sample_plan window_passes_def shown_def empty_guard_closed counter_value_def sample_world_def
      counters_configured_def store_charge_def)

text \<open>Counters with another prefix are others.\<close>

lemma other_prefix_untouched:
  assumes "guard_ok s" "prefix_ok options" "prefix_ok options'" "counter_prefix options \<noteq> counter_prefix options'" "now \<le> later"
  shows "store_current w (ctx_tenantDbName ctx) (snd (rate_check w s ctx resolved cost options' now)) (rate_key ctx' options b kind win) later
     = store_current w (ctx_tenantDbName ctx) s (rate_key ctx' options b kind win) later"
proof (cases "counters_configured w")
  case True
  let ?plan = "rate_plan ctx cost options' (buckets resolved)"
  have "wc_key x \<noteq> rate_key ctx' options b kind win" if x: "x \<in> set ?plan" for x
  proof
    assume "wc_key x = rate_key ctx' options b kind win"
    moreover obtain b' where "wc_key x = rate_key ctx options' b' (wc_kind x) (wc_window x)"
      using rate_plan_amount [OF x] by blast
    ultimately show False
      using rate_key_window(2) [of ctx options' b' "wc_kind x" "wc_window x" ctx' options b kind win] assms(2,3,4)
      by (simp add: prefix_ok_def)
  qed
  then have "req_key q \<noteq> rate_key ctx' options b kind win \<and> req_at q \<le> later" if "q \<in> set (asked w now ?plan)" for q
    using assms(5) that by (auto simp: asked_def check_request_def)
  then show ?thesis
    unfolding rate_check_windows check_windows_serve [OF True] by (rule guard_counter.serve_others [OF assms(1)])
next
  case False
  then show ?thesis by (simp add: rate_check_windows unconfigured_allows_nothing)
qed

section \<open>What the other checks decide\<close>

definition cap_reached :: "QuotaLimits \<Rightarrow> limit_path \<Rightarrow> jsnum \<Rightarrow> bool" where
  "cap_reached limits path n \<longleftrightarrow> (\<exists>cap. readPath limits path = Some cap \<and> cap \<noteq> -1 \<and> cap \<le> n)"

definition above_bound :: "QuotaLimits \<Rightarrow> (request_measure \<Rightarrow> jsnum option) \<Rightarrow> per_request_field \<times> request_measure \<Rightarrow> bool" where
  "above_bound limits request fp \<longleftrightarrow>
     (\<exists>bound amount. readPath limits (PerRequestPath (fst fp)) = Some bound \<and> request (snd fp) = Some amount
        \<and> bound \<noteq> -1 \<and> bound < amount)"

lemma exceeds_above_bound: "lim_perRequest limits = Some r \<Longrightarrow> exceeds r request fp \<longleftrightarrow> above_bound limits request fp"
  by (auto simp: exceeds_def above_bound_def split: option.splits)

lemma per_request_first:
  "per_request_decision limits request =
     (case find (above_bound limits request) request_bounds of
        None \<Rightarrow> allow limits
      | Some (field, part) \<Rightarrow>
          refuse (RequestExceeds part (the (request part)) (the (readPath limits (PerRequestPath field)))) limits)"
proof (cases "lim_perRequest limits")
  case None
  then have "find (above_bound limits request) request_bounds = None"
    by (auto simp: find_None_iff above_bound_def)
  then show ?thesis using None by (simp add: per_request_decision_def)
next
  case (Some r)
  have "exceeds r request = above_bound limits request"
    using exceeds_above_bound [OF Some] by blast
  then show ?thesis
    using Some by (auto simp: per_request_decision_def above_bound_def split: option.splits dest!: find_SomeD)
qed

text \<open>
  The checks that keep no counter decide exactly by their bounds. A resource is refused just when its cap is set
  (\<open>-1\<close> meaning unlimited) and the current count has reached it, a session just when the open ones have reached
  the limit, and a request just when some measure it carries is above a bound that is set; the reason names the first such
  bound, in the order of the code, with the measured and the allowed number.
\<close>

theorem stateless_checks_decide:
  "(allowed (resource_decision limits resource n) \<longleftrightarrow> \<not> cap_reached limits (QuotaPath (quotaKeyMap resource)) n)
   \<and> (allowed (concurrency_decision limits domain n) \<longleftrightarrow> \<not> cap_reached limits (PerRequestPath MaxConcurrentRequests) n)
   \<and> (allowed (per_request_decision limits request) \<longleftrightarrow> \<not> list_ex (above_bound limits request) request_bounds)
   \<and> reason (per_request_decision limits request) =
       map_option (\<lambda>(field, part). RequestExceeds part (the (request part)) (the (readPath limits (PerRequestPath field))))
         (find (above_bound limits request) request_bounds)"
proof (intro conjI)
  have "list_ex (above_bound limits request) request_bounds \<longleftrightarrow> find (above_bound limits request) request_bounds \<noteq> None"
    by (auto simp: find_None_iff list_ex_iff)
  then show "allowed (per_request_decision limits request) \<longleftrightarrow> \<not> list_ex (above_bound limits request) request_bounds"
    by (auto simp: per_request_first allow_def refuse_def split: option.splits)
  show "reason (per_request_decision limits request) =
       map_option (\<lambda>(field, part). RequestExceeds part (the (request part)) (the (readPath limits (PerRequestPath field))))
         (find (above_bound limits request) request_bounds)"
    by (auto simp: per_request_first allow_def refuse_def split: option.splits)
qed (auto simp: resource_decision_def concurrency_decision_def allow_def refuse_def cap_reached_def split: option.splits)

end
