(* ===== verification/QuotaBudget.thy ===== *)
theory QuotaBudget
  imports QuotaChecks
begin

text \<open>
  Spend budgets: the part of \<^verbatim>\<open>src/lib/quota/quotaGuard.ts\<close> that counts money. A budget window is read, and debited
  when it is not used up; \<open>settleUsageBudget\<close> debits what a call really cost, \<open>getBudgetUsage\<close> reports.

  Budgets count in millionths of a dollar in the tenant's database, whatever provider counts rates. The two steps of a window,
  the read and the debit, run without another caller's step in between; that another caller may come in between is not modelled.
  A cost may be any double (\<open>js_float\<close>), a configured limit is a number.
\<close>

section \<open>Budgets\<close>

definition MICROS_PER_USD :: jsnum where
  "MICROS_PER_USD = 1000000"

fun usdToMicros :: "js_float \<Rightarrow> jsnum" where
  "usdToMicros (Finite usd) = max 0 (math_round (usd * MICROS_PER_USD))"
| "usdToMicros f = 0"

fun budget_window_name :: "budget_window \<Rightarrow> string" where
  "budget_window_name BudgetPerDay = ''perDay''"
| "budget_window_name BudgetPerMonth = ''perMonth''"

fun budget_window_seconds :: "budget_window \<Rightarrow> jsnum" where
  "budget_window_seconds BudgetPerDay = 86400"
| "budget_window_seconds BudgetPerMonth = 2592000"

definition budgetCounterKey :: "QuotaContext \<Rightarrow> budget_window \<Rightarrow> LimitBucket \<Rightarrow> string" where
  "budgetCounterKey ctx window bucket =
     js_join '':'' ([''budget'', domain_name (ctx_domain ctx), ''usd_micros'', budget_window_name window] @ counterScope ctx bucket)"

text \<open>Budgets are counted in the database whatever the rate limit provider is.\<close>

definition db_increment ::
  "guard_world \<Rightarrow> guard_state \<Rightarrow> string \<Rightarrow> string \<Rightarrow> jsnum \<Rightarrow> jsnum \<Rightarrow> jsnum \<Rightarrow> counter_answer option \<times> guard_state" where
  "db_increment w s tenantDbName key windowSeconds amount now =
     (if w_counterFails w key now then (None, s)
      else let (answer, db) = incrementRateLimit (w_sweepFails w) (g_counters s tenantDbName) key windowSeconds amount now
           in (Some answer, s\<lparr>g_counters := (g_counters s)(tenantDbName := db)\<rparr>))"

definition check_budget_window ::
  "guard_world \<Rightarrow> guard_state \<Rightarrow> QuotaContext \<Rightarrow> LimitBucket \<Rightarrow> budget_window \<Rightarrow> jsnum option \<Rightarrow> jsnum \<Rightarrow> jsnum
     \<Rightarrow> refusal list \<times> guard_state" where
  "check_budget_window w s ctx bucket window limitUsd costMicros now =
     (case limitUsd of
        None \<Rightarrow> ([], s)
      | Some usd \<Rightarrow>
          if usd = -1 then ([], s)
          else
            let limitMicros = usdToMicros (Finite usd);
                key = budgetCounterKey ctx window bucket;
                windowSeconds = budget_window_seconds window
            in case db_increment w s (ctx_tenantDbName ctx) key windowSeconds 0 now of
                 (None, s') \<Rightarrow> ([BudgetUnavailable window], s')
               | (Some (current, resetAt), s') \<Rightarrow>
                   if current \<ge> limitMicros then ([BudgetExceeded window current limitMicros], s')
                   else if costMicros > 0 then
                     (case db_increment w s' (ctx_tenantDbName ctx) key windowSeconds costMicros now of
                        (None, s'') \<Rightarrow> ([BudgetUnavailable window], s'')
                      | (Some (updated, resetAt'), s'') \<Rightarrow>
                          (if updated > limitMicros then [BudgetExceeded window updated limitMicros] else [], s''))
                   else ([], s'))"

fun check_budgets ::
  "guard_world \<Rightarrow> guard_state \<Rightarrow> QuotaContext \<Rightarrow> LimitBucket list \<Rightarrow> jsnum \<Rightarrow> jsnum \<Rightarrow> refusal list \<times> guard_state" where
  "check_budgets w s ctx [] costMicros now = ([], s)"
| "check_budgets w s ctx (bucket # bs) costMicros now =
     (case lim_budget (b_limits bucket) of
        None \<Rightarrow> check_budgets w s ctx bs costMicros now
      | Some budget \<Rightarrow>
          let (daily, s1) = check_budget_window w s ctx bucket BudgetPerDay (dailySpendLimit budget) costMicros now;
              (monthly, s2) = check_budget_window w s1 ctx bucket BudgetPerMonth (monthlySpendLimit budget) costMicros now;
              (errors, s3) = check_budgets w s2 ctx bs costMicros now
          in (daily @ monthly @ errors, s3))"

definition budget_check ::
  "guard_world \<Rightarrow> guard_state \<Rightarrow> QuotaContext \<Rightarrow> ResolvedLimits \<Rightarrow> js_float option \<Rightarrow> jsnum \<Rightarrow> QuotaCheckResult \<times> guard_state" where
  "budget_check w s ctx resolved usd now =
     (if \<not> list_ex (\<lambda>b. lim_budget (b_limits b) \<noteq> None) (buckets resolved) then (allow (effective resolved), s)
      else let (errors, s') = check_budgets w s ctx (buckets resolved) (usdToMicros (nullish usd (Finite 0))) now
           in (decide errors (effective resolved), s'))"

definition checkBudget ::
  "guard_world \<Rightarrow> guard_state \<Rightarrow> QuotaContext \<Rightarrow> js_float option \<Rightarrow> jsnum \<Rightarrow> QuotaCheckResult option \<times> guard_state" where
  "checkBudget w s ctx usd now =
     (case resolveLimits w s ctx now of
        (None, s') \<Rightarrow> (None, s')
      | (Some resolved, s') \<Rightarrow> (let (result, s'') = budget_check w s' ctx resolved usd now in (Some result, s'')))"

definition settleUsageBudget ::
  "guard_world \<Rightarrow> guard_state \<Rightarrow> QuotaContext \<Rightarrow> string \<Rightarrow> js_float \<Rightarrow> jsnum \<Rightarrow> guard_state" where
  "settleUsageBudget w s ctx currency totalCost now =
     (case totalCost of
        Finite usd \<Rightarrow> if currency \<noteq> ''USD'' \<or> usd \<le> 0 then s else snd (checkBudget w s ctx (Some (Finite usd)) now)
      | _ \<Rightarrow> s)"

record BudgetWindowUsage =
  use_limitUsd :: "jsnum option"
  use_usedUsd :: jsnum
  use_remainingUsd :: "jsnum option"

record BudgetUsage =
  use_configured :: bool
  use_perDay :: BudgetWindowUsage
  use_perMonth :: BudgetWindowUsage
  use_alertThresholds :: "jsnum list option"

definition limit_set :: "jsnum option \<Rightarrow> bool" where
  "limit_set limitUsd \<longleftrightarrow> (case limitUsd of None \<Rightarrow> False | Some l \<Rightarrow> l \<noteq> -1)"

definition read_budget_window ::
  "guard_world \<Rightarrow> guard_state \<Rightarrow> QuotaContext \<Rightarrow> budget_window \<Rightarrow> jsnum option \<Rightarrow> jsnum \<Rightarrow> BudgetWindowUsage \<times> guard_state" where
  "read_budget_window w s ctx window limitUsd now =
     (let (answer, s') = db_increment w s (ctx_tenantDbName ctx) (budgetCounterKey ctx window (subjectBucket ctx no_limits))
                           (budget_window_seconds window) 0 now;
          used = (case answer of None \<Rightarrow> 0 | Some (cnt, resetAt) \<Rightarrow> cnt / MICROS_PER_USD);
          limit = (if limit_set limitUsd then limitUsd else None)
      in (\<lparr>use_limitUsd = limit, use_usedUsd = used, use_remainingUsd = map_option (\<lambda>l. max 0 (l - used)) limit\<rparr>, s'))"

definition getBudgetUsage :: "guard_world \<Rightarrow> guard_state \<Rightarrow> QuotaContext \<Rightarrow> jsnum \<Rightarrow> BudgetUsage option \<times> guard_state" where
  "getBudgetUsage w s ctx now =
     (case resolveEffectiveLimits w s ctx now of
        (None, s') \<Rightarrow> (None, s')
      | (Some limits, s') \<Rightarrow>
          (let budget = lim_budget limits;
               daily = (case budget of None \<Rightarrow> None | Some b \<Rightarrow> dailySpendLimit b);
               monthly = (case budget of None \<Rightarrow> None | Some b \<Rightarrow> monthlySpendLimit b);
               (perDay, s1) = read_budget_window w s' ctx BudgetPerDay daily now;
               (perMonth, s2) = read_budget_window w s1 ctx BudgetPerMonth monthly now
           in (Some \<lparr>use_configured = limit_set daily \<or> limit_set monthly, use_perDay = perDay, use_perMonth = perMonth,
                     use_alertThresholds = (case budget of None \<Rightarrow> None | Some b \<Rightarrow> alertThresholds b)\<rparr>, s2)))"

section \<open>A window of a budget\<close>

text \<open>What has been spent in the open window of a key, and the windows a caller's budgets name.\<close>

definition spend :: "string \<Rightarrow> guard_state \<Rightarrow> string \<Rightarrow> jsnum \<Rightarrow> jsnum" where
  "spend t s key now = counter_value (db_current (g_counters s t) key now)"

definition counters_ok :: "guard_state \<Rightarrow> bool" where
  "counters_ok s \<longleftrightarrow> (\<forall>t. db_ok (g_counters s t))"

definition planned_window :: "QuotaContext \<Rightarrow> LimitBucket \<Rightarrow> budget_window \<Rightarrow> jsnum option \<Rightarrow> (string \<times> budget_window \<times> jsnum) list" where
  "planned_window ctx bucket window limitUsd =
     (case limitUsd of
        None \<Rightarrow> []
      | Some usd \<Rightarrow> if usd = -1 then [] else [(budgetCounterKey ctx window bucket, window, usdToMicros (Finite usd))])"

definition budget_plan :: "QuotaContext \<Rightarrow> LimitBucket list \<Rightarrow> (string \<times> budget_window \<times> jsnum) list" where
  "budget_plan ctx bs =
     concat (map (\<lambda>b. case lim_budget (b_limits b) of
         None \<Rightarrow> []
       | Some budget \<Rightarrow> planned_window ctx b BudgetPerDay (dailySpendLimit budget)
                       @ planned_window ctx b BudgetPerMonth (monthlySpendLimit budget)) bs)"

definition debit :: "guard_world \<Rightarrow> guard_state \<Rightarrow> string \<Rightarrow> string \<times> budget_window \<times> jsnum \<Rightarrow> jsnum \<Rightarrow> jsnum \<Rightarrow> refusal list \<times> guard_state" where
  "debit w s t entry costMicros now =
     (let (key, window, limitMicros) = entry;
          windowSeconds = budget_window_seconds window
      in case db_increment w s t key windowSeconds 0 now of
           (None, s') \<Rightarrow> ([BudgetUnavailable window], s')
         | (Some (current, resetAt), s') \<Rightarrow>
             if current \<ge> limitMicros then ([BudgetExceeded window current limitMicros], s')
             else if costMicros > 0 then
               (case db_increment w s' t key windowSeconds costMicros now of
                  (None, s'') \<Rightarrow> ([BudgetUnavailable window], s'')
                | (Some (updated, resetAt'), s'') \<Rightarrow>
                    (if updated > limitMicros then [BudgetExceeded window updated limitMicros] else [], s''))
             else ([], s'))"

fun debit_all ::
  "guard_world \<Rightarrow> guard_state \<Rightarrow> string \<Rightarrow> (string \<times> budget_window \<times> jsnum) list \<Rightarrow> jsnum \<Rightarrow> jsnum \<Rightarrow> refusal list \<times> guard_state" where
  "debit_all w s t [] costMicros now = ([], s)"
| "debit_all w s t (entry # entries) costMicros now =
     (let (errors, s') = debit w s t entry costMicros now; (rest, s'') = debit_all w s' t entries costMicros now
      in (errors @ rest, s''))"

lemma debit_all_append:
  "debit_all w s t (xs @ ys) c now =
     (fst (debit_all w s t xs c now) @ fst (debit_all w (snd (debit_all w s t xs c now)) t ys c now),
      snd (debit_all w (snd (debit_all w s t xs c now)) t ys c now))"
  by (induction xs arbitrary: s) (simp_all add: split_beta)

lemma check_budget_window_planned:
  "check_budget_window w s ctx b win limitUsd c now = debit_all w s (ctx_tenantDbName ctx) (planned_window ctx b win limitUsd) c now"
  by (auto simp: check_budget_window_def planned_window_def debit_def Let_def split_beta split: option.splits prod.splits)

lemma check_budgets_planned: "check_budgets w s ctx bs c now = debit_all w s (ctx_tenantDbName ctx) (budget_plan ctx bs) c now"
  by (induction bs arbitrary: s)
     (simp_all add: budget_plan_def check_budget_window_planned debit_all_append split_beta split: option.splits)

lemma budget_check_planned:
  "allowed (fst (budget_check w s ctx resolved usd now)) \<longleftrightarrow>
     fst (debit_all w s (ctx_tenantDbName ctx) (budget_plan ctx (buckets resolved)) (usdToMicros (nullish usd (Finite 0))) now) = []"
  "snd (budget_check w s ctx resolved usd now) =
     snd (debit_all w s (ctx_tenantDbName ctx) (budget_plan ctx (buckets resolved)) (usdToMicros (nullish usd (Finite 0))) now)"
proof -
  have "\<not> list_ex (\<lambda>b. lim_budget (b_limits b) \<noteq> None) (buckets resolved) \<Longrightarrow> budget_plan ctx (buckets resolved) = []"
    by (auto simp: budget_plan_def list_ex_iff)
  then show "allowed (fst (budget_check w s ctx resolved usd now)) \<longleftrightarrow>
     fst (debit_all w s (ctx_tenantDbName ctx) (budget_plan ctx (buckets resolved)) (usdToMicros (nullish usd (Finite 0))) now) = []"
    "snd (budget_check w s ctx resolved usd now) =
     snd (debit_all w s (ctx_tenantDbName ctx) (budget_plan ctx (buckets resolved)) (usdToMicros (nullish usd (Finite 0))) now)"
    by (simp_all add: budget_check_def check_budgets_planned split_beta allow_def)
qed

lemma budget_window_seconds_pos: "0 < budget_window_seconds win"
  by (cases win) simp_all

lemma db_increment_ok:
  assumes "counters_ok s"
  shows "counters_ok (snd (db_increment w s t key (budget_window_seconds win) amount now))"
    and "spend t (snd (db_increment w s t key (budget_window_seconds win) amount now)) key' now =
      spend t s key' now + (if key' = key \<and> \<not> w_counterFails w key now then amount else 0)"
    and "fst (db_increment w s t key (budget_window_seconds win) amount now) = None \<longleftrightarrow> w_counterFails w key now"
    and "fst (db_increment w s t key (budget_window_seconds win) amount now) = Some (cnt, r) \<Longrightarrow> cnt = spend t s key now + amount"
proof -
  have ok: "db_ok (g_counters s t)" using assms by (simp add: counters_ok_def)
  show "counters_ok (snd (db_increment w s t key (budget_window_seconds win) amount now))"
    using assms db_counter.stays_ok [OF ok] by (auto simp: db_increment_def counters_ok_def split_beta)
  show "spend t (snd (db_increment w s t key (budget_window_seconds win) amount now)) key' now =
      spend t s key' now + (if key' = key \<and> \<not> w_counterFails w key now then amount else 0)"
    using db_counter.value_after [OF ok budget_window_seconds_pos, of "w_sweepFails w" key win amount now]
      db_counter.others [OF ok order_refl, of key' key "w_sweepFails w" "budget_window_seconds win" amount now]
    by (auto simp: db_increment_def spend_def split_beta)
  show "fst (db_increment w s t key (budget_window_seconds win) amount now) = None \<longleftrightarrow> w_counterFails w key now"
    by (simp add: db_increment_def split_beta)
  show "cnt = spend t s key now + amount" if "fst (db_increment w s t key (budget_window_seconds win) amount now) = Some (cnt, r)"
    using that db_counter.answer_count [OF ok, of "w_sweepFails w" key "budget_window_seconds win" amount now]
    by (auto simp: db_increment_def spend_def split_beta split: if_splits)
qed

text \<open>A window is debited just when it was below its limit; it is refused when it was not, or no longer is.\<close>

lemma debit_window:
  assumes "counters_ok s" "0 \<le> c"
  shows "counters_ok (snd (debit w s t (key, win, limit) c now))"
    and "fst (debit w s t (key, win, limit) c now) = [] \<longleftrightarrow>
      \<not> w_counterFails w key now \<and> spend t s key now < limit \<and> spend t s key now + c \<le> limit"
    and "spend t (snd (debit w s t (key, win, limit) c now)) key' now =
      spend t s key' now + (if key' = key \<and> \<not> w_counterFails w key now \<and> spend t s key now < limit then c else 0)"
proof -
  let ?a = "db_increment w s t key (budget_window_seconds win) 0 now"
  let ?b = "db_increment w (snd ?a) t key (budget_window_seconds win) c now"
  have a: "counters_ok (snd ?a)" "\<And>k. spend t (snd ?a) k now = spend t s k now"
    using db_increment_ok(1,2) [OF assms(1)] by simp_all
  have step: "debit w s t (key, win, limit) c now =
      (if w_counterFails w key now then ([BudgetUnavailable win], snd ?a)
       else if limit \<le> spend t s key now then ([BudgetExceeded win (spend t s key now) limit], snd ?a)
       else if 0 < c then
         (if limit < spend t s key now + c then [BudgetExceeded win (spend t s key now + c) limit] else [], snd ?b)
       else ([], snd ?a))"
  proof -
    obtain x sa where x: "?a = (x, sa)" by fastforce
    obtain y sb where y: "?b = (y, sb)" by fastforce
    have "x = None \<longleftrightarrow> w_counterFails w key now" "y = None \<longleftrightarrow> w_counterFails w key now"
      using db_increment_ok(3) [OF assms(1), of w t key win 0 now] db_increment_ok(3) [OF a(1), of w t key win c now] x y by simp_all
    moreover have "x = Some (cnt, r) \<Longrightarrow> cnt = spend t s key now" for cnt r
      using db_increment_ok(4) [OF assms(1), of w t key win 0 now cnt r] x by simp
    moreover have "y = Some (cnt, r) \<Longrightarrow> cnt = spend t s key now + c" for cnt r
      using db_increment_ok(4) [OF a(1), of w t key win c now cnt r] a(2) y by simp
    ultimately show ?thesis
      using y x by (cases x; cases y) (auto simp: debit_def Let_def)
  qed
  show "counters_ok (snd (debit w s t (key, win, limit) c now))"
    using a(1) db_increment_ok(1) [OF a(1)] by (simp add: step)
  show "fst (debit w s t (key, win, limit) c now) = [] \<longleftrightarrow>
      \<not> w_counterFails w key now \<and> spend t s key now < limit \<and> spend t s key now + c \<le> limit"
    using assms(2) by (auto simp: step not_le)
  show "spend t (snd (debit w s t (key, win, limit) c now)) key' now =
      spend t s key' now + (if key' = key \<and> \<not> w_counterFails w key now \<and> spend t s key now < limit then c else 0)"
    using assms(2) a(2) db_increment_ok(2) [OF a(1), of t w key win c now key'] by (auto simp: step)
qed

section \<open>What budgets decide and count\<close>

lemma debit_all_reads:
  assumes "counters_ok s"
  shows "(fst (debit_all w s t entries 0 now) = [] \<longleftrightarrow>
      (\<forall>(key, win, limit)\<in>set entries. \<not> w_counterFails w key now \<and> spend t s key now < limit))
    \<and> (\<forall>key. spend t (snd (debit_all w s t entries 0 now)) key now = spend t s key now)"
  using assms
proof (induction entries arbitrary: s)
  case (Cons e entries)
  obtain key win limit where e: "e = (key, win, limit)" by (cases e) auto
  note d = debit_window [OF Cons.prems order_refl]
  have same: "spend t (snd (debit w s t (key, win, limit) 0 now)) k now = spend t s k now" for k
    by (simp add: d(3))
  show ?case
    using Cons.IH [OF d(1) [of w t key win limit now]] d(2) [of w t key win limit now]
    by (auto simp: e split_beta same)
qed simp

lemma debit_all_debits:
  assumes "counters_ok s" "0 \<le> c" "distinct (map fst entries)" "\<And>key. \<not> w_counterFails w key now"
  shows "(\<forall>(key, win, limit)\<in>set entries. spend t (snd (debit_all w s t entries c now)) key now =
      spend t s key now + (if spend t s key now < limit then c else 0))
    \<and> (\<forall>key. key \<notin> fst ` set entries \<longrightarrow> spend t (snd (debit_all w s t entries c now)) key now = spend t s key now)"
  using assms(1,3)
proof (induction entries arbitrary: s)
  case (Cons e entries)
  obtain key win limit where e: "e = (key, win, limit)" by (cases e) auto
  note d = debit_window [OF Cons.prems(1) assms(2)]
  let ?s = "snd (debit w s t (key, win, limit) c now)"
  have other: "spend t ?s k now = spend t s k now" if "k \<noteq> key" for k
    using that by (simp add: d(3))
  have IH: "(\<forall>(key, win, limit)\<in>set entries. spend t (snd (debit_all w ?s t entries c now)) key now =
      spend t ?s key now + (if spend t ?s key now < limit then c else 0))
    \<and> (\<forall>key. key \<notin> fst ` set entries \<longrightarrow> spend t (snd (debit_all w ?s t entries c now)) key now = spend t ?s key now)"
    using Cons.IH [OF d(1) [of w t key win limit now]] Cons.prems(2) by simp
  have "key \<notin> fst ` set entries" using Cons.prems(2) e by auto
  then have "\<forall>(k, win, limit)\<in>set entries. k \<noteq> key" by force
  then show ?case
    using IH \<open>key \<notin> fst ` set entries\<close> assms(4)
    by (fastforce simp: e split_beta other d(3))
qed simp

lemma callerGroupIds_counters: "g_counters (snd (callerGroupIds w s ctx ps now)) = g_counters s"
  by (auto simp: callerGroupIds_def Let_def split: option.splits)

lemma loadPolicySource_counters: "g_counters (snd (loadPolicySource w s ctx now)) = g_counters s"
  by (auto simp: loadPolicySource_def cached_source_def cache_source_def Let_def split_beta split: option.splits prod.splits if_splits)

lemma resolveLimits_counters: "g_counters (snd (resolveLimits w s ctx now)) = g_counters s"
proof -
  obtain a s1 where a: "loadPolicySource w s ctx now = (a, s1)" by fastforce
  have s1: "g_counters s1 = g_counters s" using loadPolicySource_counters [of w s ctx now] a by simp
  show ?thesis
  proof (cases a)
    case (Some source)
    obtain b s2 where b: "callerGroupIds w s1 ctx (source_policies source) now = (b, s2)" by fastforce
    have "g_counters s2 = g_counters s1" using callerGroupIds_counters [of w s1 ctx "source_policies source" now] b by simp
    then show ?thesis using a s1 b Some by (cases b) (simp_all add: resolveLimits_def split_beta)
  qed (simp add: resolveLimits_def a s1)
qed

lemma spend_cong: "g_counters s = g_counters s' \<Longrightarrow> spend t s key now = spend t s' key now"
  by (simp add: spend_def)

lemma counters_ok_cong: "g_counters s = g_counters s' \<Longrightarrow> counters_ok s = counters_ok s'"
  by (simp add: counters_ok_def)

text \<open>
  The budget gate before a call only reads. Asked without a cost, \<open>checkBudget\<close> allows the call just when every budget
  window that applies to the caller can be read and has spent less than its limit, so a window that cannot be read
  refuses the call; and no spend of the tenant is changed by asking.
\<close>

theorem budget_gate_reads_only:
  assumes "counters_ok s" "fst (resolveLimits w s ctx now) = Some resolved"
  shows "(\<exists>result. fst (checkBudget w s ctx None now) = Some result \<and>
      (allowed result \<longleftrightarrow> (\<forall>(key, win, limit)\<in>set (budget_plan ctx (buckets resolved)).
         \<not> w_counterFails w key now \<and> spend (ctx_tenantDbName ctx) s key now < limit)))
    \<and> (\<forall>key. spend (ctx_tenantDbName ctx) (snd (checkBudget w s ctx None now)) key now = spend (ctx_tenantDbName ctx) s key now)"
proof -
  obtain s' where s': "resolveLimits w s ctx now = (Some resolved, s')" using assms(2) by (metis prod.collapse)
  have counters: "g_counters s' = g_counters s" using resolveLimits_counters [of w s ctx now] s' by simp
  have "counters_ok s'" using assms(1) counters counters_ok_cong by blast
  note reads = debit_all_reads [OF this, of w "ctx_tenantDbName ctx" "budget_plan ctx (buckets resolved)" now]
  show ?thesis
    using reads spend_cong [OF counters] by (auto simp: checkBudget_def s' split_beta budget_check_planned)
qed

text \<open>Limits are resolved whenever the database can be read.\<close>

lemma resolveLimits_succeeds:
  assumes "\<not> w_policyReadFails w" "\<not> w_memberReadFails w"
  shows "fst (resolveLimits w s ctx now) \<noteq> None"
proof -
  have "fst (loadPolicySource w s ctx now) \<noteq> None" for s
    using assms(1) by (auto simp: loadPolicySource_def Let_def split: option.splits prod.splits)
  moreover have "fst (callerGroupIds w s ctx ps now) \<noteq> None" for s ps
    using assms(2) by (auto simp: callerGroupIds_def loadGroupIds_def Let_def split: option.splits)
  ultimately show ?thesis
    by (auto simp: resolveLimits_def split_beta split: option.splits prod.splits) (metis option.distinct(1))
qed

definition sample_budget :: "jsnum \<Rightarrow> QuotaPolicy" where
  "sample_budget daily =
     (sample_policy ''d'' ScopeTenant Null 0 9)\<lparr>pol_limits := no_limits\<lparr>lim_budget :=
        Some \<lparr>dailySpendLimit = Some daily, monthlySpendLimit = Some (-1), alertThresholds = None\<rparr>\<rparr>\<rparr>"

definition budget_guard :: guard_state where
  "budget_guard = empty_guard\<lparr>g_policies := (\<lambda>t. if t = ''t'' then [sample_budget 1] else [])\<rparr>"

lemma budget_guard_ok: "counters_ok budget_guard"
  by (simp add: budget_guard_def empty_guard_def counters_ok_def db_ok_def)

lemma budget_guard_resolves:
  "fst (resolveLimits (sample_world p) budget_guard sample_context now) =
     Some (the (fst (resolveLimits (sample_world p) budget_guard sample_context now)))"
  using resolveLimits_succeeds [of "sample_world p" budget_guard sample_context now] by (simp add: sample_world_def)

theorem budget_gate_reads_only_witness:
  "spend ''t'' (snd (checkBudget (sample_world RateMongodb) budget_guard sample_context None 5)) ''budget:llm'' 5 = 0"
  using budget_gate_reads_only [OF budget_guard_ok budget_guard_resolves, of RateMongodb 5]
  by (simp add: sample_context_def spend_def budget_guard_def empty_guard_def db_current_def counter_value_def)

text \<open>
  C33: What a settlement debits. When a call's real cost is settled, each budget window that applies to the caller is debited with the
  whole cost, in millionths of a dollar, just when it was still below its limit: a window that had reached its limit keeps
  its spend, and the cost of the call is not recorded there.
\<close>

theorem settlement_debits_open_windows:
  assumes "counters_ok s" "fst (resolveLimits w s ctx now) = Some resolved" "0 < usd"
    and "distinct (map fst (budget_plan ctx (buckets resolved)))" "\<forall>key. \<not> w_counterFails w key now"
    and "(key, win, limit) \<in> set (budget_plan ctx (buckets resolved))"
  shows "spend (ctx_tenantDbName ctx) (settleUsageBudget w s ctx ''USD'' (Finite usd) now) key now =
     spend (ctx_tenantDbName ctx) s key now
       + (if spend (ctx_tenantDbName ctx) s key now < limit then math_round (usd * MICROS_PER_USD) else 0)"
proof -
  obtain s' where s': "resolveLimits w s ctx now = (Some resolved, s')" using assms(2) by (metis prod.collapse)
  have counters: "g_counters s' = g_counters s" using resolveLimits_counters [of w s ctx now] s' by simp
  have ok: "counters_ok s'" using assms(1) counters counters_ok_cong by blast
  have micros: "usdToMicros (Finite usd) = math_round (usd * MICROS_PER_USD)"
    using assms(3) math_round_nonneg [of "usd * MICROS_PER_USD"] by (simp add: MICROS_PER_USD_def)
  have "0 \<le> usdToMicros (Finite usd)" by simp
  note debits = debit_all_debits [OF ok this assms(4), of w now "ctx_tenantDbName ctx"]
  show ?thesis
    using debits assms(3,5,6) spend_cong [OF counters]
    by (auto simp: settleUsageBudget_def checkBudget_def s' split_beta budget_check_planned micros simp del: usdToMicros.simps)
qed

lemma budget_guard_plan:
  "budget_plan sample_context (buckets (the (fst (resolveLimits (sample_world RateMongodb) budget_guard sample_context 5)))) =
     [(budgetCounterKey sample_context BudgetPerDay (subjectBucket sample_context no_limits), BudgetPerDay, 1000000)]"
  by (simp add: resolveLimits_def loadPolicySource_def cached_source_def read_source_def cache_source_def callerGroupIds_def
      resolve_loaded_def client_for_def resolve_matching_def applicable_policies_def mergePolicies_def merged_part_def
      isSharedGroupPolicy_def mergeLimits_def merge_budget_def matchesScope_def matchesDomain_def fetchPolicies_def
      listQuotaPolicies_def listTenantWideQuotaPolicies_def policy_order_def in_project_def given_project_def has_no_project_def
      budget_guard_def empty_guard_def new_cache_def cache_get_def sample_world_def sample_context_def sample_budget_def sample_policy_def
      limits_base_def getQuotaLimitsForTenant_def getEffectiveLicenseForTenant_def toQuotaLimits_def no_limits_def
      budget_plan_def planned_window_def MICROS_PER_USD_def Let_def budgetCounterKey_def counterScope_def subjectBucket_def)

theorem settlement_debits_open_windows_witness:
  "spend ''t'' (settleUsageBudget (sample_world RateMongodb) budget_guard sample_context ''USD'' (Finite 2) 5)
     (budgetCounterKey sample_context BudgetPerDay (subjectBucket sample_context no_limits)) 5 = 2000000"
proof -
  have "ctx_tenantDbName sample_context = ''t''" "\<not> w_counterFails (sample_world RateMongodb) key 5" "spend ''t'' budget_guard key 5 = 0" for key
    by (simp_all add: sample_context_def sample_world_def spend_def budget_guard_def empty_guard_def db_current_def counter_value_def)
  then show ?thesis
    using settlement_debits_open_windows [OF budget_guard_ok budget_guard_resolves, of 2 RateMongodb 5
        "budgetCounterKey sample_context BudgetPerDay (subjectBucket sample_context no_limits)" BudgetPerDay 1000000]
    by (simp add: budget_guard_plan MICROS_PER_USD_def)
qed

end
