(* ===== verification/QuotaService.thy ===== *)
theory QuotaService
  imports QuotaBudget
begin

text \<open>
  What stands around the quota guard.

  \<^item> \<^verbatim>\<open>src/lib/quota/serviceQuota.ts\<close>: the context a service builds for its own call, the check at its entry and the usage
    it records afterwards. The request context (\<^verbatim>\<open>AsyncLocalStorage\<close>) is an argument.
  \<^item> \<^verbatim>\<open>src/lib/quota/shadowLlmQuota.ts\<close>: the same limits counted on counters of their own.
  \<^item> \<^verbatim>\<open>src/lib/services/quota/quotaService.ts\<close>: the writes of the policy API and the invalidation of the cached policies that
    follows each (their interleaving with loads is in \<^verbatim>\<open>PolicyRaces.thy\<close>). Naming the targets of policies for the table of limits (\<^verbatim>\<open>describeQuotaPolicies\<close>) is presentation and left out.
\<close>

section \<open>The quota check of a service\<close>

definition str :: "string option \<Rightarrow> string option" where
  "str value = (case value of Some v \<Rightarrow> if js_trim v \<noteq> [] then Some v else None | None \<Rightarrow> None)"

record ServiceQuotaScope =
  sc_tenantDbName :: "string option"
  sc_tenantId :: "string option"
  sc_projectId :: "string option"
  sc_userId :: "string option"
  sc_tokenId :: "string option"
  sc_clientIp :: "string option"

record ServiceQuotaCheck =
  sq_domain :: QuotaDomain
  sq_resourceKey :: "string option"
  sq_providerKey :: "string option"
  sq_cost :: "RateLimitCost option"
  sq_headroom :: "QuotaRateKind list option"
  sq_concurrency :: "jsnum option"

record RequestContext =
  rq_tenantId :: "string option"
  rq_projectId :: "string option"
  rq_userId :: "string option"
  rq_apiTokenId :: "string option"
  rq_clientIp :: "string option"

definition speaks_for :: "RequestContext \<Rightarrow> string option \<Rightarrow> bool" where
  "speaks_for request tenantId \<longleftrightarrow>
     rq_tenantId request = None \<or> rq_tenantId request = Some [] \<or> tenantId = None \<or> rq_tenantId request = tenantId"

definition serviceQuotaContext :: "RequestContext option \<Rightarrow> ServiceQuotaScope \<Rightarrow> ServiceQuotaCheck \<Rightarrow> QuotaContext option" where
  "serviceQuotaContext request scope check =
     (let tenantId = str (sc_tenantId scope);
          inherit = (\<lambda>field. case request of
                       None \<Rightarrow> None
                     | Some r \<Rightarrow> if speaks_for r tenantId then str (field r) else None)
      in case (str (sc_tenantDbName scope), tenantId, opt_or (str (sc_projectId scope)) (inherit rq_projectId)) of
           (Some db, Some tenant, Some project) \<Rightarrow>
             Some \<lparr>ctx_tenantDbName = db, ctx_tenantId = tenant, ctx_projectId = project,
                   ctx_userId = opt_or (str (sc_userId scope)) (inherit rq_userId),
                   ctx_tokenId = opt_or (str (sc_tokenId scope)) (inherit rq_apiTokenId),
                   ctx_groupIds = None, ctx_domain = sq_domain check,
                   ctx_resourceKey = str (sq_resourceKey check), ctx_providerKey = str (sq_providerKey check),
                   ctx_clientIp = opt_or (str (sc_clientIp scope)) (inherit rq_clientIp)\<rparr>
         | _ \<Rightarrow> None)"

datatype service_outcome = NotChecked | CheckedAs QuotaContext | QuotaExceededError "refusal option" | GuardFailed

definition one_request :: RateLimitCost where
  "one_request kind = (if kind = RRequests then Some 1 else None)"

definition rate_outcome :: "QuotaContext \<Rightarrow> QuotaCheckResult option \<Rightarrow> service_outcome" where
  "rate_outcome ctx result =
     (case result of
        None \<Rightarrow> GuardFailed
      | Some r \<Rightarrow> if allowed r then CheckedAs ctx else QuotaExceededError (reason r))"

definition enforceServiceQuota ::
  "guard_world \<Rightarrow> guard_state \<Rightarrow> RequestContext option \<Rightarrow> ServiceQuotaScope \<Rightarrow> ServiceQuotaCheck \<Rightarrow> jsnum
     \<Rightarrow> service_outcome \<times> guard_state" where
  "enforceServiceQuota w s request scope check now =
     (case serviceQuotaContext request scope check of
        None \<Rightarrow> (NotChecked, s)
      | Some ctx \<Rightarrow>
          (let rate = (\<lambda>s. let (result, s') = checkRateLimit w s ctx (nullish (sq_cost check) one_request)
                                  \<lparr>opt_headroom = sq_headroom check, opt_counterPrefix = None\<rparr> now
                           in (rate_outcome ctx result, s'))
           in case sq_concurrency check of
                None \<Rightarrow> rate s
              | Some active \<Rightarrow>
                  (case checkConcurrency w s ctx active now of
                     (None, s') \<Rightarrow> (GuardFailed, s')
                   | (Some concurrent, s') \<Rightarrow>
                       if \<not> allowed concurrent then (QuotaExceededError (reason concurrent), s') else rate s')))"

definition total_cost :: "RateLimitCost \<Rightarrow> jsnum" where
  "total_cost cost = sum_list (map (\<lambda>kind. nullish (cost kind) 0) RATE_KINDS)"

definition no_options :: CheckRateLimitOptions where
  "no_options = \<lparr>opt_headroom = None, opt_counterPrefix = None\<rparr>"

definition recordServiceUsage :: "guard_world \<Rightarrow> guard_state \<Rightarrow> QuotaContext option \<Rightarrow> RateLimitCost \<Rightarrow> jsnum \<Rightarrow> guard_state" where
  "recordServiceUsage w s context cost now =
     (case context of
        None \<Rightarrow> s
      | Some ctx \<Rightarrow> if total_cost cost \<le> 0 then s else snd (checkRateLimit w s ctx cost no_options now))"

section \<open>Shadow counters\<close>

definition SHADOW_COUNTER_PREFIX :: string where
  "SHADOW_COUNTER_PREFIX = ''rate_limit_shadow''"

record InternalLlmCall =
  llm_tenantDbName :: string
  llm_tenantId :: "string option"
  llm_projectId :: string
  llm_modelKey :: string

record TokenUsage =
  usage_inputTokens :: "jsnum option"
  usage_outputTokens :: "jsnum option"
  usage_totalTokens :: "jsnum option"

definition usage_tokens :: "TokenUsage option \<Rightarrow> jsnum" where
  "usage_tokens usage =
     (case usage of
        None \<Rightarrow> 0
      | Some u \<Rightarrow> nullish (usage_totalTokens u) (nullish (usage_inputTokens u) 0 + nullish (usage_outputTokens u) 0))"

definition shadow_options :: CheckRateLimitOptions where
  "shadow_options = \<lparr>opt_headroom = None, opt_counterPrefix = Some SHADOW_COUNTER_PREFIX\<rparr>"

definition shadow_context :: "RequestContext option \<Rightarrow> InternalLlmCall \<Rightarrow> QuotaContext option" where
  "shadow_context request call =
     serviceQuotaContext request
       \<lparr>sc_tenantDbName = Some (llm_tenantDbName call), sc_tenantId = llm_tenantId call, sc_projectId = Some (llm_projectId call),
        sc_userId = None, sc_tokenId = None, sc_clientIp = None\<rparr>
       \<lparr>sq_domain = DLlm, sq_resourceKey = Some (llm_modelKey call), sq_providerKey = None, sq_cost = None, sq_headroom = None,
        sq_concurrency = None\<rparr>"

text \<open>The answer is the refusal that would be logged.\<close>

definition shadowInternalLlmUsage ::
  "guard_world \<Rightarrow> guard_state \<Rightarrow> RequestContext option \<Rightarrow> InternalLlmCall \<Rightarrow> TokenUsage option \<Rightarrow> jsnum
     \<Rightarrow> refusal option \<times> guard_state" where
  "shadowInternalLlmUsage w s request call usage now =
     (case shadow_context request call of
        None \<Rightarrow> (None, s)
      | Some ctx \<Rightarrow>
          (let (result, s') = checkRateLimit w s ctx
                 (\<lambda>kind. if kind = RRequests then Some 1 else if kind = RTokens then Some (usage_tokens usage) else None)
                 shadow_options now
           in (case result of None \<Rightarrow> None | Some r \<Rightarrow> if allowed r then None else reason r, s')))"

section \<open>Policy writes\<close>

definition named_projects :: "string option list \<Rightarrow> string list" where
  "named_projects projectIds = js_unique (concat (map (\<lambda>p. case given_project p of None \<Rightarrow> [] | Some i \<Rightarrow> [i]) projectIds))"

definition drop_cached :: "guard_world \<Rightarrow> string \<Rightarrow> string \<Rightarrow> string list \<Rightarrow> guard_state \<Rightarrow> guard_state" where
  "drop_cached w t tenantId targets s =
     (if w_cacheKind w = CacheMemory
      then s\<lparr>g_cache := fold (\<lambda>p cache. cache_del cache (quotaPolicyCacheKey t tenantId p)) targets (g_cache s)\<rparr>
      else s)"

definition invalidatePolicyCache :: "guard_world \<Rightarrow> guard_state \<Rightarrow> string \<Rightarrow> string \<Rightarrow> string option list \<Rightarrow> guard_state" where
  "invalidatePolicyCache w s t tenantId projectIds =
     (if w_cacheFails w then s
      else
        let named = named_projects projectIds
        in if named \<noteq> [] then drop_cached w t tenantId named s
           else case w_projects w t tenantId of
                  None \<Rightarrow> s
                | Some projects \<Rightarrow> drop_cached w t tenantId projects s)"

definition normalizePolicy :: "QuotaPolicy \<Rightarrow> QuotaPolicy" where
  "normalizePolicy p =
     p\<lparr>pol_groupMode := (if pol_scope p = ScopeGroup then Some (if pol_groupMode p = Some GroupShared then GroupShared else GroupPerMember)
                         else None),
       pol_ipMode := (if pol_scope p = ScopeIp then Some (if pol_ipMode p = Some IpShared then IpShared else IpPerAddress) else None),
       pol_ipRanges := (if pol_scope p = ScopeIp then Some (nullish (pol_ipRanges p) []) else None)\<rparr>"

definition set_rows :: "guard_state \<Rightarrow> string \<Rightarrow> QuotaPolicy list \<Rightarrow> guard_state" where
  "set_rows s t rows = s\<lparr>g_policies := (g_policies s)(t := rows)\<rparr>"

record list_policies_options =
  lp_domain :: "QuotaDomain option"
  lp_scope :: "QuotaScope option"
  lp_enabled :: "bool option"
  lp_projectId :: "string option"

definition service_listQuotaPolicies :: "guard_state \<Rightarrow> string \<Rightarrow> string \<Rightarrow> list_policies_options \<Rightarrow> QuotaPolicy list" where
  "service_listQuotaPolicies s t tenantId options =
     (let all = listQuotaPolicies (g_policies s t) tenantId (lp_projectId options);
          byDomain = (case lp_domain options of None \<Rightarrow> all | Some d \<Rightarrow> filter (\<lambda>p. pol_domain p = d \<or> pol_domain p = DGlobal) all);
          byScope = (case lp_scope options of None \<Rightarrow> byDomain | Some sc \<Rightarrow> filter (\<lambda>p. pol_scope p = sc) byDomain);
          byEnabled = (case lp_enabled options of None \<Rightarrow> byScope | Some e \<Rightarrow> filter (\<lambda>p. pol_enabled p = e) byScope)
      in map normalizePolicy byEnabled)"

definition findExistingPolicy :: "guard_state \<Rightarrow> string \<Rightarrow> string \<Rightarrow> string \<Rightarrow> QuotaPolicy option" where
  "findExistingPolicy s t tenantId i = find (\<lambda>p. pol_id p = i) (listQuotaPolicies (g_policies s t) tenantId None)"

definition service_createQuotaPolicy ::
  "guard_world \<Rightarrow> guard_state \<Rightarrow> string \<Rightarrow> string \<Rightarrow> QuotaPolicy \<Rightarrow> string \<Rightarrow> jsnum \<Rightarrow> QuotaPolicy \<times> guard_state" where
  "service_createQuotaPolicy w s t tenantId payload newId now =
     (let (created, rows) = createQuotaPolicy (g_policies s t) (payload\<lparr>pol_tenantId := tenantId\<rparr>) newId now
      in (normalizePolicy created, invalidatePolicyCache w (set_rows s t rows) t tenantId [pol_projectId payload]))"

fun patch_project :: "string js_field \<Rightarrow> string option" where
  "patch_project (Given p) = Some p"
| "patch_project f = None"

definition service_updateQuotaPolicy ::
  "guard_world \<Rightarrow> guard_state \<Rightarrow> string \<Rightarrow> string \<Rightarrow> string \<Rightarrow> policy_patch \<Rightarrow> string option \<Rightarrow> QuotaPolicy option \<times> guard_state" where
  "service_updateQuotaPolicy w s t tenantId i payload projectId =
     (let (updated, rows) = updateQuotaPolicy (g_policies s t) i tenantId payload projectId;
          moved = (case updated of None \<Rightarrow> None | Some u \<Rightarrow> pol_projectId u)
      in (map_option normalizePolicy updated,
          invalidatePolicyCache w (set_rows s t rows) t tenantId [projectId, patch_project (pt_projectId payload), moved]))"

definition service_deleteQuotaPolicy ::
  "guard_world \<Rightarrow> guard_state \<Rightarrow> string \<Rightarrow> string \<Rightarrow> string \<Rightarrow> string option \<Rightarrow> bool \<times> guard_state" where
  "service_deleteQuotaPolicy w s t tenantId i projectId =
     (let (deleted, rows) = deleteQuotaPolicy (g_policies s t) i tenantId projectId
      in (deleted, invalidatePolicyCache w (set_rows s t rows) t tenantId [projectId]))"

text \<open>The edit of the policy API: the row is addressed by the project it is in now.\<close>

definition edit_policy :: "guard_world \<Rightarrow> guard_state \<Rightarrow> string \<Rightarrow> string \<Rightarrow> string \<Rightarrow> policy_patch \<Rightarrow> QuotaPolicy option \<times> guard_state" where
  "edit_policy w s t tenantId i payload =
     (case findExistingPolicy s t tenantId i of
        None \<Rightarrow> (None, s)
      | Some existing \<Rightarrow> service_updateQuotaPolicy w s t tenantId i payload (given_project (pol_projectId existing)))"

section \<open>What a project reads, and where an edit reaches\<close>

text \<open>What a project reads from the store, and what it needs of a row for that.\<close>

definition visible :: "QuotaPolicy list \<Rightarrow> string \<Rightarrow> string \<Rightarrow> QuotaPolicy list" where
  "visible rows tenantId p = fetchPolicies (listQuotaPolicies rows tenantId (Some p)) (listTenantWideQuotaPolicies rows tenantId)"

definition sees :: "string \<Rightarrow> string \<Rightarrow> QuotaPolicy \<Rightarrow> bool" where
  "sees tenantId p row \<longleftrightarrow> pol_tenantId row = tenantId \<and> (pol_projectId row = Some p \<or> has_no_project row)"

lemma in_project_iff: "p \<noteq> [] \<Longrightarrow> in_project (Some p) row \<longleftrightarrow> pol_projectId row = Some p"
  by (simp add: in_project_def given_project_def)

text \<open>Ids without a colon make cache keys that name one project.\<close>

definition plain :: "string \<Rightarrow> bool" where
  "plain x \<longleftrightarrow> CHR '':'' \<notin> set x"

lemma cache_key_inject:
  assumes "plain t" "plain i" "plain t'" "plain i'"
  shows "quotaPolicyCacheKey t i p = quotaPolicyCacheKey t' i' p' \<longleftrightarrow> t = t' \<and> i = i' \<and> p = p'"
proof
  assume "quotaPolicyCacheKey t i p = quotaPolicyCacheKey t' i' p'"
  then have "t @ CHR '':'' # (i @ CHR '':'' # p) = t' @ CHR '':'' # (i' @ CHR '':'' # p')"
    by (simp add: quotaPolicyCacheKey_def)
  then have "split_on CHR '':'' (t @ CHR '':'' # (i @ CHR '':'' # p)) = split_on CHR '':'' (t' @ CHR '':'' # (i' @ CHR '':'' # p'))"
    by simp
  then have "t = t'" "i = i'" using assms by (simp_all add: plain_def split_on_append)
  then show "t = t' \<and> i = i' \<and> p = p'"
    using \<open>t @ CHR '':'' # (i @ CHR '':'' # p) = t' @ CHR '':'' # (i' @ CHR '':'' # p')\<close> by simp
qed simp

text \<open>A project that the list of the tenant's projects names.\<close>

definition listed_project :: "guard_world \<Rightarrow> string \<Rightarrow> string \<Rightarrow> string \<Rightarrow> bool" where
  "listed_project w t tenantId p \<longleftrightarrow>
     plain t \<and> plain tenantId \<and> p \<noteq> [] \<and> (\<exists>projects. w_projects w t tenantId = Some projects \<and> p \<in> set projects)"

lemma fold_cache_del:
  "map_get (cache_store (fold (\<lambda>p cache. cache_del cache (key p)) ps c)) k =
     (if k \<in> key ` set ps then None else map_get (cache_store c) k)"
  by (induction ps arbitrary: c) (auto simp: cache_del_def)

text \<open>The projects whose cached policies an invalidation drops: the named ones, or every listed one.\<close>

definition targets :: "guard_world \<Rightarrow> string \<Rightarrow> string \<Rightarrow> string option list \<Rightarrow> string list" where
  "targets w t tenantId projectIds =
     (if named_projects projectIds \<noteq> [] then named_projects projectIds else nullish (w_projects w t tenantId) [])"

lemma policies_after_invalidate [simp]: "g_policies (invalidatePolicyCache w s t i ids) = g_policies s"
  by (simp add: invalidatePolicyCache_def drop_cached_def Let_def split: option.splits)

lemma set_named_projects: "p \<in> set (named_projects ids) \<longleftrightarrow> (\<exists>x\<in>set ids. given_project x = Some p)"
  by (force simp: named_projects_def js_unique_def split: option.splits)

lemma given_project_None: "given_project x = None \<longleftrightarrow> x = None \<or> x = Some []"
  by (auto simp: given_project_def split: option.splits)

lemma given_project_Some: "given_project x = Some p \<longleftrightarrow> x = Some p \<and> p \<noteq> []"
  by (auto simp: given_project_def split: option.splits)

lemma no_project_iff: "has_no_project row \<longleftrightarrow> given_project (pol_projectId row) = None"
  by (simp add: has_no_project_def given_project_None)

lemma listed_is_target:
  "listed_project w t i p \<Longrightarrow> p \<notin> set (targets w t i ids) \<Longrightarrow> named_projects ids \<noteq> [] \<and> (\<forall>x\<in>set ids. given_project x \<noteq> Some p)"
  by (auto simp: targets_def listed_project_def set_named_projects split: if_splits)

lemma named_projects_Nil: "named_projects ids = [] \<longleftrightarrow> (\<forall>x\<in>set ids. given_project x = None)"
proof -
  have "named_projects ids = [] \<longleftrightarrow> (\<forall>p. p \<notin> set (named_projects ids))" by (auto simp: neq_Nil_conv)
  then show ?thesis by (auto simp: set_named_projects) (metis not_None_eq)
qed

text \<open>An edit keeps a policy's place when it moves the policy neither from a project to all of them nor back.\<close>

definition keeps_place :: "policy_patch \<Rightarrow> QuotaPolicy \<Rightarrow> bool" where
  "keeps_place patch row \<longleftrightarrow>
     (given_project (pol_projectId (patch_row patch row)) = None \<longleftrightarrow> given_project (pol_projectId row) = None)"

lemma filter_map_same:
  "(\<And>x. x \<in> set xs \<Longrightarrow> f x = x \<or> \<not> P x \<and> \<not> P (f x)) \<Longrightarrow> filter P (map f xs) = filter P xs"
proof (induction xs)
  case (Cons x xs)
  have "f x = x \<or> \<not> P x \<and> \<not> P (f x)" "filter P (map f xs) = filter P xs" using Cons by simp_all
  then show ?case by (cases "f x = x") simp_all
qed simp

lemma patch_row_simps [simp]: "pol_id (patch_row patch row) = pol_id row" "pol_tenantId (patch_row patch row) = pol_tenantId row"
  by (simp_all add: patch_row_def)

lemma find_updated:
  assumes "distinct (map pol_id rows)" "existing \<in> set rows" "f existing = e'" "pol_id e' = pol_id existing"
    and "\<And>row. row \<in> set rows \<Longrightarrow> row \<noteq> existing \<Longrightarrow> f row = row"
  shows "find (\<lambda>row. pol_id row = pol_id existing) (map f rows) = Some e'"
  using assms
proof (induction rows)
  case (Cons row rows)
  show ?case
  proof (cases "row = existing")
    case False
    then have "existing \<in> set rows" "pol_id row \<noteq> pol_id existing" using Cons.prems(1,2) by force+
    then show ?thesis using Cons False by auto
  qed (use Cons.prems in simp)
qed simp

lemma callerGroupIds_cache:
  "g_cache (snd (callerGroupIds w s ctx ps now)) = g_cache s" "g_policies (snd (callerGroupIds w s ctx ps now)) = g_policies s"
  by (auto simp: callerGroupIds_def Let_def split: option.splits)

lemma cache_ok_fold_del: "cache_ok c \<Longrightarrow> cache_ok (fold (\<lambda>p cache. cache_del cache (key p)) ps c)"
  by (induction ps arbitrary: c) simp_all

lemma cache_ok_resolve: "cache_ok (g_cache s) \<Longrightarrow> cache_ok (g_cache (snd (resolveLimits w s ctx now)))"
proof -
  assume ok: "cache_ok (g_cache s)"
  obtain a s1 where a: "loadPolicySource w s ctx now = (a, s1)" by fastforce
  have s1: "cache_ok (g_cache s1)"
    using ok a cache_ok_ops(2) [OF ok]
    by (auto simp: loadPolicySource_def cached_source_def cache_source_def Let_def split_beta split: option.splits prod.splits if_splits)
  show ?thesis
  proof (cases a)
    case (Some source)
    obtain b s2 where b: "callerGroupIds w s1 ctx (source_policies source) now = (b, s2)" by fastforce
    then show ?thesis
      using callerGroupIds_cache [of w s1 ctx "source_policies source" now] s1 a Some
      by (cases b) (simp_all add: resolveLimits_def split_beta)
  qed (use s1 in \<open>simp add: resolveLimits_def a\<close>)
qed

definition empty_patch :: policy_patch where
  "empty_patch = \<lparr>pt_limits = None, pt_scope = None, pt_scopeId = Undefined, pt_groupMode = Undefined, pt_ipRanges = Undefined,
     pt_ipMode = Undefined, pt_projectId = Undefined, pt_domain = None, pt_priority = None, pt_enabled = None\<rparr>"

definition group_policy :: QuotaPolicy where
  "group_policy = sample_policy ''g1'' ScopeGroup (Given ''g'') 0 5"

definition other_context :: QuotaContext where
  "other_context = sample_context\<lparr>ctx_projectId := ''q''\<rparr>"

text \<open>A group's policy in project \<open>p\<close>; project \<open>q\<close> has been checked once; then the policy is made tenant-wide.\<close>

definition before_move :: guard_state where
  "before_move = snd (resolveLimits (sample_world RateMongodb)
     (empty_guard\<lparr>g_policies := (\<lambda>t. if t = ''t'' then [group_policy] else [])\<rparr>) other_context 5)"

definition after_move :: guard_state where
  "after_move = snd (edit_policy (sample_world RateMongodb) before_move ''t'' ''t1'' ''g1'' (empty_patch\<lparr>pt_projectId := Null\<rparr>))"

lemmas load_eval = resolveLimits_def loadPolicySource_def cached_source_def read_source_def cache_source_def callerGroupIds_def
  resolve_loaded_def client_for_def fetchPolicies_def listQuotaPolicies_def listTenantWideQuotaPolicies_def policy_order_def in_project_def
  given_project_def has_no_project_def cache_get_def cache_set_def expiry_def entry_expired_def isTenantWideKind_def
  Let_def split_beta

lemmas sample_eval = empty_guard_def new_cache_def sample_world_def sample_context_def other_context_def group_policy_def
  sample_policy_def quotaPolicyCacheKey_def

lemma before_move_eval:
  "g_policies before_move = (\<lambda>t. if t = ''t'' then [group_policy] else [])"
  "cache_store (g_cache before_move) =
     [(''quota:policy-src:t:t1:q'', \<lparr>entry_value = \<lparr>source_licenseDefaults =
        getQuotaLimitsForTenant (w_policyConfig (sample_world RateMongodb)) None 5, source_policies = []\<rparr>, entry_expiresAt = 30005\<rparr>)]"
  by (simp_all add: before_move_def load_eval sample_eval)

text \<open>
  An edit that makes a project's policy tenant-wide does not reach the other projects. The cached policies of the project the policy
  was in are dropped, but those of another project are not: its next check still goes by the cached set without the
  policy, while the store holds it for every project.
\<close>

theorem edit_to_tenant_wide_misses_other_projects:
  "map_option source_policies (fst (loadPolicySource (sample_world RateMongodb) after_move other_context 6)) = Some []
   \<and> map pol_id (visible (g_policies after_move ''t'') ''t1'' ''q'') = [''g1'']"
proof -
  have found: "findExistingPolicy before_move ''t'' ''t1'' ''g1'' = Some group_policy"
    by (simp add: findExistingPolicy_def before_move_eval listQuotaPolicies_def policy_order_def in_project_def given_project_def
        group_policy_def sample_policy_def)
  have rows: "updateQuotaPolicy (g_policies before_move ''t'') ''g1'' ''t1'' (empty_patch\<lparr>pt_projectId := Null\<rparr>)
        (given_project (pol_projectId group_policy)) = (Some (group_policy\<lparr>pol_projectId := None\<rparr>), [group_policy\<lparr>pol_projectId := None\<rparr>])"
    by (simp add: updateQuotaPolicy_def before_move_eval addressed_def in_project_def given_project_def patch_row_def empty_patch_def
        group_policy_def sample_policy_def)
  have place: "given_project (pol_projectId group_policy) = Some ''p''"
    by (simp add: given_project_def group_policy_def sample_policy_def)
  have after: "after_move = invalidatePolicyCache (sample_world RateMongodb)
      (set_rows before_move ''t'' [group_policy\<lparr>pol_projectId := None\<rparr>]) ''t'' ''t1'' [Some ''p'', None, None]"
    by (simp add: after_move_def edit_policy_def found service_updateQuotaPolicy_def rows [unfolded place] place)
  have policies: "g_policies after_move ''t'' = [group_policy\<lparr>pol_projectId := None\<rparr>]"
    by (simp add: after set_rows_def)
  have "cache_store (g_cache after_move) = cache_store (g_cache before_move)"
    by (simp add: after invalidatePolicyCache_def named_projects_def given_project_def js_unique_def drop_cached_def sample_world_def
        cache_del_def set_rows_def before_move_eval quotaPolicyCacheKey_def)
  then have "map_option source_policies (fst (loadPolicySource (sample_world RateMongodb) after_move other_context 6)) = Some []"
    by (simp add: loadPolicySource_def cached_source_def cache_get_def before_move_eval entry_expired_def sample_eval)
  moreover have "map pol_id (visible (g_policies after_move ''t'') ''t1'' ''q'') = [''g1'']"
    by (simp add: policies visible_def load_eval group_policy_def sample_policy_def)
  ultimately show ?thesis by blast
qed

section \<open>Shadow counters and the request context\<close>

lemma loadPolicySource_store: "store_current w t (snd (loadPolicySource w s ctx now)) key u = store_current w t s key u"
  by (auto simp: loadPolicySource_def cached_source_def cache_source_def Let_def split_beta store_current_def cache_current_def
      cache_get_def cache_set_def split: option.splits prod.splits if_splits)

lemma store_current_cong: "g_cache s = g_cache s' \<Longrightarrow> g_counters s = g_counters s' \<Longrightarrow> store_current w t s key u = store_current w t s' key u"
  by (simp add: store_current_def)

lemma resolveLimits_store: "store_current w t (snd (resolveLimits w s ctx now)) key u = store_current w t s key u"
proof -
  obtain a s1 where a: "loadPolicySource w s ctx now = (a, s1)" by fastforce
  have s1: "store_current w t s1 key u = store_current w t s key u" using loadPolicySource_store [of w t s ctx now key u] a by simp
  show ?thesis
  proof (cases a)
    case (Some source)
    obtain b s2 where b: "callerGroupIds w s1 ctx (source_policies source) now = (b, s2)" by fastforce
    have "g_cache s2 = g_cache s1" "g_counters s2 = g_counters s1"
      using callerGroupIds_cache(1) [of w s1 ctx "source_policies source" now]
        callerGroupIds_counters [of w s1 ctx "source_policies source" now] b by simp_all
    then have "store_current w t (s2\<lparr>g_parsed := x\<rparr>) key u = store_current w t s key u" "store_current w t s2 key u = store_current w t s key u" for x
      using s1 store_current_cong [of "s2\<lparr>g_parsed := x\<rparr>" s1] store_current_cong [of s2 s1] by simp_all
    then show ?thesis using a b Some by (cases b) (simp_all add: resolveLimits_def split_beta)
  qed (use s1 in \<open>simp add: resolveLimits_def a\<close>)
qed

lemma guard_ok_resolve: "guard_ok s \<Longrightarrow> guard_ok (snd (resolveLimits w s ctx now))"
  using resolveLimits_counters [of w s ctx now] cache_ok_resolve [of s w ctx now] by (simp add: guard_ok_def)

text \<open>
  Shadow mode never touches an enforced limit. Counting an internal model call in shadow mode leaves every counter that a limit is
  enforced on as it was, for every caller, kind and window, and whatever the call's limits and usage are.
\<close>

theorem shadow_never_touches_enforced:
  assumes "guard_ok s" "now \<le> later"
  shows "store_current w (llm_tenantDbName call) (snd (shadowInternalLlmUsage w s request call usage now)) (rate_key ctx no_options b kind win) later
     = store_current w (llm_tenantDbName call) s (rate_key ctx no_options b kind win) later"
proof (cases "shadow_context request call")
  case (Some c)
  have t: "ctx_tenantDbName c = llm_tenantDbName call"
    using Some by (auto simp: shadow_context_def serviceQuotaContext_def str_def Let_def split: option.splits if_splits)
  obtain r s' where r: "resolveLimits w s c now = (r, s')" by fastforce
  have s': "guard_ok s'" "store_current w t s' key u = store_current w t s key u" for t key u
    using guard_ok_resolve [OF assms(1), of w c now] resolveLimits_store [of w t s c now key u] r by simp_all
  have prefixes: "prefix_ok no_options" "prefix_ok shadow_options" "counter_prefix no_options \<noteq> counter_prefix shadow_options"
    by (simp_all add: prefix_ok_def counter_prefix_def no_options_def shadow_options_def SHADOW_COUNTER_PREFIX_def)
  show ?thesis
  proof (cases r)
    case None
    then show ?thesis using Some r s'(2) by (simp add: shadowInternalLlmUsage_def checkRateLimit_def)
  next
    case (Some resolved)
    show ?thesis
      using other_prefix_untouched [OF s'(1) prefixes assms(2), of w c resolved] \<open>shadow_context request call = Some c\<close> r s'(2) Some
      by (simp add: shadowInternalLlmUsage_def checkRateLimit_def split_beta t)
  qed
qed (simp add: shadowInternalLlmUsage_def)

theorem shadow_never_touches_enforced_witness:
  "store_current (sample_world RateMemory) ''t''
     (snd (shadowInternalLlmUsage (sample_world RateMemory) empty_guard None
        \<lparr>llm_tenantDbName = ''t'', llm_tenantId = Some ''t1'', llm_projectId = ''p'', llm_modelKey = ''m''\<rparr> None 5))
     (rate_key sample_context no_options (subjectBucket sample_context sample_limits) RRequests PerDay) 6 = None"
  using shadow_never_touches_enforced [OF empty_guard_ok, of 5 6 "sample_world RateMemory"
      "\<lparr>llm_tenantDbName = ''t'', llm_tenantId = Some ''t1'', llm_projectId = ''p'', llm_modelKey = ''m''\<rparr>" None None sample_context
      "subjectBucket sample_context sample_limits" RRequests PerDay]
  by (simp add: empty_guard_closed)

text \<open>
  The request context speaks for its own tenant only. When a service call names a tenant and the request it runs in was opened for
  another one, the context the guard decides on is built from the call alone: no project, user, token or address of the
  request is in it.
\<close>

theorem request_context_speaks_for_its_tenant:
  assumes "str (sc_tenantId scope) = Some tenant" "rq_tenantId request = Some other" "other \<noteq> []" "other \<noteq> tenant"
  shows "serviceQuotaContext (Some request) scope check = serviceQuotaContext None scope check"
  using assms by (simp add: serviceQuotaContext_def speaks_for_def Let_def)

theorem request_context_speaks_for_its_tenant_witness:
  "serviceQuotaContext (Some \<lparr>rq_tenantId = Some ''b'', rq_projectId = Some ''pb'', rq_userId = Some ''ub'', rq_apiTokenId = None,
       rq_clientIp = Some ''10.0.0.9''\<rparr>)
     \<lparr>sc_tenantDbName = Some ''ta'', sc_tenantId = Some ''a'', sc_projectId = None, sc_userId = None, sc_tokenId = None, sc_clientIp = None\<rparr>
     \<lparr>sq_domain = DRag, sq_resourceKey = None, sq_providerKey = None, sq_cost = None, sq_headroom = None, sq_concurrency = None\<rparr> = None"
  by (subst request_context_speaks_for_its_tenant [where tenant = "''a''" and other = "''b''"])
     (simp_all add: str_def js_trim_def is_space_def code_def serviceQuotaContext_def Let_def)

text \<open>The guard itself, though, takes the address of the request whatever tenant it was opened for.\<close>

lemma foreign_request_address_counts:
  "ctx_clientIp ctx = None \<Longrightarrow> requestIp = Some ip \<Longrightarrow> ip \<noteq> [] \<Longrightarrow>
   clientAddressOf requestIp ctx = Some \<lparr>client_ip = parseClientIp (Some ip), client_key = quotaAddressKey (parseClientIp (Some ip))\<rparr>"
  by (simp add: clientAddressOf_def)

end
