(* ===== verification/Rbac.thy ===== *)
theory Rbac
  imports JsString
begin

text \<open>
  Role-based access control: \<^verbatim>\<open>src/lib/security/rbac.ts\<close>, the whole module.

  \<^item> Services are their ids; the table of services and the table of route prefixes are the source's, without
    the labels and descriptions the dashboard shows.
  \<^item> Permission levels are ordered by their rank: \<^verbatim>\<open>LEVEL_RANK\<close> makes them a linear order, so that the
    decisions read as minimum and maximum of levels.
  \<^item> A stored \<^verbatim>\<open>servicePermissions\<close> value is unchecked data until \<open>normalizeServicePermissions\<close> has read it.
  \<^item> The path resolvers other modules register are arguments, kept in the order of their registration; a resolver
    that throws is one of its answers.
\<close>

section \<open>Levels\<close>

datatype ServicePermissionLevel = LevelNone | LevelRead | LevelWrite | LevelAdmin

fun LEVEL_RANK :: "ServicePermissionLevel \<Rightarrow> nat" where
  "LEVEL_RANK LevelNone = 0"
| "LEVEL_RANK LevelRead = 1"
| "LEVEL_RANK LevelWrite = 2"
| "LEVEL_RANK LevelAdmin = 3"

lemma LEVEL_RANK_inject: "LEVEL_RANK a = LEVEL_RANK b \<longleftrightarrow> a = b"
  by (cases a; cases b) simp_all

instantiation ServicePermissionLevel :: linorder
begin

definition less_eq_ServicePermissionLevel :: "ServicePermissionLevel \<Rightarrow> ServicePermissionLevel \<Rightarrow> bool" where
  "a \<le> b \<longleftrightarrow> LEVEL_RANK a \<le> LEVEL_RANK b"

definition less_ServicePermissionLevel :: "ServicePermissionLevel \<Rightarrow> ServicePermissionLevel \<Rightarrow> bool" where
  "a < b \<longleftrightarrow> LEVEL_RANK a < LEVEL_RANK b"

instance
  by standard (auto simp: less_eq_ServicePermissionLevel_def less_ServicePermissionLevel_def LEVEL_RANK_inject)

end

lemmas level_order = less_eq_ServicePermissionLevel_def less_ServicePermissionLevel_def

lemma level_bounds [simp]: "LevelNone \<le> a" "a \<le> LevelAdmin"
  by (cases a; simp add: level_order)+

lemma level_extremes [simp]: "a \<le> LevelNone \<longleftrightarrow> a = LevelNone" "LevelAdmin \<le> a \<longleftrightarrow> a = LevelAdmin"
  by (cases a; simp add: level_order)+

definition minPermission :: "ServicePermissionLevel \<Rightarrow> ServicePermissionLevel \<Rightarrow> ServicePermissionLevel" where
  "minPermission a b = (if LEVEL_RANK a \<le> LEVEL_RANK b then a else b)"

lemma minPermission_min [simp]: "minPermission a b = min a b"
  by (simp add: minPermission_def min_def level_order)

text \<open>The text a level is stored as.\<close>

fun level_text :: "ServicePermissionLevel \<Rightarrow> string" where
  "level_text LevelNone = ''none''"
| "level_text LevelRead = ''read''"
| "level_text LevelWrite = ''write''"
| "level_text LevelAdmin = ''admin''"

definition SERVICE_PERMISSION_LEVELS :: "ServicePermissionLevel list" where
  "SERVICE_PERMISSION_LEVELS = [LevelNone, LevelRead, LevelWrite, LevelAdmin]"

definition isServicePermissionLevel :: "string \<Rightarrow> ServicePermissionLevel option" where
  "isServicePermissionLevel text = find (\<lambda>level. level_text level = text) SERVICE_PERMISSION_LEVELS"

lemma level_text_read [simp]: "isServicePermissionLevel (level_text a) = Some a"
  by (cases a) (simp_all add: isServicePermissionLevel_def SERVICE_PERMISSION_LEVELS_def)

section \<open>Services\<close>

type_synonym PermissionService = string

datatype service_category = Build | Data | Operate | Administer

record RbacServiceDefinition =
  def_id :: PermissionService
  def_category :: service_category
  adminService :: bool
  defaultMemberLevel :: "ServicePermissionLevel option"
  deprecated :: bool

definition service_def :: "string \<Rightarrow> service_category \<Rightarrow> bool \<Rightarrow> ServicePermissionLevel option \<Rightarrow> bool \<Rightarrow> RbacServiceDefinition" where
  "service_def i cat adm lev dep =
     \<lparr>def_id = i, def_category = cat, adminService = adm, defaultMemberLevel = lev, deprecated = dep\<rparr>"

definition RBAC_SERVICE_DEFINITIONS :: "RbacServiceDefinition list" where
  "RBAC_SERVICE_DEFINITIONS = [
     service_def ''models'' Build False None False,
     service_def ''prompts'' Build False None False,
     service_def ''agents'' Build False None False,
     service_def ''flows'' Build False (Some LevelRead) False,
     service_def ''mcp'' Build False None False,
     service_def ''tools'' Build False None False,
     service_def ''connectors'' Build False None False,
     service_def ''vector'' Data False None False,
     service_def ''memory'' Data False None False,
     service_def ''files'' Data False None False,
     service_def ''rag'' Data False None False,
     service_def ''reranker'' Data False None False,
     service_def ''realtime'' Build False None False,
     service_def ''tracing'' Operate False None False,
     service_def ''inference-monitoring'' Operate False None False,
     service_def ''guardrails'' Operate False None False,
     service_def ''evaluations'' Operate False None False,
     service_def ''redteam'' Operate False None False,
     service_def ''analysis'' Operate False None False,
     service_def ''pii'' Operate False None False,
     service_def ''browser'' Operate False None False,
     service_def ''crawler'' Data False None False,
     service_def ''websearch'' Data False None False,
     service_def ''ocr'' Data False None False,
     service_def ''alerts'' Operate False None False,
     service_def ''cost'' Operate False None False,
     service_def ''automations'' Administer True None False,
     service_def ''projects'' Administer False None False,
     service_def ''tokens'' Administer False None False,
     service_def ''members'' Administer True None False,
     service_def ''providers'' Administer True None False,
     service_def ''config'' Administer True None False,
     service_def ''license'' Administer True None False,
     service_def ''audit'' Administer True None False,
     service_def ''gpu-fleet'' Operate True None False,
     service_def ''sandbox'' Operate True None False,
     service_def ''aegis'' Operate False None True,
     service_def ''abacus'' Operate False None False,
     service_def ''cluster'' Administer True None False,
     service_def ''ai-app-gateway'' Operate False None False,
     service_def ''sso'' Administer True None False,
     service_def ''webhooks'' Administer True None False,
     service_def ''ldap'' Administer True None False,
     service_def ''portals'' Administer True None False,
     service_def ''channels'' Administer True None False,
     service_def ''resources'' Administer True None False,
     service_def ''iam'' Administer True None False]"

definition SERVICE_IDS :: "PermissionService list" where
  "SERVICE_IDS = map def_id RBAC_SERVICE_DEFINITIONS"

definition isPermissionService :: "string \<Rightarrow> bool" where
  "isPermissionService v \<longleftrightarrow> v \<in> set SERVICE_IDS"

definition getServiceDefinition :: "PermissionService \<Rightarrow> RbacServiceDefinition" where
  "getServiceDefinition service =
     nullish (find (\<lambda>d. def_id d = service) RBAC_SERVICE_DEFINITIONS) (hd RBAC_SERVICE_DEFINITIONS)"

section \<open>Stored permissions\<close>

text \<open>
  A value found where permissions are stored: null or undefined, an object with its entries, or something else
  (then only whether it has keys of its own matters to anybody).
\<close>

datatype permission_value = PermText string | PermNoText

datatype stored_permissions = PermNullish | PermObject "(string, permission_value) jsmap" | PermOther bool

type_synonym UserServicePermissions = "(PermissionService, ServicePermissionLevel) jsmap"

definition normalize_entry :: "UserServicePermissions \<Rightarrow> string \<times> permission_value \<Rightarrow> UserServicePermissions" where
  "normalize_entry normalized entry =
     (case entry of
        (service, PermText text) \<Rightarrow>
          (case isServicePermissionLevel text of
             Some level \<Rightarrow> if isPermissionService service then map_set normalized service level else normalized
           | None \<Rightarrow> normalized)
      | (service, PermNoText) \<Rightarrow> normalized)"

fun normalizeServicePermissions :: "stored_permissions \<Rightarrow> UserServicePermissions" where
  "normalizeServicePermissions (PermObject entries) = foldl normalize_entry [] entries"
| "normalizeServicePermissions PermNullish = []"
| "normalizeServicePermissions (PermOther keys) = []"

text \<open>A normalised map is an object again when it is stored or passed on.\<close>

definition permission_object :: "UserServicePermissions \<Rightarrow> stored_permissions" where
  "permission_object m = PermObject (map (\<lambda>(service, level). (service, PermText (level_text level))) m)"

definition explicit_level :: "stored_permissions \<Rightarrow> PermissionService \<Rightarrow> ServicePermissionLevel option" where
  "explicit_level stored service = map_get (normalizeServicePermissions stored) service"

section \<open>Paths\<close>

definition ROUTE_PREFIXES :: "(string \<times> PermissionService) list" where
  "ROUTE_PREFIXES = [
     (''/api/client/v1/browser'', ''browser''),
     (''/api/client/v1/flows'', ''flows''),
     (''/api/client/v1/crawler'', ''crawler''),
     (''/api/client/v1/websearch'', ''websearch''),
     (''/api/client/v1/ocr-jobs'', ''ocr''),
     (''/api/client/v1/ocr'', ''ocr''),
     (''/api/client/v1/audio'', ''models''),
     (''/api/client/v1/images'', ''models''),
     (''/api/client/v1/decisions'', ''models''),
     (''/api/client/v1/automations'', ''automations''),
     (''/api/client/v1/config'', ''config''),
     (''/api/client/v1/files'', ''files''),
     (''/api/client/v1/guardrails'', ''guardrails''),
     (''/api/client/v1/moderations'', ''guardrails''),
     (''/api/client/v1/evaluation'', ''evaluations''),
     (''/api/client/v1/redteam'', ''redteam''),
     (''/api/client/v1/pii'', ''pii''),
     (''/api/client/v1/mcp'', ''mcp''),
     (''/api/client/v1/sandbox'', ''sandbox''),
     (''/api/client/v1/webhooks'', ''webhooks''),
     (''/api/client/v1/aegis'', ''guardrails''),
     (''/api/client/v1/ai-app-gateway'', ''ai-app-gateway''),
     (''/api/client/v1/audit'', ''audit''),
     (''/api/client/v1/monitoring'', ''inference-monitoring''),
     (''/api/client/v1/analytics'', ''models''),
     (''/api/client/v1/providers'', ''providers''),
     (''/api/client/v1/models'', ''models''),
     (''/api/client/v1/projects'', ''projects''),
     (''/api/client/v1/members'', ''members''),
     (''/api/client/v1/users'', ''members''),
     (''/api/client/v1/license'', ''license''),
     (''/api/client/v1/memory'', ''memory''),
     (''/api/client/v1/prompts'', ''prompts''),
     (''/api/client/v1/rag'', ''rag''),
     (''/api/client/v1/rerank'', ''reranker''),
     (''/api/client/v1/rerankers'', ''reranker''),
     (''/api/client/v1/tracing'', ''tracing''),
     (''/api/client/v1/traces'', ''tracing''),
     (''/api/client/v1/vector'', ''vector''),
     (''/api/client/v1/agents'', ''agents''),
     (''/api/client/v1/a2a'', ''agents''),
     (''/api/client/v1/batches'', ''models''),
     (''/api/client/v1/spend'', ''models''),
     (''/api/client/v1/budgets'', ''models''),
     (''/api/client/v1/chat'', ''models''),
     (''/api/client/v1/messages'', ''models''),
     (''/api/client/v1/realtime'', ''realtime''),
     (''/api/client/v1/responses'', ''models''),
     (''/api/client/v1/embeddings'', ''models''),
     (''/api/audit'', ''audit''),
     (''/api/retention'', ''audit''),
     (''/api/users'', ''members''),
     (''/api/groups'', ''members''),
     (''/api/resources'', ''resources''),
     (''/api/resource-usage'', ''resources''),
     (''/api/license'', ''license''),
     (''/api/providers'', ''providers''),
     (''/api/config'', ''config''),
     (''/api/quota'', ''projects''),
     (''/api/projects'', ''projects''),
     (''/api/tokens'', ''tokens''),
     (''/api/models'', ''models''),
     (''/api/prompts'', ''prompts''),
     (''/api/prompt-optimizer'', ''prompts''),
     (''/api/vector'', ''vector''),
     (''/api/memory'', ''memory''),
     (''/api/files'', ''files''),
     (''/api/rag'', ''rag''),
     (''/api/reranker'', ''reranker''),
     (''/api/realtime'', ''realtime''),
     (''/api/agents'', ''agents''),
     (''/api/skills'', ''agents''),
     (''/api/tracing'', ''tracing''),
     (''/api/inference-monitoring'', ''inference-monitoring''),
     (''/api/guardrails'', ''guardrails''),
     (''/api/evaluation'', ''evaluations''),
     (''/api/snapshots'', ''evaluations''),
     (''/api/dataset-import'', ''evaluations''),
     (''/api/redteam'', ''redteam''),
     (''/api/analysis'', ''analysis''),
     (''/api/pii'', ''pii''),
     (''/api/mcp'', ''mcp''),
     (''/api/tools'', ''tools''),
     (''/api/connectors'', ''connectors''),
     (''/api/specs'', ''tools''),
     (''/api/browser'', ''browser''),
     (''/api/flows'', ''flows''),
     (''/api/crawler'', ''crawler''),
     (''/api/websearch'', ''websearch''),
     (''/api/ocr-jobs'', ''ocr''),
     (''/api/automations'', ''automations''),
     (''/api/alerts'', ''alerts''),
     (''/api/cost'', ''cost''),
     (''/api/model-price-catalog'', ''cost''),
     (''/api/prescriptions'', ''cost''),
     (''/api/abacus'', ''abacus''),
     (''/api/gpu-fleet'', ''gpu-fleet''),
     (''/api/sandbox'', ''sandbox''),
     (''/api/aegis'', ''guardrails''),
     (''/api/ai-app-gateway'', ''ai-app-gateway''),
     (''/api/cluster'', ''cluster''),
     (''/api/portals'', ''portals''),
     (''/api/channels'', ''channels''),
     (''/api/iam'', ''iam''),
     (''/api/webhooks'', ''webhooks'')]"

datatype resolver_answer = ResolverThrows | Resolves "PermissionService option"

type_synonym PathServiceResolver = "string \<Rightarrow> resolver_answer"

type_synonym path_resolvers = "(string, PathServiceResolver) jsmap"

definition drop_final_slash :: "string \<Rightarrow> string" where
  "drop_final_slash path = (if path \<noteq> [] \<and> last path = CHR 0x2F then butlast path else path)"

definition normalizeResolverPrefix :: "string \<Rightarrow> string" where
  "normalizeResolverPrefix pre = (if 1 < length pre then drop_final_slash pre else pre)"

definition registerPathServiceResolver :: "string \<Rightarrow> PathServiceResolver \<Rightarrow> path_resolvers \<Rightarrow> path_resolvers" where
  "registerPathServiceResolver pre resolver rs = map_set rs (normalizeResolverPrefix pre) resolver"

definition starts_with :: "string \<Rightarrow> string \<Rightarrow> bool" where
  "starts_with path pre \<longleftrightarrow> take (length pre) path = pre"

definition covers :: "string \<Rightarrow> string \<Rightarrow> bool" where
  "covers pre path \<longleftrightarrow> path = pre \<or> starts_with path (pre @ ''/'')"

text \<open>The two patterns, \<^verbatim>\<open>/^\/api\/users\/me(\/|$)/\<close> and \<^verbatim>\<open>/^\/api\/users\/[^/]+\/projects$/\<close>.\<close>

definition is_own_account :: "string \<Rightarrow> bool" where
  "is_own_account path \<longleftrightarrow> covers ''/api/users/me'' path"

definition is_user_projects :: "string \<Rightarrow> bool" where
  "is_user_projects path \<longleftrightarrow>
     starts_with path ''/api/users/'' \<and>
     (case split_on CHR 0x2F (drop (length ''/api/users/'') path) of
        [person, rest] \<Rightarrow> person \<noteq> [] \<and> rest = ''projects''
      | _ \<Rightarrow> False)"

definition PATH_SERVICE_OVERRIDES :: "((string \<Rightarrow> bool) \<times> PermissionService option) list" where
  "PATH_SERVICE_OVERRIDES = [(is_own_account, None), (is_user_projects, Some ''projects'')]"

fun resolver_service :: "path_resolvers \<Rightarrow> string \<Rightarrow> PermissionService option" where
  "resolver_service [] path = None"
| "resolver_service ((pre, resolver) # rest) path =
     (if covers pre path then
        (case resolver path of
           Resolves (Some service) \<Rightarrow> if service \<noteq> [] then Some service else resolver_service rest path
         | Resolves None \<Rightarrow> resolver_service rest path
         | ResolverThrows \<Rightarrow> resolver_service rest path)
      else resolver_service rest path)"

definition normalize_path :: "string \<Rightarrow> string" where
  "normalize_path pathname = (if pathname \<noteq> ''/'' then drop_final_slash pathname else pathname)"

definition getPermissionServiceForPath :: "path_resolvers \<Rightarrow> string \<Rightarrow> PermissionService option" where
  "getPermissionServiceForPath rs pathname =
     (let normalized = normalize_path pathname in
      case find (\<lambda>(pattern, service). pattern normalized) PATH_SERVICE_OVERRIDES of
        Some (pattern, service) \<Rightarrow> service
      | None \<Rightarrow>
          (case resolver_service rs normalized of
             Some service \<Rightarrow> Some service
           | None \<Rightarrow> map_option snd (find (\<lambda>(pre, service). covers pre normalized) ROUTE_PREFIXES)))"

section \<open>Levels of a caller\<close>

definition getRequiredPermissionLevel :: "string \<Rightarrow> PermissionService \<Rightarrow> ServicePermissionLevel" where
  "getRequiredPermissionLevel meth service =
     (let definition_of = getServiceDefinition service; normalizedMethod = map to_upper_char meth in
      if normalizedMethod = ''GET'' \<or> normalizedMethod = ''HEAD'' \<or> normalizedMethod = ''OPTIONS'' then LevelRead
      else if adminService definition_of then LevelAdmin else LevelWrite)"

abbreviation owner_or_admin :: "string option \<Rightarrow> bool" where
  "owner_or_admin role \<equiv> role = Some ''owner'' \<or> role = Some ''admin''"

definition getRoleDefaultPermission :: "string option \<Rightarrow> PermissionService \<Rightarrow> ServicePermissionLevel" where
  "getRoleDefaultPermission role service =
     (if owner_or_admin role then LevelAdmin
      else
        let d = getServiceDefinition service in
        if adminService d then LevelNone
        else if role \<noteq> Some ''project_admin'' \<and> role \<noteq> Some ''user'' then LevelNone
        else nullish (defaultMemberLevel d) LevelWrite)"

datatype ProjectRole = ProjectAdmin | Member

record RbacProjectLike =
  proj_role :: ProjectRole
  proj_permissions :: stored_permissions

record RbacUserLike =
  user_role :: "string option"
  user_permissions :: stored_permissions

record GroupTenantGrant =
  grant_role :: "string option"
  grant_permissions :: stored_permissions

definition getEffectiveProjectPermission :: "RbacProjectLike \<Rightarrow> PermissionService \<Rightarrow> ServicePermissionLevel" where
  "getEffectiveProjectPermission userProject service =
     (case explicit_level (proj_permissions userProject) service of
        Some level \<Rightarrow> level
      | None \<Rightarrow>
          let d = getServiceDefinition service in
          if adminService d then (if proj_role userProject = ProjectAdmin then LevelRead else LevelNone)
          else nullish (defaultMemberLevel d) LevelWrite)"

definition better_of :: "ServicePermissionLevel \<Rightarrow> ServicePermissionLevel \<Rightarrow> ServicePermissionLevel" where
  "better_of best level = (if LEVEL_RANK level > LEVEL_RANK best then level else best)"

definition resolveEffectivePermission ::
  "string option \<Rightarrow> stored_permissions \<Rightarrow> RbacProjectLike option \<Rightarrow> RbacProjectLike list \<Rightarrow> PermissionService
     \<Rightarrow> ServicePermissionLevel" where
  "resolveEffectivePermission tenantRole tenantServicePermissions userProject groupProjects service =
     (if owner_or_admin tenantRole then LevelAdmin
      else
        case explicit_level tenantServicePermissions service of
          Some level \<Rightarrow> level
        | None \<Rightarrow>
            (case userProject of
               None \<Rightarrow> LevelNone
             | Some membership \<Rightarrow>
                 let direct = getEffectiveProjectPermission membership service;
                     groupMax = foldl (\<lambda>best gp. better_of best (getEffectiveProjectPermission gp service)) LevelNone groupProjects
                 in if LEVEL_RANK direct \<ge> LEVEL_RANK groupMax then direct else groupMax))"

definition getEffectiveServicePermission :: "RbacUserLike \<Rightarrow> PermissionService \<Rightarrow> ServicePermissionLevel" where
  "getEffectiveServicePermission user service =
     (if user_role user = Some ''owner'' then LevelAdmin
      else nullish (explicit_level (user_permissions user) service) (getRoleDefaultPermission (user_role user) service))"

definition grant_level :: "PermissionService \<Rightarrow> GroupTenantGrant \<Rightarrow> ServicePermissionLevel" where
  "grant_level service grant =
     getEffectiveServicePermission \<lparr>user_role = grant_role grant, user_permissions = grant_permissions grant\<rparr> service"

definition getEffectiveServicePermissionWithGroups ::
  "RbacUserLike \<Rightarrow> GroupTenantGrant list \<Rightarrow> PermissionService \<Rightarrow> ServicePermissionLevel" where
  "getEffectiveServicePermissionWithGroups user groupGrants service =
     (let best = getEffectiveServicePermission user service in
      if LEVEL_RANK best = LEVEL_RANK LevelAdmin then best
      else foldl (\<lambda>best grant. better_of best (grant_level service grant)) best groupGrants)"

definition merge_entry :: "UserServicePermissions \<Rightarrow> PermissionService \<times> ServicePermissionLevel \<Rightarrow> UserServicePermissions" where
  "merge_entry merged entry =
     (case map_get merged (fst entry) of
        None \<Rightarrow> map_set merged (fst entry) (snd entry)
      | Some current \<Rightarrow>
          if LEVEL_RANK (snd entry) > LEVEL_RANK current then map_set merged (fst entry) (snd entry) else merged)"

definition mergeServicePermissions :: "stored_permissions list \<Rightarrow> UserServicePermissions" where
  "mergeServicePermissions maps = foldl (\<lambda>merged m. foldl merge_entry merged (normalizeServicePermissions m)) [] maps"

definition hasServicePermission :: "RbacUserLike \<Rightarrow> PermissionService \<Rightarrow> ServicePermissionLevel \<Rightarrow> bool" where
  "hasServicePermission user service required \<longleftrightarrow>
     LEVEL_RANK (getEffectiveServicePermission user service) \<ge> LEVEL_RANK required"

definition resolveCurrentServicePermission ::
  "RbacUserLike \<Rightarrow> PermissionService \<Rightarrow> GroupTenantGrant list \<Rightarrow> stored_permissions \<Rightarrow> ServicePermissionLevel" where
  "resolveCurrentServicePermission user service groupGrants tokenScope =
     (let current = getEffectiveServicePermissionWithGroups user groupGrants service in
      if tokenScope \<noteq> PermNullish
      then minPermission current (nullish (explicit_level tokenScope service) LevelNone)
      else current)"

section \<open>Decisions\<close>

datatype ServiceAuthorizationResult =
    AuthAllowed PermissionService ServicePermissionLevel
  | AuthRefused PermissionService ServicePermissionLevel ServicePermissionLevel

definition authorizeService ::
  "RbacUserLike \<Rightarrow> string \<Rightarrow> PermissionService \<Rightarrow> GroupTenantGrant list \<Rightarrow> stored_permissions
     \<Rightarrow> ServicePermissionLevel option \<Rightarrow> ServiceAuthorizationResult" where
  "authorizeService user meth service groupGrants tokenScope level =
     (let required = nullish level (getRequiredPermissionLevel meth service);
          current = getEffectiveServicePermissionWithGroups user groupGrants service;
          current = (if tokenScope \<noteq> PermNullish
                     then minPermission current (nullish (explicit_level tokenScope service) LevelNone)
                     else current)
      in if LEVEL_RANK current \<ge> LEVEL_RANK required then AuthAllowed service required
         else AuthRefused service required current)"

datatype request_authorization = NotGated | Gated ServiceAuthorizationResult

definition authorizeServiceRequest ::
  "path_resolvers \<Rightarrow> RbacUserLike \<Rightarrow> string \<Rightarrow> string \<Rightarrow> GroupTenantGrant list \<Rightarrow> stored_permissions \<Rightarrow> request_authorization" where
  "authorizeServiceRequest rs user meth pathname groupGrants tokenScope =
     (case getPermissionServiceForPath rs pathname of
        None \<Rightarrow> NotGated
      | Some service \<Rightarrow> Gated (authorizeService user meth service groupGrants tokenScope None))"

section \<open>Reading stored permissions\<close>

lemma better_of_max [simp]: "better_of a b = max a b"
  by (auto simp: better_of_def max_def level_order LEVEL_RANK_inject)

lemma foldl_max: "foldl (\<lambda>best x. max best (f x)) b xs = Max (insert b (f ` set xs))"
  for b :: "'a :: linorder"
proof (induction xs arbitrary: b)
  case (Cons x xs)
  have "insert (max b (f x)) (f ` set xs) \<noteq> {}" by simp
  then show ?case using Cons.IH [of "max b (f x)"]
    by (cases "xs = []") (simp_all add: max.assoc Max.insert insert_commute max.left_commute max.commute)
qed simp

lemma LEVEL_RANK_le [simp]: "LEVEL_RANK a \<le> LEVEL_RANK b \<longleftrightarrow> a \<le> b" "LEVEL_RANK a < LEVEL_RANK b \<longleftrightarrow> a < b"
  by (simp_all add: level_order)

text \<open>What one entry of a stored object says.\<close>

definition entry_level :: "string \<Rightarrow> permission_value \<Rightarrow> ServicePermissionLevel option" where
  "entry_level service v =
     (if isPermissionService service
      then (case v of PermText text \<Rightarrow> isServicePermissionLevel text | PermNoText \<Rightarrow> None) else None)"

lemma normalize_entry_read:
  "normalize_entry m (service, v) =
     (case entry_level service v of Some level \<Rightarrow> map_set m service level | None \<Rightarrow> m)"
  by (auto simp: normalize_entry_def entry_level_def split: permission_value.splits option.splits)

lemma normalize_get:
  "distinct (map fst entries) \<Longrightarrow>
   map_get (foldl normalize_entry m entries) service =
     opt_or (Option.bind (map_get entries service) (entry_level service)) (map_get m service)"
proof (induction entries arbitrary: m)
  case (Cons e es)
  obtain s v where e: "e = (s, v)" by (cases e)
  have out: "map_get es s = None" using Cons.prems e by (simp add: map_of_eq_None_iff)
  have "map_get (foldl normalize_entry m (e # es)) service =
      opt_or (Option.bind (map_get es service) (entry_level service)) (map_get (normalize_entry m (s, v)) service)"
    using Cons e by simp
  then show ?case
    using out by (auto simp: e normalize_entry_read split: option.splits)
qed simp

lemma normalize_distinct: "distinct (map fst m) \<Longrightarrow> distinct (map fst (foldl normalize_entry m entries))"
  by (induction entries arbitrary: m)
    (auto simp: normalize_entry_read map_set_distinct split: option.splits)

lemma normalized_distinct: "distinct (map fst (normalizeServicePermissions stored))"
  by (cases stored) (simp_all add: normalize_distinct)

lemma normalize_known:
  "(\<And>s l. map_get m s = Some l \<Longrightarrow> isPermissionService s) \<Longrightarrow>
   map_get (foldl normalize_entry m entries) s = Some l \<Longrightarrow> isPermissionService s"
proof (induction entries arbitrary: m)
  case (Cons e es)
  obtain t v where e: "e = (t, v)" by (cases e)
  show ?case
  proof (rule Cons.IH)
    show "map_get (foldl normalize_entry (normalize_entry m e) es) s = Some l" using Cons.prems(2) by simp
    show "isPermissionService s'" if "map_get (normalize_entry m e) s' = Some l'" for s' l'
      using that Cons.prems(1) by (auto simp: e normalize_entry_read entry_level_def split: option.splits if_splits)
  qed
qed simp

lemma explicit_level_known: "explicit_level stored service = Some level \<Longrightarrow> isPermissionService service"
  by (cases stored) (auto simp: explicit_level_def intro: normalize_known [of "[]"])

lemma explicit_level_object:
  assumes "distinct (map fst m)"
  shows "explicit_level (permission_object m) service = (if isPermissionService service then map_get m service else None)"
proof -
  let ?entries = "map (\<lambda>(service, level). (service, PermText (level_text level))) m"
  have "map fst ?entries = map fst m" by (simp add: split_beta comp_def)
  then have "distinct (map fst ?entries)" using assms by (simp only:)
  moreover have "map_get ?entries service = map_option (\<lambda>level. PermText (level_text level)) (map_get m service)"
    by (induction m) auto
  ultimately show ?thesis
    using normalize_get [of ?entries "[]" service]
    by (cases "map_get m service") (simp_all add: explicit_level_def permission_object_def entry_level_def)
qed

lemma explicit_level_nullish [simp]: "explicit_level PermNullish s = None" "explicit_level (PermOther k) s = None"
  by (simp_all add: explicit_level_def)

section \<open>Decisions\<close>

lemma withGroups_Max:
  "getEffectiveServicePermissionWithGroups user grants service =
     Max (insert (getEffectiveServicePermission user service) (grant_level service ` set grants))"
proof (cases "getEffectiveServicePermission user service = LevelAdmin")
  case True
  then have "Max (insert (getEffectiveServicePermission user service) (grant_level service ` set grants)) = LevelAdmin"
    by (intro Max_eqI) auto
  then show ?thesis using True by (simp add: getEffectiveServicePermissionWithGroups_def)
next
  case False
  then have "LEVEL_RANK (getEffectiveServicePermission user service) \<noteq> LEVEL_RANK LevelAdmin"
    unfolding LEVEL_RANK_inject .
  then show ?thesis
    by (simp add: getEffectiveServicePermissionWithGroups_def foldl_max Let_def del: LEVEL_RANK.simps)
qed

text \<open>
  A level is decided by the strongest of what the caller and each of the caller's groups holds, and an API
  token only ever lowers it: a service that is missing from the token's scope is out of reach.
\<close>

definition scope_cap :: "stored_permissions \<Rightarrow> PermissionService \<Rightarrow> ServicePermissionLevel" where
  "scope_cap tokenScope service =
     (if tokenScope = PermNullish then LevelAdmin else nullish (explicit_level tokenScope service) LevelNone)"

definition held_level :: "RbacUserLike \<Rightarrow> GroupTenantGrant list \<Rightarrow> PermissionService \<Rightarrow> ServicePermissionLevel" where
  "held_level user grants service =
     Max (insert (getEffectiveServicePermission user service) (grant_level service ` set grants))"

lemma current_level:
  "resolveCurrentServicePermission user service grants scope = min (held_level user grants service) (scope_cap scope service)"
  by (simp add: resolveCurrentServicePermission_def withGroups_Max scope_cap_def held_level_def min_absorb1 Let_def)

lemma authorizeService_current:
  "authorizeService user meth service grants scope level =
     (let required = nullish level (getRequiredPermissionLevel meth service);
          current = resolveCurrentServicePermission user service grants scope
      in if required \<le> current then AuthAllowed service required else AuthRefused service required current)"
  by (simp add: authorizeService_def resolveCurrentServicePermission_def Let_def)

text \<open>
  C27: Access to a service is decided by one comparison: a call is let through exactly when the level it needs is at most
  both the strongest level that the caller or one of the caller's groups holds and the cap of the token's scope,
  and a refusal reports exactly that level. Granting a group more never takes anything away; a scope
  never adds anything.
\<close>

theorem access_is_the_strongest_grant_under_the_scope:
  "authorizeService user meth service grants scope level =
     (if nullish level (getRequiredPermissionLevel meth service) \<le> min (held_level user grants service) (scope_cap scope service)
      then AuthAllowed service (nullish level (getRequiredPermissionLevel meth service))
      else AuthRefused service (nullish level (getRequiredPermissionLevel meth service))
             (min (held_level user grants service) (scope_cap scope service)))"
  unfolding authorizeService_current current_level Let_def ..

lemma held_level_ge: "grant \<in> set grants \<Longrightarrow> grant_level service grant \<le> held_level user grants service"
  "getEffectiveServicePermission user service \<le> held_level user grants service"
  unfolding held_level_def by (auto intro: Max_ge)

section \<open>Which paths are gated\<close>

lemma covers_Cons: "covers pre path \<longleftrightarrow> path = pre \<or> (\<exists>rest. path = pre @ CHR 0x2F # rest)"
  by (auto simp: covers_def starts_with_def) (metis append_eq_conv_conj append_take_drop_id append.assoc append_Cons append_Nil)

text \<open>No prefix of the table lies under another one, so the order of the table does not matter.\<close>

lemma covers_two:
  assumes "covers p path" "covers q path" "length p \<le> length q"
  shows "covers p q"
proof -
  obtain u where u: "path = p @ u" "u = [] \<or> hd u = CHR 0x2F" using assms(1) by (auto simp: covers_Cons)
  obtain v where v: "path = q @ v" using assms(2) by (auto simp: covers_Cons)
  have "take (length p) q = p" using u(1) v assms(3) by (metis append_eq_conv_conj take_append take_all_iff append_Nil2 diff_is_0_eq take0)
  then obtain w where w: "q = p @ w" by (metis append_take_drop_id)
  then have "u = w @ v" using u(1) v by simp
  then show ?thesis using u(2) w by (cases w) (auto simp: covers_Cons)
qed

definition route_shape :: "string \<Rightarrow> bool" where
  "route_shape p \<longleftrightarrow>
     (if starts_with p ''/api/client/v1/'' then CHR 0x2F \<notin> set (drop 15 p)
      else starts_with p ''/api/'' \<and> CHR 0x2F \<notin> set (drop 5 p) \<and> drop 5 p \<noteq> ''client'')"

lemma ROUTE_PREFIXES_shape: "list_all (route_shape \<circ> fst) ROUTE_PREFIXES"
  by code_simp

lemma starts_with_append: "starts_with p q \<longleftrightarrow> (\<exists>r. p = q @ r)"
  by (auto simp: starts_with_def) (metis append_take_drop_id)

lemma route_shape_cases:
  assumes "route_shape p"
  obtains seg where "p = ''/api/client/v1/'' @ seg" "CHR 0x2F \<notin> set seg"
  | seg where "p = ''/api/'' @ seg" "CHR 0x2F \<notin> set seg" "seg \<noteq> ''client''"
proof (cases "starts_with p ''/api/client/v1/''")
  case True
  then obtain seg where p: "p = ''/api/client/v1/'' @ seg" unfolding starts_with_append by blast
  have "CHR 0x2F \<notin> set seg" using assms True unfolding route_shape_def p by simp
  with p show thesis by (rule that(1))
next
  case False
  then have "starts_with p ''/api/''" using assms unfolding route_shape_def by simp
  then obtain seg where p: "p = ''/api/'' @ seg" unfolding starts_with_append by blast
  have "CHR 0x2F \<notin> set seg \<and> seg \<noteq> ''client''" using assms False unfolding route_shape_def p by simp
  with p show thesis using that(2) by blast
qed

lemma split_first: "x \<notin> set a \<Longrightarrow> x \<notin> set b \<Longrightarrow> a @ x # s = b @ x # t \<Longrightarrow> a = b"
  by (induction a arbitrary: b) (auto simp: Cons_eq_append_conv append_eq_Cons_conv)

lemma routes_flat:
  assumes "route_shape p" "route_shape q" "covers p q"
  shows "p = q"
proof (rule ccontr)
  assume "p \<noteq> q"
  then obtain rest where q: "q = p @ CHR 0x2F # rest" using assms(3) by (auto simp: covers_Cons)
  from assms(1) show False
  proof (cases rule: route_shape_cases)
    case (1 seg)
    from assms(2) show False
    proof (cases rule: route_shape_cases)
      case (1 seg')
      then have "seg' = seg @ CHR 0x2F # rest" using q \<open>p = ''/api/client/v1/'' @ seg\<close> by simp
      then show False using 1(2) by simp
    next
      case (2 seg')
      then have "seg' = ''client/v1/'' @ seg @ CHR 0x2F # rest" using q \<open>p = ''/api/client/v1/'' @ seg\<close> by simp
      then show False using 2(2) by simp
    qed
  next
    case (2 seg)
    from assms(2) show False
    proof (cases rule: route_shape_cases)
      case (1 seg')
      then have split: "''client'' @ CHR 0x2F # (''v1/'' @ seg') = seg @ CHR 0x2F # rest"
        using q \<open>p = ''/api/'' @ seg\<close> by simp
      have "CHR 0x2F \<notin> set ''client''" by simp
      then have "''client'' = seg" using 2(2) split by (rule split_first)
      then show False using 2(3) by simp
    next
      case (2 seg')
      then have "seg' = seg @ CHR 0x2F # rest" using q \<open>p = ''/api/'' @ seg\<close> by simp
      then show False using 2(2) by simp
    qed
  qed
qed

lemma ROUTE_PREFIXES_distinct: "distinct (map fst ROUTE_PREFIXES)"
  by (simp add: ROUTE_PREFIXES_def)

lemma routes_unique:
  assumes "(p, s) \<in> set ROUTE_PREFIXES" "(q, t) \<in> set ROUTE_PREFIXES" "covers p path" "covers q path"
  shows "p = q \<and> s = t"
proof -
  have shape: "route_shape p" "route_shape q"
    using ROUTE_PREFIXES_shape assms(1,2) by (auto simp: list_all_iff)
  have "p = q"
    using covers_two [OF assms(3,4)] covers_two [OF assms(4,3)] routes_flat [OF shape] routes_flat [OF shape(2,1)]
    by (metis nat_le_linear)
  moreover from this have "s = t" using ROUTE_PREFIXES_distinct assms(1,2) by (metis eq_key_imp_eq_value)
  ultimately show ?thesis by simp
qed

lemma resolver_service_None:
  "resolver_service rs path = None \<longleftrightarrow>
     (\<forall>(p, resolver) \<in> set rs. covers p path \<longrightarrow> resolver path \<in> {ResolverThrows, Resolves None, Resolves (Some [])})"
  by (induction rs path rule: resolver_service.induct)
    (auto split: resolver_answer.splits option.splits)

lemma find_route:
  assumes "(p, s) \<in> set ROUTE_PREFIXES" "covers p path"
  shows "find (\<lambda>(pre, service). covers pre path) ROUTE_PREFIXES = Some (p, s)"
proof -
  obtain q t where found: "find (\<lambda>(pre, service). covers pre path) ROUTE_PREFIXES = Some (q, t)"
    using assms by (cases "find (\<lambda>(pre, service). covers pre path) ROUTE_PREFIXES") (auto simp: find_None_iff)
  then have "(q, t) \<in> set ROUTE_PREFIXES \<and> covers q path" using find_SomeD [OF found] by auto
  then show ?thesis using routes_unique [OF assms(1) _ assms(2)] found by blast
qed

text \<open>
  C18: Every path under a prefix of the table stays gated, except a person's own account (\<^verbatim>\<open>/api/users/me\<close>), which is left open.
  The projects of a user go to the projects service; on any other path the service is the one a registered resolver
  names, or else the owner of the prefix: which prefix that is does not depend on the order of the table, and a resolver that throws or
  has no answer does not open the gate.
\<close>

theorem mapped_path_stays_gated:
  assumes "(pre, service) \<in> set ROUTE_PREFIXES" "covers pre (normalize_path path)" "\<not> is_own_account (normalize_path path)"
  shows "getPermissionServiceForPath rs path =
           Some (if is_user_projects (normalize_path path) then ''projects''
                 else nullish (resolver_service rs (normalize_path path)) service) \<and>
         (resolver_service rs (normalize_path path) = None \<longleftrightarrow>
            (\<forall>(p, resolver) \<in> set rs. covers p (normalize_path path) \<longrightarrow>
               resolver (normalize_path path) \<in> {ResolverThrows, Resolves None, Resolves (Some [])}))"
proof (cases "resolver_service rs (normalize_path path)")
  case None
  then show ?thesis
    using assms(3) find_route [OF assms(1,2)] resolver_service_None [of rs "normalize_path path"]
    by (simp add: getPermissionServiceForPath_def PATH_SERVICE_OVERRIDES_def Let_def)
next
  case (Some t)
  then show ?thesis
    using assms(3) resolver_service_None [of rs "normalize_path path"]
    by (simp add: getPermissionServiceForPath_def PATH_SERVICE_OVERRIDES_def Let_def)
qed

theorem mapped_path_stays_gated_witness:
  "getPermissionServiceForPath [(''/api/quota'', \<lambda>path. ResolverThrows)] ''/api/quota/policies/'' = Some ''projects''"
proof -
  have path: "normalize_path ''/api/quota/policies/'' = ''/api/quota/policies''" by code_simp
  have "(''/api/quota'', ''projects'') \<in> set ROUTE_PREFIXES" by (simp add: ROUTE_PREFIXES_def)
  moreover have "covers ''/api/quota'' (normalize_path ''/api/quota/policies/'')"
    "\<not> is_own_account (normalize_path ''/api/quota/policies/'')" by code_simp+
  ultimately show ?thesis
    using mapped_path_stays_gated [of "''/api/quota''" "''projects''" "''/api/quota/policies/''"
        "[(''/api/quota'', \<lambda>path. ResolverThrows)]"] by simp
qed

text \<open>
  A service of the administration is out of reach of everybody whom nobody granted it: without the role of an
  owner or administrator, of the person's own or through a group, and without an explicit level for the service on the
  person or on a group, every request to it is refused, whatever its method and the scope of the token.
\<close>

theorem admin_services_need_a_grant:
  assumes "adminService (getServiceDefinition service)" "getPermissionServiceForPath rs path = Some service"
    and "\<not> owner_or_admin (user_role user)" "explicit_level (user_permissions user) service = None"
    and "\<And>grant. grant \<in> set grants \<Longrightarrow>
           \<not> owner_or_admin (grant_role grant) \<and> explicit_level (grant_permissions grant) service = None"
  shows "authorizeServiceRequest rs user meth path grants scope =
           Gated (AuthRefused service (getRequiredPermissionLevel meth service) LevelNone)"
proof -
  have none: "getEffectiveServicePermission u service = LevelNone"
    if "\<not> owner_or_admin (user_role u)" "explicit_level (user_permissions u) service = None" for u
    using that assms(1) by (simp add: getEffectiveServicePermission_def getRoleDefaultPermission_def Let_def)
  have "grant_level service grant = LevelNone" if "grant \<in> set grants" for grant
    using none assms(5) [OF that] by (simp add: grant_level_def)
  then have "held_level user grants service = LevelNone"
    using none [OF assms(3,4)] unfolding held_level_def by (intro Max_eqI) auto
  moreover have "getRequiredPermissionLevel meth service \<noteq> LevelNone"
    by (simp add: getRequiredPermissionLevel_def Let_def)
  ultimately show ?thesis
    using assms(2) by (simp add: authorizeServiceRequest_def authorizeService_current current_level min_absorb1 Let_def)
qed

theorem admin_services_need_a_grant_witness:
  "authorizeServiceRequest [] \<lparr>user_role = Some ''project_admin'', user_permissions = PermNullish\<rparr> ''POST'' ''/api/iam''
     [\<lparr>grant_role = Some ''user'', grant_permissions = PermNullish\<rparr>] PermNullish =
   Gated (AuthRefused ''iam'' LevelAdmin LevelNone)"
proof -
  have "adminService (getServiceDefinition ''iam'')" "getRequiredPermissionLevel ''POST'' ''iam'' = LevelAdmin" by code_simp+
  moreover have "getPermissionServiceForPath [] ''/api/iam'' = Some ''iam''" by code_simp
  ultimately show ?thesis
    using admin_services_need_a_grant [of "''iam''" "[]" "''/api/iam''"
        "\<lparr>user_role = Some ''project_admin'', user_permissions = PermNullish\<rparr>"
        "[\<lparr>grant_role = Some ''user'', grant_permissions = PermNullish\<rparr>]" "''POST''" PermNullish] by simp
qed

section \<open>Merging\<close>

fun max_level :: "ServicePermissionLevel option \<Rightarrow> ServicePermissionLevel option \<Rightarrow> ServicePermissionLevel option" where
  "max_level None b = b"
| "max_level a None = a"
| "max_level (Some a) (Some b) = Some (max a b)"

lemma max_level_None [simp]: "max_level a None = a"
  by (cases a) simp_all

lemma merge_entries:
  "distinct (map fst es) \<Longrightarrow> map_get (foldl merge_entry merged es) s = max_level (map_get merged s) (map_get es s)"
proof (induction es arbitrary: merged)
  case (Cons e es)
  obtain t l where e: "e = (t, l)" by (cases e)
  have out: "map_get es t = None" using Cons.prems e by (simp add: map_of_eq_None_iff)
  have "map_get (merge_entry merged e) s = (if s = t then max_level (map_get merged t) (Some l) else map_get merged s)"
    by (auto simp: e merge_entry_def max_def split: option.splits)
  then show ?case using Cons.IH [of "merge_entry merged e"] Cons.prems out by (auto simp: e)
qed simp

lemma merge_get: "map_get (mergeServicePermissions ms) s = foldl max_level None (map (\<lambda>m. explicit_level m s) ms)"
proof -
  have "map_get (foldl (\<lambda>merged m. foldl merge_entry merged (normalizeServicePermissions m)) m0 ms) s =
      foldl max_level (map_get m0 s) (map (\<lambda>m. explicit_level m s) ms)" for m0
    by (induction ms arbitrary: m0) (simp_all add: merge_entries normalized_distinct explicit_level_def)
  from this [of "[]"] show ?thesis by (simp add: mergeServicePermissions_def)
qed

lemma merge_entries_distinct: "distinct (map fst merged) \<Longrightarrow> distinct (map fst (foldl merge_entry merged es))"
  by (induction es arbitrary: merged) (simp_all add: merge_entry_def map_set_distinct split: option.split)

lemma merge_distinct: "distinct (map fst (mergeServicePermissions ms))"
proof -
  have "distinct (map fst m0) \<Longrightarrow>
      distinct (map fst (foldl (\<lambda>merged m. foldl merge_entry merged (normalizeServicePermissions m)) m0 ms))" for m0
    by (induction ms arbitrary: m0) (simp_all add: merge_entries_distinct)
  then show ?thesis by (simp add: mergeServicePermissions_def)
qed

end
