(* ===== verification/ProjectAccess.thy ===== *)
theory ProjectAccess
  imports Rbac
begin

text \<open>
  From assignments to the levels the policy engine sees.

  \<^item> \<^verbatim>\<open>src/lib/iam/projectLevels.ts\<close>: from which instant the project levels of a workspace count in full, how that
    instant is agreed on (with the nodes that evaluate a workspace for the first time as interleaved steps on the stored
    document), and what a membership row says under it.
  \<^item> \<^verbatim>\<open>src/lib/iam/projectMembership.ts\<close>: the caller's membership in one project.
  \<^item> \<^verbatim>\<open>src/lib/iam/entities.ts\<close>, level sets and token caps: the three sets of services the policies read.
  \<^item> \<^verbatim>\<open>src/lib/iam/projectNarrowing.ts\<close>, the pure part: the narrowed levels, the deny sets and the project a request
    runs in.
  \<^item> \<^verbatim>\<open>src/lib/iam/groupGrants.ts\<close>: loading groups, batched and one by one.

  Instants are numbers of milliseconds; a date that does not parse is \<^const>\<open>NaN\<close>.
\<close>

section \<open>The activation instant\<close>

definition isBeforeActivation :: "js_float option \<Rightarrow> jsnum \<Rightarrow> bool" where
  "isBeforeActivation updatedAt since =
     (case updatedAt of
        None \<Rightarrow> True
      | Some (Finite ms) \<Rightarrow> ms < since
      | Some _ \<Rightarrow> True)"

record ProjectAssignmentRow =
  row_projectId :: string
  row_role :: ProjectRole
  row_permissions :: stored_permissions
  row_updatedAt :: "js_float option"
  row_groupId :: "string option"

definition effectiveProjectLevels :: "ProjectAssignmentRow \<Rightarrow> jsnum \<Rightarrow> UserServicePermissions" where
  "effectiveProjectLevels row since =
     (let levels = normalizeServicePermissions (row_permissions row) in
      if \<not> isBeforeActivation (row_updatedAt row) since then levels
      else foldl (\<lambda>kept (service, level). if level \<noteq> LevelNone then map_set kept service level else kept) [] levels)"

definition ignoredProjectLevels :: "ProjectAssignmentRow \<Rightarrow> jsnum \<Rightarrow> string list" where
  "ignoredProjectLevels row since =
     (if \<not> isBeforeActivation (row_updatedAt row) since then []
      else map fst (filter (\<lambda>(service, level). level = LevelNone) (normalizeServicePermissions (row_permissions row))))"

text \<open>
  The stored document of a workspace: missing, or with a \<^verbatim>\<open>since\<close> field that is not a text, a text that is no date,
  or an instant.
\<close>

datatype since_doc = SinceNoText | SinceText js_float

fun parseSince :: "since_doc option \<Rightarrow> jsnum option" where
  "parseSince (Some (SinceText (Finite ms))) = Some ms"
| "parseSince _ = None"

definition known_max :: nat where
  "known_max = 5000"

text \<open>Remembering for a process, with the oldest workspace dropped when the table is full.\<close>

definition remember_since :: "nat \<Rightarrow> string \<Rightarrow> jsnum \<Rightarrow> (string, jsnum) jsmap \<Rightarrow> (string, jsnum) jsmap" where
  "remember_since max_tenants tenant since known =
     (let known' = (if \<not> map_has known tenant \<and> max_tenants \<le> length known then tl known else known)
      in map_set known' tenant since)"

text \<open>
  One first evaluation of a workspace, step by step: it reads the document; if there is none it writes the current
  instant, and then reads it back. Each of these is one statement on the shared store, so the steps of several nodes
  interleave.
\<close>

datatype since_task = Asked | NoneStored | Written jsnum | Settled jsnum

fun since_step :: "jsnum \<Rightarrow> since_task \<Rightarrow> since_doc option \<Rightarrow> since_task \<times> since_doc option" where
  "since_step now Asked doc = (case parseSince doc of Some since \<Rightarrow> (Settled since, doc) | None \<Rightarrow> (NoneStored, doc))"
| "since_step now NoneStored doc = (Written now, Some (SinceText (Finite now)))"
| "since_step now (Written t) doc = (Settled (nullish (parseSince doc) t), doc)"
| "since_step now (Settled since) doc = (Settled since, doc)"

text \<open>Alone, the steps are \<open>readOrCreate\<close>.\<close>

definition readOrCreate :: "jsnum \<Rightarrow> since_doc option \<Rightarrow> jsnum \<times> since_doc option" where
  "readOrCreate now doc =
     (case parseSince doc of
        Some existing \<Rightarrow> (existing, doc)
      | None \<Rightarrow> let doc' = Some (SinceText (Finite now)) in (nullish (parseSince doc') now, doc'))"

definition getProjectLevelsSince ::
  "nat \<Rightarrow> string \<Rightarrow> jsnum \<Rightarrow> (string, jsnum) jsmap \<Rightarrow> since_doc option \<Rightarrow> jsnum \<times> (string, jsnum) jsmap \<times> since_doc option" where
  "getProjectLevelsSince max_tenants tenant now known doc =
     (case map_get known tenant of
        Some since \<Rightarrow> (since, known, doc)
      | None \<Rightarrow> let (since, doc') = readOrCreate now doc in (since, remember_since max_tenants tenant since known, doc'))"

section \<open>Membership in one project\<close>

definition assignment_source :: "jsnum \<Rightarrow> ProjectAssignmentRow \<Rightarrow> ProjectRole \<times> UserServicePermissions" where
  "assignment_source since row = (row_role row, effectiveProjectLevels row since)"

definition membership_sources ::
  "string \<Rightarrow> string \<Rightarrow> string list option \<Rightarrow> ProjectAssignmentRow list \<Rightarrow> ProjectAssignmentRow list \<Rightarrow> jsnum
     \<Rightarrow> (ProjectRole \<times> UserServicePermissions) list" where
  "membership_sources projectId userRole legacyProjectIds userProjects groupProjects since =
     (case find (\<lambda>row. row_projectId row = projectId) userProjects of
        Some direct \<Rightarrow> [assignment_source since direct]
      | None \<Rightarrow>
          if projectId \<in> set (nullish legacyProjectIds [])
          then [(if userRole = ''project_admin'' then ProjectAdmin else Member, [])]
          else [])
     @ map (assignment_source since) (filter (\<lambda>row. row_projectId row = projectId) groupProjects)"

definition resolveProjectMembership ::
  "string \<Rightarrow> string \<Rightarrow> string list option \<Rightarrow> ProjectAssignmentRow list \<Rightarrow> ProjectAssignmentRow list \<Rightarrow> jsnum
     \<Rightarrow> RbacProjectLike option" where
  "resolveProjectMembership projectId userRole legacyProjectIds userProjects groupProjects since =
     (let sources = membership_sources projectId userRole legacyProjectIds userProjects groupProjects since in
      if sources = [] then None
      else
        Some \<lparr>proj_role = (if \<exists>s \<in> set sources. fst s = ProjectAdmin then ProjectAdmin else Member),
              proj_permissions = permission_object (mergeServicePermissions (map (permission_object \<circ> snd) sources))\<rparr>)"

section \<open>Level sets\<close>

record LevelSets =
  readSvcs :: "string list"
  writeSvcs :: "string list"
  adminSvcs :: "string list"

definition push_level :: "(PermissionService \<Rightarrow> ServicePermissionLevel) \<Rightarrow> LevelSets \<Rightarrow> PermissionService \<Rightarrow> LevelSets" where
  "push_level levelOf sets service =
     (let rank = LEVEL_RANK (levelOf service);
          sets = (if rank \<ge> 1 then sets\<lparr>readSvcs := readSvcs sets @ [service]\<rparr> else sets);
          sets = (if rank \<ge> 2 then sets\<lparr>writeSvcs := writeSvcs sets @ [service]\<rparr> else sets)
      in if rank \<ge> 3 then sets\<lparr>adminSvcs := adminSvcs sets @ [service]\<rparr> else sets)"

definition levelSets :: "(PermissionService \<Rightarrow> ServicePermissionLevel) \<Rightarrow> LevelSets" where
  "levelSets levelOf = foldl (push_level levelOf) \<lparr>readSvcs = [], writeSvcs = [], adminSvcs = []\<rparr> SERVICE_IDS"

definition userLevelSets :: "RbacUserLike \<Rightarrow> GroupTenantGrant list \<Rightarrow> LevelSets" where
  "userLevelSets user groupGrants = levelSets (getEffectiveServicePermissionWithGroups user groupGrants)"

record TokenCaps =
  scoped :: bool
  capRead :: "string list"
  capWrite :: "string list"
  capAdmin :: "string list"

definition tokenCaps :: "stored_permissions \<Rightarrow> TokenCaps" where
  "tokenCaps scope =
     (if scope = PermNullish then \<lparr>scoped = False, capRead = [], capWrite = [], capAdmin = []\<rparr>
      else
        let sets = levelSets (\<lambda>service. nullish (explicit_level scope service) LevelNone)
        in \<lparr>scoped = True, capRead = readSvcs sets, capWrite = writeSvcs sets, capAdmin = adminSvcs sets\<rparr>)"

section \<open>Narrowing\<close>

definition narrowLevel :: "ServicePermissionLevel \<Rightarrow> RbacProjectLike option \<Rightarrow> PermissionService \<Rightarrow> ServicePermissionLevel" where
  "narrowLevel tenantLevel membership service =
     (case membership of
        None \<Rightarrow> tenantLevel
      | Some m \<Rightarrow>
          (case explicit_level (proj_permissions m) service of
             Some explicit \<Rightarrow> minPermission tenantLevel explicit
           | None \<Rightarrow> tenantLevel))"

record ProjectDenySets =
  deny_read :: "string list"
  deny_write :: "string list"
  deny_admin :: "string list"

definition push_deny :: "RbacProjectLike \<Rightarrow> ProjectDenySets \<Rightarrow> PermissionService \<Rightarrow> ProjectDenySets" where
  "push_deny m deny service =
     (case explicit_level (proj_permissions m) service of
        None \<Rightarrow> deny
      | Some level \<Rightarrow>
          let deny = (if level = LevelNone then deny\<lparr>deny_read := deny_read deny @ [service]\<rparr> else deny);
              deny = (if level = LevelNone \<or> level = LevelRead then deny\<lparr>deny_write := deny_write deny @ [service]\<rparr> else deny)
          in if level \<noteq> LevelAdmin then deny\<lparr>deny_admin := deny_admin deny @ [service]\<rparr> else deny)"

definition projectDenySets :: "RbacProjectLike option \<Rightarrow> ProjectDenySets" where
  "projectDenySets membership =
     (let deny = \<lparr>deny_read = [], deny_write = [], deny_admin = []\<rparr> in
      case membership of None \<Rightarrow> deny | Some m \<Rightarrow> foldl (push_deny m) deny SERVICE_IDS)"

definition narrowedLevelSets :: "RbacUserLike \<Rightarrow> GroupTenantGrant list \<Rightarrow> RbacProjectLike option \<Rightarrow> LevelSets" where
  "narrowedLevelSets user groupGrants membership =
     levelSets (\<lambda>service. narrowLevel (getEffectiveServicePermissionWithGroups user groupGrants service) membership service)"

text \<open>An id that is missing or empty counts as none given.\<close>

definition given_id :: "string option \<Rightarrow> string option" where
  "given_id i = (if i = Some [] then None else i)"

definition pickActiveProjectId :: "string option \<Rightarrow> string option \<Rightarrow> string list \<Rightarrow> string option" where
  "pickActiveProjectId requestedProjectId defaultProjectId memberProjectIds =
     (let first = (case memberProjectIds of [] \<Rightarrow> None | i # _ \<Rightarrow> Some i) in
      case opt_or (given_id requestedProjectId) (given_id defaultProjectId) of
        None \<Rightarrow> first
      | Some projectId \<Rightarrow> if projectId \<in> set memberProjectIds then Some projectId else first)"

section \<open>Groups\<close>

record IGroup =
  group_id :: string
  group_tenantRole :: "string option"
  group_permissions :: stored_permissions

definition GROUP_READ_CONCURRENCY :: nat where
  "GROUP_READ_CONCURRENCY = 8"

definition GROUP_BATCH_SIZE :: nat where
  "GROUP_BATCH_SIZE = 200"

text \<open>
  The queries of a database provider: the membership rows of a user (missing, or not an array, or the group
  ids), the batched query, and a point read. Any of them may fail.
\<close>

datatype 'a query = Fails | Answers 'a

datatype memberships = NoArray | Rows "string list"

datatype group_page = MalformedPage | PageOf "IGroup list"

record group_db =
  listGroupMembersByUser :: "(string \<Rightarrow> memberships query) option"
  iamListGroups :: "(string \<Rightarrow> string list \<Rightarrow> nat \<Rightarrow> group_page query) option"
  findGroupById :: "string \<Rightarrow> IGroup option query"

definition unique :: "'a list \<Rightarrow> 'a list" where
  "unique xs = foldl (\<lambda>seen x. if x \<in> set seen then seen else seen @ [x]) [] xs"

definition listUserGroupIds :: "group_db \<Rightarrow> string \<Rightarrow> string list query" where
  "listUserGroupIds db userId =
     (case listGroupMembersByUser db of
        None \<Rightarrow> Answers []
      | Some list_members \<Rightarrow>
          (case list_members userId of
             Fails \<Rightarrow> Fails
           | Answers NoArray \<Rightarrow> Answers []
           | Answers (Rows ids) \<Rightarrow> Answers (unique ids)))"

fun chunks :: "nat \<Rightarrow> 'a list \<Rightarrow> 'a list list" where
  "chunks n xs = (if xs = [] \<or> n = 0 then [] else take n xs # chunks n (drop n xs))"

declare chunks.simps [simp del]

fun all_answers :: "'a query list \<Rightarrow> 'a list query" where
  "all_answers [] = Answers []"
| "all_answers (Fails # qs) = Fails"
| "all_answers (Answers x # qs) = (case all_answers qs of Fails \<Rightarrow> Fails | Answers xs \<Rightarrow> Answers (x # xs))"

fun read_chunks :: "(string \<Rightarrow> 'a query) \<Rightarrow> string list list \<Rightarrow> 'a list query" where
  "read_chunks point [] = Answers []"
| "read_chunks point (c # cs) =
     (case all_answers (map point c) of
        Fails \<Rightarrow> Fails
      | Answers xs \<Rightarrow> (case read_chunks point cs of Fails \<Rightarrow> Fails | Answers ys \<Rightarrow> Answers (xs @ ys)))"

definition fetchGroupsOneByOne :: "group_db \<Rightarrow> string list \<Rightarrow> IGroup list query" where
  "fetchGroupsOneByOne db groupIds =
     map_query (\<lambda>groups. map the (filter (\<lambda>g. g \<noteq> None) groups))
       (read_chunks (findGroupById db) (chunks GROUP_READ_CONCURRENCY groupIds))"

definition by_id :: "(string, IGroup) jsmap \<Rightarrow> IGroup list \<Rightarrow> (string, IGroup) jsmap" where
  "by_id m items = foldl (\<lambda>m g. map_set m (group_id g) g) m items"

fun batched :: "(string list \<Rightarrow> group_page query) \<Rightarrow> string list list \<Rightarrow> (string, IGroup) jsmap \<Rightarrow> (string, IGroup) jsmap option" where
  "batched list_groups [] m = Some m"
| "batched list_groups (c # cs) m =
     (case list_groups c of
        Answers (PageOf items) \<Rightarrow> batched list_groups cs (by_id m items)
      | Answers MalformedPage \<Rightarrow> None
      | Fails \<Rightarrow> None)"

definition fetchGroupsByIds :: "group_db \<Rightarrow> string option \<Rightarrow> string list \<Rightarrow> IGroup list query" where
  "fetchGroupsByIds db tenantId groupIds =
     (if groupIds = [] then Answers []
      else
        case (given_id tenantId, iamListGroups db) of
          (Some tenant, Some list_groups) \<Rightarrow>
            (case batched (\<lambda>ids. list_groups tenant ids GROUP_BATCH_SIZE) (chunks GROUP_BATCH_SIZE groupIds) [] of
               Some byId \<Rightarrow> Answers (map the (filter (\<lambda>g. g \<noteq> None) (map (map_get byId) groupIds)))
             | None \<Rightarrow> fetchGroupsOneByOne db groupIds)
        | _ \<Rightarrow> fetchGroupsOneByOne db groupIds)"

definition loadUserGroups :: "group_db \<Rightarrow> string \<Rightarrow> string option \<Rightarrow> IGroup list query" where
  "loadUserGroups db userId tenantId =
     (case listUserGroupIds db userId of Fails \<Rightarrow> Fails | Answers ids \<Rightarrow> fetchGroupsByIds db tenantId ids)"

definition has_keys :: "stored_permissions \<Rightarrow> bool" where
  "has_keys stored = (case stored of PermNullish \<Rightarrow> False | PermObject entries \<Rightarrow> entries \<noteq> [] | PermOther keys \<Rightarrow> keys)"

definition groupToGrant :: "IGroup \<Rightarrow> GroupTenantGrant option" where
  "groupToGrant g =
     (if given_id (group_tenantRole g) \<noteq> None \<or> has_keys (group_permissions g)
      then Some \<lparr>grant_role = group_tenantRole g, grant_permissions = group_permissions g\<rparr> else None)"

definition grantsOf :: "IGroup list \<Rightarrow> GroupTenantGrant list" where
  "grantsOf groups = map the (filter (\<lambda>g. g \<noteq> None) (map groupToGrant groups))"

definition loadGroupGrants :: "group_db \<Rightarrow> string \<Rightarrow> string option \<Rightarrow> GroupTenantGrant list query" where
  "loadGroupGrants db userId tenantId = map_query grantsOf (loadUserGroups db userId tenantId)"

section \<open>Level sets against the decisions of the role arithmetic\<close>

fun svcs_at :: "LevelSets \<Rightarrow> ServicePermissionLevel \<Rightarrow> string list" where
  "svcs_at sets LevelNone = SERVICE_IDS"
| "svcs_at sets LevelRead = readSvcs sets"
| "svcs_at sets LevelWrite = writeSvcs sets"
| "svcs_at sets LevelAdmin = adminSvcs sets"

fun caps_at :: "TokenCaps \<Rightarrow> ServicePermissionLevel \<Rightarrow> string list" where
  "caps_at caps LevelNone = SERVICE_IDS"
| "caps_at caps LevelRead = capRead caps"
| "caps_at caps LevelWrite = capWrite caps"
| "caps_at caps LevelAdmin = capAdmin caps"

lemma rank_at_least: "Suc 0 \<le> LEVEL_RANK l \<longleftrightarrow> LevelRead \<le> l" "2 \<le> LEVEL_RANK l \<longleftrightarrow> LevelWrite \<le> l" "3 \<le> LEVEL_RANK l \<longleftrightarrow> LevelAdmin \<le> l"
  by (cases l; simp add: level_order)+

lemma push_level_foldl:
  "foldl (push_level f) sets services =
     \<lparr>readSvcs = readSvcs sets @ filter (\<lambda>s. LevelRead \<le> f s) services,
      writeSvcs = writeSvcs sets @ filter (\<lambda>s. LevelWrite \<le> f s) services,
      adminSvcs = adminSvcs sets @ filter (\<lambda>s. LevelAdmin \<le> f s) services\<rparr>"
  by (induction services arbitrary: sets) (simp_all add: push_level_def Let_def rank_at_least del: level_extremes)

lemma svcs_at_levelSets [simp]: "svcs_at (levelSets f) l = filter (\<lambda>s. l \<le> f s) SERVICE_IDS"
  by (cases l) (simp_all add: levelSets_def push_level_foldl del: level_extremes)

lemma caps_at_tokenCaps:
  "scoped (tokenCaps scope) \<Longrightarrow> caps_at (tokenCaps scope) l =
     filter (\<lambda>s. l \<le> nullish (explicit_level scope s) LevelNone) SERVICE_IDS"
  using svcs_at_levelSets [of "\<lambda>s. nullish (explicit_level scope s) LevelNone" l]
  by (cases l) (auto simp: tokenCaps_def Let_def split: if_splits)

lemma scoped_iff [simp]: "scoped (tokenCaps scope) \<longleftrightarrow> scope \<noteq> PermNullish"
  by (simp add: tokenCaps_def Let_def)

text \<open>
  The three sets of services that policies read say exactly what the role arithmetic decides: a known service is let
  through at a level if and only if it is in the caller's set of that level and, for a token with a scope, also
  in the token's cap of that level.
\<close>

theorem level_sets_agree_with_rbac:
  assumes "isPermissionService service"
  shows "authorizeService user meth service grants scope (Some level) = AuthAllowed service level \<longleftrightarrow>
     service \<in> set (svcs_at (userLevelSets user grants) level) \<and>
     (scoped (tokenCaps scope) \<longrightarrow> service \<in> set (caps_at (tokenCaps scope) level))"
proof -
  have held: "service \<in> set (svcs_at (userLevelSets user grants) level) \<longleftrightarrow> level \<le> held_level user grants service"
    using assms by (simp add: userLevelSets_def withGroups_Max isPermissionService_def flip: held_level_def)
  have cap: "(scoped (tokenCaps scope) \<longrightarrow> service \<in> set (caps_at (tokenCaps scope) level)) \<longleftrightarrow> level \<le> scope_cap scope service"
    using assms caps_at_tokenCaps [of scope level] by (auto simp: scope_cap_def isPermissionService_def)
  show ?thesis
    unfolding held cap by (simp add: authorizeService_current current_level Let_def)
qed

theorem level_sets_agree_with_rbac_witness:
  "''rag'' \<in> set (svcs_at (userLevelSets \<lparr>user_role = Some ''user'', user_permissions = PermNullish\<rparr> []) LevelWrite) \<and>
   authorizeService \<lparr>user_role = Some ''user'', user_permissions = PermNullish\<rparr> ''POST'' ''rag'' [] PermNullish (Some LevelWrite) =
     AuthAllowed ''rag'' LevelWrite"
proof -
  have known: "isPermissionService ''rag''" by code_simp
  have "authorizeService \<lparr>user_role = Some ''user'', user_permissions = PermNullish\<rparr> ''POST'' ''rag'' [] PermNullish (Some LevelWrite) =
     AuthAllowed ''rag'' LevelWrite" by code_simp
  with level_sets_agree_with_rbac [OF known] show ?thesis by blast
qed

section \<open>Narrowing\<close>

lemma push_deny_foldl:
  "foldl (push_deny m) deny services =
     \<lparr>deny_read = deny_read deny @ filter (\<lambda>s. explicit_level (proj_permissions m) s = Some LevelNone) services,
      deny_write = deny_write deny @ filter (\<lambda>s. explicit_level (proj_permissions m) s \<in> {Some LevelNone, Some LevelRead}) services,
      deny_admin = deny_admin deny @ filter (\<lambda>s. explicit_level (proj_permissions m) s \<notin> {None, Some LevelAdmin}) services\<rparr>"
  by (induction services arbitrary: deny) (auto simp: push_deny_def Let_def split: option.splits)

lemma levels_below: "l < LevelRead \<longleftrightarrow> l = LevelNone" "l < LevelWrite \<longleftrightarrow> l \<in> {LevelNone, LevelRead}" "l < LevelAdmin \<longleftrightarrow> l \<noteq> LevelAdmin"
  by (cases l; simp add: level_order)+

lemma not_denied:
  "(case x of None \<Rightarrow> True | Some e \<Rightarrow> \<not> e < LevelRead) \<longleftrightarrow> x \<noteq> Some LevelNone"
  "(case x of None \<Rightarrow> True | Some e \<Rightarrow> \<not> e < LevelWrite) \<longleftrightarrow> x \<notin> {Some LevelNone, Some LevelRead}"
  "(case x of None \<Rightarrow> True | Some e \<Rightarrow> \<not> e < LevelAdmin) \<longleftrightarrow> x \<in> {None, Some LevelAdmin}"
  by (cases x; simp add: levels_below)+

lemma narrowed_at:
  "l \<le> narrowLevel t (Some m) s \<longleftrightarrow> l \<le> t \<and> (case explicit_level (proj_permissions m) s of None \<Rightarrow> True | Some e \<Rightarrow> \<not> e < l)"
  by (auto simp: narrowLevel_def split: option.splits)

text \<open>
  C20: Project narrowing is told to the policy engine in two ways, as lowered level sets and as deny sets, and both say
  the same: at every level, the narrowed set is the workspace set without the services the project denies at that level.
\<close>

theorem narrowing_equals_deny_sets:
  "narrowedLevelSets user grants membership =
     \<lparr>readSvcs = filter (\<lambda>s. s \<notin> set (deny_read (projectDenySets membership))) (readSvcs (userLevelSets user grants)),
      writeSvcs = filter (\<lambda>s. s \<notin> set (deny_write (projectDenySets membership))) (writeSvcs (userLevelSets user grants)),
      adminSvcs = filter (\<lambda>s. s \<notin> set (deny_admin (projectDenySets membership))) (adminSvcs (userLevelSets user grants))\<rparr>"
proof (cases membership)
  case None
  then show ?thesis
    by (simp add: narrowedLevelSets_def userLevelSets_def narrowLevel_def projectDenySets_def)
next
  case (Some m)
  let ?t = "getEffectiveServicePermissionWithGroups user grants"
  have narrowed: "l \<le> narrowLevel (?t s) membership s \<longleftrightarrow>
      l \<le> ?t s \<and> (case explicit_level (proj_permissions m) s of None \<Rightarrow> True | Some e \<Rightarrow> \<not> e < l)" for s l
    unfolding Some by (rule narrowed_at)
  show ?thesis
    unfolding narrowedLevelSets_def userLevelSets_def levelSets_def push_level_foldl
    unfolding projectDenySets_def Some option.case Let_def push_deny_foldl
    unfolding Some [symmetric] narrowed
    by (auto intro!: filter_cong simp: not_denied simp del: level_extremes not_less)
qed

section \<open>What a membership says\<close>

text \<open>What an assignment says about a service once the activation instant is known.\<close>

definition counted_level :: "jsnum \<Rightarrow> PermissionService \<Rightarrow> ProjectAssignmentRow \<Rightarrow> ServicePermissionLevel option" where
  "counted_level since service row =
     (if isBeforeActivation (row_updatedAt row) since \<and> explicit_level (row_permissions row) service = Some LevelNone then None
      else explicit_level (row_permissions row) service)"

lemma kept_levels:
  "distinct (map fst levels) \<Longrightarrow>
   map_get (foldl (\<lambda>kept (s, level). if level \<noteq> LevelNone then map_set kept s level else kept) kept0 levels) service =
     (case map_get levels service of Some l \<Rightarrow> (if l = LevelNone then map_get kept0 service else Some l) | None \<Rightarrow> map_get kept0 service)"
proof (induction levels arbitrary: kept0)
  case (Cons e es)
  obtain t l where e: "e = (t, l)" by (cases e)
  have "map_get es t = None" using Cons.prems e by (simp add: map_of_eq_None_iff)
  then show ?case using Cons by (auto simp: e split: option.splits)
qed simp

lemma kept_distinct:
  "distinct (map fst kept0) \<Longrightarrow>
   distinct (map fst (foldl (\<lambda>kept (s, level). if level \<noteq> LevelNone then map_set kept s level else kept) kept0 levels))"
  by (induction levels arbitrary: kept0) (auto simp: map_set_distinct)

lemma effective_distinct: "distinct (map fst (effectiveProjectLevels row since))"
  unfolding effectiveProjectLevels_def Let_def
  by (cases "isBeforeActivation (row_updatedAt row) since") (simp_all only: if_True if_False not_True_eq_False not_False_eq_True kept_distinct normalized_distinct distinct.simps list.map)

lemma effective_level: "map_get (effectiveProjectLevels row since) service = counted_level since service row"
  using kept_levels [OF normalized_distinct, of "[]" "row_permissions row" service]
  by (auto simp: effectiveProjectLevels_def counted_level_def explicit_level_def Let_def split: option.splits)

lemma ignored_are_dropped:
  "service \<in> set (ignoredProjectLevels row since) \<longleftrightarrow>
     explicit_level (row_permissions row) service = Some LevelNone \<and> counted_level since service row = None"
proof -
  have "(service, LevelNone) \<in> set (normalizeServicePermissions (row_permissions row)) \<longleftrightarrow>
      explicit_level (row_permissions row) service = Some LevelNone"
    unfolding explicit_level_def by (simp add: map_of_eq_Some_iff [OF normalized_distinct])
  then show ?thesis by (force simp: ignoredProjectLevels_def counted_level_def)
qed

lemma source_level:
  "explicit_level (permission_object (snd (assignment_source since row))) service = counted_level since service row"
proof -
  have "counted_level since service row = Some l \<Longrightarrow> isPermissionService service" for l
    by (auto simp: counted_level_def explicit_level_known split: if_splits)
  then show ?thesis
    by (auto simp: explicit_level_object assignment_source_def effective_distinct effective_level
        intro: ccontr split: option.splits) (metis not_Some_eq)
qed

lemma membership_level:
  "resolveProjectMembership p role legacy ups gps since = Some m \<Longrightarrow>
   explicit_level (proj_permissions m) service =
     foldl max_level None (map (\<lambda>src. explicit_level (permission_object (snd src)) service) (membership_sources p role legacy ups gps since))"
proof -
  let ?srcs = "membership_sources p role legacy ups gps since"
  let ?merged = "mergeServicePermissions (map (permission_object \<circ> snd) ?srcs)"
  assume "resolveProjectMembership p role legacy ups gps since = Some m"
  then have read: "explicit_level (proj_permissions m) service = (if isPermissionService service then map_get ?merged service else None)"
    by (auto simp: resolveProjectMembership_def Let_def explicit_level_object merge_distinct split: if_splits)
  have merged: "map_get ?merged service = foldl max_level None (map (\<lambda>src. explicit_level (permission_object (snd src)) service) ?srcs)"
    by (simp add: merge_get comp_def)
  have unknown: "foldl max_level None (map (\<lambda>src. explicit_level (permission_object (snd src)) service) ?srcs) = None"
    if "\<not> isPermissionService service"
  proof -
    have "explicit_level x service = None" for x using that explicit_level_known by (cases "explicit_level x service") auto
    then have "map (\<lambda>src. explicit_level (permission_object (snd src)) service) ?srcs = replicate (length ?srcs) None"
      by (simp add: map_replicate_const)
    moreover have "foldl max_level None (replicate n None) = None" for n by (induction n) simp_all
    ultimately show ?thesis by (simp only:)
  qed
  show ?thesis unfolding read merged using unknown by auto
qed

text \<open>The assignments that count for a project: the first direct one, and those of the groups.\<close>

definition assignments_of :: "string \<Rightarrow> ProjectAssignmentRow list \<Rightarrow> ProjectAssignmentRow list \<Rightarrow> ProjectAssignmentRow list" where
  "assignments_of p ups gps =
     (case find (\<lambda>row. row_projectId row = p) ups of None \<Rightarrow> [] | Some row \<Rightarrow> [row])
     @ filter (\<lambda>row. row_projectId row = p) gps"

lemma sources_levels:
  "foldl max_level None (map (\<lambda>src. explicit_level (permission_object (snd src)) service) (membership_sources p role legacy ups gps since)) =
   foldl max_level None (map (counted_level since service) (assignments_of p ups gps))"
proof -
  have groups: "map (\<lambda>src. explicit_level (permission_object (snd src)) service) (map (assignment_source since) rows) =
      map (counted_level since service) rows" for rows
    by (simp add: source_level)
  have nothing: "explicit_level (permission_object []) service = None"
    by (simp add: explicit_level_def permission_object_def)
  then have skip: "foldl max_level None (explicit_level (permission_object []) service # xs) = foldl max_level None xs" for xs
    by simp
  show ?thesis
  proof (cases "find (\<lambda>row. row_projectId row = p) ups")
    case None
    then show ?thesis
      unfolding membership_sources_def assignments_of_def
      by (cases "p \<in> set (nullish legacy [])") (simp_all add: groups skip [simplified] nothing del: map_map)
  next
    case (Some row)
    then show ?thesis
      unfolding membership_sources_def assignments_of_def by (simp add: groups source_level del: map_map)
  qed
qed

text \<open>
  What a project leaves of a workspace level is the minimum of that level and the strongest level that one of the
  caller's assignments to the project (the direct one or a group's) sets for the service explicitly. A service no
  assignment mentions is left alone, and so is one that only assignments from before the activation instant set to none.
\<close>

theorem project_narrows_to_strongest_assignment:
  "narrowLevel level (resolveProjectMembership p role legacy ups gps since) service =
     (case foldl max_level None (map (counted_level since service) (assignments_of p ups gps)) of
        None \<Rightarrow> level
      | Some strongest \<Rightarrow> min level strongest)"
proof (cases "resolveProjectMembership p role legacy ups gps since")
  case None
  then have "membership_sources p role legacy ups gps since = []"
    by (simp add: resolveProjectMembership_def Let_def split: if_splits)
  then have "assignments_of p ups gps = []"
    by (auto simp: membership_sources_def assignments_of_def split: option.splits)
  then show ?thesis by (simp add: None narrowLevel_def)
next
  case (Some m)
  then show ?thesis
    unfolding narrowLevel_def minPermission_min by (simp add: membership_level [OF Some] sources_levels)
qed

section \<open>Agreeing on the activation instant\<close>

definition since_event ::
  "(nat \<Rightarrow> since_task) \<times> since_doc option \<Rightarrow> nat \<times> jsnum \<Rightarrow> (nat \<Rightarrow> since_task) \<times> since_doc option" where
  "since_event w ev =
     (let (tasks, doc) = w; (node, now) = ev; (task, doc') = since_step now (tasks node) doc
      in (tasks(node := task), doc'))"

definition since_run ::
  "(nat \<times> jsnum) list \<Rightarrow> (nat \<Rightarrow> since_task) \<times> since_doc option \<Rightarrow> (nat \<Rightarrow> since_task) \<times> since_doc option" where
  "since_run evs w = foldl since_event w evs"

lemma readOrCreate_steps:
  "\<exists>steps. fst (since_run steps (\<lambda>_. Asked, doc)) 0 = Settled (fst (readOrCreate now doc)) \<and>
           snd (since_run steps (\<lambda>_. Asked, doc)) = snd (readOrCreate now doc)"
proof (cases "parseSince doc")
  case None
  then show ?thesis
    by (intro exI [of _ "[(0, now), (0, now), (0, now)]"]) (simp add: since_run_def since_event_def readOrCreate_def Let_def)
next
  case (Some t)
  then show ?thesis
    by (intro exI [of _ "[(0, now)]"]) (simp add: since_run_def since_event_def readOrCreate_def Let_def)
qed

text \<open>
  Once the instant is stored and no node is between finding it missing and writing it, it never changes again, and
  every node that settles from then on settles on it.
\<close>

theorem activation_instant_settles:
  assumes "parseSince doc = Some t" "\<And>n. tasks n \<noteq> NoneStored"
  shows "parseSince (snd (since_run evs (tasks, doc))) = Some t \<and>
         (\<forall>n. (\<exists>v. tasks n = Settled v) \<or> fst (since_run evs (tasks, doc)) n \<in> {tasks n, Settled t})"
proof -
  have "parseSince (snd w') = Some t \<and> (\<forall>n. fst w' n \<noteq> NoneStored) \<and>
        (\<forall>n. (\<exists>v. tasks n = Settled v) \<or> fst w' n \<in> {tasks n, Settled t})"
    if "w' = since_run evs (tasks, doc)" for w'
    using that
  proof (induction evs arbitrary: w' rule: rev_induct)
    case Nil
    then show ?case using assms by (auto simp: since_run_def)
  next
    case (snoc ev evs)
    define w where "w = since_run evs (tasks, doc)"
    have IH: "parseSince (snd w) = Some t" "\<And>n. fst w n \<noteq> NoneStored"
      "\<And>n. (\<exists>v. tasks n = Settled v) \<or> fst w n \<in> {tasks n, Settled t}"
      using snoc.IH [OF w_def] by auto
    have w': "w' = since_event w ev" using snoc.prems by (simp add: since_run_def w_def)
    show ?case
      using IH(1) IH(2) [of "fst ev"] IH(3) [of "fst ev"] IH(2,3)
      by (cases "fst w (fst ev)") (auto simp: w' since_event_def split_beta Let_def)
  qed
  then show ?thesis by blast
qed

theorem activation_instant_settles_witness:
  "fst (since_run [(0, 20), (1, 30)] (\<lambda>_. Asked, Some (SinceText (Finite 10)))) 1 = Settled 10"
proof -
  have "fst (since_run [(0, 20), (1, 30)] (\<lambda>_. Asked, Some (SinceText (Finite 10)))) 1 \<in> {Asked, Settled 10}"
    using activation_instant_settles [of "Some (SinceText (Finite 10))" 10 "\<lambda>_. Asked" "[(0, 20), (1, 30)]"] by simp
  then show ?thesis by (simp add: since_run_def since_event_def)
qed

text \<open>
  Reading back does not make every node settle on one value: two first evaluations that overlap can end with different
  instants, and each process keeps its own for as long as it lives.
\<close>

theorem overlapping_first_evaluations_disagree:
  "\<exists>schedule a b. fst (since_run schedule (\<lambda>_. Asked, None)) 0 = Settled a \<and>
                  fst (since_run schedule (\<lambda>_. Asked, None)) 1 = Settled b \<and> a \<noteq> b"
  by (intro exI [of _ "[(0, 10), (1, 10), (0, 10), (0, 11), (1, 12), (1, 13)]"] exI [of _ 10] exI [of _ 12])
    (simp add: since_run_def since_event_def)

section \<open>The group tables of the SQLite store\<close>

text \<open>
  \<^verbatim>\<open>findGroupById\<close> of \<^verbatim>\<open>user-project.mixin.ts\<close> and \<^verbatim>\<open>iamListGroups\<close> of \<^verbatim>\<open>iam-directory.mixin.ts\<close>, the
  latter for the query by ids: rows of the tenant, ordered by name and id, no more than the limit.
\<close>

record group_row =
  gr_tenantId :: string
  gr_name :: string
  gr_group :: IGroup

definition MAX_PAGE :: nat where
  "MAX_PAGE = 200"

definition MAX_IDS :: nat where
  "MAX_IDS = 500"

definition clampLimit :: "nat \<Rightarrow> nat" where
  "clampLimit n = max 1 (min MAX_PAGE (if n = 0 then 50 else n))"

definition sqlite_findGroupById :: "group_row list \<Rightarrow> string \<Rightarrow> IGroup option" where
  "sqlite_findGroupById table i = map_option gr_group (find (\<lambda>row. group_id (gr_group row) = i) table)"

definition groupFilter :: "string \<Rightarrow> string list \<Rightarrow> group_row \<Rightarrow> bool" where
  "groupFilter tenantId ids row \<longleftrightarrow> gr_tenantId row = tenantId \<and> group_id (gr_group row) \<in> set (take MAX_IDS ids)"

definition sqlite_iamListGroups :: "group_row list \<Rightarrow> string \<Rightarrow> string list \<Rightarrow> nat \<Rightarrow> IGroup list" where
  "sqlite_iamListGroups table tenantId ids limit =
     (if ids = [] then []
      else map gr_group (take (clampLimit limit)
             (sort_key (\<lambda>row. (gr_name row, group_id (gr_group row))) (filter (groupFilter tenantId ids) table))))"

definition sqlite_group_db :: "group_row list \<Rightarrow> (string \<Rightarrow> string list) \<Rightarrow> group_db" where
  "sqlite_group_db table members =
     \<lparr>listGroupMembersByUser = Some (\<lambda>user. Answers (Rows (members user))),
      iamListGroups = Some (\<lambda>tenant ids limit. Answers (PageOf (sqlite_iamListGroups table tenant ids limit))),
      findGroupById = \<lambda>i. Answers (sqlite_findGroupById table i)\<rparr>"

section \<open>Loading groups\<close>

text \<open>What the loader relies on: point reads by id, and a batched query that answers all of the groups asked for.\<close>

locale group_directory =
  fixes point :: "'s \<Rightarrow> string \<Rightarrow> IGroup option"
    and page :: "'s \<Rightarrow> string \<Rightarrow> string list \<Rightarrow> nat \<Rightarrow> IGroup list"
    and holds :: "'s \<Rightarrow> string \<Rightarrow> bool"
  assumes by_its_id: "holds s tenant \<Longrightarrow> point s i = Some g \<Longrightarrow> group_id g = i"
    and whole_page: "holds s tenant \<Longrightarrow> distinct ids \<Longrightarrow> length ids \<le> GROUP_BATCH_SIZE \<Longrightarrow>
          set (page s tenant ids GROUP_BATCH_SIZE) = {g. \<exists>i \<in> set ids. point s i = Some g}"

lemma all_answers_points: "all_answers (map (\<lambda>i. Answers (f i)) ids) = Answers (map f ids)"
  by (induction ids) simp_all

lemma read_chunks_points: "read_chunks (\<lambda>i. Answers (f i)) cs = Answers (map f (concat cs))"
  by (induction cs) (simp_all add: all_answers_points)

lemma concat_chunks: "0 < n \<Longrightarrow> concat (chunks n xs) = xs"
  by (induction n xs rule: chunks.induct) (subst chunks.simps, simp)

lemma chunks_length: "c \<in> set (chunks n xs) \<Longrightarrow> length c \<le> n"
proof (induction n xs rule: chunks.induct)
  case (1 n xs)
  then show ?case by (cases "xs = [] \<or> n = 0") (auto simp: chunks.simps [of n xs])
qed

lemma chunks_distinct: "distinct xs \<Longrightarrow> c \<in> set (chunks n xs) \<Longrightarrow> distinct c"
proof (induction n xs rule: chunks.induct)
  case (1 n xs)
  then show ?case by (cases "xs = [] \<or> n = 0") (auto simp: chunks.simps [of n xs])
qed

lemma by_id_get:
  "map_get (by_id m items) i = opt_or (find (\<lambda>g. group_id g = i) (rev items)) (map_get m i)"
proof (induction items arbitrary: m)
  case (Cons g items)
  have "find (\<lambda>g. group_id g = i) (xs @ [g]) = opt_or (find (\<lambda>g. group_id g = i) xs) (if group_id g = i then Some g else None)" for xs
    by (induction xs) simp_all
  then show ?case using Cons.IH [of "map_set m (group_id g) g"] by (auto simp: by_id_def opt_or_assoc)
qed (simp add: by_id_def)

lemma point_reads: "fetchGroupsOneByOne \<lparr>listGroupMembersByUser = ms, iamListGroups = b, findGroupById = \<lambda>i. Answers (f i)\<rparr> ids =
    Answers (List.map_filter f ids)"
  by (simp add: fetchGroupsOneByOne_def read_chunks_points concat_chunks GROUP_READ_CONCURRENCY_def)
    (induction ids, auto simp: map_filter_simps)

lemma unique_distinct: "distinct (unique xs)"
proof -
  have "distinct seen \<Longrightarrow> distinct (foldl (\<lambda>seen x. if x \<in> set seen then seen else seen @ [x]) seen xs)" for seen
    by (induction xs arbitrary: seen) simp_all
  then show ?thesis by (simp add: unique_def)
qed

context group_directory
begin

lemma batched_points:
  assumes "holds s tenant" "\<And>c. c \<in> set cs \<Longrightarrow> distinct c \<and> length c \<le> GROUP_BATCH_SIZE"
    and "\<And>i g. map_get m i = Some g \<Longrightarrow> point s i = Some g"
  shows "\<exists>byId. batched (\<lambda>ids. Answers (PageOf (page s tenant ids GROUP_BATCH_SIZE))) cs m = Some byId \<and>
           (\<forall>i. map_get byId i = (if i \<in> set (concat cs) then point s i else map_get m i))"
  using assms(2,3)
proof (induction cs arbitrary: m)
  case (Cons c cs)
  let ?items = "page s tenant c GROUP_BATCH_SIZE"
  have items: "set ?items = {g. \<exists>i \<in> set c. point s i = Some g}"
    using whole_page [OF assms(1)] Cons.prems(1) by simp
  have found: "map_get (by_id m ?items) i = (if i \<in> set c then point s i else map_get m i)" for i
  proof (cases "find (\<lambda>g. group_id g = i) (rev ?items)")
    case None
    then have "i \<in> set c \<Longrightarrow> point s i = None"
      using items by_its_id [OF assms(1)] by (cases "point s i") (auto simp: find_None_iff)
    then show ?thesis using None Cons.prems(2) [of i] by (cases "map_get m i") (auto simp: by_id_get)
  next
    case (Some g)
    then have "g \<in> set ?items" "group_id g = i" using find_SomeD [OF Some] by auto
    then obtain j where "j \<in> set c" "point s j = Some g" "j = i" using items by_its_id [OF assms(1)] by auto
    then show ?thesis using Some by (simp add: by_id_get)
  qed
  have known: "map_get (by_id m ?items) i = Some g \<Longrightarrow> point s i = Some g" for i g
    using Cons.prems(2) by (simp add: found split: if_splits)
  obtain byId where byId: "batched (\<lambda>ids. Answers (PageOf (page s tenant ids GROUP_BATCH_SIZE))) cs (by_id m ?items) = Some byId"
    "\<And>i. map_get byId i = (if i \<in> set (concat cs) then point s i else map_get (by_id m ?items) i)"
    using Cons.IH [of "by_id m ?items"] Cons.prems(1) known by auto
  show ?case by (intro exI [of _ byId]) (use byId found in auto)
qed simp

lemma fetch_points:
  assumes "holds s tenant" "tenant \<noteq> []" "distinct ids"
  shows "fetchGroupsByIds \<lparr>listGroupMembersByUser = ms,
            iamListGroups = Some (\<lambda>tenant ids limit. Answers (PageOf (page s tenant ids limit))),
            findGroupById = \<lambda>i. Answers (point s i)\<rparr> (Some tenant) ids = Answers (List.map_filter (point s) ids)"
proof (cases "ids = []")
  case False
  have "\<And>c. c \<in> set (chunks GROUP_BATCH_SIZE ids) \<Longrightarrow> distinct c \<and> length c \<le> GROUP_BATCH_SIZE"
    using chunks_distinct [OF assms(3)] chunks_length by blast
  then have "\<exists>byId. batched (\<lambda>ids. Answers (PageOf (page s tenant ids GROUP_BATCH_SIZE))) (chunks GROUP_BATCH_SIZE ids) [] = Some byId \<and>
           (\<forall>i. map_get byId i = (if i \<in> set (concat (chunks GROUP_BATCH_SIZE ids)) then point s i else map_get [] i))"
    by (intro batched_points [OF assms(1)]) simp_all
  then obtain byId where
    batch: "batched (\<lambda>ids. Answers (PageOf (page s tenant ids GROUP_BATCH_SIZE))) (chunks GROUP_BATCH_SIZE ids) [] = Some byId"
    and at_id: "\<And>i. map_get byId i = (if i \<in> set (concat (chunks GROUP_BATCH_SIZE ids)) then point s i else None)"
    by (auto simp del: set_concat)
  have "concat (chunks GROUP_BATCH_SIZE ids) = ids" by (simp add: concat_chunks GROUP_BATCH_SIZE_def)
  then have same: "map (map_get byId) ids = map (point s) ids" using at_id by (simp del: set_concat)
  have filtered: "map the (filter (\<lambda>g. g \<noteq> None) (map f ids)) = List.map_filter f ids" for f :: "string \<Rightarrow> IGroup option"
    by (induction ids) (auto simp: map_filter_simps)
  have "List.map_filter (map_get byId) ids = List.map_filter (point s) ids"
    using same by (simp only: filtered [symmetric])
  then show ?thesis using False assms(2) batch filtered by (simp add: fetchGroupsByIds_def given_id_def)
qed (simp add: fetchGroupsByIds_def map_filter_simps)

end

text \<open>A tenant database holds the groups of one tenant, each under an id of its own.\<close>

definition tenant_groups :: "group_row list \<Rightarrow> string \<Rightarrow> bool" where
  "tenant_groups table tenant \<longleftrightarrow>
     list_all (\<lambda>row. gr_tenantId row = tenant) table \<and> distinct (map (group_id \<circ> gr_group) table)"

lemma find_by_id:
  "distinct (map (group_id \<circ> gr_group) table) \<Longrightarrow>
   sqlite_findGroupById table i = Some g \<longleftrightarrow> group_id g = i \<and> g \<in> gr_group ` set table"
  by (induction table) (auto simp: sqlite_findGroupById_def)

interpretation sqlite_groups: group_directory sqlite_findGroupById sqlite_iamListGroups tenant_groups
proof
  fix table tenant i g
  assume "tenant_groups table tenant" "sqlite_findGroupById table i = Some g"
  then show "group_id g = i" by (simp add: tenant_groups_def find_by_id)
next
  fix table tenant and ids :: "string list"
  assume table: "tenant_groups table tenant" and ids: "distinct ids" "length ids \<le> GROUP_BATCH_SIZE"
  let ?rows = "filter (groupFilter tenant ids) table"
  have all: "take MAX_IDS ids = ids" using ids(2) by (simp add: MAX_IDS_def GROUP_BATCH_SIZE_def)
  have "length ?rows = card ((group_id \<circ> gr_group) ` set ?rows)"
    using table by (subst distinct_card [symmetric]) (auto simp: tenant_groups_def distinct_map inj_on_def card_image)
  also have "\<dots> \<le> card (set ids)"
    by (intro card_mono) (auto simp: groupFilter_def all)
  also have "\<dots> \<le> GROUP_BATCH_SIZE" using ids by (simp add: distinct_card)
  finally have "length ?rows \<le> GROUP_BATCH_SIZE" .
  then have fits: "take (clampLimit GROUP_BATCH_SIZE) (sort_key f ?rows) = sort_key f ?rows"
    for f :: "group_row \<Rightarrow> string \<times> string"
    by (simp add: clampLimit_def GROUP_BATCH_SIZE_def MAX_PAGE_def)
  show "set (sqlite_iamListGroups table tenant ids GROUP_BATCH_SIZE) =
      {g. \<exists>i \<in> set ids. sqlite_findGroupById table i = Some g}"
    using table
    by (auto simp: sqlite_iamListGroups_def fits find_by_id tenant_groups_def groupFilter_def all list_all_iff)
qed

text \<open>
  Loading a person's groups in batches gives what point reads give: on the tables of a tenant, the groups of the
  membership rows in the order of those rows, each once, and the groups that no longer exist left out. That holds
  for every number of memberships, however many batches it takes.
\<close>

theorem batched_groups_equal_point_reads:
  assumes "tenant_groups table tenant" "tenant \<noteq> []"
  shows "loadUserGroups (sqlite_group_db table members) user (Some tenant) =
           Answers (List.map_filter (sqlite_findGroupById table) (unique (members user))) \<and>
         loadUserGroups (sqlite_group_db table members) user (Some tenant) =
           fetchGroupsOneByOne (sqlite_group_db table members) (unique (members user))"
  using sqlite_groups.fetch_points [OF assms unique_distinct]
  by (simp add: sqlite_group_db_def loadUserGroups_def listUserGroupIds_def point_reads)

theorem batched_groups_equal_point_reads_witness:
  "loadUserGroups (sqlite_group_db
      [\<lparr>gr_tenantId = ''t'', gr_name = ''A'', gr_group = \<lparr>group_id = ''a'', group_tenantRole = None, group_permissions = PermNullish\<rparr>\<rparr>,
       \<lparr>gr_tenantId = ''t'', gr_name = ''B'', gr_group = \<lparr>group_id = ''b'', group_tenantRole = None, group_permissions = PermNullish\<rparr>\<rparr>]
      (\<lambda>user. [''b'', ''a'', ''gone'', ''b''])) ''u'' (Some ''t'') =
   Answers [\<lparr>group_id = ''b'', group_tenantRole = None, group_permissions = PermNullish\<rparr>,
            \<lparr>group_id = ''a'', group_tenantRole = None, group_permissions = PermNullish\<rparr>]"
  by (subst batched_groups_equal_point_reads [THEN conjunct1])
    (simp_all add: tenant_groups_def unique_def sqlite_findGroupById_def map_filter_simps)

end
