(* ===== verification/PrincipalCache.thy ===== *)
theory PrincipalCache
  imports ProjectAccess
begin

text \<open>
  Who is asking, and in which project.

  \<^item> \<^verbatim>\<open>src/lib/iam/principalCache.ts\<close>: the context of a caller, loaded from the database and cached per tenant and user.
    Entries and the per-tenant maps are objects that loads in flight keep referring to after they were removed from the
    cache, so both have identities: numbers that are handed out in order. A load is split where it waits: \<open>get_starts\<close> is what runs
    up to the first await, \<open>load_ends\<close> and \<open>load_fails\<close> are the two reactions.
  \<^item> \<^verbatim>\<open>src/lib/iam/projectNarrowing.ts\<close>, the part that reads caches: the default project and the membership that
    narrows a request.
  \<^item> \<^verbatim>\<open>src/lib/services/projects/projectContext.ts\<close>: the project a handler runs in.

  The database is the answers of its queries; the cached list of all projects of a tenant, which only owners and
  administrators need, is an argument of the load.
\<close>

section \<open>The context of a principal\<close>

record principal_user = RbacUserLike +
  projectIds :: "string list option"

record PrincipalContext =
  ctx_tenantDbName :: string
  ctx_userId :: string
  ctx_user :: principal_user
  ctx_groupIds :: "string list"
  ctx_groupGrants :: "GroupTenantGrant list"
  ctx_projects :: "string list option"
  ctx_adminProjects :: "string list option"
  ctx_userProjects :: "ProjectAssignmentRow list option"
  ctx_groupProjects :: "ProjectAssignmentRow list option"
  ctx_loadedAt :: jsnum

record ProjectData =
  pd_projects :: "string list"
  pd_adminProjects :: "string list"
  pd_userProjects :: "ProjectAssignmentRow list"
  pd_groupProjects :: "ProjectAssignmentRow list"

definition add_to_set :: "'a list \<Rightarrow> 'a \<Rightarrow> 'a list" where
  "add_to_set xs x = (if x \<in> set xs then xs else xs @ [x])"

definition add_assignment :: "ProjectAssignmentRow \<Rightarrow> string list \<times> string list \<times> ProjectAssignmentRow list
    \<Rightarrow> string list \<times> string list \<times> ProjectAssignmentRow list" where
  "add_assignment row acc =
     (let (projects, adm, rows) = acc in
      if row_projectId row = [] then acc
      else (add_to_set projects (row_projectId row),
            (if row_role row = ProjectAdmin then add_to_set adm (row_projectId row) else adm),
            rows @ [row]))"

definition loadProjects ::
  "principal_user \<Rightarrow> string list \<Rightarrow> ProjectAssignmentRow list \<Rightarrow> ProjectAssignmentRow list list \<Rightarrow> ProjectData" where
  "loadProjects user all_ids direct groupLists =
     (if owner_or_admin (user_role user)
      then \<lparr>pd_projects = all_ids, pd_adminProjects = all_ids, pd_userProjects = [], pd_groupProjects = []\<rparr>
      else
        let legacy = filter (\<lambda>i. i \<noteq> []) (nullish (projectIds user) []);
            projects = foldl add_to_set [] legacy;
            adm = (if user_role user = Some ''project_admin'' then foldl add_to_set [] legacy else []);
            (projects, adm, ups) = foldl (\<lambda>acc row. add_assignment row acc) (projects, adm, []) direct;
            (projects, adm, gps) = foldl (\<lambda>acc row. add_assignment row acc) (projects, adm, []) (concat groupLists)
        in \<lparr>pd_projects = projects, pd_adminProjects = adm, pd_userProjects = ups, pd_groupProjects = gps\<rparr>)"

text \<open>The queries of a load, and the load. A user row the caller already has is used instead of reading one.\<close>

record principal_db =
  pdb_user :: "string \<Rightarrow> principal_user option query"
  pdb_groups :: group_db
  pdb_userProjects :: "string \<Rightarrow> ProjectAssignmentRow list query"
  pdb_groupProjects :: "string \<Rightarrow> ProjectAssignmentRow list query"
  pdb_allProjects :: "string \<Rightarrow> string list query"

record PrincipalLoadInput =
  in_tenantDbName :: string
  in_tenantId :: string
  in_userId :: string
  in_fresh :: bool
  in_withProjects :: bool
  in_user :: "principal_user option"
  in_groups :: "IGroup list option"
  in_noStore :: bool

definition loaded_projects :: "principal_db \<Rightarrow> PrincipalLoadInput \<Rightarrow> principal_user \<Rightarrow> string list \<Rightarrow> ProjectData query" where
  "loaded_projects db input user groupIds =
     (if owner_or_admin (user_role user)
      then map_query (\<lambda>ids. loadProjects user ids [] []) (pdb_allProjects db (in_tenantId input))
      else
        case (pdb_userProjects db (in_userId input), all_answers (map (pdb_groupProjects db) groupIds)) of
          (Answers direct, Answers groupLists) \<Rightarrow> Answers (loadProjects user [] direct groupLists)
        | _ \<Rightarrow> Fails)"

definition loadContext :: "principal_db \<Rightarrow> PrincipalLoadInput \<Rightarrow> PrincipalContext option \<Rightarrow> jsnum \<Rightarrow> PrincipalContext query" where
  "loadContext db input previous now =
     (case (case in_user input of Some user \<Rightarrow> Answers (Some user) | None \<Rightarrow> pdb_user db (in_userId input)) of
        Answers (Some user) \<Rightarrow>
          (case (case in_groups input of
                   Some groups \<Rightarrow> Answers (map group_id groups) | None \<Rightarrow> listUserGroupIds (pdb_groups db) (in_userId input)) of
             Fails \<Rightarrow> Fails
           | Answers groupIds \<Rightarrow>
               (let groups = (case in_groups input of
                      Some groups \<Rightarrow> Answers groups
                    | None \<Rightarrow> fetchGroupsByIds (pdb_groups db) (Some (in_tenantId input)) groupIds);
                    withProjects = (in_withProjects input \<or> Option.bind previous ctx_projects \<noteq> None);
                    projectData = (if withProjects then map_query Some (loaded_projects db input user groupIds) else Answers None)
                in case (groups, projectData) of
                     (Answers gs, Answers pd) \<Rightarrow>
                       Answers \<lparr>ctx_tenantDbName = in_tenantDbName input, ctx_userId = in_userId input, ctx_user = user,
                         ctx_groupIds = map group_id gs, ctx_groupGrants = grantsOf gs,
                         ctx_projects = map_option pd_projects pd, ctx_adminProjects = map_option pd_adminProjects pd,
                         ctx_userProjects = map_option pd_userProjects pd, ctx_groupProjects = map_option pd_groupProjects pd,
                         ctx_loadedAt = now\<rparr>
                   | _ \<Rightarrow> Fails))
      | _ \<Rightarrow> Fails)"

section \<open>The cache\<close>

definition PRINCIPAL_CACHE_TTL_MS :: jsnum where
  "PRINCIPAL_CACHE_TTL_MS = 15000"

definition MAX_ENTRIES :: nat where
  "MAX_ENTRIES = 5000"

definition SWEEP_INTERVAL_MS :: jsnum where
  "SWEEP_INTERVAL_MS = 1000"

record Entry =
  e_value :: "PrincipalContext option"
  e_pending :: bool
  e_expiresAt :: jsnum

record cache_stats =
  hits :: nat
  misses :: nat
  loads :: nat
  invalidations :: nat

text \<open>
  The tenants with the identity of their map, the contents of every map, the entries, the next identity, the load each
  pending entry waits for (the map it would be removed from, and for whom), and the module's variables.
\<close>

record principal_cache =
  tenant_maps :: "(string, nat) jsmap"
  map_users :: "nat \<Rightarrow> (string, nat) jsmap"
  entry_at :: "nat \<Rightarrow> Entry"
  next_id :: nat
  in_flight :: "(nat, nat \<times> string) jsmap"
  entryCount :: int
  lastSweepAt :: jsnum
  stats :: cache_stats

definition empty_cache :: principal_cache where
  "empty_cache = \<lparr>tenant_maps = [], map_users = (\<lambda>_. []), entry_at = (\<lambda>_. \<lparr>e_value = None, e_pending = False, e_expiresAt = 0\<rparr>),
     next_id = 0, in_flight = [], entryCount = 0, lastSweepAt = 0,
     stats = \<lparr>hits = 0, misses = 0, loads = 0, invalidations = 0\<rparr>\<rparr>"

definition tenantMap :: "string \<Rightarrow> principal_cache \<Rightarrow> nat \<times> principal_cache" where
  "tenantMap tenant c =
     (case map_get (tenant_maps c) tenant of
        Some m \<Rightarrow> (m, c)
      | None \<Rightarrow>
          (next_id c, c\<lparr>tenant_maps := map_set (tenant_maps c) tenant (next_id c),
                        map_users := (map_users c)(next_id c := []), next_id := next_id c + 1\<rparr>))"

definition cached_entry :: "string \<Rightarrow> string \<Rightarrow> principal_cache \<Rightarrow> nat option" where
  "cached_entry tenant user c = Option.bind (map_get (tenant_maps c) tenant) (\<lambda>m. map_get (map_users c m) user)"

abbreviation count_invalidations :: "nat \<Rightarrow> principal_cache \<Rightarrow> principal_cache" where
  "count_invalidations n c \<equiv> c\<lparr>stats := (stats c)\<lparr>invalidations := invalidations (stats c) + n\<rparr>\<rparr>"

definition dropUser :: "string \<Rightarrow> string \<Rightarrow> principal_cache \<Rightarrow> principal_cache" where
  "dropUser tenant user c =
     (case map_get (tenant_maps c) tenant of
        None \<Rightarrow> c
      | Some m \<Rightarrow>
          if map_has (map_users c m) user
          then count_invalidations 1 (c\<lparr>map_users := (map_users c)(m := map_delete (map_users c m) user), entryCount := entryCount c - 1\<rparr>)
          else c)"

definition dropTenant :: "string \<Rightarrow> principal_cache \<Rightarrow> principal_cache" where
  "dropTenant tenant c =
     (case map_get (tenant_maps c) tenant of
        None \<Rightarrow> c
      | Some m \<Rightarrow>
          count_invalidations (length (map_users c m))
            (c\<lparr>entryCount := entryCount c - int (length (map_users c m)), tenant_maps := map_delete (tenant_maps c) tenant\<rparr>))"

definition invalidatePrincipalCache :: "string option \<Rightarrow> string \<Rightarrow> principal_cache \<Rightarrow> principal_cache" where
  "invalidatePrincipalCache tenant user c =
     (case given_id tenant of
        Some t \<Rightarrow> dropUser t user c
      | None \<Rightarrow> foldl (\<lambda>c t. dropUser t user c) c (map fst (tenant_maps c)))"

definition invalidateTenantPrincipalCache :: "string option \<Rightarrow> principal_cache \<Rightarrow> principal_cache" where
  "invalidateTenantPrincipalCache tenant c =
     (case given_id tenant of
        Some t \<Rightarrow> dropTenant t c
      | None \<Rightarrow> foldl (\<lambda>c t. dropTenant t c) c (map fst (tenant_maps c)))"

definition sweep_tenant :: "jsnum \<Rightarrow> string \<times> nat \<Rightarrow> principal_cache \<Rightarrow> principal_cache" where
  "sweep_tenant now tm c =
     (let (tenant, m) = tm;
          kept = map_delete_if (\<lambda>user e. \<not> e_pending (entry_at c e) \<and> e_expiresAt (entry_at c e) \<le> now) (map_users c m);
          c' = c\<lparr>map_users := (map_users c)(m := kept), entryCount := entryCount c - int (length (map_users c m) - length kept)\<rparr>
      in if kept = [] then c'\<lparr>tenant_maps := map_delete (tenant_maps c') tenant\<rparr> else c')"

definition sweepExpired :: "jsnum \<Rightarrow> principal_cache \<Rightarrow> principal_cache" where
  "sweepExpired now c =
     (if now - lastSweepAt c < SWEEP_INTERVAL_MS then c
      else foldl (\<lambda>c tm. sweep_tenant now tm c) (c\<lparr>lastSweepAt := now\<rparr>) (tenant_maps c))"

text \<open>The eviction loop: each round removes an entry or an empty map, so it ends.\<close>

definition cache_weight :: "principal_cache \<Rightarrow> nat" where
  "cache_weight c = sum_list (map (\<lambda>(tenant, m). 1 + length (map_users c m)) (tenant_maps c))"

lemma weight_delete: "sum_list (map f (map_delete xs k)) \<le> sum_list (map f xs)" for f :: "'a \<times> 'b \<Rightarrow> nat"
  by (induction xs) (auto simp: AList.delete_eq)

lemma length_map_delete: "length (map_delete xs k) \<le> length xs"
  by (simp add: AList.delete_eq)

lemma weight_drop_tenant:
  "tenant_maps c = (tenant, m) # rest \<Longrightarrow> cache_weight (c\<lparr>tenant_maps := map_delete (tenant_maps c) tenant\<rparr>) < cache_weight c"
  using weight_delete [of "\<lambda>(tenant, m). 1 + length (map_users c m)" tenant rest] by (simp add: cache_weight_def)

lemma weight_drop_user:
  assumes "tenant_maps c = (tenant, m) # rest" "map_users c m = (user, e) # users"
  shows "cache_weight (c\<lparr>map_users := (map_users c)(m := map_delete (map_users c m) user), entryCount := n\<rparr>) < cache_weight c"
proof -
  let ?w = "\<lambda>mu (tenant, m). 1 + length (mu m)" and ?mu = "(map_users c)(m := map_delete (map_users c m) user)"
  have "sum_list (map (?w ?mu) rest) \<le> sum_list (map (?w (map_users c)) rest)"
    by (intro sum_list_mono) (auto simp: length_map_delete)
  moreover have "length (map_delete (map_users c m) user) < length (map_users c m)"
    using assms(2) length_map_delete [of user users] by simp
  ultimately show ?thesis using assms(1) by (simp add: cache_weight_def)
qed

function evict_loop :: "nat \<Rightarrow> principal_cache \<Rightarrow> principal_cache" where
  "evict_loop limit c =
     (if entryCount c < int limit then c
      else
        case tenant_maps c of
          [] \<Rightarrow> c
        | (firstTenant, m) # _ \<Rightarrow>
            (case map_users c m of
               [] \<Rightarrow> evict_loop limit (c\<lparr>tenant_maps := map_delete (tenant_maps c) firstTenant\<rparr>)
             | (firstUser, e) # _ \<Rightarrow>
                 evict_loop limit (c\<lparr>map_users := (map_users c)(m := map_delete (map_users c m) firstUser), entryCount := entryCount c - 1\<rparr>)))"
  by pat_completeness auto

termination
  by (relation "measure (\<lambda>(limit, c). cache_weight c)")
    (simp, use weight_drop_tenant in fastforce, use weight_drop_user in fastforce)

declare evict_loop.simps [simp del]

definition evictIfFull :: "nat \<Rightarrow> jsnum \<Rightarrow> principal_cache \<Rightarrow> principal_cache" where
  "evictIfFull limit now c = (if entryCount c < int limit then c else evict_loop limit (sweepExpired now c))"

text \<open>
  A request for a context answers from the cache, waits for a load that is already running, or starts one; the load
  that is not to be stored runs beside the cache.
\<close>

datatype get_answer = ServedValue nat PrincipalContext | JoinsLoad nat | StartsLoad nat | LoadsUnstored

abbreviation count_hit :: "principal_cache \<Rightarrow> principal_cache" where
  "count_hit c \<equiv> c\<lparr>stats := (stats c)\<lparr>hits := hits (stats c) + 1\<rparr>\<rparr>"

definition cache_answer :: "PrincipalLoadInput \<Rightarrow> jsnum \<Rightarrow> principal_cache \<Rightarrow> get_answer option" where
  "cache_answer input now c =
     (case cached_entry (in_tenantDbName input) (in_userId input) c of
        None \<Rightarrow> None
      | Some e \<Rightarrow>
          if in_fresh input \<or> \<not> e_expiresAt (entry_at c e) > now then None
          else if e_pending (entry_at c e) then Some (JoinsLoad e)
          else
            case e_value (entry_at c e) of
              Some v \<Rightarrow> if \<not> in_withProjects input \<or> ctx_projects v \<noteq> None then Some (ServedValue e v) else None
            | None \<Rightarrow> None)"

definition store_load :: "nat \<Rightarrow> PrincipalLoadInput \<Rightarrow> jsnum \<Rightarrow> principal_cache \<Rightarrow> get_answer \<times> principal_cache" where
  "store_load limit input now c =
     (let c = (if cached_entry (in_tenantDbName input) (in_userId input) c = None
               then let c' = evictIfFull limit now c in c'\<lparr>entryCount := entryCount c' + 1\<rparr>
               else c);
          (m, c) = tenantMap (in_tenantDbName input) c;
          e = next_id c
      in (StartsLoad e,
          c\<lparr>next_id := e + 1,
            entry_at := (entry_at c)(e := \<lparr>e_value = None, e_pending = True, e_expiresAt = now + PRINCIPAL_CACHE_TTL_MS\<rparr>),
            map_users := (map_users c)(m := map_set (map_users c m) (in_userId input) e),
            in_flight := map_set (in_flight c) e (m, in_userId input)\<rparr>))"

definition get_starts :: "nat \<Rightarrow> PrincipalLoadInput \<Rightarrow> jsnum \<Rightarrow> principal_cache \<Rightarrow> get_answer \<times> principal_cache" where
  "get_starts limit input now c =
     (case cache_answer input now c of
        Some answer \<Rightarrow> (answer, count_hit c)
      | None \<Rightarrow>
          let c = c\<lparr>stats := (stats c)\<lparr>misses := misses (stats c) + 1, loads := loads (stats c) + 1\<rparr>\<rparr> in
          if in_noStore input then (LoadsUnstored, c) else store_load limit input now c)"

definition load_ends :: "nat \<Rightarrow> PrincipalContext \<Rightarrow> principal_cache \<Rightarrow> principal_cache" where
  "load_ends e v c =
     c\<lparr>entry_at := (entry_at c)(e := (entry_at c e)\<lparr>e_value := Some v, e_pending := False\<rparr>), in_flight := map_delete (in_flight c) e\<rparr>"

definition load_fails :: "nat \<Rightarrow> principal_cache \<Rightarrow> principal_cache" where
  "load_fails e c =
     (case map_get (in_flight c) e of
        None \<Rightarrow> c
      | Some (m, user) \<Rightarrow>
          let c = c\<lparr>in_flight := map_delete (in_flight c) e\<rparr> in
          if map_get (map_users c m) user = Some e
          then c\<lparr>map_users := (map_users c)(m := map_delete (map_users c m) user), entryCount := entryCount c - 1\<rparr>
          else c)"

section \<open>How the cache evolves\<close>

text \<open>
  The steps of the cache, in any order: requests, loads that end or fail, and invalidations of one person or of a
  tenant. The clock does not go back, so a context is not older than the start of its load. With the flag set, a load
  only fails while the map it belongs to is still in the cache.
\<close>

inductive pc_step :: "bool \<Rightarrow> nat \<Rightarrow> principal_cache \<Rightarrow> principal_cache \<Rightarrow> bool" for attached_only limit where
  gets: "pc_step attached_only limit c (snd (get_starts limit input now c))"
| ends: "map_get (in_flight c) e \<noteq> None \<Longrightarrow> e_expiresAt (entry_at c e) \<le> ctx_loadedAt v + PRINCIPAL_CACHE_TTL_MS \<Longrightarrow>
         pc_step attached_only limit c (load_ends e v c)"
| fails: "map_get (in_flight c) e = Some (m, user) \<Longrightarrow> (attached_only \<longrightarrow> m \<in> snd ` set (tenant_maps c)) \<Longrightarrow>
          pc_step attached_only limit c (load_fails e c)"
| drops_user: "pc_step attached_only limit c (invalidatePrincipalCache tenant user c)"
| drops_tenant: "pc_step attached_only limit c (invalidateTenantPrincipalCache tenant c)"

definition cache_ok :: "principal_cache \<Rightarrow> bool" where
  "cache_ok c \<longleftrightarrow> distinct (map fst (tenant_maps c)) \<and> distinct (map snd (tenant_maps c)) \<and>
     (\<forall>m. distinct (map fst (map_users c m))) \<and> (\<forall>tm \<in> set (tenant_maps c). snd tm < next_id c)"

text \<open>What an operation that only removes entries leaves.\<close>

definition shrinks :: "principal_cache \<Rightarrow> principal_cache \<Rightarrow> bool" where
  "shrinks c c' \<longleftrightarrow> next_id c' = next_id c \<and> entry_at c' = entry_at c \<and> (cache_ok c \<longrightarrow> cache_ok c') \<and>
     (cache_ok c \<longrightarrow> (\<forall>tenant user e. cached_entry tenant user c' = Some e \<longrightarrow> cached_entry tenant user c = Some e))"

lemma shrinks_refl [simp]: "shrinks c c"
  by (simp add: shrinks_def)

lemma shrinks_trans: "shrinks a b \<Longrightarrow> shrinks b c \<Longrightarrow> shrinks a c"
  by (auto simp: shrinks_def)

lemma distinct_delete_snd: "distinct (map snd xs) \<Longrightarrow> distinct (map snd (map_delete xs k))"
  by (auto simp: AList.delete_eq distinct_map intro: inj_on_subset)

lemma shrinks_drop_map:
  "tenant_maps c' = map_delete (tenant_maps c) tenant \<Longrightarrow> map_users c' = map_users c \<Longrightarrow> next_id c' = next_id c \<Longrightarrow>
   entry_at c' = entry_at c \<Longrightarrow> shrinks c c'"
  unfolding shrinks_def cache_ok_def
  by (auto simp: cached_entry_def map_delete_distinct distinct_delete_snd set_map_delete bind_eq_Some_conv split: if_splits)

lemma shrinks_users:
  assumes "tenant_maps c' = tenant_maps c" "map_users c' = (map_users c)(m := users)" "next_id c' = next_id c" "entry_at c' = entry_at c"
    and "distinct (map fst (map_users c m)) \<Longrightarrow> distinct (map fst users) \<and> (\<forall>u e. map_get users u = Some e \<longrightarrow> map_get (map_users c m) u = Some e)"
  shows "shrinks c c'"
  using assms unfolding shrinks_def cache_ok_def by (auto simp: cached_entry_def bind_eq_Some_conv split: if_splits)

lemma kept_users:
  "distinct (map fst xs) \<Longrightarrow> distinct (map fst (map_delete xs u)) \<and> (\<forall>v e. map_get (map_delete xs u) v = Some e \<longrightarrow> map_get xs v = Some e)"
  "distinct (map fst xs) \<Longrightarrow> distinct (map fst (map_delete_if P xs)) \<and> (\<forall>v e. map_get (map_delete_if P xs) v = Some e \<longrightarrow> map_get xs v = Some e)"
  by (auto simp: map_delete_distinct map_delete_if_distinct map_get_delete_if split: if_splits option.splits)

lemma shrinks_dropUser [simp]: "shrinks c (dropUser tenant user c)"
proof (cases "map_get (tenant_maps c) tenant")
  case (Some m)
  have "shrinks c (count_invalidations 1 (c\<lparr>map_users := (map_users c)(m := map_delete (map_users c m) user), entryCount := entryCount c - 1\<rparr>))"
    by (rule shrinks_users [where m = m and users = "map_delete (map_users c m) user"]) (simp_all add: kept_users)
  with Some show ?thesis by (simp add: dropUser_def)
qed (simp add: dropUser_def)

lemma shrinks_dropTenant [simp]: "shrinks c (dropTenant tenant c)"
  by (auto simp: dropTenant_def split: option.splits intro!: shrinks_drop_map)

lemma shrinks_foldl: "(\<And>c x. shrinks c (f c x)) \<Longrightarrow> shrinks c (foldl f c xs)"
  by (induction xs arbitrary: c) (auto intro: shrinks_trans)

lemma shrinks_invalidate [simp]:
  "shrinks c (invalidatePrincipalCache tn user c)" "shrinks c (invalidateTenantPrincipalCache tn c)"
  by (auto simp: invalidatePrincipalCache_def invalidateTenantPrincipalCache_def intro!: shrinks_foldl split: option.splits)

lemma shrinks_if: "shrinks c c1 \<Longrightarrow> shrinks c1 c2 \<Longrightarrow> shrinks c (if b then c2 else c1)"
  by (cases b) (simp_all, rule shrinks_trans)

lemma shrinks_sweep_tenant: "shrinks c (sweep_tenant now tm c)"
proof -
  obtain tenant m where tm: "tm = (tenant, m)" by (cases tm)
  have users: "shrinks c (c\<lparr>map_users := (map_users c)(m := map_delete_if P (map_users c m)), entryCount := n\<rparr>)" for P n
    by (rule shrinks_users [where m = m and users = "map_delete_if P (map_users c m)"]) (simp, simp, simp, simp, rule kept_users(2))
  have tenant: "shrinks c' (c'\<lparr>tenant_maps := map_delete (tenant_maps c') tenant\<rparr>)" for c'
    by (rule shrinks_drop_map [where tenant = tenant]) simp_all
  show ?thesis
    unfolding sweep_tenant_def tm Let_def case_prod_conv by (rule shrinks_if [OF users tenant])
qed

lemma shrinks_sweep: "shrinks c (sweepExpired now c)"
proof -
  have "shrinks c (c\<lparr>lastSweepAt := now\<rparr>)" by (simp add: shrinks_def cache_ok_def cached_entry_def)
  then show ?thesis
    unfolding sweepExpired_def
    using shrinks_trans [OF _ shrinks_foldl [where f = "\<lambda>c tm. sweep_tenant now tm c", OF shrinks_sweep_tenant]] by simp
qed

lemma shrinks_evict_loop: "shrinks c (evict_loop limit c)"
proof (induction limit c rule: evict_loop.induct)
  case (1 limit c)
  have tenant: "shrinks c (c\<lparr>tenant_maps := map_delete (tenant_maps c) t\<rparr>)" for t
    by (rule shrinks_drop_map [where tenant = t]) simp_all
  have user: "shrinks c (c\<lparr>map_users := (map_users c)(m := map_delete (map_users c m) u), entryCount := n\<rparr>)" for m u n
    by (rule shrinks_users [where m = m and users = "map_delete (map_users c m) u"]) (simp_all add: kept_users)
  show ?case
  proof (cases "entryCount c < int limit \<or> tenant_maps c = []")
    case True
    then show ?thesis by (subst evict_loop.simps) auto
  next
    case False
    then obtain t m rest where tm: "tenant_maps c = (t, m) # rest" by (cases "tenant_maps c") auto
    show ?thesis
    proof (cases "map_users c m")
      case Nil
      have eq: "evict_loop limit c = evict_loop limit (c\<lparr>tenant_maps := map_delete (tenant_maps c) t\<rparr>)"
        using False by (subst evict_loop.simps) (simp add: tm Nil)
      have more: "\<not> entryCount c < int limit" using False by simp
      show ?thesis unfolding eq by (rule shrinks_trans [OF tenant 1(1) [OF more tm refl Nil]])
    next
      case (Cons ue users)
      obtain u e where ue: "ue = (u, e)" by (cases ue)
      have eq: "evict_loop limit c =
          evict_loop limit (c\<lparr>map_users := (map_users c)(m := map_delete (map_users c m) u), entryCount := entryCount c - 1\<rparr>)"
        using False by (subst evict_loop.simps) (simp add: tm Cons ue)
      have more: "\<not> entryCount c < int limit" using False by simp
      show ?thesis unfolding eq by (rule shrinks_trans [OF user 1(2) [OF more tm refl Cons [unfolded ue] refl]])
    qed
  qed
qed

lemma shrinks_evict: "shrinks c (evictIfFull limit now c)"
  using shrinks_trans [OF shrinks_sweep shrinks_evict_loop] by (simp add: evictIfFull_def)

section \<open>Contexts are never stale\<close>

definition evolves :: "principal_cache \<Rightarrow> principal_cache \<Rightarrow> bool" where
  "evolves c c' \<longleftrightarrow> next_id c \<le> next_id c' \<and> (cache_ok c \<longrightarrow> cache_ok c') \<and>
     (cache_ok c \<longrightarrow> (\<forall>tenant user e. cached_entry tenant user c' = Some e \<longrightarrow> cached_entry tenant user c = Some e \<or> next_id c \<le> e))"

lemma evolves_trans: "evolves a b \<Longrightarrow> evolves b c \<Longrightarrow> evolves a c"
  unfolding evolves_def by (meson order_trans)

lemma shrinks_evolves: "shrinks c c' \<Longrightarrow> evolves c c'"
  by (simp add: shrinks_def evolves_def)

lemma evolves_same: "next_id c' = next_id c \<Longrightarrow> tenant_maps c' = tenant_maps c \<Longrightarrow> map_users c' = map_users c \<Longrightarrow> evolves c c'"
  by (simp add: evolves_def cache_ok_def cached_entry_def)

lemma tenantMap_attaches: "tenantMap tenant c = (m, c') \<Longrightarrow> map_get (tenant_maps c') tenant = Some m"
  by (auto simp: tenantMap_def split: option.splits)

lemma evolves_tenantMap: "tenantMap tenant c = (m, c') \<Longrightarrow> evolves c c'"
proof (cases "map_get (tenant_maps c) tenant")
  case None
  assume "tenantMap tenant c = (m, c')"
  then have c': "c' = c\<lparr>tenant_maps := map_set (tenant_maps c) tenant (next_id c), map_users := (map_users c)(next_id c := []), next_id := next_id c + 1\<rparr>"
    using None by (auto simp: tenantMap_def)
  have snd_set: "map snd (map_set (tenant_maps c) tenant (next_id c)) = map snd (tenant_maps c) @ [next_id c]"
    using None by (simp add: map_set_new)
  have "cache_ok c'" if ok: "cache_ok c"
    using ok unfolding cache_ok_def c'
    by (auto simp: snd_set map_set_distinct dest!: subsetD [OF set_map_set])
  then show ?thesis unfolding evolves_def
    by (auto simp: c' cached_entry_def bind_eq_Some_conv split: if_splits)
next
  case (Some m')
  assume "tenantMap tenant c = (m, c')"
  then show ?thesis using Some by (simp add: tenantMap_def evolves_same)
qed

lemma evolves_insert:
  "map_users c' = (map_users c)(m := map_set (map_users c m) user (next_id c)) \<Longrightarrow> tenant_maps c' = tenant_maps c \<Longrightarrow>
   next_id c' = next_id c + 1 \<Longrightarrow> evolves c c'"
  unfolding evolves_def cache_ok_def
  by (auto simp: cached_entry_def bind_eq_Some_conv map_set_distinct less_SucI split: if_splits)

lemma evolves_get: "evolves c (snd (get_starts limit input now c))"
proof -
  have store: "evolves c (snd (store_load limit input now c))" for c
  proof -
    define c1 where "c1 = (if cached_entry (in_tenantDbName input) (in_userId input) c = None
        then let c' = evictIfFull limit now c in c'\<lparr>entryCount := entryCount c' + 1\<rparr> else c)"
    have "evolves (evictIfFull limit now c) ((evictIfFull limit now c)\<lparr>entryCount := n\<rparr>)" for n by (rule evolves_same) simp_all
    then have c1: "evolves c c1"
      using evolves_trans [OF shrinks_evolves [OF shrinks_evict [of c limit now]]] evolves_same [of c c]
      unfolding c1_def Let_def by (simp only: split: if_split) blast
    obtain m c2 where m: "tenantMap (in_tenantDbName input) c1 = (m, c2)" by (cases "tenantMap (in_tenantDbName input) c1")
    have "evolves c2 (snd (store_load limit input now c))"
      unfolding store_load_def c1_def [symmetric] m by (rule evolves_insert [where m = m]) (simp_all add: Let_def m)
    then show ?thesis using evolves_trans evolves_tenantMap [OF m] c1 by blast
  qed
  have counts: "evolves c (c\<lparr>stats := x\<rparr>)" for c x by (rule evolves_same) simp_all
  show ?thesis
    using counts evolves_trans [OF counts store]
    by (auto simp: get_starts_def Let_def split: option.splits)
qed

lemma pc_step_evolves: "pc_step a limit c c' \<Longrightarrow> evolves c c'"
proof (induction rule: pc_step.induct)
  case (fails c e m user)
  let ?c = "c\<lparr>in_flight := map_delete (in_flight c) e\<rparr>"
  have flight: "evolves c ?c" by (rule evolves_same) simp_all
  have "shrinks ?c (?c\<lparr>map_users := (map_users c)(m := map_delete (map_users c m) user), entryCount := n\<rparr>)" for n
    by (rule shrinks_users [where m = m and users = "map_delete (map_users c m) user"]) (simp_all add: kept_users)
  with flight show ?case
    using evolves_trans [OF flight shrinks_evolves] fails(1) by (simp add: load_fails_def Let_def)
qed (simp_all add: evolves_get shrinks_evolves, simp add: load_ends_def evolves_same)

lemma steps_evolve: "(pc_step a limit)\<^sup>*\<^sup>* c c' \<Longrightarrow> evolves c c'"
  by (induction rule: rtranclp_induct) (auto simp: evolves_same dest: pc_step_evolves intro: evolves_trans)

lemma cache_ok_empty [simp]: "cache_ok empty_cache"
  by (simp add: cache_ok_def empty_cache_def)

lemma reachable_ok: "(pc_step a limit)\<^sup>*\<^sup>* empty_cache c \<Longrightarrow> cache_ok c"
  using steps_evolve [of a limit empty_cache c] by (simp add: evolves_def)

text \<open>Contexts that are cached expire no later than they should.\<close>

definition values_fresh :: "principal_cache \<Rightarrow> bool" where
  "values_fresh c \<longleftrightarrow>
     (\<forall>e v. e_value (entry_at c e) = Some v \<longrightarrow> e_expiresAt (entry_at c e) \<le> ctx_loadedAt v + PRINCIPAL_CACHE_TTL_MS)"

lemma fresh_get: "values_fresh c \<Longrightarrow> values_fresh (snd (get_starts limit input now c))"
proof -
  have "entry_at (evictIfFull limit now c) = entry_at c" for c using shrinks_evict by (simp add: shrinks_def)
  moreover have "entry_at (snd (tenantMap t c)) = entry_at c" for t c by (simp add: tenantMap_def split: option.split)
  ultimately show "values_fresh c \<Longrightarrow> values_fresh (snd (get_starts limit input now c))"
    by (auto simp: get_starts_def store_load_def values_fresh_def Let_def split_beta split: option.splits if_splits)
qed

lemma reachable_fresh: "(pc_step a limit)\<^sup>*\<^sup>* empty_cache c \<Longrightarrow> values_fresh c"
proof (induction rule: rtranclp_induct)
  case base
  then show ?case by (simp add: values_fresh_def empty_cache_def)
next
  case (step c c')
  from step(2,3) show ?case
  proof (induction rule: pc_step.induct)
    case (drops_user c tn user)
    then show ?case using shrinks_invalidate(1) [of c tn user] by (simp add: shrinks_def values_fresh_def)
  next
    case (drops_tenant c tn)
    then show ?case using shrinks_invalidate(2) [of c tn] by (simp add: shrinks_def values_fresh_def)
  next
    case (gets c input now)
    then show ?case by (rule fresh_get)
  qed (auto simp: values_fresh_def load_ends_def load_fails_def Let_def split: option.splits if_splits)
qed

lemma dropUser_gone: "cached_entry tenant user (dropUser tenant user c) = None"
  by (auto simp: dropUser_def cached_entry_def split: option.splits)

lemma dropTenant_gone: "cached_entry tenant user (dropTenant tenant c) = None"
  by (auto simp: dropTenant_def cached_entry_def split: option.splits)

lemma gone_stays:
  assumes "shrinks c c'" "cache_ok c" "cached_entry tenant user c = None"
  shows "cached_entry tenant user c' = None"
  using assms by (cases "cached_entry tenant user c'") (auto simp: shrinks_def)

lemma foldl_gone:
  assumes "\<And>c x. shrinks c (f c x)" "\<And>c. cached_entry tenant user (f c tenant) = None"
  shows "cache_ok c \<Longrightarrow> tenant \<in> set ts \<or> cached_entry tenant user c = None \<Longrightarrow> cached_entry tenant user (foldl f c ts) = None"
proof (induction ts arbitrary: c)
  case (Cons t ts)
  have ok: "cache_ok (f c t)" using assms(1) [of c t] Cons.prems(1) by (simp add: shrinks_def)
  have "tenant \<in> set ts \<or> cached_entry tenant user (f c t) = None"
    using Cons.prems assms(2) [of c] gone_stays [OF assms(1) Cons.prems(1)] by (cases "t = tenant") auto
  then show ?case using Cons.IH ok by simp
qed simp

lemma no_tenant_no_entry: "tenant \<notin> fst ` set (tenant_maps c) \<Longrightarrow> cached_entry tenant user c = None"
  by (metis bind.bind_lzero cached_entry_def map_of_eq_None_iff)

lemma invalidated_gone:
  assumes "cache_ok c" "given_id tn \<in> {None, Some tenant}"
  shows "cached_entry tenant user (invalidatePrincipalCache tn user c) = None"
    and "cached_entry tenant user (invalidateTenantPrincipalCache tn c) = None"
proof -
  have all: "tenant \<in> set (map fst (tenant_maps c)) \<or> cached_entry tenant user c = None"
    using no_tenant_no_entry by fastforce
  show "cached_entry tenant user (invalidatePrincipalCache tn user c) = None"
    using assms(2) foldl_gone [of "\<lambda>c t. dropUser t user c", OF _ _ assms(1) all]
    by (auto simp: invalidatePrincipalCache_def dropUser_gone)
  show "cached_entry tenant user (invalidateTenantPrincipalCache tn c) = None"
    using assms(2) foldl_gone [of "\<lambda>c t. dropTenant t c", OF _ _ assms(1) all]
    by (auto simp: invalidateTenantPrincipalCache_def dropTenant_gone)
qed

text \<open>
  C7: After a person or a tenant was invalidated, no request is answered from a load that began before: whatever happens in
  between, a cached context or a load in progress that a later request gets belongs to an entry made after the
  invalidation. And a context served from the cache is never older than its time to live.
\<close>

theorem no_stale_principal_after_invalidation:
  assumes "(pc_step a limit)\<^sup>*\<^sup>* empty_cache c" "given_id tn \<in> {None, Some (in_tenantDbName input)}"
    and "dropped \<in> {invalidatePrincipalCache tn (in_userId input) c, invalidateTenantPrincipalCache tn c}"
    and "(pc_step a limit)\<^sup>*\<^sup>* dropped c'"
  shows "(\<forall>e. cache_answer input now c' = Some (JoinsLoad e) \<longrightarrow> next_id c \<le> e) \<and>
         (\<forall>e v. cache_answer input now c' = Some (ServedValue e v) \<longrightarrow>
            next_id c \<le> e \<and> now < ctx_loadedAt v + PRINCIPAL_CACHE_TTL_MS)"
proof -
  have ok: "cache_ok c" using reachable_ok [OF assms(1)] .
  have dropped: "shrinks c dropped" "cached_entry (in_tenantDbName input) (in_userId input) dropped = None"
    using assms(3) invalidated_gone [OF ok assms(2)] by auto
  have "evolves dropped c'" using steps_evolve [OF assms(4)] .
  then have entry: "next_id c \<le> e" if "cached_entry (in_tenantDbName input) (in_userId input) c' = Some e" for e
    using that dropped ok unfolding evolves_def shrinks_def by (metis option.distinct(1))
  have "pc_step a limit c dropped" using assms(3) by (auto intro: pc_step.intros)
  then have "(pc_step a limit)\<^sup>*\<^sup>* empty_cache c'" using assms(1,4) by simp
  then have "values_fresh c'" by (rule reachable_fresh)
  then show ?thesis
    using entry by (fastforce simp: cache_answer_def values_fresh_def split: option.splits if_splits)
qed

definition request_for :: "string \<Rightarrow> string \<Rightarrow> PrincipalLoadInput" where
  "request_for tenant user =
     \<lparr>in_tenantDbName = tenant, in_tenantId = tenant, in_userId = user, in_fresh = False, in_withProjects = False,
      in_user = None, in_groups = None, in_noStore = False\<rparr>"

theorem no_stale_principal_after_invalidation_witness:
  "let c = snd (get_starts 5 (request_for ''t'' ''u'') 0 empty_cache);
       c' = snd (get_starts 5 (request_for ''t'' ''u'') 1 (invalidatePrincipalCache (Some ''t'') ''u'' c))
   in cache_answer (request_for ''t'' ''u'') 2 c' = Some (JoinsLoad 2) \<and> next_id c \<le> 2"
proof -
  let ?input = "request_for ''t'' ''u''"
  let ?c = "snd (get_starts 5 ?input 0 empty_cache)"
  let ?d = "invalidatePrincipalCache (Some ''t'') ''u'' ?c"
  let ?c' = "snd (get_starts 5 ?input 1 ?d)"
  have "(pc_step True 5)\<^sup>*\<^sup>* empty_cache ?c" "(pc_step True 5)\<^sup>*\<^sup>* ?d ?c'" by (auto intro: pc_step.gets)
  moreover have "given_id (Some ''t'') \<in> {None, Some (in_tenantDbName ?input)}" "in_userId ?input = ''u''"
    by (simp_all add: given_id_def request_for_def)
  moreover have answer: "cache_answer ?input 2 ?c' = Some (JoinsLoad 2)" by code_simp
  ultimately show ?thesis
    using no_stale_principal_after_invalidation [of True 5 ?c "Some ''t''" ?input ?d ?c' 2] by (simp only: Let_def) blast
qed

section \<open>Counting entries\<close>

text \<open>The entries that are really in the cache.\<close>

definition cached_users :: "principal_cache \<Rightarrow> nat" where
  "cached_users c = sum_list (map (\<lambda>(tenant, m). length (map_users c m)) (tenant_maps c))"

definition counted :: "principal_cache \<Rightarrow> bool" where
  "counted c \<longleftrightarrow> cache_ok c \<and> entryCount c = int (cached_users c)"

lemma sum_update:
  assumes "distinct (map snd ts)" "m \<in> snd ` set ts"
  shows "sum_list (map (\<lambda>(t, i). length ((mu(m := xs)) i)) ts) + length (mu m) = sum_list (map (\<lambda>(t, i). length (mu i)) ts) + length xs"
  using assms
proof (induction ts)
  case (Cons a ts)
  obtain t i where a: "a = (t, i)" by (cases a)
  have same: "sum_list (map (\<lambda>(t, i). length (if i = m then xs else mu i)) ts) = sum_list (map (\<lambda>(t, i). length (mu i)) ts)"
    if "m \<notin> snd ` set ts"
    using that by (intro arg_cong [where f = sum_list] map_cong) (auto simp: image_iff)
  show ?case
  proof (cases "i = m")
    case True
    then have "m \<notin> snd ` set ts" using Cons.prems(1) a by simp
    then show ?thesis using same True by (simp add: a)
  qed (use Cons a in auto)
qed simp

lemma sum_delete:
  assumes "distinct (map fst ts)" "map_get ts t = Some m"
  shows "sum_list (map (\<lambda>(t, i). length (mu i)) (map_delete ts t)) + length (mu m) = sum_list (map (\<lambda>(t, i). length (mu i)) ts)"
proof -
  have "mset ts = add_mset (t, m) (mset (map_delete ts t))" by (rule mset_map_delete [OF assms])
  then have "sum_mset (image_mset (\<lambda>(t, i). length (mu i)) (mset ts)) =
      length (mu m) + sum_mset (image_mset (\<lambda>(t, i). length (mu i)) (mset (map_delete ts t)))" by simp
  then show ?thesis by (simp flip: sum_mset_sum_list mset_map)
qed

lemma users_changed:
  assumes "cache_ok c" "map_get (tenant_maps c) tenant = Some m" "tenant_maps c' = tenant_maps c" "map_users c' = (map_users c)(m := users)"
  shows "cached_users c' + length (map_users c m) = cached_users c + length users"
  using sum_update [of "tenant_maps c" m "map_users c" users] assms map_of_SomeD [OF assms(2)]
  by (force simp: cached_users_def cache_ok_def)

lemma tenant_dropped:
  assumes "cache_ok c" "map_get (tenant_maps c) tenant = Some m" "tenant_maps c' = map_delete (tenant_maps c) tenant" "map_users c' = map_users c"
  shows "cached_users c' + length (map_users c m) = cached_users c"
  using sum_delete [of "tenant_maps c" tenant m "map_users c"] assms by (simp add: cached_users_def cache_ok_def)

lemma length_delete_one: "distinct (map fst xs) \<Longrightarrow> map_get xs k = Some v \<Longrightarrow> length xs = Suc (length (map_delete xs k))"
  using mset_map_delete [of xs k v] by (metis size_add_mset size_mset)

lemma counted_user:
  assumes "counted c" "map_get (tenant_maps c) tenant = Some m" "map_get (map_users c m) user = Some e"
    and "tenant_maps c' = tenant_maps c" "map_users c' = (map_users c)(m := map_delete (map_users c m) user)"
    and "entryCount c' = entryCount c - 1" "shrinks c c'"
  shows "counted c'"
proof -
  have ok: "cache_ok c" using assms(1) by (simp add: counted_def)
  have "length (map_users c m) = Suc (length (map_delete (map_users c m) user))"
    using ok assms(3) by (intro length_delete_one) (auto simp: cache_ok_def)
  then have "cached_users c = Suc (cached_users c')" using users_changed [OF ok assms(2,4,5)] by simp
  then show ?thesis using assms(1,6,7) by (simp add: counted_def shrinks_def)
qed

lemma counted_dropUser: "counted c \<Longrightarrow> counted (dropUser tenant user c)"
proof (cases "map_get (tenant_maps c) tenant")
  case (Some m)
  assume "counted c"
  show ?thesis
  proof (cases "map_get (map_users c m) user")
    case (Some e)
    show ?thesis
      by (rule counted_user [OF \<open>counted c\<close> \<open>map_get (tenant_maps c) tenant = Some m\<close> Some _ _ _ shrinks_dropUser])
        (simp_all add: dropUser_def Some \<open>map_get (tenant_maps c) tenant = Some m\<close>)
  qed (simp add: dropUser_def Some \<open>counted c\<close>)
qed (simp add: dropUser_def)

lemma counted_dropTenant: "counted c \<Longrightarrow> counted (dropTenant tenant c)"
proof (cases "map_get (tenant_maps c) tenant")
  case (Some m)
  assume c: "counted c"
  then have "cached_users (dropTenant tenant c) + length (map_users c m) = cached_users c"
    by (intro tenant_dropped [OF _ Some]) (simp_all add: counted_def dropTenant_def Some)
  moreover have "cache_ok (dropTenant tenant c)" using shrinks_dropTenant [of c tenant] c by (simp add: shrinks_def counted_def)
  ultimately show ?thesis using c by (simp add: counted_def dropTenant_def Some)
qed (simp add: dropTenant_def)

lemma counted_foldl: "(\<And>c x. counted c \<Longrightarrow> counted (f c x)) \<Longrightarrow> counted c \<Longrightarrow> counted (foldl f c xs)"
  by (induction xs arbitrary: c) simp_all

lemma counted_invalidate:
  "counted c \<Longrightarrow> counted (invalidatePrincipalCache tn user c)" "counted c \<Longrightarrow> counted (invalidateTenantPrincipalCache tn c)"
  by (auto simp: invalidatePrincipalCache_def invalidateTenantPrincipalCache_def counted_dropUser counted_dropTenant
      intro!: counted_foldl split: option.splits)

lemma counted_sweep_tenant:
  assumes "counted c" "map_get (tenant_maps c) tenant = Some m"
  shows "counted (sweep_tenant now (tenant, m) c)"
proof -
  define kept where "kept = map_delete_if (\<lambda>user e. \<not> e_pending (entry_at c e) \<and> e_expiresAt (entry_at c e) \<le> now) (map_users c m)"
  define c1 where "c1 = c\<lparr>map_users := (map_users c)(m := kept), entryCount := entryCount c - int (length (map_users c m) - length kept)\<rparr>"
  have ok: "cache_ok c" using assms(1) by (simp add: counted_def)
  have "length kept \<le> length (map_users c m)" by (simp add: kept_def map_delete_if_def)
  moreover have "cached_users c1 + length (map_users c m) = cached_users c + length kept"
    by (rule users_changed [OF ok assms(2)]) (simp_all add: c1_def)
  ultimately have count1: "entryCount c1 = int (cached_users c1)" using assms(1) by (simp add: c1_def counted_def)
  have "shrinks c c1"
    unfolding c1_def by (rule shrinks_users [where m = m and users = kept]) (simp, simp, simp, simp, unfold kept_def, rule kept_users(2))
  then have ok1: "cache_ok c1" using ok by (simp add: shrinks_def)
  show ?thesis
  proof (cases "kept = []")
    case True
    have swept: "sweep_tenant now (tenant, m) c = c1\<lparr>tenant_maps := map_delete (tenant_maps c1) tenant\<rparr>"
      using True by (simp add: sweep_tenant_def Let_def c1_def flip: kept_def)
    have "map_get (tenant_maps c1) tenant = Some m" "map_users c1 m = []" using assms(2) True by (simp_all add: c1_def)
    then have "cached_users (sweep_tenant now (tenant, m) c) = cached_users c1"
      using tenant_dropped [OF ok1, of tenant m "sweep_tenant now (tenant, m) c"] by (simp add: swept)
    moreover have "cache_ok (sweep_tenant now (tenant, m) c)" using shrinks_sweep_tenant ok by (simp add: shrinks_def)
    ultimately show ?thesis using count1 by (simp add: counted_def swept)
  next
    case False
    then have "sweep_tenant now (tenant, m) c = c1" by (simp add: sweep_tenant_def Let_def c1_def flip: kept_def)
    then show ?thesis using count1 ok1 by (simp add: counted_def)
  qed
qed

lemma sweep_tenant_others:
  "t \<noteq> tenant \<Longrightarrow> map_get (tenant_maps (sweep_tenant now (tenant, m) c)) t = map_get (tenant_maps c) t"
  by (simp add: sweep_tenant_def Let_def)

lemma counted_sweep: "counted c \<Longrightarrow> counted (sweepExpired now c)"
proof -
  have "counted (foldl (\<lambda>c tm. sweep_tenant now tm c) c ts)"
    if "counted c" "distinct (map fst ts)" "\<And>t m. (t, m) \<in> set ts \<Longrightarrow> map_get (tenant_maps c) t = Some m" for c ts
    using that
  proof (induction ts arbitrary: c)
    case (Cons tm ts)
    obtain t m where tm: "tm = (t, m)" by (cases tm)
    show ?case unfolding foldl_Cons tm
    proof (rule Cons.IH)
      show "counted (sweep_tenant now (t, m) c)" using counted_sweep_tenant Cons.prems tm by simp
      show "map_get (tenant_maps (sweep_tenant now (t, m) c)) t' = Some m'" if "(t', m') \<in> set ts" for t' m'
      proof -
        have "t' \<noteq> t" using Cons.prems(2) tm that by force
        then show ?thesis using sweep_tenant_others Cons.prems(3) [of t' m'] that by simp
      qed
    qed (use Cons.prems in simp)
  qed simp
  moreover assume "counted c"
  moreover from this have "counted (c\<lparr>lastSweepAt := now\<rparr>)" by (simp add: counted_def cache_ok_def cached_users_def)
  ultimately show ?thesis
    by (auto simp: sweepExpired_def counted_def cache_ok_def map_of_eq_Some_iff)
qed

lemma counted_evict_loop:
  "counted c \<Longrightarrow> 0 < limit \<Longrightarrow> counted (evict_loop limit c) \<and> entryCount (evict_loop limit c) < int limit"
proof (induction limit c rule: evict_loop.induct)
  case (1 limit c)
  show ?case
  proof (cases "entryCount c < int limit")
    case True
    then show ?thesis using 1(3) by (subst (1 2) evict_loop.simps) simp
  next
    case False
    then have "tenant_maps c \<noteq> []" using 1(3,4) by (auto simp: counted_def cached_users_def)
    then obtain t m rest where tm: "tenant_maps c = (t, m) # rest" by (cases "tenant_maps c") auto
    then have get: "map_get (tenant_maps c) t = Some m" by simp
    show ?thesis
    proof (cases "map_users c m")
      case Nil
      let ?c = "c\<lparr>tenant_maps := map_delete (tenant_maps c) t\<rparr>"
      have eq: "evict_loop limit c = evict_loop limit ?c"
        using False by (subst evict_loop.simps) (simp add: tm Nil)
      have "cached_users ?c = cached_users c" using tenant_dropped [OF _ get, of ?c] 1(3) Nil by (simp add: counted_def)
      moreover have "shrinks c ?c" by (rule shrinks_drop_map [where tenant = t]) simp_all
      ultimately have "counted ?c" using 1(3) by (simp add: counted_def shrinks_def)
      then show ?thesis unfolding eq using 1(1) [OF False tm refl Nil] 1(4) by blast
    next
      case (Cons ue users)
      obtain u e where ue: "ue = (u, e)" by (cases ue)
      let ?c = "c\<lparr>map_users := (map_users c)(m := map_delete (map_users c m) u), entryCount := entryCount c - 1\<rparr>"
      have eq: "evict_loop limit c = evict_loop limit ?c"
        using False by (subst evict_loop.simps) (simp add: tm Cons ue)
      have "shrinks c ?c"
        by (rule shrinks_users [where m = m and users = "map_delete (map_users c m) u"]) (simp_all add: kept_users)
      then have "counted ?c" by (rule counted_user [OF 1(3) get, where user = u and e = e, rotated -1]) (simp_all add: Cons ue)
      then show ?thesis unfolding eq using 1(2) [OF False tm refl Cons [unfolded ue] refl] 1(4) by blast
    qed
  qed
qed

lemma counted_evict:
  "counted c \<Longrightarrow> 0 < limit \<Longrightarrow> counted (evictIfFull limit now c) \<and> entryCount (evictIfFull limit now c) < int limit"
  using counted_evict_loop [OF counted_sweep] by (simp add: evictIfFull_def)

lemma tenantMap_users:
  assumes "cache_ok c" "tenantMap tenant c = (m, c')"
  shows "cached_users c' = cached_users c" "entryCount c' = entryCount c"
    "map_get (map_users c' m) user = cached_entry tenant user c"
proof -
  have "cached_users c' = cached_users c \<and> entryCount c' = entryCount c \<and> map_get (map_users c' m) user = cached_entry tenant user c"
  proof (cases "map_get (tenant_maps c) tenant")
    case None
    have "sum_list (map (\<lambda>(t, i). length (((map_users c)(next_id c := [])) i)) (tenant_maps c)) =
        sum_list (map (\<lambda>(t, i). length (map_users c i)) (tenant_maps c))"
      using assms(1) by (intro arg_cong [where f = sum_list] map_cong) (auto simp: cache_ok_def)
    then show ?thesis
      using assms(2) None by (auto simp: tenantMap_def cached_users_def map_set_new cached_entry_def)
  qed (use assms(2) in \<open>simp add: tenantMap_def cached_entry_def\<close>)
  then show "cached_users c' = cached_users c" "entryCount c' = entryCount c"
    "map_get (map_users c' m) user = cached_entry tenant user c" by auto
qed

lemma length_map_set_has: "distinct (map fst xs) \<Longrightarrow> length (map_set xs k v) = (if map_has xs k then length xs else Suc (length xs))"
  using mset_map_set [of xs k v] length_delete_one [of xs k]
  by (auto simp: map_set_new) (metis size_add_mset size_mset)

text \<open>Storing a load, after the room was made.\<close>

lemma stored_counts:
  assumes "cache_ok c1" "tenantMap (in_tenantDbName input) c1 = (m, c2)"
    and "c3 = c2\<lparr>next_id := n, entry_at := es, map_users := (map_users c2)(m := map_set (map_users c2 m) (in_userId input) e), in_flight := fl\<rparr>"
  shows "cached_users c3 = cached_users c1 + (if cached_entry (in_tenantDbName input) (in_userId input) c1 = None then 1 else 0) \<and>
         entryCount c3 = entryCount c1"
proof -
  have ok: "cache_ok c2" using evolves_tenantMap [OF assms(2)] assms(1) by (simp add: evolves_def)
  have "cached_users c3 + length (map_users c2 m) = cached_users c2 + length (map_set (map_users c2 m) (in_userId input) e)"
    by (rule users_changed [OF ok tenantMap_attaches [OF assms(2)]]) (simp_all add: assms(3))
  moreover have "distinct (map fst (map_users c2 m))" using ok by (simp add: cache_ok_def)
  ultimately show ?thesis
    using tenantMap_users [OF assms(1,2)] by (auto simp: length_map_set_has assms(3) split: if_splits)
qed

definition within_bound :: "nat \<Rightarrow> principal_cache \<Rightarrow> bool" where
  "within_bound limit c \<longleftrightarrow> counted c \<and> cached_users c \<le> limit"

lemma bound_store:
  assumes "within_bound limit c" "0 < limit"
  shows "within_bound limit (snd (store_load limit input now c))"
proof -
  let ?entry = "cached_entry (in_tenantDbName input) (in_userId input)"
  define c1 where "c1 = (if ?entry c = None then let c' = evictIfFull limit now c in c'\<lparr>entryCount := entryCount c' + 1\<rparr> else c)"
  have c1: "cache_ok c1" "?entry c1 = ?entry c" "cached_users c1 + (if ?entry c = None then 1 else 0) \<le> limit"
    "entryCount c1 = int (cached_users c1) + (if ?entry c = None then 1 else 0)"
  proof -
    let ?c = "evictIfFull limit now c"
    have evicted: "counted ?c" "entryCount ?c < int limit"
      using counted_evict [of c limit now] assms by (auto simp: within_bound_def)
    have "?entry c = None \<Longrightarrow> ?entry ?c = None"
      using gone_stays [OF shrinks_evict] assms(1) by (simp add: within_bound_def counted_def)
    then show "cache_ok c1" "?entry c1 = ?entry c" "cached_users c1 + (if ?entry c = None then 1 else 0) \<le> limit"
      "entryCount c1 = int (cached_users c1) + (if ?entry c = None then 1 else 0)"
      using evicted assms(1)
      by (auto simp: c1_def Let_def counted_def within_bound_def cache_ok_def cached_entry_def cached_users_def)
  qed
  obtain m c2 where m: "tenantMap (in_tenantDbName input) c1 = (m, c2)" by (cases "tenantMap (in_tenantDbName input) c1")
  define c3 where "c3 = snd (store_load limit input now c)"
  have c3: "c3 = c2\<lparr>next_id := next_id c2 + 1,
      entry_at := (entry_at c2)(next_id c2 := \<lparr>e_value = None, e_pending = True, e_expiresAt = now + PRINCIPAL_CACHE_TTL_MS\<rparr>),
      map_users := (map_users c2)(m := map_set (map_users c2 m) (in_userId input) (next_id c2)),
      in_flight := map_set (in_flight c2) (next_id c2) (m, in_userId input)\<rparr>"
    unfolding c3_def store_load_def c1_def [symmetric] m by (simp add: Let_def m)
  have "cache_ok c3"
    using evolves_insert [of c3 c2 m "in_userId input"] evolves_tenantMap [OF m] c1(1) by (simp add: c3 evolves_def)
  then show ?thesis
    unfolding c3_def [symmetric] using stored_counts [OF c1(1) m c3] c1 by (auto simp: within_bound_def counted_def)
qed

lemma bound_same:
  "tenant_maps c' = tenant_maps c \<Longrightarrow> map_users c' = map_users c \<Longrightarrow> next_id c' = next_id c \<Longrightarrow> entryCount c' = entryCount c \<Longrightarrow>
   within_bound limit c' = within_bound limit c"
  by (simp add: within_bound_def counted_def cache_ok_def cached_users_def)

lemma bound_get: "within_bound limit c \<Longrightarrow> 0 < limit \<Longrightarrow> within_bound limit (snd (get_starts limit input now c))"
  using bound_same [of "count_hit c" c limit]
    bound_store [of limit "c\<lparr>stats := (stats c)\<lparr>misses := misses (stats c) + 1, loads := loads (stats c) + 1\<rparr>\<rparr>" input now]
    bound_same [of "c\<lparr>stats := (stats c)\<lparr>misses := misses (stats c) + 1, loads := loads (stats c) + 1\<rparr>\<rparr>" c limit]
  by (simp add: get_starts_def Let_def split: option.split)

lemma fewer_users:
  assumes "counted c'" "counted c" "entryCount c' \<le> entryCount c" "within_bound limit c"
  shows "within_bound limit c'"
  using assms by (simp add: within_bound_def counted_def)

lemma drop_count: "entryCount (dropUser tenant user c) \<le> entryCount c" "entryCount (dropTenant tenant c) \<le> entryCount c"
  by (auto simp: dropUser_def dropTenant_def split: option.splits)

lemma foldl_count: "(\<And>c x. entryCount (f c x) \<le> entryCount c) \<Longrightarrow> entryCount (foldl f c xs) \<le> entryCount c"
  by (induction xs arbitrary: c) (auto intro: order_trans)

lemma invalidate_count:
  "entryCount (invalidatePrincipalCache tn user c) \<le> entryCount c" "entryCount (invalidateTenantPrincipalCache tn c) \<le> entryCount c"
  by (auto simp: invalidatePrincipalCache_def invalidateTenantPrincipalCache_def drop_count intro!: foldl_count split: option.splits)

lemma counted_fails:
  assumes "counted c" "map_get (in_flight c) e = Some (m, user)" "m \<in> snd ` set (tenant_maps c)"
  shows "counted (load_fails e c) \<and> entryCount (load_fails e c) \<le> entryCount c"
proof -
  let ?c = "c\<lparr>in_flight := map_delete (in_flight c) e\<rparr>"
  have c: "counted ?c" using assms(1) by (simp add: counted_def cache_ok_def cached_users_def)
  obtain tenant where "(tenant, m) \<in> set (tenant_maps c)" using assms(3) by auto
  then have attached: "map_get (tenant_maps ?c) tenant = Some m"
    using assms(1) by (simp add: counted_def cache_ok_def map_of_eq_Some_iff)
  show ?thesis
  proof (cases "map_get (map_users ?c m) user = Some e")
    case True
    have eq: "load_fails e c = ?c\<lparr>map_users := (map_users ?c)(m := map_delete (map_users ?c m) user), entryCount := entryCount ?c - 1\<rparr>"
      using True by (simp add: load_fails_def assms(2))
    have "shrinks ?c (load_fails e c)" unfolding eq
      by (rule shrinks_users [where m = m and users = "map_delete (map_users ?c m) user"]) (simp_all add: kept_users)
    then have "counted (load_fails e c)"
      by (rule counted_user [OF c attached True, rotated -1]) (simp_all only: eq, simp_all)
    then show ?thesis by (simp add: eq)
  next
    case False
    then have "load_fails e c = ?c" by (simp add: load_fails_def assms(2))
    then show ?thesis using c by simp
  qed
qed

text \<open>
  As long as no load fails after the map of its tenant was dropped, the counter of the cache is exact, and there are never
  more cached contexts than the bound allows, whatever the order of requests, loads and invalidations.
\<close>

theorem principal_cache_stays_within_bound:
  assumes "(pc_step True limit)\<^sup>*\<^sup>* empty_cache c" "0 < limit"
  shows "entryCount c = int (cached_users c) \<and> cached_users c \<le> limit"
proof -
  from assms(1) have "within_bound limit c"
  proof (induction rule: rtranclp_induct)
    case base
    then show ?case by (simp add: within_bound_def counted_def) (simp add: empty_cache_def cached_users_def)
  next
    case (step c c')
    then have c: "counted c" by (simp add: within_bound_def)
    from step(2) c step(3) show ?case
    proof (induction rule: pc_step.induct)
      case (gets c input now)
      then show ?case using bound_get assms(2) by blast
    next
      case (ends c e v)
      then show ?case using bound_same [of "load_ends e v c" c limit] by (simp add: load_ends_def)
    next
      case (fails c e m user)
      then show ?case using counted_fails [of c e m user] by (auto intro: fewer_users)
    next
      case (drops_user c tenant user)
      then show ?case using fewer_users [OF counted_invalidate(1) _ invalidate_count(1)] by blast
    next
      case (drops_tenant c tenant)
      then show ?case using fewer_users [OF counted_invalidate(2) _ invalidate_count(2)] by blast
    qed
  qed
  then show ?thesis by (simp add: within_bound_def counted_def)
qed

theorem principal_cache_stays_within_bound_witness:
  "let c = snd (get_starts 1 (request_for ''t'' ''v'') 0 (snd (get_starts 1 (request_for ''t'' ''u'') 0 empty_cache)))
   in entryCount c = int (cached_users c) \<and> cached_users c \<le> 1 \<and> cached_entry ''t'' ''v'' c = Some 2"
proof -
  let ?c = "snd (get_starts 1 (request_for ''t'' ''v'') 0 (snd (get_starts 1 (request_for ''t'' ''u'') 0 empty_cache)))"
  have "(pc_step True 1)\<^sup>*\<^sup>* empty_cache ?c"
    by (rule rtranclp.rtrancl_into_rtrancl [OF r_into_rtranclp]) (rule pc_step.gets)+
  moreover have "cached_entry ''t'' ''v'' ?c = Some 2" by code_simp
  ultimately show ?thesis using principal_cache_stays_within_bound [of 1 ?c] by (simp add: Let_def)
qed

text \<open>
  A load that fails after the map of its tenant was dropped is counted twice: the drop already took its entry off the
  counter. From then on the counter is too low by one, and the cache holds more contexts than its bound.
\<close>

theorem failed_load_after_tenant_drop_overfills:
  "\<exists>c. (pc_step False 1)\<^sup>*\<^sup>* empty_cache c \<and> entryCount c = 1 \<and> cached_users c = 2"
proof -
  let ?c1 = "snd (get_starts 1 (request_for ''t'' ''u'') 0 empty_cache)"
  let ?c2 = "invalidateTenantPrincipalCache (Some ''t'') ?c1"
  let ?c3 = "load_fails 1 ?c2"
  let ?c4 = "snd (get_starts 1 (request_for ''t'' ''v'') 0 ?c3)"
  let ?c5 = "snd (get_starts 1 (request_for ''t'' ''w'') 0 ?c4)"
  have "map_get (in_flight ?c2) 1 = Some (0, ''u'')" by code_simp
  then have "pc_step False 1 ?c2 ?c3" by (rule pc_step.fails) simp
  then have "(pc_step False 1)\<^sup>*\<^sup>* empty_cache ?c5"
    by (meson pc_step.gets pc_step.drops_tenant r_into_rtranclp rtranclp.rtrancl_into_rtrancl)
  moreover have "entryCount ?c5 = 1" "cached_users ?c5 = 2" by code_simp+
  ultimately show ?thesis by blast
qed

section \<open>The project of a request\<close>

definition DEFAULT_PROJECT_TTL_MS :: jsnum where
  "DEFAULT_PROJECT_TTL_MS = 60000"

definition MAX_TENANTS :: nat where
  "MAX_TENANTS = 5000"

record default_project_entry =
  dp_id :: "string option"
  dp_expiresAt :: jsnum

text \<open>The default project of a tenant, with the answer of the database as an argument.\<close>

definition lookupDefaultProjectId ::
  "string \<Rightarrow> string option query \<Rightarrow> jsnum \<Rightarrow> (string, default_project_entry) jsmap
     \<Rightarrow> string option query \<times> (string, default_project_entry) jsmap" where
  "lookupDefaultProjectId tenant answer now cached =
     (let load =
        (case answer of
           Fails \<Rightarrow> (Fails, cached)
         | Answers i \<Rightarrow>
             let room = (if \<not> map_has cached tenant \<and> MAX_TENANTS \<le> length cached then tl cached else cached)
             in (Answers i, map_set room tenant \<lparr>dp_id = i, dp_expiresAt = now + DEFAULT_PROJECT_TTL_MS\<rparr>))
      in case map_get cached tenant of
           Some hit \<Rightarrow> if dp_expiresAt hit > now then (Answers (dp_id hit), cached) else load
         | None \<Rightarrow> load)"

definition getDefaultProjectId ::
  "string \<Rightarrow> string option query \<Rightarrow> jsnum \<Rightarrow> (string, default_project_entry) jsmap
     \<Rightarrow> string option \<times> (string, default_project_entry) jsmap" where
  "getDefaultProjectId tenant answer now cached =
     (case lookupDefaultProjectId tenant answer now cached of
        (Answers i, cached') \<Rightarrow> (i, cached')
      | (Fails, cached') \<Rightarrow> (None, cached'))"

record NarrowingInput =
  nar_role :: string
  nar_user :: principal_user
  nar_groupGrants :: "GroupTenantGrant list"
  nar_requestedProjectId :: "string option"
  nar_exactProject :: bool

text \<open>
  The membership that narrows a request. The context of the principal, the default project and the activation
  instant are what their lookups answer; a lookup that fails only matters where it is made.
\<close>

definition resolveNarrowingMembership ::
  "NarrowingInput \<Rightarrow> PrincipalContext query \<Rightarrow> string option query \<Rightarrow> jsnum query \<Rightarrow> (string \<times> RbacProjectLike) option query" where
  "resolveNarrowingMembership input context default_project levels_since =
     (if owner_or_admin (Some (nar_role input)) then Answers None
      else if \<exists>g \<in> set (nar_groupGrants input). owner_or_admin (grant_role g) then Answers None
      else
        case context of
          Fails \<Rightarrow> Fails
        | Answers ctx \<Rightarrow>
            (let memberProjectIds = nullish (ctx_projects ctx) []; requested = given_id (nar_requestedProjectId input) in
             if memberProjectIds = [] then Answers None
             else if nar_exactProject input \<and> (requested = None \<or> the requested \<notin> set memberProjectIds) then Answers None
             else
               case (if requested \<noteq> None then Answers None else default_project) of
                 Fails \<Rightarrow> Fails
               | Answers defaultProjectId \<Rightarrow>
                   (case pickActiveProjectId requested defaultProjectId memberProjectIds of
                      None \<Rightarrow> Answers None
                    | Some projectId \<Rightarrow>
                        (case levels_since of
                           Fails \<Rightarrow> Fails
                         | Answers since \<Rightarrow>
                             Answers (map_option (\<lambda>m. (projectId, m))
                               (resolveProjectMembership projectId (nar_role input) (projectIds (nar_user input))
                                  (nullish (ctx_userProjects ctx) []) (nullish (ctx_groupProjects ctx) []) since))))))"

text \<open>The project a handler runs in, and its refusals.\<close>

datatype ProjectContextError =
  ContextUnauthorized | NoProjectAssigned | ContextForbidden | ContextMissing | ProjectNotFound

definition groupProjectMembership :: "ProjectAssignmentRow list \<Rightarrow> string \<Rightarrow> RbacProjectLike option" where
  "groupProjectMembership rows projectId =
     (let assignments = filter (\<lambda>row. row_projectId row = projectId) rows in
      if assignments = [] then None
      else Some \<lparr>proj_role = (if \<exists>row \<in> set assignments. row_role row = ProjectAdmin then ProjectAdmin else Member),
                 proj_permissions = permission_object (mergeServicePermissions (map row_permissions assignments))\<rparr>)"

definition handler_membership ::
  "principal_user \<Rightarrow> ProjectAssignmentRow list \<Rightarrow> ProjectAssignmentRow list \<Rightarrow> string \<Rightarrow> RbacProjectLike option" where
  "handler_membership user directRows groupRows projectId =
     (case find (\<lambda>row. row_projectId row = projectId) directRows of
        Some row \<Rightarrow> Some \<lparr>proj_role = row_role row, proj_permissions = row_permissions row\<rparr>
      | None \<Rightarrow>
          if projectId \<in> set (nullish (projectIds user) [])
          then Some \<lparr>proj_role = (if user_role user = Some ''project_admin'' then ProjectAdmin else Member),
                     proj_permissions = PermNullish\<rparr>
          else groupProjectMembership groupRows projectId)"

definition handler_projects :: "principal_user \<Rightarrow> ProjectAssignmentRow list \<Rightarrow> ProjectAssignmentRow list \<Rightarrow> string list" where
  "handler_projects user directRows groupRows =
     unique (filter (\<lambda>i. i \<noteq> []) (filter (\<lambda>i. i \<noteq> []) (nullish (projectIds user) [])
              @ map row_projectId directRows @ map row_projectId groupRows))"

definition resolveProjectContext ::
  "principal_user option \<Rightarrow> string option \<Rightarrow> string option \<Rightarrow> ProjectAssignmentRow list \<Rightarrow> ProjectAssignmentRow list
     \<Rightarrow> (string \<Rightarrow> bool) \<Rightarrow> ProjectContextError + string \<times> RbacProjectLike option" where
  "resolveProjectContext found defaultProjectId activeProjectId directRows groupRows project_exists =
     (case found of
        None \<Rightarrow> Inl ContextUnauthorized
      | Some user \<Rightarrow>
          let isPrivileged = owner_or_admin (user_role user);
              projectId = opt_or (given_id activeProjectId) (given_id defaultProjectId);
              memberProjectIds = handler_projects user directRows groupRows;
              projectId' = (if \<not> isPrivileged \<and> (projectId = None \<or> the projectId \<notin> set memberProjectIds)
                            then (case memberProjectIds of [] \<Rightarrow> None | i # _ \<Rightarrow> Some i) else projectId)
          in if \<not> isPrivileged \<and> memberProjectIds = [] then Inl NoProjectAssigned
             else if \<not> isPrivileged \<and> (projectId' = None \<or> the projectId' \<notin> set memberProjectIds) then Inl ContextForbidden
             else
               case projectId' of
                 None \<Rightarrow> Inl ContextMissing
               | Some i \<Rightarrow>
                   if project_exists i
                   then Inr (i, if isPrivileged then None else handler_membership user directRows groupRows i)
                   else Inl ProjectNotFound)"

section \<open>The gate and the handler agree on the project\<close>

lemma unique_foldl: "foldl add_to_set seen xs = foldl (\<lambda>seen x. if x \<in> set seen then seen else seen @ [x]) seen xs"
  by (induction xs arbitrary: seen) (simp_all add: add_to_set_def)

lemma add_assignments:
  "foldl (\<lambda>acc row. add_assignment row acc) (projects, adm, rows) xs =
     (foldl add_to_set projects (filter (\<lambda>i. i \<noteq> []) (map row_projectId xs)),
      foldl add_to_set adm (map row_projectId (filter (\<lambda>r. row_projectId r \<noteq> [] \<and> row_role r = ProjectAdmin) xs)),
      rows @ filter (\<lambda>r. row_projectId r \<noteq> []) xs)"
  by (induction xs arbitrary: projects adm rows) (simp_all add: add_assignment_def)

text \<open>What a load finds out about the projects of somebody who is not an owner or administrator.\<close>

lemma loadProjects_member:
  assumes "\<not> owner_or_admin (user_role user)"
  shows "pd_projects (loadProjects user ids direct groupLists) = handler_projects user direct (concat groupLists)"
    "pd_userProjects (loadProjects user ids direct groupLists) = filter (\<lambda>r. row_projectId r \<noteq> []) direct"
    "pd_groupProjects (loadProjects user ids direct groupLists) = filter (\<lambda>r. row_projectId r \<noteq> []) (concat groupLists)"
  using assms
  by (simp_all add: loadProjects_def Let_def add_assignments split_beta handler_projects_def unique_def flip: unique_foldl)

lemma unique_set [simp]: "set (unique xs) = set xs"
proof -
  have "set (foldl (\<lambda>seen x. if x \<in> set seen then seen else seen @ [x]) seen xs) = set seen \<union> set xs" for seen
    by (induction xs arbitrary: seen) auto
  then show ?thesis by (simp add: unique_def)
qed

lemma handler_projects_rows: "handler_projects user direct (filter (\<lambda>r. row_projectId r \<noteq> []) rows) = handler_projects user direct rows"
  by (simp add: handler_projects_def filter_map comp_def)

lemma member_has_membership:
  assumes "i \<in> set (handler_projects user direct rows)"
  shows "\<exists>m. resolveProjectMembership i role (projectIds user) (filter (\<lambda>r. row_projectId r \<noteq> []) direct)
           (filter (\<lambda>r. row_projectId r \<noteq> []) rows) since = Some m"
proof -
  have i: "i \<noteq> []" "i \<in> set (nullish (projectIds user) []) \<or> i \<in> row_projectId ` set direct \<or> i \<in> row_projectId ` set rows"
    using assms by (auto simp: handler_projects_def)
  have direct: "find (\<lambda>row. row_projectId row = i) (filter (\<lambda>r. row_projectId r \<noteq> []) direct) \<noteq> None"
    if "i \<in> row_projectId ` set direct"
    using that i(1) by (auto simp: find_None_iff)
  have "membership_sources i role (projectIds user) (filter (\<lambda>r. row_projectId r \<noteq> []) direct) (filter (\<lambda>r. row_projectId r \<noteq> []) rows) since \<noteq> []"
    using i direct by (auto simp: membership_sources_def filter_empty_conv split: option.splits)
  then show ?thesis by (simp add: resolveProjectMembership_def Let_def)
qed

text \<open>
  The project whose settings narrow a member's request is the project the handler runs in. With the assignments as they
  are stored, whenever the handler accepts the request the gate resolves a membership, and it is one in the handler's
  project: the requested one if the member may open it, else the default one, else the first. A forged cookie cannot make
  the two differ.
\<close>

theorem handler_runs_in_the_narrowing_project:
  assumes "\<not> owner_or_admin (user_role user)" "nar_role input = nullish (user_role user) []" "nar_user input = user"
    and "\<forall>g \<in> set (nar_groupGrants input). \<not> owner_or_admin (grant_role g)" "\<not> nar_exactProject input"
    and "projects = loadProjects user [] direct groupLists" "ctx_projects ctx = Some (pd_projects projects)"
    and "ctx_userProjects ctx = Some (pd_userProjects projects)" "ctx_groupProjects ctx = Some (pd_groupProjects projects)"
    and "resolveProjectContext (Some user) default_id (nar_requestedProjectId input) direct (pd_groupProjects projects) exists_p = Inr (i, up)"
  shows "\<exists>m. resolveNarrowingMembership input (Answers ctx) (Answers default_id) (Answers since) = Answers (Some (i, m))"
proof -
  let ?ids = "handler_projects user direct (concat groupLists)" and ?req = "given_id (nar_requestedProjectId input)"
  have role: "\<not> owner_or_admin (Some (nar_role input))" using assms(1,2) by (cases "user_role user") auto
  note loaded = loadProjects_member [OF assms(1), of "[]" direct groupLists, folded assms(6)]
  have i: "?ids \<noteq> []" "i \<in> set ?ids"
    "pickActiveProjectId ?req (if ?req \<noteq> None then None else default_id) ?ids = Some i"
    using assms(10) assms(1)
    by (auto simp: resolveProjectContext_def loaded handler_projects_rows pickActiveProjectId_def given_id_def Let_def
        split: if_splits option.splits list.splits)
  have ctx: "ctx_projects ctx = Some ?ids" "ctx_userProjects ctx = Some (filter (\<lambda>r. row_projectId r \<noteq> []) direct)"
    "ctx_groupProjects ctx = Some (filter (\<lambda>r. row_projectId r \<noteq> []) (concat groupLists))"
    using assms(7-9) by (simp_all add: loaded)
  obtain m where "resolveProjectMembership i (nar_role input) (projectIds user) (filter (\<lambda>r. row_projectId r \<noteq> []) direct)
      (filter (\<lambda>r. row_projectId r \<noteq> []) (concat groupLists)) since = Some m"
    using member_has_membership [OF i(2)] by blast
  then have "resolveNarrowingMembership input (Answers ctx) (Answers default_id) (Answers since) = Answers (Some (i, m))"
    using role assms(4,5) i by (cases ?req) (simp_all add: resolveNarrowingMembership_def ctx assms(3))
  then show ?thesis by blast
qed

definition member_user :: principal_user where
  "member_user = \<lparr>user_role = Some ''user'', user_permissions = PermNullish, projectIds = None\<rparr>"

definition member_row :: "string \<Rightarrow> ProjectAssignmentRow" where
  "member_row i = \<lparr>row_projectId = i, row_role = Member, row_permissions = PermNullish, row_updatedAt = None, row_groupId = None\<rparr>"

definition member_request :: "string option \<Rightarrow> NarrowingInput" where
  "member_request requested =
     \<lparr>nar_role = ''user'', nar_user = member_user, nar_groupGrants = [], nar_requestedProjectId = requested, nar_exactProject = False\<rparr>"

definition member_context :: "ProjectAssignmentRow list \<Rightarrow> PrincipalContext" where
  "member_context rows =
     \<lparr>ctx_tenantDbName = ''t'', ctx_userId = ''u'', ctx_user = member_user, ctx_groupIds = [], ctx_groupGrants = [],
      ctx_projects = Some (pd_projects (loadProjects member_user [] rows [])),
      ctx_adminProjects = Some (pd_adminProjects (loadProjects member_user [] rows [])),
      ctx_userProjects = Some (pd_userProjects (loadProjects member_user [] rows [])),
      ctx_groupProjects = Some (pd_groupProjects (loadProjects member_user [] rows [])), ctx_loadedAt = 0\<rparr>"

theorem handler_runs_in_the_narrowing_project_witness:
  "\<exists>m. resolveNarrowingMembership (member_request (Some ''forged'')) (Answers (member_context [member_row ''a'']))
         (Answers (Some ''default'')) (Answers 0) = Answers (Some (''a'', m))"
proof (rule handler_runs_in_the_narrowing_project)
  show "resolveProjectContext (Some member_user) (Some ''default'') (nar_requestedProjectId (member_request (Some ''forged'')))
      [member_row ''a''] (pd_groupProjects (loadProjects member_user [] [member_row ''a''] [])) (\<lambda>_. True) =
    Inr (''a'', Some \<lparr>proj_role = Member, proj_permissions = PermNullish\<rparr>)"
    by code_simp
qed (simp_all add: member_request_def member_context_def member_user_def)

text \<open>
  The gate remembers for a minute that a workspace has no default project. When the handler creates it in that time, a
  member of it who names no project is narrowed by the settings of another project than the one the handler runs in.
\<close>

theorem stale_default_project_narrows_elsewhere:
  "let rows = [member_row ''first'', member_row ''default''];
       cached = snd (lookupDefaultProjectId ''t'' (Answers None) 0 []);
       answer = fst (lookupDefaultProjectId ''t'' (Answers (Some ''default'')) 1000 cached)
   in map_query (map_option fst) (resolveNarrowingMembership (member_request None) (Answers (member_context rows)) answer (Answers 0)) =
        Answers (Some ''first'') \<and>
      map_sum id fst (resolveProjectContext (Some member_user) (Some ''default'') None rows [] (\<lambda>_. True)) = Inr ''default''"
  by code_simp

end
