(* ===== verification/TokenPolicy.thy ===== *)
theory TokenPolicy
  imports IpAllowlist
begin

text \<open>
  The rules a workspace sets for its API tokens.

  \<^item> \<^verbatim>\<open>src/lib/iam/settings.ts\<close>, the whole module: the stored settings with their cache, the validation of a change, and
    \<^verbatim>\<open>checkTokenExpiry\<close>.
  \<^item> \<^verbatim>\<open>src/lib/services/apiTokens/tokenPolicy.ts\<close>, the whole module: reading an expiry from a request, preparing a new token
    and an edit of a token, and what a token list shows.

  Instants are milliseconds. A \<^verbatim>\<open>Date\<close> is a number or, when it is invalid, \<^const>\<open>NaN\<close>; a date too far out is
  invalid. How the \<^verbatim>\<open>Date\<close> constructor reads a text is an argument of the functions that use it, and every theorem holds
  for each such reading. The texts of messages are left out; a refusal is a constructor with its details.
\<close>

section \<open>Values of a request\<close>

datatype json =
    JUndefined
  | JNull
  | JBool bool
  | JNumber js_float
  | JText string
  | JArray "json list"
  | JObject "(string, json) jsmap"

text \<open>\<^verbatim>\<open>Number.isInteger\<close> on a value that may be anything.\<close>

fun json_integer :: "json \<Rightarrow> int option" where
  "json_integer (JNumber (Finite x)) = (if of_int \<lfloor>x\<rfloor> = x then Some \<lfloor>x\<rfloor> else None)"
| "json_integer _ = None"

fun object_field :: "json \<Rightarrow> string \<Rightarrow> json" where
  "object_field (JObject entries) k = nullish (map_get entries k) JUndefined"
| "object_field _ k = JUndefined"

text \<open>The largest instant a \<^verbatim>\<open>Date\<close> can hold.\<close>

definition max_date :: jsnum where
  "max_date = 8640000000000000"

definition make_date :: "jsnum \<Rightarrow> js_float" where
  "make_date t = (if \<bar>t\<bar> \<le> max_date then Finite t else NaN)"

section \<open>Settings\<close>

definition MAX_TOKEN_LIFETIME_DAYS :: int where
  "MAX_TOKEN_LIFETIME_DAYS = 3650"

definition DAY_MS :: jsnum where
  "DAY_MS = 24 * 60 * 60 * 1000"

definition settings_ttl :: jsnum where
  "settings_ttl = 10000"

definition settings_max_tenants :: nat where
  "settings_max_tenants = 2000"

record IamTokenSettings =
  maxLifetimeDays :: "int option"
  requireExpiry :: bool

definition DEFAULT_IAM_SETTINGS :: IamTokenSettings where
  "DEFAULT_IAM_SETTINGS = \<lparr>maxLifetimeDays = None, requireExpiry = False\<rparr>"

definition valid_days :: "json \<Rightarrow> int option" where
  "valid_days v =
     (case json_integer v of
        Some n \<Rightarrow> if 1 \<le> n \<and> n \<le> MAX_TOKEN_LIFETIME_DAYS then Some n else None
      | None \<Rightarrow> None)"

definition sanitize :: "json \<Rightarrow> IamTokenSettings" where
  "sanitize data =
     (case object_field data ''tokens'' of
        JObject t \<Rightarrow>
          \<lparr>maxLifetimeDays = valid_days (object_field (JObject t) ''maxLifetimeDays''),
           requireExpiry = (object_field (JObject t) ''requireExpiry'' = JBool True)\<rparr>
      | _ \<Rightarrow> DEFAULT_IAM_SETTINGS)"

text \<open>A change of the settings: the fields it names, and the complaints about it.\<close>

record token_settings_patch =
  patch_days :: "int option option"
  patch_require :: "bool option"

datatype settings_issue =
  NotAnObjectBody | UnknownSetting string | TokensNotObject | UnknownTokenSetting string | BadLifetime | BadRequireExpiry

definition days_patch :: "(string, json) jsmap \<Rightarrow> settings_issue list \<times> int option option" where
  "days_patch t =
     (case map_get t ''maxLifetimeDays'' of
        None \<Rightarrow> ([], None)
      | Some JNull \<Rightarrow> ([], Some None)
      | Some v \<Rightarrow> (case valid_days v of Some n \<Rightarrow> ([], Some (Some n)) | None \<Rightarrow> ([BadLifetime], None)))"

definition require_patch :: "(string, json) jsmap \<Rightarrow> settings_issue list \<times> bool option" where
  "require_patch t =
     (case map_get t ''requireExpiry'' of
        None \<Rightarrow> ([], None)
      | Some (JBool b) \<Rightarrow> ([], Some b)
      | Some _ \<Rightarrow> ([BadRequireExpiry], None))"

definition parseIamSettingsPatch :: "json \<Rightarrow> settings_issue list + token_settings_patch option" where
  "parseIamSettingsPatch input =
     (case input of
        JObject body \<Rightarrow>
          (let unknown = map UnknownSetting (filter (\<lambda>k. k \<noteq> ''tokens'') (map fst body));
               (issues, patch) =
                 (case object_field input ''tokens'' of
                    JUndefined \<Rightarrow> (unknown, None)
                  | JObject t \<Rightarrow>
                      let named = map UnknownTokenSetting (filter (\<lambda>k. k \<noteq> ''maxLifetimeDays'' \<and> k \<noteq> ''requireExpiry'') (map fst t));
                          (days_issues, days) = days_patch t;
                          (require_issues, require) = require_patch t
                      in (unknown @ named @ days_issues @ require_issues, Some \<lparr>patch_days = days, patch_require = require\<rparr>)
                  | _ \<Rightarrow> (unknown @ [TokensNotObject], None))
           in if issues \<noteq> [] then Inl issues else Inr patch)
      | _ \<Rightarrow> Inl [NotAnObjectBody])"

section \<open>Reading and writing the settings\<close>

record settings_entry =
  se_value :: IamTokenSettings
  se_expiresAt :: jsnum

type_synonym settings_cache = "(string, settings_entry) jsmap"

definition remember_settings :: "nat \<Rightarrow> string \<Rightarrow> IamTokenSettings \<Rightarrow> jsnum \<Rightarrow> settings_cache \<Rightarrow> settings_cache" where
  "remember_settings max_tenants tenant v now cached =
     (let room = (if \<not> map_has cached tenant \<and> max_tenants \<le> length cached then tl cached else cached)
      in map_set room tenant \<lparr>se_value = v, se_expiresAt = now + settings_ttl\<rparr>)"

text \<open>The stored document of a tenant is \<^const>\<open>JUndefined\<close> when there is none.\<close>

definition getIamSettings ::
  "nat \<Rightarrow> string \<Rightarrow> (string \<Rightarrow> json) \<Rightarrow> jsnum \<Rightarrow> settings_cache \<Rightarrow> IamTokenSettings \<times> settings_cache" where
  "getIamSettings max_tenants tenant docs now cached =
     (let read = (let v = sanitize (docs tenant) in (v, remember_settings max_tenants tenant v now cached)) in
      case map_get cached tenant of
        Some hit \<Rightarrow> if se_expiresAt hit > now then (se_value hit, cached) else read
      | None \<Rightarrow> read)"

fun json_text :: "json \<Rightarrow> string option" where
  "json_text (JText s) = Some s"
| "json_text _ = None"

definition getIamSettingsRecord ::
  "nat \<Rightarrow> string \<Rightarrow> (string \<Rightarrow> json) \<Rightarrow> jsnum \<Rightarrow> settings_cache
     \<Rightarrow> (IamTokenSettings \<times> string option \<times> string option) \<times> settings_cache" where
  "getIamSettingsRecord max_tenants tenant docs now cached =
     (let v = sanitize (docs tenant) in
      ((v, json_text (object_field (docs tenant) ''updatedAt''), json_text (object_field (docs tenant) ''updatedBy'')),
       remember_settings max_tenants tenant v now cached))"

definition merged_settings :: "IamTokenSettings \<Rightarrow> token_settings_patch option \<Rightarrow> IamTokenSettings" where
  "merged_settings current patch =
     (case patch of
        None \<Rightarrow> current
      | Some p \<Rightarrow>
          \<lparr>maxLifetimeDays = nullish (patch_days p) (maxLifetimeDays current),
           requireExpiry = nullish (patch_require p) (requireExpiry current)\<rparr>)"

definition settings_document :: "IamTokenSettings \<Rightarrow> string \<Rightarrow> string \<Rightarrow> json" where
  "settings_document s updatedAt actor =
     JObject
       [(''tokens'', JObject
           [(''maxLifetimeDays'', case maxLifetimeDays s of None \<Rightarrow> JNull | Some n \<Rightarrow> JNumber (Finite (of_int n))),
            (''requireExpiry'', JBool (requireExpiry s))]),
        (''updatedAt'', JText updatedAt), (''updatedBy'', JText actor)]"

definition updateIamSettings ::
  "nat \<Rightarrow> string \<Rightarrow> json \<Rightarrow> string \<Rightarrow> string \<Rightarrow> jsnum \<Rightarrow> (string \<Rightarrow> json) \<times> settings_cache
     \<Rightarrow> settings_issue list + IamTokenSettings \<times> (string \<Rightarrow> json) \<times> settings_cache" where
  "updateIamSettings max_tenants tenant patch actor updatedAt now w =
     (case parseIamSettingsPatch patch of
        Inl issues \<Rightarrow> Inl issues
      | Inr validated \<Rightarrow>
          let (docs, cached) = w;
              merged = merged_settings (sanitize (docs tenant)) validated
          in Inr (merged, docs(tenant := settings_document merged updatedAt actor),
                  remember_settings max_tenants tenant merged now cached))"

section \<open>The rule\<close>

datatype TokenExpiryViolation = expiry_required | exceeds_max_lifetime

datatype TokenExpiryCheck = ExpiryOk | ExpiryViolates TokenExpiryViolation "js_float option"

definition checkTokenExpiry :: "IamTokenSettings \<Rightarrow> js_float option \<Rightarrow> js_float \<Rightarrow> TokenExpiryCheck" where
  "checkTokenExpiry settings expiresAt createdAt =
     (let maxExpiresAt =
        (case (maxLifetimeDays settings, createdAt) of
           (Some n, Finite created) \<Rightarrow> Some (make_date (created + of_int n * DAY_MS))
         | _ \<Rightarrow> None)
      in case expiresAt of
           Some (Finite expires) \<Rightarrow>
             (case maxExpiresAt of
                Some (Finite latest) \<Rightarrow> if expires > latest then ExpiryViolates exceeds_max_lifetime maxExpiresAt else ExpiryOk
              | _ \<Rightarrow> ExpiryOk)
         | _ \<Rightarrow>
             if requireExpiry settings \<or> maxLifetimeDays settings \<noteq> None then ExpiryViolates expiry_required maxExpiresAt
             else ExpiryOk)"

section \<open>The policy of a request\<close>

definition MS_PER_DAY :: jsnum where
  "MS_PER_DAY = 86400000"

definition MAX_EXPIRES_IN_DAYS :: int where
  "MAX_EXPIRES_IN_DAYS = 36500"

definition MIN_TOKEN_LABEL_LENGTH :: nat where
  "MIN_TOKEN_LABEL_LENGTH = 3"

definition NO_TOKEN_POLICY :: IamTokenSettings where
  "NO_TOKEN_POLICY = \<lparr>maxLifetimeDays = None, requireExpiry = False\<rparr>"

definition expiryRequired :: "IamTokenSettings \<Rightarrow> bool" where
  "expiryRequired policy \<longleftrightarrow> requireExpiry policy \<or> maxLifetimeDays policy \<noteq> None"

datatype TokenRequestError =
    TokenExpiryRequired "int option" "js_float option"
  | TokenExpiryTooLong "int option" "js_float option"
  | TokenExpiryInvalid string
  | InvalidIpRanges string "IpRangeIssueDetail list"
  | InvalidRequireUserToken
  | InvalidLabel
  | PolicyUnavailable

fun error_status :: "TokenRequestError \<Rightarrow> nat" where
  "error_status PolicyUnavailable = 503"
| "error_status _ = 400"

text \<open>A stored date, null or missing or a date that may be invalid.\<close>

fun toDate :: "js_float option \<Rightarrow> jsnum option" where
  "toDate (Some (Finite t)) = Some t"
| "toDate _ = None"

definition checkExpiryAgainstPolicy :: "IamTokenSettings \<Rightarrow> js_float option \<Rightarrow> js_float \<Rightarrow> TokenRequestError option" where
  "checkExpiryAgainstPolicy policy expiresAt createdAt =
     (case checkTokenExpiry policy expiresAt createdAt of
        ExpiryOk \<Rightarrow> None
      | ExpiryViolates expiry_required latest \<Rightarrow> Some (TokenExpiryRequired (maxLifetimeDays policy) latest)
      | ExpiryViolates exceeds_max_lifetime latest \<Rightarrow> Some (TokenExpiryTooLong (maxLifetimeDays policy) latest))"

record api_token =
  tok_label :: string
  tok_createdAt :: "js_float option"
  tok_expiresAt :: "js_float option"
  tok_allowedIpRanges :: stored_ranges
  tok_requireUserToken :: bool

definition tokenExceedsPolicy :: "api_token \<Rightarrow> IamTokenSettings \<Rightarrow> jsnum \<Rightarrow> bool" where
  "tokenExceedsPolicy token policy now =
     (case toDate (tok_expiresAt token) of
        Some expires \<Rightarrow>
          if expires \<le> now then False
          else checkExpiryAgainstPolicy policy (Some (Finite expires)) (Finite (nullish (toDate (tok_createdAt token)) now)) \<noteq> None
      | None \<Rightarrow> checkExpiryAgainstPolicy policy None (Finite (nullish (toDate (tok_createdAt token)) now)) \<noteq> None)"

section \<open>Reading an expiry\<close>

text \<open>\<^verbatim>\<open>/^\d{4}-\d{2}-\d{2}(?:$|[T\s])/\<close>\<close>

definition ISO_DATE_RE :: "string \<Rightarrow> bool" where
  "ISO_DATE_RE s \<longleftrightarrow>
     10 \<le> length s \<and> list_all is_digit (take 4 s) \<and> s ! 4 = CHR ''-'' \<and> list_all is_digit (take 2 (drop 5 s)) \<and>
     s ! 7 = CHR ''-'' \<and> list_all is_digit (take 2 (drop 8 s)) \<and>
     (length s = 10 \<or> s ! 10 = CHR ''T'' \<or> is_space (s ! 10))"

record TokenRestrictionBody =
  body_expiresAt :: json
  body_expiresInDays :: json
  body_allowedIpRanges :: "submitted option"
  body_requireUserToken :: json
  body_label :: json

datatype ParsedExpiry = NotProvided | Provided "js_float option"

text \<open>A date as the value of an expiry: a date that is not after now is refused; comparing an invalid one is false.\<close>

definition future_expiry :: "jsnum \<Rightarrow> js_float option \<Rightarrow> TokenRequestError + ParsedExpiry" where
  "future_expiry now v =
     (case v of
        Some (Finite t) \<Rightarrow>
          if t \<le> now then Inl (TokenExpiryInvalid ''The expiry must be in the future'') else Inr (Provided v)
      | _ \<Rightarrow> Inr (Provided v))"

definition parseExpiryInput :: "(string \<Rightarrow> js_float) \<Rightarrow> TokenRestrictionBody \<Rightarrow> jsnum \<Rightarrow> TokenRequestError + ParsedExpiry" where
  "parseExpiryInput parse_date input now =
     (let given = body_expiresAt input; days = body_expiresInDays input in
      if given = JUndefined \<and> days = JUndefined then Inr NotProvided
      else if given \<noteq> JUndefined \<and> days \<noteq> JUndefined \<and> given \<noteq> JNull \<and> days \<noteq> JNull
      then Inl (TokenExpiryInvalid ''Send either expiresAt or expiresInDays, not both'')
      else if given \<noteq> JUndefined \<and> given \<noteq> JNull then
        (case given of
           JText raw \<Rightarrow>
             if \<not> ISO_DATE_RE (js_trim raw)
             then Inl (TokenExpiryInvalid ''expiresAt must be an ISO 8601 date-time string or null'')
             else
               (case parse_date (js_trim raw) of
                  Finite t \<Rightarrow> future_expiry now (Some (Finite t))
                | _ \<Rightarrow> Inl (TokenExpiryInvalid ''expiresAt is not a valid date''))
         | _ \<Rightarrow> Inl (TokenExpiryInvalid ''expiresAt must be an ISO 8601 date-time string or null''))
      else if days \<noteq> JUndefined \<and> days \<noteq> JNull then
        (case json_integer days of
           Some n \<Rightarrow>
             if n < 1 \<or> n > MAX_EXPIRES_IN_DAYS
             then Inl (TokenExpiryInvalid ''expiresInDays must be a whole number between 1 and 36500'')
             else future_expiry now (Some (make_date (now + of_int n * MS_PER_DAY)))
         | None \<Rightarrow> Inl (TokenExpiryInvalid ''expiresInDays must be a whole number between 1 and 36500''))
      else future_expiry now None)"

section \<open>Loading the policy\<close>

text \<open>What reading the settings gives: it fails, it is not usable settings, or it is a policy.\<close>

datatype policy_reader = ReaderFails | ReaderMalformed | ReaderPolicy IamTokenSettings

fun loadTokenPolicy :: "policy_reader \<Rightarrow> IamTokenSettings option" where
  "loadTokenPolicy (ReaderPolicy p) = Some p"
| "loadTokenPolicy _ = None"

definition loadTokenPolicyForDisplay :: "policy_reader \<Rightarrow> IamTokenSettings" where
  "loadTokenPolicyForDisplay reader = nullish (loadTokenPolicy reader) NO_TOKEN_POLICY"

section \<open>Preparing a token\<close>

fun parseRequireUserToken :: "json \<Rightarrow> TokenRequestError + bool option" where
  "parseRequireUserToken JUndefined = Inr None"
| "parseRequireUserToken (JBool b) = Inr (Some b)"
| "parseRequireUserToken _ = Inl InvalidRequireUserToken"

record PreparedTokenCreate =
  new_expiresAt :: "js_float option"
  new_allowedIpRanges :: "string list option"
  new_requireUserToken :: bool
  new_policy :: IamTokenSettings

definition prepareTokenCreate ::
  "(string \<Rightarrow> js_float) \<Rightarrow> TokenRestrictionBody \<Rightarrow> policy_reader \<Rightarrow> jsnum \<Rightarrow> TokenRequestError + PreparedTokenCreate" where
  "prepareTokenCreate parse_date body reader now =
     (case parseExpiryInput parse_date body now of
        Inl e \<Rightarrow> Inl e
      | Inr expiry \<Rightarrow>
          (case validateAllowedIpRanges (nullish (body_allowedIpRanges body) SubmittedNullish) of
             RangesBad msg issues \<Rightarrow> Inl (InvalidIpRanges msg issues)
           | RangesOk ranges \<Rightarrow>
               (case parseRequireUserToken (body_requireUserToken body) of
                  Inl e \<Rightarrow> Inl e
                | Inr requireUserToken \<Rightarrow>
                    (case loadTokenPolicy reader of
                       None \<Rightarrow> Inl PolicyUnavailable
                     | Some policy \<Rightarrow>
                         let expiresAt = (case expiry of Provided v \<Rightarrow> v | NotProvided \<Rightarrow> None) in
                         (case checkExpiryAgainstPolicy policy expiresAt (Finite now) of
                            Some violation \<Rightarrow> Inl violation
                          | None \<Rightarrow>
                              Inr \<lparr>new_expiresAt = expiresAt, new_allowedIpRanges = ranges,
                                   new_requireUserToken = (requireUserToken = Some True), new_policy = policy\<rparr>)))))"

record TokenPatch =
  patch_label :: "string option"
  patch_expiresAt :: "js_float option option"
  patch_allowedIpRanges :: "string list option option"
  patch_requireUserToken :: "bool option"

definition label_patch :: "json \<Rightarrow> TokenRequestError + string option" where
  "label_patch v =
     (if v = JUndefined then Inr None
      else
        let label = (case v of JText s \<Rightarrow> js_trim s | _ \<Rightarrow> []) in
        if length label < MIN_TOKEN_LABEL_LENGTH then Inl InvalidLabel else Inr (Some label))"

definition ranges_patch :: "submitted option \<Rightarrow> TokenRequestError + string list option option" where
  "ranges_patch v =
     (case v of
        None \<Rightarrow> Inr None
      | Some given \<Rightarrow>
          (case validateAllowedIpRanges given of
             RangesBad msg issues \<Rightarrow> Inl (InvalidIpRanges msg issues)
           | RangesOk ranges \<Rightarrow> Inr (Some ranges)))"

text \<open>
  The expiry of an edit: nothing when it stays as it is, and the policy is only asked when it is extended. A date of
  a request that is invalid compares as a number would that is not one.
\<close>

definition same_expiry :: "js_float option \<Rightarrow> jsnum option \<Rightarrow> bool" where
  "same_expiry next current =
     (case (next, current) of
        (None, None) \<Rightarrow> True
      | (Some (Finite t), Some c) \<Rightarrow> t = c
      | _ \<Rightarrow> False)"

definition extends_expiry :: "js_float option \<Rightarrow> jsnum option \<Rightarrow> bool" where
  "extends_expiry next current =
     (case (next, current) of
        (None, _) \<Rightarrow> True
      | (Some (Finite t), Some c) \<Rightarrow> t > c
      | _ \<Rightarrow> False)"

definition expiry_patch ::
  "js_float option \<Rightarrow> api_token \<Rightarrow> policy_reader \<Rightarrow> jsnum \<Rightarrow> TokenRequestError + js_float option option \<times> IamTokenSettings option" where
  "expiry_patch next token reader now =
     (let current = toDate (tok_expiresAt token) in
      if same_expiry next current then Inr (None, None)
      else if extends_expiry next current then
        (case loadTokenPolicy reader of
           None \<Rightarrow> Inl PolicyUnavailable
         | Some policy \<Rightarrow>
             (case checkExpiryAgainstPolicy policy next (Finite (nullish (toDate (tok_createdAt token)) now)) of
                Some violation \<Rightarrow> Inl violation
              | None \<Rightarrow> Inr (Some next, Some policy)))
      else Inr (Some next, None))"

definition prepareTokenUpdate ::
  "(string \<Rightarrow> js_float) \<Rightarrow> TokenRestrictionBody \<Rightarrow> api_token \<Rightarrow> policy_reader \<Rightarrow> jsnum
     \<Rightarrow> TokenRequestError + TokenPatch \<times> IamTokenSettings option" where
  "prepareTokenUpdate parse_date body token reader now =
     (case label_patch (body_label body) of
        Inl e \<Rightarrow> Inl e
      | Inr label \<Rightarrow>
          (case ranges_patch (body_allowedIpRanges body) of
             Inl e \<Rightarrow> Inl e
           | Inr ranges \<Rightarrow>
               (case parseRequireUserToken (body_requireUserToken body) of
                  Inl e \<Rightarrow> Inl e
                | Inr requireUserToken \<Rightarrow>
                    (case parseExpiryInput parse_date body now of
                       Inl e \<Rightarrow> Inl e
                     | Inr expiry \<Rightarrow>
                         (case (case expiry of NotProvided \<Rightarrow> Inr (None, None) | Provided next \<Rightarrow> expiry_patch next token reader now) of
                            Inl e \<Rightarrow> Inl e
                          | Inr (expires, policy) \<Rightarrow>
                              Inr (\<lparr>patch_label = label, patch_expiresAt = expires, patch_allowedIpRanges = ranges,
                                    patch_requireUserToken = requireUserToken\<rparr>, policy))))))"

text \<open>Storing a patch: only the fields it has change.\<close>

definition apply_patch :: "TokenPatch \<Rightarrow> api_token \<Rightarrow> api_token" where
  "apply_patch p token =
     token\<lparr>tok_label := nullish (patch_label p) (tok_label token),
           tok_expiresAt := nullish (patch_expiresAt p) (tok_expiresAt token),
           tok_allowedIpRanges := (case patch_allowedIpRanges p of None \<Rightarrow> tok_allowedIpRanges token | Some r \<Rightarrow> stored_of r),
           tok_requireUserToken := nullish (patch_requireUserToken p) (tok_requireUserToken token)\<rparr>"

section \<open>Showing a token\<close>

definition presentAllowedIpRanges :: "stored_ranges \<Rightarrow> string list option" where
  "presentAllowedIpRanges v =
     (case v of
        StoredArray items \<Rightarrow>
          let ranges = map the (filter (\<lambda>item. item \<noteq> None \<and> item \<noteq> Some []) items)
          in if ranges = [] then None else Some ranges
      | _ \<Rightarrow> None)"

text \<open>What the list shows of a token. Its fields that only repeat a column are left out.\<close>

record presented_token =
  pt_canEdit :: bool
  pt_canDelete :: bool
  pt_label :: string
  pt_expiresAt :: "jsnum option"
  pt_allowedIpRanges :: "string list option"
  pt_requireUserToken :: bool
  pt_ipRestricted :: bool
  pt_allowedIpRangeCount :: nat
  pt_exceedsTenantPolicy :: bool

definition presentApiToken :: "api_token \<Rightarrow> IamTokenSettings \<Rightarrow> jsnum \<Rightarrow> bool option \<Rightarrow> bool option \<Rightarrow> presented_token" where
  "presentApiToken token policy now canDelete canEdit =
     \<lparr>pt_canEdit = nullish canEdit False, pt_canDelete = nullish canDelete False, pt_label = tok_label token,
      pt_expiresAt = toDate (tok_expiresAt token),
      pt_allowedIpRanges = (if canEdit = Some True then presentAllowedIpRanges (tok_allowedIpRanges token) else None),
      pt_requireUserToken = tok_requireUserToken token,
      pt_ipRestricted = (0 < length (nullish (presentAllowedIpRanges (tok_allowedIpRanges token)) [])),
      pt_allowedIpRangeCount = length (nullish (presentAllowedIpRanges (tok_allowedIpRanges token)) []),
      pt_exceedsTenantPolicy = tokenExceedsPolicy token policy now\<rparr>"

section \<open>Settings are well-formed\<close>

definition valid_settings :: "IamTokenSettings \<Rightarrow> bool" where
  "valid_settings s = (case maxLifetimeDays s of None \<Rightarrow> True | Some n \<Rightarrow> 1 \<le> n \<and> n \<le> MAX_TOKEN_LIFETIME_DAYS)"

lemma valid_days_bounds: "valid_days v = Some n \<Longrightarrow> 1 \<le> n \<and> n \<le> MAX_TOKEN_LIFETIME_DAYS"
  by (auto simp: valid_days_def split: option.splits if_splits)

lemma sanitize_valid: "valid_settings (sanitize data)"
  using valid_days_bounds by (auto simp: sanitize_def valid_settings_def DEFAULT_IAM_SETTINGS_def split: json.splits option.splits)

lemma days_patch_valid: "days_patch t = (issues, Some (Some n)) \<Longrightarrow> \<exists>v. valid_days v = Some n"
  by (cases "map_get t ''maxLifetimeDays''")
    (auto simp: days_patch_def split: json.splits option.splits)

lemma patch_valid:
  assumes "parseIamSettingsPatch input = Inr (Some p)" "patch_days p = Some (Some n)"
  shows "1 \<le> n \<and> n \<le> MAX_TOKEN_LIFETIME_DAYS"
proof -
  have "\<exists>t issues. days_patch t = (issues, Some (Some n))"
    using assms by (auto simp: parseIamSettingsPatch_def Let_def split: json.splits prod.splits if_splits) (intro exI, assumption)
  then show ?thesis using days_patch_valid valid_days_bounds by blast
qed

lemma merged_valid:
  assumes "valid_settings current" "parseIamSettingsPatch input = Inr patch"
  shows "valid_settings (merged_settings current patch)"
proof (cases patch)
  case (Some p)
  then show ?thesis
    using assms patch_valid [of input p]
    by (cases "patch_days p") (auto simp: merged_settings_def valid_settings_def split: option.splits)
qed (simp add: merged_settings_def assms(1))

definition cache_valid :: "settings_cache \<Rightarrow> bool" where
  "cache_valid cached \<longleftrightarrow> (\<forall>entry \<in> snd ` set cached. valid_settings (se_value entry))"

lemma remember_valid: "cache_valid cached \<Longrightarrow> valid_settings v \<Longrightarrow> cache_valid (remember_settings n tenant v now cached)"
proof -
  assume "cache_valid cached" "valid_settings v"
  moreover have "set (map_set room k x) \<subseteq> insert (k, x) (set room)" for room :: settings_cache and k x by (rule set_map_set)
  moreover have "set (tl cached) \<subseteq> set cached" by (cases cached) auto
  ultimately show ?thesis
    by (fastforce simp: cache_valid_def remember_settings_def Let_def)
qed

lemma get_settings_cases:
  "getIamSettings n tenant docs now cached = (v, cached') \<Longrightarrow>
   (\<exists>hit. map_get cached tenant = Some hit \<and> v = se_value hit \<and> now < se_expiresAt hit \<and> cached' = cached) \<or>
   (v = sanitize (docs tenant) \<and> cached' = remember_settings n tenant v now cached)"
  by (auto simp: getIamSettings_def Let_def split: option.splits if_splits)

text \<open>The steps that touch the settings of a process.\<close>

inductive settings_step :: "(string \<Rightarrow> json) \<times> settings_cache \<Rightarrow> (string \<Rightarrow> json) \<times> settings_cache \<Rightarrow> bool" where
  reads: "settings_step (docs, cached) (docs, snd (getIamSettings n tenant docs now cached))"
| reads_record: "settings_step (docs, cached) (docs, snd (getIamSettingsRecord n tenant docs now cached))"
| updates: "updateIamSettings n tenant patch actor stamp now (docs, cached) = Inr (s, docs', cached') \<Longrightarrow>
            settings_step (docs, cached) (docs', cached')"
| elsewhere: "settings_step (docs, cached) (docs(tenant := doc), cached)"

lemma settings_step_valid: "settings_step w w' \<Longrightarrow> cache_valid (snd w) \<Longrightarrow> cache_valid (snd w')"
proof (induction rule: settings_step.induct)
  case (reads docs cached n tenant now)
  then show ?case
    using get_settings_cases [of n tenant docs now cached] remember_valid [OF _ sanitize_valid]
    by (cases "getIamSettings n tenant docs now cached") auto
next
  case (updates n tenant patch actor stamp now docs cached s docs' cached')
  then show ?case
    using merged_valid [OF sanitize_valid] remember_valid by (auto simp: updateIamSettings_def Let_def split: sum.splits)
qed (auto simp: getIamSettingsRecord_def Let_def intro: remember_valid sanitize_valid)

text \<open>
  C28: Whatever document is stored, also one that another version or a person wrote by hand, the settings a process hands out
  are of their type: the maximum lifetime is missing or a whole number of days from one to ten years. That holds in every
  state the process can reach from an empty cache.
\<close>

theorem settings_are_always_typed:
  assumes "settings_step\<^sup>*\<^sup>* (initial, []) (docs, cached)"
  shows "valid_settings (fst (getIamSettings n tenant docs now cached))"
proof -
  have "cache_valid (snd w)" if "settings_step\<^sup>*\<^sup>* (initial, []) w" for w
    using that by (induction rule: rtranclp_induct) (auto simp: settings_step_valid, simp add: cache_valid_def)
  from this [OF assms] have valid: "cache_valid cached" by simp
  obtain v cached' where get: "getIamSettings n tenant docs now cached = (v, cached')" by fastforce
  from get_settings_cases [OF get] show ?thesis
    using valid sanitize_valid get map_of_SomeD by (fastforce simp: cache_valid_def)
qed

theorem settings_are_always_typed_witness:
  "valid_settings (fst (getIamSettings 1 ''t''
     (\<lambda>_. JObject [(''tokens'', JObject [(''maxLifetimeDays'', JNumber (Finite 100000))])]) 0 []))"
  by (rule settings_are_always_typed [OF rtranclp.rtrancl_refl])

text \<open>What is written is read back.\<close>

lemma sanitize_document:
  "valid_settings s \<Longrightarrow> sanitize (settings_document s stamp actor) = s"
  by (cases "maxLifetimeDays s")
    (auto simp: sanitize_def settings_document_def valid_settings_def valid_days_def)

text \<open>
  A change of the settings is in force as soon as it returns, and stays: from then on the process answers the merged
  settings at every instant, from its cache or from the stored document, until the settings are written again.
\<close>

theorem saved_settings_read_back:
  assumes "updateIamSettings n tenant patch actor stamp now (docs, cached) = Inr (s, docs', cached')"
  shows "fst (getIamSettings n tenant docs' later cached') = s \<and>
         fst (getIamSettings n tenant docs' later' (snd (getIamSettings n tenant docs' later cached'))) = s \<and>
         s = merged_settings (sanitize (docs tenant)) (projr (parseIamSettingsPatch patch))"
proof -
  have s: "valid_settings s" "docs' = docs(tenant := settings_document s stamp actor)"
    "cached' = remember_settings n tenant s now cached" "s = merged_settings (sanitize (docs tenant)) (projr (parseIamSettingsPatch patch))"
    using assms merged_valid [OF sanitize_valid] by (auto simp: updateIamSettings_def Let_def split: sum.splits)
  have stored: "sanitize (docs' tenant) = s" using s(2) sanitize_document [OF s(1)] by simp
  have reads: "fst (getIamSettings n tenant docs' t c) = s" if "\<And>hit. map_get c tenant = Some hit \<Longrightarrow> se_value hit = s" for t c
    using that stored by (auto simp: getIamSettings_def Let_def split: option.splits)
  have "map_get cached' tenant = Some hit \<Longrightarrow> se_value hit = s" for hit
    by (auto simp: s(3) remember_settings_def Let_def)
  moreover have "map_get (snd (getIamSettings n tenant docs' later cached')) tenant = Some hit \<Longrightarrow> se_value hit = s" for hit
    using get_settings_cases [of n tenant docs' later cached'] calculation stored
    by (cases "getIamSettings n tenant docs' later cached'") (auto simp: remember_settings_def Let_def)
  ultimately show ?thesis using reads s(4) by blast
qed

theorem saved_settings_read_back_witness:
  "let patch = JObject [(''tokens'', JObject [(''maxLifetimeDays'', JNumber (Finite 30))])];
       w = updateIamSettings 1 ''t'' patch ''ann'' ''now'' 0 (\<lambda>_. JUndefined, [])
   in case w of
        Inr (s, docs, cached) \<Rightarrow> s = \<lparr>maxLifetimeDays = Some 30, requireExpiry = False\<rparr> \<and> fst (getIamSettings 1 ''t'' docs 99999 cached) = s
      | Inl _ \<Rightarrow> False"
proof -
  let ?patch = "JObject [(''tokens'', JObject [(''maxLifetimeDays'', JNumber (Finite 30))])]"
  have parsed: "parseIamSettingsPatch ?patch = Inr (Some \<lparr>patch_days = Some (Some 30), patch_require = None\<rparr>)"
    by (simp add: parseIamSettingsPatch_def days_patch_def require_patch_def valid_days_def MAX_TOKEN_LIFETIME_DAYS_def)
  obtain docs cached where w: "updateIamSettings 1 ''t'' ?patch ''ann'' ''now'' 0 (\<lambda>_. JUndefined, []) =
      Inr (\<lparr>maxLifetimeDays = Some 30, requireExpiry = False\<rparr>, docs, cached)"
    by (simp add: updateIamSettings_def parsed merged_settings_def sanitize_def DEFAULT_IAM_SETTINGS_def Let_def)
  show ?thesis unfolding Let_def w using saved_settings_read_back [OF w, of 99999] by simp
qed

section \<open>Tokens obey the policy\<close>

text \<open>What the policy asks of a token: how long it may live after its creation.\<close>

definition complies :: "IamTokenSettings \<Rightarrow> jsnum \<Rightarrow> jsnum option \<Rightarrow> bool" where
  "complies policy created expires =
     (case expires of
        None \<Rightarrow> \<not> expiryRequired policy
      | Some t \<Rightarrow> (case maxLifetimeDays policy of None \<Rightarrow> True | Some n \<Rightarrow> t \<le> created + of_int n * MS_PER_DAY))"

text \<open>An instant that leaves room for every date the rules compute from it.\<close>

definition in_clock_range :: "jsnum \<Rightarrow> bool" where
  "in_clock_range t \<longleftrightarrow> 0 \<le> t \<and> t + of_int MAX_EXPIRES_IN_DAYS * MS_PER_DAY \<le> max_date"

lemma later_date:
  assumes "in_clock_range t" "0 \<le> n" "n \<le> MAX_EXPIRES_IN_DAYS"
  shows "make_date (t + of_int n * MS_PER_DAY) = Finite (t + of_int n * MS_PER_DAY)"
proof -
  have pos: "0 \<le> of_int n * MS_PER_DAY" using assms(2) by (simp add: MS_PER_DAY_def)
  have "of_int n * MS_PER_DAY \<le> of_int MAX_EXPIRES_IN_DAYS * MS_PER_DAY"
    using assms(3) by (intro mult_right_mono) (simp_all add: MS_PER_DAY_def)
  then have "t + of_int n * MS_PER_DAY \<le> max_date" using assms(1) unfolding in_clock_range_def by linarith
  moreover have "0 \<le> t + of_int n * MS_PER_DAY" using assms(1) pos unfolding in_clock_range_def by linarith
  ultimately show ?thesis by (simp add: make_date_def)
qed

lemma check_complies:
  assumes "valid_settings policy" "in_clock_range created"
  shows "checkExpiryAgainstPolicy policy (map_option Finite expires) (Finite created) = None \<longleftrightarrow> complies policy created expires"
proof -
  have latest: "make_date (created + of_int n * DAY_MS) = Finite (created + of_int n * MS_PER_DAY)" if "maxLifetimeDays policy = Some n" for n
    using that assms later_date [of created n]
    by (simp add: valid_settings_def MAX_TOKEN_LIFETIME_DAYS_def MAX_EXPIRES_IN_DAYS_def DAY_MS_def MS_PER_DAY_def)
  show ?thesis
    by (cases expires; cases "maxLifetimeDays policy")
      (auto simp: checkExpiryAgainstPolicy_def checkTokenExpiry_def complies_def expiryRequired_def latest Let_def not_less)
qed

lemma parsed_expiry_future:
  assumes "parseExpiryInput parse_date body now = Inr (Provided v)" "in_clock_range now"
  shows "\<exists>expires. v = map_option Finite expires \<and> (\<forall>t. expires = Some t \<longrightarrow> now < t)"
proof -
  have future: "future_expiry now (Some (Finite t)) = Inr (Provided v) \<Longrightarrow> v = map_option Finite (Some t) \<and> now < t" for t
    by (auto simp: future_expiry_def split: if_splits)
  have none: "future_expiry now None = Inr (Provided v) \<Longrightarrow> v = map_option Finite None" by (simp add: future_expiry_def)
  have days: "make_date (now + of_int n * MS_PER_DAY) = Finite (now + of_int n * MS_PER_DAY)"
    if "\<not> (n < 1 \<or> n > MAX_EXPIRES_IN_DAYS)" for n
    using that later_date [OF assms(2), of n] by simp
  have "(\<exists>t. future_expiry now (Some (Finite t)) = Inr (Provided v)) \<or> future_expiry now None = Inr (Provided v)"
    using assms(1) days unfolding parseExpiryInput_def Let_def
    by (simp split: if_splits json.splits option.splits js_float.splits) (metis)+
  then show ?thesis using future none by blast
qed

text \<open>
  A token is only minted in accordance with the policy of the workspace: its expiry lies in the future and, counted from
  this moment, within the maximum lifetime; it has one if the policy asks for one; and its address ranges are valid ones. When
  the policy cannot be read no token is minted at all.
\<close>

theorem minted_token_obeys_policy:
  assumes "prepareTokenCreate parse_date body reader now = Inr prepared" "in_clock_range now"
    and "\<And>p. reader = ReaderPolicy p \<Longrightarrow> valid_settings p"
  shows "\<exists>expires. new_expiresAt prepared = map_option Finite expires \<and> reader = ReaderPolicy (new_policy prepared) \<and>
           complies (new_policy prepared) now expires \<and> (\<forall>t. expires = Some t \<longrightarrow> now < t) \<and>
           validateAllowedIpRanges (nullish (body_allowedIpRanges body) SubmittedNullish) = RangesOk (new_allowedIpRanges prepared)"
proof -
  obtain expiry policy where ok: "parseExpiryInput parse_date body now = Inr expiry" "loadTokenPolicy reader = Some policy"
    "checkExpiryAgainstPolicy policy (case expiry of Provided v \<Rightarrow> v | NotProvided \<Rightarrow> None) (Finite now) = None"
    "new_expiresAt prepared = (case expiry of Provided v \<Rightarrow> v | NotProvided \<Rightarrow> None)" "new_policy prepared = policy"
    "validateAllowedIpRanges (nullish (body_allowedIpRanges body) SubmittedNullish) = RangesOk (new_allowedIpRanges prepared)"
    using assms(1) unfolding prepareTokenCreate_def Let_def
    by (auto split: sum.splits AllowedIpRangesResult.splits option.splits)
  have reader: "reader = ReaderPolicy policy" using ok(2) by (cases reader) auto
  obtain expires where expires: "new_expiresAt prepared = map_option Finite expires" "\<forall>t. expires = Some t \<longrightarrow> now < t"
  proof (cases expiry)
    case NotProvided
    then show thesis using that [of None] ok(4) by simp
  next
    case (Provided v)
    then have "parseExpiryInput parse_date body now = Inr (Provided v)" "new_expiresAt prepared = v" using ok(1,4) by simp_all
    then show thesis using that parsed_expiry_future [OF _ assms(2)] by blast
  qed
  have "complies policy now expires"
    using check_complies [OF assms(3) [OF reader] assms(2), of expires] ok(3,4) expires(1) by simp
  then show ?thesis using expires ok(5,6) reader by blast
qed

section \<open>Edits\<close>

text \<open>One edit of a token as its route does it: a refused one changes nothing.\<close>

definition edit_token :: "(string \<Rightarrow> js_float) \<Rightarrow> api_token \<Rightarrow> TokenRestrictionBody \<times> policy_reader \<times> jsnum \<Rightarrow> api_token" where
  "edit_token parse_date token request =
     (let (body, reader, now) = request in
      case prepareTokenUpdate parse_date body token reader now of
        Inl e \<Rightarrow> token
      | Inr (patch, policy) \<Rightarrow> apply_patch patch token)"

lemma update_expiry:
  assumes "prepareTokenUpdate parse_date body token reader now = Inr (patch, asked)"
  shows "patch_expiresAt patch = None \<or>
         (\<exists>v p. parseExpiryInput parse_date body now = Inr (Provided v) \<and> expiry_patch v token reader now = Inr (patch_expiresAt patch, p))"
  using assms unfolding prepareTokenUpdate_def by (auto split: sum.splits ParsedExpiry.splits)

lemma shorter_complies:
  "complies policy created (Some c) \<Longrightarrow> t \<le> c \<Longrightarrow> complies policy created (Some t)"
  "complies policy created None \<Longrightarrow> complies policy created (Some t)"
  by (auto simp: complies_def expiryRequired_def split: option.splits)

lemma edit_complies:
  assumes "valid_settings policy" "tok_createdAt token = Some (Finite created)" "in_clock_range created"
    and "complies policy created (toDate (tok_expiresAt token))"
    and "reader \<in> {ReaderFails, ReaderMalformed, ReaderPolicy policy}" "in_clock_range now"
  shows "complies policy created (toDate (tok_expiresAt (edit_token parse_date token (body, reader, now)))) \<and>
         tok_createdAt (edit_token parse_date token (body, reader, now)) = Some (Finite created)"
proof (cases "prepareTokenUpdate parse_date body token reader now")
  case (Inl e)
  then show ?thesis using assms by (simp add: edit_token_def)
next
  case (Inr pa)
  obtain patch asked where pa: "pa = (patch, asked)" by fastforce
  have edited: "edit_token parse_date token (body, reader, now) = apply_patch patch token" using Inr pa by (simp add: edit_token_def)
  have "complies policy created (toDate (nullish (patch_expiresAt patch) (tok_expiresAt token)))"
  proof (cases "patch_expiresAt patch")
    case (Some v)
    then obtain w p where parsed: "parseExpiryInput parse_date body now = Inr (Provided w)"
      and patched: "expiry_patch w token reader now = Inr (Some v, p)"
      using update_expiry [OF Inr [unfolded pa]] by auto
    then have w: "w = v" by (auto simp: expiry_patch_def Let_def split: if_splits option.splits)
    obtain expires where v: "v = map_option Finite expires" using parsed_expiry_future [OF parsed assms(6)] w by blast
    have date: "toDate v = expires" using v by (cases expires) simp_all
    show ?thesis
    proof (cases "extends_expiry v (toDate (tok_expiresAt token))")
      case True
      then obtain p' where "loadTokenPolicy reader = Some p'" "checkExpiryAgainstPolicy p' v (Finite created) = None"
        using patched w assms(2) by (auto simp: expiry_patch_def Let_def split: if_splits option.splits)
      then have "checkExpiryAgainstPolicy policy v (Finite created) = None" using assms(5) by auto
      then show ?thesis using check_complies [OF assms(1,3), of expires] v date Some by simp
    next
      case False
      then show ?thesis
        using v date Some assms(4) shorter_complies [of policy created]
        by (cases expires; cases "toDate (tok_expiresAt token)") (auto simp: extends_expiry_def not_less)
    qed
  qed (use assms(4) in simp)
  then show ?thesis using assms(2) by (simp add: edited apply_patch_def)
qed

text \<open>
  C8: No sequence of edits makes a token outlive its policy. The maximum lifetime counts from the creation of the token: a token
  that obeys the policy obeys it after every number of edits, accepted or refused, with whatever bodies and whenever
  they arrive, and also when the policy cannot be read for some of them.
\<close>

theorem edits_never_outlive_the_policy:
  assumes "valid_settings policy" "tok_createdAt token = Some (Finite created)" "in_clock_range created"
    and "complies policy created (toDate (tok_expiresAt token))"
    and "\<And>body reader now. (body, reader, now) \<in> set requests \<Longrightarrow>
           reader \<in> {ReaderFails, ReaderMalformed, ReaderPolicy policy} \<and> in_clock_range now"
  shows "complies policy created (toDate (tok_expiresAt (foldl (edit_token parse_date) token requests)))"
  using assms(2,4,5)
proof (induction requests arbitrary: token)
  case (Cons request requests)
  obtain body reader now where request: "request = (body, reader, now)" by (cases request)
  have "complies policy created (toDate (tok_expiresAt (edit_token parse_date token request))) \<and>
      tok_createdAt (edit_token parse_date token request) = Some (Finite created)"
    unfolding request
    using Cons.prems(3) [of body reader now] request by (intro edit_complies [OF assms(1) Cons.prems(1) assms(3) Cons.prems(2)]) auto
  then show ?case
    unfolding foldl_Cons using Cons.IH [of "edit_token parse_date token request"] Cons.prems(3) by (meson list.set_intros(2))
qed simp

definition empty_body :: TokenRestrictionBody where
  "empty_body = \<lparr>body_expiresAt = JUndefined, body_expiresInDays = JUndefined, body_allowedIpRanges = None,
     body_requireUserToken = JUndefined, body_label = JUndefined\<rparr>"

definition ten_day_policy :: IamTokenSettings where
  "ten_day_policy = \<lparr>maxLifetimeDays = Some 10, requireExpiry = False\<rparr>"

theorem minted_token_obeys_policy_witness:
  "\<exists>prepared expires. prepareTokenCreate (\<lambda>_. NaN) (empty_body\<lparr>body_expiresInDays := JNumber (Finite 9)\<rparr>) (ReaderPolicy ten_day_policy) 0 = Inr prepared
     \<and> new_expiresAt prepared = map_option Finite expires \<and> complies ten_day_policy 0 expires"
proof -
  let ?body = "empty_body\<lparr>body_expiresInDays := JNumber (Finite 9)\<rparr>"
  have days: "json_integer (JNumber (Finite 9)) = Some 9" by simp
  obtain prepared where prepared: "prepareTokenCreate (\<lambda>_. NaN) ?body (ReaderPolicy ten_day_policy) 0 = Inr prepared"
    "new_policy prepared = ten_day_policy"
    unfolding prepareTokenCreate_def parseExpiryInput_def
    by (simp add: empty_body_def days future_expiry_def make_date_def max_date_def MS_PER_DAY_def MAX_EXPIRES_IN_DAYS_def
        validateAllowedIpRanges_def checkExpiryAgainstPolicy_def checkTokenExpiry_def ten_day_policy_def DAY_MS_def)
  have "in_clock_range 0" "valid_settings ten_day_policy"
    by (simp_all add: in_clock_range_def MAX_EXPIRES_IN_DAYS_def MS_PER_DAY_def max_date_def valid_settings_def ten_day_policy_def
        MAX_TOKEN_LIFETIME_DAYS_def)
  then obtain expires where "new_expiresAt prepared = map_option Finite expires" "complies (new_policy prepared) 0 expires"
    using minted_token_obeys_policy [OF prepared(1)] by auto
  then show ?thesis using prepared by auto
qed

theorem edits_never_outlive_the_policy_witness:
  "complies ten_day_policy 0 (toDate (tok_expiresAt (foldl (edit_token (\<lambda>_. NaN))
     \<lparr>tok_label = ''ci'', tok_createdAt = Some (Finite 0), tok_expiresAt = Some (Finite 1), tok_allowedIpRanges = StoredNullish,
      tok_requireUserToken = False\<rparr>
     [(empty_body\<lparr>body_expiresAt := JNull\<rparr>, ReaderPolicy ten_day_policy, 0), (empty_body, ReaderFails, 5)])))"
proof (rule edits_never_outlive_the_policy)
  show "valid_settings ten_day_policy" by (simp add: valid_settings_def ten_day_policy_def MAX_TOKEN_LIFETIME_DAYS_def)
  show "in_clock_range 0" by (simp add: in_clock_range_def MAX_EXPIRES_IN_DAYS_def MS_PER_DAY_def max_date_def)
qed (auto simp: complies_def ten_day_policy_def in_clock_range_def MAX_EXPIRES_IN_DAYS_def MS_PER_DAY_def max_date_def)

section \<open>What a list shows\<close>

text \<open>
  A list of tokens tells everybody which tokens are restricted to addresses. For every list of ranges that validation lets
  through that is what enforcement does; the ranges themselves are only shown to those who may edit.
\<close>

theorem listed_restriction_is_enforced:
  assumes "validateAllowedIpRanges input = RangesOk ranges" "tok_allowedIpRanges token = stored_of ranges"
  shows "pt_ipRestricted (presentApiToken token policy now d e) = hasIpRestriction (tok_allowedIpRanges token) \<and>
         (e = Some True \<longrightarrow> pt_allowedIpRanges (presentApiToken token policy now d e) = ranges) \<and>
         (e \<noteq> Some True \<longrightarrow> pt_allowedIpRanges (presentApiToken token policy now d e) = None)"
proof (cases ranges)
  case None
  then show ?thesis
    by (simp add: assms(2) presentApiToken_def presentAllowedIpRanges_def stored_of_def hasIpRestriction_def)
next
  case (Some rs)
  have "rs \<noteq> [] \<and> [] \<notin> set rs"
  proof -
    have "validateAllowedIpRanges input = RangesOk (Some rs)" using assms(1) Some by simp
    then obtain items where items: "rs \<noteq> []" "set rs = set (concat (map item_normal items))" by (rule validate_RangesOk)
    have "[] \<notin> set (item_normal x)" for x
    proof
      assume "[] \<in> set (item_normal x)"
      then obtain c where "checkCidr [] = CidrOk [] c" by (rule item_normal_fixed)
      moreover have "checkCidr [] = CidrBad Issue_empty" by code_simp
      ultimately show False by simp
    qed
    then show ?thesis using items by simp
  qed
  moreover from this have "filter (\<lambda>item. item \<noteq> None \<and> item \<noteq> Some []) (map Some rs) = map Some rs"
    by (auto simp: filter_id_conv)
  ultimately show ?thesis
    by (simp add: assms(2) Some presentApiToken_def presentAllowedIpRanges_def stored_of_def hasIpRestriction_def comp_def)
qed

theorem listed_restriction_is_enforced_witness:
  "pt_ipRestricted (presentApiToken
     \<lparr>tok_label = ''ci'', tok_createdAt = None, tok_expiresAt = None, tok_allowedIpRanges = stored_of (Some [''10.0.0.0/8'']),
      tok_requireUserToken = False\<rparr> NO_TOKEN_POLICY 0 None (Some False)) = hasIpRestriction (stored_of (Some [''10.0.0.0/8'']))"
proof -
  have "validateAllowedIpRanges (SubmittedArray [ItemString ''10.0.0.0/8'']) = RangesOk (Some [''10.0.0.0/8''])" by code_simp
  from listed_restriction_is_enforced [OF this, of
      "\<lparr>tok_label = ''ci'', tok_createdAt = None, tok_expiresAt = None, tok_allowedIpRanges = stored_of (Some [''10.0.0.0/8'']),
        tok_requireUserToken = False\<rparr>" NO_TOKEN_POLICY 0 None "Some False"]
  show ?thesis by simp
qed

text \<open>
  A stored value that is not a list of texts is a restriction that nothing passes, but a list shows such a token as
  one without a restriction.
\<close>

theorem malformed_restriction_is_not_listed:
  "hasIpRestriction StoredOther \<and> \<not> fst (isIpAllowed [] (Some ''10.0.0.1'') StoredOther) \<and>
   presentAllowedIpRanges StoredOther = None"
  by code_simp

end
