(* ===== verification/AuthRateLimiter.thy ===== *)
theory AuthRateLimiter
  imports QuotaGuard
begin

text \<open>
  The limiter in front of sign-in and of the public endpoints.

  \<^item> \<^verbatim>\<open>src/lib/services/auth/rateLimiter.ts\<close>: keys, the bounded store of counters in the order they were last counted, and
    \<open>checkRateLimit\<close>. \<^verbatim>\<open>isIP\<close> of Node and the digest of a long key are arguments. Log lines are left out, the instant of the last
    warning is kept.
  \<^item> \<^verbatim>\<open>src/lib/services/auth/sharedRateCounter.ts\<close>: the count that also asks a counter shared between replicas. What the
    shared counter answers is an argument.
  \<^item> \<^verbatim>\<open>src/server/api/platformIpLimit.ts\<close>: the limit per address that comes before authentication.
\<close>

section \<open>Keys\<close>

definition MAX_KEY_LENGTH :: nat where
  "MAX_KEY_LENGTH = 256"

definition INVALID_ADDRESS :: string where
  "INVALID_ADDRESS = ''invalid''"

definition MAX_ADDRESS_LENGTH :: nat where
  "MAX_ADDRESS_LENGTH = 45"

definition MAX_ADDRESS_FIELD_LENGTH :: nat where
  "MAX_ADDRESS_FIELD_LENGTH = MAX_ADDRESS_LENGTH + length ''[]:65535''"

definition digits_upto :: "nat \<Rightarrow> string \<Rightarrow> bool" where
  "digits_upto n s \<longleftrightarrow> s \<noteq> [] \<and> length s \<le> n \<and> list_all is_digit s"

text \<open>The group of \<^verbatim>\<open>/^(\d{1,3}(?:\.\d{1,3}){3}):\d{1,5}$/\<close>.\<close>

definition IPV4_WITH_PORT :: "string \<Rightarrow> string option" where
  "IPV4_WITH_PORT s =
     (case split_on CHR '':'' s of
        [address, port] \<Rightarrow>
          if digits_upto 5 port \<and> length (split_on CHR ''.'' address) = 4 \<and> list_all (digits_upto 3) (split_on CHR ''.'' address)
          then Some address else None
      | _ \<Rightarrow> None)"

text \<open>The group of \<^verbatim>\<open>/^\[([^\]]+)\](?::\d{1,5})?$/\<close>.\<close>

definition BRACKETED_IPV6 :: "string \<Rightarrow> string option" where
  "BRACKETED_IPV6 s =
     (case s of
        [] \<Rightarrow> None
      | c # rest \<Rightarrow>
          let address = takeWhile (\<lambda>c. c \<noteq> CHR '']'') rest; after = dropWhile (\<lambda>c. c \<noteq> CHR '']'') rest in
          if c = CHR ''['' \<and> address \<noteq> [] \<and>
             (after = '']'' \<or> (take 2 after = '']:'' \<and> digits_upto 5 (drop 2 after)))
          then Some address else None)"

definition normalizeClientAddress :: "(string \<Rightarrow> nat) \<Rightarrow> string option \<Rightarrow> string" where
  "normalizeClientAddress isIP given =
     (case given of
        None \<Rightarrow> INVALID_ADDRESS
      | Some s \<Rightarrow>
          if s = [] \<or> length s > MAX_ADDRESS_FIELD_LENGTH then INVALID_ADDRESS
          else
            let address = nullish (opt_or (IPV4_WITH_PORT s) (BRACKETED_IPV6 s)) s in
            if length address \<le> MAX_ADDRESS_LENGTH \<and> isIP address \<noteq> 0 then address else INVALID_ADDRESS)"

definition clientRateLimitKey :: "(string \<Rightarrow> nat) \<Rightarrow> string \<Rightarrow> string option \<Rightarrow> string" where
  "clientRateLimitKey isIP scope address = scope @ '':'' @ normalizeClientAddress isIP address"

definition boundedKey :: "(string \<Rightarrow> string) \<Rightarrow> string \<Rightarrow> string" where
  "boundedKey digest key = (if length key \<le> MAX_KEY_LENGTH then key else ''sha256:'' @ digest key)"

section \<open>The store\<close>

record RateLimitEntry =
  rl_count :: nat
  rl_resetAt :: jsnum

record limiter =
  limit_store :: "(string, RateLimitEntry) jsmap"
  lastFullStoreSweepAt :: jsnum
  lastDropWarningAt :: jsnum
  cleanupTimer :: bool

definition DEFAULT_MAX_TRACKED_KEYS :: nat where
  "DEFAULT_MAX_TRACKED_KEYS = 100000"

definition FULL_STORE_SWEEP_INTERVAL_MS :: jsnum where
  "FULL_STORE_SWEEP_INTERVAL_MS = 1000"

definition DROP_WARNING_INTERVAL_MS :: jsnum where
  "DROP_WARNING_INTERVAL_MS = 60000"

definition resetRateLimitStore :: "limiter \<Rightarrow> limiter" where
  "resetRateLimitStore st = st\<lparr>limit_store := [], lastFullStoreSweepAt := 0, lastDropWarningAt := 0\<rparr>"

definition maxTrackedKeys :: "js_float option \<Rightarrow> nat" where
  "maxTrackedKeys configured =
     (case configured of
        Some (Finite x) \<Rightarrow> if x \<ge> 1 then nat \<lfloor>x\<rfloor> else DEFAULT_MAX_TRACKED_KEYS
      | _ \<Rightarrow> DEFAULT_MAX_TRACKED_KEYS)"

definition sweepExpired_keys :: "jsnum \<Rightarrow> limiter \<Rightarrow> limiter" where
  "sweepExpired_keys now st = st\<lparr>limit_store := map_delete_if (\<lambda>key entry. rl_resetAt entry \<le> now) (limit_store st)\<rparr>"

text \<open>How many keys a full store drops: \<^verbatim>\<open>Math.ceil(max / 10)\<close>, from the front.\<close>

definition drop_excess :: "nat \<Rightarrow> nat" where
  "drop_excess limit = nat \<lceil>(of_nat limit :: jsnum) / 10\<rceil>"

definition makeRoomForNewKey :: "nat \<Rightarrow> jsnum \<Rightarrow> limiter \<Rightarrow> limiter" where
  "makeRoomForNewKey limit now st =
     (if length (limit_store st) < limit then st
      else
        let st1 = (if now - lastFullStoreSweepAt st \<ge> FULL_STORE_SWEEP_INTERVAL_MS
                   then sweepExpired_keys now (st\<lparr>lastFullStoreSweepAt := now\<rparr>) else st)
        in if now - lastFullStoreSweepAt st \<ge> FULL_STORE_SWEEP_INTERVAL_MS \<and> length (limit_store st1) < limit then st1
           else
             let st2 = (if now - lastDropWarningAt st1 \<ge> DROP_WARNING_INTERVAL_MS then st1\<lparr>lastDropWarningAt := now\<rparr> else st1)
             in st2\<lparr>limit_store := drop (drop_excess limit) (limit_store st2)\<rparr>)"

section \<open>Counting\<close>

record RateLimitConfig =
  maxAttempts :: int
  windowSeconds :: jsnum

record RateLimitResult =
  allowed :: bool
  remaining :: int
  res_resetAt :: jsnum
  retryAfterSeconds :: jsnum

definition checkRateLimit ::
  "(string \<Rightarrow> string) \<Rightarrow> nat \<Rightarrow> string \<Rightarrow> RateLimitConfig \<Rightarrow> jsnum \<Rightarrow> limiter \<Rightarrow> RateLimitResult \<times> limiter" where
  "checkRateLimit digest limit key config now st0 =
     (let st = st0\<lparr>cleanupTimer := True\<rparr>;
          windowMs = windowSeconds config * 1000;
          storeKey = boundedKey digest key;
          opens = (\<lambda>st. let entry = \<lparr>rl_count = 1, rl_resetAt = now + windowMs\<rparr> in
             (\<lparr>allowed = True, remaining = maxAttempts config - 1, res_resetAt = rl_resetAt entry, retryAfterSeconds = 0\<rparr>,
              st\<lparr>limit_store := map_set (limit_store st) storeKey entry\<rparr>))
      in case map_get (limit_store st) storeKey of
           None \<Rightarrow> opens (makeRoomForNewKey limit now st)
         | Some entry \<Rightarrow>
             if rl_resetAt entry \<le> now then opens (st\<lparr>limit_store := map_delete (limit_store st) storeKey\<rparr>)
             else
               let counted = entry\<lparr>rl_count := rl_count entry + 1\<rparr>;
                   ok = (int (rl_count counted) \<le> maxAttempts config)
               in (\<lparr>allowed = ok, remaining = max 0 (maxAttempts config - int (rl_count counted)), res_resetAt = rl_resetAt counted,
                    retryAfterSeconds = (if ok then 0 else math_ceil ((rl_resetAt counted - now) / 1000))\<rparr>,
                   st\<lparr>limit_store := map_set (map_delete (limit_store st) storeKey) storeKey counted\<rparr>))"

definition LOGIN_RATE_LIMIT :: RateLimitConfig where
  "LOGIN_RATE_LIMIT = \<lparr>maxAttempts = 10, windowSeconds = 15 * 60\<rparr>"

definition REGISTER_RATE_LIMIT :: RateLimitConfig where
  "REGISTER_RATE_LIMIT = \<lparr>maxAttempts = 5, windowSeconds = 60 * 60\<rparr>"

definition PASSWORD_RESET_RATE_LIMIT :: RateLimitConfig where
  "PASSWORD_RESET_RATE_LIMIT = \<lparr>maxAttempts = 3, windowSeconds = 15 * 60\<rparr>"

definition SESSION_ISSUANCE_RATE_LIMIT :: RateLimitConfig where
  "SESSION_ISSUANCE_RATE_LIMIT = \<lparr>maxAttempts = 20, windowSeconds = 15 * 60\<rparr>"

section \<open>Counts shared between replicas\<close>

definition RATE_WINDOW_SECONDS :: jsnum where
  "RATE_WINDOW_SECONDS = 60"

definition SHARED_COUNTER_RETRY_MS :: jsnum where
  "SHARED_COUNTER_RETRY_MS = 10000"

definition SHARED_COUNTER_WARNING_INTERVAL_MS :: jsnum where
  "SHARED_COUNTER_WARNING_INTERVAL_MS = 30000"

record shared_state =
  lastSharedCounterWarningAt :: jsnum
  sharedCounterRetryAt :: jsnum

text \<open>What the shared counter does when it is asked: it fails, it turns out not to be shared, or it counts.\<close>

datatype shared_counter = SharedFails | NotShared | SharedCount jsnum jsnum

definition incrementSharedCounter ::
  "bool \<Rightarrow> (string \<Rightarrow> shared_counter) \<Rightarrow> string \<Rightarrow> jsnum \<Rightarrow> shared_state \<Rightarrow> (jsnum \<times> jsnum) option \<times> shared_state" where
  "incrementSharedCounter uses_redis counter key now sh =
     (if \<not> uses_redis then (None, sh)
      else if now < sharedCounterRetryAt sh then (None, sh)
      else
        case counter key of
          SharedCount cnt resetAt \<Rightarrow> (Some (cnt, resetAt), sh)
        | NotShared \<Rightarrow> (None, sh)
        | SharedFails \<Rightarrow>
            (None, sh\<lparr>sharedCounterRetryAt := now + SHARED_COUNTER_RETRY_MS,
                      lastSharedCounterWarningAt :=
                        (if now - lastSharedCounterWarningAt sh \<ge> SHARED_COUNTER_WARNING_INTERVAL_MS then now
                         else lastSharedCounterWarningAt sh)\<rparr>))"

record RateDecision =
  rate_allowed :: bool
  rate_retryAfterSeconds :: jsnum

definition RATE_ALLOWED :: RateDecision where
  "RATE_ALLOWED = \<lparr>rate_allowed = True, rate_retryAfterSeconds = 0\<rparr>"

definition rateRefused :: "jsnum \<Rightarrow> RateDecision" where
  "rateRefused seconds = \<lparr>rate_allowed = False, rate_retryAfterSeconds = max 1 seconds\<rparr>"

definition countRequest ::
  "(string \<Rightarrow> string) \<Rightarrow> nat \<Rightarrow> bool \<Rightarrow> (string \<Rightarrow> shared_counter) \<Rightarrow> string \<Rightarrow> int \<Rightarrow> jsnum \<Rightarrow> limiter \<times> shared_state
     \<Rightarrow> RateDecision \<times> limiter \<times> shared_state" where
  "countRequest digest tracked uses_redis counter key limit now w =
     (let (st, sh) = w;
          (loc, st') = checkRateLimit digest tracked key \<lparr>maxAttempts = limit, windowSeconds = RATE_WINDOW_SECONDS\<rparr> now st
      in if \<not> allowed loc then (rateRefused (retryAfterSeconds loc), st', sh)
         else
           let (shared, sh') = incrementSharedCounter uses_redis counter key now sh in
           case shared of
             Some (cnt, resetAt) \<Rightarrow>
               if cnt > of_int limit then (rateRefused (math_ceil ((resetAt - now) / 1000)), st', sh') else (RATE_ALLOWED, st', sh')
           | None \<Rightarrow> (RATE_ALLOWED, st', sh'))"

section \<open>The limit per address\<close>

definition LIMITED_PREFIXES :: "string list" where
  "LIMITED_PREFIXES = [''/api/client/'', ''/api/public/'']"

definition isPlatformIpLimitedPath :: "string \<Rightarrow> bool" where
  "isPlatformIpLimitedPath pathname \<longleftrightarrow> list_ex (\<lambda>pre. take (length pre) pathname = pre) LIMITED_PREFIXES"

definition checkPlatformIpLimit ::
  "(string \<Rightarrow> string) \<Rightarrow> nat \<Rightarrow> bool \<Rightarrow> (string \<Rightarrow> shared_counter) \<Rightarrow> int \<Rightarrow> string option \<Rightarrow> jsnum \<Rightarrow> limiter \<times> shared_state
     \<Rightarrow> RateDecision \<times> limiter \<times> shared_state" where
  "checkPlatformIpLimit digest tracked uses_redis counter limit clientIp now w =
     (case clientIp of
        None \<Rightarrow> (RATE_ALLOWED, w)
      | Some ip \<Rightarrow>
          if \<not> limit > 0 \<or> ip = [] then (RATE_ALLOWED, w)
          else countRequest digest tracked uses_redis counter (''platform-ip:'' @ quotaAddressKey (parseClientIp (Some ip))) limit now w)"

section \<open>The store stays bounded\<close>

definition limiter_ok :: "nat \<Rightarrow> limiter \<Rightarrow> bool" where
  "limiter_ok limit st \<longleftrightarrow> distinct (map fst (limit_store st)) \<and> length (limit_store st) \<le> limit"

lemma drop_excess_bounds: "0 < limit \<Longrightarrow> 1 \<le> drop_excess limit \<and> drop_excess limit \<le> limit"
proof -
  assume pos: "0 < limit"
  have "(0 :: jsnum) < of_nat limit / 10" using pos by simp
  then have "1 \<le> \<lceil>(of_nat limit :: jsnum) / 10\<rceil>" by linarith
  moreover have "(of_nat limit :: jsnum) / 10 \<le> of_int (int limit)" by simp
  then have "\<lceil>(of_nat limit :: jsnum) / 10\<rceil> \<le> int limit" unfolding ceiling_le_iff .
  ultimately show ?thesis unfolding drop_excess_def by linarith
qed

lemma distinct_drop_keys: "distinct (map fst m) \<Longrightarrow> distinct (map fst (drop n m))"
  by (simp add: drop_map flip: drop_map)

lemma room_ok:
  assumes "limiter_ok limit st" "0 < limit"
  shows "limiter_ok limit (makeRoomForNewKey limit now st) \<and> length (limit_store (makeRoomForNewKey limit now st)) < limit"
proof -
  have dropped: "length m - drop_excess limit < limit" if "length m \<le> limit" for m :: "(string, RateLimitEntry) jsmap"
    using that drop_excess_bounds [OF assms(2)] assms(2) by auto
  have swept: "length (map_delete_if P (limit_store st)) \<le> limit" for P
    using assms(1) length_filter_le order_trans unfolding limiter_ok_def map_delete_if_def by blast
  have "distinct (map fst (map_delete_if P (limit_store st)))" for P
    using assms(1) by (simp add: limiter_ok_def map_delete_if_distinct)
  then show ?thesis
    using assms(1) dropped [OF swept] dropped [of "limit_store st"]
    by (auto simp: limiter_ok_def makeRoomForNewKey_def sweepExpired_keys_def Let_def distinct_drop_keys intro: less_imp_le)
qed

lemma room_new: "map_get (limit_store st) k = None \<Longrightarrow> limiter_ok limit st \<Longrightarrow> map_get (limit_store (makeRoomForNewKey limit now st)) k = None"
proof -
  have dropped: "map_get m k = None \<Longrightarrow> map_get (drop n m) k = None" for n and m :: "(string, RateLimitEntry) jsmap"
    by (auto simp: map_of_eq_None_iff dest: in_set_dropD)
  have swept: "map_get m k = None \<Longrightarrow> map_get (map_delete_if P m) k = None" for P and m :: "(string, RateLimitEntry) jsmap"
    by (auto simp: map_of_eq_None_iff map_delete_if_def)
  assume "map_get (limit_store st) k = None"
  then show ?thesis by (simp add: makeRoomForNewKey_def sweepExpired_keys_def Let_def dropped swept)
qed

lemma length_delete_less: "map_get m k = Some v \<Longrightarrow> length (map_delete m k) < length m"
  by (induction m) (auto simp: AList.delete_eq less_Suc_eq_le)

lemma check_ok:
  assumes "limiter_ok limit st" "0 < limit"
  shows "limiter_ok limit (snd (checkRateLimit digest limit key config now st))"
proof -
  let ?k = "boundedKey digest key" and ?st = "st\<lparr>cleanupTimer := True\<rparr>"
  have ok: "limiter_ok limit ?st" using assms(1) by (simp add: limiter_ok_def)
  have set_ok: "limiter_ok limit (s\<lparr>limit_store := map_set m ?k e\<rparr>)"
    if "distinct (map fst m)" "map_get m ?k = None" "length m < limit" for s m e
    using that by (simp add: limiter_ok_def map_set_new map_of_eq_None_iff)
  show ?thesis
  proof (cases "map_get (limit_store ?st) ?k")
    case None
    have "limiter_ok limit ((makeRoomForNewKey limit now ?st)\<lparr>limit_store :=
        map_set (limit_store (makeRoomForNewKey limit now ?st)) ?k e\<rparr>)" for e
      using room_ok [OF ok assms(2), of now] room_new [OF None ok] by (intro set_ok) (auto simp: limiter_ok_def)
    then show ?thesis using None by (simp add: checkRateLimit_def Let_def)
  next
    case (Some v)
    have "limiter_ok limit (?st\<lparr>limit_store := map_set (map_delete (limit_store ?st) ?k) ?k e\<rparr>)" for e
      using ok length_delete_less [OF Some] by (intro set_ok) (auto simp: limiter_ok_def map_delete_distinct)
    then show ?thesis using Some by (simp add: checkRateLimit_def Let_def)
  qed
qed

text \<open>Calls of the limiter, one after the other, with the results they get.\<close>

type_synonym limiter_call = "string \<times> RateLimitConfig \<times> jsnum"

fun run_limiter ::
  "(string \<Rightarrow> string) \<Rightarrow> nat \<Rightarrow> limiter_call list \<Rightarrow> limiter \<Rightarrow> (limiter_call \<times> RateLimitResult) list \<times> limiter" where
  "run_limiter digest limit [] st = ([], st)"
| "run_limiter digest limit ((key, config, now) # calls) st =
     (let (res, st') = checkRateLimit digest limit key config now st;
          (results, st'') = run_limiter digest limit calls st'
      in (((key, config, now), res) # results, st''))"

definition idle_limiter :: limiter where
  "idle_limiter = \<lparr>limit_store = [], lastFullStoreSweepAt = 0, lastDropWarningAt = 0, cleanupTimer = False\<rparr>"

text \<open>The states of a process: it starts idle, counts attempts, and from time to time sweeps or is reset.\<close>

inductive limiter_step :: "(string \<Rightarrow> string) \<Rightarrow> nat \<Rightarrow> limiter \<Rightarrow> limiter \<Rightarrow> bool" for digest limit where
  counts: "limiter_step digest limit st (snd (checkRateLimit digest limit key config now st))"
| sweeps: "limiter_step digest limit st (sweepExpired_keys now st)"
| resets: "limiter_step digest limit st (resetRateLimitStore st)"

lemma bounded_key: "(\<And>s. length (digest s) = 43) \<Longrightarrow> length (boundedKey digest key) \<le> MAX_KEY_LENGTH"
  by (simp add: boundedKey_def MAX_KEY_LENGTH_def)

lemma room_keys: "set (limit_store (makeRoomForNewKey limit now st)) \<subseteq> set (limit_store st)"
  by (auto simp: makeRoomForNewKey_def sweepExpired_keys_def map_delete_if_def Let_def dest: in_set_dropD split: if_splits)

lemma check_keys: "fst ` set (limit_store (snd (checkRateLimit digest limit key config now st))) \<subseteq>
    insert (boundedKey digest key) (fst ` set (limit_store st))"
proof -
  have "fst ` set (map_set m k e) \<subseteq> insert k (fst ` set m)" for m :: "(string, RateLimitEntry) jsmap" and k e
    using image_mono [OF set_map_set [of k e m], of fst] by simp
  moreover have "fst ` set (map_delete m k) \<subseteq> fst ` set m" for m :: "(string, RateLimitEntry) jsmap" and k
    by (auto simp: set_map_delete)
  moreover have "fst ` set (limit_store (makeRoomForNewKey limit now (st\<lparr>cleanupTimer := True\<rparr>))) \<subseteq> fst ` set (limit_store st)"
    using image_mono [OF room_keys [of limit now "st\<lparr>cleanupTimer := True\<rparr>"], of fst] by simp
  ultimately show ?thesis
    unfolding checkRateLimit_def Let_def by (simp split: option.split) (meson insert_mono order_trans)
qed

definition bounded_limiter :: "nat \<Rightarrow> limiter \<Rightarrow> bool" where
  "bounded_limiter limit st \<longleftrightarrow> limiter_ok limit st \<and> (\<forall>key \<in> fst ` set (limit_store st). length key \<le> MAX_KEY_LENGTH)"

lemma fewer_bounded:
  assumes "bounded_limiter limit st" "distinct (map fst (limit_store st'))" "set (limit_store st') \<subseteq> set (limit_store st)"
    "length (limit_store st') \<le> length (limit_store st)"
  shows "bounded_limiter limit st'"
proof -
  have "length (limit_store st') \<le> limit" using assms(1,4) unfolding bounded_limiter_def limiter_ok_def by linarith
  moreover have "\<forall>key \<in> fst ` set (limit_store st'). length key \<le> MAX_KEY_LENGTH"
    using assms(1) image_mono [OF assms(3), of fst] unfolding bounded_limiter_def by blast
  ultimately show ?thesis using assms(2) by (simp add: bounded_limiter_def limiter_ok_def)
qed

lemma step_bounded:
  assumes "limiter_step digest limit st st'" "0 < limit" "\<And>s. length (digest s) = 43" "bounded_limiter limit st"
  shows "bounded_limiter limit st'"
  using assms(1)
proof cases
  case (counts key config now)
  have "length (boundedKey digest key) \<le> MAX_KEY_LENGTH" by (rule bounded_key) (rule assms(3))
  then have "\<forall>key' \<in> insert (boundedKey digest key) (fst ` set (limit_store st)). length key' \<le> MAX_KEY_LENGTH"
    using assms(4) by (simp add: bounded_limiter_def)
  then have "\<forall>key' \<in> fst ` set (limit_store st'). length key' \<le> MAX_KEY_LENGTH"
    unfolding counts using check_keys by blast
  moreover have "limiter_ok limit st'"
    unfolding counts using assms(4) by (intro check_ok assms(2)) (simp add: bounded_limiter_def)
  ultimately show ?thesis by (simp add: bounded_limiter_def)
next
  case (sweeps now)
  have "set (map_delete_if P m) \<subseteq> set m" "length (map_delete_if P m) \<le> length m" for P and m :: "(string, RateLimitEntry) jsmap"
    by (auto simp: map_delete_if_def)
  moreover have "distinct (map fst (map_delete_if P (limit_store st)))" for P
    using assms(4) by (simp add: bounded_limiter_def limiter_ok_def map_delete_if_distinct)
  ultimately show ?thesis
    unfolding sweeps by (intro fewer_bounded [OF assms(4)]) (simp_all add: sweepExpired_keys_def)
next
  case resets
  show ?thesis unfolding resets by (rule fewer_bounded [OF assms(4)]) (simp_all add: resetRateLimitStore_def)
qed

text \<open>
  The memory of the limiter is bounded whatever keys arrive: in every state a process can reach there are at most as
  many counters as configured, one for each key, and no key is longer than the bound, since longer ones are stored as
  their digest.
\<close>

theorem limiter_memory_is_bounded:
  assumes "(limiter_step digest (maxTrackedKeys configured))\<^sup>*\<^sup>* idle_limiter st" "\<And>s. length (digest s) = 43"
  shows "length (limit_store st) \<le> maxTrackedKeys configured \<and> distinct (map fst (limit_store st)) \<and>
         (\<forall>key \<in> fst ` set (limit_store st). length key \<le> MAX_KEY_LENGTH)"
proof -
  have pos: "0 < maxTrackedKeys configured"
    by (auto simp: maxTrackedKeys_def DEFAULT_MAX_TRACKED_KEYS_def split: option.split js_float.split)
  have "bounded_limiter (maxTrackedKeys configured) st"
    using assms(1)
  proof (induction rule: rtranclp_induct)
    case base
    then show ?case by (simp add: bounded_limiter_def limiter_ok_def idle_limiter_def)
  next
    case (step st st')
    show ?case by (rule step_bounded [OF step(2) pos assms(2) step(3)])
  qed
  then show ?thesis by (simp add: bounded_limiter_def limiter_ok_def)
qed

theorem limiter_memory_is_bounded_witness:
  "length (limit_store (snd (checkRateLimit (\<lambda>s. replicate 43 CHR ''x'') (maxTrackedKeys (Some (Finite 1))) ''b'' LOGIN_RATE_LIMIT 5
     (snd (checkRateLimit (\<lambda>s. replicate 43 CHR ''x'') (maxTrackedKeys (Some (Finite 1))) ''a'' LOGIN_RATE_LIMIT 0 idle_limiter))))) \<le> 1"
proof -
  let ?d = "\<lambda>s :: string. replicate 43 CHR ''x''" and ?n = "maxTrackedKeys (Some (Finite 1))"
  have "(limiter_step ?d ?n)\<^sup>*\<^sup>* idle_limiter (snd (checkRateLimit ?d ?n ''b'' LOGIN_RATE_LIMIT 5
      (snd (checkRateLimit ?d ?n ''a'' LOGIN_RATE_LIMIT 0 idle_limiter))))"
    by (rule rtranclp.rtrancl_into_rtrancl [OF r_into_rtranclp]) (rule limiter_step.counts)+
  moreover have "?n = 1" by (simp add: maxTrackedKeys_def)
  ultimately show ?thesis using limiter_memory_is_bounded [of ?d "Some (Finite 1)"] by simp
qed

section \<open>Busy keys are kept\<close>

text \<open>A key with its counter, and with no more than so many keys counted after it.\<close>

definition recent :: "string \<Rightarrow> RateLimitEntry \<Rightarrow> nat \<Rightarrow> (string, RateLimitEntry) jsmap \<Rightarrow> bool" where
  "recent k v n m \<longleftrightarrow> distinct (map fst m) \<and> (\<exists>front after. m = front @ (k, v) # after \<and> length after \<le> n)"

lemma recent_get: "recent k v n m \<Longrightarrow> map_get m k = Some v"
  unfolding recent_def by (auto simp: map_of_eq_Some_iff)

lemma recent_filter:
  assumes "recent k v n m" "P (k, v)"
  shows "recent k v n (filter P m)"
proof -
  obtain front after where m: "m = front @ (k, v) # after" "length after \<le> n" using assms(1) by (auto simp: recent_def)
  have "filter P m = filter P front @ (k, v) # filter P after" using m(1) assms(2) by simp
  moreover have "length (filter P after) \<le> n" using m(2) length_filter_le [of P after] by linarith
  moreover have "distinct (map fst (filter P m))" using assms(1) by (simp add: recent_def distinct_map_filter)
  ultimately show ?thesis unfolding recent_def by blast
qed

lemma recent_delete: "recent k v n m \<Longrightarrow> k' \<noteq> k \<Longrightarrow> recent k v n (map_delete m k')"
  unfolding AList.delete_eq by (rule recent_filter) simp_all

lemma recent_sweep: "recent k v n m \<Longrightarrow> \<not> P k v \<Longrightarrow> recent k v n (map_delete_if P m)"
  unfolding map_delete_if_def by (rule recent_filter) simp_all

lemma recent_append:
  assumes "recent k v n m" "map_get m k' = None"
  shows "recent k v (Suc n) (m @ [(k', e)])"
proof -
  obtain front after where m: "m = front @ (k, v) # after" "length after \<le> n" using assms(1) by (auto simp: recent_def)
  have "m @ [(k', e)] = front @ (k, v) # (after @ [(k', e)])" "length (after @ [(k', e)]) \<le> Suc n" using m by simp_all
  moreover have "distinct (map fst (m @ [(k', e)]))" using assms by (simp add: recent_def map_of_eq_None_iff)
  ultimately show ?thesis unfolding recent_def by blast
qed

lemma recent_drop:
  assumes "recent k v n m" "d + n < length m"
  shows "recent k v n (drop d m)"
proof -
  obtain front after where m: "m = front @ (k, v) # after" "length after \<le> n" using assms(1) by (auto simp: recent_def)
  then have "drop d m = drop d front @ (k, v) # after" using assms(2) by simp
  moreover have "distinct (map fst (drop d m))" using assms(1) by (simp add: recent_def distinct_drop_keys)
  ultimately show ?thesis using m(2) unfolding recent_def by blast
qed

lemma recent_new: "distinct (map fst m) \<Longrightarrow> map_get m k = None \<Longrightarrow> recent k e 0 (map_set m k e)"
  by (auto simp: recent_def map_set_new map_of_eq_None_iff)

lemma recent_room:
  assumes "recent k v n (limit_store st)" "limiter_ok limit st" "now < rl_resetAt v" "n + drop_excess limit < limit"
  shows "recent k v n (limit_store (makeRoomForNewKey limit now st))"
proof -
  have swept: "recent k v n (map_delete_if (\<lambda>key entry. rl_resetAt entry \<le> now) (limit_store st))"
    using assms(1,3) by (intro recent_sweep) simp_all
  have dropped: "recent k v n (drop (drop_excess limit) m)" if "recent k v n m" "limit \<le> length m" for m
    using that assms(4) by (intro recent_drop) simp_all
  show ?thesis
    using assms(1) swept dropped [OF assms(1)] dropped [OF swept]
    by (simp add: makeRoomForNewKey_def sweepExpired_keys_def Let_def not_less)
qed

text \<open>Another key is counted; the key itself is counted.\<close>

lemma recent_other:
  assumes "recent k v n (limit_store st)" "limiter_ok limit st" "now < rl_resetAt v" "n + drop_excess limit < limit"
    and "boundedKey digest key \<noteq> k"
  shows "recent k v (Suc n) (limit_store (snd (checkRateLimit digest limit key config now st)))"
proof -
  let ?k = "boundedKey digest key" and ?st = "st\<lparr>cleanupTimer := True\<rparr>"
  have ok: "limiter_ok limit ?st" using assms(2) by (simp add: limiter_ok_def)
  have old: "recent k v (Suc n) (map_set (map_delete (limit_store st) ?k) ?k e)" for e
    using recent_append [OF recent_delete [OF assms(1)], of ?k ?k e] assms(5) by (simp add: map_set_new)
  have new: "recent k v (Suc n) (map_set (limit_store (makeRoomForNewKey limit now ?st)) ?k e)"
    if "map_get (limit_store st) ?k = None" for e
    using recent_append [OF recent_room [OF _ ok assms(3,4), of k]] room_new [of ?st ?k limit now] ok that assms(1)
    by (simp add: map_set_new)
  show ?thesis
    by (auto simp: checkRateLimit_def Let_def old new split: option.split)
qed

lemma counted_again:
  assumes "map_get (limit_store st) (boundedKey digest key) = Some v" "now < rl_resetAt v" "limiter_ok limit st"
  shows "recent (boundedKey digest key) (v\<lparr>rl_count := rl_count v + 1\<rparr>) 0 (limit_store (snd (checkRateLimit digest limit key config now st)))"
    and "allowed (fst (checkRateLimit digest limit key config now st)) \<longleftrightarrow> int (rl_count v + 1) \<le> maxAttempts config"
proof -
  let ?k = "boundedKey digest key"
  have "recent ?k e 0 (map_set (map_delete (limit_store st) ?k) ?k e)" for e
    using assms(3) by (intro recent_new) (simp_all add: limiter_ok_def map_delete_distinct)
  then show "recent ?k (v\<lparr>rl_count := rl_count v + 1\<rparr>) 0 (limit_store (snd (checkRateLimit digest limit key config now st)))"
    using assms(1,2) by (simp add: checkRateLimit_def Let_def)
  show "allowed (fst (checkRateLimit digest limit key config now st)) \<longleftrightarrow> int (rl_count v + 1) \<le> maxAttempts config"
    using assms(1,2) by (simp add: checkRateLimit_def Let_def)
qed

lemma window_opened:
  assumes "\<forall>v. map_get (limit_store st) (boundedKey digest key) = Some v \<longrightarrow> rl_resetAt v \<le> now" "limiter_ok limit st" "0 < limit"
  shows "recent (boundedKey digest key) \<lparr>rl_count = 1, rl_resetAt = now + windowSeconds config * 1000\<rparr> 0
           (limit_store (snd (checkRateLimit digest limit key config now st)))"
    and "allowed (fst (checkRateLimit digest limit key config now st))"
proof -
  let ?k = "boundedKey digest key" and ?st = "st\<lparr>cleanupTimer := True\<rparr>"
  have ok: "limiter_ok limit ?st" using assms(2) by (simp add: limiter_ok_def)
  have "map_get (limit_store ?st) ?k = None \<Longrightarrow>
      recent ?k e 0 (map_set (limit_store (makeRoomForNewKey limit now ?st)) ?k e)" for e
    using room_ok [OF ok assms(3), of now] room_new [OF _ ok] by (intro recent_new) (auto simp: limiter_ok_def)
  moreover have "recent ?k e 0 (map_set (map_delete (limit_store st) ?k) ?k e)" for e
    using assms(2) by (intro recent_new) (simp_all add: limiter_ok_def map_delete_distinct)
  ultimately show "recent ?k \<lparr>rl_count = 1, rl_resetAt = now + windowSeconds config * 1000\<rparr> 0
      (limit_store (snd (checkRateLimit digest limit key config now st)))"
    using assms(1) by (auto simp: checkRateLimit_def Let_def split: option.split)
  show "allowed (fst (checkRateLimit digest limit key config now st))"
    using assms(1) by (auto simp: checkRateLimit_def Let_def split: option.split)
qed

section \<open>Attempts are limited\<close>

text \<open>
  Calls in which, between two calls of a key, other keys are counted no more often than there is room for; all of them
  happen before an instant, and the calls of the key are held to the same limit.
\<close>

fun spaced :: "(string \<Rightarrow> string) \<Rightarrow> nat \<Rightarrow> string \<Rightarrow> nat \<Rightarrow> limiter_call list \<Rightarrow> bool" where
  "spaced digest limit k n [] = True"
| "spaced digest limit k n ((key, config, now) # calls) =
     (if boundedKey digest key = k then spaced digest limit k 0 calls
      else n + drop_excess limit < limit \<and> spaced digest limit k (Suc n) calls)"

definition within_window :: "(string \<Rightarrow> string) \<Rightarrow> string \<Rightarrow> int \<Rightarrow> jsnum \<Rightarrow> limiter_call list \<Rightarrow> bool" where
  "within_window digest k attempts stop calls \<longleftrightarrow>
     (\<forall>(key, config, now) \<in> set calls. now < stop \<and> (boundedKey digest key = k \<longrightarrow> maxAttempts config = attempts))"

definition let_through :: "(string \<Rightarrow> string) \<Rightarrow> string \<Rightarrow> (limiter_call \<times> RateLimitResult) list \<Rightarrow> int" where
  "let_through digest k results =
     int (length (filter (\<lambda>((key, config, now), res). boundedKey digest key = k \<and> allowed res) results))"

lemma run_limited:
  assumes "recent k v n (limit_store st)" "limiter_ok limit st" "0 < limit" "spaced digest limit k n calls"
    and "within_window digest k attempts (rl_resetAt v) calls"
  shows "let_through digest k (fst (run_limiter digest limit calls st)) \<le> max 0 (attempts - int (rl_count v))"
  using assms
proof (induction calls arbitrary: st v n)
  case Nil
  then show ?case by (simp add: let_through_def)
next
  case (Cons call calls)
  obtain key config now where call: "call = (key, config, now)" by (cases call)
  let ?st = "snd (checkRateLimit digest limit key config now st)"
  have now: "now < rl_resetAt v" "within_window digest k attempts (rl_resetAt v) calls"
    using Cons.prems(5) call by (auto simp: within_window_def)
  have ok: "limiter_ok limit ?st" using check_ok [OF Cons.prems(2,3)] .
  show ?case
  proof (cases "boundedKey digest key = k")
    case True
    have attempts: "maxAttempts config = attempts" using Cons.prems(5) call True by (simp add: within_window_def)
    have get: "map_get (limit_store st) (boundedKey digest key) = Some v" using recent_get [OF Cons.prems(1)] True by simp
    note again = counted_again [OF get now(1) Cons.prems(2), of config]
    have "let_through digest k (fst (run_limiter digest limit calls ?st)) \<le> max 0 (attempts - int (rl_count v + 1))"
      using Cons.IH [of "v\<lparr>rl_count := rl_count v + 1\<rparr>" 0 ?st] again(1) ok now(2) Cons.prems(3,4) call True by simp
    then show ?thesis
      using again(2) attempts True by (auto simp: call let_through_def split_beta)
  next
    case False
    have "let_through digest k (fst (run_limiter digest limit calls ?st)) \<le> max 0 (attempts - int (rl_count v))"
      using Cons.IH [of v "Suc n" ?st] recent_other [OF Cons.prems(1,2) now(1) _ False, of config] ok now(2) Cons.prems(3,4) call False
      by simp
    then show ?thesis using False by (simp add: call let_through_def split_beta)
  qed
qed

text \<open>
  C9: Guessing is limited even though the store is bounded. From the attempt that opens a key's window until the window ends, no
  more attempts of that key are let through than the limit (one at least, the attempt that opens it), however many
  one-off keys arrive, as long as between two attempts of the key fewer other keys are counted than nine tenths of what the store
  holds.
\<close>

theorem attempts_are_limited_under_eviction:
  assumes "limiter_ok limit st" "0 < limit" "maxAttempts config = attempts"
    and "\<forall>v. map_get (limit_store st) (boundedKey digest key) = Some v \<longrightarrow> rl_resetAt v \<le> now"
    and "spaced digest limit (boundedKey digest key) 0 calls"
    and "within_window digest (boundedKey digest key) attempts (now + windowSeconds config * 1000) calls"
  shows "let_through digest (boundedKey digest key) (fst (run_limiter digest limit ((key, config, now) # calls) st)) \<le> max 1 attempts"
proof -
  let ?st = "snd (checkRateLimit digest limit key config now st)"
  note opened = window_opened [OF assms(4,1,2), of config]
  have "let_through digest (boundedKey digest key) (fst (run_limiter digest limit calls ?st)) \<le> max 0 (attempts - 1)"
    using run_limited [OF opened(1) check_ok [OF assms(1,2)] assms(2,5)] assms(6) by simp
  then show ?thesis using opened(2) by (auto simp: let_through_def split_beta)
qed

theorem attempts_are_limited_under_eviction_witness:
  "let_through id ''login:a'' (fst (run_limiter id 10 [(''login:a'', LOGIN_RATE_LIMIT, 0), (''x'', LOGIN_RATE_LIMIT, 1),
     (''login:a'', LOGIN_RATE_LIMIT, 2)] idle_limiter)) \<le> 10"
proof -
  have key: "boundedKey id ''login:a'' = ''login:a''" "boundedKey id ''x'' = ''x''" by (simp_all add: boundedKey_def MAX_KEY_LENGTH_def)
  have "let_through id (boundedKey id ''login:a'') (fst (run_limiter id 10 ((''login:a'', LOGIN_RATE_LIMIT, 0) #
      [(''x'', LOGIN_RATE_LIMIT, 1), (''login:a'', LOGIN_RATE_LIMIT, 2)]) idle_limiter)) \<le> max 1 10"
    by (rule attempts_are_limited_under_eviction)
      (simp_all add: key limiter_ok_def idle_limiter_def drop_excess_def within_window_def LOGIN_RATE_LIMIT_def)
  then show ?thesis unfolding key by simp
qed

end
