(* ===== verification/TokenAuth.thy ===== *)
theory TokenAuth
  imports TokenPolicy PrincipalCache License MemoryCache
begin

text \<open>
  Who an API token is.

  \<^item> \<^verbatim>\<open>src/lib/services/projects/projectAccess.ts\<close>: who may work in a project, over the queries of a database provider.
  \<^item> \<^verbatim>\<open>src/lib/database/sqlite/api-token.mixin.ts\<close>: the table of tokens, as far as authentication and its edits use it.
  \<^item> \<^verbatim>\<open>src/lib/services/apiTokenAuth.ts\<close>, the whole module: from the header of a request to the token, its tenant, its owner
    and its project, through a cache of token records.

  SHA-256 is the argument \<open>sha\<close>. The last-used column, which only the accepted request writes, is kept apart from the rows. A request is one function when nothing runs beside it; its lookup is also split where it
  waits, and \<open>auth_step\<close> interleaves lookups with deletions, edits and invalidations.
\<close>

section \<open>Access to a project\<close>

record project_db =
  pq_findUserProject :: "string \<Rightarrow> string \<Rightarrow> ProjectAssignmentRow option query"
  pq_listGroupMembersByUser :: "string \<Rightarrow> string list query"
  pq_listGroupProjectsByProject :: "string \<Rightarrow> ProjectAssignmentRow list query"

definition hasImplicitProjectAccess :: "string option \<Rightarrow> bool" where
  "hasImplicitProjectAccess role \<longleftrightarrow> role = Some ''owner'' \<or> role = Some ''admin''"

definition getLegacyProjectIds :: "string list option \<Rightarrow> string list" where
  "getLegacyProjectIds ids = filter (\<lambda>i. i \<noteq> []) (nullish ids [])"

definition row_of_groups :: "string list \<Rightarrow> ProjectAssignmentRow \<Rightarrow> bool" where
  "row_of_groups groupIds row \<longleftrightarrow> nullish (row_groupId row) ''undefined'' \<in> set groupIds"

definition own_sources ::
  "ProjectAssignmentRow option \<Rightarrow> string \<Rightarrow> string \<Rightarrow> string list option \<Rightarrow> (ProjectRole \<times> stored_permissions) list" where
  "own_sources direct userRole projectId legacyProjectIds =
     (case direct of
        Some row \<Rightarrow> [(row_role row, row_permissions row)]
      | None \<Rightarrow>
          if projectId \<in> set (getLegacyProjectIds legacyProjectIds)
          then [(if userRole = ''project_admin'' then ProjectAdmin else Member, PermNullish)] else [])"

definition merged_membership :: "(ProjectRole \<times> stored_permissions) list \<Rightarrow> (ProjectRole \<times> UserServicePermissions) option" where
  "merged_membership sources =
     (if sources = [] then None
      else Some (if \<exists>s \<in> set sources. fst s = ProjectAdmin then ProjectAdmin else Member,
                 mergeServicePermissions (map snd sources)))"

text \<open>\<^verbatim>\<open>resolveProjectMembership\<close> of \<^verbatim>\<open>projectAccess.ts\<close>.\<close>

definition readProjectMembership ::
  "project_db \<Rightarrow> string \<Rightarrow> string \<Rightarrow> string \<Rightarrow> string list option \<Rightarrow> (ProjectRole \<times> UserServicePermissions) option query" where
  "readProjectMembership db userId userRole projectId legacyProjectIds =
     (case pq_findUserProject db userId projectId of
        Fails \<Rightarrow> Fails
      | Answers direct \<Rightarrow>
          (case pq_listGroupMembersByUser db userId of
             Fails \<Rightarrow> Fails
           | Answers groupIds \<Rightarrow>
               (case (if groupIds = [] then Answers [] else pq_listGroupProjectsByProject db projectId) of
                  Fails \<Rightarrow> Fails
                | Answers rows \<Rightarrow>
                    Answers (merged_membership
                      (own_sources direct userRole projectId legacyProjectIds @
                       map (\<lambda>row. (row_role row, row_permissions row)) (filter (row_of_groups groupIds) rows))))))"

definition canAccessProject :: "project_db \<Rightarrow> string \<Rightarrow> string option \<Rightarrow> string \<Rightarrow> string list option \<Rightarrow> bool query" where
  "canAccessProject db userId userRole projectId legacyProjectIds =
     (if hasImplicitProjectAccess userRole then Answers True
      else if projectId \<in> set (getLegacyProjectIds legacyProjectIds) then Answers True
      else
        case pq_findUserProject db userId projectId of
          Fails \<Rightarrow> Fails
        | Answers (Some row) \<Rightarrow> Answers True
        | Answers None \<Rightarrow>
            (case pq_listGroupMembersByUser db userId of
               Fails \<Rightarrow> Fails
             | Answers groupIds \<Rightarrow>
                 if groupIds = [] then Answers False
                 else
                   case pq_listGroupProjectsByProject db projectId of
                     Fails \<Rightarrow> Fails
                   | Answers rows \<Rightarrow> Answers (list_ex (row_of_groups groupIds) rows)))"

record auth_user = principal_user +
  au_id :: "string option"
  au_tenantId :: "string option"
  au_canLogin :: "bool option"
  au_status :: "string option"
  au_kind :: "string option"

definition isProgrammaticUser :: "auth_user \<Rightarrow> bool" where
  "isProgrammaticUser user \<longleftrightarrow> au_canLogin user = Some False"

definition canTokenOwnerAccessProject :: "project_db \<Rightarrow> auth_user \<Rightarrow> string \<Rightarrow> bool query" where
  "canTokenOwnerAccessProject db owner projectId =
     (if isProgrammaticUser owner then Answers True
      else canAccessProject db (nullish (au_id owner) []) (user_role owner) projectId (projectIds owner))"

section \<open>The table of tokens\<close>

record token_record = api_token +
  tr_id :: string
  tr_userId :: string
  tr_tenantId :: string
  tr_projectId :: "string option"
  tr_token :: "string option"
  tr_tokenHash :: "string option"

definition findApiTokenByHash :: "token_record list \<Rightarrow> string \<Rightarrow> token_record option" where
  "findApiTokenByHash table tokenHash = find (\<lambda>r. tr_tokenHash r = Some tokenHash) table"

definition findApiTokenById :: "token_record list \<Rightarrow> string \<Rightarrow> string \<Rightarrow> token_record option" where
  "findApiTokenById table tokenId tenantId = find (\<lambda>r. tr_id r = tokenId \<and> tr_tenantId r = tenantId) table"

definition deleteApiToken :: "token_record list \<Rightarrow> string \<Rightarrow> string \<Rightarrow> bool \<times> token_record list" where
  "deleteApiToken table tokenId userId =
     (list_ex (\<lambda>r. tr_id r = tokenId \<and> tr_userId r = userId) table, filter (\<lambda>r. \<not> (tr_id r = tokenId \<and> tr_userId r = userId)) table)"

text \<open>The columns a patch sets, on the rows the statement selects.\<close>

definition store_patch :: "TokenPatch \<Rightarrow> token_record \<Rightarrow> token_record" where
  "store_patch p r =
     r\<lparr>tok_label := nullish (patch_label p) (tok_label r),
       tok_expiresAt := nullish (patch_expiresAt p) (tok_expiresAt r),
       tok_allowedIpRanges := (case patch_allowedIpRanges p of None \<Rightarrow> tok_allowedIpRanges r | Some v \<Rightarrow> stored_of v),
       tok_requireUserToken := nullish (patch_requireUserToken p) (tok_requireUserToken r)\<rparr>"

definition updateApiToken :: "token_record list \<Rightarrow> string \<Rightarrow> string \<Rightarrow> TokenPatch \<Rightarrow> token_record option \<times> token_record list" where
  "updateApiToken table tokenId tenantId p =
     (let table' = map (\<lambda>r. if tr_id r = tokenId \<and> tr_tenantId r = tenantId then store_patch p r else r) table
      in (findApiTokenById table' tokenId tenantId, table'))"

text \<open>
  The stored allowlist. The column is null, a text or a number; \<^verbatim>\<open>JSON.parse\<close> answers a value or throws, and \<^verbatim>\<open>String\<close>
  of what is no text is the argument \<open>shown\<close>.
\<close>

datatype ranges_column = ColumnNull | ColumnText string | ColumnNumber jsnum

fun text_of :: "(json \<Rightarrow> string) \<Rightarrow> json \<Rightarrow> string" where
  "text_of shown (JText s) = s"
| "text_of shown v = shown v"

definition parseAllowedIpRanges ::
  "(string \<Rightarrow> json option) \<Rightarrow> (json \<Rightarrow> string) \<Rightarrow> ranges_column \<Rightarrow> string list option" where
  "parseAllowedIpRanges parse shown raw =
     (case raw of
        ColumnNull \<Rightarrow> None
      | ColumnNumber n \<Rightarrow> Some [shown (JNumber (Finite n))]
      | ColumnText s \<Rightarrow>
          if s = [] then None
          else
            case parse s of
              Some (JArray items) \<Rightarrow> if items = [] then None else Some (map (text_of shown) items)
            | Some v \<Rightarrow> Some [text_of shown v]
            | None \<Rightarrow> Some [s])"

section \<open>Authenticating a request\<close>

record auth_tenant = license_tenant +
  at_slug :: string
  at_dbName :: string
  at_licenseType :: LicenseType

record ApiTokenDenialContext =
  den_tenantId :: string
  den_tenantDbName :: string
  den_tokenId :: "string option"
  den_userId :: "string option"
  den_projectId :: "string option"
  den_clientIp :: "string option"

text \<open>A refusal with what it carries; \<open>AuthThrows\<close> is an exception of a query that nothing catches.\<close>

datatype ApiTokenAuthError =
    MissingHeader | MissingToken | InvalidToken | TenantNotFound | TokenExpired
  | TokenIpNotAllowed ApiTokenDenialContext
  | OwnerUnreadable | OwnerMissing | OwnerDisabled | OwnerExternal
  | ProjectMissing | ProjectAccessUnreadable | NoProjectAccess | AuthThrows

fun auth_status :: "ApiTokenAuthError \<Rightarrow> nat" where
  "auth_status TenantNotFound = 404"
| "auth_status (TokenIpNotAllowed d) = 403"
| "auth_status OwnerUnreadable = 503"
| "auth_status ProjectMissing = 400"
| "auth_status ProjectAccessUnreadable = 503"
| "auth_status NoProjectAccess = 403"
| "auth_status AuthThrows = 500"
| "auth_status _ = 401"

record ApiTokenContext =
  act_token :: string
  act_tokenRecord :: token_record
  act_tenant :: auth_tenant
  act_tenantId :: string
  act_tenantSlug :: string
  act_tenantDbName :: string
  act_projectId :: string
  act_user :: auth_user

record cached_auth =
  ca_tokenRecord :: token_record
  ca_tenant :: auth_tenant

text \<open>The tables of a tenant that authentication reads: users by id, projects with their keys, and the assignments.\<close>

record tenant_tables =
  tt_users :: "(string, auth_user) jsmap"
  tt_projects :: "(string \<times> string) list"
  tt_userProjects :: "(string \<times> ProjectAssignmentRow) list"
  tt_groupMembers :: "(string \<times> string) list"
  tt_groupProjects :: "ProjectAssignmentRow list"

record auth_state =
  as_tokens :: "token_record list"
  as_lastUsed :: "(string, jsnum) jsmap"
  as_tenants :: "(string, auth_tenant) jsmap"
  as_tables :: "string \<Rightarrow> tenant_tables"
  as_cache :: "cached_auth MemoryCacheProvider"
  as_ranges :: range_cache

text \<open>What may go wrong, and the ids the environment supplies.\<close>

record auth_world =
  aw_policies :: policy_config
  aw_cacheReadFails :: bool
  aw_cacheWriteFails :: bool
  aw_tokenQueryFails :: bool
  aw_userQueryFails :: bool
  aw_projectQueryFails :: bool
  aw_membershipQueryFails :: bool
  aw_groupQueryFails :: bool
  aw_groupProjectQueryFails :: bool
  aw_newProjectId :: string

definition sqlite_project_db :: "auth_world \<Rightarrow> tenant_tables \<Rightarrow> project_db" where
  "sqlite_project_db w t =
     \<lparr>pq_findUserProject = (\<lambda>userId projectId.
        if aw_membershipQueryFails w then Fails
        else Answers (map_option snd (find (\<lambda>(u, row). u = userId \<and> row_projectId row = projectId) (tt_userProjects t)))),
      pq_listGroupMembersByUser = (\<lambda>userId.
        if aw_groupQueryFails w then Fails
        else Answers (map fst (filter (\<lambda>(g, u). u = userId) (tt_groupMembers t)))),
      pq_listGroupProjectsByProject = (\<lambda>projectId.
        if aw_groupProjectQueryFails w then Fails
        else Answers (filter (\<lambda>row. row_projectId row = projectId) (tt_groupProjects t)))\<rparr>"

definition apiAuthCacheKey :: "string \<Rightarrow> string" where
  "apiAuthCacheKey tokenHash = ''api-auth:'' @ take 16 tokenHash"

definition invalidateApiTokenAuthCache :: "auth_world \<Rightarrow> string option \<Rightarrow> auth_state \<Rightarrow> auth_state" where
  "invalidateApiTokenAuthCache w tokenHash s =
     (case given_id tokenHash of
        None \<Rightarrow> s
      | Some h \<Rightarrow> if aw_cacheWriteFails w then s else s\<lparr>as_cache := cache_del (as_cache s) (apiAuthCacheKey h)\<rparr>)"

definition bearer_token :: "string option \<Rightarrow> ApiTokenAuthError + string" where
  "bearer_token authHeader =
     (case given_id authHeader of
        None \<Rightarrow> Inl MissingHeader
      | Some h \<Rightarrow>
          if take 7 (to_lower h) \<noteq> ''bearer '' then Inl MissingHeader
          else let token = js_trim (drop 7 h) in if token = [] then Inl MissingToken else Inr token)"

definition read_cached_auth :: "auth_world \<Rightarrow> string \<Rightarrow> jsnum \<Rightarrow> auth_state \<Rightarrow> cached_auth option \<times> auth_state" where
  "read_cached_auth w tokenHash now s =
     (if aw_cacheReadFails w then (None, s)
      else let (hit, c) = cache_get (as_cache s) (apiAuthCacheKey tokenHash) now in (hit, s\<lparr>as_cache := c\<rparr>))"

definition load_auth :: "auth_world \<Rightarrow> string \<Rightarrow> auth_state \<Rightarrow> ApiTokenAuthError + cached_auth" where
  "load_auth w tokenHash s =
     (if aw_tokenQueryFails w then Inl AuthThrows
      else
        case findApiTokenByHash (as_tokens s) tokenHash of
          None \<Rightarrow> Inl InvalidToken
        | Some r \<Rightarrow>
            (case map_get (as_tenants s) (tr_tenantId r) of
               None \<Rightarrow> Inl TenantNotFound
             | Some t \<Rightarrow> Inr \<lparr>ca_tokenRecord = r, ca_tenant = t\<rparr>))"

definition AUTH_CACHE_TTL :: jsnum where
  "AUTH_CACHE_TTL = 60"

definition store_auth :: "auth_world \<Rightarrow> string \<Rightarrow> cached_auth \<Rightarrow> jsnum \<Rightarrow> auth_state \<Rightarrow> auth_state" where
  "store_auth w tokenHash found now s =
     (if aw_cacheWriteFails w then s
      else s\<lparr>as_cache := cache_set (as_cache s) (apiAuthCacheKey tokenHash) found (Some AUTH_CACHE_TTL) now\<rparr>)"

definition lookup_auth :: "auth_world \<Rightarrow> string \<Rightarrow> jsnum \<Rightarrow> auth_state \<Rightarrow> (ApiTokenAuthError + cached_auth) \<times> auth_state" where
  "lookup_auth w tokenHash now s =
     (case read_cached_auth w tokenHash now s of
        (Some found, s) \<Rightarrow> (Inr found, s)
      | (None, s) \<Rightarrow>
          (case load_auth w tokenHash s of
             Inl e \<Rightarrow> (Inl e, s)
           | Inr found \<Rightarrow> (Inr found, store_auth w tokenHash found now s)))"

definition token_expired :: "token_record \<Rightarrow> jsnum \<Rightarrow> bool" where
  "token_expired r now = (case tok_expiresAt r of Some (Finite t) \<Rightarrow> t \<le> now | _ \<Rightarrow> False)"

definition check_address :: "string option \<Rightarrow> token_record \<Rightarrow> auth_state \<Rightarrow> bool \<times> auth_state" where
  "check_address clientIp r s =
     (if hasIpRestriction (tok_allowedIpRanges r)
      then let (allowed, ranges) = isIpAllowed (as_ranges s) clientIp (tok_allowedIpRanges r) in (allowed, s\<lparr>as_ranges := ranges\<rparr>)
      else (True, s))"

definition denial_of :: "string option \<Rightarrow> token_record \<Rightarrow> auth_tenant \<Rightarrow> ApiTokenDenialContext" where
  "denial_of clientIp r tenant =
     \<lparr>den_tenantId = tr_tenantId r, den_tenantDbName = at_dbName tenant, den_tokenId = given_id (Some (tr_id r)),
      den_userId = given_id (Some (tr_userId r)), den_projectId = given_id (tr_projectId r), den_clientIp = clientIp\<rparr>"

definition isUserDisabled :: "auth_user \<Rightarrow> bool" where
  "isUserDisabled user \<longleftrightarrow> au_status user = Some ''disabled''"

definition token_owner :: "auth_world \<Rightarrow> token_record \<Rightarrow> auth_tenant \<Rightarrow> auth_state \<Rightarrow> ApiTokenAuthError + auth_user" where
  "token_owner w r tenant s =
     (if aw_userQueryFails w then Inl OwnerUnreadable
      else
        case map_get (tt_users (as_tables s (at_dbName tenant))) (tr_userId r) of
          None \<Rightarrow> Inl OwnerMissing
        | Some user \<Rightarrow>
            if isUserDisabled user then Inl OwnerDisabled
            else if au_kind user = Some ''external'' then Inl OwnerExternal
            else Inr user)"

definition DEFAULT_PROJECT_KEY :: string where
  "DEFAULT_PROJECT_KEY = ''default''"

definition ensureDefaultProject :: "auth_world \<Rightarrow> string \<Rightarrow> auth_state \<Rightarrow> string option \<times> auth_state" where
  "ensureDefaultProject w tenantDbName s =
     (if aw_projectQueryFails w then (None, s)
      else
        let t = as_tables s tenantDbName in
        case find (\<lambda>(i, key). key = DEFAULT_PROJECT_KEY) (tt_projects t) of
          Some (i, key) \<Rightarrow> (Some i, s)
        | None \<Rightarrow>
            (Some (aw_newProjectId w),
             s\<lparr>as_tables := (as_tables s)(tenantDbName := t\<lparr>tt_projects := tt_projects t @ [(aw_newProjectId w, DEFAULT_PROJECT_KEY)]\<rparr>)\<rparr>))"

definition assertOwnerProjectAccess :: "auth_world \<Rightarrow> auth_state \<Rightarrow> string \<Rightarrow> auth_user \<Rightarrow> string \<Rightarrow> ApiTokenAuthError option" where
  "assertOwnerProjectAccess w s tenantDbName owner projectId =
     (case canTokenOwnerAccessProject (sqlite_project_db w (as_tables s tenantDbName)) owner projectId of
        Fails \<Rightarrow> Some ProjectAccessUnreadable
      | Answers allowed \<Rightarrow> if allowed then None else Some NoProjectAccess)"

definition stamp_lastUsed :: "string \<Rightarrow> jsnum \<Rightarrow> auth_state \<Rightarrow> auth_state" where
  "stamp_lastUsed tokenHash now s =
     (if findApiTokenByHash (as_tokens s) tokenHash = None then s
      else s\<lparr>as_lastUsed := map_set (as_lastUsed s) tokenHash now\<rparr>)"

text \<open>Everything after the lookup.\<close>

definition admit ::
  "auth_world \<Rightarrow> string \<Rightarrow> string \<Rightarrow> cached_auth \<Rightarrow> string option \<Rightarrow> jsnum \<Rightarrow> auth_state
     \<Rightarrow> (ApiTokenAuthError + ApiTokenContext) \<times> auth_state" where
  "admit w token tokenHash found clientIp now s =
     (let r = ca_tokenRecord found in
      if token_expired r now then (Inl TokenExpired, s)
      else
        case check_address clientIp r s of
          (False, s) \<Rightarrow> (Inl (TokenIpNotAllowed (denial_of clientIp r (ca_tenant found))), s)
        | (True, s) \<Rightarrow>
            let stored = ca_tenant found;
                tenant = stored\<lparr>at_licenseType :=
                  lic_type (getEffectiveLicenseForTenant (aw_policies w) (Some (license_tenant.truncate stored)) now)\<rparr>
            in case token_owner w r tenant s of
                 Inl e \<Rightarrow> (Inl e, s)
               | Inr user \<Rightarrow>
                   (case ensureDefaultProject w (at_dbName tenant) s of
                      (None, s) \<Rightarrow> (Inl AuthThrows, s)
                    | (Some default_id, s) \<Rightarrow>
                        (case opt_or (given_id (tr_projectId r)) (given_id (Some default_id)) of
                           None \<Rightarrow> (Inl ProjectMissing, s)
                         | Some projectId \<Rightarrow>
                             (case assertOwnerProjectAccess w s (at_dbName tenant) user projectId of
                                Some e \<Rightarrow> (Inl e, s)
                              | None \<Rightarrow>
                                  (Inr \<lparr>act_token = token, act_tokenRecord = r, act_tenant = tenant, act_tenantId = tr_tenantId r,
                                        act_tenantSlug = at_slug tenant, act_tenantDbName = at_dbName tenant,
                                        act_projectId = projectId, act_user = user\<rparr>,
                                   stamp_lastUsed tokenHash now s)))))"

definition requireApiTokenFromHeader ::
  "auth_world \<Rightarrow> (string \<Rightarrow> string) \<Rightarrow> string option \<Rightarrow> string option \<Rightarrow> jsnum \<Rightarrow> auth_state
     \<Rightarrow> (ApiTokenAuthError + ApiTokenContext) \<times> auth_state" where
  "requireApiTokenFromHeader w sha authHeader clientIp now s =
     (case bearer_token authHeader of
        Inl e \<Rightarrow> (Inl e, s)
      | Inr token \<Rightarrow>
          (case lookup_auth w (sha token) now s of
             (Inl e, s) \<Rightarrow> (Inl e, s)
           | (Inr found, s) \<Rightarrow> admit w token (sha token) found clientIp now s))"

section \<open>Who is let in\<close>

text \<open>
  The two readings of project access agree: whenever the membership of a user in a project can be read, the check
  that stops at the first source that grants access answers exactly whether the user's role reaches every project
  or there is a membership.
\<close>

theorem access_agrees_with_membership:
  assumes "readProjectMembership db userId userRole projectId legacyProjectIds = Answers membership"
  shows "canAccessProject db userId (Some userRole) projectId legacyProjectIds =
           Answers (hasImplicitProjectAccess (Some userRole) \<or> membership \<noteq> None)"
proof (cases "hasImplicitProjectAccess (Some userRole) \<or> projectId \<in> set (getLegacyProjectIds legacyProjectIds)")
  case True
  then show ?thesis
    using assms
    by (auto simp: canAccessProject_def readProjectMembership_def merged_membership_def own_sources_def
        split: query.splits option.splits if_splits)
next
  case False
  have some: "list_ex P rows \<longleftrightarrow> filter P rows \<noteq> []" for P and rows :: "ProjectAssignmentRow list"
    by (induction rows) auto
  show ?thesis
    using assms False
    by (auto simp: canAccessProject_def readProjectMembership_def merged_membership_def own_sources_def some
        split: query.splits option.splits if_splits)
qed

lemma address_keeps: "check_address clientIp r s = (ok, s') \<Longrightarrow> s' = s\<lparr>as_ranges := as_ranges s'\<rparr>"
  by (auto simp: check_address_def split: if_splits prod.splits)

lemma cached_keeps: "read_cached_auth w h now s = (hit, s') \<Longrightarrow> s' = s\<lparr>as_cache := as_cache s'\<rparr>"
  by (auto simp: read_cached_auth_def split: if_splits prod.splits)

lemma project_keeps:
  "ensureDefaultProject w dbName s = (p, s') \<Longrightarrow>
   as_tokens s' = as_tokens s \<and> as_lastUsed s' = as_lastUsed s \<and>
   tt_users (as_tables s' d) = tt_users (as_tables s d) \<and> tt_userProjects (as_tables s' d) = tt_userProjects (as_tables s d) \<and>
   tt_groupMembers (as_tables s' d) = tt_groupMembers (as_tables s d) \<and> tt_groupProjects (as_tables s' d) = tt_groupProjects (as_tables s d)"
  by (auto simp: ensureDefaultProject_def Let_def split: if_splits option.splits)

lemma same_access:
  "tt_userProjects t' = tt_userProjects t \<Longrightarrow> tt_groupMembers t' = tt_groupMembers t \<Longrightarrow> tt_groupProjects t' = tt_groupProjects t \<Longrightarrow>
   sqlite_project_db w t' = sqlite_project_db w t"
  by (simp add: sqlite_project_db_def cong del: if_weak_cong)

lemma store_keeps: "\<exists>c. store_auth w h found now s = s\<lparr>as_cache := c\<rparr>"
  by (auto simp: store_auth_def intro: exI [of _ "as_cache s"])

lemma lookup_keeps:
  assumes "lookup_auth w h now s = (found, s')"
  shows "s' = s\<lparr>as_cache := as_cache s'\<rparr>"
proof (cases "read_cached_auth w h now s")
  case (Pair hit s1)
  obtain c where s1: "s1 = s\<lparr>as_cache := c\<rparr>" using cached_keeps [OF Pair] by blast
  have "\<exists>c. s' = s\<lparr>as_cache := c\<rparr>"
    using assms Pair store_keeps [of w h _ now s1] s1
    by (fastforce simp: lookup_auth_def split: option.splits sum.splits)
  then show ?thesis by fastforce
qed

text \<open>Where a record comes from: the table, or the cache entry of the token's key.\<close>

lemma lookup_source:
  assumes "lookup_auth w h now s = (Inr found, s')"
  shows "fst (cache_get (as_cache s) (apiAuthCacheKey h) now) = Some found \<and> \<not> aw_cacheReadFails w \<or>
         findApiTokenByHash (as_tokens s) h = Some (ca_tokenRecord found)"
proof (cases "read_cached_auth w h now s")
  case (Pair hit s1)
  note kept = cached_keeps [OF Pair]
  have tokens: "as_tokens s1 = as_tokens s" by (subst kept) simp
  show ?thesis
  proof (cases hit)
    case None
    then show ?thesis using assms Pair tokens by (auto simp: lookup_auth_def load_auth_def split: if_splits option.splits sum.splits)
  next
    case (Some f)
    then show ?thesis using assms Pair by (auto simp: lookup_auth_def read_cached_auth_def split: if_splits prod.splits)
  qed
qed

definition entitled :: "auth_world \<Rightarrow> string option \<Rightarrow> jsnum \<Rightarrow> auth_state \<Rightarrow> ApiTokenContext \<Rightarrow> bool" where
  "entitled w clientIp now s ctx \<longleftrightarrow>
     (let r = act_tokenRecord ctx; user = act_user ctx; t = as_tables s (act_tenantDbName ctx) in
      \<not> token_expired r now
      \<and> (hasIpRestriction (tok_allowedIpRanges r) \<longrightarrow> fst (isIpAllowed (as_ranges s) clientIp (tok_allowedIpRanges r)))
      \<and> map_get (tt_users t) (tr_userId r) = Some user
      \<and> au_status user \<noteq> Some ''disabled'' \<and> au_kind user \<noteq> Some ''external''
      \<and> (given_id (tr_projectId r) \<noteq> None \<longrightarrow> tr_projectId r = Some (act_projectId ctx))
      \<and> canTokenOwnerAccessProject (sqlite_project_db w t) user (act_projectId ctx) = Answers True)"

lemma admit_entitled:
  assumes "admit w token h found clientIp now s = (Inr ctx, s')"
  shows "entitled w clientIp now s ctx \<and> act_token ctx = token \<and> act_tokenRecord ctx = ca_tokenRecord found"
proof -
  obtain s1 where address: "check_address clientIp (ca_tokenRecord found) s = (True, s1)"
    and fresh: "\<not> token_expired (ca_tokenRecord found) now"
    using assms by (auto simp: admit_def Let_def split: if_splits prod.splits bool.splits)
  define tenant where "tenant = (ca_tenant found)\<lparr>at_licenseType :=
      lic_type (getEffectiveLicenseForTenant (aw_policies w) (Some (license_tenant.truncate (ca_tenant found))) now)\<rparr>"
  obtain user default_id s2 projectId where owner: "token_owner w (ca_tokenRecord found) tenant s1 = Inr user"
    and project: "ensureDefaultProject w (at_dbName tenant) s1 = (Some default_id, s2)"
    and chosen: "opt_or (given_id (tr_projectId (ca_tokenRecord found))) (given_id (Some default_id)) = Some projectId"
    and allowed: "assertOwnerProjectAccess w s2 (at_dbName tenant) user projectId = None"
    and ctx: "ctx = \<lparr>act_token = token, act_tokenRecord = ca_tokenRecord found, act_tenant = tenant,
        act_tenantId = tr_tenantId (ca_tokenRecord found), act_tenantSlug = at_slug tenant, act_tenantDbName = at_dbName tenant,
        act_projectId = projectId, act_user = user\<rparr>"
    using assms fresh unfolding admit_def Let_def address tenant_def [symmetric]
    by (auto split: sum.splits prod.splits option.splits)
  have tables: "as_tables s1 = as_tables s" by (subst address_keeps [OF address]) simp
  have access: "sqlite_project_db w (as_tables s2 (at_dbName tenant)) = sqlite_project_db w (as_tables s (at_dbName tenant))"
    using project_keeps [OF project, of "at_dbName tenant"] by (intro same_access) (simp_all add: tables)
  have "map_get (tt_users (as_tables s (at_dbName tenant))) (tr_userId (ca_tokenRecord found)) = Some user \<and>
      au_status user \<noteq> Some ''disabled'' \<and> au_kind user \<noteq> Some ''external''"
    using owner by (auto simp: token_owner_def tables isUserDisabled_def split: if_splits option.splits)
  moreover have "hasIpRestriction (tok_allowedIpRanges (ca_tokenRecord found)) \<longrightarrow>
      fst (isIpAllowed (as_ranges s) clientIp (tok_allowedIpRanges (ca_tokenRecord found)))"
    using address by (auto simp: check_address_def split: if_splits prod.splits)
  moreover have "given_id (tr_projectId (ca_tokenRecord found)) \<noteq> None \<longrightarrow> tr_projectId (ca_tokenRecord found) = Some projectId"
    using chosen by (cases "tr_projectId (ca_tokenRecord found)") (auto simp: given_id_def split: if_splits)
  moreover have "canTokenOwnerAccessProject (sqlite_project_db w (as_tables s (at_dbName tenant))) user projectId = Answers True"
    using allowed by (auto simp: assertOwnerProjectAccess_def access split: query.splits if_splits)
  ultimately show ?thesis using fresh by (simp add: ctx entitled_def Let_def)
qed

text \<open>
  C11: Whoever is let in is entitled at that very moment. If a request is accepted, the header holds the token, the token's
  record comes from the table or from the cache entry of the token's key, and on the state of this request the token has not
  expired, the address is in its allowlist if it has one, its owner exists in the tenant's database, is neither
  disabled nor external and may work in the token's project: nothing but the token record and the tenant is cached.
\<close>

theorem accepted_caller_is_entitled:
  assumes "requireApiTokenFromHeader w sha authHeader clientIp now s = (Inr ctx, s')"
  shows "bearer_token authHeader = Inr (act_token ctx) \<and> entitled w clientIp now s ctx \<and>
         (findApiTokenByHash (as_tokens s) (sha (act_token ctx)) = Some (act_tokenRecord ctx) \<or>
          (\<exists>tenant. fst (cache_get (as_cache s) (apiAuthCacheKey (sha (act_token ctx))) now) =
             Some \<lparr>ca_tokenRecord = act_tokenRecord ctx, ca_tenant = tenant\<rparr>))"
proof -
  obtain token found s1 where token: "bearer_token authHeader = Inr token"
    and found: "lookup_auth w (sha token) now s = (Inr found, s1)"
    and admitted: "admit w token (sha token) found clientIp now s1 = (Inr ctx, s')"
    using assms by (auto simp: requireApiTokenFromHeader_def split: sum.splits prod.splits)
  note ctx = admit_entitled [OF admitted]
  have "entitled w clientIp now s1 ctx = entitled w clientIp now s ctx"
    unfolding entitled_def Let_def by (subst (1 2 3) lookup_keeps [OF found]) simp
  then show ?thesis
    using ctx token lookup_source [OF found] by (cases found) auto
qed

definition refused_untouched :: "auth_state \<Rightarrow> auth_state \<Rightarrow> bool" where
  "refused_untouched s s' \<longleftrightarrow> as_tokens s' = as_tokens s \<and> as_lastUsed s' = as_lastUsed s \<and> as_tenants s' = as_tenants s"

lemma untouched_trans: "refused_untouched a b \<Longrightarrow> refused_untouched b c \<Longrightarrow> refused_untouched a c"
  by (simp add: refused_untouched_def)

lemma project_untouched: "ensureDefaultProject w d s = (p, s') \<Longrightarrow> refused_untouched s s'"
  by (auto simp: ensureDefaultProject_def refused_untouched_def Let_def split: if_splits option.splits)

lemma address_untouched: "check_address clientIp r s = (ok, s') \<Longrightarrow> refused_untouched s s' \<and> as_tables s' = as_tables s"
  using address_keeps [of clientIp r s ok s'] by (metis auth_state.select_convs(4) auth_state.surjective auth_state.update_convs(6)
      auth_state.select_convs(1-3) refused_untouched_def)

lemma lookup_untouched: "lookup_auth w h now s = (found, s') \<Longrightarrow> refused_untouched s s' \<and> as_tables s' = as_tables s"
  using lookup_keeps [of w h now s found s'] by (metis auth_state.select_convs(1-4) auth_state.surjective auth_state.update_convs(5)
      refused_untouched_def)

lemma admit_refused:
  assumes "admit w token h found clientIp now s = (Inl e, s')"
  shows "refused_untouched s s' \<and> (as_tables s' = as_tables s \<or> e \<in> {ProjectMissing, ProjectAccessUnreadable, NoProjectAccess})"
proof (cases "check_address clientIp (ca_tokenRecord found) s")
  case (Pair ok s1)
  note kept = address_untouched [OF Pair]
  show ?thesis
  proof (cases "token_expired (ca_tokenRecord found) now \<or> \<not> ok")
    case True
    then show ?thesis using assms Pair kept by (auto simp: admit_def Let_def refused_untouched_def split: if_splits)
  next
    case False
    define tenant where "tenant = (ca_tenant found)\<lparr>at_licenseType :=
        lic_type (getEffectiveLicenseForTenant (aw_policies w) (Some (license_tenant.truncate (ca_tenant found))) now)\<rparr>"
    show ?thesis
    proof (cases "token_owner w (ca_tokenRecord found) tenant s1")
      case (Inl e1)
      then show ?thesis using assms Pair False kept by (auto simp: admit_def Let_def tenant_def [symmetric])
    next
      case (Inr user)
      obtain p s2 where project: "ensureDefaultProject w (at_dbName tenant) s1 = (p, s2)" by fastforce
      have none: "p = None \<Longrightarrow> s2 = s1" using project by (auto simp: ensureDefaultProject_def Let_def split: if_splits option.splits)
      show ?thesis
        using assms Pair False kept Inr project none untouched_trans [OF _ project_untouched [OF project], of s]
        by (auto simp: admit_def Let_def tenant_def [symmetric] assertOwnerProjectAccess_def
            split: option.splits query.splits if_splits)
    qed
  qed
qed

text \<open>
  A refusal leaves no trace: a refused request changes no token, stamps no last use and changes no tenant, and the
  tables of the tenants stay as they are too, except that a default project may have been created when the only
  thing wrong was the project.
\<close>

theorem refused_request_leaves_no_trace:
  assumes "requireApiTokenFromHeader w sha authHeader clientIp now s = (Inl e, s')"
  shows "as_tokens s' = as_tokens s \<and> as_lastUsed s' = as_lastUsed s \<and> as_tenants s' = as_tenants s \<and>
         (as_tables s' = as_tables s \<or> e \<in> {ProjectMissing, ProjectAccessUnreadable, NoProjectAccess})"
proof (cases "bearer_token authHeader")
  case (Inl e1)
  then show ?thesis using assms by (simp add: requireApiTokenFromHeader_def)
next
  case (Inr token)
  obtain found s1 where found: "lookup_auth w (sha token) now s = (found, s1)" by fastforce
  note kept = lookup_untouched [OF found]
  show ?thesis
  proof (cases found)
    case (Inl e1)
    then show ?thesis using assms Inr found kept by (simp add: requireApiTokenFromHeader_def refused_untouched_def)
  next
    case found': (Inr f)
    then have "admit w token (sha token) f clientIp now s1 = (Inl e, s')"
      using assms Inr found by (simp add: requireApiTokenFromHeader_def)
    from admit_refused [OF this] show ?thesis using kept by (auto simp: refused_untouched_def)
  qed
qed

section \<open>Revoking a token\<close>

text \<open>
  What goes on beside a request. A lookup that missed the cache holds the record it read (\<open>run_loads\<close>) until it stores it
  with the tenant it then found, or gives up. Tokens are issued with hashes outside \<open>gone\<close>, the keys of tokens that are not
  issued again.
\<close>

record auth_run =
  run_state :: auth_state
  run_now :: jsnum
  run_loads :: "(string \<times> token_record) list"

inductive auth_step :: "string set \<Rightarrow> auth_run \<Rightarrow> auth_run \<Rightarrow> bool" for gone where
  waits: "run_now r \<le> t \<Longrightarrow> auth_step gone r (r\<lparr>run_now := t\<rparr>)"
| looks: "auth_step gone r (r\<lparr>run_state := snd (read_cached_auth w h (run_now r) (run_state r))\<rparr>)"
| reads: "findApiTokenByHash (as_tokens (run_state r)) h = Some rec \<Longrightarrow>
    auth_step gone r (r\<lparr>run_loads := (h, rec) # run_loads r\<rparr>)"
| stores: "(h, rec) \<in> set (run_loads r) \<Longrightarrow>
    auth_step gone r (r\<lparr>run_loads := remove1 (h, rec) (run_loads r),
      run_state := store_auth w h \<lparr>ca_tokenRecord = rec, ca_tenant = tenant\<rparr> (run_now r) (run_state r)\<rparr>)"
| gives_up: "auth_step gone r (r\<lparr>run_loads := remove1 load (run_loads r)\<rparr>)"
| issues: "(\<And>h. tr_tokenHash rec = Some h \<Longrightarrow> apiAuthCacheKey h \<notin> gone) \<Longrightarrow>
    auth_step gone r (r\<lparr>run_state := (run_state r)\<lparr>as_tokens := as_tokens (run_state r) @ [rec]\<rparr>\<rparr>)"
| edits: "auth_step gone r (r\<lparr>run_state := (run_state r)\<lparr>as_tokens := snd (updateApiToken (as_tokens (run_state r)) i tn p)\<rparr>\<rparr>)"
| deletes: "auth_step gone r (r\<lparr>run_state := (run_state r)\<lparr>as_tokens := snd (deleteApiToken (as_tokens (run_state r)) i u)\<rparr>\<rparr>)"
| invalidates: "auth_step gone r (r\<lparr>run_state := invalidateApiTokenAuthCache w h (run_state r)\<rparr>)"
| sweeps: "auth_step gone r (r\<lparr>run_state := (run_state r)\<lparr>as_cache := evict (as_cache (run_state r)) (run_now r)\<rparr>\<rparr>)"
| elsewhere: "auth_step gone r (r\<lparr>run_state := (run_state r)\<lparr>as_tables := t, as_tenants := tn, as_lastUsed := l, as_ranges := m\<rparr>\<rparr>)"

definition key_free :: "string \<Rightarrow> auth_run \<Rightarrow> bool" where
  "key_free key r \<longleftrightarrow>
     (\<forall>rec \<in> set (as_tokens (run_state r)). \<forall>h. tr_tokenHash rec = Some h \<longrightarrow> apiAuthCacheKey h \<noteq> key) \<and>
     (\<forall>(h, rec) \<in> set (run_loads r). apiAuthCacheKey h \<noteq> key)"

abbreviation run_entry :: "auth_run \<Rightarrow> string \<Rightarrow> (cached_auth \<times> jsnum) option" where
  "run_entry r key \<equiv> stored_entry (as_cache (run_state r)) key"

definition auth_ok :: "auth_run \<Rightarrow> bool" where
  "auth_ok r \<longleftrightarrow> cache_ok (as_cache (run_state r)) \<and> 0 \<le> run_now r \<and>
     (\<forall>key. ends_by (run_entry r key) (run_now r + AUTH_CACHE_TTL * 1000))"

lemma ttl_pos [simp]: "0 < AUTH_CACHE_TTL" "0 \<le> AUTH_CACHE_TTL"
  by (simp_all add: AUTH_CACHE_TTL_def)

lemma read_cache:
  "as_cache (snd (read_cached_auth w h now s)) = (if aw_cacheReadFails w then as_cache s else snd (cache_get (as_cache s) (apiAuthCacheKey h) now))"
  by (simp add: read_cached_auth_def split: prod.splits)

lemma step_ok: "auth_step gone r r' \<Longrightarrow> auth_ok r \<Longrightarrow> auth_ok r'"
proof (induction rule: auth_step.induct)
  case (waits r t)
  then show ?case by (fastforce simp: auth_ok_def intro: ends_by_mono)
next
  case (looks r w h)
  then show ?case by (auto simp: auth_ok_def read_cache expiring.ends_get)
next
  case (stores h rec r w tenant)
  then show ?case by (auto simp: auth_ok_def store_auth_def intro!: expiring.ends_put)
next
  case (invalidates r w h)
  then show ?case by (auto simp: auth_ok_def invalidateApiTokenAuthCache_def expiring.ends_del split: option.splits)
next
  case (sweeps r)
  then show ?case by (auto simp: auth_ok_def expiring.ends_sweep)
qed (auto simp: auth_ok_def)

lemma reachable_ok_auth: "(auth_step gone)\<^sup>*\<^sup>* r r' \<Longrightarrow> auth_ok r \<Longrightarrow> auth_ok r'"
  by (induction rule: rtranclp_induct) (auto intro: step_ok)

lemma hash_kept: "tr_tokenHash (store_patch p r) = tr_tokenHash r"
  by (simp add: store_patch_def)

lemma key_free_step: "auth_step {key} r r' \<Longrightarrow> key_free key r \<Longrightarrow> key_free key r'"
proof (induction rule: auth_step.induct)
  case (looks r w h)
  have "as_tokens (snd (read_cached_auth w h (run_now r) (run_state r))) = as_tokens (run_state r)"
    by (simp add: read_cached_auth_def split: prod.splits)
  with looks show ?case by (simp add: key_free_def)
next
  case (reads r h rec)
  then have "rec \<in> set (as_tokens (run_state r)) \<and> tr_tokenHash rec = Some h"
    by (auto simp: findApiTokenByHash_def dest!: find_SomeD)
  with reads show ?case by (auto simp: key_free_def)
next
  case (stores h rec r w tenant)
  then show ?case by (auto simp: key_free_def store_auth_def dest: notin_set_remove1 set_remove1_subset [THEN subsetD])
next
  case (gives_up r load)
  then show ?case using set_remove1_subset [of load "run_loads r"] by (fastforce simp: key_free_def)
next
  case (edits r i tn p)
  then show ?case by (auto simp: key_free_def updateApiToken_def Let_def hash_kept)
next
  case (invalidates r w h)
  then show ?case by (auto simp: key_free_def invalidateApiTokenAuthCache_def split: option.splits)
qed (auto simp: key_free_def deleteApiToken_def)

lemma entry_step:
  assumes "auth_step {key} r r'" "key_free key r" "auth_ok r"
  shows "run_entry r' key = None \<or> run_entry r' key = run_entry r key"
  using assms
proof (induction rule: auth_step.induct)
  case (looks r w h)
  then show ?case using expiring.stored_get [of "as_cache (run_state r)" _ _ key] by (auto simp: auth_ok_def read_cache)
next
  case (stores h rec r w tenant)
  then have "apiAuthCacheKey h \<noteq> key" by (auto simp: key_free_def)
  with stores show ?case by (auto simp: auth_ok_def store_auth_def expiring.other_put)
next
  case (invalidates r w h)
  then show ?case by (auto simp: auth_ok_def invalidateApiTokenAuthCache_def expiring.stored_del split: option.splits)
next
  case (sweeps r)
  then show ?case using expiring.stored_sweep [of "as_cache (run_state r)" _ key] by (auto simp: auth_ok_def)
qed simp_all

lemma run_forgets:
  assumes "(auth_step {key})\<^sup>*\<^sup>* r r'" "key_free key r" "auth_ok r"
  shows "key_free key r' \<and> auth_ok r' \<and> (run_entry r' key = None \<or> run_entry r' key = run_entry r key)"
  using assms
proof (induction rule: rtranclp_induct)
  case (step r1 r2)
  then show ?case using key_free_step [OF step(2)] step_ok [OF step(2)] entry_step [OF step(2)] by auto
qed simp

lemma unknown_refused:
  assumes "key_free (apiAuthCacheKey (sha token)) r" "bearer_token authHeader = Inr token"
    and "fst (cache_get (as_cache (run_state r)) (apiAuthCacheKey (sha token)) (run_now r)) = None"
  shows "fst (requireApiTokenFromHeader w sha authHeader clientIp (run_now r) (run_state r)) \<in> {Inl InvalidToken, Inl AuthThrows}"
proof -
  have none: "findApiTokenByHash (as_tokens (run_state r)) (sha token) = None"
    using assms(1) by (auto simp: key_free_def findApiTokenByHash_def find_None_iff)
  obtain s1 where read: "read_cached_auth w (sha token) (run_now r) (run_state r) = (None, s1)" "as_tokens s1 = as_tokens (run_state r)"
    using assms(3) by (cases "read_cached_auth w (sha token) (run_now r) (run_state r)")
      (auto simp: read_cached_auth_def split: if_splits prod.splits)
  then have "lookup_auth w (sha token) (run_now r) (run_state r) = (Inl (if aw_tokenQueryFails w then AuthThrows else InvalidToken), s1)"
    using none by (simp add: lookup_auth_def load_auth_def)
  then show ?thesis using assms(2) by (simp add: requireApiTokenFromHeader_def)
qed

text \<open>
  What a revocation does (the deletion of a token by its owner or an administrator, in \<^verbatim>\<open>tokens.ts\<close> and \<^verbatim>\<open>projects.ts\<close>): it
  deletes the row of the token, and after that it drops the cache entry of its hash. Other requests run in between.
\<close>

definition delete_token :: "token_record \<Rightarrow> auth_run \<Rightarrow> auth_run" where
  "delete_token rec r =
     r\<lparr>run_state := (run_state r)\<lparr>as_tokens := snd (deleteApiToken (as_tokens (run_state r)) (tr_id rec) (tr_userId rec))\<rparr>\<rparr>"

definition forget_token :: "auth_world \<Rightarrow> token_record \<Rightarrow> auth_run \<Rightarrow> auth_run" where
  "forget_token w rec r = r\<lparr>run_state := invalidateApiTokenAuthCache w (tr_tokenHash rec) (run_state r)\<rparr>"

lemma revocation_steps: "auth_step gone r (delete_token rec r)" "auth_step gone r (forget_token w rec r)"
  unfolding delete_token_def forget_token_def by (rule auth_step.deletes, rule auth_step.invalidates)

definition rows_free :: "string \<Rightarrow> auth_run \<Rightarrow> bool" where
  "rows_free key r \<longleftrightarrow> (\<forall>rec \<in> set (as_tokens (run_state r)). \<forall>h. tr_tokenHash rec = Some h \<longrightarrow> apiAuthCacheKey h \<noteq> key)"

definition loads_free :: "string \<Rightarrow> auth_run \<Rightarrow> bool" where
  "loads_free key r \<longleftrightarrow> (\<forall>(h, rec) \<in> set (run_loads r). apiAuthCacheKey h \<noteq> key)"

lemma key_free_parts: "key_free key r \<longleftrightarrow> rows_free key r \<and> loads_free key r"
  by (simp add: key_free_def rows_free_def loads_free_def)

lemma rows_free_step: "auth_step {key} r r' \<Longrightarrow> rows_free key r \<Longrightarrow> rows_free key r'"
proof (induction rule: auth_step.induct)
  case (looks r w h)
  have "as_tokens (snd (read_cached_auth w h (run_now r) (run_state r))) = as_tokens (run_state r)"
    by (simp add: read_cached_auth_def split: prod.splits)
  with looks show ?case by (simp add: rows_free_def)
next
  case (edits r i tn p)
  then show ?case by (auto simp: rows_free_def updateApiToken_def Let_def hash_kept)
qed (auto simp: rows_free_def deleteApiToken_def store_auth_def invalidateApiTokenAuthCache_def split: option.splits)

lemma rows_free_run: "(auth_step {key})\<^sup>*\<^sup>* r r' \<Longrightarrow> rows_free key r \<Longrightarrow> rows_free key r'"
  by (induction rule: rtranclp_induct) (auto intro: rows_free_step)

text \<open>Nobody else's token has the cache key of this one: the key is sixteen digits of the hash.\<close>

definition sole_token :: "token_record \<Rightarrow> string \<Rightarrow> auth_run \<Rightarrow> bool" where
  "sole_token rec key r \<longleftrightarrow>
     (\<forall>x \<in> set (as_tokens (run_state r)). \<forall>h. tr_tokenHash x = Some h \<longrightarrow> apiAuthCacheKey h = key \<longrightarrow>
        tr_id x = tr_id rec \<and> tr_userId x = tr_userId rec)"

lemma deleted_rows: "sole_token rec key r \<Longrightarrow> rows_free key (delete_token rec r)"
  by (auto simp: sole_token_def rows_free_def delete_token_def deleteApiToken_def)

lemma forgotten_entry:
  assumes "auth_ok r" "tr_tokenHash rec = Some h" "h \<noteq> []" "\<not> aw_cacheWriteFails w"
  shows "run_entry (forget_token w rec r) (apiAuthCacheKey h) = None"
  using assms by (simp add: forget_token_def invalidateApiTokenAuthCache_def given_id_def auth_ok_def expiring.stored_del)

lemma any_steps: "auth_step gone r r' \<Longrightarrow> auth_step {} r r'"
  by (induction rule: auth_step.induct) (auto intro: auth_step.intros)

lemma any_run: "(auth_step gone)\<^sup>*\<^sup>* r r' \<Longrightarrow> (auth_step {})\<^sup>*\<^sup>* r r'"
  by (induction rule: rtranclp_induct) (auto intro: any_steps rtranclp.rtrancl_into_rtrancl)

text \<open>
  C10: Revocation takes effect. A console starts with a cold cache and runs in any way; the token is used, so it may be cached.
  Then it is revoked: its row is deleted, other requests go on, and its cache entry is dropped. From then on, whatever
  lookups, issues of other tokens, edits, deletions, sweeps and cache failures follow, every request with the token is refused
  at once; and if dropping the entry failed, it is refused once the time to live has passed. What is asked: no lookup that
  read the row before its deletion is still under way when the entry is dropped, and no other token shares the cache key.
\<close>

theorem revoked_token_is_refused:
  assumes "cache_store (as_cache (run_state r0)) = []" "cache_ok (as_cache (run_state r0))" "0 \<le> run_now r0"
    and "(auth_step {})\<^sup>*\<^sup>* r0 r1"
    and "tr_tokenHash rec = Some (sha token)" "sha token \<noteq> []" "sole_token rec (apiAuthCacheKey (sha token)) r1"
    and "(auth_step {apiAuthCacheKey (sha token)})\<^sup>*\<^sup>* (delete_token rec r1) r2"
    and "loads_free (apiAuthCacheKey (sha token)) r2"
    and "(auth_step {apiAuthCacheKey (sha token)})\<^sup>*\<^sup>* (forget_token w rec r2) r3"
    and "\<not> aw_cacheWriteFails w \<or> run_now r2 + AUTH_CACHE_TTL * 1000 < run_now r3"
    and "bearer_token authHeader = Inr token"
  shows "fst (requireApiTokenFromHeader w' sha authHeader clientIp (run_now r3) (run_state r3)) \<in> {Inl InvalidToken, Inl AuthThrows}"
proof -
  let ?key = "apiAuthCacheKey (sha token)" and ?r = "forget_token w rec r2"
  have "auth_ok r0" using assms(1-3) by (simp add: auth_ok_def stored_entry_def)
  then have "auth_ok (delete_token rec r1)" using reachable_ok_auth [OF assms(4)] step_ok [OF revocation_steps(1)] by blast
  then have ok2: "auth_ok r2" by (rule reachable_ok_auth [OF assms(8)])
  then have ok: "auth_ok ?r" by (rule step_ok [OF revocation_steps(2)])
  have "key_free ?key r2"
    using rows_free_run [OF assms(8) deleted_rows [OF assms(7)]] assms(9) by (simp add: key_free_parts)
  then have free: "key_free ?key ?r" by (rule key_free_step [OF revocation_steps(2)])
  note later = run_forgets [OF assms(10) free ok]
  then have ok3: "cache_ok (as_cache (run_state r3))" by (simp add: auth_ok_def)
  have "fst (cache_get (as_cache (run_state r3)) ?key (run_now r3)) = None"
  proof (cases "run_entry r3 ?key = None")
    case True
    then show ?thesis by (rule expiring.absent [OF ok3])
  next
    case False
    then have same: "run_entry r3 ?key = run_entry ?r ?key" using later by auto
    then have "aw_cacheWriteFails w" using False same forgotten_entry [OF ok2 assms(5,6), of w] by (cases "aw_cacheWriteFails w") simp_all
    then have "run_now ?r + AUTH_CACHE_TTL * 1000 < run_now r3" using assms(11) by (simp add: forget_token_def)
    moreover have "ends_by (run_entry r3 ?key) (run_now ?r + AUTH_CACHE_TTL * 1000)" using ok by (simp add: same auth_ok_def)
    ultimately show ?thesis using expiring.over [OF ok3] by blast
  qed
  then show ?thesis using unknown_refused [of sha token r3] later assms(12) by blast
qed

section \<open>Examples and limits\<close>

definition calm :: auth_world where
  "calm = \<lparr>aw_policies = \<lparr>cfg_licenses = [], cfg_features = []\<rparr>, aw_cacheReadFails = False, aw_cacheWriteFails = False,
     aw_tokenQueryFails = False, aw_userQueryFails = False, aw_projectQueryFails = False, aw_membershipQueryFails = False,
     aw_groupQueryFails = False, aw_groupProjectQueryFails = False, aw_newProjectId = ''new''\<rparr>"

definition ada :: auth_user where
  "ada = \<lparr>user_role = Some ''admin'', user_permissions = PermNullish, projectIds = None, au_id = Some ''ada'',
     au_tenantId = Some ''acme'', au_canLogin = None, au_status = None, au_kind = None\<rparr>"

definition acme :: auth_tenant where
  "acme = \<lparr>tn_licenseStatus = StatusFree, tn_licensePayload = None, tn_licenseId = [], tn_licenseExpiresAt = None,
     at_slug = ''acme'', at_dbName = ''tenant_acme'', at_licenseType = FREE\<rparr>"

definition token_row :: "string \<Rightarrow> string \<Rightarrow> token_record" where
  "token_row i h = \<lparr>tok_label = ''ci'', tok_createdAt = None, tok_expiresAt = None, tok_allowedIpRanges = StoredNullish,
     tok_requireUserToken = False, tr_id = i, tr_userId = ''ada'', tr_tenantId = ''acme'', tr_projectId = Some ''p'',
     tr_token = None, tr_tokenHash = Some h\<rparr>"

definition console :: "token_record list \<Rightarrow> auth_state" where
  "console tokens = \<lparr>as_tokens = tokens, as_lastUsed = [], as_tenants = [(''acme'', acme)],
     as_tables = (\<lambda>db. \<lparr>tt_users = [(''ada'', ada)], tt_projects = [(''d'', ''default'')], tt_userProjects = [], tt_groupMembers = [],
        tt_groupProjects = []\<rparr>), as_cache = new_cache 300, as_ranges = []\<rparr>"

lemmas example_defs = calm_def ada_def acme_def token_row_def console_def new_cache_def

lemma console_admits:
  assumes "as_tables s = as_tables (console [])" "ca_tokenRecord found = token_row i h" "ca_tenant found = acme"
  shows "\<exists>ctx s'. admit calm token k found ip now s = (Inr ctx, s') \<and> act_tokenRecord ctx = token_row i h"
  using assms
  by (simp add: admit_def check_address_def hasIpRestriction_def token_expired_def token_owner_def isUserDisabled_def
      ensureDefaultProject_def assertOwnerProjectAccess_def canTokenOwnerAccessProject_def isProgrammaticUser_def
      canAccessProject_def hasImplicitProjectAccess_def given_id_def DEFAULT_PROJECT_KEY_def Let_def example_defs)

lemma bearer_example: "bearer_token (Some ''Bearer t'') = Inr ''t''"
  by code_simp

theorem access_agrees_with_membership_witness:
  "canAccessProject (sqlite_project_db calm (as_tables (console []) ''tenant_acme'')) ''bob'' (Some ''user'') ''p'' (Some [''p'']) = Answers True"
proof -
  let ?db = "sqlite_project_db calm (as_tables (console []) ''tenant_acme'')"
  have "readProjectMembership ?db ''bob'' ''user'' ''p'' (Some [''p'']) = Answers (Some (Member, []))"
    by (simp add: readProjectMembership_def sqlite_project_db_def example_defs own_sources_def getLegacyProjectIds_def
        merged_membership_def mergeServicePermissions_def normalizeServicePermissions.simps)
  from access_agrees_with_membership [OF this] show ?thesis by simp
qed

lemma console_accepts:
  "\<exists>ctx s'. requireApiTokenFromHeader calm id (Some ''Bearer t'') None now (console [token_row ''1'' ''t'']) = (Inr ctx, s') \<and>
     act_tokenRecord ctx = token_row ''1'' ''t''"
proof -
  let ?found = "\<lparr>ca_tokenRecord = token_row ''1'' ''t'', ca_tenant = acme\<rparr>"
  have "lookup_auth calm ''t'' now (console [token_row ''1'' ''t'']) =
      (Inr ?found, store_auth calm ''t'' ?found now (console [token_row ''1'' ''t'']))"
    by (simp add: lookup_auth_def read_cached_auth_def load_auth_def cache_get_def findApiTokenByHash_def example_defs)
  moreover have "as_tables (store_auth calm ''t'' ?found now (console [token_row ''1'' ''t''])) = as_tables (console [])"
    by (simp add: store_auth_def console_def)
  ultimately show ?thesis
    using console_admits [of "store_auth calm ''t'' ?found now (console [token_row ''1'' ''t''])" ?found "''1''" "''t''" "''t''" "''t''" None now]
    by (auto simp: requireApiTokenFromHeader_def bearer_example)
qed

theorem accepted_caller_is_entitled_witness:
  "\<exists>ctx. bearer_token (Some ''Bearer t'') = Inr (act_token ctx) \<and> entitled calm None 5 (console [token_row ''1'' ''t'']) ctx"
proof -
  obtain ctx s' where "requireApiTokenFromHeader calm id (Some ''Bearer t'') None 5 (console [token_row ''1'' ''t'']) = (Inr ctx, s')"
    using console_accepts [of 5] by auto
  from accepted_caller_is_entitled [OF this] show ?thesis by blast
qed

theorem refused_request_leaves_no_trace_witness:
  "as_lastUsed (snd (requireApiTokenFromHeader calm id (Some ''Bearer t'') None 5 (console []))) = []"
proof -
  have "requireApiTokenFromHeader calm id (Some ''Bearer t'') None 5 (console []) = (Inl InvalidToken, console [])"
    by (simp add: requireApiTokenFromHeader_def bearer_example lookup_auth_def read_cached_auth_def load_auth_def cache_get_def
        findApiTokenByHash_def example_defs)
  from refused_request_leaves_no_trace [OF this] show ?thesis
    by (simp add: requireApiTokenFromHeader_def bearer_example lookup_auth_def read_cached_auth_def load_auth_def cache_get_def
        findApiTokenByHash_def example_defs)
qed

text \<open>A token in use: its record is cached and a request with it is accepted; then it is revoked.\<close>

definition in_use :: auth_run where
  "in_use = \<lparr>run_state = store_auth calm ''t'' \<lparr>ca_tokenRecord = token_row ''1'' ''t'', ca_tenant = acme\<rparr> 5 (console [token_row ''1'' ''t'']),
     run_now = 5, run_loads = []\<rparr>"

lemma in_use_reached: "(auth_step {})\<^sup>*\<^sup>* \<lparr>run_state = console [token_row ''1'' ''t''], run_now = 5, run_loads = []\<rparr> in_use"
proof -
  let ?row = "token_row ''1'' ''t''"
  let ?r0 = "\<lparr>run_state = console [?row], run_now = 5, run_loads = []\<rparr>"
  have "auth_step {} ?r0 (?r0\<lparr>run_loads := [(''t'', ?row)]\<rparr>)"
    using auth_step.reads [of ?r0 "''t''" ?row] by (simp add: findApiTokenByHash_def example_defs)
  moreover have "auth_step {} (?r0\<lparr>run_loads := [(''t'', ?row)]\<rparr>) in_use"
    using auth_step.stores [of "''t''" ?row "?r0\<lparr>run_loads := [(''t'', ?row)]\<rparr>" "{}" calm acme] by (simp add: in_use_def)
  ultimately show ?thesis by (meson converse_rtranclp_into_rtranclp rtranclp.rtrancl_refl)
qed

lemma in_use_accepted: "\<exists>ctx s'. requireApiTokenFromHeader calm id (Some ''Bearer t'') None 6 (run_state in_use) = (Inr ctx, s')"
proof -
  let ?found = "\<lparr>ca_tokenRecord = token_row ''1'' ''t'', ca_tenant = acme\<rparr>"
  have "lookup_auth calm ''t'' 6 (run_state in_use) = (Inr ?found, run_state in_use)"
    by (simp add: in_use_def lookup_auth_def read_cached_auth_def store_auth_def cache_get_def cache_set_def expiry_def entry_expired_def
        AUTH_CACHE_TTL_def example_defs)
  moreover have "as_tables (run_state in_use) = as_tables (console [])" by (simp add: in_use_def store_auth_def console_def)
  ultimately show ?thesis
    using console_admits [of "run_state in_use" ?found "''1''" "''t''" "''t''" "''t''" None 6]
    by (auto simp: requireApiTokenFromHeader_def bearer_example)
qed

theorem revoked_token_is_refused_witness:
  "(\<exists>ctx s'. requireApiTokenFromHeader calm id (Some ''Bearer t'') None 6 (run_state in_use) = (Inr ctx, s'))
   \<and> fst (requireApiTokenFromHeader calm id (Some ''Bearer t'') None 7
       (run_state (forget_token calm (token_row ''1'' ''t'') (delete_token (token_row ''1'' ''t'') in_use)\<lparr>run_now := 7\<rparr>))) \<in> {Inl InvalidToken, Inl AuthThrows}"
proof -
  let ?row = "token_row ''1'' ''t''" and ?key = "apiAuthCacheKey ''t''"
  let ?r0 = "\<lparr>run_state = console [?row], run_now = 5, run_loads = []\<rparr>"
  let ?r2 = "delete_token ?row in_use"
  let ?r3 = "(forget_token calm ?row ?r2)\<lparr>run_now := 7\<rparr>"
  have run3: "run_now ?r3 = 7" by simp
  have "auth_step {?key} (forget_token calm ?row ?r2) ?r3"
    by (rule auth_step.waits) (simp add: forget_token_def delete_token_def in_use_def)
  then have s3: "(auth_step {apiAuthCacheKey (id ''t'')})\<^sup>*\<^sup>* (forget_token calm ?row ?r2) ?r3" by (simp add: r_into_rtranclp)
  have cold: "cache_store (as_cache (run_state ?r0)) = []" "cache_ok (as_cache (run_state ?r0))" "0 \<le> run_now ?r0"
    by (simp_all add: cache_ok_def example_defs)
  have hash: "tr_tokenHash ?row = Some (id ''t'')" "id ''t'' \<noteq> []" by (simp_all add: token_row_def)
  have sole: "sole_token ?row (apiAuthCacheKey (id ''t'')) in_use"
    by (simp add: sole_token_def in_use_def store_auth_def console_def calm_def)
  have free: "loads_free (apiAuthCacheKey (id ''t'')) ?r2" by (simp add: loads_free_def delete_token_def in_use_def)
  have works: "\<not> aw_cacheWriteFails calm \<or> run_now ?r2 + AUTH_CACHE_TTL * 1000 < run_now ?r3" by (simp add: calm_def)
  from revoked_token_is_refused [where w' = calm and clientIp = None and sha = id and token = "''t''", OF cold in_use_reached hash sole rtranclp.rtrancl_refl free s3 works bearer_example]
  show ?thesis using in_use_accepted run3 by simp
qed

text \<open>
  A lookup that spans a revocation undoes it: a lookup that read the token before it was deleted and stores it after the
  invalidation leaves an entry that lets the deleted token in, although the deletion and the invalidation both
  went through.
\<close>

theorem revocation_loses_a_race:
  "\<exists>r ctx s'. (auth_step {})\<^sup>*\<^sup>* \<lparr>run_state = console [token_row ''1'' ''t''], run_now = 0, run_loads = []\<rparr> r
     \<and> as_tokens (run_state r) = [] \<and> run_loads r = [] \<and> run_now r = 60000
     \<and> requireApiTokenFromHeader calm id (Some ''Bearer t'') None (run_now r) (run_state r) = (Inr ctx, s')"
proof -
  let ?row = "token_row ''1'' ''t''"
  let ?found = "\<lparr>ca_tokenRecord = ?row, ca_tenant = acme\<rparr>"
  let ?r0 = "\<lparr>run_state = console [?row], run_now = 0, run_loads = []\<rparr>"
  let ?r1 = "?r0\<lparr>run_loads := [(''t'', ?row)]\<rparr>"
  let ?r2 = "?r1\<lparr>run_state := console []\<rparr>"
  let ?s = "store_auth calm ''t'' ?found 0 (console [])"
  let ?r4 = "\<lparr>run_state = ?s, run_now = 0, run_loads = []\<rparr>"
  have 1: "auth_step {} ?r0 ?r1" using auth_step.reads [of ?r0 "''t''" ?row] by (simp add: findApiTokenByHash_def example_defs)
  have 2: "auth_step {} ?r1 ?r2"
    using auth_step.deletes [of "{}" ?r1 "''1''" "''ada''"] by (simp add: deleteApiToken_def example_defs)
  have 3: "auth_step {} ?r2 ?r2"
    using auth_step.invalidates [of "{}" ?r2 calm "Some ''t''"]
    by (simp add: invalidateApiTokenAuthCache_def given_id_def cache_del_def example_defs)
  have 4: "auth_step {} ?r2 ?r4" using auth_step.stores [of "''t''" ?row ?r2 "{}" calm acme] by simp
  have 5: "auth_step {} ?r4 (?r4\<lparr>run_now := 60000\<rparr>)" by (rule auth_step.waits) simp
  have "(auth_step {})\<^sup>*\<^sup>* ?r0 (?r4\<lparr>run_now := 60000\<rparr>)"
    using 1 2 3 4 5 by (meson converse_rtranclp_into_rtranclp rtranclp.rtrancl_refl)
  moreover have "as_tokens ?s = []" "as_tables ?s = as_tables (console [])" by (simp_all add: store_auth_def console_def)
  moreover have "lookup_auth calm ''t'' 60000 ?s = (Inr ?found, ?s)"
    by (simp add: lookup_auth_def read_cached_auth_def store_auth_def cache_get_def cache_set_def expiry_def entry_expired_def
        AUTH_CACHE_TTL_def example_defs)
  ultimately show ?thesis
    using console_admits [of ?s ?found "''1''" "''t''" "''t''" "''t''" None 60000]
    by (intro exI [of _ "?r4\<lparr>run_now := 60000\<rparr>"]) (auto simp: requireApiTokenFromHeader_def bearer_example)
qed

definition alike :: "string \<Rightarrow> string" where
  "alike t = ''0123456789abcdef-'' @ t"

text \<open>
  The cache knows a token by sixteen digits of its hash and does not look at the rest. Of two tokens whose hashes begin
  alike, whichever comes second within the time to live is taken for the first.
\<close>

theorem alike_hashes_share_a_record:
  "\<exists>ctx1 ctx2 s1 s2.
     requireApiTokenFromHeader calm alike (Some ''Bearer t'') None 1
       (console [token_row ''1'' (alike ''t''), token_row ''2'' (alike ''u'')]) = (Inr ctx1, s1) \<and>
     requireApiTokenFromHeader calm alike (Some ''Bearer u'') None 2 s1 = (Inr ctx2, s2) \<and>
     tr_id (act_tokenRecord ctx1) = ''1'' \<and> tr_id (act_tokenRecord ctx2) = ''1''"
proof -
  let ?s = "console [token_row ''1'' (alike ''t''), token_row ''2'' (alike ''u'')]"
  let ?found = "\<lparr>ca_tokenRecord = token_row ''1'' (alike ''t''), ca_tenant = acme\<rparr>"
  let ?s1 = "store_auth calm (alike ''t'') ?found 1 ?s"
  have 1: "lookup_auth calm (alike ''t'') 1 ?s = (Inr ?found, ?s1)"
    by (simp add: lookup_auth_def read_cached_auth_def load_auth_def cache_get_def findApiTokenByHash_def alike_def example_defs)
  have tables: "as_tables ?s1 = as_tables (console [])" by (simp add: store_auth_def console_def)
  obtain ctx1 s1 where first: "admit calm ''t'' (alike ''t'') ?found None 1 ?s1 = (Inr ctx1, s1)" "act_tokenRecord ctx1 = token_row ''1'' (alike ''t'')"
    using console_admits [OF tables, of ?found "''1''" "alike ''t''" "''t''" "alike ''t''" None 1] by auto
  have s1: "s1 = stamp_lastUsed (alike ''t'') 1 ?s1"
    using first(1)
    by (simp add: admit_def check_address_def hasIpRestriction_def token_expired_def token_owner_def isUserDisabled_def
      ensureDefaultProject_def assertOwnerProjectAccess_def canTokenOwnerAccessProject_def isProgrammaticUser_def
      canAccessProject_def hasImplicitProjectAccess_def given_id_def DEFAULT_PROJECT_KEY_def Let_def store_auth_def example_defs)
  have s1_fields: "as_tables s1 = as_tables (console [])" "as_cache s1 = as_cache ?s1"
    using tables by (simp_all add: s1 stamp_lastUsed_def)
  have "lookup_auth calm (alike ''u'') 2 s1 = (Inr ?found, s1)"
    by (simp add: lookup_auth_def read_cached_auth_def s1_fields store_auth_def cache_get_def cache_set_def expiry_def entry_expired_def
        AUTH_CACHE_TTL_def apiAuthCacheKey_def alike_def example_defs)
  moreover obtain ctx2 s2 where "admit calm ''u'' (alike ''u'') ?found None 2 s1 = (Inr ctx2, s2)" "act_tokenRecord ctx2 = token_row ''1'' (alike ''t'')"
    using console_admits [OF s1_fields(1), of ?found "''1''" "alike ''t''" "''u''" "alike ''u''" None 2] by auto
  moreover have "bearer_token (Some ''Bearer u'') = Inr ''u''" by code_simp
  ultimately show ?thesis
    using 1 first by (auto simp: requireApiTokenFromHeader_def bearer_example token_row_def)
qed

text \<open>
  A damaged restriction restricts: the stored allowlist reads as no restriction only when the column is null, empty or
  an empty JSON array; whatever else it holds, authentication treats the token as restricted.
\<close>

theorem damaged_restriction_restricts:
  "hasIpRestriction (case parseAllowedIpRanges parse shown raw of None \<Rightarrow> StoredNullish | Some l \<Rightarrow> StoredArray (map Some l)) \<longleftrightarrow>
     raw \<noteq> ColumnNull \<and> raw \<noteq> ColumnText '''' \<and> (\<nexists>s. raw = ColumnText s \<and> parse s = Some (JArray []))"
  by (auto simp: hasIpRestriction_def parseAllowedIpRanges_def split: ranges_column.splits option.splits json.splits)

text \<open>
  A text that is not JSON, or a JSON text in quotes, comes back as a list of one entry, and when the entry is a range
  it matches that range.
\<close>

lemma damaged_restriction_may_match:
  "parse ''10.0.0.0/8'' = None \<Longrightarrow> parseAllowedIpRanges parse shown (ColumnText ''10.0.0.0/8'') = Some [''10.0.0.0/8'']"
  "fst (isIpAllowed [] (Some ''10.1.2.3'') (StoredArray [Some ''10.0.0.0/8'']))"
  by (simp add: parseAllowedIpRanges_def) code_simp

text \<open>
  An edit and the table: a patch that \<^verbatim>\<open>prepareTokenUpdate\<close> made is stored on the row of the token and no other, and the
  row then reads as the patched token.
\<close>

lemma edit_reaches_row:
  assumes "findApiTokenById table tokenId tenantId = Some r"
  shows "fst (updateApiToken table tokenId tenantId p) = Some (store_patch p r) \<and>
         api_token.truncate (store_patch p r) = apply_patch p (api_token.truncate r) \<and>
         (\<forall>k < length table. tr_id (table ! k) \<noteq> tokenId \<or> tr_tenantId (table ! k) \<noteq> tenantId \<longrightarrow>
            snd (updateApiToken table tokenId tenantId p) ! k = table ! k)"
proof -
  have "tr_id (store_patch p x) = tr_id x" "tr_tenantId (store_patch p x) = tr_tenantId x" for x by (simp_all add: store_patch_def)
  then have "find (\<lambda>r. tr_id r = tokenId \<and> tr_tenantId r = tenantId)
      (map (\<lambda>r. if tr_id r = tokenId \<and> tr_tenantId r = tenantId then store_patch p r else r) table) = Some (store_patch p r)"
    using assms unfolding findApiTokenById_def by (induction table) (auto split: if_splits)
  then show ?thesis by (simp add: updateApiToken_def Let_def findApiTokenById_def apply_patch_def store_patch_def api_token.truncate_def split: option.split)
qed

end
