(* ===== verification/PrivateAddress.thy ===== *)
theory PrivateAddress
  imports IpAllowlist
begin

text \<open>
  Which addresses are private: \<^verbatim>\<open>isPrivateIpAddress\<close> of \<^verbatim>\<open>src/lib/security/outboundFetch.ts\<close>.

  The code decides on the text of an address. \<^verbatim>\<open>isIP\<close> of Node and \<^verbatim>\<open>Number\<close> are the arguments \<open>is_ip\<close> and \<open>num\<close>, with
  what Node documents of them as named hypotheses. The reference is numeric: a list of reserved ranges and of the ranges
  that carry an IPv4 address, over the parser of the allowlists.
\<close>

section \<open>Private addresses\<close>

definition private_v4 :: "nat list \<Rightarrow> bool" where
  "private_v4 q =
     (let a = q ! 0; b = q ! 1; c = q ! 2; d = q ! 3 in
      a = 0 \<or> a = 10 \<or> a = 127 \<or> (a = 100 \<and> b \<ge> 64 \<and> b \<le> 127) \<or> (a = 169 \<and> b = 254)
      \<or> (a = 172 \<and> b \<ge> 16 \<and> b \<le> 31) \<or> (a = 192 \<and> b = 0 \<and> c = 0) \<or> (a = 192 \<and> b = 168)
      \<or> (a = 198 \<and> (b = 18 \<or> b = 19)) \<or> (a = 168 \<and> b = 63 \<and> c = 129 \<and> d = 16) \<or> a \<ge> 224)"

text \<open>The parts of a dotted address, unless one is no integer from 0 to 255.\<close>

fun byte_of :: "js_float \<Rightarrow> nat option" where
  "byte_of (Finite x) = (if of_int \<lfloor>x\<rfloor> = x \<and> 0 \<le> x \<and> x \<le> 255 then Some (nat \<lfloor>x\<rfloor>) else None)"
| "byte_of _ = None"

fun all_some :: "'a option list \<Rightarrow> 'a list option" where
  "all_some [] = Some []"
| "all_some (x # xs) = (case (x, all_some xs) of (Some y, Some ys) \<Rightarrow> Some (y # ys) | _ \<Rightarrow> None)"

definition dotted_parts :: "(string \<Rightarrow> js_float) \<Rightarrow> string \<Rightarrow> nat list option" where
  "dotted_parts num s =
     (case all_some (map (\<lambda>p. byte_of (num p)) (split_on CHR ''.'' s)) of
        Some q \<Rightarrow> if length q = 4 then Some q else None
      | None \<Rightarrow> None)"

text \<open>\<^verbatim>\<open>parseInt(g, 16)\<close>.\<close>

definition parse_int16 :: "string \<Rightarrow> int option" where
  "parse_int16 s =
     (let t = dropWhile is_space s;
          neg = (t \<noteq> [] \<and> hd t = CHR ''-'');
          u = (if t \<noteq> [] \<and> (hd t = CHR ''-'' \<or> hd t = CHR ''+'') then tl t else t);
          v = (if take 2 u = ''0x'' \<or> take 2 u = ''0X'' then drop 2 u else u);
          ds = takeWhile is_hex v
      in if ds = [] then None else Some ((if neg then - 1 else 1) * int (parse_radix 16 ds)))"

definition group_of :: "string \<Rightarrow> nat option" where
  "group_of g = (case parse_int16 g of Some n \<Rightarrow> if n < 0 \<or> n > 65535 then None else Some (nat n) | None \<Rightarrow> None)"

definition drop_brackets :: "string \<Rightarrow> string" where
  "drop_brackets s =
     (let t = (if s \<noteq> [] \<and> hd s = CHR ''['' then tl s else s)
      in if t \<noteq> [] \<and> last t = CHR '']'' then butlast t else t)"

text \<open>The groups of the text after the rewriting of a dotted tail.\<close>

definition expand_groups :: "string \<Rightarrow> nat list option" where
  "expand_groups s =
     (let halves = split_on2 CHR '':'' CHR '':'' s in
      if length halves > 2 then None
      else
        let head = (if halves ! 0 \<noteq> [] then split_on CHR '':'' (halves ! 0) else []);
            rest = (if length halves = 2 \<and> halves ! 1 \<noteq> [] then split_on CHR '':'' (halves ! 1) else []);
            missing = 8 - int (length head) - int (length rest)
        in if missing < 0 \<or> (length halves = 1 \<and> missing \<noteq> 0) then None
           else
             case all_some (map group_of (head @ replicate (nat missing) ''0'' @ rest)) of
               Some gs \<Rightarrow> if length gs = 8 then Some gs else None
             | None \<Rightarrow> None)"

definition expandIpv6 :: "(string \<Rightarrow> js_float) \<Rightarrow> string \<Rightarrow> nat list option" where
  "expandIpv6 num ip =
     (let s = strip_zone (to_lower (drop_brackets ip));
          at_colon = (case last_index_of CHR '':'' s of None \<Rightarrow> 0 | Some i \<Rightarrow> i + 1);
          tail = drop at_colon s
      in if CHR ''.'' \<in> set tail then
           (case dotted_parts num tail of
              None \<Rightarrow> None
            | Some q \<Rightarrow> expand_groups (take at_colon s @ v4_hex_tail q))
         else expand_groups s)"

definition embedded_v4 :: "nat \<Rightarrow> nat \<Rightarrow> nat list" where
  "embedded_v4 hi lo = [drop_bit 8 hi, hi AND 255, drop_bit 8 lo, lo AND 255]"

definition zeros :: "nat list \<Rightarrow> nat \<Rightarrow> nat \<Rightarrow> bool" where
  "zeros g i j = list_all (\<lambda>x. x = 0) (drop i (take j g))"

definition private_v6 :: "nat list \<Rightarrow> bool" where
  "private_v6 g =
     (if zeros g 0 5 \<and> g ! 5 = 65535 then private_v4 (embedded_v4 (g ! 6) (g ! 7))
      else if zeros g 0 4 \<and> g ! 4 = 65535 \<and> g ! 5 = 0 then private_v4 (embedded_v4 (g ! 6) (g ! 7))
      else if zeros g 0 6 then (if g ! 6 = 0 \<and> g ! 7 \<le> 1 then True else private_v4 (embedded_v4 (g ! 6) (g ! 7)))
      else if g ! 0 = 100 \<and> g ! 1 = 65435 \<and> zeros g 2 6 then private_v4 (embedded_v4 (g ! 6) (g ! 7))
      else if g ! 0 = 100 \<and> g ! 1 = 65435 \<and> g ! 2 = 1 then True
      else if g ! 0 = 8194 then private_v4 (embedded_v4 (g ! 1) (g ! 2))
      else if g ! 0 = 8193 \<and> g ! 1 = 0 then True
      else
        let first = g ! 0 in
        first AND 65024 = 64512 \<or> first AND 65472 = 65152 \<or> first AND 65472 = 65216 \<or> first AND 65280 = 65280)"

definition isPrivateIpAddress :: "(string \<Rightarrow> nat) \<Rightarrow> (string \<Rightarrow> js_float) \<Rightarrow> string \<Rightarrow> bool" where
  "isPrivateIpAddress is_ip num ip =
     (if is_ip ip = 4 then (case dotted_parts num ip of None \<Rightarrow> True | Some q \<Rightarrow> private_v4 q)
      else if is_ip ip = 6 then (case expandIpv6 num ip of None \<Rightarrow> True | Some g \<Rightarrow> private_v6 g)
      else True)"

section \<open>What is private\<close>

text \<open>The blocks the tests spell out, as networks; the comments of the source name them in this notation.\<close>

definition cidr4 :: "nat list \<Rightarrow> nat \<Rightarrow> ParsedCidr" where
  "cidr4 q n = \<lparr>family = Fam4, parts = q, prefix = n\<rparr>"

definition cidr6 :: "nat list \<Rightarrow> nat \<Rightarrow> ParsedCidr" where
  "cidr6 g n = \<lparr>family = Fam6, parts = g, prefix = n\<rparr>"

definition RESERVED_V4 :: "ParsedCidr list" where
  "RESERVED_V4 = [cidr4 [0,0,0,0] 8, cidr4 [10,0,0,0] 8, cidr4 [127,0,0,0] 8, cidr4 [100,64,0,0] 10, cidr4 [169,254,0,0] 16,
     cidr4 [172,16,0,0] 12, cidr4 [192,0,0,0] 24, cidr4 [192,168,0,0] 16, cidr4 [198,18,0,0] 15, cidr4 [168,63,129,16] 32,
     cidr4 [224,0,0,0] 3]"

text \<open>64:ff9b:1::/48, 2001::/32, fc00::/7, fe80::/10, fec0::/10 and ff00::/8.\<close>

definition RESERVED_V6 :: "ParsedCidr list" where
  "RESERVED_V6 = [cidr6 [100,65435,1,0,0,0,0,0] 48, cidr6 [8193,0,0,0,0,0,0,0] 32, cidr6 [64512,0,0,0,0,0,0,0] 7, cidr6 [65152,0,0,0,0,0,0,0] 10, cidr6 [65216,0,0,0,0,0,0,0] 10, cidr6 [65280,0,0,0,0,0,0,0] 8]"

text \<open>The networks whose addresses carry an IPv4 address: its place is after the given number of groups.\<close>

definition CARRIERS :: "(ParsedCidr \<times> nat) list" where
  "CARRIERS = [(cidr6 [0,0,0,0,0,65535,0,0] 96, 6), (cidr6 [0,0,0,0,65535,0,0,0] 96, 6), (cidr6 [0,0,0,0,0,0,0,0] 96, 6), (cidr6 [100,65435,0,0,0,0,0,0] 96, 6),
     (cidr6 [8194,0,0,0,0,0,0,0] 16, 1)]"

definition carried_v4 :: "ParsedIp \<Rightarrow> nat list option" where
  "carried_v4 ip = map_option (\<lambda>(c, k). embedded_v4 (parts ip ! k) (parts ip ! (k + 1))) (find (\<lambda>(c, k). ipMatchesRange ip c) CARRIERS)"

definition reserved :: "ParsedIp \<Rightarrow> bool" where
  "reserved ip =
     (if family ip = Fam4 then list_ex (ipMatchesRange ip) RESERVED_V4
      else
        case carried_v4 ip of
          Some q \<Rightarrow> list_ex (ipMatchesRange \<lparr>family = Fam4, parts = q\<rparr>) RESERVED_V4
        | None \<Rightarrow> list_ex (ipMatchesRange ip) RESERVED_V6)"

lemma masked:
  fixes x :: nat
  shows "x AND push_bit n (mask m) = push_bit n (take_bit m (drop_bit n x))"
  by (rule bit_eqI) (auto simp: bit_simps)

lemma masked_eq:
  fixes x :: nat
  shows "x AND push_bit n (mask m) = push_bit n y \<longleftrightarrow> take_bit m (drop_bit n x) = y"
  by (simp only: masked) (simp add: push_bit_eq_mult)

lemma first_blocks:
  fixes x :: nat assumes "x < 65536"
  shows "x AND 65024 = 64512 \<longleftrightarrow> x div 512 = 126" "x AND 65472 = 65152 \<longleftrightarrow> x div 64 = 1018"
    "x AND 65472 = 65216 \<longleftrightarrow> x div 64 = 1019" "x AND 65280 = 65280 \<longleftrightarrow> x div 256 = 255"
  using masked_eq [of x 9 7 126] masked_eq [of x 6 10 1018] masked_eq [of x 6 10 1019] masked_eq [of x 8 8 255] assms
  by (simp_all add: push_bit_eq_mult mask_eq_exp_minus_1 take_bit_eq_mod drop_bit_eq_div)

lemma quad_cases:
  assumes "wf_parts Fam4 q"
  obtains a b c d where "q = [a, b, c, d]" "a < 256" "b < 256" "c < 256" "d < 256"
  using assms by (auto simp: wf_parts_def group_count_def group_bits_def length_Suc_conv eval_nat_numeral)

lemma divs4:
  fixes a b :: nat
  shows "a < 256 \<Longrightarrow> a div 32 = 7 \<longleftrightarrow> 224 \<le> a" "b < 256 \<Longrightarrow> b div 64 = 1 \<longleftrightarrow> 64 \<le> b \<and> b \<le> 127"
    "b < 256 \<Longrightarrow> b div 16 = 1 \<longleftrightarrow> 16 \<le> b \<and> b \<le> 31" "b div 2 = 9 \<longleftrightarrow> b = 18 \<or> b = 19"
  by auto

lemma private_v4_reserved:
  assumes "wf_parts Fam4 q"
  shows "private_v4 q \<longleftrightarrow> list_ex (ipMatchesRange \<lparr>family = Fam4, parts = q\<rparr>) RESERVED_V4"
proof -
  obtain a b c d where q: "q = [a, b, c, d]" "a < 256" "b < 256" "c < 256" "d < 256" using quad_cases [OF assms] .
  show ?thesis
    using divs4(1) [of a] divs4(2) [of b] divs4(3) [of b] divs4(4) [of b] q(2-)
    by (auto simp: q(1) RESERVED_V4_def private_v4_def cidr4_def ipMatchesRange_def group_bits_def drop_bit_eq_div Let_def)
qed

lemma v6_cases:
  assumes "wf_parts Fam6 g"
  obtains g0 g1 g2 g3 g4 g5 g6 g7 where "g = [g0, g1, g2, g3, g4, g5, g6, g7]"
    "g0 < 65536" "g1 < 65536" "g2 < 65536" "g3 < 65536" "g4 < 65536" "g5 < 65536" "g6 < 65536" "g7 < 65536"
proof -
  obtain a b c d e f g' h where "g = [a, b, c, d, e, f, g', h]" "list_all (\<lambda>p. p < 65536) [a, b, c, d, e, f, g', h]"
    using wf_parts6_cases [OF assms] .
  then show thesis using that by simp
qed

lemma embedded_wf: "hi < 65536 \<Longrightarrow> lo < 65536 \<Longrightarrow> wf_parts Fam4 (embedded_v4 hi lo)"
  by (simp add: embedded_v4_def wf_parts_def group_count_def group_bits_def and_255 drop_bit_eq_div less_mult_imp_div_less)

lemma embedded_low: "lo \<le> 1 \<Longrightarrow> private_v4 (embedded_v4 0 lo)"
  by (simp add: embedded_v4_def private_v4_def)

lemma carriers:
  fixes g0 g1 g2 g3 g4 g5 g6 g7 :: nat
  assumes "g0 < 65536"
  shows "ipMatchesRange \<lparr>family = Fam6, parts = [g0, g1, g2, g3, g4, g5, g6, g7]\<rparr> (cidr6 [0,0,0,0,0,65535,0,0] 96) \<longleftrightarrow>
      g0 = 0 \<and> g1 = 0 \<and> g2 = 0 \<and> g3 = 0 \<and> g4 = 0 \<and> g5 = 65535"
    "ipMatchesRange \<lparr>family = Fam6, parts = [g0, g1, g2, g3, g4, g5, g6, g7]\<rparr> (cidr6 [0,0,0,0,65535,0,0,0] 96) \<longleftrightarrow>
      g0 = 0 \<and> g1 = 0 \<and> g2 = 0 \<and> g3 = 0 \<and> g4 = 65535 \<and> g5 = 0"
    "ipMatchesRange \<lparr>family = Fam6, parts = [g0, g1, g2, g3, g4, g5, g6, g7]\<rparr> (cidr6 [0,0,0,0,0,0,0,0] 96) \<longleftrightarrow>
      g0 = 0 \<and> g1 = 0 \<and> g2 = 0 \<and> g3 = 0 \<and> g4 = 0 \<and> g5 = 0"
    "ipMatchesRange \<lparr>family = Fam6, parts = [g0, g1, g2, g3, g4, g5, g6, g7]\<rparr> (cidr6 [100,65435,0,0,0,0,0,0] 96) \<longleftrightarrow>
      g0 = 100 \<and> g1 = 65435 \<and> g2 = 0 \<and> g3 = 0 \<and> g4 = 0 \<and> g5 = 0"
    "ipMatchesRange \<lparr>family = Fam6, parts = [g0, g1, g2, g3, g4, g5, g6, g7]\<rparr> (cidr6 [8194,0,0,0,0,0,0,0] 16) \<longleftrightarrow> g0 = 8194"
    "list_ex (ipMatchesRange \<lparr>family = Fam6, parts = [g0, g1, g2, g3, g4, g5, g6, g7]\<rparr>) RESERVED_V6 \<longleftrightarrow>
      g0 = 100 \<and> g1 = 65435 \<and> g2 = 1 \<or> g0 = 8193 \<and> g1 = 0 \<or> g0 div 512 = 126 \<or> g0 div 64 = 1018 \<or> g0 div 64 = 1019 \<or> g0 div 256 = 255"
  by (auto simp: RESERVED_V6_def cidr6_def ipMatchesRange_def group_bits_def drop_bit_eq_div Let_def)

lemma private_v6_reserved:
  assumes "wf_parts Fam6 g"
  shows "private_v6 g \<longleftrightarrow> reserved \<lparr>family = Fam6, parts = g\<rparr>"
proof -
  obtain g0 g1 g2 g3 g4 g5 g6 g7 where g: "g = [g0, g1, g2, g3, g4, g5, g6, g7]"
    and bounds: "g0 < 65536" "g1 < 65536" "g2 < 65536" "g6 < 65536" "g7 < 65536" using v6_cases [OF assms] by metis
  note v4 = private_v4_reserved [OF embedded_wf, symmetric, OF bounds(4,5)] private_v4_reserved [OF embedded_wf, symmetric, OF bounds(2,3)]
  let ?ip = "\<lparr>family = Fam6, parts = [g0, g1, g2, g3, g4, g5, g6, g7]\<rparr>" and ?low = "private_v4 (embedded_v4 g6 g7)"
  let ?rest = "g0 = 100 \<and> g1 = 65435 \<and> g2 = 1 \<or> g0 = 8193 \<and> g1 = 0 \<or> g0 div 512 = 126 \<or> g0 div 64 = 1018 \<or> g0 div 64 = 1019 \<or> g0 div 256 = 255"
  have reserved: "reserved ?ip \<longleftrightarrow>
      (if g0 = 0 \<and> g1 = 0 \<and> g2 = 0 \<and> g3 = 0 \<and> g4 = 0 \<and> g5 = 65535 then ?low
       else if g0 = 0 \<and> g1 = 0 \<and> g2 = 0 \<and> g3 = 0 \<and> g4 = 65535 \<and> g5 = 0 then ?low
       else if g0 = 0 \<and> g1 = 0 \<and> g2 = 0 \<and> g3 = 0 \<and> g4 = 0 \<and> g5 = 0 then ?low
       else if g0 = 100 \<and> g1 = 65435 \<and> g2 = 0 \<and> g3 = 0 \<and> g4 = 0 \<and> g5 = 0 then ?low
       else if g0 = 8194 then private_v4 (embedded_v4 g1 g2) else ?rest)"
    unfolding reserved_def carried_v4_def CARRIERS_def find.simps prod.case carriers [OF bounds(1)]
    by (simp add: v4 carriers(6) [OF bounds(1)] del: list_ex_iff)
  have low: "(if g6 = 0 \<and> g7 \<le> 1 then True else ?low) = ?low" using embedded_low [of g7] by auto
  have verdict: "private_v6 g \<longleftrightarrow>
      (if g0 = 0 \<and> g1 = 0 \<and> g2 = 0 \<and> g3 = 0 \<and> g4 = 0 \<and> g5 = 65535 then ?low
       else if g0 = 0 \<and> g1 = 0 \<and> g2 = 0 \<and> g3 = 0 \<and> g4 = 65535 \<and> g5 = 0 then ?low
       else if g0 = 0 \<and> g1 = 0 \<and> g2 = 0 \<and> g3 = 0 \<and> g4 = 0 \<and> g5 = 0 then (if g6 = 0 \<and> g7 \<le> 1 then True else ?low)
       else if g0 = 100 \<and> g1 = 65435 \<and> g2 = 0 \<and> g3 = 0 \<and> g4 = 0 \<and> g5 = 0 then ?low
       else if g0 = 100 \<and> g1 = 65435 \<and> g2 = 1 then True
       else if g0 = 8194 then private_v4 (embedded_v4 g1 g2)
       else if g0 = 8193 \<and> g1 = 0 then True
       else g0 div 512 = 126 \<or> g0 div 64 = 1018 \<or> g0 div 64 = 1019 \<or> g0 div 256 = 255)"
    unfolding g private_v6_def Let_def zeros_def by (simp add: first_blocks [OF bounds(1)] conj_assoc)
  have chain: "(if p then True else if q then r else if s then True else t) = (if q then r else (p \<or> s \<or> t))"
    if "p \<Longrightarrow> \<not> q" for p q r s t :: bool
    using that by auto
  have "(if g0 = 100 \<and> g1 = 65435 \<and> g2 = 1 then True
       else if g0 = 8194 then private_v4 (embedded_v4 g1 g2)
       else if g0 = 8193 \<and> g1 = 0 then True
       else g0 div 512 = 126 \<or> g0 div 64 = 1018 \<or> g0 div 64 = 1019 \<or> g0 div 256 = 255) \<longleftrightarrow>
      (if g0 = 8194 then private_v4 (embedded_v4 g1 g2) else ?rest)"
    by (rule chain) simp
  then show ?thesis unfolding verdict low unfolding g reserved by (simp only:)
qed

text \<open>What Node documents: \<^verbatim>\<open>Number\<close> reads decimal digits, and \<^verbatim>\<open>isIP\<close> answers 4 and 6 on the addresses the allowlist parser reads.\<close>

definition reads_decimals :: "(string \<Rightarrow> js_float) \<Rightarrow> bool" where
  "reads_decimals num \<longleftrightarrow> (\<forall>s. s \<noteq> [] \<and> list_all is_digit s \<longrightarrow> num s = Finite (of_nat (parse_radix 10 s)))"

definition knows_addresses :: "(string \<Rightarrow> nat) \<Rightarrow> bool" where
  "knows_addresses is_ip \<longleftrightarrow>
     (\<forall>s. parseIpv4 s \<noteq> None \<longrightarrow> is_ip s = 4) \<and> (\<forall>s. parseIpv4 s = None \<and> parseIpv6 s \<noteq> None \<longrightarrow> is_ip s = 6)"

lemma all_some_map: "(\<And>x. x \<in> set xs \<Longrightarrow> f x = Some (h x)) \<Longrightarrow> all_some (map f xs) = Some (map h xs)"
  by (induction xs) auto

lemma byte_of_nat: "n < 256 \<Longrightarrow> byte_of (Finite (of_nat n)) = Some n"
proof -
  assume "n < 256"
  then have "(of_nat n :: jsnum) \<le> 255" using of_nat_le_iff [of n 255, where 'a = jsnum] by simp
  then show ?thesis by (simp add: of_int_of_nat_eq)
qed

lemma dotted_parse:
  assumes "reads_decimals num" "parseIpv4 s = Some q"
  shows "dotted_parts num s = Some q"
proof -
  have oct: "length (split_on CHR ''.'' s) = 4" "list_all v4_octet (split_on CHR ''.'' s)" "q = map (parse_radix 10) (split_on CHR ''.'' s)"
    using assms(2) by (auto simp: parseIpv4_def Let_def split: if_splits)
  have "all_some (map (\<lambda>p. byte_of (num p)) (split_on CHR ''.'' s)) = Some (map (parse_radix 10) (split_on CHR ''.'' s))"
  proof (rule all_some_map)
    fix p assume "p \<in> set (split_on CHR ''.'' s)"
    then have "v4_octet p" using oct(2) by (auto simp: list_all_iff)
    then have "list_all is_digit p \<and> p \<noteq> []" "parse_radix 10 p < 256" using v4_octet_digits v4_octet_bound by blast+
    then show "byte_of (num p) = Some (parse_radix 10 p)" using assms(1) byte_of_nat by (simp add: reads_decimals_def)
  qed
  then show ?thesis using oct by (simp add: dotted_parts_def)
qed

lemma hex_not_sign: "is_hex c \<Longrightarrow> c \<noteq> CHR ''-'' \<and> c \<noteq> CHR ''+'' \<and> c \<noteq> CHR ''x'' \<and> c \<noteq> CHR ''X'' \<and> \<not> is_space c"
  by (auto simp: is_hex_def is_digit_def is_space_def code_def)

lemma parse_int_hex:
  assumes "list_all is_hex g" "g \<noteq> []"
  shows "parse_int16 g = Some (int (parse_radix 16 g))"
proof -
  obtain c r where g: "g = c # r" using assms(2) by (cases g) auto
  have c: "is_hex c" "list_all is_hex r" using assms g by auto
  have pre: "take 2 g \<noteq> ''0x'' \<and> take 2 g \<noteq> ''0X''"
    using c hex_not_sign by (cases r) (auto simp: g)
  have all: "takeWhile is_hex g = g" using assms(1) by (simp add: takeWhile_eq_all_conv list_all_iff)
  have start: "dropWhile is_space g = g" "hd g \<noteq> CHR ''-''" "hd g \<noteq> CHR ''+''" using hex_not_sign [OF c(1)] g by simp_all
  show ?thesis by (simp add: parse_int16_def Let_def start pre all assms(2))
qed

lemma group_of_hex: "hex_group g \<Longrightarrow> group_of g = Some (parse_radix 16 g)"
  using parse_int_hex [of g] hex_group_bound [of g] by (cases "g = []") (auto simp: group_of_def hex_group_def)

lemma parse_groups_all: "parse_groups gs = Some ps \<Longrightarrow> all_some (map group_of gs) = Some ps"
  by (induction gs arbitrary: ps) (auto simp: group_of_hex split: if_splits)

lemma expand_parse:
  assumes "parse_ipv6_text s = Some ps"
  shows "expand_groups s = Some ps"
proof -
  let ?h = "split_on2 CHR '':'' CHR '':'' s"
  obtain groups where groups: "ipv6_groups ?h = Some groups" "parse_groups groups = Some ps"
    using assms by (auto simp: parse_ipv6_text_def split: option.splits)
  have len: "length ps = 8" using parse_ipv6_text_wf [OF assms] by (simp add: wf_parts_def group_count_def)
  have all: "all_some (map group_of groups) = Some ps" using parse_groups_all [OF groups(2)] .
  have "0 < length ?h" "length ?h \<le> 2" using groups(1) by (simp, auto simp: ipv6_groups_def Let_def split: if_splits)
  then have "length ?h = 1 \<or> length ?h = 2" by linarith
  then show ?thesis
  proof
    assume one: "length ?h = 1"
    then have "groups = (if ?h ! 0 = [] then [] else split_on CHR '':'' (?h ! 0))" "length groups = 8"
      using groups(1) by (auto simp: ipv6_groups_def Let_def split: if_splits)
    then show ?thesis using one all len by (simp add: expand_groups_def Let_def split: if_splits)
  next
    assume two: "length ?h = 2"
    define front rear where "front = (if ?h ! 0 = [] then [] else split_on CHR '':'' (?h ! 0))"
      and "rear = (if ?h ! 1 = [] then [] else split_on CHR '':'' (?h ! 1))"
    have g: "length front + length rear \<le> 7" "groups = front @ replicate (8 - (length front + length rear)) ''0'' @ rear"
      using groups(1) two by (auto simp: ipv6_groups_def Let_def front_def rear_def split: if_splits)
    have missing: "nat (8 - int (length front) - int (length rear)) = 8 - (length front + length rear)" by simp
    have "expand_groups s = (if 8 - int (length front) - int (length rear) < 0 then None
        else case all_some (map group_of (front @ replicate (nat (8 - int (length front) - int (length rear))) ''0'' @ rear)) of
          Some gs \<Rightarrow> if length gs = 8 then Some gs else None | None \<Rightarrow> None)"
      using two by (simp add: expand_groups_def Let_def front_def rear_def)
    then show ?thesis using g all len unfolding missing by auto
  qed
qed

lemma no_addr: "\<not> addr_char CHR ''[''" "\<not> addr_char CHR '']''" "\<not> addr_char CHR ''%''"
  by code_simp+

lemma expand_is_parse:
  assumes "reads_decimals num" "parseIpv6 s = Some ps"
  shows "expandIpv6 num s = Some ps"
proof -
  note chars = parseIpv6_chars [OF assms(2)]
  have no_bracket: "drop_brackets s = s"
  proof -
    have "c \<noteq> CHR ''['' \<and> c \<noteq> CHR '']''" if "addr_char c" for c using that no_addr by auto
    then have "hd s \<noteq> CHR ''['' \<and> last s \<noteq> CHR '']''" using chars(2) hd_in_set [OF chars(2)] last_in_set [OF chars(2)] chars(1) by blast
    then show ?thesis using chars(2) by (simp add: drop_brackets_def)
  qed
  have low: "parseIpv6 (to_lower s) = Some ps" by (rule parseIpv6_to_lower [OF assms(2)])
  let ?s = "to_lower s"
  have "CHR ''%'' \<notin> set ?s"
    using parseIpv6_chars(1) [OF low] no_addr(3) by blast
  then have zone: "strip_zone ?s = ?s" by (simp add: strip_zone_def index_of_None_iff [THEN iffD2])
  obtain i where i: "last_index_of CHR '':'' ?s = Some i"
    using parseIpv6_chars(4) [OF low] last_index_of_None_iff [of "CHR '':''" ?s] by (cases "last_index_of CHR '':'' ?s") simp_all
  have unfolded: "parseIpv6 ?s =
      (if CHR ''.'' \<in> set (drop (i + 1) ?s)
       then (case parseIpv4 (drop (i + 1) ?s) of None \<Rightarrow> None | Some v4 \<Rightarrow> parse_ipv6_text (take (i + 1) ?s @ v4_hex_tail v4))
       else parse_ipv6_text ?s)"
    using low i unfolding parseIpv6_def Let_def by (cases "length ?s = 0 \<or> 45 < length ?s") simp_all
  have expanded: "expandIpv6 num s =
      (if CHR ''.'' \<in> set (drop (i + 1) ?s)
       then (case dotted_parts num (drop (i + 1) ?s) of None \<Rightarrow> None | Some q \<Rightarrow> expand_groups (take (i + 1) ?s @ v4_hex_tail q))
       else expand_groups ?s)"
    unfolding expandIpv6_def Let_def no_bracket zone i option.case by simp
  show ?thesis
  proof (cases "CHR ''.'' \<in> set (drop (i + 1) ?s)")
    case True
    then obtain v4 where v4: "parseIpv4 (drop (i + 1) ?s) = Some v4" "parse_ipv6_text (take (i + 1) ?s @ v4_hex_tail v4) = Some ps"
      using low unfolding unfolded by (auto split: option.splits)
    then show ?thesis unfolding expanded using True dotted_parse [OF assms(1) v4(1)] expand_parse [OF v4(2)] by simp
  next
    case False
    then have "parse_ipv6_text ?s = Some ps" using low unfolding unfolded by simp
    then show ?thesis unfolding expanded using False expand_parse by simp
  qed
qed

lemma private_verdict:
  assumes "reads_decimals num" "knows_addresses is_ip" "parseAddress text = Some ip"
  shows "isPrivateIpAddress is_ip num text \<longleftrightarrow> reserved ip"
proof (cases "parseIpv4 text")
  case (Some q)
  then have "is_ip text = 4" "ip = \<lparr>family = Fam4, parts = q\<rparr>"
    using assms(2,3) by (simp_all add: knows_addresses_def parseAddress_def)
  then show ?thesis
    using dotted_parse [OF assms(1) Some] private_v4_reserved [OF parseIpv4_wf [OF Some]]
    by (simp add: isPrivateIpAddress_def reserved_def)
next
  case None
  then obtain g where g: "parseIpv6 text = Some g" "ip = \<lparr>family = Fam6, parts = g\<rparr>"
    using assms(3) by (auto simp: parseAddress_def split: option.splits)
  then have "is_ip text = 6" using assms(2) None by (simp add: knows_addresses_def)
  then show ?thesis
    using expand_is_parse [OF assms(1) g(1)] private_v6_reserved [OF parseIpv6_wf [OF g(1)]] by (simp add: isPrivateIpAddress_def g(2))
qed

text \<open>
  The verdict on an address text is about the address, not its spelling: for every text the allowlist parser reads, in
  whatever spelling, the guard calls it private exactly when the address lies in one of the reserved blocks, where an IPv6
  address in a network that carries IPv4 addresses is judged by the IPv4 address it carries.
\<close>

theorem private_verdict_is_numeric:
  assumes "reads_decimals num" "knows_addresses is_ip" "parseAddress text = Some ip"
  shows "isPrivateIpAddress is_ip num text \<longleftrightarrow> reserved ip"
  using assms by (rule private_verdict)

definition decimal_number :: "string \<Rightarrow> js_float" where
  "decimal_number s = (if s \<noteq> [] \<and> list_all is_digit s then Finite (of_nat (parse_radix 10 s)) else NaN)"

definition address_family :: "string \<Rightarrow> nat" where
  "address_family s = (if parseIpv4 s \<noteq> None then 4 else if parseIpv6 s \<noteq> None then 6 else 0)"

lemma documented_functions [simp]: "reads_decimals decimal_number" "knows_addresses address_family"
  by (simp_all add: reads_decimals_def decimal_number_def knows_addresses_def address_family_def)

theorem private_verdict_is_numeric_witness: "isPrivateIpAddress address_family decimal_number ''10.1.2.3''"
proof -
  have "parseAddress ''10.1.2.3'' = Some \<lparr>family = Fam4, parts = [10, 1, 2, 3]\<rparr>" by code_simp
  from private_verdict_is_numeric [OF documented_functions this] show ?thesis
    by (simp add: reserved_def RESERVED_V4_def cidr4_def ipMatchesRange_def group_bits_def drop_bit_eq_div)
qed

end
