(* ===== verification/OutboundGuard.thy ===== *)
theory OutboundGuard
  imports PrivateAddress
begin

text \<open>
  Requests to addresses that tenants configure: \<^verbatim>\<open>src/lib/security/outboundFetch.ts\<close>.

  \<^item> \<open>checkPublicUrl\<close> is the guard before a connection, with its cache of resolved names; the answers of DNS are an argument that
    may say something else at every lookup.
  \<^item> \<open>safeFetch\<close> is the loop over redirects. A \<open>dial\<close> is one request as it goes out: its URL, the addresses the connection is
    pinned to, its headers and method. The server is any function of the dials so far.
  \<^item> \<open>readResponseText\<close> reads a body under a cap.

  The timeout and the caller's signal end a request from outside; here they are a server that does not answer. How the
  URL parser reads a text and the normal form of headers are arguments.
\<close>

section \<open>The guard before a connection\<close>

definition HOST_CACHE_TTL_MS :: jsnum where
  "HOST_CACHE_TTL_MS = 30000"

definition MAX_REDIRECTS :: nat where
  "MAX_REDIRECTS = 5"

record PrivateNetworkAllowance =
  hasRanges :: bool
  permits :: "string \<Rightarrow> bool"

record OutboundGuardOptions =
  allowPrivate :: bool
  forceBlock :: bool
  privateNetworks :: "PrivateNetworkAllowance option"

record outbound_config =
  blockPrivateNetwork :: bool
  allowedHosts :: "string list"

text \<open>A parsed URL, as far as the module reads it.\<close>

record outbound_url =
  url_protocol :: string
  url_hostname :: string
  url_origin :: string
  url_href :: string

text \<open>
  The environment: Node's functions, the configuration, the URL parser and what a location resolves to, the normal form of
  headers, the answer of DNS to each lookup in turn and the clock, which is read between lookups.
\<close>

record outbound_env =
  env_isIP :: "string \<Rightarrow> nat"
  env_Number :: "string \<Rightarrow> js_float"
  env_config :: outbound_config
  env_parse :: "string \<Rightarrow> outbound_url option"
  env_resolve :: "string \<Rightarrow> outbound_url \<Rightarrow> outbound_url option"
  env_headers :: "(string \<times> string) list \<Rightarrow> (string \<times> string) list"
  env_dns :: "nat \<Rightarrow> string \<Rightarrow> string list option"
  env_clock :: "nat \<Rightarrow> jsnum"

definition ends_with :: "string \<Rightarrow> string \<Rightarrow> bool" where
  "ends_with s t \<longleftrightarrow> length t \<le> length s \<and> drop (length s - length t) s = t"

definition begins_with :: "string \<Rightarrow> string \<Rightarrow> bool" where
  "begins_with s t \<longleftrightarrow> take (length t) s = t"

definition isLoopbackName :: "string \<Rightarrow> bool" where
  "isLoopbackName host \<longleftrightarrow> host = ''localhost'' \<or> ends_with host ''.localhost'' \<or> host = ''localhost.localdomain''"

definition isPrivateUseName :: "string \<Rightarrow> bool" where
  "isPrivateUseName host \<longleftrightarrow> ends_with host ''.local'' \<or> ends_with host ''.internal''"

definition isRefusedName :: "string \<Rightarrow> OutboundGuardOptions \<Rightarrow> bool" where
  "isRefusedName host options =
     (if isLoopbackName host then True
      else isPrivateUseName host \<and> \<not> (case privateNetworks options of Some p \<Rightarrow> hasRanges p | None \<Rightarrow> False))"

definition guardRefusesAddress :: "outbound_env \<Rightarrow> OutboundGuardOptions \<Rightarrow> string \<Rightarrow> bool" where
  "guardRefusesAddress env options address =
     (if \<not> isPrivateIpAddress (env_isIP env) (env_Number env) address then False
      else \<not> (case privateNetworks options of Some p \<Rightarrow> permits p address | None \<Rightarrow> False))"

definition isAllowlistedHost :: "string \<Rightarrow> string list \<Rightarrow> bool" where
  "isAllowlistedHost host hosts =
     (let h = to_lower host in
      list_ex (\<lambda>entry. let e = to_lower entry in
        if e = [] then False else if begins_with e ''.'' then h = tl e \<or> ends_with h e else h = e) hosts)"

definition privateNetworkBlockApplies :: "outbound_env \<Rightarrow> OutboundGuardOptions \<Rightarrow> string \<Rightarrow> bool" where
  "privateNetworkBlockApplies env options hostname =
     (if forceBlock options then True
      else if \<not> blockPrivateNetwork (env_config env) \<or> allowPrivate options then False
      else \<not> isAllowlistedHost hostname (allowedHosts (env_config env)))"

text \<open>The cache of resolved names, and how many lookups there were.\<close>

record resolver =
  host_cache :: "(string, string list \<times> jsnum) jsmap"
  lookups :: nat

definition dns_lookup :: "outbound_env \<Rightarrow> string \<Rightarrow> resolver \<Rightarrow> string list option \<times> resolver" where
  "dns_lookup env host r = (env_dns env (lookups r) host, r\<lparr>lookups := lookups r + 1\<rparr>)"

datatype guard_answer = Verdict bool | LookupFailed

definition refuses_any :: "outbound_env \<Rightarrow> OutboundGuardOptions \<Rightarrow> string list \<Rightarrow> bool" where
  "refuses_any env options addresses \<longleftrightarrow> list_ex (guardRefusesAddress env options) addresses"

definition cached_addresses :: "outbound_env \<Rightarrow> string \<Rightarrow> resolver \<Rightarrow> string list option" where
  "cached_addresses env bare r =
     (case map_get (host_cache r) bare of
        Some (addresses, expiresAt) \<Rightarrow> if expiresAt > env_clock env (lookups r) then Some addresses else None
      | None \<Rightarrow> None)"

definition resolveForGuard :: "outbound_env \<Rightarrow> OutboundGuardOptions \<Rightarrow> string \<Rightarrow> resolver \<Rightarrow> guard_answer \<times> resolver" where
  "resolveForGuard env options host r =
     (let bare = drop_brackets host in
      if isRefusedName bare options then (Verdict True, r)
      else if env_isIP env bare \<noteq> 0 then (Verdict (guardRefusesAddress env options bare), r)
      else
        case cached_addresses env bare r of
          Some addresses \<Rightarrow> (Verdict (addresses = [] \<or> refuses_any env options addresses), r)
        | None \<Rightarrow>
            (case dns_lookup env bare r of
               (None, r) \<Rightarrow> (LookupFailed, r)
             | (Some addresses, r) \<Rightarrow>
                 (Verdict (addresses = [] \<or> refuses_any env options addresses),
                  r\<lparr>host_cache := map_set (host_cache r) bare (addresses, env_clock env (lookups r) + HOST_CACHE_TTL_MS)\<rparr>)))"

definition resolvePinnedAddresses :: "outbound_env \<Rightarrow> string \<Rightarrow> resolver \<Rightarrow> string list \<times> resolver" where
  "resolvePinnedAddresses env host r =
     (let bare = drop_brackets host in
      if env_isIP env bare \<noteq> 0 then ([], r)
      else case dns_lookup env bare r of (None, r) \<Rightarrow> ([], r) | (Some addresses, r) \<Rightarrow> (addresses, r))"

datatype OutboundError = InvalidUrl | UnsupportedProtocol | DnsFailed | PrivateTarget | TooManyRedirects | BadLocation | FetchFails

definition checkPublicUrl ::
  "outbound_env \<Rightarrow> OutboundGuardOptions \<Rightarrow> string \<Rightarrow> resolver \<Rightarrow> (OutboundError + outbound_url \<times> string list) \<times> resolver" where
  "checkPublicUrl env options rawUrl r =
     (case env_parse env rawUrl of
        None \<Rightarrow> (Inl InvalidUrl, r)
      | Some url \<Rightarrow>
          if url_protocol url \<noteq> ''http:'' \<and> url_protocol url \<noteq> ''https:'' then (Inl UnsupportedProtocol, r)
          else if \<not> privateNetworkBlockApplies env options (url_hostname url) then (Inr (url, []), r)
          else
            case resolveForGuard env options (url_hostname url) r of
              (LookupFailed, r) \<Rightarrow> (Inl DnsFailed, r)
            | (Verdict refused, r) \<Rightarrow>
                if refused then (Inl PrivateTarget, r)
                else
                  case resolvePinnedAddresses env (url_hostname url) r of
                    (pinned, r) \<Rightarrow> if refuses_any env options pinned then (Inl PrivateTarget, r) else (Inr (url, pinned), r))"

definition assertPublicUrl :: "outbound_env \<Rightarrow> OutboundGuardOptions \<Rightarrow> string \<Rightarrow> resolver \<Rightarrow> (OutboundError + outbound_url) \<times> resolver" where
  "assertPublicUrl env options rawUrl r = (case checkPublicUrl env options rawUrl r of (a, r) \<Rightarrow> (map_sum id fst a, r))"

text \<open>The \<^verbatim>\<open>lookup\<close> of an agent: the addresses the socket dials, a refusal, or the error of the resolver.\<close>

datatype lookup_answer = Dials "string list" | Refused | NotFound | ResolverError

definition createGuardedLookup :: "outbound_env \<Rightarrow> OutboundGuardOptions \<Rightarrow> string \<Rightarrow> bool \<Rightarrow> resolver \<Rightarrow> lookup_answer \<times> resolver" where
  "createGuardedLookup env options hostname all r =
     (let blocking = privateNetworkBlockApplies env options hostname in
      if blocking \<and> isRefusedName (to_lower hostname) options then (Refused, r)
      else
        case dns_lookup env hostname r of
          (None, r) \<Rightarrow> (ResolverError, r)
        | (Some records, r) \<Rightarrow>
            (if records = [] then NotFound
             else if blocking \<and> refuses_any env options records then Refused
             else if all then Dials records else Dials [hd records], r))"

section \<open>Fetching with redirects\<close>

record request_init =
  init_headers :: "(string \<times> string) list option"
  init_method :: "string option"
  init_body :: bool

record SafeFetchOptions =
  fetch_guard :: OutboundGuardOptions
  fetch_tls :: bool
  followRedirects :: bool
  sensitiveHeaders :: "string list"

record dial =
  dial_url :: outbound_url
  dial_pinned :: "string list"
  dial_addresses :: "string list"
  dial_init :: request_init

record response =
  resp_status :: nat
  resp_location :: "string option"

record fetch_run =
  run_resolver :: resolver
  run_dials :: "dial list"
  run_created :: nat
  run_destroyed :: "nat list"
  run_live :: "nat option"

definition CROSS_ORIGIN_STRIPPED_HEADERS :: "string list" where
  "CROSS_ORIGIN_STRIPPED_HEADERS = [''authorization'', ''proxy-authorization'', ''cookie'']"

definition isStrippedOnCrossOrigin :: "string list \<Rightarrow> string \<Rightarrow> bool" where
  "isStrippedOnCrossOrigin extra name =
     (let lower = to_lower name
      in lower \<in> set CROSS_ORIGIN_STRIPPED_HEADERS \<or> begins_with lower ''x-cognipeer-signature'' \<or> lower \<in> set extra)"

definition stripCrossOriginHeaders ::
  "outbound_env \<Rightarrow> (string \<times> string) list option \<Rightarrow> string list \<Rightarrow> (string \<times> string) list option" where
  "stripCrossOriginHeaders env headers extra =
     map_option (\<lambda>h. filter (\<lambda>(name, value). \<not> isStrippedOnCrossOrigin extra name) (env_headers env h)) headers"

definition extraSensitiveHeaders :: "SafeFetchOptions \<Rightarrow> string list" where
  "extraSensitiveHeaders opts = map (\<lambda>name. to_lower (js_trim name)) (filter (\<lambda>name. js_trim name \<noteq> []) (sensitiveHeaders opts))"

text \<open>
  The addresses a connection can reach: the pinned ones, the address in the URL, or what the resolver of \<^verbatim>\<open>fetch\<close> answers
  when nothing is pinned.
\<close>

definition connect :: "outbound_env \<Rightarrow> outbound_url \<Rightarrow> string list \<Rightarrow> resolver \<Rightarrow> string list \<times> resolver" where
  "connect env url pinned r =
     (let bare = drop_brackets (url_hostname url) in
      if pinned \<noteq> [] then (pinned, r)
      else if env_isIP env bare \<noteq> 0 then ([bare], r)
      else case dns_lookup env bare r of (answer, r) \<Rightarrow> (nullish answer [], r))"

definition discardDispatcher :: "nat option \<Rightarrow> fetch_run \<Rightarrow> fetch_run" where
  "discardDispatcher d run = (case d of None \<Rightarrow> run | Some i \<Rightarrow> run\<lparr>run_destroyed := run_destroyed run @ [i]\<rparr>)"

definition finish :: "fetch_run \<Rightarrow> fetch_run" where
  "finish run = (discardDispatcher (run_live run) run)\<lparr>run_live := None\<rparr>"

text \<open>One hop: a result, or a redirect that is to be followed. What is delivered keeps its dispatcher.\<close>

datatype hop_result = Done "(OutboundError + response \<times> nat option) \<times> fetch_run" | Moved nat string outbound_url fetch_run

definition fetch_hop ::
  "outbound_env \<Rightarrow> SafeFetchOptions \<Rightarrow> (dial list \<Rightarrow> response option) \<Rightarrow> string \<Rightarrow> request_init \<Rightarrow> fetch_run \<Rightarrow> hop_result" where
  "fetch_hop env opts server currentUrl init run0 =
     (case checkPublicUrl env (fetch_guard opts) currentUrl (run_resolver run0) of
        (Inl e, r) \<Rightarrow> Done (Inl e, finish (run0\<lparr>run_resolver := r\<rparr>))
      | (Inr (url, pinned), r) \<Rightarrow>
          let dispatcher = (if pinned \<noteq> [] \<or> fetch_tls opts then Some (run_created run0) else None);
              run1 = (discardDispatcher (run_live run0) (run0\<lparr>run_resolver := r\<rparr>))
                \<lparr>run_created := (if dispatcher = None then run_created run0 else run_created run0 + 1), run_live := dispatcher\<rparr>;
              (addresses, r) = connect env url pinned r;
              run2 = run1\<lparr>run_resolver := r, run_dials := run_dials run0 @
                [\<lparr>dial_url = url, dial_pinned = pinned, dial_addresses = addresses, dial_init = init\<rparr>]\<rparr>
          in case server (run_dials run2) of
               None \<Rightarrow> Done (Inl FetchFails, (discardDispatcher dispatcher run2)\<lparr>run_live := None\<rparr>)
             | Some response \<Rightarrow>
                 let delivered = Done (Inr (response, dispatcher), run2\<lparr>run_live := None\<rparr>)
                 in if resp_status response \<ge> 300 \<and> resp_status response < 400 then
                      (case resp_location response of
                         Some location \<Rightarrow>
                           if location = [] \<or> \<not> followRedirects opts then delivered else Moved (resp_status response) location url run2
                       | None \<Rightarrow> delivered)
                    else delivered)"

definition next_init :: "outbound_env \<Rightarrow> SafeFetchOptions \<Rightarrow> nat \<Rightarrow> outbound_url \<Rightarrow> outbound_url \<Rightarrow> request_init \<Rightarrow> request_init" where
  "next_init env opts status url nextUrl init =
     (let init = (if url_origin nextUrl \<noteq> url_origin url
                  then init\<lparr>init_headers := stripCrossOriginHeaders env (init_headers init) (extraSensitiveHeaders opts)\<rparr> else init);
          method = nullish (init_method init) []
      in if status = 303 \<and> method \<noteq> [] \<and> method \<noteq> ''GET'' \<and> method \<noteq> ''HEAD''
         then init\<lparr>init_method := Some ''GET'', init_body := False\<rparr> else init)"

fun fetch_hops ::
  "outbound_env \<Rightarrow> SafeFetchOptions \<Rightarrow> (dial list \<Rightarrow> response option) \<Rightarrow> nat \<Rightarrow> string \<Rightarrow> request_init \<Rightarrow> fetch_run
     \<Rightarrow> (OutboundError + response \<times> nat option) \<times> fetch_run" where
  "fetch_hops env opts server left currentUrl init run0 =
     (case fetch_hop env opts server currentUrl init run0 of
        Done answer \<Rightarrow> answer
      | Moved status location url run \<Rightarrow>
          (case left of
             0 \<Rightarrow> (Inl TooManyRedirects, finish run)
           | Suc m \<Rightarrow>
               (case env_resolve env location url of
                  None \<Rightarrow> (Inl BadLocation, finish run)
                | Some nextUrl \<Rightarrow> fetch_hops env opts server m (url_href nextUrl) (next_init env opts status url nextUrl init) run)))"

declare fetch_hops.simps [simp del]

definition fresh_run :: "resolver \<Rightarrow> fetch_run" where
  "fresh_run r = \<lparr>run_resolver = r, run_dials = [], run_created = 0, run_destroyed = [], run_live = None\<rparr>"

definition safeFetch ::
  "outbound_env \<Rightarrow> SafeFetchOptions \<Rightarrow> (dial list \<Rightarrow> response option) \<Rightarrow> string \<Rightarrow> request_init \<Rightarrow> resolver
     \<Rightarrow> (OutboundError + response \<times> nat option) \<times> fetch_run" where
  "safeFetch env opts server rawUrl init r = fetch_hops env opts server MAX_REDIRECTS rawUrl init (fresh_run r)"

section \<open>What is dialled\<close>

abbreviation bare_host :: "outbound_url \<Rightarrow> string" where
  "bare_host url \<equiv> drop_brackets (url_hostname url)"

abbreviation blocks :: "outbound_env \<Rightarrow> OutboundGuardOptions \<Rightarrow> outbound_url \<Rightarrow> bool" where
  "blocks env options url \<equiv> privateNetworkBlockApplies env options (url_hostname url)"

text \<open>
  A URL that passed the check: what was looked up lies between the lookups numbered \<open>lo\<close> and \<open>hi\<close>, and when a name has
  nothing to pin, the last of them, the pinning lookup, failed or had no answer.
\<close>

definition no_answer :: "outbound_env \<Rightarrow> string \<Rightarrow> nat \<Rightarrow> bool" where
  "no_answer env host n \<longleftrightarrow> nullish (env_dns env n host) [] = []"

definition checked_url :: "outbound_env \<Rightarrow> OutboundGuardOptions \<Rightarrow> nat \<Rightarrow> nat \<Rightarrow> outbound_url \<Rightarrow> string list \<Rightarrow> bool" where
  "checked_url env options lo hi url pinned \<longleftrightarrow>
     url_protocol url \<in> {''http:'', ''https:''} \<and> lo \<le> hi \<and>
     (blocks env options url \<longrightarrow>
        \<not> isRefusedName (bare_host url) options \<and> (\<forall>a \<in> set pinned. \<not> guardRefusesAddress env options a) \<and>
        (env_isIP env (bare_host url) \<noteq> 0 \<longrightarrow> pinned = [] \<and> \<not> guardRefusesAddress env options (bare_host url)) \<and>
        (env_isIP env (bare_host url) = 0 \<and> pinned = [] \<longrightarrow> (\<exists>n. lo \<le> n \<and> hi = Suc n \<and> no_answer env (bare_host url) n)))"

lemma resolve_verdict:
  "resolveForGuard env options host r = (Verdict False, r') \<Longrightarrow>
   \<not> isRefusedName (drop_brackets host) options \<and>
   (env_isIP env (drop_brackets host) \<noteq> 0 \<longrightarrow> \<not> guardRefusesAddress env options (drop_brackets host))"
  by (auto simp: resolveForGuard_def Let_def split: if_splits)

lemma resolve_lookups: "resolveForGuard env options host r = (a, r') \<Longrightarrow> lookups r \<le> lookups r'"
  by (auto simp: resolveForGuard_def dns_lookup_def Let_def split: if_splits option.splits prod.splits)

lemma pinned_literal: "env_isIP env (drop_brackets host) \<noteq> 0 \<Longrightarrow> resolvePinnedAddresses env host r = ([], r)"
  by (simp add: resolvePinnedAddresses_def)

lemma pinned_name:
  "env_isIP env (drop_brackets host) = 0 \<Longrightarrow>
   resolvePinnedAddresses env host r = (nullish (env_dns env (lookups r) (drop_brackets host)) [], r\<lparr>lookups := Suc (lookups r)\<rparr>)"
  by (simp add: resolvePinnedAddresses_def dns_lookup_def Let_def nullish_def split: option.split)

lemma pinned_lookups: "resolvePinnedAddresses env host r = (pinned, r') \<Longrightarrow> lookups r \<le> lookups r'"
  by (cases "env_isIP env (drop_brackets host) = 0") (auto simp: pinned_literal pinned_name)

lemma check_lookups: "checkPublicUrl env options rawUrl r = (a, r') \<Longrightarrow> lookups r \<le> lookups r'"
  by (auto simp: checkPublicUrl_def split: option.splits if_splits prod.splits guard_answer.splits
      dest!: resolve_lookups pinned_lookups)

lemma checked:
  assumes "checkPublicUrl env options rawUrl r = (Inr (url, pinned), r')"
  shows "checked_url env options (lookups r) (lookups r') url pinned \<and> env_parse env rawUrl = Some url"
proof -
  have parse: "env_parse env rawUrl = Some url" "url_protocol url \<in> {''http:'', ''https:''}"
    using assms by (auto simp: checkPublicUrl_def split: option.splits if_splits prod.splits guard_answer.splits)
  note forward = check_lookups [OF assms]
  show ?thesis
  proof (cases "blocks env options url")
    case False
    then show ?thesis using parse forward by (simp add: checked_url_def)
  next
    case True
    obtain r1 where guard: "resolveForGuard env options (url_hostname url) r = (Verdict False, r1)"
      and pin: "resolvePinnedAddresses env (url_hostname url) r1 = (pinned, r')" "\<not> refuses_any env options pinned"
      using assms parse True
      by (auto simp: checkPublicUrl_def split: if_splits prod.splits guard_answer.splits)
    have "\<forall>a \<in> set pinned. \<not> guardRefusesAddress env options a" using pin(2) by (simp add: refuses_any_def list_ex_iff)
    moreover have "\<exists>n. lookups r \<le> n \<and> lookups r' = Suc n \<and> no_answer env (bare_host url) n"
      if "env_isIP env (bare_host url) = 0" "pinned = []"
      using pinned_name [OF that(1), of r1] pin(1) that(2) resolve_lookups [OF guard] by (auto simp: no_answer_def)
    ultimately show ?thesis
      using parse forward resolve_verdict [OF guard] pin(1) pinned_literal [of env "url_hostname url" r1] by (auto simp: checked_url_def)
  qed
qed

text \<open>
  A dial that was checked. The way around it: the host is a name, lookup number \<open>n\<close>, which was to pin it, had no answer, and
  the connection goes by the answer of the next one.
\<close>

definition pin_failed :: "outbound_env \<Rightarrow> nat \<Rightarrow> nat \<Rightarrow> dial \<Rightarrow> bool" where
  "pin_failed env lo hi d \<longleftrightarrow>
     env_isIP env (bare_host (dial_url d)) = 0 \<and>
     (\<exists>n. lo \<le> n \<and> Suc n < hi \<and> no_answer env (bare_host (dial_url d)) n \<and>
        dial_addresses d = nullish (env_dns env (Suc n) (bare_host (dial_url d))) [])"

definition dial_ok :: "outbound_env \<Rightarrow> OutboundGuardOptions \<Rightarrow> nat \<Rightarrow> nat \<Rightarrow> dial \<Rightarrow> bool" where
  "dial_ok env options lo hi d \<longleftrightarrow>
     url_protocol (dial_url d) \<in> {''http:'', ''https:''} \<and>
     (blocks env options (dial_url d) \<longrightarrow>
        \<not> isRefusedName (bare_host (dial_url d)) options \<and>
        ((\<forall>a \<in> set (dial_addresses d). \<not> guardRefusesAddress env options a) \<or> pin_failed env lo hi d))"

lemma pin_failed_mono: "pin_failed env lo hi d \<Longrightarrow> lo' \<le> lo \<Longrightarrow> hi \<le> hi' \<Longrightarrow> pin_failed env lo' hi' d"
  unfolding pin_failed_def by (meson le_trans order_less_le_trans)

lemma dial_ok_mono: "dial_ok env options lo hi d \<Longrightarrow> lo' \<le> lo \<Longrightarrow> hi \<le> hi' \<Longrightarrow> dial_ok env options lo' hi' d"
  unfolding dial_ok_def using pin_failed_mono by blast

lemma connect_lookups: "connect env url pinned r = (addresses, r') \<Longrightarrow> lookups r \<le> lookups r'"
  by (auto simp: connect_def dns_lookup_def Let_def split: if_splits)

lemma connected_ok:
  assumes "checked_url env options lo (lookups r) url pinned" "connect env url pinned r = (addresses, r')"
  shows "dial_ok env options lo (lookups r') \<lparr>dial_url = url, dial_pinned = pinned, dial_addresses = addresses, dial_init = init\<rparr>"
proof (cases "pinned = [] \<and> env_isIP env (bare_host url) = 0")
  case True
  then have "addresses = nullish (env_dns env (lookups r) (bare_host url)) []" "lookups r' = Suc (lookups r)"
    using assms(2) by (auto simp: connect_def dns_lookup_def Let_def)
  then show ?thesis using assms(1) True by (auto simp: checked_url_def dial_ok_def pin_failed_def)
next
  case False
  then show ?thesis using assms by (auto simp: checked_url_def dial_ok_def connect_def Let_def split: if_splits)
qed

text \<open>What one hop does to the run: nothing, or one dial of the URL it checked.\<close>

lemma discard_fields [simp]:
  "run_dials (discardDispatcher d run) = run_dials run" "run_created (discardDispatcher d run) = run_created run"
  "run_live (discardDispatcher d run) = run_live run" "run_dials (finish run) = run_dials run"
  by (simp_all add: discardDispatcher_def finish_def split: option.split)

abbreviation run_lookups :: "fetch_run \<Rightarrow> nat" where
  "run_lookups run \<equiv> lookups (run_resolver run)"

lemma discard_resolver [simp]: "run_resolver (discardDispatcher d run) = run_resolver run" "run_resolver (finish run) = run_resolver run"
  by (simp_all add: discardDispatcher_def finish_def split: option.split)

definition dialled :: "outbound_env \<Rightarrow> SafeFetchOptions \<Rightarrow> string \<Rightarrow> request_init \<Rightarrow> fetch_run \<Rightarrow> fetch_run \<Rightarrow> bool" where
  "dialled env opts currentUrl init run run' \<longleftrightarrow>
     run_lookups run \<le> run_lookups run' \<and>
     (\<exists>d. run_dials run' = run_dials run @ [d] \<and> env_parse env currentUrl = Some (dial_url d) \<and> dial_init d = init \<and>
        dial_ok env (fetch_guard opts) (run_lookups run) (run_lookups run') d)"

lemma dialled_cong:
  "run_dials run' = run_dials run'' \<Longrightarrow> run_resolver run' = run_resolver run'' \<Longrightarrow>
   dialled env opts currentUrl init run run' = dialled env opts currentUrl init run run''"
  by (simp add: dialled_def)

lemma hop_dials:
  assumes "fetch_hop env opts server currentUrl init run = result"
  shows "case result of
      Done (answer, run') \<Rightarrow>
        run_dials run' = run_dials run \<and> run_lookups run \<le> run_lookups run' \<or> dialled env opts currentUrl init run run'
    | Moved status location url run' \<Rightarrow> dialled env opts currentUrl init run run' \<and> env_parse env currentUrl = Some url"
proof (cases "checkPublicUrl env (fetch_guard opts) currentUrl (run_resolver run)")
  case (Pair answer r)
  show ?thesis
  proof (cases answer)
    case (Inl e)
    then show ?thesis using assms Pair check_lookups [OF Pair] by (auto simp: fetch_hop_def)
  next
    case (Inr up)
    obtain url pinned where up: "up = (url, pinned)" by fastforce
    note ok = checked [of env "fetch_guard opts" currentUrl "run_resolver run" url pinned r]
    obtain addresses r2 where conn: "connect env url pinned r = (addresses, r2)" by fastforce
    let ?ds = "run_dials run @ [\<lparr>dial_url = url, dial_pinned = pinned, dial_addresses = addresses, dial_init = init\<rparr>]"
    have dialled: "dialled env opts currentUrl init run (run\<lparr>run_resolver := r2, run_dials := ?ds\<rparr>)"
      and parse: "env_parse env currentUrl = Some url"
      using ok connected_ok [OF _ conn] connect_lookups [OF conn] check_lookups [OF Pair] Pair Inr up by (simp_all add: dialled_def)
    define ds where "ds = ?ds"
    have same: "dialled env opts currentUrl init run run'" if "run_dials run' = ds" "run_resolver run' = r2" for run'
      using dialled dialled_cong [of run' "run\<lparr>run_resolver := r2, run_dials := ?ds\<rparr>"] that by (simp add: ds_def)
    have hop: "result = fetch_hop env opts server currentUrl init run" using assms by simp
    show ?thesis
      unfolding hop fetch_hop_def Pair Inr up prod.case sum.case Let_def conn ds_def [symmetric]
      by (simp add: parse same split: option.split)
  qed
qed

text \<open>An invariant of the loop is one of the hops and of the step to the next URL.\<close>

lemma hops_invariant:
  assumes "J left currentUrl init run"
    and "\<And>left currentUrl init run a run'. J left currentUrl init run \<Longrightarrow>
      fetch_hop env opts server currentUrl init run = Done (a, run') \<Longrightarrow> P a run'"
    and "\<And>left currentUrl init run status location url run'. J left currentUrl init run \<Longrightarrow>
      fetch_hop env opts server currentUrl init run = Moved status location url run' \<Longrightarrow> P (Inl TooManyRedirects) (finish run') \<and> P (Inl BadLocation) (finish run')"
    and "\<And>m currentUrl init run status location url run' nextUrl. J (Suc m) currentUrl init run \<Longrightarrow>
      fetch_hop env opts server currentUrl init run = Moved status location url run' \<Longrightarrow> env_resolve env location url = Some nextUrl \<Longrightarrow>
      J m (url_href nextUrl) (next_init env opts status url nextUrl init) run'"
    and "fetch_hops env opts server left currentUrl init run = (a, run')"
  shows "P a run'"
  using assms(1,5)
proof (induction left arbitrary: currentUrl init run)
  case 0
  show ?case
  proof (cases "fetch_hop env opts server currentUrl init run")
    case (Done x)
    then show ?thesis using assms(2) [OF 0(1)] 0(2) by (cases x) (simp add: fetch_hops.simps)
  next
    case (Moved status location url r)
    then show ?thesis using assms(3) [OF 0(1) Moved] 0(2) by (simp add: fetch_hops.simps)
  qed
next
  case (Suc m)
  show ?case
  proof (cases "fetch_hop env opts server currentUrl init run")
    case (Done x)
    then show ?thesis using assms(2) [OF Suc(2)] Suc(3) by (cases x) (simp add: fetch_hops.simps)
  next
    case (Moved status location url r)
    show ?thesis
    proof (cases "env_resolve env location url")
      case None
      then show ?thesis using assms(3) [OF Suc(2) Moved] Moved Suc(3) by (simp add: fetch_hops.simps)
    next
      case (Some nextUrl)
      then show ?thesis using Suc(1) [OF assms(4) [OF Suc(2) Moved Some]] Moved Suc(3) by (simp add: fetch_hops.simps)
    qed
  qed
qed

text \<open>
  C12: Every request that goes out was checked, redirects included: at most six, each over http or https, and wherever the
  block applies to the host, the name is none of the refused ones and every address the connection can reach passes the
  guard. The one exception is a name whose pinning lookup, one of the lookups of this very call, failed or had no answer:
  then the connection goes by the answer of the lookup after it.
\<close>

theorem every_dial_is_checked:
  assumes "safeFetch env opts server rawUrl init r = (answer, run)"
  shows "length (run_dials run) \<le> MAX_REDIRECTS + 1 \<and>
     (\<forall>d \<in> set (run_dials run). dial_ok env (fetch_guard opts) (lookups r) (run_lookups run) d)"
proof -
  let ?ok = "\<lambda>run. lookups r \<le> run_lookups run \<and> (\<forall>d \<in> set (run_dials run). dial_ok env (fetch_guard opts) (lookups r) (run_lookups run) d)"
  let ?J = "\<lambda>left (u :: string) (i :: request_init) run. length (run_dials run) + left \<le> MAX_REDIRECTS \<and> ?ok run"
  let ?P = "\<lambda>(a :: OutboundError + response \<times> nat option) run. length (run_dials run) \<le> MAX_REDIRECTS + 1 \<and> ?ok run"
  have later: "?ok run'" if "?ok run" "run_dials run' = run_dials run" "run_lookups run \<le> run_lookups run'" for run run'
    using that by (auto intro: dial_ok_mono)
  have more: "?ok run' \<and> length (run_dials run') = Suc (length (run_dials run))"
    if "?ok run" "dialled env opts u i run run'" for run run' u i
  proof -
    note prem = that
    obtain d where d: "run_dials run' = run_dials run @ [d]" "dial_ok env (fetch_guard opts) (run_lookups run) (run_lookups run') d"
      and le: "run_lookups run \<le> run_lookups run'" using prem(2) by (auto simp: dialled_def)
    have "dial_ok env (fetch_guard opts) (lookups r) (run_lookups run') d" using dial_ok_mono [OF d(2)] prem(1) by simp
    moreover have "dial_ok env (fetch_guard opts) (lookups r) (run_lookups run') x" if "x \<in> set (run_dials run)" for x
      using dial_ok_mono [OF _ order_refl le] prem(1) that by blast
    ultimately show ?thesis using d(1) le prem(1) by auto
  qed
  have "?P answer run"
  proof (rule hops_invariant [where J = ?J and P = ?P and left = MAX_REDIRECTS and run = "fresh_run r"])
    show "?J MAX_REDIRECTS rawUrl init (fresh_run r)" by (simp add: fresh_run_def)
    show "fetch_hops env opts server MAX_REDIRECTS rawUrl init (fresh_run r) = (answer, run)" using assms by (simp add: safeFetch_def)
  next
    fix left currentUrl init run0 a run'
    assume J: "?J left currentUrl init run0" and "fetch_hop env opts server currentUrl init run0 = Done (a, run')"
    from hop_dials [OF this(2)] show "?P a run'" using J later [of run0 run'] more [of run0 currentUrl init run'] by auto
  next
    fix left currentUrl init run0 status location url run'
    assume J: "?J left currentUrl init run0" and "fetch_hop env opts server currentUrl init run0 = Moved status location url run'"
    from hop_dials [OF this(2)] show "?P (Inl TooManyRedirects) (finish run') \<and> ?P (Inl BadLocation) (finish run')"
      using J more [of run0 currentUrl init run'] by auto
  next
    fix m currentUrl init run0 status location url run' nextUrl
    assume J: "?J (Suc m) currentUrl init run0" and "fetch_hop env opts server currentUrl init run0 = Moved status location url run'"
    from hop_dials [OF this(2)] show "?J m (url_href nextUrl) (next_init env opts status url nextUrl init) run'"
      using J more [of run0 currentUrl init run'] by auto
  qed
  then show ?thesis by blast
qed

text \<open>An environment for the concrete runs: addresses and names read as documented, and the answers of DNS in order.\<close>

definition rebinding_env :: "string list option list \<Rightarrow> outbound_env" where
  "rebinding_env answers =
     \<lparr>env_isIP = address_family, env_Number = decimal_number,
      env_config = \<lparr>blockPrivateNetwork = True, allowedHosts = []\<rparr>,
      env_parse = (\<lambda>s. Some \<lparr>url_protocol = ''http:'', url_hostname = s, url_origin = s, url_href = s\<rparr>),
      env_resolve = (\<lambda>s url. Some \<lparr>url_protocol = ''http:'', url_hostname = s, url_origin = s, url_href = s\<rparr>),
      env_headers = (\<lambda>h. h),
      env_dns = (\<lambda>n host. if n < length answers then answers ! n else None),
      env_clock = (\<lambda>n. 0)\<rparr>"

definition strict_options :: SafeFetchOptions where
  "strict_options = \<lparr>fetch_guard = \<lparr>allowPrivate = False, forceBlock = True, privateNetworks = None\<rparr>,
     fetch_tls = False, followRedirects = True, sensitiveHeaders = []\<rparr>"

definition plain_init :: request_init where
  "plain_init = \<lparr>init_headers = Some [(''authorization'', ''s'')], init_method = None, init_body = False\<rparr>"

definition empty_resolver :: resolver where
  "empty_resolver = \<lparr>host_cache = [], lookups = 0\<rparr>"

lemma environment_simps [simp]:
  "env_isIP (rebinding_env answers) = address_family" "env_Number (rebinding_env answers) = decimal_number"
  by (simp_all add: rebinding_env_def)

text \<open>A pinned name: the two addresses of the second answer are what the connection can reach.\<close>

theorem every_dial_is_checked_witness:
  "\<exists>answer run. safeFetch (rebinding_env [Some [''9.9.9.9''], Some [''9.9.9.9'']]) strict_options (\<lambda>ds. Some \<lparr>resp_status = 200, resp_location = None\<rparr>)
       ''x.io'' plain_init empty_resolver = (answer, run) \<and> length (run_dials run) = 1 \<and>
     (\<forall>d \<in> set (run_dials run). \<forall>a \<in> set (dial_addresses d).
        \<not> guardRefusesAddress (rebinding_env [Some [''9.9.9.9''], Some [''9.9.9.9'']]) (fetch_guard strict_options) a)"
proof -
  let ?env = "rebinding_env [Some [''9.9.9.9''], Some [''9.9.9.9'']]"
  let ?run = "safeFetch ?env strict_options (\<lambda>ds. Some \<lparr>resp_status = 200, resp_location = None\<rparr>) ''x.io'' plain_init empty_resolver"
  have one: "length (run_dials (snd ?run)) = 1" "run_lookups (snd ?run) = 2" "lookups empty_resolver = 0" by code_simp+
  have block: "blocks ?env (fetch_guard strict_options) url" for url
    by (simp add: privateNetworkBlockApplies_def strict_options_def)
  have pins: "\<not> pin_failed ?env 0 2 d" for d by (auto simp: pin_failed_def no_answer_def rebinding_env_def less_2_cases_iff)
  obtain answer run where run: "?run = (answer, run)" by fastforce
  then show ?thesis using every_dial_is_checked [OF run] one block pins by (auto simp: dial_ok_def)
qed

text \<open>
  The fallback is open to rebinding: when the pinning lookup fails, the request goes out unpinned, the name is looked up
  once more, and the connection may reach an address the block refuses.
\<close>

theorem unpinned_request_can_be_rebound:
  "let env = rebinding_env [Some [''9.9.9.9''], None, Some [''127.0.0.1'']];
       (answer, run) = safeFetch env strict_options (\<lambda>ds. Some \<lparr>resp_status = 200, resp_location = None\<rparr>) ''x.io'' plain_init empty_resolver
   in answer = Inr (\<lparr>resp_status = 200, resp_location = None\<rparr>, None) \<and>
      list_ex (\<lambda>d. privateNetworkBlockApplies env (fetch_guard strict_options) (url_hostname (dial_url d)) \<and>
                  list_ex (guardRefusesAddress env (fetch_guard strict_options)) (dial_addresses d)) (run_dials run)"
  by code_simp

section \<open>Credentials and dispatchers\<close>

text \<open>A redirect to another origin among the dials so far, and the headers that may follow it.\<close>

definition crossed :: "dial list \<Rightarrow> bool" where
  "crossed ds \<longleftrightarrow> (\<exists>k. Suc k < length ds \<and> url_origin (dial_url (ds ! k)) \<noteq> url_origin (dial_url (ds ! Suc k)))"

definition bare_init :: "SafeFetchOptions \<Rightarrow> request_init \<Rightarrow> bool" where
  "bare_init opts init \<longleftrightarrow>
     (\<forall>(name, value) \<in> set (nullish (init_headers init) []). \<not> isStrippedOnCrossOrigin (extraSensitiveHeaders opts) name)"

definition sheds :: "SafeFetchOptions \<Rightarrow> dial list \<Rightarrow> bool" where
  "sheds opts ds \<longleftrightarrow> (\<forall>j < length ds. crossed (take (Suc j) ds) \<longrightarrow> bare_init opts (dial_init (ds ! j)))"

lemma crossed_start [simp]: "\<not> crossed [d]" "sheds opts []"
  by (simp_all add: crossed_def sheds_def)

lemma crossed_snoc: "crossed (ds @ [d]) \<longleftrightarrow> crossed ds \<or> (ds \<noteq> [] \<and> url_origin (dial_url (last ds)) \<noteq> url_origin (dial_url d))"
  (is "?l \<longleftrightarrow> ?r")
proof
  assume ?l
  then obtain k where k: "Suc k < length (ds @ [d])" "url_origin (dial_url ((ds @ [d]) ! k)) \<noteq> url_origin (dial_url ((ds @ [d]) ! Suc k))"
    by (auto simp: crossed_def)
  show ?r
  proof (cases "Suc k < length ds")
    case True
    then show ?thesis using k(2) by (auto simp: crossed_def nth_append)
  next
    case False
    then have "length ds = Suc k" using k(1) by simp
    then show ?thesis using k(2) by (simp add: nth_append last_conv_nth flip: length_greater_0_conv)
  qed
next
  assume ?r
  then show ?l
  proof
    assume "crossed ds"
    then obtain k where "Suc k < length ds" "url_origin (dial_url (ds ! k)) \<noteq> url_origin (dial_url (ds ! Suc k))"
      by (auto simp: crossed_def)
    then show ?l by (auto simp: crossed_def nth_append intro!: exI [of _ k])
  next
    assume "ds \<noteq> [] \<and> url_origin (dial_url (last ds)) \<noteq> url_origin (dial_url d)"
    then show ?l by (auto simp: crossed_def nth_append last_conv_nth intro!: exI [of _ "length ds - 1"])
  qed
qed

lemma sheds_snoc: "sheds opts (ds @ [d]) \<longleftrightarrow> sheds opts ds \<and> (crossed (ds @ [d]) \<longrightarrow> bare_init opts (dial_init d))"
  by (auto simp: sheds_def nth_append less_Suc_eq)

lemma bare_after_redirect:
  "url_origin url \<noteq> url_origin nextUrl \<or> bare_init opts init \<Longrightarrow> bare_init opts (next_init env opts status url nextUrl init)"
  by (cases "init_headers init")
    (auto simp: bare_init_def next_init_def stripCrossOriginHeaders_def Let_def)

text \<open>
  C21: A credential does not follow a redirect to another origin, nor any redirect after it, back to the first origin
  included: once two dials in a row differ in their origin, no later request carries an authorization or cookie header, a
  signature, or a header the caller called sensitive.
\<close>

theorem credentials_stay_with_their_origin:
  assumes "\<And>location url nextUrl. env_resolve env location url = Some nextUrl \<Longrightarrow> env_parse env (url_href nextUrl) = Some nextUrl"
    and "safeFetch env opts server rawUrl init r = (answer, run)"
  shows "sheds opts (run_dials run)"
proof (rule hops_invariant [where P = "\<lambda>a run. sheds opts (run_dials run)" and left = MAX_REDIRECTS and run = "fresh_run r"
      and J = "\<lambda>left u i run. sheds opts (run_dials run) \<and>
         (\<forall>d. env_parse env u = Some (dial_url d) \<longrightarrow> crossed (run_dials run @ [d]) \<longrightarrow> bare_init opts i)"])
  show "fetch_hops env opts server MAX_REDIRECTS rawUrl init (fresh_run r) = (answer, run)" using assms(2) by (simp add: safeFetch_def)
next
  fix m currentUrl init run status location url run' nextUrl
  assume J: "sheds opts (run_dials run) \<and>
      (\<forall>d. env_parse env currentUrl = Some (dial_url d) \<longrightarrow> crossed (run_dials run @ [d]) \<longrightarrow> bare_init opts init)"
    and moved: "fetch_hop env opts server currentUrl init run = Moved status location url run'"
    and "env_resolve env location url = Some nextUrl"
  from hop_dials [OF moved] obtain d where d: "run_dials run' = run_dials run @ [d]" "dial_url d = url" "dial_init d = init"
      "env_parse env currentUrl = Some url" by (auto simp: dialled_def)
  have "env_parse env (url_href nextUrl) = Some nextUrl" using assms(1) \<open>env_resolve env location url = Some nextUrl\<close> .
  then show "sheds opts (run_dials run') \<and>
      (\<forall>d. env_parse env (url_href nextUrl) = Some (dial_url d) \<longrightarrow> crossed (run_dials run' @ [d]) \<longrightarrow>
         bare_init opts (next_init env opts status url nextUrl init))"
    using J d crossed_snoc [of "run_dials run @ [d]"] by (auto simp: sheds_snoc intro!: bare_after_redirect)
qed (auto simp: fresh_run_def dialled_def sheds_snoc dest!: hop_dials)

theorem credentials_stay_with_their_origin_witness:
  "sheds strict_options (run_dials (snd (safeFetch (rebinding_env (replicate 4 (Some [''9.9.9.9'']))) strict_options
     (\<lambda>ds. Some \<lparr>resp_status = (if length ds = 1 then 302 else 200), resp_location = Some ''y.io''\<rparr>) ''x.io'' plain_init empty_resolver)))"
  by (rule credentials_stay_with_their_origin [of "rebinding_env (replicate 4 (Some [''9.9.9.9'']))", OF _ surjective_pairing])
    (auto simp: rebinding_env_def)

text \<open>The dispatchers that were made are destroyed in their order; the one still live is the last one made.\<close>

definition accounted :: "fetch_run \<Rightarrow> bool" where
  "accounted run \<longleftrightarrow> run_destroyed run @ (case run_live run of None \<Rightarrow> [] | Some i \<Rightarrow> [i]) = [0..<run_created run]"

definition handed_over :: "OutboundError + response \<times> nat option \<Rightarrow> nat list" where
  "handed_over answer = (case answer of Inr (_, Some i) \<Rightarrow> [i] | _ \<Rightarrow> [])"

lemma accounted_finish:
  "accounted run \<Longrightarrow> run_destroyed (finish run) = [0..<run_created (finish run)] \<and> run_live (finish run) = None"
  by (auto simp: accounted_def finish_def discardDispatcher_def split: option.splits)

lemma destroyed_discard:
  "run_destroyed (discardDispatcher d run) = run_destroyed run @ (case d of None \<Rightarrow> [] | Some i \<Rightarrow> [i])"
  by (simp add: discardDispatcher_def split: option.split)

lemma hop_accounts:
  assumes "fetch_hop env opts server currentUrl init run = result" and "accounted run"
  shows "case result of
      Done (answer, run') \<Rightarrow> run_destroyed run' @ handed_over answer = [0..<run_created run'] \<and> run_live run' = None
    | Moved status location url run' \<Rightarrow> accounted run'"
proof (cases "checkPublicUrl env (fetch_guard opts) currentUrl (run_resolver run)")
  case (Pair a r)
  show ?thesis
  proof (cases a)
    case (Inl e)
    then show ?thesis
      using assms Pair accounted_finish [of "run\<lparr>run_resolver := r\<rparr>"] by (auto simp: fetch_hop_def accounted_def handed_over_def)
  next
    case (Inr up)
    obtain url pinned addresses r2 where up: "up = (url, pinned)" and conn: "connect env url pinned r = (addresses, r2)" by fastforce
    have hop: "result = fetch_hop env opts server currentUrl init run" using assms by simp
    have live: "run_destroyed run @ (case run_live run of None \<Rightarrow> [] | Some i \<Rightarrow> [i]) = [0..<run_created run]"
      using assms(2) by (simp add: accounted_def)
    show ?thesis
      unfolding hop fetch_hop_def Pair Inr up prod.case sum.case Let_def conn
      by (cases "pinned \<noteq> [] \<or> fetch_tls opts") (auto simp: accounted_def handed_over_def destroyed_discard live split: option.split)
  qed
qed

text \<open>
  C25: No dispatcher leaks and none is closed under a reader: when the call ends, every dispatcher it made has been destroyed
  exactly once, except the one handed to the caller with its response.
\<close>

theorem dispatchers_are_accounted_for:
  assumes "safeFetch env opts server rawUrl init r = (answer, run)"
  shows "run_destroyed run @ handed_over answer = [0..<run_created run] \<and> run_live run = None"
proof (rule hops_invariant [where J = "\<lambda>left u i run. accounted run" and left = MAX_REDIRECTS and run = "fresh_run r"
      and P = "\<lambda>answer run. run_destroyed run @ handed_over answer = [0..<run_created run] \<and> run_live run = None"])
  show "fetch_hops env opts server MAX_REDIRECTS rawUrl init (fresh_run r) = (answer, run)" using assms by (simp add: safeFetch_def)
qed (use accounted_finish in \<open>auto simp: fresh_run_def accounted_def [of "\<lparr>run_resolver = _, run_dials = _, run_created = _, run_destroyed = _, run_live = _\<rparr>"] handed_over_def dest!: hop_accounts\<close>)

theorem dispatchers_are_accounted_for_witness:
  "\<exists>answer run. safeFetch (rebinding_env (replicate 4 (Some [''9.9.9.9'']))) strict_options
       (\<lambda>ds. Some \<lparr>resp_status = (if length ds = 1 then 302 else 200), resp_location = Some ''y.io''\<rparr>) ''x.io'' plain_init empty_resolver = (answer, run) \<and>
     run_destroyed run @ handed_over answer = [0..<run_created run]"
proof -
  obtain answer run where r: "safeFetch (rebinding_env (replicate 4 (Some [''9.9.9.9'']))) strict_options
      (\<lambda>ds. Some \<lparr>resp_status = (if length ds = 1 then 302 else 200), resp_location = Some ''y.io''\<rparr>) ''x.io'' plain_init empty_resolver = (answer, run)"
    by fastforce
  then show ?thesis using dispatchers_are_accounted_for [OF r] by blast
qed

text \<open>
  The guarded lookup never hands a refused address to a socket where the block applies, and never an empty answer.
\<close>

theorem guarded_lookup_dials_no_refused_address:
  assumes "createGuardedLookup env options hostname all r = (Dials addresses, r')"
  shows "addresses \<noteq> [] \<and>
    (privateNetworkBlockApplies env options hostname \<longrightarrow>
       \<not> isRefusedName (to_lower hostname) options \<and> (\<forall>a \<in> set addresses. \<not> guardRefusesAddress env options a))"
  using assms by (auto simp: createGuardedLookup_def Let_def refuses_any_def list_ex_iff split: prod.splits option.splits if_splits)

theorem guarded_lookup_dials_no_refused_address_witness:
  "\<exists>addresses r'. createGuardedLookup (rebinding_env [Some [''9.9.9.9'']]) (fetch_guard strict_options) ''x.io'' True empty_resolver = (Dials addresses, r')
     \<and> (\<forall>a \<in> set addresses. \<not> guardRefusesAddress (rebinding_env [Some [''9.9.9.9'']]) (fetch_guard strict_options) a)"
proof -
  have "createGuardedLookup (rebinding_env [Some [''9.9.9.9'']]) (fetch_guard strict_options) ''x.io'' True empty_resolver
      = (Dials [''9.9.9.9''], empty_resolver\<lparr>lookups := 1\<rparr>)" by code_simp
  from this guarded_lookup_dials_no_refused_address [OF this] show ?thesis
    by (simp add: privateNetworkBlockApplies_def strict_options_def)
qed

section \<open>Reading a body under a cap\<close>

text \<open>
  The chunks of the body in order; \<open>aborted i\<close> is the caller's signal as the \<open>i\<close>th read returns. The decoder of text is an
  argument: its state, what it says of a chunk and what is left at the end.
\<close>

datatype ReadError = ResponseTooLarge | Aborted

fun read_chunks ::
  "('s \<Rightarrow> nat list \<Rightarrow> string \<times> 's) \<Rightarrow> ('s \<Rightarrow> string) \<Rightarrow> (nat \<Rightarrow> bool) \<Rightarrow> nat \<Rightarrow> nat \<Rightarrow> nat \<Rightarrow> 's \<Rightarrow> string \<Rightarrow> nat list list
     \<Rightarrow> ReadError + string" where
  "read_chunks decode flush aborted maxBytes i received d sofar [] =
     (if aborted i then Inl Aborted else Inr (sofar @ flush d))"
| "read_chunks decode flush aborted maxBytes i received d sofar (chunk # chunks) =
     (if aborted i then Inl Aborted
      else if received + length chunk > maxBytes then Inl ResponseTooLarge
      else case decode d chunk of (piece, d) \<Rightarrow>
        read_chunks decode flush aborted maxBytes (i + 1) (received + length chunk) d (sofar @ piece) chunks)"

definition readResponseText ::
  "('s \<Rightarrow> nat list \<Rightarrow> string \<times> 's) \<Rightarrow> ('s \<Rightarrow> string) \<Rightarrow> 's \<Rightarrow> (nat \<Rightarrow> bool) \<Rightarrow> nat \<Rightarrow> nat list list option \<Rightarrow> ReadError + string" where
  "readResponseText decode flush d aborted maxBytes body =
     (case body of
        None \<Rightarrow> Inr []
      | Some chunks \<Rightarrow> if aborted 0 then Inl Aborted else read_chunks decode flush (\<lambda>i. aborted (i + 1)) maxBytes 0 0 d [] chunks)"

text \<open>What the decoder says of a whole body.\<close>

fun decoded :: "('s \<Rightarrow> nat list \<Rightarrow> string \<times> 's) \<Rightarrow> ('s \<Rightarrow> string) \<Rightarrow> 's \<Rightarrow> nat list list \<Rightarrow> string" where
  "decoded decode flush d [] = flush d"
| "decoded decode flush d (chunk # chunks) = (case decode d chunk of (piece, d) \<Rightarrow> piece @ decoded decode flush d chunks)"

lemma read_chunks_all:
  "(\<And>i. \<not> aborted i) \<Longrightarrow> received \<le> maxBytes \<Longrightarrow>
   read_chunks decode flush aborted maxBytes i received d sofar chunks =
     (if received + length (concat chunks) \<le> maxBytes then Inr (sofar @ decoded decode flush d chunks) else Inl ResponseTooLarge)"
  by (induction chunks arbitrary: i received d sofar) (auto split: prod.split)

lemma read_chunks_bounded:
  "read_chunks decode flush aborted maxBytes i received d sofar chunks = Inr whole \<Longrightarrow> received \<le> maxBytes \<Longrightarrow>
   received + length (concat chunks) \<le> maxBytes \<and> whole = sofar @ decoded decode flush d chunks"
  by (induction chunks arbitrary: i received d sofar) (fastforce split: if_splits prod.splits)+

text \<open>
  Exactly the bodies within the cap are read when nobody aborts, each as the whole text the decoder makes of it,
  however the body is cut into chunks; and no reader ever gets a part of a body, or one over the cap.
\<close>

theorem body_is_read_whole_or_refused:
  "(\<forall>chunks. (\<forall>i. \<not> aborted i) \<longrightarrow> readResponseText decode flush d aborted maxBytes (Some chunks) =
      (if length (concat chunks) \<le> maxBytes then Inr (decoded decode flush d chunks) else Inl ResponseTooLarge)) \<and>
   (\<forall>chunks sofar. readResponseText decode flush d aborted maxBytes (Some chunks) = Inr sofar \<longrightarrow>
      length (concat chunks) \<le> maxBytes \<and> sofar = decoded decode flush d chunks)"
proof -
  have "\<forall>chunks. (\<forall>i. \<not> aborted i) \<longrightarrow> readResponseText decode flush d aborted maxBytes (Some chunks) =
      (if length (concat chunks) \<le> maxBytes then Inr (decoded decode flush d chunks) else Inl ResponseTooLarge)"
    by (simp add: readResponseText_def read_chunks_all)
  moreover have "\<forall>chunks sofar. readResponseText decode flush d aborted maxBytes (Some chunks) = Inr sofar \<longrightarrow>
      length (concat chunks) \<le> maxBytes \<and> sofar = decoded decode flush d chunks"
    by (auto simp: readResponseText_def dest!: read_chunks_bounded split: if_splits)
  ultimately show ?thesis by blast
qed

theorem body_is_read_whole_or_refused_witness:
  "readResponseText (\<lambda>d chunk. (map char_of chunk, d)) (\<lambda>d. []) () (\<lambda>i. False) 5 (Some [[104, 105], [33]]) = Inr ''hi!''"
proof -
  have "readResponseText (\<lambda>d chunk. (map char_of chunk, d)) (\<lambda>d. []) () (\<lambda>i. False) 5 (Some [[104, 105], [33]])
      = Inr (decoded (\<lambda>d chunk. (map char_of chunk, d)) (\<lambda>d. []) () [[104, 105], [33 :: nat]])"
    by (subst body_is_read_whole_or_refused [THEN conjunct1, THEN spec, THEN mp]) simp_all
  also have "\<dots> = Inr ''hi!''" by code_simp
  finally show ?thesis .
qed

end
