(* ===== verification/PrivateNetworks.thy ===== *)
theory PrivateNetworks
  imports OutboundGuard
begin

text \<open>
  The private networks an operator opens for the provider endpoints of an organization:
  \<^verbatim>\<open>src/lib/security/providerPrivateNetworks.ts\<close>.

  \<^item> \<open>compileProviderPrivateNetworks\<close> reads the two settings into a policy: what each organization may reach, what nobody may,
    and the report of the startup log.
  \<^item> \<open>getProviderPrivateNetworks\<close> keeps the policy of the current configuration object.

  The addresses of the machine are an argument, as they are of the code. The lemmas say what is opened in terms of the
  texts of the settings alone, and what the guard of outbound requests makes of it.
\<close>

section \<open>Reading the settings\<close>

definition MAX_LOGGED_TEXT :: nat where
  "MAX_LOGGED_TEXT = 64"

definition tenant_char :: "char \<Rightarrow> bool" where
  "tenant_char c \<longleftrightarrow> is_digit c \<or> (65 \<le> code c \<and> code c \<le> 90) \<or> (97 \<le> code c \<and> code c \<le> 122)"

definition TENANT_TOKEN :: "string \<Rightarrow> bool" where
  "TENANT_TOKEN s =
     (s \<noteq> [] \<and> tenant_char (hd s) \<and> length (tl s) \<le> 127 \<and>
      list_all (\<lambda>c. tenant_char c \<or> c \<in> set ''_.:-'') (tl s))"

definition ALWAYS_REFUSED_TEXT :: "string list" where
  "ALWAYS_REFUSED_TEXT =
     [''0.0.0.0/8'', ''127.0.0.0/8'', ''169.254.0.0/16'', ''168.63.129.16/32'', ''100.100.100.200/32'', ''192.0.0.0/24'',
      ''224.0.0.0/3'', ''255.255.255.255/32'', ''::/128'', ''::1/128'', ''fe80::/10'', ''ff00::/8'', ''fd00:ec2::254/128'',
      ''::/96'', ''::ffff:0:0:0/96'', ''64:ff9b::/96'', ''64:ff9b:1::/48'', ''2002::/16'', ''2001::/32'']"

record net_range =
  range_text :: string
  range_cidr :: ParsedCidr

definition toRange :: "string \<Rightarrow> net_range option" where
  "toRange text =
     (case checkCidr text of CidrOk normalized cidr \<Rightarrow> Some \<lparr>range_text = normalized, range_cidr = cidr\<rparr> | CidrBad _ \<Rightarrow> None)"

text \<open>A built-in range that did not parse would end the loading of the module.\<close>

definition ALWAYS_REFUSED :: "ParsedCidr list" where
  "ALWAYS_REFUSED = map (\<lambda>t. range_cidr (the (toRange t))) ALWAYS_REFUSED_TEXT"

definition excerpt :: "string \<Rightarrow> string" where
  "excerpt s = map (\<lambda>c. if code c < 32 \<or> code c = 127 then CHR '' '' else c) (take MAX_LOGGED_TEXT s)"

definition overlap :: "ParsedCidr \<Rightarrow> ParsedCidr \<Rightarrow> bool" where
  "overlap a b \<longleftrightarrow> isRangeWithin a b \<or> isRangeWithin b a"

definition hostRange :: "string \<Rightarrow> ParsedCidr option" where
  "hostRange text =
     map_option (\<lambda>ip. \<lparr>family = family ip, parts = parts ip, prefix = (if family ip = Fam4 then 32 else 128)\<rparr>) (parseClientIp (Some text))"

record compile_input =
  entries :: "string list"
  deny_texts :: "string list"
  ownAddresses :: "string list option"

record reading =
  invalid_texts :: "string list"
  byTenant :: "(string, net_range list) jsmap"
  wildcard :: "net_range list"

definition read_range :: "string \<Rightarrow> net_range list \<times> string list \<Rightarrow> net_range list \<times> string list" where
  "read_range raw acc =
     (let s = js_trim raw in
      if s = [] then acc
      else case toRange s of Some r \<Rightarrow> (fst acc @ [r], snd acc) | None \<Rightarrow> (fst acc, snd acc @ [excerpt s]))"

definition read_ranges :: "string list \<Rightarrow> net_range list \<times> string list" where
  "read_ranges raws = fold read_range raws ([], [])"

definition read_entry :: "string \<Rightarrow> reading \<Rightarrow> reading" where
  "read_entry raw st =
     (let entry = js_trim raw;
          equals = index_of CHR ''='' entry;
          tenant = (case equals of None \<Rightarrow> [] | Some i \<Rightarrow> js_trim (take i entry))
      in if entry = [] then st
         else if equals = None \<or> (tenant \<noteq> ''*'' \<and> \<not> TENANT_TOKEN tenant)
         then st\<lparr>invalid_texts := invalid_texts st @ [excerpt entry]\<rparr>
         else
           case read_ranges (split_on CHR '','' (drop (the equals + 1) entry)) of
             (opened, bad) \<Rightarrow>
               let st = st\<lparr>invalid_texts := invalid_texts st @ bad @ (if opened = [] \<and> bad = [] then [excerpt entry] else [])\<rparr>
               in if opened = [] then st
                  else if tenant = ''*'' then st\<lparr>wildcard := wildcard st @ opened\<rparr>
                  else st\<lparr>byTenant := (case map_get (byTenant st) tenant of
                      Some existing \<Rightarrow> map_set (byTenant st) tenant (existing @ opened)
                    | None \<Rightarrow> map_set (byTenant st) tenant opened)\<rparr>)"

definition read_entries :: "string list \<Rightarrow> reading" where
  "read_entries raws = fold read_entry raws \<lparr>invalid_texts = [], byTenant = [], wildcard = []\<rparr>"

definition own_ranges :: "compile_input \<Rightarrow> ParsedCidr list" where
  "own_ranges input = List.map_filter hostRange (nullish (ownAddresses input) [])"

definition closed_because :: "compile_input \<Rightarrow> string list \<Rightarrow> string option" where
  "closed_because input invalidDeny =
     (if invalidDeny \<noteq> [] then Some ''PROVIDER_PRIVATE_NETWORKS_DENY has entries that cannot be read''
      else if ownAddresses input = None then Some ''the network addresses of this machine could not be read''
      else None)"

section \<open>The policy\<close>

definition allowanceOf :: "ParsedCidr list \<Rightarrow> net_range list \<Rightarrow> PrivateNetworkAllowance" where
  "allowanceOf refused ranges =
     \<lparr>hasRanges = ranges \<noteq> [],
      permits = (\<lambda>address. case parseClientIp (Some address) of
          None \<Rightarrow> False
        | Some ip \<Rightarrow>
            if list_ex (ipMatchesRange ip) refused then False
            else list_ex (\<lambda>r. ipMatchesRange ip (range_cidr r)) ranges)\<rparr>"

datatype overlap_kind = BuiltIn | Denied | OwnAddress

definition overlap_kinds :: "ParsedCidr list \<Rightarrow> ParsedCidr list \<Rightarrow> ParsedCidr \<Rightarrow> overlap_kind list" where
  "overlap_kinds deny own c =
     (if list_ex (overlap c) ALWAYS_REFUSED then [BuiltIn] else []) @
     (if list_ex (overlap c) deny then [Denied] else []) @
     (if list_ex (overlap c) own then [OwnAddress] else [])"

fun report_overlaps :: "ParsedCidr list \<Rightarrow> ParsedCidr list \<Rightarrow> string list \<Rightarrow> net_range list \<Rightarrow> (string \<times> overlap_kind list) list" where
  "report_overlaps deny own seen [] = []"
| "report_overlaps deny own seen (r # rs) =
     (if range_text r \<in> set seen then report_overlaps deny own seen rs
      else
        let found = overlap_kinds deny own (range_cidr r) in
        (if found \<noteq> [] then [(excerpt (range_text r), found)] else []) @ report_overlaps deny own (seen @ [range_text r]) rs)"

record networks_report =
  rep_tenants :: nat
  rep_ranges :: nat
  rep_wildcardRanges :: nat
  rep_denyRanges :: nat
  rep_invalid :: "string list"
  rep_invalidDeny :: "string list"
  rep_overlaps :: "(string \<times> overlap_kind list) list"
  rep_closed :: "string option"

record networks_policy =
  forTenant :: "string option \<Rightarrow> PrivateNetworkAllowance option"
  isAlwaysRefused :: "string \<Rightarrow> bool"
  networks_report :: networks_report

definition compileProviderPrivateNetworks :: "compile_input \<Rightarrow> networks_policy" where
  "compileProviderPrivateNetworks input =
     (let st = read_entries (entries input);
          (deny, invalidDeny) = read_ranges (deny_texts input);
          own = own_ranges input;
          closed = closed_because input invalidDeny;
          refused = ALWAYS_REFUSED @ map range_cidr deny @ own;
          wildcardAllowance = (if wildcard st \<noteq> [] then Some (allowanceOf refused (wildcard st)) else None)
      in \<lparr>forTenant = (\<lambda>tenantId. case tenantId of
              None \<Rightarrow> None
            | Some t \<Rightarrow>
                if closed \<noteq> None \<or> t = [] then None
                else case map_get (byTenant st) t of
                       Some ranges \<Rightarrow> Some (allowanceOf refused (ranges @ wildcard st))
                     | None \<Rightarrow> wildcardAllowance),
          isAlwaysRefused = (\<lambda>address. case parseClientIp (Some address) of
              None \<Rightarrow> True | Some ip \<Rightarrow> list_ex (ipMatchesRange ip) refused),
          networks_report =
            \<lparr>rep_tenants = length (byTenant st),
             rep_ranges = length (wildcard st) + sum_list (map (length \<circ> snd) (byTenant st)),
             rep_wildcardRanges = length (wildcard st),
             rep_denyRanges = length deny,
             rep_invalid = invalid_texts st,
             rep_invalidDeny = invalidDeny,
             rep_overlaps = report_overlaps (map range_cidr deny) own [] (wildcard st @ concat (map snd (byTenant st))),
             rep_closed = closed\<rparr>\<rparr>)"

section \<open>The policy of the current configuration\<close>

text \<open>The configuration object by its identity, with the two settings it holds.\<close>

record outbound_settings =
  settings_ref :: nat
  providerPrivateNetworks :: "string list option"
  providerPrivateNetworksDeny :: "string list option"

text \<open>\<open>interfaces\<close> are the addresses of the network interfaces, \<^const>\<open>None\<close> when reading them throws.\<close>

definition readOwnAddresses :: "string list option \<Rightarrow> string \<Rightarrow> string list option" where
  "readOwnAddresses interfaces kubernetesServiceHost =
     (case interfaces of
        None \<Rightarrow> None
      | Some addresses \<Rightarrow> Some (addresses @ (if kubernetesServiceHost \<noteq> [] then [kubernetesServiceHost] else [])))"

record policy_memo =
  memo_settings :: nat
  memo_kubernetesServiceHost :: string
  memo_policy :: networks_policy

definition getProviderPrivateNetworks ::
  "outbound_settings \<Rightarrow> string option \<Rightarrow> string list option \<Rightarrow> policy_memo option \<Rightarrow> networks_policy \<times> policy_memo option" where
  "getProviderPrivateNetworks settings serviceHost interfaces memo =
     (let host = js_trim (nullish serviceHost []);
          ranges = nullish (providerPrivateNetworks settings) [];
          built = compileProviderPrivateNetworks
            \<lparr>entries = ranges, deny_texts = nullish (providerPrivateNetworksDeny settings) [],
             ownAddresses = (if ranges \<noteq> [] then readOwnAddresses interfaces host else Some [])\<rparr>
      in case memo of
           Some m \<Rightarrow>
             if memo_settings m \<noteq> settings_ref settings \<or> memo_kubernetesServiceHost m \<noteq> host
             then (built, Some \<lparr>memo_settings = settings_ref settings, memo_kubernetesServiceHost = host, memo_policy = built\<rparr>)
             else (memo_policy m, memo)
         | None \<Rightarrow> (built, Some \<lparr>memo_settings = settings_ref settings, memo_kubernetesServiceHost = host, memo_policy = built\<rparr>))"

text \<open>The lines of the startup log: the counts, then what opens nothing, what closes everything and what overlaps.\<close>

datatype log_line =
  Counts nat nat nat nat
| UnreadableEntries "string list"
| UnreadableDeny "string list"
| NothingOpened string
| Overlapping "(string \<times> overlap_kind list) list"

definition logProviderPrivateNetworks :: "networks_report \<Rightarrow> log_line list" where
  "logProviderPrivateNetworks r =
     [Counts (rep_tenants r) (rep_ranges r) (rep_wildcardRanges r) (rep_denyRanges r)] @
     (if rep_invalid r \<noteq> [] then [UnreadableEntries (rep_invalid r)] else []) @
     (if rep_invalidDeny r \<noteq> [] then [UnreadableDeny (rep_invalidDeny r)] else []) @
     (case rep_closed r of Some reason \<Rightarrow> if rep_invalidDeny r = [] then [NothingOpened reason] else [] | None \<Rightarrow> []) @
     (if rep_overlaps r \<noteq> [] then [Overlapping (rep_overlaps r)] else [])"

section \<open>What the settings open\<close>

definition opens :: "string \<Rightarrow> string \<Rightarrow> ParsedCidr \<Rightarrow> bool" where
  "opens raw tenant cidr \<longleftrightarrow>
     (\<exists>i. index_of CHR ''='' (js_trim raw) = Some i \<and> js_trim (take i (js_trim raw)) = tenant \<and>
        (tenant = ''*'' \<or> TENANT_TOKEN tenant) \<and>
        (\<exists>s \<in> set (split_on CHR '','' (drop (i + 1) (js_trim raw))). \<exists>n. checkCidr (js_trim s) = CidrOk n cidr))"

definition opened_to :: "compile_input \<Rightarrow> string \<Rightarrow> ParsedIp \<Rightarrow> bool" where
  "opened_to input tenant ip \<longleftrightarrow> (\<exists>raw \<in> set (entries input). \<exists>c. opens raw tenant c \<and> ipMatchesRange ip c)"

definition never_opened :: "compile_input \<Rightarrow> ParsedIp \<Rightarrow> bool" where
  "never_opened input ip \<longleftrightarrow>
     (\<exists>c \<in> set ALWAYS_REFUSED. ipMatchesRange ip c) \<or>
     (\<exists>s \<in> set (deny_texts input). \<exists>n c. checkCidr (js_trim s) = CidrOk n c \<and> ipMatchesRange ip c) \<or>
     (\<exists>s \<in> set (nullish (ownAddresses input) []). parseClientIp (Some s) = Some ip)"

definition settings_readable :: "compile_input \<Rightarrow> bool" where
  "settings_readable input \<longleftrightarrow>
     ownAddresses input \<noteq> None \<and> (\<forall>s \<in> set (deny_texts input). js_trim s \<noteq> [] \<longrightarrow> (\<exists>n c. checkCidr (js_trim s) = CidrOk n c))"

text \<open>The ranges of one entry, and whose they are.\<close>

definition ranges_of :: "string list \<Rightarrow> net_range list" where
  "ranges_of raws = List.map_filter (\<lambda>raw. toRange (js_trim raw)) raws"

definition unreadable_of :: "string list \<Rightarrow> string list" where
  "unreadable_of raws = map (\<lambda>raw. excerpt (js_trim raw)) (filter (\<lambda>raw. js_trim raw \<noteq> [] \<and> toRange (js_trim raw) = None) raws)"

lemma toRange_Nil [simp]: "toRange [] = None"
  by (simp add: toRange_def checkCidr_def js_trim_def)

lemma read_ranges_fold:
  "fold read_range raws acc = (fst acc @ ranges_of raws, snd acc @ unreadable_of raws)"
  by (induction raws arbitrary: acc)
    (auto simp: read_range_def ranges_of_def unreadable_of_def Let_def List.map_filter_simps split: option.split)

lemma read_ranges: "read_ranges raws = (ranges_of raws, unreadable_of raws)"
  by (simp add: read_ranges_def read_ranges_fold)

definition entry_of :: "string \<Rightarrow> (string \<times> net_range list) option" where
  "entry_of raw =
     (case index_of CHR ''='' (js_trim raw) of
        None \<Rightarrow> None
      | Some i \<Rightarrow>
          let t = js_trim (take i (js_trim raw)) in
          if t = ''*'' \<or> TENANT_TOKEN t then Some (t, ranges_of (split_on CHR '','' (drop (i + 1) (js_trim raw)))) else None)"

definition for_tenant :: "string list \<Rightarrow> string \<Rightarrow> net_range list" where
  "for_tenant raws t = concat (map (\<lambda>raw. case entry_of raw of Some (t', rs) \<Rightarrow> if t' = t then rs else [] | None \<Rightarrow> []) raws)"

lemma for_tenant_simps:
  "for_tenant [] t = []"
  "for_tenant (raw # raws) t = (case entry_of raw of Some (t', rs) \<Rightarrow> if t' = t then rs else [] | None \<Rightarrow> []) @ for_tenant raws t"
  by (simp_all add: for_tenant_def)

lemma read_entry_wildcard:
  "wildcard (read_entry raw st) = wildcard st @ (case entry_of raw of Some (t', rs) \<Rightarrow> if t' = ''*'' then rs else [] | None \<Rightarrow> [])"
  by (cases "index_of CHR ''='' (js_trim raw)") (auto simp: read_entry_def entry_of_def read_ranges Let_def)

lemma read_entry_tenant:
  "t \<noteq> ''*'' \<Longrightarrow>
   nullish (map_get (byTenant (read_entry raw st)) t) [] =
     nullish (map_get (byTenant st) t) [] @ (case entry_of raw of Some (t', rs) \<Rightarrow> if t' = t then rs else [] | None \<Rightarrow> [])"
  by (cases "index_of CHR ''='' (js_trim raw)")
    (auto simp: read_entry_def entry_of_def read_ranges Let_def split: option.split)

lemma read_entry_star: "map_get (byTenant (read_entry raw st)) ''*'' = map_get (byTenant st) ''*''"
  by (cases "index_of CHR ''='' (js_trim raw)") (auto simp: read_entry_def read_ranges Let_def split: option.split)

lemma read_entries_fold:
  "wildcard (fold read_entry raws st) = wildcard st @ for_tenant raws ''*''"
  "map_get (byTenant (fold read_entry raws st)) ''*'' = map_get (byTenant st) ''*''"
  "t \<noteq> ''*'' \<Longrightarrow> nullish (map_get (byTenant (fold read_entry raws st)) t) [] = nullish (map_get (byTenant st) t) [] @ for_tenant raws t"
  by (induction raws arbitrary: st) (simp_all add: for_tenant_simps read_entry_wildcard read_entry_star read_entry_tenant)

lemma read_entries:
  "wildcard (read_entries raws) = for_tenant raws ''*''"
  "nullish (map_get (byTenant (read_entries raws)) t) [] = (if t = ''*'' then [] else for_tenant raws t)"
  using read_entries_fold(3) [of t raws "\<lparr>invalid_texts = [], byTenant = [], wildcard = []\<rparr>"]
  by (simp_all add: read_entries_def read_entries_fold)

lemma ranges_of_mem: "r \<in> set (ranges_of raws) \<longleftrightarrow> (\<exists>raw \<in> set raws. toRange (js_trim raw) = Some r)"
  by (force simp: ranges_of_def List.map_filter_def)

lemma ranges_match:
  "(\<exists>r \<in> set (ranges_of raws). P (range_cidr r)) \<longleftrightarrow> (\<exists>s \<in> set raws. \<exists>n c. checkCidr (js_trim s) = CidrOk n c \<and> P c)"
proof -
  have "(\<exists>r. toRange u = Some r \<and> P (range_cidr r)) \<longleftrightarrow> (\<exists>n c. checkCidr u = CidrOk n c \<and> P c)" for u
    by (cases "checkCidr u") (simp_all add: toRange_def)
  then show ?thesis by (auto simp: ranges_of_mem Bex_def) metis+
qed

lemma entry_match:
  "(\<exists>r \<in> set (case entry_of raw of Some (t', rs) \<Rightarrow> if t' = t then rs else [] | None \<Rightarrow> []). P (range_cidr r))
     \<longleftrightarrow> (\<exists>c. opens raw t c \<and> P c)"
proof (cases "index_of CHR ''='' (js_trim raw)")
  case (Some i)
  show ?thesis
  proof (cases "js_trim (take i (js_trim raw)) = t \<and> (t = ''*'' \<or> TENANT_TOKEN t)")
    case True
    then show ?thesis using Some ranges_match [of "split_on CHR '','' (drop (i + 1) (js_trim raw))" P]
      by (auto simp: entry_of_def opens_def)
  next
    case False
    then show ?thesis using Some by (auto simp: entry_of_def opens_def Let_def)
  qed
qed (simp add: entry_of_def opens_def)

lemma for_tenant_opens:
  "(\<exists>r \<in> set (for_tenant raws t). P (range_cidr r)) \<longleftrightarrow> (\<exists>raw \<in> set raws. \<exists>c. opens raw t c \<and> P c)"
  using entry_match [where t = t and P = P] by (simp add: for_tenant_def)

text \<open>A host range holds its host alone.\<close>

lemma ip_num_inj:
  "length a = length b \<Longrightarrow> list_all (\<lambda>p. p < 2 ^ k) a \<Longrightarrow> list_all (\<lambda>p. p < 2 ^ k) b \<Longrightarrow> ip_num k a = ip_num k b \<Longrightarrow> a = b"
proof (induction a b rule: list_induct2)
  case (Cons x xs y ys)
  have "ip_num k xs < 2 ^ (k * length xs)" "ip_num k ys < 2 ^ (k * length xs)"
    using ip_num_less [of k xs] ip_num_less [of k ys] Cons by simp_all
  then show ?case using Cons digits_eq_iff [of "ip_num k xs" "2 ^ (k * length xs)" "ip_num k ys" x y] by simp
qed simp

lemma hostRange_match:
  assumes "hostRange s = Some c" "wf_ip ip"
  shows "ipMatchesRange ip c \<longleftrightarrow> parseClientIp (Some s) = Some ip"
proof -
  obtain h where h: "parseClientIp (Some s) = Some h"
    and c: "c = \<lparr>family = family h, parts = parts h, prefix = family_bits (family h)\<rparr>"
    using assms(1) by (auto simp: hostRange_def family_bits_def split: ip_family.splits if_splits)
  have wf: "wf_ip h" "wf_cidr c" using parseClientIp_wf [OF h] by (simp_all add: c wf_cidr_def wf_ip_def)
  have "ipMatchesRange ip c \<longleftrightarrow> family ip = family h \<and> cidr_num ip = cidr_num h"
    using ipMatchesRange_network [OF assms(2) wf(2)] by (simp add: c network_def cidr_num_def)
  also have "\<dots> \<longleftrightarrow> ip = h"
    using wf(1) assms(2) ip_num_inj [of "parts ip" "parts h" "group_bits (family h)"]
    by (auto simp: wf_ip_def wf_parts_def cidr_num_def)
  finally show ?thesis using h by auto
qed

section \<open>The decision\<close>

lemma list_ex_set: "list_ex P xs \<longleftrightarrow> (\<exists>x \<in> set xs. P x)"
  by (simp add: list_ex_iff)

lemma refused_ranges:
  assumes "wf_ip ip"
  shows "list_ex (ipMatchesRange ip) (ALWAYS_REFUSED @ map range_cidr (fst (read_ranges (deny_texts input))) @ own_ranges input)
    \<longleftrightarrow> never_opened input ip"
proof -
  have "(\<exists>c \<in> set (own_ranges input). ipMatchesRange ip c) \<longleftrightarrow> (\<exists>s \<in> set (nullish (ownAddresses input) []). parseClientIp (Some s) = Some ip)"
  proof
    assume "\<exists>c \<in> set (own_ranges input). ipMatchesRange ip c"
    then show "\<exists>s \<in> set (nullish (ownAddresses input) []). parseClientIp (Some s) = Some ip"
      using hostRange_match [OF _ assms] by (fastforce simp: own_ranges_def List.map_filter_def)
  next
    assume "\<exists>s \<in> set (nullish (ownAddresses input) []). parseClientIp (Some s) = Some ip"
    then obtain s where s: "s \<in> set (nullish (ownAddresses input) [])" "parseClientIp (Some s) = Some ip" by blast
    then obtain c where "hostRange s = Some c" by (simp add: hostRange_def)
    then have "c \<in> set (own_ranges input)" "ipMatchesRange ip c"
      using s hostRange_match [OF _ assms] by (force simp: own_ranges_def List.map_filter_def)+
    then show "\<exists>c \<in> set (own_ranges input). ipMatchesRange ip c" by blast
  qed
  then show ?thesis
    using ranges_match [of "deny_texts input" "ipMatchesRange ip"]
    by (auto simp: never_opened_def list_ex_set read_ranges)
qed

lemma closed_iff: "closed_because input (snd (read_ranges (deny_texts input))) = None \<longleftrightarrow> settings_readable input"
proof -
  have "unreadable_of raws = [] \<longleftrightarrow> (\<forall>s \<in> set raws. js_trim s \<noteq> [] \<longrightarrow> (\<exists>n c. checkCidr (js_trim s) = CidrOk n c))" for raws
    by (induction raws) (auto simp: unreadable_of_def toRange_def split: CidrCheck.splits)
  then show ?thesis by (auto simp: closed_because_def settings_readable_def read_ranges)
qed

definition permitted :: "compile_input \<Rightarrow> string \<Rightarrow> string \<Rightarrow> bool" where
  "permitted input tenant address \<longleftrightarrow>
     settings_readable input \<and>
     (\<exists>ip. parseClientIp (Some address) = Some ip \<and> (opened_to input tenant ip \<or> opened_to input ''*'' ip) \<and> \<not> never_opened input ip)"

lemma allowance_permits:
  assumes "parseClientIp (Some address) = Some ip"
  shows "permits (allowanceOf (ALWAYS_REFUSED @ map range_cidr (fst (read_ranges (deny_texts input))) @ own_ranges input) ranges) address
    \<longleftrightarrow> \<not> never_opened input ip \<and> (\<exists>r \<in> set ranges. ipMatchesRange ip (range_cidr r))"
  using refused_ranges [OF parseClientIp_wf [OF assms], of input] assms by (auto simp: allowanceOf_def list_ex_set)

lemma forTenant_permits:
  assumes "tenant \<noteq> []"
  shows "(case forTenant (compileProviderPrivateNetworks input) (Some tenant) of Some a \<Rightarrow> permits a address | None \<Rightarrow> False)
    \<longleftrightarrow> permitted input tenant address"
proof (cases "parseClientIp (Some address)")
  case None
  then show ?thesis
    by (auto simp: permitted_def compileProviderPrivateNetworks_def Let_def allowanceOf_def split: prod.splits option.splits)
next
  case (Some ip)
  let ?st = "read_entries (entries input)"
  let ?refused = "ALWAYS_REFUSED @ map range_cidr (fst (read_ranges (deny_texts input))) @ own_ranges input"
  let ?own = "nullish (map_get (byTenant ?st) tenant) []"
  have opened: "(\<exists>r \<in> set (?own @ wildcard ?st). ipMatchesRange ip (range_cidr r)) \<longleftrightarrow> opened_to input tenant ip \<or> opened_to input ''*'' ip"
    using for_tenant_opens [where raws = "entries input" and t = tenant and P = "ipMatchesRange ip"]
      for_tenant_opens [where raws = "entries input" and t = "''*''" and P = "ipMatchesRange ip"]
    by (cases "tenant = ''*''") (simp_all add: read_entries opened_to_def bex_Un)
  have "(case forTenant (compileProviderPrivateNetworks input) (Some tenant) of Some a \<Rightarrow> permits a address | None \<Rightarrow> False)
      \<longleftrightarrow> settings_readable input \<and> permits (allowanceOf ?refused (?own @ wildcard ?st)) address"
    using assms closed_iff [of input] allowance_permits [OF Some, of input]
    by (auto simp: compileProviderPrivateNetworks_def Let_def case_prod_beta split: option.splits)
  then show ?thesis using allowance_permits [OF Some, of input] opened Some by (auto simp: permitted_def)
qed

text \<open>
  C13: What the guard refuses an organization, over the texts of the settings: an address is refused when it is private,
  unless the settings can be read, an entry of the organization or of everyone names a range that holds it, and neither the
  built-in ranges nor the deny list nor the addresses of the machine do.
\<close>

theorem opened_networks_decide:
  assumes "reads_decimals (env_Number env)" "knows_addresses (env_isIP env)" "parseAddress address = Some ip" "tenant \<noteq> []"
    and "privateNetworks options = forTenant (compileProviderPrivateNetworks input) (Some tenant)"
  shows "guardRefusesAddress env options address \<longleftrightarrow> reserved ip \<and> \<not> permitted input tenant address"
  using forTenant_permits [OF assms(4), where input = input and address = address] private_verdict [OF assms(1-3)] assms(5)
  by (auto simp: guardRefusesAddress_def split: option.splits)

theorem opened_networks_decide_witness:
  "\<exists>ip. parseAddress ''10.1.2.3'' = Some ip \<and>
     (guardRefusesAddress (rebinding_env []) \<lparr>allowPrivate = False, forceBlock = True, privateNetworks =
          forTenant (compileProviderPrivateNetworks \<lparr>entries = [''t1=10.0.0.0/8''], deny_texts = [], ownAddresses = Some []\<rparr>) (Some ''t1'')\<rparr> ''10.1.2.3''
        \<longleftrightarrow> reserved ip \<and> \<not> permitted \<lparr>entries = [''t1=10.0.0.0/8''], deny_texts = [], ownAddresses = Some []\<rparr> ''t1'' ''10.1.2.3'')"
proof -
  have "parseAddress ''10.1.2.3'' = Some \<lparr>family = Fam4, parts = [10, 1, 2, 3]\<rparr>" by code_simp
  then show ?thesis using opened_networks_decide [of "rebinding_env []" "''10.1.2.3''" _ "''t1''"] by simp
qed

section \<open>The report\<close>

text \<open>Two ranges share an address exactly when one lies within the other.\<close>

lemma nested_or_disjoint:
  assumes "wf_cidr a" "wf_cidr b" "prefix b \<le> prefix a"
  shows "isRangeWithin a b \<longleftrightarrow> (\<exists>ip. wf_ip ip \<and> ipMatchesRange ip a \<and> ipMatchesRange ip b)"
proof
  assume "isRangeWithin a b"
  then have "covers b a" using isRangeWithin_covers [OF assms(1,2)] by simp
  moreover have "wf_ip (ip_of_num (family a) (cidr_num a))" "ipMatchesRange (ip_of_num (family a) (cidr_num a)) a"
    using self_match [OF assms(1)] assms(1) cidr_num_less [of a] by (simp_all add: wf_cidr_def)
  ultimately show "\<exists>ip. wf_ip ip \<and> ipMatchesRange ip a \<and> ipMatchesRange ip b" unfolding covers_def by blast
next
  assume "\<exists>ip. wf_ip ip \<and> ipMatchesRange ip a \<and> ipMatchesRange ip b"
  then obtain ip where ip: "wf_ip ip" "ipMatchesRange ip a" "ipMatchesRange ip b" by blast
  have "prefix a \<le> family_bits (family a)" using assms(1) by (simp add: wf_cidr_def)
  then show "isRangeWithin a b"
    using ip(2,3) assms network_coarser [OF assms(3), of "family a"]
    by (auto simp: ipMatchesRange_network [OF ip(1)] isRangeWithin_network)
qed

lemma overlap_iff:
  assumes "wf_cidr a" "wf_cidr b"
  shows "overlap a b \<longleftrightarrow> (\<exists>ip. wf_ip ip \<and> ipMatchesRange ip a \<and> ipMatchesRange ip b)"
proof (cases "prefix b \<le> prefix a")
  case True
  then show ?thesis using nested_or_disjoint [OF assms True] nested_or_disjoint [OF assms(2,1)]
    by (cases "prefix a \<le> prefix b") (auto simp: overlap_def isRangeWithin_def)
next
  case False
  then show ?thesis using nested_or_disjoint [OF assms(2,1)] by (auto simp: overlap_def isRangeWithin_def)
qed

lemma toRange_wf: "toRange s = Some r \<Longrightarrow> wf_cidr (range_cidr r)"
  by (auto simp: toRange_def split: CidrCheck.splits dest: checkCidr_wf)

text \<open>Every built-in range parses; the IPv6 ones by the conditions of the parser, without their values.\<close>

definition plain_v6_range :: "string \<Rightarrow> bool" where
  "plain_v6_range t =
     (case index_of CHR ''/'' t of
        None \<Rightarrow> False
      | Some i \<Rightarrow>
          let a = take i t; p = drop (i + 1) t in
          js_trim t = t \<and> t \<noteq> [] \<and> length t \<le> MAX_RANGE_LENGTH \<and> parseIpv4 a = None \<and> CHR ''.'' \<notin> set a
          \<and> last_index_of CHR '':'' a \<noteq> None \<and> a \<noteq> [] \<and> length a \<le> 45
          \<and> (case ipv6_groups (split_on2 CHR '':'' CHR '':'' a) of None \<Rightarrow> False | Some gs \<Rightarrow> list_all hex_group gs)
          \<and> 1 \<le> length p \<and> length p \<le> 3 \<and> list_all is_digit p \<and> parse_radix 10 p \<le> 128)"

lemma parse_groups_readable: "list_all hex_group gs \<Longrightarrow> \<exists>ps. parse_groups gs = Some ps"
  by (induction gs) auto

lemma plain_v6_reads:
  assumes "CHR ''.'' \<notin> set a" "last_index_of CHR '':'' a = Some k" "a \<noteq> []" "length a \<le> 45"
    "ipv6_groups (split_on2 CHR '':'' CHR '':'' a) = Some gs" "list_all hex_group gs"
  shows "\<exists>v6. parseIpv6 a = Some v6"
proof -
  have "CHR ''.'' \<notin> set (drop (k + 1) a)" using assms(1) by (auto dest: in_set_dropD)
  then show ?thesis using assms parse_groups_readable [OF assms(6)] by (simp add: parseIpv6_def parse_ipv6_text_def)
qed

lemma plain_v6_range_reads:
  assumes "plain_v6_range t"
  shows "toRange t \<noteq> None"
proof -
  obtain i where i: "index_of CHR ''/'' t = Some i" using assms by (auto simp: plain_v6_range_def split: option.splits)
  note c = assms [unfolded plain_v6_range_def i option.case Let_def]
  obtain gs where gs: "ipv6_groups (split_on2 CHR '':'' CHR '':'' (take i t)) = Some gs" "list_all hex_group gs"
    using c by (cases "ipv6_groups (split_on2 CHR '':'' CHR '':'' (take i t))") simp_all
  obtain k where k: "last_index_of CHR '':'' (take i t) = Some k" using c by blast
  obtain v6 where "parseIpv6 (take i t) = Some v6" using plain_v6_reads [OF _ k _ _ gs] c by blast
  then have address: "parseAddress (take i t) = Some \<lparr>family = Fam6, parts = v6\<rparr>" using c by (simp add: parseAddress_def)
  have "1 \<le> length (drop (i + 1) t)" "length (drop (i + 1) t) \<le> 3" "list_all is_digit (drop (i + 1) t)" "\<not> 128 < parse_radix 10 (drop (i + 1) t)"
    "js_trim t = t" "t \<noteq> []" "\<not> MAX_RANGE_LENGTH < length t" using c by simp_all
  then show ?thesis
    unfolding toRange_def checkCidr_def Let_def \<open>js_trim t = t\<close> i option.case address by (simp add: family_bits_def)
qed

lemma always_refused_parse: "list_all (\<lambda>t. toRange t \<noteq> None) ALWAYS_REFUSED_TEXT"
proof -
  have v4: "list_all (\<lambda>t. toRange t \<noteq> None) (take 8 ALWAYS_REFUSED_TEXT)" by code_simp
  have "list_all plain_v6_range (drop 8 ALWAYS_REFUSED_TEXT)" by code_simp
  then have "list_all (\<lambda>t. toRange t \<noteq> None) (drop 8 ALWAYS_REFUSED_TEXT)" by (rule list.pred_mono_strong) (rule plain_v6_range_reads)
  with v4 have "list_all (\<lambda>t. toRange t \<noteq> None) (take 8 ALWAYS_REFUSED_TEXT @ drop 8 ALWAYS_REFUSED_TEXT)" by (simp only: list_all_append)
  then show ?thesis by simp
qed
lemma always_refused_wf: "c \<in> set ALWAYS_REFUSED \<Longrightarrow> wf_cidr c"
  using always_refused_parse toRange_wf by (fastforce simp: ALWAYS_REFUSED_def list_all_iff)

lemma for_tenant_range: "r \<in> set (for_tenant raws t) \<Longrightarrow> \<exists>s. toRange s = Some r"
  by (auto simp: for_tenant_def entry_of_def ranges_of_mem Let_def split: option.splits if_splits)

text \<open>The text of a range is its normal form, so ranges with one text are one range.\<close>

lemma same_text_same_range: "toRange s = Some r \<Longrightarrow> toRange s' = Some r' \<Longrightarrow> range_text r = range_text r' \<Longrightarrow> range_cidr r = range_cidr r'"
proof -
  assume a: "toRange s = Some r" "toRange s' = Some r'" "range_text r = range_text r'"
  have "checkCidr s = CidrOk (range_text r) (range_cidr r)" "checkCidr s' = CidrOk (range_text r') (range_cidr r')"
    using a(1,2) by (auto simp: toRange_def split: CidrCheck.splits)
  from checkCidr_idem [OF this(1)] checkCidr_idem [OF this(2)] show ?thesis using a(3) by simp
qed

lemma report_overlaps_sound:
  "e \<in> set (report_overlaps deny own seen rs) \<Longrightarrow>
   \<exists>r \<in> set rs. e = (excerpt (range_text r), overlap_kinds deny own (range_cidr r)) \<and> overlap_kinds deny own (range_cidr r) \<noteq> []"
  by (induction rs arbitrary: seen) (auto simp: Let_def split: if_splits)

lemma report_overlaps_complete:
  "r \<in> set rs \<Longrightarrow> range_text r \<notin> set seen \<Longrightarrow>
   \<exists>r' \<in> set rs. range_text r' = range_text r \<and>
     (overlap_kinds deny own (range_cidr r') \<noteq> [] \<longrightarrow>
        (excerpt (range_text r'), overlap_kinds deny own (range_cidr r')) \<in> set (report_overlaps deny own seen rs))"
proof (induction rs arbitrary: seen)
  case (Cons r0 rs)
  show ?case
  proof (cases "range_text r = range_text r0")
    case True
    then show ?thesis using Cons.prems(2) by (intro bexI [of _ r0]) (auto simp: Let_def)
  next
    case False
    then have "r \<in> set rs" using Cons.prems(1) by auto
    note IH = Cons.IH [OF this]
    show ?thesis
    proof (cases "range_text r0 \<in> set seen")
      case True
      then show ?thesis using IH [of seen] Cons.prems(2) by auto
    next
      case new: False
      then show ?thesis using IH [of "seen @ [range_text r0]"] Cons.prems(2) False by (auto simp: Let_def)
    qed
  qed
qed simp

definition opened_ranges :: "compile_input \<Rightarrow> net_range list" where
  "opened_ranges input = wildcard (read_entries (entries input)) @ concat (map snd (byTenant (read_entries (entries input))))"

definition shares_address :: "ParsedCidr \<Rightarrow> ParsedCidr \<Rightarrow> bool" where
  "shares_address a b \<longleftrightarrow> (\<exists>ip. wf_ip ip \<and> ipMatchesRange ip a \<and> ipMatchesRange ip b)"

text \<open>Every range the reading keeps comes from a text.\<close>

definition from_texts :: "net_range list \<Rightarrow> bool" where
  "from_texts rs \<longleftrightarrow> (\<forall>r \<in> set rs. \<exists>s. toRange s = Some r)"

lemma ranges_of_texts: "from_texts (ranges_of raws)"
  by (auto simp: from_texts_def ranges_of_mem)

lemma from_texts_append [simp]: "from_texts (a @ b) \<longleftrightarrow> from_texts a \<and> from_texts b" "from_texts []"
  by (auto simp: from_texts_def)

definition kept_texts :: "reading \<Rightarrow> bool" where
  "kept_texts st \<longleftrightarrow> from_texts (wildcard st) \<and> (\<forall>(t, rs) \<in> set (byTenant st). from_texts rs)"

lemma read_entry_texts:
  assumes "kept_texts st"
  shows "kept_texts (read_entry raw st)"
proof -
  have old: "from_texts rs" if "map_get (byTenant st) t = Some rs" for t rs
    using assms map_of_SomeD [OF that] by (auto simp: kept_texts_def)
  have set: "from_texts rs" if "(t', rs) \<in> set (map_set (byTenant st) t v)" "from_texts v" for t t' rs v
    using assms that set_map_set [of t v "byTenant st"] by (auto simp: kept_texts_def)
  show ?thesis
    using assms ranges_of_texts
    by (auto simp: kept_texts_def read_entry_def read_ranges Let_def split: option.splits dest!: set intro: old)
qed

lemma opened_ranges_texts: "from_texts (opened_ranges input)"
proof -
  have "kept_texts st \<Longrightarrow> kept_texts (fold read_entry raws st)" for raws st
    by (induction raws arbitrary: st) (simp_all add: read_entry_texts)
  moreover have "kept_texts \<lparr>invalid_texts = [], byTenant = [], wildcard = []\<rparr>" by (simp add: kept_texts_def)
  ultimately have "kept_texts (read_entries (entries input))" unfolding read_entries_def by blast
  then show ?thesis by (auto simp: opened_ranges_def kept_texts_def from_texts_def)
qed

lemma hostRange_wf: "hostRange s = Some c \<Longrightarrow> wf_cidr c"
  by (auto simp: hostRange_def wf_cidr_def wf_ip_def family_bits_def dest!: parseClientIp_wf split: ip_family.splits)

lemma overlap_kinds_mem:
  assumes "wf_cidr c" "\<And>d. d \<in> set deny \<union> set own \<Longrightarrow> wf_cidr d"
  shows "BuiltIn \<in> set (overlap_kinds deny own c) \<longleftrightarrow> (\<exists>d \<in> set ALWAYS_REFUSED. shares_address c d)"
    "Denied \<in> set (overlap_kinds deny own c) \<longleftrightarrow> (\<exists>d \<in> set deny. shares_address c d)"
    "OwnAddress \<in> set (overlap_kinds deny own c) \<longleftrightarrow> (\<exists>d \<in> set own. shares_address c d)"
proof -
  have "(\<exists>d \<in> set ds. overlap c d) \<longleftrightarrow> (\<exists>d \<in> set ds. shares_address c d)" if "\<And>d. d \<in> set ds \<Longrightarrow> wf_cidr d" for ds
    using overlap_iff [OF assms(1) that] by (auto simp: shares_address_def)
  from this [of ALWAYS_REFUSED] this [of deny] this [of own]
  show "BuiltIn \<in> set (overlap_kinds deny own c) \<longleftrightarrow> (\<exists>d \<in> set ALWAYS_REFUSED. shares_address c d)"
    "Denied \<in> set (overlap_kinds deny own c) \<longleftrightarrow> (\<exists>d \<in> set deny. shares_address c d)"
    "OwnAddress \<in> set (overlap_kinds deny own c) \<longleftrightarrow> (\<exists>d \<in> set own. shares_address c d)"
    using assms(2) always_refused_wf by (auto simp: overlap_kinds_def list_ex_set)
qed

text \<open>
  C26: No overlap goes unreported: a range of the settings that holds an address of a built-in range, of the deny list or of the
  machine has its line in the report, and the line names exactly the kinds of ranges that hold such an address.
\<close>

theorem overlap_report_is_exact:
  assumes "r \<in> set (opened_ranges input)"
  shows "\<exists>kinds.
     ((\<exists>d \<in> set ALWAYS_REFUSED. shares_address (range_cidr r) d) \<longleftrightarrow> BuiltIn \<in> set kinds) \<and>
     ((\<exists>d \<in> set (map range_cidr (ranges_of (deny_texts input))). shares_address (range_cidr r) d) \<longleftrightarrow> Denied \<in> set kinds) \<and>
     ((\<exists>d \<in> set (own_ranges input). shares_address (range_cidr r) d) \<longleftrightarrow> OwnAddress \<in> set kinds) \<and>
     (kinds \<noteq> [] \<longrightarrow> (excerpt (range_text r), kinds) \<in> set (rep_overlaps (networks_report (compileProviderPrivateNetworks input))))"
proof -
  let ?deny = "map range_cidr (ranges_of (deny_texts input))"
  let ?kinds = "overlap_kinds ?deny (own_ranges input) (range_cidr r)"
  have report: "rep_overlaps (networks_report (compileProviderPrivateNetworks input)) = report_overlaps ?deny (own_ranges input) [] (opened_ranges input)"
    by (simp add: compileProviderPrivateNetworks_def read_ranges Let_def opened_ranges_def)
  obtain r' where r': "r' \<in> set (opened_ranges input)" "range_text r' = range_text r"
      "overlap_kinds ?deny (own_ranges input) (range_cidr r') \<noteq> [] \<longrightarrow>
         (excerpt (range_text r'), overlap_kinds ?deny (own_ranges input) (range_cidr r')) \<in> set (report_overlaps ?deny (own_ranges input) [] (opened_ranges input))"
    using report_overlaps_complete [OF assms, of "[]" ?deny "own_ranges input"] by auto
  obtain s s' where texts: "toRange s = Some r" "toRange s' = Some r'"
    using opened_ranges_texts [of input] assms r'(1) unfolding from_texts_def by blast
  have "range_cidr r' = range_cidr r" using same_text_same_range [OF texts(2,1) r'(2)] .
  moreover have wf: "wf_cidr (range_cidr r)" using toRange_wf [OF texts(1)] .
  moreover have "wf_cidr d" if "d \<in> set ?deny \<union> set (own_ranges input)" for d
    using that toRange_wf hostRange_wf by (force simp: ranges_of_mem own_ranges_def List.map_filter_def)
  ultimately show ?thesis
    using r' overlap_kinds_mem [OF wf, of ?deny "own_ranges input"] by (intro exI [of _ ?kinds]) (simp add: report)
qed

theorem overlap_report_is_exact_witness:
  "let input = \<lparr>entries = [''*=10.0.0.0/8''], deny_texts = [''10.1.0.0/16''], ownAddresses = Some []\<rparr> in
     \<exists>r kinds. r \<in> set (opened_ranges input) \<and>
       ((\<exists>d \<in> set (map range_cidr (ranges_of (deny_texts input))). shares_address (range_cidr r) d) \<longleftrightarrow> Denied \<in> set kinds)"
proof -
  let ?input = "\<lparr>entries = [''*=10.0.0.0/8''], deny_texts = [''10.1.0.0/16''], ownAddresses = Some []\<rparr> :: compile_input"
  have "opened_ranges ?input \<noteq> []" by code_simp
  then obtain r where r: "r \<in> set (opened_ranges ?input)" using last_in_set by blast
  from overlap_report_is_exact [OF r] r show ?thesis unfolding Let_def by blast
qed

end
