(* ===== verification/AhoCorasick.thy ===== *)
theory AhoCorasick
  imports Prelude "HOL-Library.Sublist"
begin

text \<open>
  Search for many phrases at once: \<^verbatim>\<open>src/lib/services/pii/ahoCorasick.ts\<close>.

  A text is the list of its UTF-16 code units. A node of the automaton is an object of the source; here it is addressed by the
  keys on the way to it from the root, and the objects are a store from addresses to records. The keys of \<^verbatim>\<open>insert\<close> are code
  points (\<^verbatim>\<open>for..of\<close>), those of \<^verbatim>\<open>search\<close> are code units (\<^verbatim>\<open>text[i]\<close>); \<open>code_points\<close> is the difference.

  The loops up the failure links carry the depth of their node as fuel, the breadth-first construction the total length of the
  patterns; the correctness of \<open>search\<close> below shows that both are enough.
\<close>

section \<open>The automaton\<close>

type_synonym code_unit = nat
type_synonym ac_key = "code_unit list"
type_synonym ac_path = "ac_key list"

definition high_surrogate :: "code_unit \<Rightarrow> bool" where
  "high_surrogate u \<longleftrightarrow> 55296 \<le> u \<and> u \<le> 56319"

definition low_surrogate :: "code_unit \<Rightarrow> bool" where
  "low_surrogate u \<longleftrightarrow> 56320 \<le> u \<and> u \<le> 57343"

text \<open>What \<^verbatim>\<open>for..of\<close> on a string yields: a surrogate pair is one element.\<close>

fun code_points :: "code_unit list \<Rightarrow> ac_key list" where
  "code_points [] = []"
| "code_points [u] = [[u]]"
| "code_points (u # v # us) =
     (if high_surrogate u \<and> low_surrogate v then [u, v] # code_points us else [u] # code_points (v # us))"

record ac_node =
  children :: "ac_key list"
  fail_link :: "ac_path option"
  matched :: "nat list"

type_synonym ac_store = "ac_path \<Rightarrow> ac_node option"

definition new_node :: ac_node where
  "new_node = \<lparr>children = [], fail_link = None, matched = []\<rparr>"

definition node_at :: "ac_store \<Rightarrow> ac_path \<Rightarrow> ac_node" where
  "node_at s p = (case s p of Some nd \<Rightarrow> nd | None \<Rightarrow> new_node)"

definition has_child :: "ac_store \<Rightarrow> ac_path \<Rightarrow> ac_key \<Rightarrow> bool" where
  "has_child s p ch \<longleftrightarrow> ch \<in> set (children (node_at s p))"

fun insert_from :: "nat \<Rightarrow> ac_path \<Rightarrow> ac_key list \<Rightarrow> ac_store \<Rightarrow> ac_store" where
  "insert_from index p [] s = s(p \<mapsto> (node_at s p)\<lparr>matched := matched (node_at s p) @ [index]\<rparr>)"
| "insert_from index p (ch # chs) s =
     (let s' = (if has_child s p ch then s
                else s(p \<mapsto> (node_at s p)\<lparr>children := children (node_at s p) @ [ch]\<rparr>, p @ [ch] \<mapsto> new_node))
      in insert_from index (p @ [ch]) chs s')"

definition ac_insert :: "code_unit list \<Rightarrow> nat \<Rightarrow> ac_store \<Rightarrow> ac_store" where
  "ac_insert pattern index s = insert_from index [] (code_points pattern) s"

definition insert_all :: "code_unit list list \<Rightarrow> ac_store" where
  "insert_all patterns = fold (\<lambda>(i, p). ac_insert p i) (enumerate 0 patterns) [[] \<mapsto> new_node]"

text \<open>\<^verbatim>\<open>while (f && !f.children.has(ch)) f = f.fail\<close>\<close>

fun climb :: "nat \<Rightarrow> ac_store \<Rightarrow> ac_path option \<Rightarrow> ac_key \<Rightarrow> ac_path option" where
  "climb n s None ch = None"
| "climb 0 s (Some f) ch = (if has_child s f ch then Some f else None)"
| "climb (Suc n) s (Some f) ch = (if has_child s f ch then Some f else climb n s (fail_link (node_at s f)) ch)"

definition link_child :: "ac_path \<Rightarrow> ac_key \<Rightarrow> ac_store \<Rightarrow> ac_store" where
  "link_child p ch s =
     (let f = climb (length p) s (fail_link (node_at s p)) ch;
          fl = (case f of Some q \<Rightarrow> if has_child s q ch then q @ [ch] else [] | None \<Rightarrow> []);
          child = node_at s (p @ [ch])
      in s(p @ [ch] \<mapsto> child\<lparr>fail_link := Some fl, matched := matched child @ matched (node_at s fl)\<rparr>))"

fun build_loop :: "nat \<Rightarrow> ac_path list \<Rightarrow> ac_store \<Rightarrow> ac_store" where
  "build_loop n [] s = s"
| "build_loop 0 (p # queue) s = s"
| "build_loop (Suc n) (p # queue) s =
     (let keys = children (node_at s p)
      in build_loop n (queue @ map (\<lambda>ch. p @ [ch]) keys) (fold (link_child p) keys s))"

definition link_root_child :: "ac_key \<Rightarrow> ac_store \<Rightarrow> ac_store" where
  "link_root_child ch s = s([ch] \<mapsto> (node_at s [ch])\<lparr>fail_link := Some []\<rparr>)"

definition ac_build :: "nat \<Rightarrow> ac_store \<Rightarrow> ac_store" where
  "ac_build n s =
     (let keys = children (node_at s [])
      in build_loop n (map (\<lambda>ch. [ch]) keys) (fold link_root_child keys s))"

definition ac_new :: "code_unit list list \<Rightarrow> ac_store" where
  "ac_new patterns = ac_build (sum_list (map length patterns)) (insert_all patterns)"

section \<open>The search\<close>

text \<open>\<^verbatim>\<open>while (node !== this.root && !node.children.has(ch)) node = node.fail ?? this.root\<close>\<close>

fun settle :: "nat \<Rightarrow> ac_store \<Rightarrow> ac_path \<Rightarrow> ac_key \<Rightarrow> ac_path" where
  "settle 0 s p ch = p"
| "settle (Suc n) s p ch =
     (if p \<noteq> [] \<and> \<not> has_child s p ch then settle n s (nullish (fail_link (node_at s p)) []) ch else p)"

definition ac_step :: "ac_store \<Rightarrow> ac_path \<Rightarrow> ac_key \<Rightarrow> ac_path" where
  "ac_step s p ch = (let q = settle (length p) s p ch in if has_child s q ch then q @ [ch] else [])"

record ac_match =
  m_start :: int
  m_end :: int
  patternIndex :: nat

definition matches_at :: "code_unit list list \<Rightarrow> ac_store \<Rightarrow> ac_path \<Rightarrow> nat \<Rightarrow> ac_match list" where
  "matches_at patterns s p i =
     map (\<lambda>k. \<lparr>m_start = int i - int (length (patterns ! k)) + 1, m_end = int i + 1, patternIndex = k\<rparr>) (matched (node_at s p))"

fun search_from :: "code_unit list list \<Rightarrow> ac_store \<Rightarrow> ac_path \<Rightarrow> nat \<Rightarrow> code_unit list \<Rightarrow> ac_match list" where
  "search_from patterns s p i [] = []"
| "search_from patterns s p i (u # us) =
     (let q = ac_step s p [u] in matches_at patterns s q i @ search_from patterns s q (i + 1) us)"

definition ac_search :: "code_unit list list \<Rightarrow> code_unit list \<Rightarrow> ac_match list" where
  "ac_search patterns t = search_from patterns (ac_new patterns) [] 0 t"

section \<open>What is done with matches\<close>

text \<open>The letters of Unicode are an argument; out of range a text reads \<^verbatim>\<open>undefined\<close>, which is no letter.\<close>

definition unit_at :: "code_unit list \<Rightarrow> int \<Rightarrow> code_unit option" where
  "unit_at t i = (if 0 \<le> i \<and> i < int (length t) then Some (t ! nat i) else None)"

definition isLetter :: "(code_unit \<Rightarrow> bool) \<Rightarrow> code_unit option \<Rightarrow> bool" where
  "isLetter letter ch = (case ch of None \<Rightarrow> False | Some u \<Rightarrow> letter u)"

definition isWordBoundaryMatch :: "(code_unit \<Rightarrow> bool) \<Rightarrow> code_unit list \<Rightarrow> int \<Rightarrow> int \<Rightarrow> bool" where
  "isWordBoundaryMatch letter t a b \<longleftrightarrow> \<not> isLetter letter (unit_at t (a - 1)) \<and> \<not> isLetter letter (unit_at t b)"

text \<open>The sort is stable, so the comparator is a key: the start, then the length downwards.\<close>

definition start_then_longest :: "ac_match \<Rightarrow> int \<times> int" where
  "start_then_longest m = (m_start m, - (m_end m - m_start m))"

fun keep_disjoint :: "ac_match list \<Rightarrow> ac_match list \<Rightarrow> ac_match list" where
  "keep_disjoint kept [] = kept"
| "keep_disjoint kept (m # ms) =
     keep_disjoint (if kept = [] \<or> m_end (last kept) \<le> m_start m then kept @ [m] else kept) ms"

definition resolveAcOverlaps :: "ac_match list \<Rightarrow> ac_match list" where
  "resolveAcOverlaps matches = keep_disjoint [] (sort_key start_then_longest matches)"

text \<open>The custom phrases of a tenant: folded, searched, cut to word boundaries of the original text, and resolved.\<close>

definition phrase_matches ::
  "(code_unit list \<Rightarrow> code_unit list) \<Rightarrow> (code_unit \<Rightarrow> bool) \<Rightarrow> code_unit list \<Rightarrow> code_unit list list \<Rightarrow> ac_match list" where
  "phrase_matches foldGeneral letter t phrases =
     (if t = [] \<or> phrases = [] then []
      else resolveAcOverlaps
        (filter (\<lambda>m. isWordBoundaryMatch letter t (m_start m) (m_end m)) (ac_search (map foldGeneral phrases) (foldGeneral t))))"

section \<open>The longest suffix that is in the trie\<close>

text \<open>
  The reference: for a set of paths, the longest suffix of a path that is in the set. What the automaton does rests on one
  law: reading one more key from the longest suffix is reading it from the whole path.
\<close>

fun longest_in :: "ac_path set \<Rightarrow> ac_path \<Rightarrow> ac_path" where
  "longest_in T [] = []"
| "longest_in T (x # xs) = (if x # xs \<in> T then x # xs else longest_in T xs)"

locale keyword_trie =
  fixes T :: "ac_path set"
  assumes root_in: "[] \<in> T" and closed: "p @ [ch] \<in> T \<Longrightarrow> p \<in> T"
begin

lemma longest_suffix: "suffix (longest_in T w) w"
  by (induction w) (auto simp: suffix_Cons)

lemma longest_mem [simp]: "longest_in T w \<in> T"
  using root_in by (induction w) auto

lemma longest_self [simp]: "w \<in> T \<Longrightarrow> longest_in T w = w"
  by (cases w) auto

lemma longest_max: "suffix s w \<Longrightarrow> s \<in> T \<Longrightarrow> suffix s (longest_in T w)"
proof (induction w)
  case (Cons x xs)
  then show ?case by (cases "x # xs \<in> T") (auto simp: suffix_Cons)
qed simp

lemma longest_unique: "suffix a w \<Longrightarrow> a \<in> T \<Longrightarrow> (\<And>s. suffix s w \<Longrightarrow> s \<in> T \<Longrightarrow> suffix s a) \<Longrightarrow> longest_in T w = a"
  using longest_suffix [of w] longest_mem [of w] longest_max [of a w] suffix_order.antisym by blast

lemma longest_short: "p \<noteq> [] \<Longrightarrow> length (longest_in T (tl p)) < length p"
  using suffix_length_le [OF longest_suffix [of "tl p"]] by (cases p) auto

lemma longest_snoc: "longest_in T (w @ [ch]) = longest_in T (longest_in T w @ [ch])"
proof (rule longest_unique)
  show "suffix (longest_in T (longest_in T w @ [ch])) (w @ [ch])"
    using longest_suffix [of "longest_in T w @ [ch]"] longest_suffix [of w]
    by (meson suffix_order.trans same_suffix_suffix suffix_snoc suffix_appendI suffix_def append_assoc)
  fix s assume s: "suffix s (w @ [ch])" "s \<in> T"
  show "suffix s (longest_in T (longest_in T w @ [ch]))"
  proof (cases s rule: rev_cases)
    case (snoc q c)
    then have "c = ch" "suffix q w" "q \<in> T" using s closed by auto
    then have "suffix s (longest_in T w @ [ch])" using longest_max snoc by simp
    then show ?thesis using longest_max s(2) by blast
  qed simp
qed simp

text \<open>Off the trie, the next shorter suffix decides.\<close>

lemma longest_off:
  assumes "p \<noteq> []" "p @ [ch] \<notin> T"
  shows "longest_in T (p @ [ch]) = longest_in T (longest_in T (tl p) @ [ch])"
  using assms longest_snoc [of "tl p" ch] by (cases p) auto

end

section \<open>The trie of the patterns\<close>

definition trie_of :: "code_unit list list \<Rightarrow> ac_path set" where
  "trie_of patterns = insert [] {p. \<exists>q \<in> set patterns. prefix p (code_points q)}"

interpretation patterns: keyword_trie "trie_of patterns" for patterns
  by unfold_locales (auto simp: trie_of_def dest: append_prefixD)

text \<open>Before the links: the nodes are the paths of the trie, their keys its branches, and each holds its own patterns.\<close>

definition plain_trie :: "ac_path set \<Rightarrow> (ac_path \<Rightarrow> nat list) \<Rightarrow> ac_store \<Rightarrow> bool" where
  "plain_trie T own s \<longleftrightarrow>
     (\<forall>p. s p \<noteq> None \<longleftrightarrow> p \<in> T) \<and>
     (\<forall>p. distinct (children (node_at s p)) \<and> set (children (node_at s p)) = {ch. p @ [ch] \<in> T} \<and>
        fail_link (node_at s p) = None \<and> matched (node_at s p) = own p)"

lemma node_at_upd [simp]: "node_at (s(p \<mapsto> nd)) q = (if q = p then nd else node_at s q)"
  by (simp add: node_at_def)

lemma plain_trie_branch:
  assumes "plain_trie T own s" "p \<in> T" "p @ [ch] \<notin> T" "keyword_trie T"
  shows "plain_trie (insert (p @ [ch]) T) own (s(p \<mapsto> (node_at s p)\<lparr>children := children (node_at s p) @ [ch]\<rparr>, p @ [ch] \<mapsto> new_node))"
proof -
  have "own (p @ [ch]) = []" "p @ [ch] @ [c] \<notin> T" for c
    using assms keyword_trie.closed [OF assms(4), of "p @ [ch]" c] by (auto simp: plain_trie_def node_at_def new_node_def split: option.splits)
  then show ?thesis using assms by (auto simp: plain_trie_def new_node_def)
qed

lemma plain_trie_own:
  assumes "plain_trie T own s" "p \<in> T"
  shows "plain_trie T (own(p := own p @ [index])) (s(p \<mapsto> (node_at s p)\<lparr>matched := matched (node_at s p) @ [index]\<rparr>))"
  using assms unfolding plain_trie_def node_at_upd by simp

lemma insert_from_plain:
  assumes "plain_trie T own s" "p \<in> T" "keyword_trie T"
  shows "plain_trie (T \<union> {p @ q |q. prefix q chs}) (own(p @ chs := own (p @ chs) @ [index])) (insert_from index p chs s)"
  using assms
proof (induction chs arbitrary: T s p)
  case Nil
  have "T \<union> {p @ q |q. prefix q []} = T" using Nil by auto
  then show ?case using plain_trie_own [OF Nil(1,2)] by (simp del: fun_upd_apply)
next
  case (Cons ch chs)
  let ?T = "insert (p @ [ch]) T"
  let ?s = "if has_child s p ch then s
     else s(p \<mapsto> (node_at s p)\<lparr>children := children (node_at s p) @ [ch]\<rparr>, p @ [ch] \<mapsto> new_node)"
  have "has_child s p ch \<longleftrightarrow> p @ [ch] \<in> T" using Cons.prems(1) by (simp add: has_child_def plain_trie_def)
  then have "plain_trie ?T own ?s" using plain_trie_branch Cons.prems by (simp add: insert_absorb)
  moreover have "keyword_trie ?T" using Cons.prems(2,3) by (auto simp: keyword_trie_def)
  ultimately have "plain_trie (?T \<union> {(p @ [ch]) @ q |q. prefix q chs}) (own((p @ [ch]) @ chs := own ((p @ [ch]) @ chs) @ [index]))
      (insert_from index (p @ [ch]) chs ?s)"
    by (intro Cons.IH) auto
  moreover have "?T \<union> {(p @ [ch]) @ q |q. prefix q chs} = T \<union> {p @ q |q. prefix q (ch # chs)}"
    using Cons.prems(2) by (auto simp: prefix_Cons)
  ultimately show ?case by (simp add: Let_def del: fun_upd_apply)
qed

definition own_of :: "code_unit list list \<Rightarrow> ac_path \<Rightarrow> nat list" where
  "own_of patterns p = filter (\<lambda>k. code_points (patterns ! k) = p) [0..<length patterns]"

lemma own_snoc: "own_of (patterns @ [x]) p = own_of patterns p @ (if code_points x = p then [length patterns] else [])"
  by (auto simp: own_of_def nth_append intro: filter_cong)

lemma insert_all_plain: "plain_trie (trie_of patterns) (own_of patterns) (insert_all patterns)"
proof (induction patterns rule: rev_induct)
  case Nil
  then show ?case
    by (auto simp: insert_all_def plain_trie_def trie_of_def own_of_def new_node_def node_at_def)
next
  case (snoc x patterns)
  have "insert_all (patterns @ [x]) = insert_from (length patterns) [] (code_points x) (insert_all patterns)"
    by (simp add: insert_all_def enumerate_append_eq ac_insert_def)
  moreover have "trie_of (patterns @ [x]) = trie_of patterns \<union> {[] @ q |q. prefix q (code_points x)}"
    by (auto simp: trie_of_def)
  moreover have "own_of (patterns @ [x]) = (own_of patterns)([] @ code_points x := own_of patterns ([] @ code_points x) @ [length patterns])"
    by (auto simp: own_snoc)
  ultimately show ?case
    using insert_from_plain [OF snoc patterns.root_in, of "code_points x" "length patterns"] patterns.keyword_trie_axioms by (simp del: fun_upd_apply)
qed

section \<open>The failure links\<close>

text \<open>
  A store while the links are made: \<open>E\<close> are the nodes that have theirs. A linked node knows the next shorter suffix that is a
  node and every pattern that ends with it; the others hold what \<open>insert\<close> left.
\<close>

definition ends_in :: "code_unit list list \<Rightarrow> ac_path \<Rightarrow> nat set" where
  "ends_in patterns p = {k. k < length patterns \<and> suffix (code_points (patterns ! k)) p}"

definition linked :: "code_unit list list \<Rightarrow> ac_path set \<Rightarrow> ac_store \<Rightarrow> bool" where
  "linked patterns E s \<longleftrightarrow>
     (\<forall>p. distinct (children (node_at s p)) \<and> set (children (node_at s p)) = {ch. p @ [ch] \<in> trie_of patterns}) \<and>
     fail_link (node_at s []) = None \<and>
     (\<forall>p. p \<notin> E \<longrightarrow> matched (node_at s p) = own_of patterns p) \<and>
     (\<forall>p \<in> E. p \<noteq> [] \<and> fail_link (node_at s p) = Some (longest_in (trie_of patterns) (tl p)) \<and>
        distinct (matched (node_at s p)) \<and> set (matched (node_at s p)) = ends_in patterns p)"

definition nonempty :: "code_unit list list \<Rightarrow> bool" where
  "nonempty patterns \<longleftrightarrow> (\<forall>p \<in> set patterns. p \<noteq> [])"

lemma code_points_Nil [simp]: "code_points p = [] \<longleftrightarrow> p = []"
  by (cases p rule: code_points.cases) auto

lemma pattern_in: "k < length patterns \<Longrightarrow> code_points (patterns ! k) \<in> trie_of patterns"
  by (auto simp: trie_of_def intro: nth_mem)

text \<open>The patterns that end with a node are its own and those that end with the next shorter suffix.\<close>

lemma ends_in_step:
  assumes "nonempty patterns" "p \<noteq> []"
  shows "ends_in patterns p = set (own_of patterns p) \<union> ends_in patterns (longest_in (trie_of patterns) (tl p))"
    "set (own_of patterns p) \<inter> ends_in patterns (longest_in (trie_of patterns) (tl p)) = {}"
proof -
  let ?l = "longest_in (trie_of patterns) (tl p)"
  have short: "suffix s ?l \<longleftrightarrow> suffix s (tl p)" if "s \<in> trie_of patterns" for s
    using that patterns.longest_max patterns.longest_suffix suffix_order.trans by blast
  have split: "suffix s p \<longleftrightarrow> s = p \<or> suffix s (tl p)" for s
    using assms(2) by (cases p) (auto simp: suffix_Cons)
  have "\<not> suffix p (tl p)" using assms(2) suffix_length_le by (cases p) fastforce+
  then show "ends_in patterns p = set (own_of patterns p) \<union> ends_in patterns ?l"
    "set (own_of patterns p) \<inter> ends_in patterns ?l = {}"
    using short [OF pattern_in] split by (auto simp: ends_in_def own_of_def)
qed

lemma ends_in_root: "nonempty patterns \<Longrightarrow> ends_in patterns [] = {}" "nonempty patterns \<Longrightarrow> own_of patterns [] = []"
  by (auto simp: ends_in_def own_of_def nonempty_def dest: nth_mem)

lemma distinct_own: "distinct (own_of patterns p)"
  by (simp add: own_of_def)

text \<open>Climbing finds the longest suffix that can be extended, wherever the shorter nodes are linked.\<close>

lemma climb_longest:
  assumes "linked patterns E s" "\<And>q. q \<in> trie_of patterns \<Longrightarrow> q \<noteq> [] \<Longrightarrow> length q \<le> length p \<Longrightarrow> q \<in> E"
    and "p \<in> trie_of patterns" "length p \<le> n"
  shows "(case climb n s (Some p) ch of Some q \<Rightarrow> if has_child s q ch then q @ [ch] else [] | None \<Rightarrow> [])
    = longest_in (trie_of patterns) (p @ [ch])"
  using assms(2-)
proof (induction n arbitrary: p)
  case 0
  then show ?case using assms(1) by (auto simp: linked_def has_child_def)
next
  case (Suc n)
  let ?T = "trie_of patterns"
  show ?case
  proof (cases "p @ [ch] \<in> ?T \<or> p = []")
    case True
    then show ?thesis using assms(1) by (auto simp: linked_def has_child_def)
  next
    case False
    then have "p \<in> E" using Suc.prems by simp
    then have link: "fail_link (node_at s p) = Some (longest_in ?T (tl p))" "\<not> has_child s p ch"
      using assms(1) False by (simp_all add: linked_def has_child_def)
    have short: "length (longest_in ?T (tl p)) < length p" using patterns.longest_short False by blast
    then have "(case climb n s (Some (longest_in ?T (tl p))) ch of Some q \<Rightarrow> if has_child s q ch then q @ [ch] else [] | None \<Rightarrow> [])
        = longest_in ?T (longest_in ?T (tl p) @ [ch])"
      using Suc.prems by (intro Suc.IH) auto
    then show ?thesis using link patterns.longest_off [of p ch patterns] False by simp
  qed
qed

lemma link_child_linked:
  assumes inv: "linked patterns E s" and "nonempty patterns"
    and enough: "\<And>q. q \<in> trie_of patterns \<Longrightarrow> q \<noteq> [] \<Longrightarrow> length q \<le> length p \<Longrightarrow> q \<in> E"
    and "p \<in> E" "p \<in> trie_of patterns" "p @ [ch] \<in> trie_of patterns" "p @ [ch] \<notin> E"
  shows "linked patterns (insert (p @ [ch]) E) (link_child p ch s)"
proof -
  let ?T = "trie_of patterns"
  let ?f = "longest_in ?T (tl p)" and ?fl = "longest_in ?T (tl (p @ [ch]))"
  have p: "p \<noteq> []" "fail_link (node_at s p) = Some ?f" using inv assms(4) by (auto simp: linked_def)
  have short: "length ?f < length p" using patterns.longest_short p(1) .
  have "(case climb (length p) s (Some ?f) ch of Some q \<Rightarrow> if has_child s q ch then q @ [ch] else [] | None \<Rightarrow> []) = longest_in ?T (?f @ [ch])"
    using short by (intro climb_longest [OF inv]) (auto intro: enough)
  also have "\<dots> = ?fl" using p(1) patterns.longest_snoc [of patterns "tl p" ch] by simp
  finally have fl: "(case climb (length p) s (fail_link (node_at s p)) ch of Some q \<Rightarrow> if has_child s q ch then q @ [ch] else [] | None \<Rightarrow> []) = ?fl"
    by (simp add: p(2))
  have "length ?fl < length (p @ [ch])" using patterns.longest_short [of "p @ [ch]" patterns] by blast
  then have "?fl = [] \<or> ?fl \<in> E" using enough [of ?fl] by auto
  then have found: "set (matched (node_at s ?fl)) = ends_in patterns ?fl" "distinct (matched (node_at s ?fl))"
    using inv ends_in_root [OF assms(2)] by (auto simp: linked_def)
  have own: "matched (node_at s (p @ [ch])) = own_of patterns (p @ [ch])" using inv assms(7) by (simp add: linked_def)
  have new: "link_child p ch s = s(p @ [ch] \<mapsto> (node_at s (p @ [ch]))\<lparr>fail_link := Some ?fl,
      matched := own_of patterns (p @ [ch]) @ matched (node_at s ?fl)\<rparr>)"
    unfolding link_child_def Let_def fl own by simp
  note steps = ends_in_step [OF assms(2), of "p @ [ch]"]
  show ?thesis
    using inv found distinct_own steps unfolding new linked_def node_at_upd by auto
qed

lemma link_children_linked:
  assumes "linked patterns E s" "nonempty patterns"
    and "\<And>q. q \<in> trie_of patterns \<Longrightarrow> q \<noteq> [] \<Longrightarrow> length q \<le> length p \<Longrightarrow> q \<in> E"
    and "p \<in> E" "p \<in> trie_of patterns" "distinct keys" "\<And>ch. ch \<in> set keys \<Longrightarrow> p @ [ch] \<in> trie_of patterns \<and> p @ [ch] \<notin> E"
  shows "linked patterns (E \<union> (\<lambda>ch. p @ [ch]) ` set keys) (fold (link_child p) keys s)"
  using assms
proof (induction keys arbitrary: E s)
  case (Cons ch keys)
  have "linked patterns (insert (p @ [ch]) E) (link_child p ch s)" using Cons.prems by (intro link_child_linked) auto
  then have "linked patterns (insert (p @ [ch]) E \<union> (\<lambda>ch. p @ [ch]) ` set keys) (fold (link_child p) keys (link_child p ch s))"
    using Cons.prems by (intro Cons.IH) auto
  then show ?case by simp
qed simp

lemma link_root_children_linked:
  assumes "linked patterns E s" "nonempty patterns" "distinct keys"
    "\<And>ch. ch \<in> set keys \<Longrightarrow> [ch] \<in> trie_of patterns \<and> [ch] \<notin> E"
  shows "linked patterns (E \<union> (\<lambda>ch. [ch]) ` set keys) (fold link_root_child keys s)"
  using assms
proof (induction keys arbitrary: E s)
  case (Cons ch keys)
  have "[ch] \<notin> E" using Cons.prems by simp
  then have "linked patterns (insert [ch] E) (link_root_child ch s)"
    using Cons.prems(1) ends_in_step [OF Cons.prems(2), of "[ch]"] ends_in_root [OF Cons.prems(2)] distinct_own
    unfolding link_root_child_def linked_def node_at_upd by auto
  then have "linked patterns (insert [ch] E \<union> (\<lambda>ch. [ch]) ` set keys) (fold link_root_child keys (link_root_child ch s))"
    using Cons.prems by (intro Cons.IH) auto
  then show ?case by simp
qed simp

text \<open>
  The breadth-first loop: \<open>D\<close> are the nodes it has taken from the queue, and the queue holds, by depth, the other children of
  the root and of these.
\<close>

definition frontier :: "ac_path set \<Rightarrow> ac_path set \<Rightarrow> ac_path set" where
  "frontier T D = {p @ [ch] |p ch. (p = [] \<or> p \<in> D) \<and> p @ [ch] \<in> T}"

definition bfs_inv :: "code_unit list list \<Rightarrow> ac_path set \<Rightarrow> ac_path list \<Rightarrow> ac_store \<Rightarrow> bool" where
  "bfs_inv patterns D queue s \<longleftrightarrow>
     D \<subseteq> trie_of patterns - {[]} \<and> D \<subseteq> frontier (trie_of patterns) D \<and>
     set queue = frontier (trie_of patterns) D - D \<and> distinct queue \<and>
     sorted (map length queue) \<and> (\<forall>q \<in> set queue. length q \<le> Suc (length (hd queue))) \<and>
     linked patterns (frontier (trie_of patterns) D) s"

lemma unvisited_below_queue:
  assumes "keyword_trie T" "q \<in> T" "q \<noteq> []" "q \<notin> frontier T D \<or> q \<notin> D"
  shows "\<exists>r \<in> frontier T D - D. length r \<le> length q"
  using assms(2-)
proof (induction q rule: rev_induct)
  case (snoc ch q)
  have q: "q \<in> T" using snoc.prems(1) keyword_trie.closed [OF assms(1)] by blast
  show ?case
  proof (cases "q = [] \<or> q \<in> D")
    case True
    then have "q @ [ch] \<in> frontier T D" using snoc.prems(1) by (auto simp: frontier_def)
    then show ?thesis using snoc.prems by (intro bexI [of _ "q @ [ch]"]) auto
  next
    case False
    then have "\<exists>r \<in> frontier T D - D. length r \<le> length q" using snoc.IH q by blast
    then show ?thesis by (metis le_SucI length_append_singleton)
  qed
qed simp

lemma finite_trie: "finite (trie_of patterns)"
proof -
  have "trie_of patterns = insert [] (\<Union>p \<in> set patterns. set (prefixes (code_points p)))" by (auto simp: trie_of_def)
  then show ?thesis by simp
qed

lemma code_points_length: "length (code_points p) \<le> length p"
  by (induction p rule: code_points.induct) auto

lemma card_trie: "card (trie_of patterns - {[]}) \<le> sum_list (map length patterns)"
proof (induction patterns)
  case Nil
  then show ?case by (simp add: trie_of_def)
next
  case (Cons p patterns)
  let ?P = "set (prefixes (code_points p)) - {[]}"
  have "trie_of (p # patterns) - {[]} = ?P \<union> (trie_of patterns - {[]})" by (auto simp: trie_of_def)
  moreover have "card ?P \<le> length (code_points p)"
    using card_length [of "prefixes (code_points p)"] by (simp add: card_Diff_singleton)
  ultimately show ?case
    using card_Un_le [of ?P "trie_of patterns - {[]}"] Cons code_points_length [of p] by simp
qed

lemma build_step:
  assumes inv: "bfs_inv patterns D (p # queue) s" and ne: "nonempty patterns"
  shows "bfs_inv patterns (insert p D) (queue @ map (\<lambda>ch. p @ [ch]) (children (node_at s p))) (fold (link_child p) (children (node_at s p)) s)"
proof -
  let ?T = "trie_of patterns" and ?keys = "children (node_at s p)"
  let ?E = "frontier ?T D"
  note I = inv [unfolded bfs_inv_def list.sel]
  note I2 = I [THEN conjunct2, THEN conjunct2]
  note I3 = I2 [THEN conjunct2, THEN conjunct2, THEN conjunct2]
  have D: "D \<subseteq> ?T - {[]}" "D \<subseteq> ?E" by (rule I [THEN conjunct1], rule I [THEN conjunct2, THEN conjunct1])
  have queue: "set (p # queue) = ?E - D" "distinct (p # queue)" "sorted (map length (p # queue))"
      "\<forall>q \<in> set (p # queue). length q \<le> Suc (length p)"
    by (rule I2 [THEN conjunct1], rule I2 [THEN conjunct2, THEN conjunct1], rule I2 [THEN conjunct2, THEN conjunct2, THEN conjunct1], rule I3 [THEN conjunct1])
  have linked: "linked patterns ?E s" by (rule I3 [THEN conjunct2])
  have "p \<in> ?E - D" unfolding queue(1) [symmetric] by simp
  then have p: "p \<in> ?E" "p \<notin> D" "p \<noteq> []" "p \<in> ?T" by (auto simp: frontier_def)
  have keys: "distinct ?keys" "set ?keys = {ch. p @ [ch] \<in> ?T}" using linked by (auto simp: linked_def)
  have E': "frontier ?T (insert p D) = ?E \<union> (\<lambda>ch. p @ [ch]) ` set ?keys" by (auto simp: frontier_def keys(2))
  have new: "p @ [ch] \<notin> ?E" for ch using p(2,3) by (auto simp: frontier_def)
  have enough: "q \<in> ?E" if "q \<in> ?T" "q \<noteq> []" "length q \<le> length p" for q
  proof (rule ccontr)
    note len = that(3) and nonroot = that(2)
    assume off: "q \<notin> ?E"
    obtain q' ch where q: "q = q' @ [ch]" using nonroot by (cases q rule: rev_cases) auto
    have "q' \<noteq> []" "q' \<notin> D" "q' \<in> ?T" using off that(1) q patterns.closed by (auto simp: frontier_def)
    then obtain r where "r \<in> ?E - D" "length r \<le> length q'" using unvisited_below_queue [OF patterns.keyword_trie_axioms, of q' patterns D] by blast
    then have "r \<in> set (p # queue)" unfolding queue(1) by simp
    then have "length p \<le> length r" using queue(3) by auto
    then show False using \<open>length r \<le> length q'\<close> len q by simp
  qed
  have r1: "linked patterns (frontier ?T (insert p D)) (fold (link_child p) ?keys s)"
    unfolding E'
  proof (rule link_children_linked [OF linked ne])
    show "q \<in> ?E" if "q \<in> ?T" "q \<noteq> []" "length q \<le> length p" for q using enough that .
    show "p @ [ch] \<in> ?T \<and> p @ [ch] \<notin> ?E" if "ch \<in> set ?keys" for ch using that keys(2) new by blast
  qed (fact p keys)+
  have r2: "set (queue @ map (\<lambda>ch. p @ [ch]) ?keys) = frontier ?T (insert p D) - insert p D"
  proof -
    let ?I = "(\<lambda>ch. p @ [ch]) ` set ?keys"
    have "set queue = ?E - insert p D" using queue(1,2) by auto
    moreover have "?I \<inter> ?E = {}" using new by blast
    ultimately show ?thesis unfolding E' set_append set_map using D(2) p(1) by blast
  qed
  have r3: "distinct (queue @ map (\<lambda>ch. p @ [ch]) ?keys)"
  proof -
    have "set queue \<subseteq> set (p # queue)" by auto
    then have "set queue \<subseteq> ?E" unfolding queue(1) by blast
    then have "set queue \<inter> (\<lambda>ch. p @ [ch]) ` set ?keys = {}" using new by blast
    moreover have "distinct queue" using queue(2) by simp
    ultimately show ?thesis using keys(1) by (simp add: distinct_map inj_on_def)
  qed
  have r4: "sorted (map length (queue @ map (\<lambda>ch. p @ [ch]) ?keys))"
  proof -
    have "sorted (map length queue)" "\<forall>q \<in> set queue. length q \<le> Suc (length p)" using queue(3,4) by simp_all
    moreover have "map length (map (\<lambda>ch. p @ [ch]) ?keys) = replicate (length ?keys) (Suc (length p))" by (simp add: map_replicate_const comp_def)
    ultimately show ?thesis by (auto simp: sorted_append)
  qed
  have r5: "\<forall>q \<in> set (queue @ map (\<lambda>ch. p @ [ch]) ?keys). length q \<le> Suc (length (hd (queue @ map (\<lambda>ch. p @ [ch]) ?keys)))"
  proof (cases queue)
    case Nil
    then show ?thesis by (cases ?keys) auto
  next
    case (Cons a as)
    then have "length p \<le> length a" using queue(3) by simp
    then show ?thesis using Cons queue(4) by force
  qed
  have r6: "insert p D \<subseteq> ?T - {[]}" "insert p D \<subseteq> frontier ?T (insert p D)"
    unfolding E' using D p by blast+
  show ?thesis unfolding bfs_inv_def by (intro conjI r6 r2 r3 r4 r5 r1)
qed

lemma queue_mem: "bfs_inv patterns D queue s \<Longrightarrow> p \<in> set queue \<Longrightarrow> p \<in> trie_of patterns - {[]} - D"
proof -
  assume "bfs_inv patterns D queue s" "p \<in> set queue"
  then have "p \<in> frontier (trie_of patterns) D - D" unfolding bfs_inv_def by blast
  then show ?thesis by (auto simp: frontier_def)
qed

lemma build_loop_linked:
  assumes "bfs_inv patterns D queue s" "nonempty patterns" "card (trie_of patterns - {[]} - D) \<le> n"
  shows "linked patterns (trie_of patterns - {[]}) (build_loop n queue s)"
  using assms
proof (induction n queue s arbitrary: D rule: build_loop.induct)
  case (1 n s)
  have "q \<in> frontier (trie_of patterns) D" if "q \<in> trie_of patterns" "q \<noteq> []" for q
    using unvisited_below_queue [OF patterns.keyword_trie_axioms that, of D] 1(1) by (auto simp: bfs_inv_def)
  then have "frontier (trie_of patterns) D = trie_of patterns - {[]}" by (auto simp: frontier_def)
  then show ?case using 1(1) by (simp add: bfs_inv_def)
next
  case (2 p queue s)
  have "p \<in> trie_of patterns - {[]} - D" using queue_mem [OF 2(1), of p] by simp
  then show ?case using 2(3) finite_trie [of patterns] by auto
next
  case (3 n p queue s)
  have "p \<in> trie_of patterns - {[]} - D" using queue_mem [OF 3(2), of p] by simp
  then have "card (trie_of patterns - {[]} - insert p D) < card (trie_of patterns - {[]} - D)"
    using finite_trie [of patterns] by (intro psubset_card_mono) auto
  then show ?case using 3(1) [OF refl build_step [OF 3(2,3)] 3(3)] 3(4) by (simp add: Let_def)
qed

lemma ac_new_linked:
  assumes "nonempty patterns"
  shows "linked patterns (trie_of patterns - {[]}) (ac_new patterns)"
proof -
  let ?s = "insert_all patterns" and ?T = "trie_of patterns"
  let ?keys = "children (node_at ?s [])"
  have plain: "plain_trie ?T (own_of patterns) ?s" by (rule insert_all_plain)
  have keys: "distinct ?keys" "set ?keys = {ch. [ch] \<in> ?T}" using plain by (auto simp: plain_trie_def)
  have "linked patterns {} ?s" using plain by (auto simp: plain_trie_def linked_def)
  then have "linked patterns ({} \<union> (\<lambda>ch. [ch]) ` set ?keys) (fold link_root_child ?keys ?s)"
    using assms keys by (intro link_root_children_linked) auto
  moreover have frontier: "frontier ?T {} = (\<lambda>ch. [ch]) ` set ?keys" by (auto simp: frontier_def keys(2))
  moreover have "sorted (map length (map (\<lambda>ch. [ch]) ?keys))" by (simp add: sorted_map comp_def)
  ultimately have "bfs_inv patterns {} (map (\<lambda>ch. [ch]) ?keys) (fold link_root_child ?keys ?s)"
    using keys(1) by (auto simp: bfs_inv_def distinct_map inj_on_def)
  then show ?thesis
    unfolding ac_new_def ac_build_def Let_def
    by (rule build_loop_linked [OF _ assms]) (use card_trie [of patterns] in simp)
qed

section \<open>The search is exact\<close>

lemma ac_step_longest:
  assumes "linked patterns (trie_of patterns - {[]}) s" "p \<in> trie_of patterns"
  shows "ac_step s p ch = longest_in (trie_of patterns) (p @ [ch])"
proof -
  let ?T = "trie_of patterns"
  have "(let q = settle n s p ch in if has_child s q ch then q @ [ch] else []) = longest_in ?T (p @ [ch])"
    if "length p \<le> n" "p \<in> ?T" for n p
    using that
  proof (induction n arbitrary: p)
    case 0
    then show ?case using assms(1) by (auto simp: linked_def has_child_def)
  next
    case (Suc n)
    show ?case
    proof (cases "p @ [ch] \<in> ?T \<or> p = []")
      case True
      then show ?thesis using assms(1) by (auto simp: linked_def has_child_def)
    next
      case False
      then have link: "fail_link (node_at s p) = Some (longest_in ?T (tl p))" "\<not> has_child s p ch"
        using assms(1) Suc.prems by (auto simp: linked_def has_child_def)
      have "length (longest_in ?T (tl p)) < length p" using patterns.longest_short False by blast
      then show ?thesis using Suc.IH [of "longest_in ?T (tl p)"] Suc.prems link patterns.longest_off [of p ch patterns] False by simp
    qed
  qed
  then show ?thesis using assms(2) by (simp add: ac_step_def)
qed

text \<open>What is found at one place: the patterns that end with the units read so far.\<close>

definition units :: "code_unit list \<Rightarrow> ac_key list" where
  "units t = map (\<lambda>u. [u]) t"

lemma matches_at_longest:
  assumes "linked patterns (trie_of patterns - {[]}) s" "nonempty patterns"
  shows "distinct (matched (node_at s (longest_in (trie_of patterns) w)))
    \<and> set (matched (node_at s (longest_in (trie_of patterns) w))) = ends_in patterns w"
proof -
  let ?l = "longest_in (trie_of patterns) w"
  have "ends_in patterns ?l = ends_in patterns w"
    using patterns.longest_max patterns.longest_suffix pattern_in suffix_order.trans by (fastforce simp: ends_in_def)
  moreover have "distinct (matched (node_at s ?l)) \<and> set (matched (node_at s ?l)) = ends_in patterns ?l"
    using assms ends_in_root [OF assms(2)] by (cases "?l = []") (auto simp: linked_def)
  ultimately show ?thesis by simp
qed

definition occurrence :: "code_unit list list \<Rightarrow> nat \<Rightarrow> ac_path \<Rightarrow> ac_match \<Rightarrow> bool" where
  "occurrence patterns i w m \<longleftrightarrow> patternIndex m \<in> ends_in patterns w \<and>
     m_end m = int i + 1 \<and> m_start m = m_end m - int (length (patterns ! patternIndex m))"

lemma search_from_exact:
  assumes "linked patterns (trie_of patterns - {[]}) s" "nonempty patterns" "p = longest_in (trie_of patterns) (units w)" "length w = i"
  shows "distinct (search_from patterns s p i t) \<and>
    set (search_from patterns s p i t) = {m. \<exists>n < length t. occurrence patterns (i + n) (units (w @ take (Suc n) t)) m}"
  using assms(3,4)
proof (induction t arbitrary: p i w)
  case (Cons u us)
  let ?q = "longest_in (trie_of patterns) (units (w @ [u]))"
  have step: "ac_step s p [u] = ?q"
    using ac_step_longest [OF assms(1), of p "[u]"] Cons.prems(1) patterns.longest_snoc [of patterns "units w" "[u]"] by (simp add: units_def)
  have IH: "distinct (search_from patterns s ?q (i + 1) us) \<and>
    set (search_from patterns s ?q (i + 1) us) = {m. \<exists>n < length us. occurrence patterns (i + 1 + n) (units ((w @ [u]) @ take (Suc n) us)) m}"
    using Cons.prems(2) by (intro Cons.IH) auto
  note found = matches_at_longest [OF assms(1,2), of "units (w @ [u])"]
  have here: "distinct (matches_at patterns s ?q i)" using found by (simp add: matches_at_def distinct_map inj_on_def)
  have mem: "m \<in> set (matches_at patterns s ?q i) \<longleftrightarrow> occurrence patterns i (units (w @ [u])) m" for m
    using found by (cases m) (auto simp: matches_at_def occurrence_def)
  have later: "m_end m \<noteq> int i + 1" if "m \<in> set (search_from patterns s ?q (i + 1) us)" for m
    using that IH by (auto simp: occurrence_def)
  have now: "m_end m = int i + 1" if "m \<in> set (matches_at patterns s ?q i)" for m
    using that by (simp add: mem occurrence_def)
  have "m \<in> set (search_from patterns s p i (u # us)) \<longleftrightarrow> (\<exists>n < length (u # us). occurrence patterns (i + n) (units (w @ take (Suc n) (u # us))) m)" for m
  proof -
    have "m \<in> set (search_from patterns s p i (u # us)) \<longleftrightarrow>
        occurrence patterns i (units (w @ [u])) m \<or> (\<exists>n < length us. occurrence patterns (i + 1 + n) (units ((w @ [u]) @ take (Suc n) us)) m)"
      using IH mem by (simp add: step Let_def)
    then show ?thesis by (simp add: Ex_less_Suc2)
  qed
  moreover have "distinct (search_from patterns s p i (u # us))" using IH here later now by (auto simp: step Let_def)
  ultimately show ?case by blast
qed simp

text \<open>A pattern whose code points are its code units, and what the search makes of the others.\<close>

definition has_pair :: "code_unit list \<Rightarrow> bool" where
  "has_pair p \<longleftrightarrow> (\<exists>i. Suc i < length p \<and> high_surrogate (p ! i) \<and> low_surrogate (p ! Suc i))"

lemma has_pair_Cons: "has_pair (u # v # us) \<longleftrightarrow> (high_surrogate u \<and> low_surrogate v) \<or> has_pair (v # us)"
proof
  assume "has_pair (u # v # us)"
  then obtain i where i: "Suc i < length (u # v # us)" "high_surrogate ((u # v # us) ! i)" "low_surrogate ((u # v # us) ! Suc i)"
    by (auto simp: has_pair_def)
  then show "(high_surrogate u \<and> low_surrogate v) \<or> has_pair (v # us)" by (cases i) (auto simp: has_pair_def)
next
  assume "(high_surrogate u \<and> low_surrogate v) \<or> has_pair (v # us)"
  then show "has_pair (u # v # us)"
  proof
    assume "high_surrogate u \<and> low_surrogate v"
    then show ?thesis by (auto simp: has_pair_def intro!: exI [of _ 0])
  next
    assume "has_pair (v # us)"
    then obtain i where "Suc i < length (v # us)" "high_surrogate ((v # us) ! i)" "low_surrogate ((v # us) ! Suc i)" by (auto simp: has_pair_def)
    then show ?thesis by (auto simp: has_pair_def intro!: exI [of _ "Suc i"])
  qed
qed

lemma code_points_units: "code_points p = units p \<longleftrightarrow> \<not> has_pair p"
proof (induction p rule: code_points.induct)
  case (3 u v us)
  then show ?case by (cases "high_surrogate u \<and> low_surrogate v") (auto simp: has_pair_Cons units_def)
qed (simp_all add: units_def has_pair_def)

lemma concat_code_points: "concat (code_points p) = p"
  by (induction p rule: code_points.induct) auto

lemma concat_units [simp]: "concat (units p) = p"
  by (induction p) (simp_all add: units_def)

lemma suffix_units: "suffix q (units w) \<longleftrightarrow> q = units (concat q) \<and> suffix (concat q) w"
proof
  assume "suffix q (units w)"
  then obtain w1 w2 where "w = w1 @ w2" "q = units w2" by (auto simp: suffix_def units_def map_eq_append_conv)
  then show "q = units (concat q) \<and> suffix (concat q) w" by (simp add: suffix_def)
next
  assume "q = units (concat q) \<and> suffix (concat q) w"
  then show "suffix q (units w)" by (metis units_def map_append suffix_def)
qed

lemma code_points_suffix: "suffix (code_points p) (units w) \<longleftrightarrow> \<not> has_pair p \<and> suffix p w"
  using suffix_units [of "code_points p" w] by (auto simp: concat_code_points code_points_units)

definition found_at :: "code_unit list list \<Rightarrow> code_unit list \<Rightarrow> nat \<Rightarrow> nat \<Rightarrow> bool" where
  "found_at patterns t a k \<longleftrightarrow>
     k < length patterns \<and> a + length (patterns ! k) \<le> length t \<and> take (length (patterns ! k)) (drop a t) = patterns ! k \<and>
     \<not> has_pair (patterns ! k)"

lemma suffix_take:
  "p \<noteq> [] \<Longrightarrow> (n < length t \<and> suffix p (take (Suc n) t)) \<longleftrightarrow>
    (\<exists>a. Suc n = a + length p \<and> a + length p \<le> length t \<and> take (length p) (drop a t) = p)"
proof -
  assume "p \<noteq> []"
  have "suffix p (take m t) \<longleftrightarrow> (\<exists>a. m = a + length p \<and> take (length p) (drop a t) = p)" if "m \<le> length t" for m
  proof
    assume "suffix p (take m t)"
    then obtain z where z: "take m t = z @ p" by (auto simp: suffix_def)
    from arg_cong [OF this, of length] have m: "m = length z + length p" using that by simp
    from arg_cong [OF z, of "drop (length z)"] have "take (length p) (drop (length z) t) = p" by (simp add: drop_take m)
    then show "\<exists>a. m = a + length p \<and> take (length p) (drop a t) = p" using m by blast
  next
    assume "\<exists>a. m = a + length p \<and> take (length p) (drop a t) = p"
    then obtain a where "m = a + length p" "take (length p) (drop a t) = p" by blast
    then show "suffix p (take m t)" by (metis suffix_def take_add)
  qed
  from this [of "Suc n"] show ?thesis using \<open>p \<noteq> []\<close> by (auto simp: Suc_le_eq)
qed

lemma ac_search_mem:
  assumes "nonempty patterns"
  shows "distinct (ac_search patterns t)"
    "m \<in> set (ac_search patterns t) \<longleftrightarrow>
      (\<exists>a k. found_at patterns t a k \<and> m = \<lparr>m_start = int a, m_end = int (a + length (patterns ! k)), patternIndex = k\<rparr>)"
proof -
  note exact = search_from_exact [OF ac_new_linked [OF assms] assms, of "[]" "[]" 0 t]
  show "distinct (ac_search patterns t)" using exact by (simp add: ac_search_def units_def)
  have "m \<in> set (ac_search patterns t) \<longleftrightarrow> (\<exists>n < length t. occurrence patterns n (units (take (Suc n) t)) m)"
    using exact by (simp add: ac_search_def units_def)
  also have "\<dots> \<longleftrightarrow> (\<exists>n k. k < length patterns \<and> \<not> has_pair (patterns ! k) \<and> (n < length t \<and> suffix (patterns ! k) (take (Suc n) t)) \<and>
      m = \<lparr>m_start = int n + 1 - int (length (patterns ! k)), m_end = int n + 1, patternIndex = k\<rparr>)"
    by (cases m) (auto simp: occurrence_def ends_in_def code_points_suffix)
  also have "\<dots> \<longleftrightarrow> (\<exists>n k. k < length patterns \<and> \<not> has_pair (patterns ! k) \<and>
      (\<exists>a. Suc n = a + length (patterns ! k) \<and> a + length (patterns ! k) \<le> length t \<and> take (length (patterns ! k)) (drop a t) = patterns ! k) \<and>
      m = \<lparr>m_start = int n + 1 - int (length (patterns ! k)), m_end = int n + 1, patternIndex = k\<rparr>)"
  proof -
    have "patterns ! k \<noteq> []" if "k < length patterns" for k using assms that by (auto simp: nonempty_def)
    then show ?thesis using suffix_take by (intro ex_cong1 conj_cong refl) blast+
  qed
  also have "\<dots> \<longleftrightarrow> (\<exists>a k. found_at patterns t a k \<and> m = \<lparr>m_start = int a, m_end = int (a + length (patterns ! k)), patternIndex = k\<rparr>)"
    (is "?l \<longleftrightarrow> ?r")
  proof
    assume ?l
    then obtain n k a where "k < length patterns" "\<not> has_pair (patterns ! k)" and n: "Suc n = a + length (patterns ! k)"
        "a + length (patterns ! k) \<le> length t" "take (length (patterns ! k)) (drop a t) = patterns ! k"
      and m: "m = \<lparr>m_start = int n + 1 - int (length (patterns ! k)), m_end = int n + 1, patternIndex = k\<rparr>" by blast
    then have "found_at patterns t a k" by (simp add: found_at_def)
    moreover have "int n + 1 = int a + int (length (patterns ! k))" using n(1) by linarith
    ultimately show ?r using m by auto
  next
    assume ?r
    then obtain a k where f: "found_at patterns t a k" and m: "m = \<lparr>m_start = int a, m_end = int (a + length (patterns ! k)), patternIndex = k\<rparr>" by blast
    then have "patterns ! k \<noteq> []" using assms by (auto simp: found_at_def nonempty_def)
    then obtain n where n: "Suc n = a + length (patterns ! k)" by (cases "a + length (patterns ! k)") auto
    then have "int n + 1 = int a + int (length (patterns ! k))" by linarith
    then have "m = \<lparr>m_start = int n + 1 - int (length (patterns ! k)), m_end = int n + 1, patternIndex = k\<rparr>" using m by simp
    then show ?l using f n unfolding found_at_def by blast
  qed
  finally show "m \<in> set (ac_search patterns t) \<longleftrightarrow>
      (\<exists>a k. found_at patterns t a k \<and> m = \<lparr>m_start = int a, m_end = int (a + length (patterns ! k)), patternIndex = k\<rparr>)" .
qed

text \<open>
  C14: The automaton finds what a scan of the text finds: each place where a pattern stands is reported once, and nothing else,
  except that a pattern with a character outside the basic plane is never found, since it is stored by code points and the text
  is read by code units.
\<close>

theorem search_is_exact:
  assumes "nonempty patterns"
  shows "distinct (ac_search patterns t) \<and>
    set (ac_search patterns t) =
      {\<lparr>m_start = int a, m_end = int (a + length (patterns ! k)), patternIndex = k\<rparr> |a k.
         k < length patterns \<and> a + length (patterns ! k) \<le> length t \<and> take (length (patterns ! k)) (drop a t) = patterns ! k \<and>
         \<not> has_pair (patterns ! k)}"
  using ac_search_mem [OF assms] by (auto simp: found_at_def)

theorem search_is_exact_witness:
  "\<lparr>m_start = 2, m_end = 4, patternIndex = 0\<rparr> \<in> set (ac_search [[1, 2], [2], [1, 2, 3]] [1, 2, 1, 2])"
proof -
  have "nonempty [[1, 2], [2], [1, 2, 3]]" "\<not> has_pair [1, 2]" by (simp_all add: nonempty_def has_pair_def high_surrogate_def)
  with search_is_exact [of "[[1, 2], [2], [1, 2, 3]]" "[1, 2, 1, 2]"] show ?thesis
    by (auto intro!: exI [of _ 2] exI [of _ 0])
qed

section \<open>Overlaps\<close>

abbreviation before :: "ac_match \<Rightarrow> ac_match \<Rightarrow> bool" where
  "before a b \<equiv> m_end a \<le> m_start b"

definition covered_by :: "ac_match \<Rightarrow> ac_match \<Rightarrow> bool" where
  "covered_by m k \<longleftrightarrow> m_start k \<le> m_start m \<and> m_start m < m_end k \<and> (m_start k = m_start m \<longrightarrow> m_end m \<le> m_end k)"

lemma keep_disjoint_spec:
  assumes "sorted_wrt before kept" "\<forall>m \<in> set kept \<union> set ms. m_start m < m_end m" "sorted (map start_then_longest ms)"
    "\<forall>k \<in> set kept. \<forall>m \<in> set ms. start_then_longest k \<le> start_then_longest m"
  shows "sorted_wrt before (keep_disjoint kept ms) \<and> set kept \<subseteq> set (keep_disjoint kept ms) \<and>
    set (keep_disjoint kept ms) \<subseteq> set kept \<union> set ms \<and> (\<forall>m \<in> set ms. \<exists>k \<in> set (keep_disjoint kept ms). covered_by m k)"
  using assms
proof (induction ms arbitrary: kept)
  case (Cons m ms)
  let ?kept = "if kept = [] \<or> before (last kept) m then kept @ [m] else kept"
  have "sorted_wrt before ?kept"
  proof (cases kept rule: rev_cases)
    case (snoc ks l)
    have "before k m" if "k \<in> set ks" "before l m" for k
    proof -
      have "before k l" "m_start l < m_end l" using Cons.prems(1,2) that(1) by (auto simp: snoc sorted_wrt_append)
      then show ?thesis using that(2) by linarith
    qed
    then show ?thesis using Cons.prems(1) by (auto simp: snoc sorted_wrt_append)
  qed simp
  then have IH: "sorted_wrt before (keep_disjoint ?kept ms) \<and> set ?kept \<subseteq> set (keep_disjoint ?kept ms) \<and>
      set (keep_disjoint ?kept ms) \<subseteq> set ?kept \<union> set ms \<and> (\<forall>m \<in> set ms. \<exists>k \<in> set (keep_disjoint ?kept ms). covered_by m k)"
    using Cons.prems by (intro Cons.IH) auto
  have "\<exists>k \<in> set ?kept. covered_by m k"
  proof (cases "kept = [] \<or> before (last kept) m")
    case True
    then show ?thesis using Cons.prems(2) by (auto simp: covered_by_def)
  next
    case False
    then have "start_then_longest (last kept) \<le> start_then_longest m" using Cons.prems(4) by simp
    then have "covered_by m (last kept)" using False by (auto simp: covered_by_def start_then_longest_def)
    then show ?thesis using False by auto
  qed
  then have here: "\<exists>k \<in> set (keep_disjoint ?kept ms). covered_by m k" using IH by blast
  have "set kept \<subseteq> set ?kept" "set ?kept \<subseteq> set kept \<union> {m}" by auto
  then show ?case using IH here unfolding keep_disjoint.simps by auto
qed simp

lemma resolveAcOverlaps_spec:
  assumes "\<forall>m \<in> set ms. m_start m < m_end m"
  shows "sorted_wrt before (resolveAcOverlaps ms)" "set (resolveAcOverlaps ms) \<subseteq> set ms"
    "m \<in> set ms \<Longrightarrow> \<exists>k \<in> set (resolveAcOverlaps ms). covered_by m k"
  using keep_disjoint_spec [of "[]" "sort_key start_then_longest ms"] assms by (auto simp: resolveAcOverlaps_def)

text \<open>
  C22: Custom phrases are reported where they stand: the reported spans lie apart and in order, each is an occurrence of its
  phrase between word boundaries, and every such occurrence (of a phrase without characters outside the basic plane) begins
  inside a reported span, which is no shorter when both begin together.
\<close>

theorem phrases_are_reported:
  assumes "nonempty (map foldGeneral phrases)" "t \<noteq> []"
  shows "sorted_wrt before (phrase_matches foldGeneral letter t phrases) \<and>
    (\<forall>m \<in> set (phrase_matches foldGeneral letter t phrases). \<exists>a k.
       found_at (map foldGeneral phrases) (foldGeneral t) a k \<and> isWordBoundaryMatch letter t (m_start m) (m_end m) \<and>
       m = \<lparr>m_start = int a, m_end = int (a + length (foldGeneral (phrases ! k))), patternIndex = k\<rparr>) \<and>
    (\<forall>a k. found_at (map foldGeneral phrases) (foldGeneral t) a k \<and>
         isWordBoundaryMatch letter t (int a) (int (a + length (foldGeneral (phrases ! k)))) \<longrightarrow>
       (\<exists>m \<in> set (phrase_matches foldGeneral letter t phrases). m_start m \<le> int a \<and> int a < m_end m \<and>
          (m_start m = int a \<longrightarrow> int (a + length (foldGeneral (phrases ! k))) \<le> m_end m)))"
proof (cases "phrases = []")
  case True
  then show ?thesis by (simp add: phrase_matches_def found_at_def)
next
  case False
  let ?patterns = "map foldGeneral phrases" and ?t = "foldGeneral t"
  let ?ms = "filter (\<lambda>m. isWordBoundaryMatch letter t (m_start m) (m_end m)) (ac_search ?patterns ?t)"
  have out: "phrase_matches foldGeneral letter t phrases = resolveAcOverlaps ?ms" using False assms(2) by (simp add: phrase_matches_def)
  note mem = ac_search_mem(2) [OF assms(1), of _ ?t]
  have long: "\<forall>m \<in> set ?ms. m_start m < m_end m"
  proof
    fix m assume "m \<in> set ?ms"
    then obtain a k where f: "found_at ?patterns ?t a k" and m: "m = \<lparr>m_start = int a, m_end = int (a + length (?patterns ! k)), patternIndex = k\<rparr>"
      by (auto simp: mem)
    then have "?patterns ! k \<in> set ?patterns" by (auto simp: found_at_def intro: nth_mem)
    then have "?patterns ! k \<noteq> []" using assms(1) by (auto simp: nonempty_def)
    then show "m_start m < m_end m" using m by simp
  qed
  note spec = resolveAcOverlaps_spec [OF long]
  have "\<exists>a k. found_at ?patterns ?t a k \<and> isWordBoundaryMatch letter t (m_start m) (m_end m) \<and>
      m = \<lparr>m_start = int a, m_end = int (a + length (foldGeneral (phrases ! k))), patternIndex = k\<rparr>"
    if "m \<in> set (resolveAcOverlaps ?ms)" for m
  proof -
    have "m \<in> set ?ms" using spec(2) that by blast
    then show ?thesis by (auto simp: mem found_at_def)
  qed
  moreover have "\<exists>m \<in> set (resolveAcOverlaps ?ms). m_start m \<le> int a \<and> int a < m_end m \<and>
      (m_start m = int a \<longrightarrow> int (a + length (foldGeneral (phrases ! k))) \<le> m_end m)"
    if f: "found_at ?patterns ?t a k" and w: "isWordBoundaryMatch letter t (int a) (int (a + length (foldGeneral (phrases ! k))))" for a k
  proof -
    let ?m = "\<lparr>m_start = int a, m_end = int (a + length (foldGeneral (phrases ! k))), patternIndex = k\<rparr>"
    have "?patterns ! k = foldGeneral (phrases ! k)" using f by (simp add: found_at_def)
    then have "?m \<in> set (ac_search ?patterns ?t)" unfolding mem using f by auto
    then have "?m \<in> set ?ms" using w by simp
    from spec(3) [OF this] show ?thesis by (auto simp: covered_by_def)
  qed
  ultimately show ?thesis unfolding out using spec(1) by blast
qed

theorem phrases_are_reported_witness:
  "\<exists>m \<in> set (phrase_matches (\<lambda>s. s) (\<lambda>u. u > 64) [65, 32, 66, 67] [[66], [66, 67]]). m_start m \<le> 2 \<and> 2 < m_end m"
proof -
  have "nonempty (map (\<lambda>s. s) [[66], [66, 67]])" by (simp add: nonempty_def)
  from phrases_are_reported [OF this, of "[65, 32, 66, 67]" "\<lambda>u. u > 64", THEN conjunct2, THEN conjunct2, THEN spec, of 2, THEN spec, of 1, THEN mp]
  show ?thesis
    by (auto simp: found_at_def has_pair_def high_surrogate_def isWordBoundaryMatch_def isLetter_def unit_at_def nth_Cons')
qed

text \<open>
  A phrase with a character outside the basic plane is stored and never found, not even in a text that is the phrase.
\<close>

theorem astral_phrase_is_missed:
  "ac_search [[55357, 56832]] [55357, 56832] = [] \<and> ac_search [[55357]] [55357, 56832] \<noteq> []"
proof -
  have ne: "nonempty [[55357, 56832]]" "nonempty [[55357]]" by (simp_all add: nonempty_def)
  have pair: "has_pair [55357, 56832]" by (auto simp: has_pair_def high_surrogate_def low_surrogate_def intro!: exI [of _ 0])
  have "m \<notin> set (ac_search [[55357, 56832]] [55357, 56832])" for m
    using pair unfolding ac_search_mem(2) [OF ne(1)] by (auto simp: found_at_def)
  then have "set (ac_search [[55357, 56832]] [55357, 56832]) = {}" by (metis list.set_intros(1) list.exhaust set_empty)
  moreover have "found_at [[55357]] [55357, 56832] 0 0" by (simp add: found_at_def has_pair_def)
  then have "\<lparr>m_start = int 0, m_end = int (0 + length ([[55357 :: nat]] ! 0)), patternIndex = 0\<rparr> \<in> set (ac_search [[55357]] [55357, 56832])"
    unfolding ac_search_mem(2) [OF ne(2)] by blast
  ultimately show ?thesis by auto
qed

end
