(* ===== verification/PiiText.thy ===== *)
theory PiiText
  imports JsString
begin

text \<open>
  Personal data in texts: \<^verbatim>\<open>src/lib/services/pii/detector.ts\<close> and \<^verbatim>\<open>confidence.ts\<close>.

  What a pattern finds in a line is the engine of regular expressions, an argument. Modelled is what the code does with it:
  the sweep, line by line, of the built-in patterns and, under a budget, of the custom ones; the resolution of overlaps; masks;
  replacement; and the reversible tokens. The message of a finding, its label in a template of the locale, is left out. Texts are
  lists of characters.
\<close>

section \<open>Findings\<close>

datatype PiiSeverity = Low | Medium | High

datatype pii_source = Builtin | Custom

datatype pii_layer = LayerPattern | LayerDictionary | LayerNer

datatype PiiAction = ActDetect | ActRedact | ActMask | ActBlock | ActTokenize

datatype PiiMaskStrategy =
  MaskFixed string
| MaskKeepEdges nat nat "string option"
| MaskKeepDomain
| MaskKeepLast nat "string option"

record finding =
  f_category :: string
  f_source :: pii_source
  f_severity :: PiiSeverity
  f_value :: string
  f_start :: nat
  f_end :: nat
  f_label :: string
  f_action :: PiiAction
  f_block :: bool
  f_replacement :: string
  f_confidence :: "jsnum option"
  f_detector :: "pii_layer option"
  f_evidence :: "string list"

definition SEVERITY_WEIGHT :: "PiiSeverity \<Rightarrow> nat" where
  "SEVERITY_WEIGHT s = (case s of Low \<Rightarrow> 1 | Medium \<Rightarrow> 2 | High \<Rightarrow> 3)"

definition str_slice :: "string \<Rightarrow> nat \<Rightarrow> nat \<Rightarrow> string" where
  "str_slice s a b = drop a (take b s)"

section \<open>Masks\<close>

definition redactReplacement :: "string \<Rightarrow> string" where
  "redactReplacement categoryId = ''[REDACTED_'' @ to_upper categoryId @ '']''"

text \<open>\<^verbatim>\<open>fill.repeat(n)\<close>\<close>

definition repeat_str :: "string \<Rightarrow> nat \<Rightarrow> string" where
  "repeat_str s n = concat (replicate n s)"

definition buildReplacement :: "string \<Rightarrow> PiiMaskStrategy \<Rightarrow> string \<Rightarrow> string" where
  "buildReplacement val strategy categoryId =
     (case strategy of
        MaskFixed replacement \<Rightarrow> replacement
      | MaskKeepEdges head tail fillChar \<Rightarrow>
          let fill = nullish fillChar ''*'' in
          if length val \<le> head + tail then repeat_str fill (length val)
          else take head val @ repeat_str fill (length val - head - tail)
            @ (if tail > 0 then drop (length val - tail) val else [])
      | MaskKeepLast tail fillChar \<Rightarrow>
          let fill = nullish fillChar ''*'' in
          if length val \<le> tail then repeat_str fill (length val)
          else repeat_str fill (length val - tail) @ (if tail > 0 then drop (length val - tail) val else val)
      | MaskKeepDomain \<Rightarrow>
          (case index_of CHR ''@'' val of
             None \<Rightarrow> redactReplacement categoryId
           | Some pos \<Rightarrow>
               if pos = 0 then redactReplacement categoryId
               else
                 let local = take pos val; domain = drop pos val;
                     masked = (if length local \<le> 1 then ''*'' else hd local # repeat_str ''*'' (max 1 (length local - 1)))
                 in masked @ domain))"

section \<open>Confidence\<close>

definition CONTEXT_WINDOW :: nat where
  "CONTEXT_WINDOW = 60"

text \<open>The fold is an argument: it lower-cases, and a dotted capital I to a plain i first.\<close>

definition findContextWord :: "(string \<Rightarrow> string) \<Rightarrow> string \<Rightarrow> nat \<Rightarrow> nat \<Rightarrow> string list option \<Rightarrow> string option" where
  "findContextWord foldGeneral s a b words =
     (case words of
        None \<Rightarrow> None
      | Some ws \<Rightarrow>
          let window = foldGeneral (str_slice s (a - CONTEXT_WINDOW) (min (length s) (b + CONTEXT_WINDOW)))
          in find (\<lambda>w. includes_str window (foldGeneral w)) ws)"

definition applyContextBoost :: "jsnum \<Rightarrow> bool \<Rightarrow> jsnum" where
  "applyContextBoost base matched = (if \<not> matched then base else min (99 / 100) (base + 35 / 100))"

definition noisyOr :: "jsnum list \<Rightarrow> jsnum" where
  "noisyOr scores =
     (if scores = [] then 0
      else 1 - foldl (\<lambda>survival raw. survival * (1 - min (999 / 1000) (max 0 raw))) 1 scores)"

section \<open>The sweep\<close>

text \<open>The text cut at its line breaks, each line with its offset.\<close>

fun split_lines :: "nat \<Rightarrow> nat \<Rightarrow> string \<Rightarrow> string \<Rightarrow> (nat \<times> string) list" where
  "split_lines start i line [] = [(start, line)]"
| "split_lines start i line (c # s) =
     (if c = CHR 0x0D then
        (case s of
           c' # s' \<Rightarrow>
             if c' = CHR 0x0A then (start, line) # split_lines (i + 2) (i + 2) [] s'
             else (start, line) # split_lines (i + 1) (i + 1) [] s
         | [] \<Rightarrow> (start, line) # split_lines (i + 1) (i + 1) [] s)
      else if c = CHR 0x0A then (start, line) # split_lines (i + 1) (i + 1) [] s
      else split_lines start (i + 1) (line @ [c]) s)"

definition splitLines :: "string \<Rightarrow> (nat \<times> string) list" where
  "splitLines s = split_lines 0 0 [] s"

text \<open>A compiled pattern: \<open>c_sweep\<close> are its matches in a text, in order, with their offsets.\<close>

record compiled_pattern =
  c_source :: pii_source
  c_categoryId :: string
  c_severity :: PiiSeverity
  c_sweep :: "string \<Rightarrow> (nat \<times> string) list"
  c_validate :: "(string \<Rightarrow> bool) option"
  c_label :: string
  c_mask :: PiiMaskStrategy
  c_baseScore :: jsnum
  c_id :: string

definition defaultBaseScoreForSeverity :: "PiiSeverity \<Rightarrow> jsnum" where
  "defaultBaseScoreForSeverity s = (case s of High \<Rightarrow> 7 / 10 | Medium \<Rightarrow> 55 / 100 | Low \<Rightarrow> 4 / 10)"

text \<open>A custom pattern as a tenant stores it; \<open>cp_compile\<close> is the engine's compilation, an error or the matches in a text.\<close>

record custom_pattern =
  cp_id :: string
  cp_categoryId :: string
  cp_enabled :: bool
  cp_languages :: "string list option"
  cp_severity :: "PiiSeverity option"
  cp_label :: string
  cp_labels :: "string \<Rightarrow> string option"
  cp_pattern :: string

text \<open>How a bounded sweep of a custom pattern ended, and what it took.\<close>

record swept =
  sw_matches :: "(nat \<times> string) list"
  sw_timedOut :: bool
  sw_hitCap :: bool
  sw_elapsed :: jsnum

record detector_env =
  env_fold :: "string \<Rightarrow> string"
  env_contextWords :: "string \<Rightarrow> string list option"
  env_compile :: "custom_pattern \<Rightarrow> bool"
  env_bounded :: "custom_pattern \<Rightarrow> string \<Rightarrow> jsnum \<Rightarrow> swept"
  env_maxPattern :: nat
  env_maxInput :: nat
  env_budgetMs :: jsnum

record detector_config =
  dc_builtins :: "compiled_pattern list"
  dc_customs :: "custom_pattern list"
  dc_languages :: "string list option"
  dc_locale :: string
  dc_contextBoost :: "bool option"
  dc_minConfidence :: "jsnum option"

datatype skip_reason = EmptyPattern | PatternTooLong | DoesNotCompile | InputTooLong | BudgetSpent | DidNotFinish | TooManyMatches

text \<open>The report of a scan that several calls may share: what was skipped, and the budget they have left.\<close>

record pattern_report =
  skipped :: "(string \<times> string \<times> skip_reason) list"
  remainingBudget :: jsnum

definition customAppliesToLanguages :: "custom_pattern \<Rightarrow> string list option \<Rightarrow> bool" where
  "customAppliesToLanguages p langs =
     (nullish (cp_languages p) [] = [] \<or> nullish langs [] = [] \<or> list_ex (\<lambda>l. l \<in> set (nullish langs [])) (nullish (cp_languages p) []))"

definition custom_refusal :: "detector_env \<Rightarrow> custom_pattern \<Rightarrow> skip_reason option" where
  "custom_refusal env p =
     (if cp_pattern p = [] then Some EmptyPattern
      else if length (cp_pattern p) > env_maxPattern env then Some PatternTooLong
      else if \<not> env_compile env p then Some DoesNotCompile
      else None)"

definition note_skip :: "custom_pattern \<Rightarrow> skip_reason \<Rightarrow> pattern_report \<Rightarrow> pattern_report" where
  "note_skip p reason r = r\<lparr>skipped := skipped r @ [(cp_id p, cp_categoryId p, reason)]\<rparr>"

definition toFinding :: "finding \<Rightarrow> PiiMaskStrategy \<Rightarrow> PiiAction \<Rightarrow> finding" where
  "toFinding f strategy actionMode =
     f\<lparr>f_action := actionMode, f_block := (actionMode = ActBlock),
       f_replacement := (if actionMode = ActRedact then redactReplacement (f_category f) else buildReplacement (f_value f) strategy (f_category f))\<rparr>"

definition found :: "detector_env \<Rightarrow> detector_config \<Rightarrow> PiiAction \<Rightarrow> string \<Rightarrow> compiled_pattern \<Rightarrow> nat \<times> string \<Rightarrow> finding option" where
  "found env config actionMode s c m =
     (case m of (start, val) \<Rightarrow>
        if (case c_validate c of Some validate \<Rightarrow> \<not> validate val | None \<Rightarrow> False) then None
        else
          let b = start + length val;
              contextWord = (if dc_contextBoost config \<noteq> Some False
                then findContextWord (env_fold env) s start b (env_contextWords env (c_categoryId c)) else None);
              confidence = applyContextBoost (c_baseScore c) (contextWord \<noteq> None);
              evidence = (if c_validate c \<noteq> None then [''checksum/format validated''] else []) @
                (case contextWord of Some w \<Rightarrow> [''context word '' @ [CHR 0x22] @ w @ [CHR 0x22]] | None \<Rightarrow> [])
          in Some (toFinding
               \<lparr>f_category = c_categoryId c, f_source = c_source c, f_severity = c_severity c, f_value = val, f_start = start, f_end = b,
                f_label = c_label c, f_action = actionMode, f_block = False, f_replacement = [], f_confidence = Some confidence,
                f_detector = Some LayerPattern, f_evidence = evidence\<rparr>
               (c_mask c) actionMode))"

definition sweep_builtin :: "detector_env \<Rightarrow> detector_config \<Rightarrow> PiiAction \<Rightarrow> string \<Rightarrow> compiled_pattern \<Rightarrow> finding list" where
  "sweep_builtin env config actionMode s c =
     concat (map (\<lambda>(lineStart, line).
       List.map_filter (\<lambda>(i, val). if val = [] then None else found env config actionMode s c (lineStart + i, val)) (c_sweep c line))
       (splitLines s))"

definition compileCustom :: "string \<Rightarrow> custom_pattern \<Rightarrow> compiled_pattern" where
  "compileCustom locale p =
     (let severity = nullish (cp_severity p) Medium in
      \<lparr>c_source = Custom, c_categoryId = cp_categoryId p, c_severity = severity, c_sweep = (\<lambda>_. []), c_validate = None,
       c_label = nullish (cp_labels p locale) (cp_label p), c_mask = MaskFixed (redactReplacement (cp_categoryId p)),
       c_baseScore = defaultBaseScoreForSeverity severity, c_id = cp_id p\<rparr>)"

fun sweep_customs ::
  "detector_env \<Rightarrow> detector_config \<Rightarrow> PiiAction \<Rightarrow> string \<Rightarrow> custom_pattern list \<Rightarrow> pattern_report \<Rightarrow> finding list \<times> pattern_report" where
  "sweep_customs env config actionMode s [] r = ([], r)"
| "sweep_customs env config actionMode s (p # ps) r =
     (if remainingBudget r \<le> 0 then sweep_customs env config actionMode s ps (note_skip p BudgetSpent r)
      else
        let sw = env_bounded env p s (remainingBudget r);
            r = r\<lparr>remainingBudget := max 0 (remainingBudget r - sw_elapsed sw)\<rparr>
        in if sw_timedOut sw then sweep_customs env config actionMode s ps (note_skip p DidNotFinish r)
           else
             let r = (if sw_hitCap sw then note_skip p TooManyMatches r else r);
                 (rest, r) = sweep_customs env config actionMode s ps r
             in (List.map_filter (found env config actionMode s (compileCustom (dc_locale config) p)) (sw_matches sw) @ rest, r))"

section \<open>Overlaps and replacement\<close>

definition span_key :: "nat \<Rightarrow> nat \<Rightarrow> nat \<times> int" where
  "span_key a b = (a, - (int b - int a))"

definition sortFindings :: "finding list \<Rightarrow> finding list" where
  "sortFindings fs = sort_key (\<lambda>f. span_key (f_start f) (f_end f)) fs"

definition rank :: "finding \<Rightarrow> int" where
  "rank f = int (SEVERITY_WEIGHT (f_severity f)) * 1000 + (int (f_end f) - int (f_start f))"

definition keep_or_replace :: "finding list \<Rightarrow> finding \<Rightarrow> finding list" where
  "keep_or_replace out f =
     (if out = [] \<or> f_start f \<ge> f_end (last out) then out @ [f]
      else if rank f > rank (last out) then butlast out @ [f]
      else out)"

definition resolveOverlaps :: "finding list \<Rightarrow> finding list" where
  "resolveOverlaps fs = (if length fs \<le> 1 then fs else foldl keep_or_replace [] (sortFindings fs))"

definition detect :: "detector_env \<Rightarrow> string \<Rightarrow> detector_config \<Rightarrow> PiiAction \<Rightarrow> pattern_report option \<Rightarrow> finding list \<times> pattern_report option" where
  "detect env s config actionMode report =
     (if s = [] then ([], report)
      else
        let r0 = nullish report \<lparr>skipped = [], remainingBudget = env_budgetMs env\<rparr>;
            applicable = filter (\<lambda>p. cp_enabled p \<and> customAppliesToLanguages p (dc_languages config)) (dc_customs config);
            r1 = fold (\<lambda>p r. case custom_refusal env p of Some reason \<Rightarrow> note_skip p reason r | None \<Rightarrow> r) applicable r0;
            customs = filter (\<lambda>p. custom_refusal env p = None) applicable;
            builtin = concat (map (sweep_builtin env config actionMode s) (dc_builtins config));
            (custom, r2) = (if length s > env_maxInput env then ([], fold (\<lambda>p. note_skip p InputTooLong) customs r1)
                            else sweep_customs env config actionMode s customs r1);
            resolved = resolveOverlaps (builtin @ custom);
            floor = nullish (dc_minConfidence config) 0
        in (if floor \<le> 0 then resolved else filter (\<lambda>f. nullish (f_confidence f) 1 \<ge> floor) resolved,
            map_option (\<lambda>_. r2) report))"

fun splice :: "string \<Rightarrow> nat \<Rightarrow> finding list \<Rightarrow> string" where
  "splice s cursor [] = drop cursor s"
| "splice s cursor (f # fs) =
     (if f_start f < cursor then splice s cursor fs
      else str_slice s cursor (f_start f) @ f_replacement f @ splice s (f_end f) fs)"

definition applyReplacements :: "string \<Rightarrow> finding list \<Rightarrow> string" where
  "applyReplacements s fs = (if fs = [] then s else splice s 0 (sort_key f_start fs))"

section \<open>Reversible tokens\<close>

definition upper_or_digit :: "char \<Rightarrow> bool" where
  "upper_or_digit c \<longleftrightarrow> is_digit c \<or> (65 \<le> code c \<and> code c \<le> 90)"

text \<open>Runs of other characters become one underscore; those at the ends go.\<close>

fun squeeze :: "bool \<Rightarrow> string \<Rightarrow> string" where
  "squeeze inside [] = []"
| "squeeze inside (c # s) =
     (if upper_or_digit c then c # squeeze False s else if inside then squeeze True s else CHR ''_'' # squeeze True s)"

definition trim_underscores :: "string \<Rightarrow> string" where
  "trim_underscores s = rev (dropWhile (\<lambda>c. c = CHR ''_'') (rev (dropWhile (\<lambda>c. c = CHR ''_'') s)))"

definition tokenPrefix :: "string \<Rightarrow> string" where
  "tokenPrefix categoryId = (let cleaned = trim_underscores (squeeze False (to_upper categoryId)) in if cleaned = [] then ''PII'' else cleaned)"

record vault_entry =
  v_value :: string
  v_category :: string

record token_state =
  tokenByKey :: "(string \<times> string, string) jsmap"
  counters :: "(string, nat) jsmap"
  vault :: "(string, vault_entry) jsmap"

definition token_text :: "string \<Rightarrow> nat \<Rightarrow> string" where
  "token_text prefix n = ''['' @ prefix @ ''_'' @ to_radix 10 n @ '']''"

text \<open>The key of the source joins category and value with a null character; here it is the pair.\<close>

definition assign_token :: "finding \<Rightarrow> token_state \<Rightarrow> string \<times> token_state" where
  "assign_token f st =
     (case map_get (tokenByKey st) (f_category f, f_value f) of
        Some token \<Rightarrow> (token, st)
      | None \<Rightarrow>
          let prefix = tokenPrefix (f_category f);
              n = nullish (map_get (counters st) prefix) 0 + 1;
              token = token_text prefix n
          in (token,
              \<lparr>tokenByKey = map_set (tokenByKey st) (f_category f, f_value f) token,
               counters = map_set (counters st) prefix n,
               vault = map_set (vault st) token \<lparr>v_value = f_value f, v_category = f_category f\<rparr>\<rparr>))"

fun assign_tokens :: "finding list \<Rightarrow> token_state \<Rightarrow> finding list \<times> token_state" where
  "assign_tokens [] st = ([], st)"
| "assign_tokens (f # fs) st =
     (let (token, st) = assign_token f st;
          (rest, st) = assign_tokens fs st
      in (f\<lparr>f_action := ActTokenize, f_block := False, f_replacement := token\<rparr> # rest, st))"

definition tokenize :: "string \<Rightarrow> finding list \<Rightarrow> string \<times> (string, vault_entry) jsmap \<times> finding list" where
  "tokenize s fs =
     (let (tokenized, st) = assign_tokens (sort_key f_start fs) \<lparr>tokenByKey = [], counters = [], vault = []\<rparr>
      in (applyReplacements s tokenized, vault st, tokenized))"

text \<open>\<^verbatim>\<open>split\<close> on a non-empty string, and \<^verbatim>\<open>join\<close>: every occurrence, from the left, replaced.\<close>

function replace_all :: "string \<Rightarrow> string \<Rightarrow> string \<Rightarrow> string" where
  "replace_all t v s =
     (if s = [] then []
      else if t \<noteq> [] \<and> take (length t) s = t then v @ replace_all t v (drop (length t) s)
      else hd s # replace_all t v (tl s))"
  by pat_completeness auto
termination by (relation "measure (\<lambda>(t, v, s). length s)") auto

declare replace_all.simps [simp del]

definition detokenize :: "string \<Rightarrow> (string, vault_entry) jsmap option \<Rightarrow> string" where
  "detokenize s v =
     (case v of
        None \<Rightarrow> s
      | Some entries \<Rightarrow>
          fold (\<lambda>token out. if token = [] then out else replace_all token (v_value (the (map_get entries token))) out)
            (sort_key (\<lambda>t. - int (length t)) (map fst entries)) s)"

section \<open>What is kept of overlapping findings\<close>

abbreviation proper :: "finding \<Rightarrow> bool" where
  "proper f \<equiv> f_start f < f_end f"

definition overlapping :: "finding \<Rightarrow> finding \<Rightarrow> bool" where
  "overlapping a b \<longleftrightarrow> f_start a < f_end b \<and> f_start b < f_end a"

text \<open>
  Two parts of the code resolve overlaps in one pass over spans sorted by their start: a span that starts after the last one kept
  is kept too; otherwise one of the two goes. What follows from that alone is proved once.
\<close>

locale span_resolution =
  fixes start stop :: "'a \<Rightarrow> nat"
    and step :: "'a list \<Rightarrow> 'a \<Rightarrow> 'a list"
  assumes free: "out = [] \<or> stop (last out) \<le> start f \<Longrightarrow> step out f = out @ [f]"
    and conflict: "out \<noteq> [] \<Longrightarrow> start f < stop (last out) \<Longrightarrow> step out f = out \<or> step out f = butlast out @ [f]"
begin

definition parted :: "'a list \<Rightarrow> bool" where
  "parted out \<longleftrightarrow> sorted_wrt (\<lambda>a b. stop a \<le> start b) out"

lemma step_mem: "set (step out f) \<subseteq> insert f (set out)"
  using free [of out f] conflict [of out f] by (cases "out = [] \<or> stop (last out) \<le> start f") (auto dest: in_set_butlastD)

lemma step_parted:
  assumes "parted out" "\<forall>k \<in> set out. start k < stop k" "start f < stop f" "\<forall>k \<in> set out. start k \<le> start f"
  shows "parted (step out f)"
proof (cases out rule: rev_cases)
  case (snoc ks l)
  have ks: "stop k \<le> start f" if "k \<in> set ks" for k
  proof -
    have "stop k \<le> start l" "start l \<le> start f" using assms(1,4) that by (auto simp: snoc parted_def sorted_wrt_append)
    then show ?thesis by linarith
  qed
  show ?thesis
  proof (cases "stop l \<le> start f")
    case True
    then show ?thesis using assms(1) ks free [of out f] by (auto simp: snoc parted_def sorted_wrt_append)
  next
    case False
    then show ?thesis using assms(1) ks conflict [of out f] by (auto simp: snoc parted_def sorted_wrt_append)
  qed
qed (use free in \<open>simp add: parted_def\<close>)

lemma fold_parted:
  assumes "parted out" "\<forall>k \<in> set out \<union> set fs. start k < stop k" "\<forall>k \<in> set out. \<forall>f \<in> set fs. start k \<le> start f" "sorted (map start fs)"
  shows "parted (foldl step out fs) \<and> set (foldl step out fs) \<subseteq> set out \<union> set fs"
  using assms
proof (induction fs arbitrary: out)
  case (Cons f fs)
  have "parted (step out f)" using Cons.prems by (intro step_parted) auto
  moreover have "set (step out f) \<subseteq> insert f (set out)" by (rule step_mem)
  ultimately have "parted (foldl step (step out f) fs) \<and> set (foldl step (step out f) fs) \<subseteq> set (step out f) \<union> set fs"
    using Cons.prems by (intro Cons.IH) auto
  then show ?case using step_mem [of out f] by auto
qed simp

text \<open>The outcome, from the start.\<close>

lemma resolution:
  assumes "\<forall>f \<in> set fs. start f < stop f" "sorted (map start fs)"
  shows "sorted_wrt (\<lambda>a b. stop a \<le> start b) (foldl step [] fs) \<and> set (foldl step [] fs) \<subseteq> set fs"
  using fold_parted [of "[]" fs] assms by (simp add: parted_def)

text \<open>A span that touches no other is kept.\<close>

lemma untouched_stays:
  "f \<in> set out \<Longrightarrow> \<forall>g \<in> set fs. g = f \<or> stop f \<le> start g \<Longrightarrow> f \<in> set (foldl step out fs)"
proof (induction fs arbitrary: out)
  case (Cons g fs)
  have "f \<in> set (step out g)"
  proof (cases "out = [] \<or> stop (last out) \<le> start g")
    case False
    then have c: "out \<noteq> []" "start g < stop (last out)" by auto
    have "f \<in> set (butlast out) \<or> f = last out" using Cons.prems(1) append_butlast_last_id [OF c(1)] by (metis Un_iff empty_iff empty_set set_ConsD set_append)
    then show ?thesis using conflict [OF c] Cons.prems c(2) by auto
  qed (use Cons.prems(1) free in simp)
  then show ?case using Cons by simp
qed simp

lemma untouched_kept:
  assumes "f \<in> set fs" "\<forall>f \<in> set fs. start f < stop f" "sorted (map start fs)"
    "\<forall>g \<in> set fs. g = f \<or> stop f \<le> start g \<or> stop g \<le> start f"
  shows "f \<in> set (foldl step [] fs)"
proof -
  obtain as bs where split: "fs = as @ f # bs" using assms(1) by (auto dest: split_list)
  have bs: "\<forall>g \<in> set bs. g = f \<or> stop f \<le> start g"
  proof
    fix g assume "g \<in> set bs"
    then have "start f \<le> start g" "start g < stop g" "g = f \<or> stop f \<le> start g \<or> stop g \<le> start f"
      using assms(2,3,4) unfolding split by (auto simp: sorted_append)
    then show "g = f \<or> stop f \<le> start g" by auto
  qed
  let ?out = "foldl step [] as"
  have sub: "set ?out \<subseteq> set as" using resolution [of as] assms(2,3) unfolding split by (auto simp: sorted_append)
  have "f \<in> set (step ?out f)"
  proof (cases "?out = [] \<or> stop (last ?out) \<le> start f")
    case False
    then have l: "?out \<noteq> []" "start f < stop (last ?out)" by auto
    then have "last ?out \<in> set as" using sub last_in_set by blast
    then have "last ?out = f \<or> stop f \<le> start (last ?out)" "start (last ?out) \<le> start f" "start f < stop f"
      using assms(2,3,4) l(2) unfolding split by (auto simp: sorted_append)
    then have "last ?out = f" by auto
    then have "f \<in> set ?out" using last_in_set [OF l(1)] by simp
    then show ?thesis using conflict [OF l] by auto
  qed (use free in simp)
  then show ?thesis using untouched_stays [OF _ bs] by (simp add: split)
qed

end

interpretation findings: span_resolution f_start f_end keep_or_replace
  by unfold_locales (auto simp: keep_or_replace_def)

text \<open>A finding that outranks what it overlaps stays once it is in.\<close>

lemma outranking_stays:
  assumes "f \<in> set out" "proper f" "\<forall>g \<in> set fs. g = f \<or> \<not> overlapping g f \<or> rank g < rank f"
    "\<forall>g \<in> set fs. proper g \<and> f_start f \<le> f_start g"
  shows "f \<in> set (foldl keep_or_replace out fs)"
  using assms(1,3,4)
proof (induction fs arbitrary: out)
  case (Cons g fs)
  have "f \<in> set (keep_or_replace out g)"
  proof (cases out rule: rev_cases)
    case (snoc ks l)
    have "f \<in> set ks \<or> f = l" using Cons.prems(1) snoc by auto
    moreover have "g = f \<or> \<not> (f_start g < f_end f) \<or> rank g < rank f"
      using Cons.prems(2,3) by (fastforce simp: overlapping_def)
    ultimately show ?thesis using snoc by (auto simp: keep_or_replace_def)
  qed (use Cons.prems(1) in simp)
  then show ?case using Cons by simp
qed simp

lemma outranking_enters:
  assumes "proper f" "out \<noteq> [] \<longrightarrow> last out = f \<or> \<not> overlapping (last out) f \<or> rank (last out) < rank f"
    "out \<noteq> [] \<longrightarrow> proper (last out) \<and> f_start (last out) \<le> f_start f"
  shows "f \<in> set (keep_or_replace out f)"
  using assms by (cases out rule: rev_cases) (auto simp: keep_or_replace_def overlapping_def)

lemma sorted_starts: "sorted (map f_start (sortFindings fs))"
proof -
  have "sorted (map (\<lambda>f. span_key (f_start f) (f_end f)) (sortFindings fs))" by (simp add: sortFindings_def)
  then show ?thesis unfolding sorted_map by (rule sorted_wrt_mono_rel [rotated]) (auto simp: span_key_def)
qed

lemma outranking_kept:
  assumes "f \<in> set fs" "\<forall>g \<in> set fs. proper g" "\<forall>g \<in> set fs. g = f \<or> \<not> overlapping g f \<or> rank g < rank f"
  shows "f \<in> set (foldl keep_or_replace [] (sortFindings fs))"
proof -
  have "f \<in> set (sortFindings fs)" using assms(1) by (simp add: sortFindings_def)
  then obtain as bs where split: "sortFindings fs = as @ f # bs" by (auto dest: split_list)
  have all: "set as \<union> set bs \<union> {f} \<subseteq> set fs"
  proof -
    have "set (as @ f # bs) = set fs" unfolding split [symmetric] by (simp add: sortFindings_def)
    then show ?thesis by auto
  qed
  have sorted: "\<forall>g \<in> set as. f_start g \<le> f_start f" "\<forall>g \<in> set bs. f_start f \<le> f_start g" "sorted (map f_start as)"
    using sorted_starts [of fs] unfolding split by (auto simp: sorted_append)
  let ?out = "foldl keep_or_replace [] as"
  have sub: "set ?out \<subseteq> set as" using findings.resolution [of as] assms(2) all sorted(3) by auto
  have "last ?out \<in> set as" if "?out \<noteq> []" using last_in_set [OF that] sub by blast
  then have "f \<in> set (keep_or_replace ?out f)"
    using assms all sorted(1) by (intro outranking_enters) blast+
  then have "f \<in> set (foldl keep_or_replace (keep_or_replace ?out f) bs)"
    using assms all sorted(2) by (intro outranking_stays) blast+
  then show ?thesis by (simp add: split)
qed

text \<open>
  The findings that remain lie apart, in order, and are findings of the sweep; and a finding that outranks every finding it
  overlaps is among them, so of a high and a low severity in conflict the high one is never lost.
\<close>

theorem overlaps_resolve_by_rank:
  assumes "\<forall>f \<in> set fs. f_start f < f_end f"
  shows "sorted_wrt (\<lambda>a b. f_end a \<le> f_start b) (resolveOverlaps fs) \<and> set (resolveOverlaps fs) \<subseteq> set fs \<and>
    (\<forall>f \<in> set fs. (\<forall>g \<in> set fs. g = f \<or> \<not> overlapping g f \<or> rank g < rank f) \<longrightarrow> f \<in> set (resolveOverlaps fs))"
proof (cases "length fs \<le> 1")
  case True
  then show ?thesis by (cases fs) (auto simp: resolveOverlaps_def)
next
  case False
  have "set (sortFindings fs) = set fs" by (simp add: sortFindings_def)
  then show ?thesis
    using False assms findings.resolution [of "sortFindings fs"] sorted_starts [of fs] outranking_kept [of _ fs]
    by (simp add: resolveOverlaps_def)
qed

definition sample :: "PiiSeverity \<Rightarrow> nat \<Rightarrow> nat \<Rightarrow> finding" where
  "sample sev a b =
     \<lparr>f_category = ''c'', f_source = Builtin, f_severity = sev, f_value = replicate (b - a) CHR ''x'', f_start = a, f_end = b, f_label = ''c'',
      f_action = ActMask, f_block = False, f_replacement = ''#'', f_confidence = None, f_detector = None, f_evidence = []\<rparr>"

theorem overlaps_resolve_by_rank_witness:
  "sample High 2 4 \<in> set (resolveOverlaps [sample Low 0 9, sample High 2 4])"
proof -
  have "\<forall>f \<in> set [sample Low 0 9, sample High 2 4]. f_start f < f_end f" by (simp add: sample_def)
  from overlaps_resolve_by_rank [OF this] show ?thesis by (simp add: rank_def sample_def SEVERITY_WEIGHT_def)
qed

text \<open>
  A finding can be lost to one that is lost itself: the middle of three spans drops the first, the third drops the middle,
  and the first, which the third does not touch, is not masked.
\<close>

theorem dropped_finding_leaks:
  "let fs = [sample Low 0 10, sample Low 1 3, sample High 5 20] in
     resolveOverlaps fs = [sample High 5 20] \<and> \<not> overlapping (sample Low 1 3) (sample High 5 20) \<and>
     take 5 (applyReplacements (replicate 30 CHR ''x'') (resolveOverlaps fs)) = replicate 5 CHR ''x''"
  by code_simp

section \<open>Tokens are reversible\<close>

text \<open>A text in pieces: what is left as it is, and tokens.\<close>

datatype piece = Lit string | Tok string

fun render_piece :: "piece \<Rightarrow> string" where
  "render_piece (Lit x) = x"
| "render_piece (Tok t) = t"

definition render :: "piece list \<Rightarrow> string" where
  "render ps = concat (map render_piece ps)"

fun pieces :: "string \<Rightarrow> nat \<Rightarrow> finding list \<Rightarrow> piece list" where
  "pieces s cursor [] = [Lit (drop cursor s)]"
| "pieces s cursor (f # fs) =
     (if f_start f < cursor then pieces s cursor fs
      else Lit (str_slice s cursor (f_start f)) # Tok (f_replacement f) # pieces s (f_end f) fs)"

lemma splice_pieces: "splice s cursor fs = render (pieces s cursor fs)"
  by (induction fs arbitrary: cursor) (auto simp: render_def)

definition bracketed :: "string \<Rightarrow> bool" where
  "bracketed t \<longleftrightarrow> (\<exists>b. t = CHR ''['' # b @ [CHR '']''] \<and> CHR ''['' \<notin> set b \<and> CHR '']'' \<notin> set b)"

lemma bracketed_prefix: "bracketed t \<Longrightarrow> bracketed u \<Longrightarrow> take (length t) (u @ r) = t \<Longrightarrow> u = t"
proof -
  assume "bracketed t" "bracketed u" "take (length t) (u @ r) = t"
  then obtain b c where b: "t = CHR ''['' # b @ [CHR '']'']" "CHR '']'' \<notin> set b" and c: "u = CHR ''['' # c @ [CHR '']'']" "CHR '']'' \<notin> set c"
    and pre: "\<exists>z. t @ z = u @ r" by (metis append_take_drop_id bracketed_def)
  then obtain z where "b @ CHR '']'' # z = c @ CHR '']'' # r" by auto
  from arg_cong [OF this, of "takeWhile (\<lambda>x. x \<noteq> CHR '']'')"] have "b = c"
    using b(2) c(2) by (auto simp: takeWhile_append split: if_splits)
  then show ?thesis using b(1) c(1) by simp
qed

lemma replace_all_Nil [simp]: "replace_all t v [] = []"
  by (simp add: replace_all.simps)

lemma replace_all_token: "t \<noteq> [] \<Longrightarrow> replace_all t v (t @ r) = v @ replace_all t v r"
  by (subst replace_all.simps) simp

lemma replace_all_other: "take (length t) (c # s) \<noteq> t \<Longrightarrow> replace_all t v (c # s) = c # replace_all t v s"
  by (subst replace_all.simps) simp

lemma replace_all_literal:
  "bracketed t \<Longrightarrow> CHR ''['' \<notin> set x \<Longrightarrow> replace_all t v (x @ r) = x @ replace_all t v r"
proof (induction x)
  case (Cons c x)
  then have "take (length t) (c # x @ r) \<noteq> t" by (auto simp: bracketed_def)
  then show ?case using Cons replace_all_other by simp
qed simp

definition well_cut :: "piece list \<Rightarrow> bool" where
  "well_cut ps \<longleftrightarrow> (\<forall>p \<in> set ps. case p of Lit x \<Rightarrow> CHR ''['' \<notin> set x | Tok t \<Rightarrow> bracketed t)"

definition put_back :: "string \<Rightarrow> string \<Rightarrow> piece \<Rightarrow> piece" where
  "put_back t v p = (if p = Tok t then Lit v else p)"

lemma put_back_simps [simp]: "put_back t v (Lit x) = Lit x" "put_back t v (Tok u) = (if u = t then Lit v else Tok u)"
  by (simp_all add: put_back_def)

lemma replace_all_pieces:
  "bracketed t \<Longrightarrow> well_cut ps \<Longrightarrow> replace_all t v (render ps) = render (map (put_back t v) ps)"
proof (induction ps)
  case (Cons p ps)
  have IH: "replace_all t v (render ps) = render (map (put_back t v) ps)" using Cons by (simp add: well_cut_def)
  show ?case
  proof (cases p)
    case (Lit x)
    then show ?thesis using Cons.prems IH replace_all_literal [of t x v "render ps"] by (simp add: render_def well_cut_def)
  next
    case (Tok u)
    then have u: "bracketed u" using Cons.prems by (simp add: well_cut_def)
    show ?thesis
    proof (cases "u = t")
      case True
      then have "t \<noteq> []" using u by (auto simp: bracketed_def)
      then show ?thesis using Tok True IH replace_all_token [of t v "render ps"] by (simp add: render_def)
    next
      case False
      obtain b where b: "u = CHR ''['' # b @ [CHR '']'']" "CHR ''['' \<notin> set b" using u by (auto simp: bracketed_def)
      have "take (length t) (u @ render ps) \<noteq> t" using bracketed_prefix [OF Cons.prems(1) u] False by blast
      then have "replace_all t v (u @ render ps) = CHR ''['' # replace_all t v ((b @ [CHR '']'']) @ render ps)"
        using b(1) replace_all_other by simp
      also have "\<dots> = CHR ''['' # (b @ [CHR '']'']) @ replace_all t v (render ps)"
        using replace_all_literal [OF Cons.prems(1), of "b @ [CHR '']'']"] b(2) by simp
      finally show ?thesis using Tok False b(1) IH by (simp add: render_def)
    qed
  qed
qed (simp add: render_def)

lemma well_cut_put_back: "well_cut ps \<Longrightarrow> CHR ''['' \<notin> set v \<Longrightarrow> well_cut (map (put_back t v) ps)"
  by (auto simp: well_cut_def put_back_def)

lemma replace_all_fold:
  assumes "well_cut ps" "\<And>t. t \<in> set ts \<Longrightarrow> bracketed t \<and> CHR ''['' \<notin> set (val t)"
  shows "fold (\<lambda>t out. if t = [] then out else replace_all t (val t) out) ts (render ps) =
    render (map (\<lambda>p. case p of Lit x \<Rightarrow> Lit x | Tok t \<Rightarrow> if t \<in> set ts then Lit (val t) else Tok t) ps)"
  using assms
proof (induction ts arbitrary: ps)
  case Nil
  have "map (\<lambda>p. case p of Lit x \<Rightarrow> Lit x | Tok t \<Rightarrow> if t \<in> set [] then Lit (val t) else Tok t) ps = ps"
    by (rule map_idI) (auto split: piece.split)
  then show ?case by simp
next
  case (Cons t ts)
  have t: "bracketed t" "t \<noteq> []" "CHR ''['' \<notin> set (val t)" using Cons.prems(2) [of t] by (auto simp: bracketed_def)
  have "fold (\<lambda>t out. if t = [] then out else replace_all t (val t) out) ts (render (map (put_back t (val t)) ps)) =
    render (map (\<lambda>p. case p of Lit x \<Rightarrow> Lit x | Tok t \<Rightarrow> if t \<in> set ts then Lit (val t) else Tok t) (map (put_back t (val t)) ps))"
    using Cons.prems t by (intro Cons.IH well_cut_put_back) auto
  then show ?case
    using t Cons.prems(1) by (simp add: replace_all_pieces comp_def)
      (rule arg_cong [where f = render], auto split: piece.split)
qed

text \<open>The token of a prefix and a number: the last underscore separates them.\<close>

definition prefix_char :: "char \<Rightarrow> bool" where
  "prefix_char c \<longleftrightarrow> upper_or_digit c \<or> c = CHR ''_''"

lemma squeeze_chars: "list_all prefix_char (squeeze inside s)"
  by (induction inside s rule: squeeze.induct) (auto simp: prefix_char_def)

lemma tokenPrefix_chars: "list_all prefix_char (tokenPrefix categoryId)"
proof -
  have "list_all prefix_char (trim_underscores s)" if "list_all prefix_char s" for s
    using that by (auto simp: trim_underscores_def list_all_iff dest!: set_dropWhileD)
  moreover have "list_all prefix_char ''PII''" by code_simp
  ultimately show ?thesis using squeeze_chars [of False "to_upper categoryId"] by (simp add: tokenPrefix_def Let_def)
qed

lemma digits_text: "list_all is_digit (to_radix 10 n)"
  by (rule to_radix_digits) simp_all

lemma token_marks: "\<not> is_digit CHR ''_''" "\<not> prefix_char CHR ''[''" "\<not> prefix_char CHR '']''" "\<not> is_digit CHR ''[''" "\<not> is_digit CHR '']''"
  by code_simp+

lemma token_bracketed: "list_all prefix_char p \<Longrightarrow> bracketed (token_text p n)"
  using digits_text [of n] token_marks
  by (auto simp: bracketed_def token_text_def list_all_iff intro!: exI [of _ "p @ ''_'' @ to_radix 10 n"])

lemma last_underscore:
  assumes "p @ CHR ''_'' # a = q @ CHR ''_'' # b" "list_all is_digit a" "list_all is_digit b"
  shows "p = q \<and> a = b"
proof -
  have digits: "takeWhile is_digit (rev x @ CHR ''_'' # r) = rev x" if "list_all is_digit x" for x r
    using that token_marks(1) takeWhile_append2 [of "rev x" is_digit "CHR ''_'' # r"] by (auto simp: list_all_iff)
  have "rev a @ CHR ''_'' # rev p = rev b @ CHR ''_'' # rev q" using arg_cong [OF assms(1), of rev] by simp
  from arg_cong [OF this, of "takeWhile is_digit"] have "rev a = rev b" unfolding digits [OF assms(2)] digits [OF assms(3)] .
  then show ?thesis using assms(1) by simp
qed

lemma token_text_inj: "token_text p n = token_text q m \<longleftrightarrow> p = q \<and> n = m"
proof
  assume "token_text p n = token_text q m"
  from arg_cong [OF this, of "\<lambda>s. butlast (tl s)"]
  have "p @ CHR ''_'' # to_radix 10 n = q @ CHR ''_'' # to_radix 10 m" by (simp add: token_text_def butlast_append)
  from last_underscore [OF this digits_text digits_text] have "p = q" "to_radix 10 n = to_radix 10 m" by simp_all
  moreover from arg_cong [OF this(2), of "parse_radix 10"] have "n = m" by (simp only: parse_to_radix [of 10, simplified])
  ultimately show "p = q \<and> n = m" by simp
qed simp

text \<open>The vault knows each token given out so far, and a fresh token is new to it.\<close>

definition vault_ok :: "token_state \<Rightarrow> bool" where
  "vault_ok st \<longleftrightarrow>
     (\<forall>k t. map_get (tokenByKey st) k = Some t \<longrightarrow> map_get (vault st) t = Some \<lparr>v_value = snd k, v_category = fst k\<rparr>) \<and>
     (\<forall>t e. map_get (vault st) t = Some e \<longrightarrow>
        (\<exists>p n. list_all prefix_char p \<and> t = token_text p n \<and> n \<le> nullish (map_get (counters st) p) 0))"

lemma assign_token_ok:
  assumes "vault_ok st" "assign_token f st = (token, st')"
  shows "vault_ok st' \<and> map_get (vault st') token = Some \<lparr>v_value = f_value f, v_category = f_category f\<rparr> \<and>
    (\<forall>t e. map_get (vault st) t = Some e \<longrightarrow> map_get (vault st') t = Some e) \<and>
    (\<forall>t e. map_get (vault st') t = Some e \<longrightarrow> map_get (vault st) t = Some e \<or> v_value e = f_value f)"
proof (cases "map_get (tokenByKey st) (f_category f, f_value f)")
  case (Some t)
  then show ?thesis using assms by (auto simp: assign_token_def vault_ok_def)
next
  case None
  let ?p = "tokenPrefix (f_category f)"
  let ?n = "nullish (map_get (counters st) ?p) 0 + 1"
  let ?e = "\<lparr>v_value = f_value f, v_category = f_category f\<rparr>"
  have st': "token = token_text ?p ?n" "st' = \<lparr>tokenByKey = map_set (tokenByKey st) (f_category f, f_value f) (token_text ?p ?n),
      counters = map_set (counters st) ?p ?n, vault = map_set (vault st) (token_text ?p ?n) ?e\<rparr>"
    using assms(2) None by (auto simp: assign_token_def Let_def)
  have fresh: "map_get (vault st) (token_text ?p ?n) = None"
  proof (rule ccontr)
    assume "map_get (vault st) (token_text ?p ?n) \<noteq> None"
    then obtain p n where "token_text ?p ?n = token_text p n" "n \<le> nullish (map_get (counters st) p) 0"
      using assms(1) unfolding vault_ok_def by blast
    then show False by (auto simp: token_text_inj)
  qed
  have known: "\<exists>p n. list_all prefix_char p \<and> t = token_text p n \<and> n \<le> nullish (map_get (map_set (counters st) ?p ?n) p) 0"
    if t: "map_get (vault st) t = Some e" for t e
  proof -
    obtain p n where p: "list_all prefix_char p" "t = token_text p n" "n \<le> nullish (map_get (counters st) p) 0"
      using assms(1) t unfolding vault_ok_def by blast
    then show ?thesis by (intro exI [of _ p] exI [of _ n]) auto
  qed
  have "vault_ok st'"
    unfolding vault_ok_def st'
  proof (intro conjI allI impI)
    fix k t assume "map_get (tokenByKey \<lparr>tokenByKey = map_set (tokenByKey st) (f_category f, f_value f) (token_text ?p ?n),
        counters = map_set (counters st) ?p ?n, vault = map_set (vault st) (token_text ?p ?n) ?e\<rparr>) k = Some t"
    then show "map_get (vault \<lparr>tokenByKey = map_set (tokenByKey st) (f_category f, f_value f) (token_text ?p ?n),
        counters = map_set (counters st) ?p ?n, vault = map_set (vault st) (token_text ?p ?n) ?e\<rparr>) t = Some \<lparr>v_value = snd k, v_category = fst k\<rparr>"
      using assms(1) fresh by (cases k) (auto simp: vault_ok_def split: if_splits)
  next
    fix t e assume e: "map_get (vault \<lparr>tokenByKey = map_set (tokenByKey st) (f_category f, f_value f) (token_text ?p ?n),
        counters = map_set (counters st) ?p ?n, vault = map_set (vault st) (token_text ?p ?n) ?e\<rparr>) t = Some e"
    have "\<exists>p n. list_all prefix_char p \<and> t = token_text p n \<and> n \<le> nullish (map_get (map_set (counters st) ?p ?n) p) 0"
    proof (cases "t = token_text ?p ?n")
      case True
      then show ?thesis using tokenPrefix_chars [of "f_category f"] by (intro exI [of _ ?p] exI [of _ ?n]) simp
    next
      case False
      then show ?thesis using e by (intro known) simp
    qed
    then show "\<exists>p n. list_all prefix_char p \<and> t = token_text p n \<and> n \<le> nullish (map_get (counters \<lparr>tokenByKey = map_set (tokenByKey st) (f_category f, f_value f) (token_text ?p ?n),
        counters = map_set (counters st) ?p ?n, vault = map_set (vault st) (token_text ?p ?n) ?e\<rparr>) p) 0"
      by (simp only: token_state.simps)
  qed
  then show ?thesis using fresh st' by auto
qed

lemma assign_tokens_ok:
  assumes "vault_ok st" "assign_tokens fs st = (gs, st')"
  shows "vault_ok st' \<and>
    (\<forall>t e. map_get (vault st) t = Some e \<longrightarrow> map_get (vault st') t = Some e) \<and>
    (\<forall>t e. map_get (vault st') t = Some e \<longrightarrow> map_get (vault st) t = Some e \<or> (\<exists>f \<in> set fs. v_value e = f_value f)) \<and>
    list_all2 (\<lambda>f g. f_start g = f_start f \<and> f_end g = f_end f \<and> f_value g = f_value f \<and>
      map_get (vault st') (f_replacement g) = Some \<lparr>v_value = f_value f, v_category = f_category f\<rparr>) fs gs"
  using assms
proof (induction fs arbitrary: st gs)
  case (Cons f fs)
  obtain token st1 rest where one: "assign_token f st = (token, st1)" and rest: "assign_tokens fs st1 = (rest, st')"
      and gs: "gs = f\<lparr>f_action := ActTokenize, f_block := False, f_replacement := token\<rparr> # rest"
    using Cons.prems(2) by (auto simp: Let_def split: prod.splits)
  note first = assign_token_ok [OF Cons.prems(1) one]
  then have "vault_ok st1" by blast
  note IH = Cons.IH [OF this rest]
  show ?case
    unfolding gs using first IH by (intro conjI allI impI) (blast, blast, fastforce, auto)
qed auto

definition same_spans :: "finding list \<Rightarrow> string \<Rightarrow> bool" where
  "same_spans fs s \<longleftrightarrow> (\<forall>f \<in> set fs. f_start f \<le> f_end f \<and> f_end f \<le> length s \<and> f_value f = str_slice s (f_start f) (f_end f))"

definition with_values :: "(string \<Rightarrow> string) \<Rightarrow> piece \<Rightarrow> piece" where
  "with_values val p = (case p of Lit x \<Rightarrow> Lit x | Tok t \<Rightarrow> Lit (val t))"

lemma slice_join: "a \<le> b \<Longrightarrow> b \<le> c \<Longrightarrow> str_slice s a b @ str_slice s b c = str_slice s a c" "a \<le> b \<Longrightarrow> str_slice s a b @ drop b s = drop a s"
proof -
  have join: "drop a (take b u) @ drop b u = drop a u" if "a \<le> b" for a b and u :: string
  proof (cases "a \<le> length u")
    case True
    then show ?thesis using that drop_append [of a "take b u" "drop b u"] by simp
  next
    case False
    then show ?thesis using that by simp
  qed
  show "str_slice s a b @ str_slice s b c = str_slice s a c" if "a \<le> b" "b \<le> c"
    using join [of a b "take c s"] that by (simp add: str_slice_def min_def)
  show "str_slice s a b @ drop b s = drop a s" if "a \<le> b"
    using join [OF that] by (simp add: str_slice_def)
qed

lemma with_values_simps [simp]: "with_values val (Lit x) = Lit x" "with_values val (Tok t) = Lit (val t)"
  by (simp_all add: with_values_def)

lemma pieces_restore:
  assumes "cursor \<le> length s" "same_spans fs s" "\<And>f. f \<in> set fs \<Longrightarrow> val (f_replacement f) = f_value f"
  shows "render (map (with_values val) (pieces s cursor fs)) = drop cursor s"
  using assms
proof (induction fs arbitrary: cursor)
  case (Cons f fs)
  have f: "f_start f \<le> f_end f" "f_end f \<le> length s" "val (f_replacement f) = str_slice s (f_start f) (f_end f)"
    using Cons.prems by (auto simp: same_spans_def)
  have IH: "render (map (with_values val) (pieces s c fs)) = drop c s" if "c \<le> length s" for c
    using Cons.prems that by (intro Cons.IH) (auto simp: same_spans_def)
  show ?case
  proof (cases "f_start f < cursor")
    case True
    then show ?thesis using IH Cons.prems(1) by simp
  next
    case False
    then have "str_slice s cursor (f_start f) @ str_slice s (f_start f) (f_end f) @ drop (f_end f) s = drop cursor s"
      using f slice_join by simp
    then show ?thesis using False IH [OF f(2)] f(3) by (simp add: render_def)
  qed
qed (simp add: render_def)

lemma pieces_well_cut:
  assumes "CHR ''['' \<notin> set s" "\<And>f. f \<in> set fs \<Longrightarrow> bracketed (f_replacement f)"
  shows "well_cut (pieces s cursor fs)" "Tok t \<in> set (pieces s cursor fs) \<Longrightarrow> \<exists>f \<in> set fs. t = f_replacement f"
  using assms by (induction fs arbitrary: cursor) (auto simp: well_cut_def str_slice_def split: if_splits dest: in_set_dropD in_set_takeD)

text \<open>
  C29: Tokens can be taken back: when the text holds no opening bracket, putting the values of the vault into the tokenized text
  gives the text, whatever findings were tokenized, overlapping or equal ones included.
\<close>

theorem detokenize_inverts_tokenize:
  assumes "CHR ''['' \<notin> set s"
    and "\<forall>f \<in> set fs. f_start f \<le> f_end f \<and> f_end f \<le> length s \<and> f_value f = str_slice s (f_start f) (f_end f)"
    and "tokenize s fs = (out, v, gs)"
  shows "detokenize out (Some v) = s"
proof -
  let ?st0 = "\<lparr>tokenByKey = [], counters = [], vault = []\<rparr>"
  obtain st where assign: "assign_tokens (sort_key f_start fs) ?st0 = (gs, st)" and out: "out = applyReplacements s gs" "v = vault st"
    using assms(3) by (auto simp: tokenize_def split: prod.splits)
  have "vault_ok ?st0" by (simp add: vault_ok_def)
  note ok = assign_tokens_ok [OF this assign]
  note pairs = ok [THEN conjunct2, THEN conjunct2, THEN conjunct2]
  let ?val = "\<lambda>t. v_value (the (map_get v t))"
  let ?gs = "sort_key f_start gs"
  have g: "f_start g \<le> f_end g \<and> f_end g \<le> length s \<and> f_value g = str_slice s (f_start g) (f_end g) \<and>
      map_get v (f_replacement g) \<noteq> None \<and> ?val (f_replacement g) = f_value g" if "g \<in> set gs" for g
  proof -
    have "\<exists>i < length gs. g = gs ! i" using that by (metis in_set_conv_nth)
    then obtain i where i: "i < length gs" "g = gs ! i" by blast
    let ?f = "sort_key f_start fs ! i"
    have len: "length (sort_key f_start fs) = length gs" using list_all2_lengthD [OF pairs] .
    have "?f \<in> set (sort_key f_start fs)" using i(1) len by (intro nth_mem) simp
    then have "?f \<in> set fs" by simp
    moreover have "f_start g = f_start ?f \<and> f_end g = f_end ?f \<and> f_value g = f_value ?f \<and>
        map_get (vault st) (f_replacement g) = Some \<lparr>v_value = f_value ?f, v_category = f_category ?f\<rparr>"
      using list_all2_nthD2 [OF pairs i(1)] i(2) by simp
    ultimately show ?thesis using assms(2) out(2) by auto
  qed
  have v: "bracketed t \<and> CHR ''['' \<notin> set (?val t)" if "t \<in> set (map fst v)" for t
  proof -
    have "map_get v t \<noteq> None" using that by (simp add: map_of_eq_None_iff)
    then obtain e where e: "map_get v t = Some e" by blast
    then obtain p n where "list_all prefix_char p" "t = token_text p n" using ok unfolding vault_ok_def out(2) by blast
    moreover obtain f where "f \<in> set fs" "v_value e = f_value f" using ok e unfolding out(2) by fastforce
    moreover from this have "set (v_value e) \<subseteq> set s" using assms(2) by (auto simp: str_slice_def dest: in_set_dropD in_set_takeD)
    ultimately show ?thesis using e assms(1) token_bracketed by auto
  qed
  have rep: "f_replacement g \<in> set (map fst v)" if "g \<in> set ?gs" for g
    using g [of g] that by (metis map_of_eq_None_iff set_map set_sort)
  have br: "bracketed (f_replacement g)" if "g \<in> set ?gs" for g using rep [OF that] v by blast
  have cut: "well_cut (pieces s 0 ?gs)" by (rule pieces_well_cut(1) [OF assms(1) br])
  have known: "t \<in> set (map fst v)" if "Tok t \<in> set (pieces s 0 ?gs)" for t
    using pieces_well_cut(2) [OF assms(1) br that] rep by blast
  have "applyReplacements s gs = render (pieces s 0 ?gs)"
    by (cases "gs = []") (simp_all add: applyReplacements_def splice_pieces render_def)
  then have "detokenize out (Some v) = fold (\<lambda>t out. if t = [] then out else replace_all t (?val t) out)
      (sort_key (\<lambda>t. - int (length t)) (map fst v)) (render (pieces s 0 ?gs))"
    by (simp add: detokenize_def out(1))
  also have "\<dots> = render (map (\<lambda>p. case p of Lit x \<Rightarrow> Lit x | Tok t \<Rightarrow> if t \<in> set (map fst v) then Lit (?val t) else Tok t) (pieces s 0 ?gs))"
    by (rule replace_all_fold [OF cut, of "sort_key (\<lambda>t. - int (length t)) (map fst v)" ?val, unfolded set_sort]) (rule v)
  also have "\<dots> = render (map (with_values ?val) (pieces s 0 ?gs))"
    by (rule arg_cong [where f = render], rule map_cong) (use known in \<open>auto simp: with_values_def split: piece.split\<close>)
  also have "\<dots> = s"
    using pieces_restore [where cursor = 0 and s = s and fs = ?gs and val = ?val] g by (simp add: same_spans_def)
  finally show ?thesis .
qed

definition phone :: "nat \<Rightarrow> nat \<Rightarrow> string \<Rightarrow> finding" where
  "phone a b val = (sample High a b)\<lparr>f_category := ''phone'', f_value := val\<rparr>"

theorem detokenize_inverts_tokenize_witness:
  "\<exists>out v gs. tokenize ''call 11 or 22 or 11'' [phone 11 13 ''22'', phone 5 7 ''11'', phone 17 19 ''11''] = (out, v, gs) \<and>
     detokenize out (Some v) = ''call 11 or 22 or 11''"
proof -
  let ?s = "''call 11 or 22 or 11''" and ?fs = "[phone 11 13 ''22'', phone 5 7 ''11'', phone 17 19 ''11'']"
  obtain out v gs where t: "tokenize ?s ?fs = (out, v, gs)" by (cases "tokenize ?s ?fs") auto
  have "CHR ''['' \<notin> set ?s" "\<forall>f \<in> set ?fs. f_start f \<le> f_end f \<and> f_end f \<le> length ?s \<and> f_value f = str_slice ?s (f_start f) (f_end f)"
    by (simp_all add: phone_def sample_def str_slice_def)
  from detokenize_inverts_tokenize [OF this t] t show ?thesis by blast
qed

text \<open>
  Without that condition they cannot: a text that already holds a token of the vault gets a value where it had the token.
\<close>

theorem token_in_the_text_is_overwritten:
  "let (out, v, gs) = tokenize ''[PHONE_1] is 11'' [phone 13 15 ''11''] in
     out = ''[PHONE_1] is [PHONE_1]'' \<and> detokenize out (Some v) = ''11 is 11''"
  by code_simp

end
