(* ===== verification/PiiFusion.thy ===== *)
theory PiiFusion
  imports PiiText
begin

text \<open>
  Personal data found by several detectors: \<^verbatim>\<open>fuseCandidates\<close> and \<^verbatim>\<open>detectAsync\<close> of
  \<^verbatim>\<open>src/lib/services/pii/detector.ts\<close>.

  Each layer (patterns, dictionary, recogniser of names) gives candidates with a score. Candidates of one category that overlap
  become one, whose score is that of independent opinions together; what still overlaps is decided by containment and score.
  What the dictionary and the recogniser find, and the masks of the catalog, are arguments.
\<close>

section \<open>Candidates\<close>

record candidate =
  cd_category :: string
  cd_start :: nat
  cd_end :: nat
  cd_value :: string
  cd_baseScore :: jsnum
  cd_detector :: pii_layer
  cd_severity :: PiiSeverity
  cd_label :: string
  cd_evidence :: "string list"

definition findingToCandidate :: "finding \<Rightarrow> candidate" where
  "findingToCandidate f =
     \<lparr>cd_category = f_category f, cd_start = f_start f, cd_end = f_end f, cd_value = f_value f,
      cd_baseScore = nullish (f_confidence f) (1 / 2), cd_detector = LayerPattern, cd_severity = f_severity f, cd_label = f_label f,
      cd_evidence = f_evidence f\<rparr>"

definition candidateToFinding :: "(string \<Rightarrow> PiiMaskStrategy option) \<Rightarrow> candidate \<Rightarrow> PiiAction \<Rightarrow> finding" where
  "candidateToFinding catalogMask c actionMode =
     toFinding
       \<lparr>f_category = cd_category c, f_source = Builtin, f_severity = cd_severity c, f_value = cd_value c, f_start = cd_start c,
        f_end = cd_end c, f_label = cd_label c, f_action = actionMode, f_block = False, f_replacement = [],
        f_confidence = Some (math_round (cd_baseScore c * 1000) / 1000), f_detector = Some (cd_detector c), f_evidence = cd_evidence c\<rparr>
       (nullish (catalogMask (cd_category c)) (MaskFixed (redactReplacement (cd_category c)))) actionMode"

section \<open>Fusion\<close>

definition by_category :: "candidate list \<Rightarrow> (string, candidate list) jsmap" where
  "by_category cs = foldl (\<lambda>m c. map_set m (cd_category c) (nullish (map_get m (cd_category c)) [] @ [c])) [] cs"

definition agree :: "string \<Rightarrow> candidate \<Rightarrow> candidate \<Rightarrow> candidate" where
  "agree s l c =
     (let a = min (cd_start l) (cd_start c); b = max (cd_end l) (cd_end c) in
      l\<lparr>cd_baseScore := noisyOr [cd_baseScore l, cd_baseScore c], cd_start := a, cd_end := b, cd_value := str_slice s a b,
        cd_evidence := cd_evidence l @ cd_evidence c\<rparr>)"

definition merge_step :: "string \<Rightarrow> candidate list \<Rightarrow> candidate \<Rightarrow> candidate list" where
  "merge_step s merged c =
     (if merged \<noteq> [] \<and> cd_category (last merged) = cd_category c \<and> cd_start c < cd_end (last merged)
      then butlast merged @ [agree s (last merged) c]
      else merged @ [c])"

definition merge_group :: "string \<Rightarrow> candidate list \<Rightarrow> candidate list \<Rightarrow> candidate list" where
  "merge_group s merged cs = foldl (merge_step s) merged (sort_key (\<lambda>c. span_key (cd_start c) (cd_end c)) cs)"

definition merge_all :: "string \<Rightarrow> candidate list \<Rightarrow> candidate list" where
  "merge_all s cs = sort_key cd_start (foldl (merge_group s) [] (map snd (by_category cs)))"

definition cd_len :: "candidate \<Rightarrow> int" where
  "cd_len c = int (cd_end c) - int (cd_start c)"

definition cd_rank :: "candidate \<Rightarrow> jsnum" where
  "cd_rank c = cd_baseScore c * 1000 + of_nat (SEVERITY_WEIGHT (cd_severity c)) * 10"

definition resolve_step :: "candidate list \<Rightarrow> candidate \<Rightarrow> candidate list" where
  "resolve_step resolved c =
     (if resolved \<noteq> [] \<and> cd_start c < cd_end (last resolved) then
        let l = last resolved;
            lastContainsC = (cd_start l \<le> cd_start c \<and> cd_end l \<ge> cd_end c);
            cContainsLast = (cd_start c \<le> cd_start l \<and> cd_end c \<ge> cd_end l);
            replaced = butlast resolved @ [c]
        in if lastContainsC \<and> cd_len l > cd_len c then (if cd_baseScore c > cd_baseScore l * (13 / 10) then replaced else resolved)
           else if cContainsLast \<and> cd_len c > cd_len l then (if cd_baseScore l \<le> cd_baseScore c * (13 / 10) then replaced else resolved)
           else if cd_rank c > cd_rank l then replaced
           else resolved
      else resolved @ [c])"

definition fuseCandidates :: "string \<Rightarrow> candidate list \<Rightarrow> jsnum \<Rightarrow> candidate list" where
  "fuseCandidates s cs minConfidence =
     (if cs = [] then [] else filter (\<lambda>c. cd_baseScore c \<ge> minConfidence) (foldl resolve_step [] (merge_all s cs)))"

section \<open>Detection in layers\<close>

datatype pii_mode = ModePattern | ModeDictionary | ModeNer

text \<open>What the recogniser gave: candidates, a note for each window it could not finish, and whether a model was there.\<close>

record ner_result =
  ner_candidates :: "candidate list"
  ner_degraded :: "string list"
  ner_available :: bool

definition boost :: "detector_env \<Rightarrow> detector_config \<Rightarrow> string \<Rightarrow> candidate \<Rightarrow> candidate" where
  "boost env config s c =
     (if dc_contextBoost config = Some False then c
      else
        (case findContextWord (env_fold env) s (cd_start c) (cd_end c) (env_contextWords env (cd_category c)) of
           None \<Rightarrow> c
         | Some w \<Rightarrow>
             c\<lparr>cd_baseScore := applyContextBoost (cd_baseScore c) True,
               cd_evidence := cd_evidence c @ [''context word '' @ [CHR 0x22] @ w @ [CHR 0x22]]\<rparr>))"

text \<open>\<open>ner = None\<close>: no path to a model is configured.\<close>

definition detectAsync ::
  "detector_env \<Rightarrow> (string \<Rightarrow> PiiMaskStrategy option) \<Rightarrow> string \<Rightarrow> detector_config \<Rightarrow> pii_mode \<Rightarrow> candidate list \<Rightarrow>
     ner_result option \<Rightarrow> PiiAction \<Rightarrow> pattern_report option \<Rightarrow> (finding list \<times> string list) \<times> pattern_report option" where
  "detectAsync env catalogMask s config mode dictionary ner actionMode report =
     (if mode = ModePattern \<or> s = [] then
        (let (fs, report) = detect env s config actionMode report in ((fs, []), report))
      else
        let (fs, report) = detect env s (config\<lparr>dc_minConfidence := Some 0\<rparr>) actionMode report;
            fromNer = (if mode = ModeNer then (case ner of None \<Rightarrow> [] | Some r \<Rightarrow> map (boost env config s) (ner_candidates r)) else []);
            degraded = (if mode = ModeNer then
                (case ner of
                   None \<Rightarrow> [''no model path'']
                 | Some r \<Rightarrow> ner_degraded r @ (if ner_available r then [] else [''no model loaded'']))
              else []);
            fused = fuseCandidates s (map findingToCandidate fs @ map (boost env config s) dictionary @ fromNer)
              (nullish (dc_minConfidence config) 0)
        in ((sort_key f_start (map (\<lambda>c. candidateToFinding catalogMask c actionMode) fused), degraded), report))"

section \<open>Agreement\<close>

lemma noisyOr_pair:
  assumes "0 \<le> c" "c \<le> 999 / 1000"
  shows "c \<le> x \<Longrightarrow> c \<le> noisyOr [x, y]" "c \<le> y \<Longrightarrow> c \<le> noisyOr [x, y]"
proof -
  have clip: "0 \<le> min (999 / 1000) (max 0 z)" "min (999 / 1000) (max 0 z) \<le> 1" for z :: jsnum by simp_all
  have product: "a \<le> 1 - (1 - a) * (1 - b)" "b \<le> 1 - (1 - a) * (1 - b)" if "0 \<le> a" "a \<le> 1" "0 \<le> b" "b \<le> 1" for a b :: jsnum
  proof -
    have "0 \<le> b * (1 - a)" "0 \<le> a * (1 - b)" using that by simp_all
    then show "a \<le> 1 - (1 - a) * (1 - b)" "b \<le> 1 - (1 - a) * (1 - b)" by (simp_all add: algebra_simps)
  qed
  let ?x = "min (999 / 1000) (max 0 x)" and ?y = "min (999 / 1000) (max 0 y)"
  have n: "noisyOr [x, y] = 1 - (1 - ?x) * (1 - ?y)" by (simp add: noisyOr_def)
  have le: "?x \<le> 1 - (1 - ?x) * (1 - ?y)" "?y \<le> 1 - (1 - ?x) * (1 - ?y)" by (rule product [OF clip clip])+
  { assume "c \<le> x"
    then have "c \<le> ?x" using assms by simp
    then show "c \<le> noisyOr [x, y]" unfolding n using le(1) by linarith }
  { assume "c \<le> y"
    then have "c \<le> ?y" using assms by simp
    then show "c \<le> noisyOr [x, y]" unfolding n using le(2) by linarith }
qed

abbreviation cd_apart :: "candidate \<Rightarrow> candidate \<Rightarrow> bool" where
  "cd_apart a b \<equiv> cd_end a \<le> cd_start b"

definition spans :: "candidate \<Rightarrow> nat \<Rightarrow> bool" where
  "spans c x \<longleftrightarrow> cd_start c \<le> x \<and> x < cd_end c"

text \<open>A merged candidate stands for one it was merged from: same category, at least the span, at least the score.\<close>

definition stands_for :: "candidate \<Rightarrow> candidate \<Rightarrow> bool" where
  "stands_for m c \<longleftrightarrow> cd_category m = cd_category c \<and> cd_start m \<le> cd_start c \<and> cd_end c \<le> cd_end m \<and> cd_baseScore c \<le> cd_baseScore m"

definition scored :: "candidate \<Rightarrow> bool" where
  "scored c \<longleftrightarrow> 0 \<le> cd_baseScore c \<and> cd_baseScore c \<le> 999 / 1000"

definition merged_from :: "string \<Rightarrow> string \<Rightarrow> candidate list \<Rightarrow> candidate list \<Rightarrow> bool" where
  "merged_from s k xs ms \<longleftrightarrow>
     (\<forall>m \<in> set ms. cd_category m = k \<and> cd_start m < cd_end m) \<and> sorted_wrt cd_apart ms \<and>
     (\<forall>m \<in> set ms. \<exists>c \<in> set xs. cd_start m \<le> cd_start c) \<and>
     (\<forall>c \<in> set xs. scored c \<longrightarrow> (\<exists>m \<in> set ms. stands_for m c)) \<and>
     (\<forall>m \<in> set ms. \<forall>x. spans m x \<longrightarrow> (\<exists>c \<in> set xs. spans c x)) \<and>
     ((\<forall>c \<in> set xs. cd_value c = str_slice s (cd_start c) (cd_end c)) \<longrightarrow>
        (\<forall>m \<in> set ms. cd_value m = str_slice s (cd_start m) (cd_end m)))"

lemma agree_simps [simp]:
  "cd_category (agree s l c) = cd_category l" "cd_start (agree s l c) = min (cd_start l) (cd_start c)"
  "cd_end (agree s l c) = max (cd_end l) (cd_end c)" "cd_baseScore (agree s l c) = noisyOr [cd_baseScore l, cd_baseScore c]"
  "cd_value (agree s l c) = str_slice s (min (cd_start l) (cd_start c)) (max (cd_end l) (cd_end c))"
  by (simp_all add: agree_def Let_def)

lemma stands_for_agree:
  "scored c \<Longrightarrow> stands_for l c \<Longrightarrow> stands_for (agree s l d) c"
  "scored d \<Longrightarrow> cd_category l = cd_category d \<Longrightarrow> stands_for (agree s l d) d"
  using noisyOr_pair by (auto simp: stands_for_def scored_def)

lemma merge_step_from:
  assumes "merged_from s k xs ms" "cd_category c = k" "cd_start c < cd_end c" "\<forall>x \<in> set xs. cd_start x \<le> cd_start c"
  shows "merged_from s k (xs @ [c]) (merge_step s ms c)"
proof (cases ms rule: rev_cases)
  case Nil
  then show ?thesis using assms by (auto simp: merge_step_def merged_from_def stands_for_def)
next
  case (snoc ks l)
  have low: "cd_start m \<le> cd_start c" if "m \<in> set ms" for m
    using assms(1,4) that unfolding merged_from_def by (meson order_trans)
  have k: "cd_category l = k" "cd_start l < cd_end l" "\<forall>m \<in> set ks. cd_category m = k \<and> cd_start m < cd_end m"
      "sorted_wrt cd_apart ks" "\<forall>m \<in> set ks. cd_apart m l"
    using assms(1) snoc by (auto simp: merged_from_def sorted_wrt_append)
  show ?thesis
  proof (cases "cd_start c < cd_end l")
    case True
    then have step: "merge_step s ms c = ks @ [agree s l c]" using snoc k(1) assms(2) by (simp add: merge_step_def)
    have start: "min (cd_start l) (cd_start c) = cd_start l" using low snoc by simp
    have "spans l x \<or> spans c x" if "spans (agree s l c) x" for x
      using that True assms(3) low [of l] snoc by (auto simp: spans_def)
    moreover have "\<exists>m \<in> set (ks @ [agree s l c]). stands_for m d" if "d \<in> set xs" "scored d" for d
      using assms(1) that snoc stands_for_agree(1) unfolding merged_from_def by fastforce
    moreover have "scored c \<longrightarrow> stands_for (agree s l c) c" using stands_for_agree(2) k(1) assms(2) by simp
    moreover have "\<forall>m \<in> set (ks @ [agree s l c]). \<exists>d \<in> set (xs @ [c]). cd_start m \<le> cd_start d"
      using low snoc by auto
    moreover have "\<forall>m \<in> set ks. \<forall>x. spans m x \<longrightarrow> (\<exists>c \<in> set xs. spans c x)" "\<forall>x. spans l x \<longrightarrow> (\<exists>c \<in> set xs. spans c x)"
      using assms(1) snoc by (simp_all add: merged_from_def)
    moreover have "(\<forall>c \<in> set xs. cd_value c = str_slice s (cd_start c) (cd_end c)) \<longrightarrow>
        (\<forall>m \<in> set ks. cd_value m = str_slice s (cd_start m) (cd_end m))"
      using assms(1) snoc by (simp add: merged_from_def)
    ultimately show ?thesis
      unfolding merged_from_def step using k assms(3) start by (auto simp: sorted_wrt_append)
  next
    case False
    then have step: "merge_step s ms c = ms @ [c]" using snoc by (simp add: merge_step_def)
    have "cd_apart m c" if "m \<in> set ks" for m using k(5) that low [of l] False snoc k(2) by fastforce
    then have "sorted_wrt cd_apart (ms @ [c])" using False k(4,5) snoc by (auto simp: sorted_wrt_append)
    moreover have "stands_for c c" by (simp add: stands_for_def)
    ultimately show ?thesis using assms(1-3) unfolding merged_from_def step by auto
  qed
qed

lemma merge_fold_from:
  assumes "\<forall>c \<in> set xs. cd_category c = k \<and> cd_start c < cd_end c" "sorted (map cd_start xs)"
  shows "merged_from s k xs (foldl (merge_step s) [] xs)"
  using assms
proof (induction xs rule: rev_induct)
  case (snoc c xs)
  then show ?case by (auto simp: sorted_append intro!: merge_step_from)
qed (simp add: merged_from_def)

section \<open>By category\<close>

abbreviation of_category :: "string \<Rightarrow> candidate list \<Rightarrow> candidate list" where
  "of_category k cs \<equiv> filter (\<lambda>c. cd_category c = k) cs"

lemma by_category_snoc:
  "by_category (cs @ [c]) = map_set (by_category cs) (cd_category c) (nullish (map_get (by_category cs) (cd_category c)) [] @ [c])"
  by (simp add: by_category_def)

lemma by_category_distinct: "distinct (map fst (by_category cs))"
proof (induction cs rule: rev_induct)
  case (snoc c cs)
  then show ?case unfolding by_category_snoc by (rule map_set_distinct)
qed (simp add: by_category_def)

lemma by_category_get:
  "map_get (by_category cs) k = (if of_category k cs = [] then None else Some (of_category k cs))"
proof (induction cs arbitrary: k rule: rev_induct)
  case (snoc c cs)
  have old: "nullish (map_get (by_category cs) (cd_category c)) [] = of_category (cd_category c) cs"
    unfolding snoc.IH by (cases "of_category (cd_category c) cs = []") simp_all
  show ?case
  proof (cases "k = cd_category c")
    case True
    then show ?thesis unfolding by_category_snoc map_get_set old by (simp del: filter_empty_conv)
  next
    case False
    then have "of_category k (cs @ [c]) = of_category k cs" by simp
    then show ?thesis unfolding by_category_snoc map_get_set if_not_P [OF False] snoc.IH [of k] by (simp only:)
  qed
qed (simp add: by_category_def)

lemma by_category_mem: "(k, g) \<in> set (by_category cs) \<Longrightarrow> g = of_category k cs \<and> g \<noteq> []"
proof -
  assume "(k, g) \<in> set (by_category cs)"
  from map_of_is_SomeI [OF by_category_distinct this] have "map_get (by_category cs) k = Some g" .
  then show ?thesis unfolding by_category_get by (cases "of_category k cs = []") auto
qed

lemma by_category_covers: "c \<in> set cs \<Longrightarrow> (cd_category c, of_category (cd_category c) cs) \<in> set (by_category cs)"
proof -
  assume c: "c \<in> set cs"
  then have "of_category (cd_category c) cs \<noteq> []" by (auto simp: filter_empty_conv)
  then have "map_get (by_category cs) (cd_category c) = Some (of_category (cd_category c) cs)" unfolding by_category_get by (rule if_not_P)
  then show ?thesis by (rule map_of_SomeD)
qed

lemma merge_fold_other:
  "\<forall>m \<in> set merged. cd_category m \<noteq> k \<Longrightarrow> \<forall>c \<in> set xs. cd_category c = k \<Longrightarrow>
     foldl (merge_step s) merged xs = merged @ foldl (merge_step s) [] xs"
proof (induction xs rule: rev_induct)
  case (snoc c xs)
  then have "foldl (merge_step s) merged (xs @ [c]) = merge_step s (merged @ foldl (merge_step s) [] xs) c" by simp
  also have "\<dots> = merged @ merge_step s (foldl (merge_step s) [] xs) c"
    using snoc.prems by (cases "foldl (merge_step s) [] xs" rule: rev_cases) (auto simp: merge_step_def butlast_append)
  finally show ?case by simp
qed simp

lemma merge_group_other:
  "\<forall>m \<in> set merged. cd_category m \<noteq> k \<Longrightarrow> \<forall>c \<in> set g. cd_category c = k \<Longrightarrow> merge_group s merged g = merged @ merge_group s [] g"
  unfolding merge_group_def by (rule merge_fold_other [where k = k]) (simp_all only: set_sort)

definition groups_ok :: "(string \<times> candidate list) list \<Rightarrow> bool" where
  "groups_ok gs \<longleftrightarrow> distinct (map fst gs) \<and> (\<forall>(k, g) \<in> set gs. \<forall>c \<in> set g. cd_category c = k \<and> cd_start c < cd_end c)"

lemma merge_group_from:
  assumes "\<forall>c \<in> set g. cd_category c = k \<and> cd_start c < cd_end c"
  shows "merged_from s k g (merge_group s [] g)"
proof -
  have "sorted (map (\<lambda>c. span_key (cd_start c) (cd_end c)) (sort_key (\<lambda>c. span_key (cd_start c) (cd_end c)) g))" by simp
  then have "sorted (map cd_start (sort_key (\<lambda>c. span_key (cd_start c) (cd_end c)) g))"
    unfolding sorted_map by (rule sorted_wrt_mono_rel [rotated]) (auto simp: span_key_def)
  from merge_fold_from [OF _ this, of k s] assms show ?thesis by (simp add: merge_group_def merged_from_def)
qed

lemma merge_groups:
  "groups_ok gs \<Longrightarrow> foldl (merge_group s) [] (map snd gs) = concat (map (\<lambda>g. merge_group s [] (snd g)) gs)"
proof (induction gs rule: rev_induct)
  case (snoc g gs)
  have ok: "groups_ok gs" "\<forall>c \<in> set (snd g). cd_category c = fst g" "fst g \<notin> fst ` set gs"
    using snoc.prems by (auto simp: groups_ok_def)
  have "cd_category m \<noteq> fst g" if m: "m \<in> set (concat (map (\<lambda>g. merge_group s [] (snd g)) gs))" for m
  proof -
    obtain h where h: "h \<in> set gs" "m \<in> set (merge_group s [] (snd h))" using m by auto
    have "\<forall>c \<in> set (snd h). cd_category c = fst h \<and> cd_start c < cd_end c" using ok(1) h(1) by (auto simp: groups_ok_def)
    from merge_group_from [OF this] have "cd_category m = fst h" using h(2) by (simp add: merged_from_def)
    then have "cd_category m \<in> fst ` set gs" using imageI [OF h(1), of fst] by simp
    then show ?thesis using ok(3) by (intro notI) simp
  qed
  then have "merge_group s (concat (map (\<lambda>g. merge_group s [] (snd g)) gs)) (snd g) =
      concat (map (\<lambda>g. merge_group s [] (snd g)) gs) @ merge_group s [] (snd g)"
    by (intro merge_group_other [OF _ ok(2)] ballI)
  then show ?case unfolding map_append foldl_append snoc.IH [OF ok(1)] by simp
qed simp

lemma groups_of: "\<forall>c \<in> set cs. cd_start c < cd_end c \<Longrightarrow> groups_ok (by_category cs)"
  using by_category_distinct [of cs] by (auto simp: groups_ok_def dest!: by_category_mem)

text \<open>What the merged list holds: for each category, what its candidates merge to.\<close>

lemma merge_all_mem:
  assumes "\<forall>c \<in> set cs. cd_start c < cd_end c"
  shows "m \<in> set (merge_all s cs) \<longleftrightarrow>
    (\<exists>c \<in> set cs. m \<in> set (merge_group s [] (of_category (cd_category c) cs)))"
proof -
  have "m \<in> set (merge_all s cs) \<longleftrightarrow> (\<exists>g \<in> set (by_category cs). m \<in> set (merge_group s [] (snd g)))"
    by (simp add: merge_all_def merge_groups [OF groups_of [OF assms]])
  also have "\<dots> \<longleftrightarrow> (\<exists>c \<in> set cs. m \<in> set (merge_group s [] (of_category (cd_category c) cs)))"
  proof
    assume "\<exists>g \<in> set (by_category cs). m \<in> set (merge_group s [] (snd g))"
    then obtain k g where g: "(k, g) \<in> set (by_category cs)" "m \<in> set (merge_group s [] g)" by auto
    from by_category_mem [OF g(1)] obtain c where "c \<in> set cs" "cd_category c = k" "g = of_category k cs"
      by (auto simp: filter_empty_conv)
    then show "\<exists>c \<in> set cs. m \<in> set (merge_group s [] (of_category (cd_category c) cs))" using g(2) by auto
  next
    assume "\<exists>c \<in> set cs. m \<in> set (merge_group s [] (of_category (cd_category c) cs))"
    then obtain c where "c \<in> set cs" "m \<in> set (merge_group s [] (of_category (cd_category c) cs))" by blast
    then show "\<exists>g \<in> set (by_category cs). m \<in> set (merge_group s [] (snd g))"
      using by_category_covers by (intro bexI [of _ "(cd_category c, of_category (cd_category c) cs)"]) simp_all
  qed
  finally show ?thesis .
qed

lemma merge_all_from:
  assumes "\<forall>c \<in> set cs. cd_start c < cd_end c"
  shows "merged_from s k (of_category k cs) (merge_group s [] (of_category k cs))"
  using assms by (intro merge_group_from) auto

section \<open>What is left after fusion\<close>

interpretation fused: span_resolution cd_start cd_end resolve_step
  by unfold_locales (auto simp: resolve_step_def Let_def)

lemma merge_all_sorted: "sorted (map cd_start (merge_all s cs))"
  by (simp add: merge_all_def)

lemma merged_fromD:
  assumes "merged_from s k xs ms"
  shows "m \<in> set ms \<Longrightarrow> cd_category m = k" "m \<in> set ms \<Longrightarrow> cd_start m < cd_end m" "sorted_wrt cd_apart ms"
    "m \<in> set ms \<Longrightarrow> spans m x \<Longrightarrow> \<exists>c \<in> set xs. spans c x" "c \<in> set xs \<Longrightarrow> scored c \<Longrightarrow> \<exists>m \<in> set ms. stands_for m c"
    "\<forall>c \<in> set xs. cd_value c = str_slice s (cd_start c) (cd_end c) \<Longrightarrow> m \<in> set ms \<Longrightarrow> cd_value m = str_slice s (cd_start m) (cd_end m)"
  using assms unfolding merged_from_def by blast+

lemma merge_all_cases:
  assumes "\<forall>c \<in> set cs. cd_start c < cd_end c" "m \<in> set (merge_all s cs)"
  obtains k where "merged_from s k (of_category k cs) (merge_group s [] (of_category k cs))" "m \<in> set (merge_group s [] (of_category k cs))"
    "cd_category m = k" "cd_start m < cd_end m"
proof -
  note got = that
  obtain c :: "candidate" where c: "m \<in> set (merge_group s [] (of_category (cd_category c) cs))"
    using assms(2) unfolding merge_all_mem [OF assms(1)] by blast
  note merged = merge_all_from [OF assms(1), of s "cd_category c"]
  show ?thesis by (rule got [OF merged c merged_fromD(1,2) [OF merged c]])
qed

lemma merge_all_point:
  assumes "\<forall>c \<in> set cs. cd_start c < cd_end c" "m \<in> set (merge_all s cs)" "spans m x"
  shows "\<exists>c \<in> set cs. cd_category c = cd_category m \<and> spans c x"
proof (rule merge_all_cases [OF assms(1,2)])
  fix k assume k: "merged_from s k (of_category k cs) (merge_group s [] (of_category k cs))"
    "m \<in> set (merge_group s [] (of_category k cs))" "cd_category m = k"
  from merged_fromD(4) [OF k(1,2) assms(3)] show ?thesis unfolding k(3) by auto
qed

lemma merge_all_value:
  assumes "\<forall>c \<in> set cs. cd_start c < cd_end c" "\<forall>c \<in> set cs. cd_value c = str_slice s (cd_start c) (cd_end c)" "m \<in> set (merge_all s cs)"
  shows "cd_value m = str_slice s (cd_start m) (cd_end m)"
proof (rule merge_all_cases [OF assms(1,3)])
  fix k assume k: "merged_from s k (of_category k cs) (merge_group s [] (of_category k cs))" "m \<in> set (merge_group s [] (of_category k cs))"
  have "\<forall>c \<in> set (of_category k cs). cd_value c = str_slice s (cd_start c) (cd_end c)" using assms(2) by auto
  from merged_fromD(6) [OF k(1) this k(2)] show ?thesis .
qed

text \<open>Two merged candidates of one category are apart.\<close>

lemma merge_all_apart:
  assumes "\<forall>c \<in> set cs. cd_start c < cd_end c" "m \<in> set (merge_all s cs)" "n \<in> set (merge_all s cs)" "cd_category m = cd_category n"
  shows "n = m \<or> cd_end m \<le> cd_start n \<or> cd_end n \<le> cd_start m"
proof (rule merge_all_cases [OF assms(1,2)], rule merge_all_cases [OF assms(1,3)])
  fix k l assume a: "merged_from s k (of_category k cs) (merge_group s [] (of_category k cs))"
    "m \<in> set (merge_group s [] (of_category k cs))" "cd_category m = k"
    "n \<in> set (merge_group s [] (of_category l cs))" "cd_category n = l"
  have l: "l = k" using a(3,5) assms(4) by (simp only:)
  have "y = x \<or> R x y \<or> R y x" if "sorted_wrt R xs" "x \<in> set xs" "y \<in> set xs" for R x y and xs :: "candidate list"
    using that by (induction xs) auto
  from this [OF merged_fromD(3) [OF a(1)] a(2) a(4) [unfolded l]] show ?thesis .
qed

text \<open>
  What fusion gives lies apart, in order, each with at least the score asked for; each is a part of the text; and each of its
  positions was claimed, for its category, by a candidate.
\<close>

theorem fused_findings_are_claimed:
  assumes "\<forall>c \<in> set cs. cd_start c < cd_end c" "\<forall>c \<in> set cs. cd_value c = str_slice s (cd_start c) (cd_end c)"
  shows "sorted_wrt (\<lambda>a b. cd_end a \<le> cd_start b) (fuseCandidates s cs minConfidence) \<and>
    (\<forall>r \<in> set (fuseCandidates s cs minConfidence).
       minConfidence \<le> cd_baseScore r \<and> cd_value r = str_slice s (cd_start r) (cd_end r) \<and>
       (\<forall>x. cd_start r \<le> x \<and> x < cd_end r \<longrightarrow> (\<exists>c \<in> set cs. cd_category c = cd_category r \<and> cd_start c \<le> x \<and> x < cd_end c)))"
proof -
  let ?ms = "merge_all s cs"
  have proper: "\<forall>m \<in> set ?ms. cd_start m < cd_end m" using merge_all_cases [OF assms(1)] by blast
  note out = fused.resolution [OF proper merge_all_sorted]
  have sub: "set (fuseCandidates s cs minConfidence) \<subseteq> {r \<in> set ?ms. minConfidence \<le> cd_baseScore r}"
    using out by (auto simp: fuseCandidates_def)
  have "sorted_wrt (\<lambda>a b. cd_end a \<le> cd_start b) (fuseCandidates s cs minConfidence)"
    using conjunct1 [OF out] by (simp add: fuseCandidates_def sorted_wrt_filter)
  then show ?thesis
    using sub merge_all_value [OF assms] merge_all_point [OF assms(1), unfolded spans_def] by blast
qed

text \<open>
  C30: Detectors that agree never lose a finding. A candidate whose score is at most 0.999, where joint scores are cut off, and at
  least the confidence asked for, and whose category no candidate of another category touches, is in the result, under a
  span that holds its own and with a score at least its own.
\<close>

theorem agreement_never_lowers:
  assumes "\<forall>d \<in> set cs. cd_start d < cd_end d" "c \<in> set cs" "0 \<le> cd_baseScore c" "cd_baseScore c \<le> 999 / 1000"
    "minConfidence \<le> cd_baseScore c"
    "\<forall>a \<in> set cs. \<forall>b \<in> set cs. cd_category a = cd_category c \<and> cd_category b \<noteq> cd_category c \<longrightarrow> cd_end a \<le> cd_start b \<or> cd_end b \<le> cd_start a"
  shows "\<exists>r \<in> set (fuseCandidates s cs minConfidence).
    cd_category r = cd_category c \<and> cd_start r \<le> cd_start c \<and> cd_end c \<le> cd_end r \<and> cd_baseScore c \<le> cd_baseScore r"
proof -
  let ?ms = "merge_all s cs"
  have proper: "\<forall>m \<in> set ?ms. cd_start m < cd_end m" using merge_all_cases [OF assms(1)] by blast
  have "c \<in> set (of_category (cd_category c) cs)" "scored c" using assms(2-4) by (simp_all add: scored_def)
  then obtain m where m: "m \<in> set (merge_group s [] (of_category (cd_category c) cs))" "stands_for m c"
    using merged_fromD(5) [OF merge_all_from [OF assms(1), of s "cd_category c"]] by blast
  then have mem: "m \<in> set ?ms" using merge_all_mem [OF assms(1)] assms(2) by blast
  have "n = m \<or> cd_end m \<le> cd_start n \<or> cd_end n \<le> cd_start m" if n: "n \<in> set ?ms" for n
  proof (cases "cd_category n = cd_category m")
    case True
    then show ?thesis using merge_all_apart [OF assms(1) mem n] by simp
  next
    case False
    show ?thesis
    proof (rule ccontr)
      assume not: "\<not> ?thesis"
      let ?x = "max (cd_start m) (cd_start n)"
      have "spans m ?x" "spans n ?x" using not proper mem n by (auto simp: spans_def)
      then obtain a b where a: "a \<in> set cs" "cd_category a = cd_category m" "spans a ?x" and b: "b \<in> set cs" "cd_category b = cd_category n" "spans b ?x"
        using merge_all_point [OF assms(1) mem] merge_all_point [OF assms(1) n] by blast
      then have "cd_end a \<le> cd_start b \<or> cd_end b \<le> cd_start a" using assms(6) m(2) False by (simp add: stands_for_def)
      then show False using a(3) b(3) by (auto simp: spans_def)
    qed
  qed
  then have "m \<in> set (foldl resolve_step [] ?ms)" by (intro fused.untouched_kept mem proper merge_all_sorted) blast
  moreover have "minConfidence \<le> cd_baseScore m" using m(2) assms(5) by (simp add: stands_for_def)
  ultimately have "m \<in> set (fuseCandidates s cs minConfidence)" using assms(2) by (auto simp: fuseCandidates_def)
  then show ?thesis using m(2) by (auto simp: stands_for_def)
qed

definition cand :: "string \<Rightarrow> nat \<Rightarrow> nat \<Rightarrow> string \<Rightarrow> jsnum \<Rightarrow> pii_layer \<Rightarrow> candidate" where
  "cand category a b val score layer =
     \<lparr>cd_category = category, cd_start = a, cd_end = b, cd_value = val, cd_baseScore = score, cd_detector = layer, cd_severity = Medium,
      cd_label = category, cd_evidence = []\<rparr>"

theorem fused_findings_are_claimed_witness:
  "\<forall>r \<in> set (fuseCandidates ''abcdef'' [cand ''p'' 1 3 ''bc'' (2/5) LayerDictionary, cand ''p'' 2 4 ''cd'' (1/2) LayerNer, cand ''q'' 3 4 ''d'' (9/10) LayerPattern] (1/10)).
     cd_value r = str_slice ''abcdef'' (cd_start r) (cd_end r)"
proof -
  let ?s = "''abcdef''" and ?cs = "[cand ''p'' 1 3 ''bc'' (2/5) LayerDictionary, cand ''p'' 2 4 ''cd'' (1/2) LayerNer, cand ''q'' 3 4 ''d'' (9/10) LayerPattern]"
  have "\<forall>c \<in> set ?cs. cd_start c < cd_end c" "\<forall>c \<in> set ?cs. cd_value c = str_slice ?s (cd_start c) (cd_end c)"
    by (simp_all add: cand_def str_slice_def)
  from fused_findings_are_claimed [OF this] show ?thesis by blast
qed

theorem agreement_never_lowers_witness:
  "\<exists>r \<in> set (fuseCandidates ''abcdef'' [cand ''p'' 1 3 ''bc'' (2/5) LayerDictionary, cand ''p'' 2 4 ''cd'' (1/2) LayerNer] (1/2)).
     cd_category r = ''p'' \<and> cd_start r \<le> 2 \<and> 4 \<le> cd_end r \<and> 1/2 \<le> cd_baseScore r"
proof -
  let ?cs = "[cand ''p'' 1 3 ''bc'' (2/5) LayerDictionary, cand ''p'' 2 4 ''cd'' (1/2) LayerNer]" and ?c = "cand ''p'' 2 4 ''cd'' (1/2) LayerNer"
  have "\<forall>d \<in> set ?cs. cd_start d < cd_end d" "?c \<in> set ?cs" "0 \<le> cd_baseScore ?c" "cd_baseScore ?c \<le> 999 / 1000" "1 / 2 \<le> cd_baseScore ?c"
    "\<forall>a \<in> set ?cs. \<forall>b \<in> set ?cs. cd_category a = cd_category ?c \<and> cd_category b \<noteq> cd_category ?c \<longrightarrow> cd_end a \<le> cd_start b \<or> cd_end b \<le> cd_start a"
    by (simp_all add: cand_def)
  from agreement_never_lowers [OF this, of "''abcdef''"] show ?thesis by (simp add: cand_def)
qed

text \<open>
  A finding of a tenant's own pattern changes when the dictionary is on, though the dictionary finds nothing: it is said to come
  from the catalog, and it is masked by the strategy the catalog has for its category, not by the tag a custom pattern gets.
\<close>

definition staff_pattern :: custom_pattern where
  "staff_pattern = \<lparr>cp_id = ''p'', cp_categoryId = ''email'', cp_enabled = True, cp_languages = None, cp_severity = None, cp_label = ''staff'',
     cp_labels = Map.empty, cp_pattern = ''a@b''\<rparr>"

definition staff_env :: detector_env where
  "staff_env = \<lparr>env_fold = id, env_contextWords = (\<lambda>_. None), env_compile = (\<lambda>_. True),
     env_bounded = (\<lambda>p s budget. \<lparr>sw_matches = [(0, ''a@b'')], sw_timedOut = False, sw_hitCap = False, sw_elapsed = 1\<rparr>),
     env_maxPattern = 512, env_maxInput = 1000, env_budgetMs = 50\<rparr>"

definition staff_config :: detector_config where
  "staff_config = \<lparr>dc_builtins = [], dc_customs = [staff_pattern], dc_languages = None, dc_locale = ''en'', dc_contextBoost = None, dc_minConfidence = None\<rparr>"

definition email_mask :: "string \<Rightarrow> PiiMaskStrategy option" where
  "email_mask category = (if category = ''email'' then Some MaskKeepDomain else None)"

theorem fusion_relabels_custom_findings:
  "map (\<lambda>f. (f_source f, f_replacement f)) (fst (fst (detectAsync staff_env email_mask ''a@b'' staff_config ModePattern [] None ActMask None))) =
     [(Custom, ''[REDACTED_EMAIL]'')] \<and>
   map (\<lambda>f. (f_source f, f_replacement f)) (fst (fst (detectAsync staff_env email_mask ''a@b'' staff_config ModeDictionary [] None ActMask None))) =
     [(Builtin, ''*@b'')]"
  by code_simp

end
