(* ===== verification/UsageRollup.thy ===== *)
theory UsageRollup
  imports JsString
begin

text \<open>
  Accounting of usage: \<^verbatim>\<open>src/lib/services/usage/usageEvents.ts\<close> and \<^verbatim>\<open>usageRollup.ts\<close>, and the table behind them,
  \<^verbatim>\<open>src/lib/database/sqlite/usage.mixin.ts\<close>.

  Events are added up in memory, in a row for each tuple of dimensions, and flushed into a table of daily totals. A flush takes
  the whole buffer and then writes tenant by tenant; while it waits for the database further events arrive and further flushes
  begin, and the rows of a write that fails go back into the buffer. The buffer has a cap, beyond which events and rows are
  dropped. The serialization of metadata, the day and what the database answers are arguments.
\<close>

section \<open>Events\<close>

datatype UsageActorType = ActorUser | ActorApiToken | ActorSystem

datatype ModelUsageStatus = StSuccess | StError | StCancelled

definition actor_name :: "UsageActorType \<Rightarrow> string" where
  "actor_name a = (case a of ActorUser \<Rightarrow> ''user'' | ActorApiToken \<Rightarrow> ''api_token'' | ActorSystem \<Rightarrow> ''system'')"

definition sourceForActor :: "UsageActorType option \<Rightarrow> string option" where
  "sourceForActor actor =
     (case actor of
        Some ActorApiToken \<Rightarrow> Some ''api''
      | Some ActorUser \<Rightarrow> Some ''dashboard''
      | Some ActorSystem \<Rightarrow> Some ''system''
      | None \<Rightarrow> None)"

record UsageAttribution =
  at_userId :: "string option"
  at_apiTokenId :: "string option"
  at_actorType :: "UsageActorType option"
  at_requestId :: "string option"
  at_projectId :: "string option"
  at_via :: "string option"

definition no_attribution :: UsageAttribution where
  "no_attribution = \<lparr>at_userId = None, at_apiTokenId = None, at_actorType = None, at_requestId = None, at_projectId = None, at_via = None\<rparr>"

text \<open>Explicit values first, then those of the ambient request.\<close>

definition resolveUsageAttribution :: "UsageAttribution option \<Rightarrow> UsageAttribution option \<Rightarrow> UsageAttribution" where
  "resolveUsageAttribution overrides ctx =
     (let p = nullish overrides no_attribution; c = nullish ctx no_attribution in
      \<lparr>at_userId = opt_or (at_userId p) (at_userId c), at_apiTokenId = opt_or (at_apiTokenId p) (at_apiTokenId c),
       at_actorType = opt_or (at_actorType p) (at_actorType c), at_requestId = opt_or (at_requestId p) (at_requestId c),
       at_projectId = opt_or (at_projectId p) (at_projectId c), at_via = opt_or (at_via p) (at_via c)\<rparr>)"

record usage_event =
  ev_tenantDbName :: string
  ev_tenantId :: string
  ev_projectId :: "string option"
  ev_service :: string
  ev_refKey :: "string option"
  ev_agentKey :: "string option"
  ev_metadata :: "(string, string) jsmap option"
  ev_source :: "string option"
  ev_status :: "ModelUsageStatus option"
  ev_latencyMs :: "jsnum option"
  ev_latencySamples :: "jsnum option"
  ev_inputTokens :: "jsnum option"
  ev_outputTokens :: "jsnum option"
  ev_cachedInputTokens :: "jsnum option"
  ev_cachedWriteTokens :: "jsnum option"
  ev_reasoningTokens :: "jsnum option"
  ev_totalTokens :: "jsnum option"
  ev_costUsd :: "jsnum option"
  ev_units :: "(string, jsnum) jsmap option"
  ev_attribution :: "UsageAttribution option"

text \<open>The order of \<^verbatim>\<open>localeCompare\<close> and the serialization.\<close>

record usage_world =
  uw_sorted :: "(string \<times> string) list \<Rightarrow> (string \<times> string) list"
  uw_stringify :: "(string \<times> string) list \<Rightarrow> string"

definition canonicalMetadataKey :: "usage_world \<Rightarrow> (string, string) jsmap option \<Rightarrow> string" where
  "canonicalMetadataKey w metadata =
     (case metadata of
        None \<Rightarrow> []
      | Some m \<Rightarrow>
          let entries = filter (\<lambda>(key, _). key \<noteq> []) m
          in if entries = [] then [] else uw_stringify w (uw_sorted w entries))"

section \<open>Rows\<close>

datatype usage_counter =
  Requests | Errors | InputTokens | OutputTokens | CachedInputTokens | CachedWriteTokens | ReasoningTokens | TotalTokens | CostUsd
| LatencyMsSum | LatencyCount

record usage_dims =
  ud_tenantId :: string
  ud_projectId :: string
  ud_userId :: string
  ud_apiTokenId :: string
  ud_actorType :: string
  ud_source :: string
  ud_service :: string
  ud_refKey :: string
  ud_agentKey :: string
  ud_metadataKey :: string
  ud_day :: string

record usage_row =
  ur_dims :: usage_dims
  ur_metadata :: "(string, string) jsmap"
  ur_counters :: "usage_counter \<Rightarrow> jsnum"
  ur_units :: "(string, jsnum) jsmap"

definition usage_key :: "usage_dims \<Rightarrow> string" where
  "usage_key d =
     js_join [CHR 0x00] [ud_projectId d, ud_userId d, ud_apiTokenId d, ud_source d, ud_service d, ud_refKey d, ud_agentKey d,
       ud_metadataKey d, ud_day d]"

definition event_dims :: "usage_world \<Rightarrow> usage_event \<Rightarrow> UsageAttribution \<Rightarrow> string \<Rightarrow> usage_dims" where
  "event_dims w event attribution day =
     \<lparr>ud_tenantId = ev_tenantId event,
      ud_projectId = nullish (opt_or (ev_projectId event) (at_projectId attribution)) [],
      ud_userId = nullish (at_userId attribution) [],
      ud_apiTokenId = nullish (at_apiTokenId attribution) [],
      ud_actorType = (case at_actorType attribution of None \<Rightarrow> [] | Some a \<Rightarrow> actor_name a),
      ud_source = nullish (opt_or (ev_source event) (sourceForActor (at_actorType attribution))) [],
      ud_service = ev_service event,
      ud_refKey = nullish (ev_refKey event) [],
      ud_agentKey = nullish (ev_agentKey event) [],
      ud_metadataKey = canonicalMetadataKey w (ev_metadata event),
      ud_day = day\<rparr>"

definition event_counter :: "usage_event \<Rightarrow> usage_counter \<Rightarrow> jsnum" where
  "event_counter event f =
     (case f of
        Requests \<Rightarrow> 1
      | Errors \<Rightarrow> if ev_status event = Some StError then 1 else 0
      | InputTokens \<Rightarrow> nullish (ev_inputTokens event) 0
      | OutputTokens \<Rightarrow> nullish (ev_outputTokens event) 0
      | CachedInputTokens \<Rightarrow> nullish (ev_cachedInputTokens event) 0
      | CachedWriteTokens \<Rightarrow> nullish (ev_cachedWriteTokens event) 0
      | ReasoningTokens \<Rightarrow> nullish (ev_reasoningTokens event) 0
      | TotalTokens \<Rightarrow> nullish (ev_totalTokens event) 0
      | CostUsd \<Rightarrow> nullish (ev_costUsd event) 0
      | LatencyMsSum \<Rightarrow> nullish (ev_latencyMs event) 0
      | LatencyCount \<Rightarrow> (case ev_latencyMs event of None \<Rightarrow> 0 | Some _ \<Rightarrow> max 1 (math_round (nullish (ev_latencySamples event) 1))))"

definition add_unit :: "string \<times> jsnum \<Rightarrow> (string, jsnum) jsmap \<Rightarrow> (string, jsnum) jsmap" where
  "add_unit e units = map_set units (fst e) (nullish (map_get units (fst e)) 0 + snd e)"

definition nonzero_units :: "(string, jsnum) jsmap \<Rightarrow> (string, jsnum) jsmap" where
  "nonzero_units units = filter (\<lambda>(_, v). v \<noteq> 0) units"

definition new_row :: "usage_dims \<Rightarrow> usage_event \<Rightarrow> usage_row" where
  "new_row dims event = \<lparr>ur_dims = dims, ur_metadata = nullish (ev_metadata event) [], ur_counters = (\<lambda>_. 0), ur_units = []\<rparr>"

definition count_event :: "usage_event \<Rightarrow> usage_row \<Rightarrow> usage_row" where
  "count_event event row =
     row\<lparr>ur_counters := (\<lambda>f. ur_counters row f + event_counter event f),
         ur_units := fold add_unit (nonzero_units (nullish (ev_units event) [])) (ur_units row)\<rparr>"

section \<open>The buffer\<close>

definition MAX_BUFFERED_ROWS :: nat where
  "MAX_BUFFERED_ROWS = 50000"

record usage_state =
  buffer :: "(string, (string, usage_row) jsmap) jsmap"
  bufferedRowCount :: nat

definition bufferUsageIncrement :: "usage_world \<Rightarrow> usage_event \<Rightarrow> UsageAttribution \<Rightarrow> string \<Rightarrow> usage_state \<Rightarrow> usage_state" where
  "bufferUsageIncrement w event attribution day s =
     (if bufferedRowCount s \<ge> MAX_BUFFERED_ROWS then s
      else
        let dims = event_dims w event attribution day;
            key = usage_key dims;
            tenantRows = nullish (map_get (buffer s) (ev_tenantDbName event)) [];
            (row, added) = (case map_get tenantRows key of Some row \<Rightarrow> (row, 0) | None \<Rightarrow> (new_row dims event, 1))
        in \<lparr>buffer = map_set (buffer s) (ev_tenantDbName event) (map_set tenantRows key (count_event event row)),
            bufferedRowCount = bufferedRowCount s + added\<rparr>)"

definition recordUsageEvent :: "usage_world \<Rightarrow> usage_event \<Rightarrow> UsageAttribution option \<Rightarrow> string \<Rightarrow> usage_state \<Rightarrow> UsageAttribution \<times> usage_state" where
  "recordUsageEvent w event ctx day s =
     (let attribution = resolveUsageAttribution (ev_attribution event) ctx
      in (attribution, bufferUsageIncrement w event attribution day s))"

definition merge_row :: "usage_row \<Rightarrow> usage_row \<Rightarrow> usage_row" where
  "merge_row existing row =
     existing\<lparr>ur_counters := (\<lambda>f. ur_counters existing f + ur_counters row f),
              ur_units := fold add_unit (ur_units row) (ur_units existing)\<rparr>"

fun rebuffer :: "string \<Rightarrow> usage_row list \<Rightarrow> usage_state \<Rightarrow> usage_state" where
  "rebuffer db [] s = s"
| "rebuffer db (row # rows) s =
     (if bufferedRowCount s \<ge> MAX_BUFFERED_ROWS then s
      else
        let tenantRows = nullish (map_get (buffer s) db) [];
            key = usage_key (ur_dims row)
        in rebuffer db rows
             (case map_get tenantRows key of
                Some existing \<Rightarrow> s\<lparr>buffer := map_set (buffer s) db (map_set tenantRows key (merge_row existing row))\<rparr>
              | None \<Rightarrow> \<lparr>buffer = map_set (buffer s) db (map_set tenantRows key row), bufferedRowCount = bufferedRowCount s + 1\<rparr>))"

section \<open>The table\<close>

text \<open>Rows are found by all their dimensions but the type of the actor. Ids and time stamps are left out.\<close>

definition same_dims :: "usage_dims \<Rightarrow> usage_dims \<Rightarrow> bool" where
  "same_dims a b \<longleftrightarrow> a\<lparr>ud_actorType := []\<rparr> = b\<lparr>ud_actorType := []\<rparr>"

definition update_row :: "usage_row \<Rightarrow> usage_row \<Rightarrow> usage_row" where
  "update_row existing row =
     existing\<lparr>ur_counters := (\<lambda>f. ur_counters existing f + ur_counters row f),
              ur_units := fold add_unit (nonzero_units (ur_units row)) (ur_units existing)\<rparr>"

fun upsert_row :: "usage_row list \<Rightarrow> usage_row \<Rightarrow> usage_row list" where
  "upsert_row [] row = [row]"
| "upsert_row (x # xs) row = (if same_dims (ur_dims x) (ur_dims row) then update_row x row # xs else x # upsert_row xs row)"

definition incrementUsageDaily :: "usage_row list \<Rightarrow> usage_row list \<Rightarrow> usage_row list" where
  "incrementUsageDaily rows table = foldl upsert_row table rows"

section \<open>Runs\<close>

text \<open>
  A flush under way is the list of the batches it has still to write. \<open>Flushes up\<close> is the moment when the flush has the
  database, or learns that there is none; \<open>Writes i ok\<close> is the end of the write of the next batch of the \<open>i\<close>-th flush. A write
  is one transaction: it applies all its rows or none.
\<close>

datatype usage_action =
  Records usage_event "UsageAttribution option" string
| Flushes bool
| Writes nat bool

record usage_run =
  run_usage :: usage_state
  run_tables :: "string \<Rightarrow> usage_row list"
  run_flushes :: "(string \<times> usage_row list) list list"

definition take_buffer :: "usage_state \<Rightarrow> (string \<times> usage_row list) list" where
  "take_buffer s = map (\<lambda>(db, rows). (db, map snd rows)) (buffer s)"

definition perform :: "usage_world \<Rightarrow> usage_action \<Rightarrow> usage_run \<Rightarrow> usage_run" where
  "perform w a r =
     (case a of
        Records event ctx day \<Rightarrow> r\<lparr>run_usage := snd (recordUsageEvent w event ctx day (run_usage r))\<rparr>
      | Flushes up \<Rightarrow>
          if buffer (run_usage r) = [] \<or> \<not> up then r
          else r\<lparr>run_usage := \<lparr>buffer = [], bufferedRowCount = 0\<rparr>, run_flushes := run_flushes r @ [take_buffer (run_usage r)]\<rparr>
      | Writes i ok \<Rightarrow>
          if i < length (run_flushes r) then
            (case run_flushes r ! i of
               [] \<Rightarrow> r
             | (db, rows) # rest \<Rightarrow>
                 let r = r\<lparr>run_flushes := (run_flushes r)[i := rest]\<rparr>
                 in if ok then r\<lparr>run_tables := (run_tables r)(db := incrementUsageDaily rows (run_tables r db))\<rparr>
                    else r\<lparr>run_usage := rebuffer db rows (run_usage r)\<rparr>)
          else r)"

section \<open>What is where\<close>

text \<open>The sum of a weight over the entries of a map, and what writing an entry does to it.\<close>

definition weigh :: "('k \<Rightarrow> 'v \<Rightarrow> 'w::ab_group_add) \<Rightarrow> ('k, 'v) jsmap \<Rightarrow> 'w" where
  "weigh g m = sum_list (map (\<lambda>(k, v). g k v) m)"

lemma weigh_simps [simp]: "weigh g [] = 0" "weigh g (e # m) = g (fst e) (snd e) + weigh g m" "weigh g (m @ n) = weigh g m + weigh g n"
  by (simp_all add: weigh_def case_prod_unfold)

lemma weigh_set: "weigh g (map_set m k v) = weigh g m + g k v - (case map_get m k of None \<Rightarrow> 0 | Some u \<Rightarrow> g k u)"
  by (induction m) (auto split: option.splits)

datatype usage_measure = Counted usage_counter | InUnit string

definition unit_sum :: "string \<Rightarrow> (string, jsnum) jsmap \<Rightarrow> jsnum" where
  "unit_sum u units = weigh (\<lambda>k v. if k = u then v else 0) units"

definition amount :: "usage_measure \<Rightarrow> usage_row \<Rightarrow> jsnum" where
  "amount m row = (case m of Counted f \<Rightarrow> ur_counters row f | InUnit u \<Rightarrow> unit_sum u (ur_units row))"

definition event_amount :: "usage_measure \<Rightarrow> usage_event \<Rightarrow> jsnum" where
  "event_amount m event = (case m of Counted f \<Rightarrow> event_counter event f | InUnit u \<Rightarrow> unit_sum u (nullish (ev_units event) []))"

lemma unit_sum_simps [simp]: "unit_sum u [] = 0" "unit_sum u (e # es) = (if fst e = u then snd e else 0) + unit_sum u es"
  by (simp_all add: unit_sum_def)

lemma unit_sum_add: "unit_sum u (add_unit e units) = unit_sum u units + (if fst e = u then snd e else 0)"
  by (simp add: unit_sum_def add_unit_def weigh_set split: option.splits)

lemma unit_sum_fold: "unit_sum u (fold add_unit es units) = unit_sum u units + unit_sum u es"
  by (induction es arbitrary: units) (simp_all add: unit_sum_add)

lemma unit_sum_nonzero: "unit_sum u (nonzero_units units) = unit_sum u units"
  by (induction units) (auto simp: nonzero_units_def)

lemma amount_merge: "amount m (merge_row a b) = amount m a + amount m b" "amount m (update_row a b) = amount m a + amount m b"
  by (simp_all add: amount_def merge_row_def update_row_def unit_sum_fold unit_sum_nonzero split: usage_measure.split)

lemma amount_count: "amount m (count_event event row) = amount m row + event_amount m event"
  by (simp add: amount_def event_amount_def count_event_def unit_sum_fold unit_sum_nonzero split: usage_measure.split)

lemma amount_new: "amount m (new_row dims event) = 0"
  by (simp add: amount_def new_row_def unit_sum_def split: usage_measure.split)

lemma dims_simps [simp]:
  "ur_dims (merge_row a b) = ur_dims a" "ur_dims (update_row a b) = ur_dims a" "ur_dims (count_event event row) = ur_dims row"
  "ur_dims (new_row dims event) = dims"
  by (simp_all add: merge_row_def update_row_def count_event_def new_row_def)

definition row_at :: "usage_measure \<Rightarrow> string \<Rightarrow> usage_row \<Rightarrow> jsnum" where
  "row_at m key row = (if usage_key (ur_dims row) = key then amount m row else 0)"

definition held :: "usage_measure \<Rightarrow> string \<Rightarrow> usage_row list \<Rightarrow> jsnum" where
  "held m key rows = sum_list (map (row_at m key) rows)"

lemma held_simps [simp]: "held m key [] = 0" "held m key (row # rows) = row_at m key row + held m key rows"
  by (simp_all add: held_def)

lemma held_upsert: "held m key (upsert_row table row) = held m key table + row_at m key row"
proof (induction table row rule: upsert_row.induct)
  case (2 x xs row)
  have "usage_key (ur_dims x) = usage_key (ur_dims row)" if "same_dims (ur_dims x) (ur_dims row)"
    using that by (cases "ur_dims x"; cases "ur_dims row") (simp add: same_dims_def usage_key_def)
  then show ?case using 2 by (auto simp: row_at_def amount_merge)
qed simp

lemma held_increment: "held m key (incrementUsageDaily rows table) = held m key table + held m key rows"
  unfolding incrementUsageDaily_def by (induction rows arbitrary: table) (simp_all add: held_upsert)

definition in_buffer :: "usage_measure \<Rightarrow> string \<Rightarrow> string \<Rightarrow> usage_state \<Rightarrow> jsnum" where
  "in_buffer m db key s = weigh (\<lambda>d rows. if d = db then weigh (\<lambda>_. row_at m key) rows else 0) (buffer s)"

definition in_batches :: "usage_measure \<Rightarrow> string \<Rightarrow> string \<Rightarrow> (string \<times> usage_row list) list \<Rightarrow> jsnum" where
  "in_batches m db key batches = weigh (\<lambda>d rows. if d = db then held m key rows else 0) batches"

definition in_flight :: "usage_measure \<Rightarrow> string \<Rightarrow> string \<Rightarrow> usage_run \<Rightarrow> jsnum" where
  "in_flight m db key r = sum_list (map (in_batches m db key) (run_flushes r))"

definition in_table :: "usage_measure \<Rightarrow> string \<Rightarrow> string \<Rightarrow> usage_run \<Rightarrow> jsnum" where
  "in_table m db key r = held m key (run_tables r db)"

definition buffered_rows :: "usage_state \<Rightarrow> int" where
  "buffered_rows s = weigh (\<lambda>_ rows. int (length rows)) (buffer s)"

definition buffer_ok :: "usage_state \<Rightarrow> bool" where
  "buffer_ok s \<longleftrightarrow> int (bufferedRowCount s) = buffered_rows s \<and> bufferedRowCount s \<le> MAX_BUFFERED_ROWS \<and>
     (\<forall>(d, rows) \<in> set (buffer s). \<forall>(key, row) \<in> set rows. key = usage_key (ur_dims row))"

text \<open>Writing one row of one tenant.\<close>

definition put_row :: "string \<Rightarrow> usage_row \<Rightarrow> usage_state \<Rightarrow> usage_state" where
  "put_row db row s =
     (let tenantRows = nullish (map_get (buffer s) db) []; key = usage_key (ur_dims row) in
      \<lparr>buffer = map_set (buffer s) db (map_set tenantRows key row),
       bufferedRowCount = bufferedRowCount s + (if map_get tenantRows key = None then 1 else 0)\<rparr>)"

definition old_row :: "string \<Rightarrow> string \<Rightarrow> usage_state \<Rightarrow> usage_row option" where
  "old_row db key s = map_get (nullish (map_get (buffer s) db) []) key"

lemma old_row_key: "buffer_ok s \<Longrightarrow> old_row db key s = Some row \<Longrightarrow> usage_key (ur_dims row) = key"
  by (auto simp: old_row_def buffer_ok_def nullish_def split: option.splits dest!: map_of_SomeD)

lemma in_buffer_put:
  "in_buffer m d key (put_row db row s) =
     in_buffer m d key s + (if d = db then row_at m key row - (case old_row db (usage_key (ur_dims row)) s of None \<Rightarrow> 0 | Some old \<Rightarrow> row_at m key old) else 0)"
  by (simp add: in_buffer_def put_row_def Let_def weigh_set old_row_def nullish_def split: option.split)

lemma rows_of_map_set: "int (length (map_set m k v)) = int (length m) + (if map_get m k = None then 1 else 0)"
  by (induction m) auto

lemma buffered_rows_put: "buffered_rows (put_row db row s) =
    buffered_rows s + (if old_row db (usage_key (ur_dims row)) s = None then 1 else 0)"
  by (simp add: buffered_rows_def put_row_def Let_def weigh_set old_row_def nullish_def rows_of_map_set split: option.split)

lemma buffer_ok_put:
  assumes "buffer_ok s" "bufferedRowCount s < MAX_BUFFERED_ROWS"
  shows "buffer_ok (put_row db row s)"
proof -
  have "int (bufferedRowCount (put_row db row s)) = buffered_rows (put_row db row s)"
    using assms(1) unfolding buffered_rows_put by (simp add: buffer_ok_def put_row_def Let_def old_row_def)
  moreover have "bufferedRowCount (put_row db row s) \<le> MAX_BUFFERED_ROWS" using assms(2) by (simp add: put_row_def Let_def)
  moreover have "k = usage_key (ur_dims x)" if d: "(d, rows) \<in> set (buffer (put_row db row s))" and k: "(k, x) \<in> set rows" for d rows k x
  proof -
    let ?rows = "nullish (map_get (buffer s) db) []"
    have old: "(\<forall>(key, row) \<in> set rows. key = usage_key (ur_dims row))" if "(d, rows) \<in> set (buffer s)" for d rows
      using assms(1) that by (auto simp: buffer_ok_def)
    have "(d, rows) = (db, map_set ?rows (usage_key (ur_dims row)) row) \<or> (d, rows) \<in> set (buffer s)"
      using d set_map_set [where m = "buffer s" and k = db] by (auto simp: put_row_def Let_def)
    moreover have "\<forall>(key, row) \<in> set ?rows. key = usage_key (ur_dims row)"
    proof (cases "map_get (buffer s) db")
      case (Some rows)
      from old [OF map_of_SomeD [OF this]] show ?thesis using Some by simp
    qed simp
    ultimately show ?thesis using k old set_map_set [where m = ?rows and k = "usage_key (ur_dims row)" and v = row] by fastforce
  qed
  ultimately show ?thesis unfolding buffer_ok_def by blast
qed

text \<open>Both ways into the buffer write one row.\<close>

lemma buffer_puts:
  assumes "buffer_ok s" "bufferedRowCount s < MAX_BUFFERED_ROWS"
  shows "bufferUsageIncrement w event attribution day s =
    put_row (ev_tenantDbName event)
      (count_event event (nullish (old_row (ev_tenantDbName event) (usage_key (event_dims w event attribution day)) s)
        (new_row (event_dims w event attribution day) event))) s"
proof (cases "old_row (ev_tenantDbName event) (usage_key (event_dims w event attribution day)) s")
  case None
  then show ?thesis using assms(2) by (simp add: bufferUsageIncrement_def put_row_def old_row_def Let_def)
next
  case (Some row)
  then show ?thesis using assms old_row_key [OF assms(1) Some] by (simp add: bufferUsageIncrement_def put_row_def old_row_def Let_def)
qed

lemma rebuffer_puts:
  assumes "buffer_ok s" "bufferedRowCount s < MAX_BUFFERED_ROWS"
  shows "rebuffer db (row # rows) s =
    rebuffer db rows (put_row db (case old_row db (usage_key (ur_dims row)) s of None \<Rightarrow> row | Some old \<Rightarrow> merge_row old row) s)"
proof (cases "old_row db (usage_key (ur_dims row)) s")
  case None
  then show ?thesis using assms(2) by (simp add: put_row_def old_row_def Let_def)
next
  case (Some old)
  have "s\<lparr>buffer := b\<rparr> = \<lparr>buffer = b, bufferedRowCount = bufferedRowCount s\<rparr>" for b by (cases s) simp
  note this [simp]
  show ?thesis using Some assms(2) old_row_key [OF assms(1) Some] by (simp add: put_row_def old_row_def Let_def)
qed

section \<open>Nothing is lost\<close>

lemma buffer_effect:
  assumes "buffer_ok s" "bufferedRowCount s < MAX_BUFFERED_ROWS"
  shows "buffer_ok (bufferUsageIncrement w event attribution day s)"
    and "in_buffer m db key (bufferUsageIncrement w event attribution day s) = in_buffer m db key s +
      (if ev_tenantDbName event = db \<and> usage_key (event_dims w event attribution day) = key then event_amount m event else 0)"
    and "buffered_rows (bufferUsageIncrement w event attribution day s) \<le> buffered_rows s + 1"
proof -
  let ?k = "usage_key (event_dims w event attribution day)"
  let ?old = "old_row (ev_tenantDbName event) ?k s"
  let ?row = "nullish ?old (new_row (event_dims w event attribution day) event)"
  have key: "usage_key (ur_dims ?row) = ?k" using old_row_key [OF assms(1)] by (cases ?old) simp_all
  note put = buffer_puts [OF assms, of w event attribution day]
  show "buffer_ok (bufferUsageIncrement w event attribution day s)" unfolding put by (rule buffer_ok_put [OF assms])
  show "buffered_rows (bufferUsageIncrement w event attribution day s) \<le> buffered_rows s + 1" unfolding put buffered_rows_put by simp
  have E: "row_at m key (count_event event ?row) = (case ?old of None \<Rightarrow> 0 | Some r \<Rightarrow> row_at m key r) + (if ?k = key then event_amount m event else 0)"
    using key by (cases ?old) (simp_all add: row_at_def amount_count amount_new)
  show "in_buffer m db key (bufferUsageIncrement w event attribution day s) = in_buffer m db key s +
      (if ev_tenantDbName event = db \<and> ?k = key then event_amount m event else 0)"
    unfolding put in_buffer_put dims_simps key E by simp
qed

definition merged_in :: "string \<Rightarrow> usage_row \<Rightarrow> usage_state \<Rightarrow> usage_row" where
  "merged_in db row s = (case old_row db (usage_key (ur_dims row)) s of None \<Rightarrow> row | Some old \<Rightarrow> merge_row old row)"

lemma merged_in_key: "buffer_ok s \<Longrightarrow> usage_key (ur_dims (merged_in db row s)) = usage_key (ur_dims row)"
  using old_row_key [of s db "usage_key (ur_dims row)"] by (auto simp: merged_in_def split: option.split)

lemma merged_in_put:
  assumes "buffer_ok s"
  shows "in_buffer m d key (put_row db (merged_in db row s) s) = in_buffer m d key s + (if d = db then row_at m key row else 0)"
proof (cases "old_row db (usage_key (ur_dims row)) s")
  case None
  then show ?thesis unfolding in_buffer_put merged_in_key [OF assms] None by (simp add: merged_in_def None)
next
  case (Some old)
  have "row_at m key (merge_row old row) = row_at m key old + row_at m key row"
    using old_row_key [OF assms Some] by (simp add: row_at_def amount_merge)
  then show ?thesis unfolding in_buffer_put merged_in_key [OF assms] Some by (simp add: merged_in_def Some)
qed

lemma rebuffer_ok: "buffer_ok s \<Longrightarrow> buffer_ok (rebuffer db rows s)"
proof (induction rows arbitrary: s)
  case (Cons row rows)
  show ?case
  proof (cases "bufferedRowCount s < MAX_BUFFERED_ROWS")
    case True
    show ?thesis unfolding rebuffer_puts [OF Cons.prems True] using Cons.IH buffer_ok_put [OF Cons.prems True] by blast
  qed (use Cons.prems in simp)
qed simp

lemma rebuffer_effect:
  assumes "buffer_ok s" "buffered_rows s + int (length rows) \<le> int MAX_BUFFERED_ROWS"
  shows "in_buffer m d key (rebuffer db rows s) = in_buffer m d key s + (if d = db then held m key rows else 0)
    \<and> buffered_rows (rebuffer db rows s) \<le> buffered_rows s + int (length rows)"
  using assms
proof (induction rows arbitrary: s)
  case (Cons row rows)
  have room: "bufferedRowCount s < MAX_BUFFERED_ROWS" using Cons.prems by (simp add: buffer_ok_def)
  let ?s = "put_row db (merged_in db row s) s"
  have ok: "buffer_ok ?s" by (rule buffer_ok_put [OF Cons.prems(1) room])
  have rows: "buffered_rows ?s \<le> buffered_rows s + 1" unfolding buffered_rows_put by simp
  have re: "rebuffer db (row # rows) s = rebuffer db rows ?s"
    using rebuffer_puts [OF Cons.prems(1) room] by (simp only: merged_in_def)
  have "buffered_rows ?s + int (length rows) \<le> int MAX_BUFFERED_ROWS" using rows Cons.prems(2) by simp
  note IH = Cons.IH [OF ok this]
  show ?case unfolding re using IH rows by (simp add: merged_in_put [OF Cons.prems(1)])
qed simp

definition flight_rows :: "usage_run \<Rightarrow> int" where
  "flight_rows r = sum_list (map (weigh (\<lambda>_ rows. int (length rows))) (run_flushes r))"

definition everywhere :: "usage_measure \<Rightarrow> string \<Rightarrow> string \<Rightarrow> usage_run \<Rightarrow> jsnum" where
  "everywhere m db key r = in_table m db key r + in_flight m db key r + in_buffer m db key (run_usage r)"

definition offered :: "usage_world \<Rightarrow> usage_measure \<Rightarrow> string \<Rightarrow> string \<Rightarrow> usage_action \<Rightarrow> jsnum" where
  "offered w m db key a =
     (case a of
        Records event ctx day \<Rightarrow>
          if ev_tenantDbName event = db \<and> usage_key (event_dims w event (resolveUsageAttribution (ev_attribution event) ctx) day) = key
          then event_amount m event else 0
      | _ \<Rightarrow> 0)"

definition is_record :: "usage_action \<Rightarrow> bool" where
  "is_record a \<longleftrightarrow> (case a of Records _ _ _ \<Rightarrow> True | _ \<Rightarrow> False)"

definition run_ok :: "int \<Rightarrow> usage_run \<Rightarrow> bool" where
  "run_ok n r \<longleftrightarrow> buffer_ok (run_usage r) \<and> buffered_rows (run_usage r) + flight_rows r \<le> n"

lemma sum_list_upd:
  fixes f :: "'a \<Rightarrow> 'w::ab_group_add"
  shows "i < length xs \<Longrightarrow> sum_list (map f (xs[i := x])) = sum_list (map f xs) - f (xs ! i) + f x"
  by (induction xs arbitrary: i) (auto simp: nth_Cons' split: nat.split)

lemma weigh_nonneg: "(\<And>k v. 0 \<le> g k v) \<Longrightarrow> (0::int) \<le> weigh g m"
  by (induction m) (simp_all add: add_nonneg_nonneg)

lemma take_buffer_sums:
  "in_batches m db key (take_buffer s) = in_buffer m db key s"
  "weigh (\<lambda>_ rows. int (length rows)) (take_buffer s) = buffered_rows s"
proof -
  have held: "held m key (map snd rows) = weigh (\<lambda>_. row_at m key) rows" for rows by (induction rows) simp_all
  have "weigh (\<lambda>d rows. if d = db then held m key rows else 0) (map (\<lambda>(db, rows). (db, map snd rows)) b) =
      weigh (\<lambda>d rows. if d = db then weigh (\<lambda>_. row_at m key) rows else 0) b" for b
    by (induction b) (simp_all add: held case_prod_unfold)
  then show "in_batches m db key (take_buffer s) = in_buffer m db key s" by (simp only: in_batches_def take_buffer_def in_buffer_def)
  show "weigh (\<lambda>_ rows. int (length rows)) (take_buffer s) = buffered_rows s"
    by (simp add: take_buffer_def buffered_rows_def weigh_def case_prod_unfold comp_def)
qed

lemma perform_step:
  assumes "run_ok n r" "n + (if is_record a then 1 else 0) \<le> int MAX_BUFFERED_ROWS"
  shows "run_ok (n + (if is_record a then 1 else 0)) (perform w a r) \<and> everywhere m db key (perform w a r) = everywhere m db key r + offered w m db key a"
proof (cases a)
  case (Records event ctx day)
  have ok: "buffer_ok (run_usage r)" "buffered_rows (run_usage r) + flight_rows r \<le> n" using assms(1) by (simp_all add: run_ok_def)
  have "0 \<le> flight_rows r" unfolding flight_rows_def by (rule sum_list_nonneg) (auto intro: weigh_nonneg)
  then have "bufferedRowCount (run_usage r) < MAX_BUFFERED_ROWS" using ok assms(2) by (simp add: buffer_ok_def Records is_record_def)
  note effect = buffer_effect [OF ok(1) this]
  let ?att = "resolveUsageAttribution (ev_attribution event) ctx"
  let ?s = "bufferUsageIncrement w event ?att day (run_usage r)"
  have step: "perform w a r = r\<lparr>run_usage := ?s\<rparr>" by (simp add: Records perform_def recordUsageEvent_def Let_def)
  have "flight_rows (r\<lparr>run_usage := ?s\<rparr>) = flight_rows r" "in_flight m db key (r\<lparr>run_usage := ?s\<rparr>) = in_flight m db key r"
    by (simp_all add: flight_rows_def in_flight_def)
  then show ?thesis
    using effect(1) [of w event ?att day] effect(2) [of m db key w event ?att day] effect(3) [of w event ?att day] ok(2)
    unfolding step run_ok_def everywhere_def by (simp add: Records is_record_def in_table_def offered_def)
next
  case (Flushes up)
  have "buffer_ok \<lparr>buffer = [], bufferedRowCount = 0\<rparr>" by (simp add: buffer_ok_def buffered_rows_def)
  moreover have "in_buffer m db key \<lparr>buffer = [], bufferedRowCount = 0\<rparr> = 0" "buffered_rows \<lparr>buffer = [], bufferedRowCount = 0\<rparr> = 0"
    by (simp_all add: in_buffer_def buffered_rows_def)
  ultimately show ?thesis
    using assms(1) by (simp add: Flushes is_record_def perform_def run_ok_def everywhere_def in_table_def in_flight_def flight_rows_def
        take_buffer_sums offered_def)
next
  case (Writes i ok)
  show ?thesis
  proof (cases "i < length (run_flushes r) \<and> run_flushes r ! i \<noteq> []")
    case False
    then have "perform w a r = r" by (auto simp: Writes perform_def split: list.split)
    then show ?thesis using assms(1) by (simp add: Writes is_record_def offered_def)
  next
    case True
    then obtain d rows rest where batch: "i < length (run_flushes r)" "run_flushes r ! i = (d, rows) # rest" by (cases "run_flushes r ! i") auto
    let ?r = "r\<lparr>run_flushes := (run_flushes r)[i := rest]\<rparr>"
    have flight: "in_flight m db key ?r = in_flight m db key r - (if d = db then held m key rows else 0)"
      "flight_rows ?r = flight_rows r - int (length rows)"
      by (simp_all add: in_flight_def flight_rows_def sum_list_upd [OF batch(1)] batch(2) in_batches_def)
    have inv: "buffer_ok (run_usage r)" "buffered_rows (run_usage r) + flight_rows r \<le> n" using assms(1) by (simp_all add: run_ok_def)
    have "0 \<le> flight_rows ?r" unfolding flight_rows_def by (rule sum_list_nonneg) (auto intro: weigh_nonneg)
    then have room: "buffered_rows (run_usage r) + int (length rows) \<le> int MAX_BUFFERED_ROWS"
      using flight(2) inv(2) assms(2) by (simp add: Writes is_record_def)
    note returned = rebuffer_effect [OF inv(1) room, of m db key d]
    show ?thesis
    proof (cases ok)
      case True
      then have "perform w a r = ?r\<lparr>run_tables := (run_tables r)(d := incrementUsageDaily rows (run_tables r d))\<rparr>"
        using batch by (simp add: Writes perform_def Let_def)
      moreover have "in_flight m db key (?r\<lparr>run_tables := t\<rparr>) = in_flight m db key ?r" "flight_rows (?r\<lparr>run_tables := t\<rparr>) = flight_rows ?r" for t
        by (simp_all add: in_flight_def flight_rows_def)
      ultimately show ?thesis
        using inv flight by (simp add: Writes is_record_def run_ok_def everywhere_def in_table_def held_increment offered_def)
    next
      case False
      then have "perform w a r = ?r\<lparr>run_usage := rebuffer d rows (run_usage r)\<rparr>" using batch by (simp add: Writes perform_def Let_def)
      moreover have "in_flight m db key (?r\<lparr>run_usage := t\<rparr>) = in_flight m db key ?r" "flight_rows (?r\<lparr>run_usage := t\<rparr>) = flight_rows ?r" for t
        by (simp_all add: in_flight_def flight_rows_def)
      ultimately show ?thesis
        using inv flight returned rebuffer_ok [OF inv(1), of d rows]
        by (simp add: Writes is_record_def run_ok_def everywhere_def in_table_def offered_def)
    qed
  qed
qed

definition clean :: "usage_run \<Rightarrow> bool" where
  "clean r \<longleftrightarrow> run_usage r = \<lparr>buffer = [], bufferedRowCount = 0\<rparr> \<and> run_flushes r = []"

lemma clean_ok: "clean r \<Longrightarrow> run_ok 0 r \<and> everywhere m db key r = in_table m db key r"
  by (simp add: clean_def run_ok_def buffer_ok_def buffered_rows_def flight_rows_def everywhere_def in_flight_def in_buffer_def)

lemma perform_run:
  assumes "run_ok n r" "n + int (length (filter is_record acts)) \<le> int MAX_BUFFERED_ROWS"
  shows "everywhere m db key (fold (perform w) acts r) = everywhere m db key r + sum_list (map (offered w m db key) acts)"
  using assms
proof (induction acts arbitrary: n r)
  case (Cons a acts)
  have "n + (if is_record a then 1 else 0) \<le> int MAX_BUFFERED_ROWS" using Cons.prems(2) by (simp split: if_splits)
  note step = perform_step [OF Cons.prems(1) this, of w m db key]
  have "n + (if is_record a then 1 else 0) + int (length (filter is_record acts)) \<le> int MAX_BUFFERED_ROWS"
    using Cons.prems(2) by (simp split: if_splits)
  from Cons.IH [OF conjunct1 [OF step] this] step show ?case by simp
qed simp

text \<open>
  C15: Usage is conserved while nothing is dropped. From a process that has just started, and with at most as many events in the
  whole run as the buffer has rows (50,000; beyond that the code drops events and rows), whatever flushes begin, overlap, fail or find no database: for each tenant, each tuple of dimensions and each counter or unit, what the
  table holds, what flushes have still to write and what is buffered add up to what the table held and what was recorded.
\<close>

theorem usage_is_conserved:
  assumes "clean r" "length (filter is_record acts) \<le> MAX_BUFFERED_ROWS" "r' = fold (perform w) acts r"
  shows "in_table m db key r' + in_flight m db key r' + in_buffer m db key (run_usage r') =
    in_table m db key r + sum_list (map (offered w m db key) acts)"
proof -
  have ok: "run_ok 0 r" and start: "everywhere m db key r = in_table m db key r" using clean_ok [OF assms(1)] by blast+
  have "0 + int (length (filter is_record acts)) \<le> int MAX_BUFFERED_ROWS" using assms(2) by simp
  from perform_run [OF ok this, of m db key w] show ?thesis unfolding assms(3) start by (simp add: everywhere_def)
qed

lemma perform_buffer_ok: "buffer_ok (run_usage r) \<Longrightarrow> buffer_ok (run_usage (perform w a r))"
proof -
  assume ok: "buffer_ok (run_usage r)"
  have "buffer_ok (bufferUsageIncrement w event attribution day (run_usage r))" for event attribution day
  proof (cases "bufferedRowCount (run_usage r) < MAX_BUFFERED_ROWS")
    case True
    then show ?thesis by (rule buffer_effect(1) [OF ok])
  qed (use ok in \<open>simp add: bufferUsageIncrement_def\<close>)
  moreover have "buffer_ok \<lparr>buffer = [], bufferedRowCount = 0\<rparr>" by (simp add: buffer_ok_def buffered_rows_def)
  ultimately show ?thesis
    using ok rebuffer_ok [OF ok]
    by (cases a) (auto simp: perform_def recordUsageEvent_def Let_def split: list.split)
qed

text \<open>
  The count of the buffer is the number of its rows and never exceeds the cap, however events, flushes and failures follow;
  and each row stands under the key of its own dimensions.
\<close>

theorem usage_buffer_is_counted:
  assumes "clean r" "r' = fold (perform w) acts r"
  shows "int (bufferedRowCount (run_usage r')) = buffered_rows (run_usage r') \<and> bufferedRowCount (run_usage r') \<le> MAX_BUFFERED_ROWS \<and>
    (\<forall>(d, rows) \<in> set (buffer (run_usage r')). \<forall>(key, row) \<in> set rows. key = usage_key (ur_dims row))"
proof -
  have "buffer_ok (run_usage (fold (perform w) acts q))" if "buffer_ok (run_usage q)" for q
    using that by (induction acts arbitrary: q) (simp_all add: perform_buffer_ok)
  moreover have "buffer_ok (run_usage r)" using conjunct1 [OF clean_ok [OF assms(1)]] by (simp add: run_ok_def)
  ultimately have "buffer_ok (run_usage r')" unfolding assms(2) by blast
  then show ?thesis unfolding buffer_ok_def .
qed

definition call :: "string \<Rightarrow> usage_event" where
  "call service =
     \<lparr>ev_tenantDbName = ''acme'', ev_tenantId = ''t'', ev_projectId = None, ev_service = service, ev_refKey = None, ev_agentKey = None,
      ev_metadata = None, ev_source = None, ev_status = None, ev_latencyMs = None, ev_latencySamples = None, ev_inputTokens = Some 7,
      ev_outputTokens = None, ev_cachedInputTokens = None, ev_cachedWriteTokens = None, ev_reasoningTokens = None, ev_totalTokens = None,
      ev_costUsd = None, ev_units = Some [(''pages'', 2)], ev_attribution = None\<rparr>"

definition plain_world :: usage_world where
  "plain_world = \<lparr>uw_sorted = (\<lambda>es. es), uw_stringify = (\<lambda>_. [])\<rparr>"

definition started :: usage_run where
  "started = \<lparr>run_usage = \<lparr>buffer = [], bufferedRowCount = 0\<rparr>, run_tables = (\<lambda>_. []), run_flushes = []\<rparr>"

definition busy :: "usage_action list" where
  "busy = [Records (call ''mcp'') None ''d'', Flushes True, Records (call ''mcp'') None ''d'', Writes 0 False, Flushes True, Writes 1 True]"

lemma started_clean: "clean started"
  by (simp add: clean_def started_def)

theorem usage_is_conserved_witness:
  "let r = fold (perform plain_world) busy started; key = usage_key (event_dims plain_world (call ''mcp'') no_attribution ''d'') in
     in_table (Counted InputTokens) ''acme'' key r + in_flight (Counted InputTokens) ''acme'' key r
       + in_buffer (Counted InputTokens) ''acme'' key (run_usage r) = 14"
proof -
  let ?key = "usage_key (event_dims plain_world (call ''mcp'') no_attribution ''d'')"
  have "length (filter is_record busy) \<le> MAX_BUFFERED_ROWS" by (simp add: busy_def is_record_def MAX_BUFFERED_ROWS_def)
  from usage_is_conserved [OF started_clean this refl, of "Counted InputTokens" "''acme''" ?key plain_world]
  show ?thesis
    by (simp add: busy_def offered_def call_def resolveUsageAttribution_def no_attribution_def event_amount_def event_counter_def
        in_table_def started_def)
qed

theorem usage_buffer_is_counted_witness:
  "let s = run_usage (fold (perform plain_world) busy started) in int (bufferedRowCount s) = buffered_rows s"
  using usage_buffer_is_counted [OF started_clean refl, of plain_world busy] by (simp add: Let_def)

text \<open>
  And when the flushes have gone through, the table holds what was recorded: here one row, after a write that failed, with the
  sums of both events.
\<close>

theorem retried_usage_reaches_the_table:
  "let r = fold (perform plain_world) busy started in
     map (\<lambda>row. (ur_counters row Requests, ur_counters row InputTokens, ur_units row)) (run_tables r ''acme'') = [(2, 14, [(''pages'', 4)])]
     \<and> buffer (run_usage r) = []"
  by (simp add: busy_def perform_def started_def recordUsageEvent_def bufferUsageIncrement_def Let_def MAX_BUFFERED_ROWS_def
      take_buffer_def call_def event_dims_def resolveUsageAttribution_def no_attribution_def canonicalMetadataKey_def sourceForActor_def
      usage_key_def new_row_def count_event_def event_counter_def nonzero_units_def add_unit_def merge_row_def incrementUsageDaily_def)

end
