(* ===== verification/BrowserLimiter.thy ===== *)
theory BrowserLimiter
  imports Prelude
begin

text \<open>
  The limit on concurrent browsers of a tenant: \<^verbatim>\<open>src/lib/services/browser/concurrency.ts\<close>.

  A pool per tenant counts permits and queues those that wait. A caller gets a permit at once when there is one, or waits until a
  permit is released to it, its timer fires or the limiter shuts down. Each call runs to its end before the next, so a run is
  a sequence of actions; calls are numbered in the order they arrive.
\<close>

section \<open>The limiter\<close>

type_synonym ticket = nat

type_synonym handle = nat

text \<open>A waiter is its call; the flag tells whether it has a timer.\<close>

record TenantPool =
  permits :: nat
  pool_max :: nat
  pool_queue :: "(ticket \<times> bool) list"

datatype acquire_outcome = Granted handle | TimedOut | ShuttingDown

record limiter =
  pools :: "(string, TenantPool) jsmap"
  handles :: "(handle \<times> string) list"
  made :: nat
  outcomes :: "(ticket \<times> acquire_outcome) list"
  arrivals :: nat

text \<open>\<open>handles\<close> are the handles given out and not released; each releases once.\<close>

definition getPool :: "string \<Rightarrow> nat \<Rightarrow> limiter \<Rightarrow> TenantPool" where
  "getPool tenantId limit s =
     (case map_get (pools s) tenantId of
        None \<Rightarrow> \<lparr>permits = 0, pool_max = limit, pool_queue = []\<rparr>
      | Some pool \<Rightarrow> pool\<lparr>pool_max := limit\<rparr>)"

definition set_pool :: "string \<Rightarrow> TenantPool \<Rightarrow> limiter \<Rightarrow> limiter" where
  "set_pool tenantId pool s = s\<lparr>pools := map_set (pools s) tenantId pool\<rparr>"

definition grant :: "string \<Rightarrow> TenantPool \<Rightarrow> ticket \<Rightarrow> limiter \<Rightarrow> limiter" where
  "grant tenantId pool ticket s =
     set_pool tenantId (pool\<lparr>permits := permits pool + 1\<rparr>)
       (s\<lparr>handles := (made s, tenantId) # handles s, made := made s + 1, outcomes := outcomes s @ [(ticket, Granted (made s))]\<rparr>)"

definition effective_max :: "nat \<Rightarrow> nat option \<Rightarrow> nat" where
  "effective_max defaultMax limit = (case limit of Some m \<Rightarrow> if m > 0 then m else defaultMax | None \<Rightarrow> defaultMax)"

definition acquire :: "nat \<Rightarrow> string \<Rightarrow> nat option \<Rightarrow> jsnum option \<Rightarrow> limiter \<Rightarrow> limiter" where
  "acquire defaultMax tenantId limit timeoutMs s =
     (let ticket = arrivals s;
          pool = getPool tenantId (effective_max defaultMax limit) s;
          s = s\<lparr>arrivals := ticket + 1\<rparr>
      in if permits pool < pool_max pool then grant tenantId pool ticket s
         else set_pool tenantId (pool\<lparr>pool_queue := pool_queue pool @ [(ticket, nullish timeoutMs 60000 > 0)]\<rparr>) s)"

definition release :: "handle \<Rightarrow> limiter \<Rightarrow> limiter" where
  "release h s =
     (case map_get (handles s) h of
        None \<Rightarrow> s
      | Some tenantId \<Rightarrow>
          let s = s\<lparr>handles := map_delete (handles s) h\<rparr>
          in case map_get (pools s) tenantId of
               None \<Rightarrow> s
             | Some pool \<Rightarrow>
                 let pool = pool\<lparr>permits := permits pool - 1\<rparr>
                 in case pool_queue pool of
                      [] \<Rightarrow> set_pool tenantId pool s
                    | (waiter, _) # rest \<Rightarrow> grant tenantId (pool\<lparr>pool_queue := rest\<rparr>) waiter s)"

text \<open>The timer of a waiter: it only exists while the waiter is queued.\<close>

definition wait_ends :: "string \<Rightarrow> ticket \<Rightarrow> limiter \<Rightarrow> limiter" where
  "wait_ends tenantId ticket s =
     (case map_get (pools s) tenantId of
        None \<Rightarrow> s
      | Some pool \<Rightarrow>
          if (ticket, True) \<in> set (pool_queue pool)
          then set_pool tenantId (pool\<lparr>pool_queue := remove1 (ticket, True) (pool_queue pool)\<rparr>)
                 (s\<lparr>outcomes := outcomes s @ [(ticket, TimedOut)]\<rparr>)
          else s)"

definition inUse :: "string \<Rightarrow> limiter \<Rightarrow> nat" where
  "inUse tenantId s = (case map_get (pools s) tenantId of None \<Rightarrow> 0 | Some pool \<Rightarrow> permits pool)"

definition shutdown :: "limiter \<Rightarrow> limiter" where
  "shutdown s =
     s\<lparr>outcomes := outcomes s @ concat (map (\<lambda>(_, pool). map (\<lambda>(ticket, _). (ticket, ShuttingDown)) (pool_queue pool)) (pools s)),
       pools := []\<rparr>"

definition idle :: limiter where
  "idle = \<lparr>pools = [], handles = [], made = 0, outcomes = [], arrivals = 0\<rparr>"

datatype limiter_action =
  Acquire string "nat option" "jsnum option"
| Release handle
| TimerFires string ticket
| Shutdown

fun act :: "nat \<Rightarrow> limiter_action \<Rightarrow> limiter \<Rightarrow> limiter" where
  "act defaultMax (Acquire tenantId limit timeoutMs) s = acquire defaultMax tenantId limit timeoutMs s"
| "act defaultMax (Release h) s = release h s"
| "act defaultMax (TimerFires tenantId ticket) s = wait_ends tenantId ticket s"
| "act defaultMax Shutdown s = shutdown s"

section \<open>Permits and handles\<close>

definition held_by :: "string \<Rightarrow> limiter \<Rightarrow> nat" where
  "held_by t s = length (filter (\<lambda>(_, t'). t' = t) (handles s))"

definition waiting_for :: "string \<Rightarrow> limiter \<Rightarrow> (ticket \<times> bool) list" where
  "waiting_for t s = (case map_get (pools s) t of None \<Rightarrow> [] | Some pool \<Rightarrow> pool_queue pool)"

text \<open>The limits that a run asks for lie between two bounds, and it does not shut down.\<close>

fun limits_within :: "nat \<Rightarrow> nat \<Rightarrow> nat \<Rightarrow> string \<Rightarrow> limiter_action \<Rightarrow> bool" where
  "limits_within defaultMax lo hi t (Acquire tenantId limit _) =
     (tenantId = t \<longrightarrow> lo \<le> effective_max defaultMax limit \<and> effective_max defaultMax limit \<le> hi)"
| "limits_within defaultMax lo hi t Shutdown = False"
| "limits_within defaultMax lo hi t _ = True"

definition handles_ok :: "limiter \<Rightarrow> bool" where
  "handles_ok s \<longleftrightarrow> distinct (map fst (handles s)) \<and> (\<forall>x \<in> set (handles s). fst x < made s)"

definition limiter_ok :: "nat \<Rightarrow> nat \<Rightarrow> string \<Rightarrow> limiter \<Rightarrow> bool" where
  "limiter_ok lo hi t s \<longleftrightarrow> handles_ok s \<and> held_by t s = inUse t s \<and> inUse t s \<le> hi \<and> (waiting_for t s \<noteq> [] \<longrightarrow> lo \<le> inUse t s)"

text \<open>A tenant's part of the state, and what each change does to it.\<close>

lemma set_pool_simps [simp]:
  "inUse t (set_pool t' pool s) = (if t' = t then permits pool else inUse t s)"
  "waiting_for t (set_pool t' pool s) = (if t' = t then pool_queue pool else waiting_for t s)"
  "held_by t (set_pool t' pool s) = held_by t s" "handles_ok (set_pool t' pool s) = handles_ok s" "handles (set_pool t' pool s) = handles s"
  by (simp_all add: set_pool_def inUse_def waiting_for_def held_by_def handles_ok_def)

lemma field_simps_limiter [simp]:
  "inUse t (s\<lparr>handles := hs\<rparr>) = inUse t s" "inUse t (s\<lparr>made := m\<rparr>) = inUse t s" "inUse t (s\<lparr>outcomes := os\<rparr>) = inUse t s" "inUse t (s\<lparr>arrivals := n\<rparr>) = inUse t s"
  "waiting_for t (s\<lparr>handles := hs\<rparr>) = waiting_for t s" "waiting_for t (s\<lparr>made := m\<rparr>) = waiting_for t s"
  "waiting_for t (s\<lparr>outcomes := os\<rparr>) = waiting_for t s" "waiting_for t (s\<lparr>arrivals := n\<rparr>) = waiting_for t s"
  "held_by t (s\<lparr>made := m\<rparr>) = held_by t s" "held_by t (s\<lparr>outcomes := os\<rparr>) = held_by t s" "held_by t (s\<lparr>arrivals := n\<rparr>) = held_by t s"
  "handles_ok (s\<lparr>outcomes := os\<rparr>) = handles_ok s" "handles_ok (s\<lparr>arrivals := n\<rparr>) = handles_ok s"
  by (simp_all add: inUse_def waiting_for_def held_by_def handles_ok_def)

lemma grant_effect:
  "inUse t (grant t' pool ticket s) = (if t' = t then permits pool + 1 else inUse t s)"
  "waiting_for t (grant t' pool ticket s) = (if t' = t then pool_queue pool else waiting_for t s)"
  "held_by t (grant t' pool ticket s) = held_by t s + (if t' = t then 1 else 0)"
  "handles_ok s \<Longrightarrow> handles_ok (grant t' pool ticket s)"
  by (auto simp: grant_def) (auto simp: held_by_def handles_ok_def less_Suc_eq)

lemma getPool_simps [simp]:
  "permits (getPool t limit s) = inUse t s" "pool_queue (getPool t limit s) = waiting_for t s" "pool_max (getPool t limit s) = limit"
  by (simp_all add: getPool_def inUse_def waiting_for_def split: option.split)

lemma acquire_ok:
  assumes "limiter_ok lo hi t s" "limits_within d lo hi t (Acquire t' limit timeoutMs)"
  shows "limiter_ok lo hi t (acquire d t' limit timeoutMs s)"
  using assms by (auto simp: limiter_ok_def acquire_def Let_def grant_effect)

lemma drop_handle:
  assumes "handles_ok s" "map_get (handles s) h = Some t'"
  shows "handles_ok (s\<lparr>handles := map_delete (handles s) h\<rparr>)"
    and "held_by t (s\<lparr>handles := map_delete (handles s) h\<rparr>) + (if t' = t then 1 else 0) = held_by t s"
proof -
  show "handles_ok (s\<lparr>handles := map_delete (handles s) h\<rparr>)"
    using assms(1) by (auto simp: handles_ok_def map_delete_distinct set_map_delete)
  have "distinct (map fst (handles s))" using assms(1) by (simp add: handles_ok_def)
  from mset_map_delete [OF this assms(2)]
  have "size (filter_mset (\<lambda>x. snd x = t) (mset (handles s))) = size (filter_mset (\<lambda>x. snd x = t) (add_mset (h, t') (mset (map_delete (handles s) h))))"
    by simp
  then show "held_by t (s\<lparr>handles := map_delete (handles s) h\<rparr>) + (if t' = t then 1 else 0) = held_by t s"
    by (simp add: held_by_def case_prod_unfold flip: size_mset mset_filter)
qed

lemma release_ok:
  assumes "limiter_ok lo hi t s"
  shows "limiter_ok lo hi t (release h s)"
proof (cases "map_get (handles s) h")
  case None
  then show ?thesis using assms by (simp add: release_def)
next
  case (Some t')
  let ?s = "s\<lparr>handles := map_delete (handles s) h\<rparr>"
  have ok: "handles_ok s" "held_by t s = inUse t s" "inUse t s \<le> hi" "waiting_for t s \<noteq> [] \<longrightarrow> lo \<le> inUse t s"
    using assms by (simp_all add: limiter_ok_def)
  note dropped = drop_handle [OF ok(1) Some]
  show ?thesis
  proof (cases "map_get (pools s) t'")
    case None
    then have "t' = t \<Longrightarrow> inUse t s = 0" by (simp add: inUse_def)
    then have "t' \<noteq> t" using dropped(2) [of t] ok(2) by auto
    then show ?thesis using Some None ok dropped(1) dropped(2) [of t] by (simp add: release_def Let_def limiter_ok_def)
  next
    case (Some pool)
    then have pool: "t' = t \<Longrightarrow> inUse t s = permits pool \<and> waiting_for t s = pool_queue pool" by (auto simp: inUse_def waiting_for_def)
    have one: "t' = t \<Longrightarrow> 0 < permits pool" using dropped(2) [of t] ok(2) pool by auto
    show ?thesis
    proof (cases "pool_queue pool")
      case Nil
      then have "release h s = set_pool t' (pool\<lparr>permits := permits pool - 1\<rparr>) ?s"
        using Some \<open>map_get (handles s) h = Some t'\<close> by (simp add: release_def Let_def)
      then show ?thesis using ok dropped(1) dropped(2) [of t] pool one Nil by (cases "t' = t") (auto simp: limiter_ok_def)
    next
      case (Cons w rest)
      then have "release h s = grant t' (pool\<lparr>permits := permits pool - 1, pool_queue := rest\<rparr>) (fst w) ?s"
        using Some \<open>map_get (handles s) h = Some t'\<close> by (cases w) (simp add: release_def Let_def)
      then show ?thesis using ok dropped(1) dropped(2) [of t] pool one Cons by (cases "t' = t") (auto simp: limiter_ok_def grant_effect)
    qed
  qed
qed

lemma wait_ends_ok: "limiter_ok lo hi t s \<Longrightarrow> limiter_ok lo hi t (wait_ends t' ticket s)"
  by (auto simp: wait_ends_def limiter_ok_def split: option.split) (auto simp: inUse_def waiting_for_def)

lemma run_limits: "limiter_ok lo hi t s \<Longrightarrow> list_all (limits_within d lo hi t) acts \<Longrightarrow> limiter_ok lo hi t (fold (act d) acts s)"
proof (induction acts arbitrary: s)
  case (Cons a acts)
  then have "limiter_ok lo hi t (act d a s)" using acquire_ok release_ok wait_ends_ok by (cases a) auto
  then show ?case using Cons by simp
qed simp

text \<open>
  C39: While the limiter runs, the permits of a tenant are its handles that are not released, never more than the highest limit asked
  for; and nobody waits while fewer than the lowest limit are held, so no permit is forgotten.
\<close>

theorem browsers_stay_within_limits:
  assumes "list_all (limits_within defaultMax lo hi t) acts" "s = fold (act defaultMax) acts idle"
  shows "held_by t s = inUse t s \<and> held_by t s \<le> hi \<and> (waiting_for t s \<noteq> [] \<longrightarrow> lo \<le> held_by t s)"
proof -
  have "limiter_ok lo hi t idle" by (simp add: limiter_ok_def idle_def handles_ok_def held_by_def inUse_def waiting_for_def)
  from run_limits [OF this assms(1)] show ?thesis unfolding assms(2) [symmetric] by (simp add: limiter_ok_def)
qed

theorem browsers_stay_within_limits_witness:
  "let s = fold (act 2) [Acquire ''a'' None None, Acquire ''a'' None (Some 5), Acquire ''a'' (Some 2) None, TimerFires ''a'' 1, Release 0] idle in
     held_by ''a'' s \<le> 2"
proof -
  let ?acts = "[Acquire ''a'' None None, Acquire ''a'' None (Some 5), Acquire ''a'' (Some 2) None, TimerFires ''a'' 1, Release 0]"
  have "list_all (limits_within 2 2 2 ''a'') ?acts" by (simp add: effective_max_def)
  from browsers_stay_within_limits [OF this refl, THEN conjunct2, THEN conjunct1] show ?thesis unfolding Let_def .
qed

text \<open>
  A shutdown forgets the permits but not the handles. One that is released afterwards frees a permit it does not hold, so that
  a tenant with a limit of one has two browsers.
\<close>

theorem old_handle_frees_a_new_permit:
  "let s = fold (act 1) [Acquire ''a'' None None, Shutdown, Acquire ''a'' None None, Release 0, Acquire ''a'' None None] idle in
     map fst (handles s) = [2, 1] \<and> inUse ''a'' s = 1"
  by code_simp

text \<open>
  C0: A limit that is lowered is not enforced while callers wait, since a released permit goes to the next of them; and one that is
  raised does not let those in who wait already, but later callers overtake them.
\<close>

theorem changed_limit_reaches_no_waiter:
  "let s = fold (act 2) [Acquire ''a'' None None, Acquire ''a'' None None, Acquire ''a'' (Some 1) None, Release 0] idle in
     inUse ''a'' s = 2 \<and> map_option pool_max (map_get (pools s) ''a'') = Some 1"
  "let s = fold (act 1) [Acquire ''a'' None None, Acquire ''a'' None None, Acquire ''a'' (Some 3) None] idle in
     outcomes s = [(0, Granted 0), (2, Granted 1)] \<and> waiting_for ''a'' s = [(1, True)]"
  by code_simp+

text \<open>A timeout of zero, which is documented to mean no wait, waits without end: no timer can end it.\<close>

theorem zero_timeout_waits:
  assumes "effective_max defaultMax limit \<le> inUse t s"
  shows "outcomes (acquire defaultMax t limit (Some 0) s) = outcomes s \<and>
    last (waiting_for t (acquire defaultMax t limit (Some 0) s)) = (arrivals s, False)"
  using assms by (simp add: acquire_def Let_def) (simp add: set_pool_def)

end
