(* ===== verification/SessionBudget.thy ===== *)
theory SessionBudget
  imports Prelude
begin

text \<open>
  The spend budget of an agent session: \<^verbatim>\<open>src/lib/services/agents/sessionBudget.ts\<close> and
  \<^verbatim>\<open>sessionBudgetService.ts\<close>, with the statement of \<^verbatim>\<open>src/lib/database/sqlite/agent.mixin.ts\<close> that adds to the
  stored total and the order in which \<^verbatim>\<open>agentService.ts\<close> persists a turn and adds its spend.

  A session spends over many turns. A turn is planned against what is left, is settled by what it cost, and its cost joins
  a total in the database, by one statement, so that turns may overlap. A client may change the budget within what the
  administrator of the agent allows.
\<close>

section \<open>Budgets as they are written\<close>

text \<open>A value of unknown type: what a request or a stored setting holds.\<close>

datatype raw_value = RawNumber js_float | RawString string | RawOther

record raw_budget =
  rb_maxCostUsd :: "raw_value option"
  rb_max_cost_usd :: "raw_value option"
  rb_onReach :: "raw_value option"
  rb_on_reach :: "raw_value option"

datatype budget_value = NotAnObject | BudgetObject raw_budget

datatype on_reach = ReachPause | ReachStop

record IAgentSessionBudget =
  maxCostUsd :: jsnum
  onReach :: on_reach

datatype BudgetProblem = MustBeAnObject | MaxMustBePositive | OnReachUnknown

definition parseSessionBudget :: "budget_value \<Rightarrow> BudgetProblem + IAgentSessionBudget" where
  "parseSessionBudget v =
     (case v of
        NotAnObject \<Rightarrow> Inl MustBeAnObject
      | BudgetObject rb \<Rightarrow>
          (case opt_or (rb_maxCostUsd rb) (rb_max_cost_usd rb) of
             Some (RawNumber (Finite m)) \<Rightarrow>
               if m \<le> 0 then Inl MaxMustBePositive
               else
                 let reach = nullish (opt_or (rb_onReach rb) (rb_on_reach rb)) (RawString ''pause'')
                 in if reach = RawString ''pause'' then Inr \<lparr>maxCostUsd = m, onReach = ReachPause\<rparr>
                    else if reach = RawString ''stop'' then Inr \<lparr>maxCostUsd = m, onReach = ReachStop\<rparr>
                    else Inl OnReachUnknown
           | _ \<Rightarrow> Inl MaxMustBePositive))"

text \<open>A budget as it is stored.\<close>

definition stored_budget :: "IAgentSessionBudget \<Rightarrow> budget_value" where
  "stored_budget b =
     BudgetObject \<lparr>rb_maxCostUsd = Some (RawNumber (Finite (maxCostUsd b))), rb_max_cost_usd = None,
       rb_onReach = Some (RawString (case onReach b of ReachPause \<Rightarrow> ''pause'' | ReachStop \<Rightarrow> ''stop'')), rb_on_reach = None\<rparr>"

definition parsed_budget :: "budget_value option \<Rightarrow> IAgentSessionBudget option" where
  "parsed_budget v =
     (case v of
        None \<Rightarrow> None
      | Some b \<Rightarrow> (case parseSessionBudget b of Inr budget \<Rightarrow> Some budget | Inl _ \<Rightarrow> None))"

text \<open>The budget setting of an agent.\<close>

record agent_budget =
  ab_budget :: budget_value
  ab_allowClientOverride :: bool

definition agentSessionBudget :: "agent_budget option \<Rightarrow> IAgentSessionBudget option" where
  "agentSessionBudget config = parsed_budget (map_option ab_budget config)"

datatype budget_violation = CannotRemove | CannotRaisePast jsnum

definition clientBudgetViolation ::
  "agent_budget option \<Rightarrow> IAgentSessionBudget option \<Rightarrow> IAgentSessionBudget option \<Rightarrow> budget_violation option" where
  "clientBudgetViolation config requested current =
     (if (case config of Some c \<Rightarrow> ab_allowClientOverride c | None \<Rightarrow> False) then None
      else
        (case agentSessionBudget config of
           None \<Rightarrow> None
         | Some admin \<Rightarrow>
             let limit = max (maxCostUsd admin) (case current of Some c \<Rightarrow> maxCostUsd c | None \<Rightarrow> 0)
             in case requested of
                  None \<Rightarrow> Some CannotRemove
                | Some r \<Rightarrow> if maxCostUsd r > limit then Some (CannotRaisePast limit) else None))"

section \<open>Sessions\<close>

definition roundUsd :: "jsnum \<Rightarrow> jsnum" where
  "roundUsd v = math_round (v * 100000000) / 100000000"

text \<open>A message: whether it is the assistant's, and what its turn cost.\<close>

record conversation =
  cv_budget :: "budget_value option"
  cv_spentUsd :: "js_float option"
  cv_messages :: "(bool \<times> jsnum option) list"
  cv_runtimeStatus :: string
  cv_stopReason :: string

definition activeSessionBudget :: "conversation \<Rightarrow> IAgentSessionBudget option" where
  "activeSessionBudget c = parsed_budget (cv_budget c)"

definition summed_usd :: "(bool \<times> jsnum option) list \<Rightarrow> jsnum" where
  "summed_usd messages = foldl (\<lambda>sum (assistant, cost). if assistant then sum + nullish cost 0 else sum) 0 messages"

definition stored_usd :: "conversation \<Rightarrow> jsnum" where
  "stored_usd c = (case cv_spentUsd c of Some (Finite v) \<Rightarrow> v | _ \<Rightarrow> 0)"

definition sessionSpentUsd :: "conversation \<Rightarrow> jsnum" where
  "sessionSpentUsd c = roundUsd (max (stored_usd c) (summed_usd (cv_messages c)))"

definition withSessionSpend :: "conversation \<Rightarrow> conversation" where
  "withSessionSpend c =
     (if activeSessionBudget c = None then c else c\<lparr>cv_spentUsd := Some (Finite (sessionSpentUsd c))\<rparr>)"

record SessionSpendAccount =
  spentBefore :: jsnum
  accountedUsd :: jsnum

definition startSessionSpendAccount :: "conversation \<Rightarrow> SessionSpendAccount" where
  "startSessionSpendAccount c = \<lparr>spentBefore = sessionSpentUsd c, accountedUsd = 0\<rparr>"

record SessionBudgetPlan =
  plan_account :: SessionSpendAccount
  plan_budget :: IAgentSessionBudget
  plan_remaining :: jsnum
  turnCapUsd :: jsnum
  sessionBinds :: bool

datatype AgentBudgetReachedError = AgentBudgetReachedError jsnum jsnum

definition planSessionBudget :: "conversation \<Rightarrow> jsnum option \<Rightarrow> AgentBudgetReachedError + SessionBudgetPlan option" where
  "planSessionBudget c perTurnMax =
     (case activeSessionBudget c of
        None \<Rightarrow> Inr None
      | Some budget \<Rightarrow>
          let spent = sessionSpentUsd c; left = roundUsd (maxCostUsd budget - spent)
          in if left \<le> 0 then Inl (AgentBudgetReachedError spent (maxCostUsd budget))
             else
               let perTurn = (case perTurnMax of Some m \<Rightarrow> if m > 0 then Some m else None | None \<Rightarrow> None);
                   binds = (case perTurn of None \<Rightarrow> True | Some m \<Rightarrow> left \<le> m)
               in Inr (Some \<lparr>plan_account = \<lparr>spentBefore = spent, accountedUsd = 0\<rparr>, plan_budget = budget, plan_remaining = left,
                    turnCapUsd = (if binds then left else the perTurn), sessionBinds = binds\<rparr>))"

record SessionBudgetSettlement =
  st_budget :: IAgentSessionBudget
  st_turnCostUsd :: jsnum
  st_spentUsd :: jsnum
  st_reached :: bool

definition isSessionBudgetBreach :: "SessionBudgetPlan option \<Rightarrow> string \<Rightarrow> bool \<Rightarrow> bool" where
  "isSessionBudgetBreach plan stopReason costLimitDetail =
     (case plan of None \<Rightarrow> False | Some p \<Rightarrow> sessionBinds p \<and> stopReason = ''limit'' \<and> costLimitDetail)"

definition settleSessionBudget :: "SessionBudgetPlan \<Rightarrow> js_float option \<Rightarrow> bool \<Rightarrow> string \<Rightarrow> SessionBudgetSettlement" where
  "settleSessionBudget plan turnCost breach stopReason =
     (let turn = (case turnCost of Some (Finite v) \<Rightarrow> if v > 0 then v else 0 | _ \<Rightarrow> 0);
          spent = roundUsd (spentBefore (plan_account plan) + turn);
          keepsOwnStop = (stopReason = ''paused'' \<or> stopReason = ''cancelled'');
          crossed = (\<not> keepsOwnStop \<and> spent \<ge> maxCostUsd (plan_budget plan))
      in \<lparr>st_budget = plan_budget plan, st_turnCostUsd = turn, st_spentUsd = spent, st_reached = breach \<or> crossed\<rparr>)"

section \<open>The stored total\<close>

text \<open>One statement of the database; an amount that is absent or not finite counts as nothing.\<close>

definition spend_amount :: "js_float option \<Rightarrow> jsnum" where
  "spend_amount v = (case v of Some (Finite x) \<Rightarrow> max 0 x | _ \<Rightarrow> 0)"

definition addAgentConversationSpend :: "js_float option \<Rightarrow> js_float option \<Rightarrow> conversation \<Rightarrow> conversation" where
  "addAgentConversationSpend addUsd atLeastUsd c =
     (let add = spend_amount addUsd; atLeast = spend_amount atLeastUsd in
      if add = 0 \<and> atLeast = 0 then c
      else c\<lparr>cv_spentUsd := Some (Finite (max (stored_usd c) atLeast + add))\<rparr>)"

text \<open>\<open>ok\<close>: the write went through. A total that is stored is finite, so \<open>stored_usd\<close> reads it as the statement does.\<close>

definition addSessionTurnSpend :: "bool \<Rightarrow> js_float \<Rightarrow> SessionSpendAccount \<Rightarrow> conversation \<Rightarrow> SessionSpendAccount \<times> conversation" where
  "addSessionTurnSpend ok spentUsd plan c =
     (case spentUsd of
        Finite v \<Rightarrow>
          let delta = roundUsd (v - accountedUsd plan) in
          if \<not> delta > 0 \<or> \<not> ok then (plan, c)
          else (plan\<lparr>accountedUsd := roundUsd (accountedUsd plan + delta)\<rparr>,
                addAgentConversationSpend (Some (Finite delta)) (Some (Finite (spentBefore plan))) c)
      | _ \<Rightarrow> (plan, c))"

datatype budget_refusal = InvalidBudget BudgetProblem | AlreadySpent jsnum

text \<open>What a change of the budget decides on the row it reads; \<open>None\<close> removes the budget.\<close>

definition budget_decision :: "budget_value option \<Rightarrow> conversation \<Rightarrow> budget_refusal + IAgentSessionBudget option" where
  "budget_decision budget c =
     (case budget of
        None \<Rightarrow> Inr None
      | Some v \<Rightarrow>
          (case parseSessionBudget v of
             Inl problem \<Rightarrow> Inl (InvalidBudget problem)
           | Inr b \<Rightarrow> if maxCostUsd b \<le> sessionSpentUsd c then Inl (AlreadySpent (sessionSpentUsd c)) else Inr (Some b)))"

text \<open>What it then writes: \<open>seen\<close> is the row it had read, \<open>endsInAnswer\<close> whether the transcript ends in an answer.\<close>

definition write_budget :: "conversation \<Rightarrow> bool \<Rightarrow> IAgentSessionBudget option \<Rightarrow> conversation \<Rightarrow> conversation" where
  "write_budget seen endsInAnswer decided c =
     (let c = c\<lparr>cv_budget := map_option stored_budget decided\<rparr>;
          c = (if decided = None then c else addAgentConversationSpend None (Some (Finite (sessionSpentUsd seen))) c);
          stoppedOnBudget = (cv_runtimeStatus seen = ''budget_paused'' \<or>
            cv_stopReason seen = ''budget_reached'' \<and> cv_runtimeStatus seen \<noteq> ''running'' \<and> cv_runtimeStatus seen \<noteq> ''requires_action'')
      in if stoppedOnBudget \<and> endsInAnswer then c\<lparr>cv_runtimeStatus := ''idle'', cv_stopReason := ''end_turn''\<rparr> else c)"

text \<open>A change with nothing in between, and the same asked by a client.\<close>

definition updateSessionBudget :: "budget_value option \<Rightarrow> bool \<Rightarrow> conversation \<Rightarrow> budget_refusal + conversation" where
  "updateSessionBudget budget endsInAnswer c =
     (case budget_decision budget c of
        Inl refusal \<Rightarrow> Inl refusal
      | Inr decided \<Rightarrow> Inr (write_budget c endsInAnswer decided c))"

definition client_patch :: "agent_budget option \<Rightarrow> bool \<Rightarrow> budget_value option \<Rightarrow> conversation \<Rightarrow> conversation" where
  "client_patch config endsInAnswer budget c =
     (let requested = (case budget of None \<Rightarrow> Inr None
          | Some v \<Rightarrow> (case parseSessionBudget v of Inl problem \<Rightarrow> Inl problem | Inr b \<Rightarrow> Inr (Some b)));
          refused = (case requested of Inl _ \<Rightarrow> False
            | Inr r \<Rightarrow> clientBudgetViolation config r (activeSessionBudget c) \<noteq> None)
      in if refused then c else (case updateSessionBudget budget endsInAnswer c of Inl _ \<Rightarrow> c | Inr c' \<Rightarrow> c'))"


section \<open>Turns and changes that overlap\<close>

text \<open>
  Each action is what one call does between two awaits. A turn takes its account when it starts, persists its message, and adds
  its spend, once or several times; a change of the budget reads the row and later writes.
\<close>

datatype session_action =
  TurnStarts
| TurnPersists "jsnum option"
| TurnAdds nat bool js_float
| ChangeReads "budget_value option"
| ChangeWrites nat bool

record session_run =
  sr_row :: conversation
  sr_turns :: "SessionSpendAccount list"
  sr_changes :: "(conversation \<times> IAgentSessionBudget option) list"

definition session_do :: "session_action \<Rightarrow> session_run \<Rightarrow> session_run" where
  "session_do a r =
     (case a of
        TurnStarts \<Rightarrow> r\<lparr>sr_turns := sr_turns r @ [startSessionSpendAccount (sr_row r)]\<rparr>
      | TurnPersists cost \<Rightarrow> r\<lparr>sr_row := (sr_row r)\<lparr>cv_messages := cv_messages (sr_row r) @ [(True, cost)]\<rparr>\<rparr>
      | TurnAdds i ok spent \<Rightarrow>
          if i < length (sr_turns r) then
            (let (account, row) = addSessionTurnSpend ok spent (sr_turns r ! i) (sr_row r)
             in r\<lparr>sr_row := row, sr_turns := (sr_turns r)[i := account]\<rparr>)
          else r
      | ChangeReads budget \<Rightarrow>
          (case budget_decision budget (sr_row r) of
             Inl _ \<Rightarrow> r
           | Inr decided \<Rightarrow> r\<lparr>sr_changes := sr_changes r @ [(sr_row r, decided)]\<rparr>)
      | ChangeWrites i endsInAnswer \<Rightarrow>
          if i < length (sr_changes r) then
            (case sr_changes r ! i of (seen, decided) \<Rightarrow> r\<lparr>sr_row := write_budget seen endsInAnswer decided (sr_row r)\<rparr>)
          else r)"

section \<open>Amounts\<close>

lemma round_shift: "math_round (x + of_int n) = math_round x + of_int n"
proof -
  have "\<lfloor>x + of_int n + 1 / 2\<rfloor> = \<lfloor>x + 1 / 2\<rfloor> + n" using floor_add_int [of "x + 1 / 2" n] by (simp add: algebra_simps)
  then show ?thesis by (simp add: math_round_def)
qed

definition in_units :: "jsnum \<Rightarrow> bool" where
  "in_units v \<longleftrightarrow> (\<exists>n::int. v = of_int n / 100000000)"

lemma in_units_round: "in_units (roundUsd v)"
  by (auto simp: in_units_def roundUsd_def math_round_def)

lemma in_units_0: "in_units 0"
  unfolding in_units_def by (rule exI [of _ 0]) simp

lemma round_in_units:
  assumes "in_units a"
  shows "roundUsd (v - a) = roundUsd v - a" "roundUsd (a + v) = a + roundUsd v" "roundUsd a = a"
proof -
  obtain n :: int where n: "a = of_int n / 100000000" using assms by (auto simp: in_units_def)
  show "roundUsd (v - a) = roundUsd v - a"
    using round_shift [of "v * 100000000" "- n"] by (simp add: roundUsd_def n algebra_simps diff_divide_distrib)
  show "roundUsd (a + v) = a + roundUsd v"
    using round_shift [of "v * 100000000" n] by (simp add: roundUsd_def n algebra_simps add_divide_distrib)
  show "roundUsd a = a" by (simp add: roundUsd_def n)
qed

lemma in_units_add: "in_units a \<Longrightarrow> in_units b \<Longrightarrow> in_units (a + b)"
proof -
  assume "in_units a" "in_units b"
  then obtain n m :: int where "a = of_int n / 100000000" "b = of_int m / 100000000" by (auto simp: in_units_def)
  then have "a + b = of_int (n + m) / 100000000" by (simp add: add_divide_distrib)
  then show ?thesis unfolding in_units_def by blast
qed

lemma round_near: "roundUsd v \<le> v + 1 / 200000000" "v < roundUsd v + 1 / 200000000"
proof -
  have "math_round (v * 100000000) \<le> v * 100000000 + 1 / 2" "v * 100000000 + 1 / 2 < math_round (v * 100000000) + 1"
    unfolding math_round_def by linarith+
  then show "roundUsd v \<le> v + 1 / 200000000" "v < roundUsd v + 1 / 200000000" by (simp_all add: roundUsd_def field_simps)
qed

lemma round_mono_usd: "v \<le> u \<Longrightarrow> roundUsd v \<le> roundUsd u"
  by (simp add: roundUsd_def math_round_mono divide_right_mono)

lemma add_spend: "0 < d \<Longrightarrow> stored_usd (addAgentConversationSpend (Some (Finite d)) (Some (Finite a)) c) = max (stored_usd c) (max 0 a) + d"
  by (simp add: addAgentConversationSpend_def spend_amount_def stored_usd_def Let_def)

lemma raise_spend: "stored_usd c \<le> stored_usd (addAgentConversationSpend None (Some (Finite a)) c)"
  "0 \<le> stored_usd c \<Longrightarrow> a \<le> stored_usd c \<Longrightarrow> stored_usd (addAgentConversationSpend None (Some (Finite a)) c) = stored_usd c"
  by (auto simp: addAgentConversationSpend_def spend_amount_def stored_usd_def Let_def)

lemma add_turn:
  assumes "in_units (accountedUsd plan)" "addSessionTurnSpend ok spent plan c = (plan', c')"
  shows "in_units (accountedUsd plan') \<and> spentBefore plan' = spentBefore plan \<and>
    accountedUsd plan \<le> accountedUsd plan' \<and>
    stored_usd c + (accountedUsd plan' - accountedUsd plan) \<le> stored_usd c' \<and>
    (0 \<le> stored_usd c \<and> spentBefore plan \<le> stored_usd c \<longrightarrow> stored_usd c' = stored_usd c + (accountedUsd plan' - accountedUsd plan)) \<and>
    (ok \<longrightarrow> (\<forall>v. spent = Finite v \<longrightarrow> accountedUsd plan' = max (accountedUsd plan) (roundUsd v))) \<and>
    cv_messages c' = cv_messages c"
proof -
  have delta: "roundUsd (v - accountedUsd plan) = roundUsd v - accountedUsd plan" for v by (rule round_in_units(1) [OF assms(1)])
  have acc: "roundUsd (accountedUsd plan + roundUsd (v - accountedUsd plan)) = roundUsd v" for v
    unfolding round_in_units(2) [OF assms(1)] delta round_in_units(3) [OF in_units_round] by (simp add: delta round_in_units(1) [OF assms(1)] round_in_units(3) [OF in_units_round])
  have messages: "cv_messages (addAgentConversationSpend x y c) = cv_messages c" for x y by (simp add: addAgentConversationSpend_def Let_def)
  show ?thesis
  proof (cases spent)
    case (Finite v)
    show ?thesis
    proof (cases "0 < roundUsd (v - accountedUsd plan) \<and> ok")
      case True
      then have "plan' = plan\<lparr>accountedUsd := roundUsd v\<rparr>"
        "c' = addAgentConversationSpend (Some (Finite (roundUsd (v - accountedUsd plan)))) (Some (Finite (spentBefore plan))) c"
        using assms(2) by (auto simp: addSessionTurnSpend_def Finite Let_def acc)
      moreover have "stored_usd c' = max (stored_usd c) (max 0 (spentBefore plan)) + (roundUsd v - accountedUsd plan)"
        using add_spend [of "roundUsd (v - accountedUsd plan)"] True unfolding calculation(2) delta by simp
      moreover have "accountedUsd plan < roundUsd v" using True by (simp add: delta)
      moreover have "cv_messages c' = cv_messages c" unfolding calculation(2) by (rule messages)
      ultimately show ?thesis using True Finite in_units_round [of v] by simp
    next
      case False
      then have same: "plan' = plan" "c' = c" using assms(2) by (auto simp: addSessionTurnSpend_def Finite Let_def split: if_splits)
      then show ?thesis using False assms(1) Finite by (auto simp: delta max_def)
    qed
  qed (use assms in \<open>auto simp: addSessionTurnSpend_def\<close>)
qed

section \<open>No spend is lost\<close>

definition accounted :: "session_run \<Rightarrow> jsnum" where
  "accounted r = sum_list (map accountedUsd (sr_turns r))"

definition accounts_ok :: "session_run \<Rightarrow> bool" where
  "accounts_ok r \<longleftrightarrow> (\<forall>a \<in> set (sr_turns r). in_units (accountedUsd a))"

lemma accounted_update:
  "i < length xs \<Longrightarrow> sum_list (map accountedUsd (xs[i := a])) = sum_list (map accountedUsd xs) + (accountedUsd a - accountedUsd (xs ! i))"
  by (induction xs arbitrary: i) (auto simp: nth_Cons' split: nat.split)

lemma write_budget_stored:
  "stored_usd c \<le> stored_usd (write_budget seen e decided c)"
  "0 \<le> stored_usd c \<Longrightarrow> sessionSpentUsd seen \<le> stored_usd c \<Longrightarrow> stored_usd (write_budget seen e decided c) = stored_usd c"
  using raise_spend [of "c\<lparr>cv_budget := map_option stored_budget decided\<rparr>" "sessionSpentUsd seen"]
  by (auto simp: write_budget_def Let_def stored_usd_def)

lemma session_step:
  assumes "accounts_ok r"
  shows "accounts_ok (session_do a r) \<and>
    stored_usd (sr_row r) + (accounted (session_do a r) - accounted r) \<le> stored_usd (sr_row (session_do a r))"
proof (cases a)
  case TurnStarts
  then show ?thesis using assms in_units_0 by (simp add: session_do_def accounts_ok_def accounted_def startSessionSpendAccount_def)
next
  case (TurnPersists cost)
  then show ?thesis using assms by (simp add: session_do_def accounts_ok_def accounted_def stored_usd_def)
next
  case (TurnAdds i ok spent)
  show ?thesis
  proof (cases "i < length (sr_turns r)")
    case True
    obtain account row where add: "addSessionTurnSpend ok spent (sr_turns r ! i) (sr_row r) = (account, row)" by fastforce
    have do_it: "session_do a r = r\<lparr>sr_row := row, sr_turns := (sr_turns r)[i := account]\<rparr>" by (simp add: TurnAdds session_do_def True add)
    have "in_units (accountedUsd (sr_turns r ! i))" using assms True by (simp add: accounts_ok_def)
    note turn = add_turn [OF this add]
    then show ?thesis using assms True unfolding do_it
      by (auto simp: accounts_ok_def accounted_def accounted_update dest: set_update_subset_insert [THEN subsetD])
  qed (use assms in \<open>simp add: TurnAdds session_do_def\<close>)
next
  case (ChangeReads budget)
  then show ?thesis using assms by (simp add: session_do_def accounts_ok_def accounted_def split: sum.split)
next
  case (ChangeWrites i e)
  show ?thesis
  proof (cases "i < length (sr_changes r)")
    case True
    obtain seen decided where "sr_changes r ! i = (seen, decided)" by fastforce
    then show ?thesis using assms write_budget_stored(1) True
      by (simp add: ChangeWrites session_do_def accounts_ok_def accounted_def)
  qed (use assms in \<open>simp add: ChangeWrites session_do_def\<close>)
qed

text \<open>A run in which every row that is read has its transcript covered by its stored total.\<close>

definition reads_row :: "session_action \<Rightarrow> bool" where
  "reads_row a \<longleftrightarrow> (case a of TurnStarts \<Rightarrow> True | ChangeReads _ \<Rightarrow> True | _ \<Rightarrow> False)"

fun reads_covered :: "session_action list \<Rightarrow> session_run \<Rightarrow> bool" where
  "reads_covered [] r = True"
| "reads_covered (a # acts) r =
     ((reads_row a \<longrightarrow> summed_usd (cv_messages (sr_row r)) \<le> stored_usd (sr_row r)) \<and> reads_covered acts (session_do a r))"

definition exact_ok :: "session_run \<Rightarrow> bool" where
  "exact_ok r \<longleftrightarrow> accounts_ok r \<and> 0 \<le> stored_usd (sr_row r) \<and> in_units (stored_usd (sr_row r)) \<and>
     (\<forall>a \<in> set (sr_turns r). spentBefore a \<le> stored_usd (sr_row r)) \<and>
     (\<forall>(seen, _) \<in> set (sr_changes r). sessionSpentUsd seen \<le> stored_usd (sr_row r))"

lemma covered_read: "in_units (stored_usd c) \<Longrightarrow> summed_usd (cv_messages c) \<le> stored_usd c \<Longrightarrow> sessionSpentUsd c = stored_usd c"
  by (simp add: sessionSpentUsd_def max_def round_in_units(3))

lemma exact_step:
  assumes "exact_ok r" "reads_row a \<longrightarrow> summed_usd (cv_messages (sr_row r)) \<le> stored_usd (sr_row r)"
  shows "exact_ok (session_do a r) \<and> stored_usd (sr_row (session_do a r)) = stored_usd (sr_row r) + (accounted (session_do a r) - accounted r)"
proof -
  have ok: "accounts_ok r" "0 \<le> stored_usd (sr_row r)" "in_units (stored_usd (sr_row r))"
    "\<forall>a \<in> set (sr_turns r). spentBefore a \<le> stored_usd (sr_row r)" "\<forall>(seen, _) \<in> set (sr_changes r). sessionSpentUsd seen \<le> stored_usd (sr_row r)"
    using assms(1) by (simp_all add: exact_ok_def)
  have accounts: "accounts_ok (session_do a r)" using session_step [OF ok(1)] by blast
  show ?thesis
  proof (cases a)
    case TurnStarts
    then have "sessionSpentUsd (sr_row r) = stored_usd (sr_row r)" using assms(2) covered_read [OF ok(3)] by (simp add: reads_row_def)
    then show ?thesis using ok accounts by (simp add: TurnStarts session_do_def exact_ok_def accounted_def startSessionSpendAccount_def)
  next
    case (TurnPersists cost)
    then show ?thesis using ok accounts by (simp add: session_do_def exact_ok_def accounted_def stored_usd_def)
  next
    case (TurnAdds i go spent)
    show ?thesis
    proof (cases "i < length (sr_turns r)")
      case True
      obtain account row where add: "addSessionTurnSpend go spent (sr_turns r ! i) (sr_row r) = (account, row)" by fastforce
      have do_it: "session_do a r = r\<lparr>sr_row := row, sr_turns := (sr_turns r)[i := account]\<rparr>" by (simp add: TurnAdds session_do_def True add)
      have units: "in_units (accountedUsd (sr_turns r ! i))" and before: "spentBefore (sr_turns r ! i) \<le> stored_usd (sr_row r)"
        using ok(1,4) True by (simp_all add: accounts_ok_def)
      note turn = add_turn [OF units add]
      let ?d = "accountedUsd account - accountedUsd (sr_turns r ! i)"
      have stored: "stored_usd row = stored_usd (sr_row r) + ?d" "0 \<le> ?d" using turn ok(2) before by simp_all
      obtain n m :: int where "accountedUsd account = of_int n / 100000000" "accountedUsd (sr_turns r ! i) = of_int m / 100000000"
        using turn units unfolding in_units_def by blast
      then have "?d = of_int (n - m) / 100000000" by (simp add: diff_divide_distrib)
      then have "in_units ?d" unfolding in_units_def by blast
      then have "in_units (stored_usd row)" unfolding stored(1) by (rule in_units_add [OF ok(3)])
      moreover have "\<forall>x \<in> set ((sr_turns r)[i := account]). spentBefore x \<le> stored_usd row"
        using ok(4) turn before stored set_update_subset_insert [of "sr_turns r" i account] by fastforce
      moreover have "\<forall>(seen, _) \<in> set (sr_changes r). sessionSpentUsd seen \<le> stored_usd row" using ok(5) stored by fastforce
      ultimately show ?thesis
        using ok(2) accounts stored True unfolding do_it by (simp add: exact_ok_def accounted_def accounted_update)
    qed (use assms(1) in \<open>simp add: TurnAdds session_do_def\<close>)
  next
    case (ChangeReads budget)
    show ?thesis
    proof (cases "budget_decision budget (sr_row r)")
      case (Inr decided)
      have "sessionSpentUsd (sr_row r) = stored_usd (sr_row r)" using assms(2) covered_read [OF ok(3)] by (simp add: ChangeReads reads_row_def)
      then show ?thesis using ok accounts by (simp add: ChangeReads Inr session_do_def exact_ok_def accounted_def)
    qed (use assms(1) in \<open>simp add: ChangeReads session_do_def\<close>)
  next
    case (ChangeWrites i e)
    show ?thesis
    proof (cases "i < length (sr_changes r)")
      case True
      obtain seen decided where change: "sr_changes r ! i = (seen, decided)" by fastforce
      then have "sessionSpentUsd seen \<le> stored_usd (sr_row r)" using ok(5) nth_mem [OF True] by fastforce
      from write_budget_stored(2) [OF ok(2) this] show ?thesis
        using ok accounts True change by (simp add: ChangeWrites session_do_def exact_ok_def accounted_def)
    qed (use assms(1) in \<open>simp add: ChangeWrites session_do_def\<close>)
  qed
qed

lemma session_run_ok:
  "accounts_ok r \<Longrightarrow> accounts_ok (fold session_do acts r) \<and>
     stored_usd (sr_row r) + (accounted (fold session_do acts r) - accounted r) \<le> stored_usd (sr_row (fold session_do acts r))"
proof (induction acts arbitrary: r)
  case (Cons a acts)
  note step = session_step [OF Cons.prems, of a]
  from Cons.IH [OF conjunct1 [OF step]] step show ?case by simp
qed simp

lemma session_run_exact:
  "exact_ok r \<Longrightarrow> reads_covered acts r \<Longrightarrow>
     stored_usd (sr_row (fold session_do acts r)) = stored_usd (sr_row r) + (accounted (fold session_do acts r) - accounted r)"
proof (induction acts arbitrary: r)
  case (Cons a acts)
  have "reads_row a \<longrightarrow> summed_usd (cv_messages (sr_row r)) \<le> stored_usd (sr_row r)" using Cons.prems(2) by simp
  note step = exact_step [OF Cons.prems(1) this]
  have "reads_covered acts (session_do a r)" using Cons.prems(2) by simp
  from Cons.IH [OF conjunct1 [OF step] this] step show ?case by simp
qed simp

lemma session_spend:
  assumes "sr_turns r = []" "sr_changes r = []" "r' = fold session_do acts r"
  shows "stored_usd (sr_row r) + accounted r' \<le> stored_usd (sr_row r')"
    and "\<forall>i v. i < length (sr_turns r') \<longrightarrow>
      accountedUsd (sr_turns (session_do (TurnAdds i True (Finite v)) r') ! i) = max (accountedUsd (sr_turns r' ! i)) (roundUsd v)"
    and "reads_covered acts r \<and> 0 \<le> stored_usd (sr_row r) \<and> roundUsd (stored_usd (sr_row r)) = stored_usd (sr_row r) \<longrightarrow>
      stored_usd (sr_row r') = stored_usd (sr_row r) + accounted r'"
proof -
  have start: "accounts_ok r" "accounted r = 0" using assms(1) by (simp_all add: accounts_ok_def accounted_def)
  note run = session_run_ok [OF start(1), of acts, folded assms(3)]
  then show "stored_usd (sr_row r) + accounted r' \<le> stored_usd (sr_row r')" using start(2) by simp
  show "\<forall>i v. i < length (sr_turns r') \<longrightarrow>
      accountedUsd (sr_turns (session_do (TurnAdds i True (Finite v)) r') ! i) = max (accountedUsd (sr_turns r' ! i)) (roundUsd v)"
  proof (intro allI impI)
    fix i v assume i: "i < length (sr_turns r')"
    obtain account row where add: "addSessionTurnSpend True (Finite v) (sr_turns r' ! i) (sr_row r') = (account, row)" by fastforce
    have "in_units (accountedUsd (sr_turns r' ! i))" using run i by (simp add: accounts_ok_def)
    from add_turn [OF this add] i add
    show "accountedUsd (sr_turns (session_do (TurnAdds i True (Finite v)) r') ! i) = max (accountedUsd (sr_turns r' ! i)) (roundUsd v)"
      by (simp add: session_do_def)
  qed
  show "reads_covered acts r \<and> 0 \<le> stored_usd (sr_row r) \<and> roundUsd (stored_usd (sr_row r)) = stored_usd (sr_row r) \<longrightarrow>
      stored_usd (sr_row r') = stored_usd (sr_row r) + accounted r'"
  proof
    assume a: "reads_covered acts r \<and> 0 \<le> stored_usd (sr_row r) \<and> roundUsd (stored_usd (sr_row r)) = stored_usd (sr_row r)"
    then have "in_units (stored_usd (sr_row r))" using in_units_round by metis
    then have "exact_ok r" using a assms(1,2) start(1) by (simp add: exact_ok_def)
    from session_run_exact [OF this] a show "stored_usd (sr_row r') = stored_usd (sr_row r) + accounted r'"
      using start(2) by (simp add: assms(3))
  qed
qed

text \<open>
  C16: Spend is not lost. However turns, repeated additions and changes of the budget overlap, the stored total has grown by
  what the turns accounted for, at least; each addition that goes through brings a turn's account up to what it reports, so that
  reporting it again adds nothing; and when no row is read whose transcript runs ahead of its total, the total is exact.
\<close>

theorem session_spend_is_kept:
  assumes "sr_turns r = []" "sr_changes r = []" "r' = fold session_do acts r"
  shows "stored_usd (sr_row r) + accounted r' \<le> stored_usd (sr_row r') \<and>
    (\<forall>i v. i < length (sr_turns r') \<longrightarrow>
      accountedUsd (sr_turns (session_do (TurnAdds i True (Finite v)) r') ! i) = max (accountedUsd (sr_turns r' ! i)) (roundUsd v)) \<and>
    (reads_covered acts r \<and> 0 \<le> stored_usd (sr_row r) \<and> roundUsd (stored_usd (sr_row r)) = stored_usd (sr_row r) \<longrightarrow>
      stored_usd (sr_row r') = stored_usd (sr_row r) + accounted r')"
  using session_spend [OF assms] by blast

definition new_session :: "jsnum \<Rightarrow> session_run" where
  "new_session m =
     \<lparr>sr_row = \<lparr>cv_budget = Some (stored_budget \<lparr>maxCostUsd = m, onReach = ReachPause\<rparr>), cv_spentUsd = None, cv_messages = [],
        cv_runtimeStatus = ''running'', cv_stopReason = []\<rparr>, sr_turns = [], sr_changes = []\<rparr>"

definition raised :: budget_value where
  "raised = stored_budget \<lparr>maxCostUsd = 9, onReach = ReachPause\<rparr>"

text \<open>
  Otherwise it can count twice: a change of the budget that reads the row after a turn has persisted its message and before it
  adds its spend raises the total by that spend, and the turn adds it again.
\<close>

theorem budget_change_counts_a_turn_twice:
  "let r = fold session_do [TurnStarts, TurnPersists (Some 2), ChangeReads (Some raised), ChangeWrites 0 False, TurnAdds 0 True (Finite 2)] (new_session 5) in
     summed_usd (cv_messages (sr_row r)) = 2 \<and> accounted r = 2 \<and> sessionSpentUsd (sr_row r) = 4"
  by (simp add: session_do_def new_session_def raised_def startSessionSpendAccount_def sessionSpentUsd_def stored_usd_def summed_usd_def
      budget_decision_def parseSessionBudget_def stored_budget_def write_budget_def addAgentConversationSpend_def spend_amount_def
      addSessionTurnSpend_def accounted_def roundUsd_def Let_def)

lemmas session_defs = session_do_def new_session_def startSessionSpendAccount_def sessionSpentUsd_def stored_usd_def summed_usd_def
  addAgentConversationSpend_def spend_amount_def addSessionTurnSpend_def accounted_def roundUsd_def Let_def

theorem session_spend_is_kept_witness:
  "stored_usd (sr_row (fold session_do [TurnStarts, TurnStarts, TurnAdds 1 True (Finite 2), TurnAdds 0 True (Finite 1), TurnAdds 0 True (Finite 3)] (new_session 9))) = 5"
proof -
  let ?acts = "[TurnStarts, TurnStarts, TurnAdds 1 True (Finite 2), TurnAdds 0 True (Finite 1), TurnAdds 0 True (Finite 3)]"
  have a: "sr_turns (new_session 9) = []" "sr_changes (new_session 9) = []" by (simp_all add: new_session_def)
  have covered: "reads_covered ?acts (new_session 9)" by (simp add: session_defs reads_row_def)
  have start: "stored_usd (sr_row (new_session 9)) = 0" by (simp add: session_defs)
  have "accounted (fold session_do ?acts (new_session 9)) = 5" by (simp add: session_defs)
  then show ?thesis using session_spend_is_kept [OF a refl, of ?acts] covered start by (simp add: roundUsd_def)
qed

section \<open>Clients and the administrator\<close>

lemma parse_positive: "parseSessionBudget v = Inr b \<Longrightarrow> 0 < maxCostUsd b"
  by (auto simp: parseSessionBudget_def Let_def split: budget_value.splits option.splits raw_value.splits js_float.splits if_splits)

lemma parse_stored: "0 < maxCostUsd b \<Longrightarrow> parseSessionBudget (stored_budget b) = Inr b"
  by (cases b; cases "onReach b") (auto simp: parseSessionBudget_def stored_budget_def)

lemma write_budget_active:
  "(\<forall>b. decided = Some b \<longrightarrow> 0 < maxCostUsd b) \<Longrightarrow> activeSessionBudget (write_budget seen e decided c) = decided"
  by (cases decided) (simp_all add: write_budget_def activeSessionBudget_def parsed_budget_def addAgentConversationSpend_def Let_def parse_stored)

lemma client_patch_keeps:
  assumes "agentSessionBudget (Some config) = Some admin" "\<not> ab_allowClientOverride config" "activeSessionBudget c = Some b"
  shows "\<exists>b'. activeSessionBudget (client_patch (Some config) e budget c) = Some b' \<and> maxCostUsd b' \<le> max (maxCostUsd admin) (maxCostUsd b)"
proof (cases budget)
  case None
  then show ?thesis using assms by (simp add: client_patch_def clientBudgetViolation_def Let_def)
next
  case (Some v)
  show ?thesis
  proof (cases "parseSessionBudget v")
    case (Inl problem)
    then show ?thesis using assms Some by (simp add: client_patch_def updateSessionBudget_def budget_decision_def)
  next
    case (Inr r)
    have active: "activeSessionBudget (write_budget c e (Some r) c) = Some r" using parse_positive [OF Inr] by (intro write_budget_active) simp
    show ?thesis
      using assms Some Inr active
      by (auto simp: client_patch_def clientBudgetViolation_def updateSessionBudget_def budget_decision_def Let_def)
  qed
qed

text \<open>
  C19: Where the administrator set a budget and did not switch client overrides on, and the session has a budget: however often
  clients change it, the session keeps a budget, and one no larger than the larger of the administrator's and the one
  it had.
\<close>

theorem clients_never_raise_the_budget:
  assumes "agentSessionBudget (Some config) = Some admin" "\<not> ab_allowClientOverride config" "activeSessionBudget c = Some b"
  shows "\<exists>b'. activeSessionBudget (fold (\<lambda>(e, budget). client_patch (Some config) e budget) patches c) = Some b' \<and>
    maxCostUsd b' \<le> max (maxCostUsd admin) (maxCostUsd b)"
  using assms(3)
proof (induction patches arbitrary: c b)
  case (Cons x patches)
  obtain e budget where x: "x = (e, budget)" by fastforce
  obtain b1 where b1: "activeSessionBudget (client_patch (Some config) e budget c) = Some b1" "maxCostUsd b1 \<le> max (maxCostUsd admin) (maxCostUsd b)"
    using client_patch_keeps [OF assms(1,2) Cons.prems] by blast
  from Cons.IH [OF b1(1)] b1(2) show ?case by (auto simp: x)
qed auto

definition admin_config :: agent_budget where
  "admin_config = \<lparr>ab_budget = stored_budget \<lparr>maxCostUsd = 5, onReach = ReachPause\<rparr>, ab_allowClientOverride = False\<rparr>"

theorem clients_never_raise_the_budget_witness:
  "\<exists>b'. activeSessionBudget (fold (\<lambda>(e, budget). client_patch (Some admin_config) e budget) [(False, None), (True, Some raised)] (sr_row (new_session 5))) = Some b' \<and>
     maxCostUsd b' \<le> 5"
proof -
  have parsed: "parseSessionBudget (stored_budget \<lparr>maxCostUsd = 5, onReach = ReachPause\<rparr>) = Inr \<lparr>maxCostUsd = 5, onReach = ReachPause\<rparr>"
    by (rule parse_stored) simp
  have "agentSessionBudget (Some admin_config) = Some \<lparr>maxCostUsd = 5, onReach = ReachPause\<rparr>" "\<not> ab_allowClientOverride admin_config"
    "activeSessionBudget (sr_row (new_session 5)) = Some \<lparr>maxCostUsd = 5, onReach = ReachPause\<rparr>"
    by (simp_all add: agentSessionBudget_def admin_config_def parsed_budget_def activeSessionBudget_def new_session_def parsed)
  from clients_never_raise_the_budget [OF this, of "[(False, None), (True, Some raised)]"] show ?thesis by simp
qed

section \<open>Turns under a budget\<close>

text \<open>
  A turn with no other turn and no change of the budget in between: it is planned, costs what it costs, persists its message and
  adds its spend, which goes through or fails (\<open>ok\<close>). \<open>cost\<close> says what the turn costs under its plan. Turns that overlap are the
  actions of \<open>session_do\<close>.
\<close>

definition take_turn :: "jsnum option \<Rightarrow> bool \<Rightarrow> (SessionBudgetPlan \<Rightarrow> jsnum) \<Rightarrow> conversation \<Rightarrow> conversation" where
  "take_turn perTurnMax ok cost c =
     (case planSessionBudget c perTurnMax of
        Inr (Some plan) \<Rightarrow>
          snd (addSessionTurnSpend ok (Finite (cost plan)) (plan_account plan) (c\<lparr>cv_messages := cv_messages c @ [(True, Some (cost plan))]\<rparr>))
      | _ \<Rightarrow> c)"

lemma plan_cases:
  assumes "planSessionBudget c perTurnMax = Inr (Some plan)" "activeSessionBudget c = Some b"
  shows "plan_account plan = \<lparr>spentBefore = sessionSpentUsd c, accountedUsd = 0\<rparr>" "plan_budget plan = b"
    "plan_remaining plan = roundUsd (maxCostUsd b - sessionSpentUsd c)" "0 < turnCapUsd plan" "turnCapUsd plan \<le> plan_remaining plan"
    "\<forall>m. perTurnMax = Some m \<and> 0 < m \<longrightarrow> turnCapUsd plan \<le> m"
  using assms by (auto simp: planSessionBudget_def Let_def split: if_splits option.splits)

lemma turn_row:
  assumes "planSessionBudget c perTurnMax = Inr (Some plan)" "activeSessionBudget c = Some b" "0 \<le> cost plan" "0 \<le> stored_usd c"
  shows "ok \<Longrightarrow> sessionSpentUsd c + roundUsd (cost plan) \<le> sessionSpentUsd (take_turn perTurnMax ok cost c)"
    and "sessionSpentUsd (take_turn perTurnMax ok cost c) \<le> sessionSpentUsd c + cost plan + 3 / 200000000"
    and "cv_budget (take_turn perTurnMax ok cost c) = cv_budget c" and "0 \<le> stored_usd (take_turn perTurnMax ok cost c)"
proof -
  let ?S = "sessionSpentUsd c" and ?t = "cost plan"
  let ?c = "c\<lparr>cv_messages := cv_messages c @ [(True, Some ?t)]\<rparr>"
  obtain account row where add: "addSessionTurnSpend ok (Finite ?t) (plan_account plan) ?c = (account, row)" by fastforce
  have row: "take_turn perTurnMax ok cost c = row" by (simp add: take_turn_def assms(1) add)
  have units: "in_units (accountedUsd (plan_account plan))" by (simp add: plan_cases(1) [OF assms(1,2)] in_units_0)
  have S: "in_units ?S" "max (stored_usd c) (summed_usd (cv_messages c)) < ?S + 1 / 200000000" "?S \<le> max (stored_usd c) (summed_usd (cv_messages c)) + 1 / 200000000"
    unfolding sessionSpentUsd_def using in_units_round round_near by blast+
  have "roundUsd 0 \<le> roundUsd ?t" using assms(3) by (rule round_mono_usd)
  then have t: "0 \<le> roundUsd ?t" "roundUsd ?t \<le> ?t + 1 / 200000000" using round_near by (simp_all add: roundUsd_def)
  have stored: "stored_usd row = (if 0 < roundUsd ?t \<and> ok then max (stored_usd c) (max 0 ?S) + roundUsd ?t else stored_usd c)"
  proof (cases "0 < roundUsd ?t \<and> ok")
    case True
    then have "row = addAgentConversationSpend (Some (Finite (roundUsd ?t))) (Some (Finite ?S)) ?c"
      using add by (simp add: addSessionTurnSpend_def plan_cases(1) [OF assms(1,2)] Let_def)
    then have "stored_usd row = max (stored_usd ?c) (max 0 ?S) + roundUsd ?t" using add_spend [OF conjunct1 [OF True]] by simp
    then show ?thesis using True by (simp add: stored_usd_def)
  next
    case False
    then have "row = ?c" using add by (auto simp: addSessionTurnSpend_def plan_cases(1) [OF assms(1,2)] Let_def)
    then have "stored_usd row = stored_usd c" by (simp add: stored_usd_def)
    then show ?thesis by (simp only: if_not_P [OF False])
  qed
  have messages: "summed_usd (cv_messages row) = summed_usd (cv_messages c) + ?t"
    using add_turn [OF units add] by (simp add: summed_usd_def)
  have spent: "sessionSpentUsd row = roundUsd (max (stored_usd row) (summed_usd (cv_messages c) + ?t))"
    by (simp add: sessionSpentUsd_def messages)
  show "cv_budget (take_turn perTurnMax ok cost c) = cv_budget c"
    unfolding row using add by (auto simp: addSessionTurnSpend_def Let_def addAgentConversationSpend_def split: if_splits)
  show "?S + roundUsd ?t \<le> sessionSpentUsd (take_turn perTurnMax ok cost c)" if "ok"
  proof (cases "0 < roundUsd ?t")
    case True
    then have "?S + roundUsd ?t \<le> max (stored_usd row) (summed_usd (cv_messages c) + ?t)" using that by (simp add: stored max_def)
    from round_mono_usd [OF this] show ?thesis
      unfolding row spent round_in_units(3) [OF in_units_add [OF S(1) in_units_round]] .
  next
    case False
    then have zero: "roundUsd ?t = 0" using t(1) by simp
    have "max (stored_usd c) (summed_usd (cv_messages c)) \<le> max (stored_usd row) (summed_usd (cv_messages c) + ?t)"
      using stored False assms(3) by (simp add: max_def)
    from round_mono_usd [OF this] show ?thesis unfolding row spent zero by (simp add: sessionSpentUsd_def)
  qed
  have "roundUsd 0 \<le> ?S" unfolding sessionSpentUsd_def using assms(4) by (intro round_mono_usd) simp
  then have nonneg: "0 \<le> ?S" by (simp add: roundUsd_def)
  show "0 \<le> stored_usd (take_turn perTurnMax ok cost c)" using assms(4) t(1) nonneg unfolding row stored by simp
  have "stored_usd row \<le> ?S + ?t + 2 / 200000000" using S(2) t nonneg assms(3) unfolding stored by (simp add: max_def split: if_splits)
  moreover have "summed_usd (cv_messages c) + ?t \<le> ?S + ?t + 2 / 200000000" using S(2) by simp
  ultimately have "max (stored_usd row) (summed_usd (cv_messages c) + ?t) \<le> ?S + ?t + 2 / 200000000" by simp
  then show "sessionSpentUsd (take_turn perTurnMax ok cost c) \<le> ?S + ?t + 3 / 200000000"
    unfolding row spent using round_near(1) [of "max (stored_usd row) (summed_usd (cv_messages c) + ?t)"] by linarith
qed

text \<open>
  C17: Turns that follow one another leave what a session has spent within one request of its budget. Take any turns of a session
  with a budget, none overlapping another or a change of the budget, each below the cap of its plan up to what one more
  request costs, with additions to the total that go through or fail. Then what the session is recorded to have spent,
  from its transcript and its stored total, is at most the budget, that request and the rounding; or it is still no more than it
  was at the start, when that was more.
\<close>

theorem session_spend_stays_near_the_budget:
  assumes "activeSessionBudget c = Some b" "0 \<le> stored_usd c" "0 \<le> request"
    "\<forall>(perTurnMax, ok, cost) \<in> set turns. \<forall>plan. 0 < turnCapUsd plan \<longrightarrow> 0 \<le> cost plan \<and> cost plan \<le> turnCapUsd plan + request"
  shows "sessionSpentUsd (fold (\<lambda>(perTurnMax, ok, cost). take_turn perTurnMax ok cost) turns c) \<le>
    max (sessionSpentUsd c) (maxCostUsd b + request + 1 / 50000000)"
  using assms(1,2,4)
proof (induction turns arbitrary: c)
  case (Cons x turns)
  obtain perTurnMax ok cost where x: "x = (perTurnMax, ok, cost)" by (cases x)
  have cost: "0 \<le> cost plan" "cost plan \<le> turnCapUsd plan + request" if "0 < turnCapUsd plan" for plan
    using Cons.prems(3) that by (simp_all add: x)
  let ?c = "take_turn perTurnMax ok cost c"
  have one: "cv_budget ?c = cv_budget c \<and> 0 \<le> stored_usd ?c \<and> sessionSpentUsd ?c \<le> max (sessionSpentUsd c) (maxCostUsd b + request + 1 / 50000000)"
  proof (cases "\<exists>plan. planSessionBudget c perTurnMax = Inr (Some plan)")
    case True
    then obtain plan where plan: "planSessionBudget c perTurnMax = Inr (Some plan)" by blast
    note positive = plan_cases(4) [OF plan Cons.prems(1)]
    note row = turn_row [where cost = cost and ok = ok, OF plan Cons.prems(1) cost(1) [OF positive] Cons.prems(2)]
    have "turnCapUsd plan \<le> roundUsd (maxCostUsd b - sessionSpentUsd c)" using plan_cases(3,5) [OF plan Cons.prems(1)] by simp
    then have "turnCapUsd plan \<le> maxCostUsd b - sessionSpentUsd c + 1 / 200000000"
      using round_near(1) [of "maxCostUsd b - sessionSpentUsd c"] by linarith
    then have "sessionSpentUsd ?c \<le> maxCostUsd b + request + 1 / 50000000" using row(2) cost(2) [OF positive] by linarith
    then show ?thesis using row(3,4) by simp
  next
    case False
    then have "?c = c" by (auto simp: take_turn_def split: sum.split option.split)
    then show ?thesis using Cons.prems(2) by simp
  qed
  then have "activeSessionBudget ?c = Some b" using Cons.prems(1) by (simp add: activeSessionBudget_def)
  from Cons.IH [OF this] one Cons.prems(3) have
    "sessionSpentUsd (fold (\<lambda>(perTurnMax, ok, cost). take_turn perTurnMax ok cost) turns ?c) \<le> max (sessionSpentUsd ?c) (maxCostUsd b + request + 1 / 50000000)"
    by simp
  moreover have "max (sessionSpentUsd ?c) (maxCostUsd b + request + 1 / 50000000) \<le> max (sessionSpentUsd c) (maxCostUsd b + request + 1 / 50000000)"
    using one by simp
  ultimately show ?case unfolding x fold_simps prod.case by (rule order_trans)
qed simp

text \<open>
  A turn whose settlement reaches the budget is the last: the next one is refused, before the model is called, until the
  budget is raised.
\<close>

theorem reached_budget_refuses_the_next_turn:
  assumes "planSessionBudget c perTurnMax = Inr (Some plan)" "activeSessionBudget c = Some b" "0 \<le> stored_usd c" "0 < cost plan"
    "maxCostUsd b \<le> st_spentUsd (settleSessionBudget plan (Some (Finite (cost plan))) breach stopReason)"
  shows "planSessionBudget (take_turn perTurnMax True cost c) anyMax = Inl (AgentBudgetReachedError (sessionSpentUsd (take_turn perTurnMax True cost c)) (maxCostUsd b))"
proof -
  let ?c = "take_turn perTurnMax True cost c"
  have "0 \<le> cost plan" using assms(4) by simp
  note row = turn_row [where cost = cost and ok = True, OF assms(1,2) this assms(3)]
  have "st_spentUsd (settleSessionBudget plan (Some (Finite (cost plan))) breach stopReason) = sessionSpentUsd c + roundUsd (cost plan)"
    using assms(4) round_in_units(2) [OF in_units_round] by (simp add: settleSessionBudget_def Let_def plan_cases(1) [OF assms(1,2)] sessionSpentUsd_def)
  then have "maxCostUsd b - sessionSpentUsd ?c \<le> 0" using assms(5) row(1) by simp
  from round_mono_usd [OF this] have "roundUsd (maxCostUsd b - sessionSpentUsd ?c) \<le> 0" by (simp add: roundUsd_def)
  moreover have "activeSessionBudget ?c = Some b" using assms(2) row(3) by (simp add: activeSessionBudget_def)
  ultimately show ?thesis by (simp add: planSessionBudget_def Let_def)
qed

lemma new_session_budget: "0 < m \<Longrightarrow> activeSessionBudget (sr_row (new_session m)) = Some \<lparr>maxCostUsd = m, onReach = ReachPause\<rparr>"
  using parse_stored [of "\<lparr>maxCostUsd = m, onReach = ReachPause\<rparr>"] by (simp add: new_session_def activeSessionBudget_def parsed_budget_def)

lemma new_session_stored: "stored_usd (sr_row (new_session m)) = 0" "sessionSpentUsd (sr_row (new_session m)) = 0"
  by (simp_all add: session_defs)

theorem session_spend_stays_near_the_budget_witness:
  "sessionSpentUsd (fold (\<lambda>(perTurnMax, ok, cost). take_turn perTurnMax ok cost) [(None, True, \<lambda>plan. turnCapUsd plan + 1), (Some 2, False, \<lambda>plan. turnCapUsd plan)]
     (sr_row (new_session 5))) \<le> 6 + 1 / 50000000"
proof -
  let ?turns = "[(None, True, \<lambda>plan. turnCapUsd plan + 1), (Some 2, False, \<lambda>plan. turnCapUsd plan)] :: (jsnum option \<times> bool \<times> (SessionBudgetPlan \<Rightarrow> jsnum)) list"
  have a: "activeSessionBudget (sr_row (new_session 5)) = Some \<lparr>maxCostUsd = 5, onReach = ReachPause\<rparr>" by (rule new_session_budget) simp
  have b: "0 \<le> stored_usd (sr_row (new_session 5))" by (simp add: new_session_stored)
  have "\<forall>(perTurnMax, ok, cost) \<in> set ?turns. \<forall>plan. 0 < turnCapUsd plan \<longrightarrow> 0 \<le> cost plan \<and> cost plan \<le> turnCapUsd plan + 1" by simp
  from session_spend_stays_near_the_budget [OF a b _ this] show ?thesis by (simp add: new_session_stored)
qed

theorem reached_budget_refuses_the_next_turn_witness:
  "\<exists>spent. planSessionBudget (take_turn None True (\<lambda>_. 5) (sr_row (new_session 5))) None = Inl (AgentBudgetReachedError spent 5)"
proof -
  let ?c = "sr_row (new_session 5)" and ?b = "\<lparr>maxCostUsd = 5, onReach = ReachPause\<rparr>"
  have a: "activeSessionBudget ?c = Some ?b" by (rule new_session_budget) simp
  obtain plan where plan: "planSessionBudget ?c None = Inr (Some plan)"
    by (simp add: planSessionBudget_def a new_session_stored roundUsd_def Let_def)
  have "st_spentUsd (settleSessionBudget plan (Some (Finite 5)) False ''completed'') = 5"
    using plan_cases(1) [OF plan a] by (simp add: settleSessionBudget_def Let_def new_session_stored roundUsd_def)
  then have reached: "maxCostUsd ?b \<le> st_spentUsd (settleSessionBudget plan (Some (Finite ((\<lambda>_. 5) plan))) False ''completed'')" by simp
  have "0 \<le> stored_usd ?c" "0 < (\<lambda>_::SessionBudgetPlan. 5::jsnum) plan" by (simp_all add: new_session_stored)
  from reached_budget_refuses_the_next_turn [where cost = "\<lambda>_. 5", OF plan a this reached] show ?thesis by simp
qed

text \<open>
  The bound is one of turns that follow one another. Two turns that start before either has added its spend are planned on the
  same total, and together they may spend the budget twice.
\<close>

lemma overlapping_turns_spend_twice:
  "map_sum id (map_option turnCapUsd) (planSessionBudget (sr_row (fold session_do [TurnStarts] (new_session 5))) None) = Inr (Some 5)"
  "sessionSpentUsd (sr_row (fold session_do [TurnStarts, TurnStarts, TurnAdds 0 True (Finite 5), TurnAdds 1 True (Finite 5)]
     (new_session 5))) = 10"
  by code_simp+

end
