(* ===== verification/ReplicaPool.thy ===== *)
theory ReplicaPool
  imports Resilience
begin

text \<open>
  Pools of interchangeable deployments of a model: \<^verbatim>\<open>src/lib/services/models/replicaPool.ts\<close>, and the failover over them
  in \<^verbatim>\<open>gatewayCore.ts\<close> (\<^verbatim>\<open>runAcrossReplicas\<close>, \<^verbatim>\<open>chatResilienceKey\<close>).

  The replicas of a model are tried in an order drawn by weight, those whose breaker is open last. The breakers are those of
  \<open>Resilience\<close>. Random numbers are a sequence; what an attempt does is a function that threads a state. Settings are maps to opaque
  texts.
\<close>

section \<open>Replicas\<close>

record IModelReplica =
  r_providerKey :: string
  r_modelId :: string
  r_weight :: "jsnum option"
  r_enabled :: "bool option"
  r_settings :: "(string, string) jsmap option"
  r_label :: "string option"

record IModel =
  m_key :: string
  m_providerKey :: string
  m_modelId :: string
  m_replicas :: "IModelReplica list option"
  m_settings :: "(string, string) jsmap option"

record ResolvedReplica =
  index :: nat
  providerKey :: string
  modelId :: string
  weight :: jsnum
  label :: "string option"
  settings :: "(string, string) jsmap option"

definition listReplicas :: "IModel \<Rightarrow> ResolvedReplica list" where
  "listReplicas model =
     (let enabled = filter (\<lambda>r. r_enabled r \<noteq> Some False \<and> r_providerKey r \<noteq> []) (nullish (m_replicas model) []) in
      if enabled = [] then
        [\<lparr>index = 0, providerKey = m_providerKey model, modelId = m_modelId model, weight = 1, label = None, settings = None\<rparr>]
      else
        map (\<lambda>(i, r). \<lparr>index = i, providerKey = r_providerKey r,
              modelId = (if r_modelId r = [] then m_modelId model else r_modelId r),
              weight = (case r_weight r of Some w \<Rightarrow> if w > 0 then w else 1 | None \<Rightarrow> 1),
              label = r_label r, settings = r_settings r\<rparr>)
          (enumerate 0 enabled))"

datatype call_prefix = Chat | ChatStream

definition prefix_text :: "call_prefix \<Rightarrow> string" where
  "prefix_text p = (case p of Chat \<Rightarrow> ''chat'' | ChatStream \<Rightarrow> ''chat-stream'')"

definition isCooling :: "circuits \<Rightarrow> call_prefix \<Rightarrow> ResolvedReplica \<Rightarrow> bool" where
  "isCooling cs p replica =
     (map_option state (getCircuitState (js_join '':'' [prefix_text p, providerKey replica, modelId replica]) cs) = Some Open)"

text \<open>The first index at which the ticket is used up, or the last.\<close>

fun pick :: "jsnum \<Rightarrow> ResolvedReplica list \<Rightarrow> nat" where
  "pick ticket [] = 0"
| "pick ticket [r] = 0"
| "pick ticket (r # rs) = (if ticket - weight r \<le> 0 then 0 else Suc (pick (ticket - weight r) rs))"

lemma pick_less [simp]: "pool \<noteq> [] \<Longrightarrow> pick ticket pool < length pool"
  by (induction ticket pool rule: pick.induct) auto

definition total_weight :: "ResolvedReplica list \<Rightarrow> jsnum" where
  "total_weight pool = sum_list (map weight pool)"

definition splice_out :: "nat \<Rightarrow> 'a list \<Rightarrow> 'a list" where
  "splice_out i xs = take i xs @ drop (Suc i) xs"

lemma length_splice_out [simp]: "i < length xs \<Longrightarrow> length (splice_out i xs) = length xs - 1"
  by (simp add: splice_out_def)

text \<open>\<open>draws k\<close> is the \<open>k\<close>-th number drawn.\<close>

function weightedShuffle :: "(nat \<Rightarrow> jsnum) \<Rightarrow> nat \<Rightarrow> ResolvedReplica list \<Rightarrow> ResolvedReplica list" where
  "weightedShuffle draws k pool =
     (if pool = [] then []
      else
        let picked = pick (draws k * total_weight pool) pool
        in pool ! picked # weightedShuffle draws (Suc k) (splice_out picked pool))"
  by pat_completeness auto
termination by (relation "measure (\<lambda>(draws, k, pool). length pool)") simp_all

declare weightedShuffle.simps [simp del]

definition replicaOrder :: "circuits \<Rightarrow> IModel \<Rightarrow> call_prefix \<Rightarrow> (nat \<Rightarrow> jsnum) \<Rightarrow> ResolvedReplica list" where
  "replicaOrder cs model p draws =
     (let replicas = listReplicas model in
      if length replicas = 1 then replicas
      else
        let healthy = filter (\<lambda>r. \<not> isCooling cs p r) replicas; cooling = filter (isCooling cs p) replicas
        in weightedShuffle draws 0 healthy @ weightedShuffle draws (length healthy) cooling)"

definition modelForReplica :: "IModel \<Rightarrow> ResolvedReplica \<Rightarrow> IModel" where
  "modelForReplica model replica =
     (if providerKey replica = m_providerKey model \<and> modelId replica = m_modelId model \<and> settings replica = None then model
      else
        let m = model\<lparr>m_providerKey := providerKey replica, m_modelId := modelId replica\<rparr>
        in case settings replica of
             None \<Rightarrow> m
           | Some s \<Rightarrow> m\<lparr>m_settings := Some (foldl (\<lambda>acc (k, v). map_set acc k v) (nullish (m_settings model) []) s)\<rparr>)"

definition primaryReplicaModel :: "IModel \<Rightarrow> IModel" where
  "primaryReplicaModel model = modelForReplica model (hd (listReplicas model))"

text \<open>The key under which a call of the gateway counts its failures.\<close>

definition chatResilienceKey :: "call_prefix \<Rightarrow> string \<Rightarrow> IModel \<Rightarrow> string" where
  "chatResilienceKey p tenantDbName model = js_join '':'' [prefix_text p, tenantDbName, m_providerKey model, m_modelId model]"

section \<open>Errors\<close>

text \<open>A thrown value: an object by its address, a number, or anything else; what an object holds is in a heap, and links may be cyclic.\<close>

datatype thrown_value = ThrownObject nat | ThrownNumber jsnum | ThrownOther

record thrown_object =
  to_status :: "thrown_value option"
  to_statusCode :: "thrown_value option"
  to_status_code :: "thrown_value option"
  to_error :: thrown_value
  to_response :: thrown_value
  to_cause :: thrown_value
  to_name :: string
  to_message :: string

type_synonym error_heap = "(nat, thrown_object) jsmap"

definition status_field :: "thrown_value option \<Rightarrow> jsnum option" where
  "status_field v = (case v of Some (ThrownNumber n) \<Rightarrow> if 100 \<le> n \<and> n < 600 then Some n else None | _ \<Rightarrow> None)"

definition own_status :: "thrown_object \<Rightarrow> jsnum option" where
  "own_status e = opt_or (status_field (to_status e)) (opt_or (status_field (to_statusCode e)) (status_field (to_status_code e)))"

definition error_links :: "thrown_object \<Rightarrow> thrown_value list" where
  "error_links e = [to_error e, to_response e, to_cause e]"

text \<open>The search, breadth first; an address without an object cannot occur and is passed over.\<close>

function search_status :: "error_heap \<Rightarrow> nat list \<Rightarrow> thrown_value list \<Rightarrow> jsnum option" where
  "search_status h seen queue =
     (case queue of
        [] \<Rightarrow> None
      | ThrownObject a # rest \<Rightarrow>
          if a \<in> set seen then search_status h seen rest
          else
            (case map_get h a of
               None \<Rightarrow> search_status h seen rest
             | Some e \<Rightarrow>
                 (case own_status e of
                    Some n \<Rightarrow> Some n
                  | None \<Rightarrow> search_status h (a # seen) (rest @ error_links e)))
      | _ # rest \<Rightarrow> search_status h seen rest)"
  by pat_completeness auto
termination
proof (relation "measures [\<lambda>(h, seen, queue). card (fst ` set h - set seen), \<lambda>(h, seen, queue). length queue]", goal_cases)
  case (4 h seen queue v rest a e)
  then have "a \<in> fst ` set h - set seen" by (auto dest: map_of_SomeD intro: rev_image_eqI)
  then have "card (fst ` set h - set seen - {a}) < card (fst ` set h - set seen)" by (intro card_Diff1_less) auto
  then show ?case by (simp add: Diff_insert [symmetric])
qed auto

declare search_status.simps [simp del]

definition readStatus :: "error_heap \<Rightarrow> thrown_value \<Rightarrow> jsnum option" where
  "readStatus h e = search_status h [] [e]"

definition TRAVELLING_WORDS :: "string list" where
  "TRAVELLING_WORDS = [''circuit breaker'', ''timeout'', ''timed out'', ''aborterror'', ''econn'', ''enotfound'', ''fetch failed'',
     ''connection error'', ''connection refused'', ''connection reset'', ''socket hang up'', ''unavailable'']"

definition error_signal :: "error_heap \<Rightarrow> thrown_value \<Rightarrow> string" where
  "error_signal h e =
     (case e of
        ThrownObject a \<Rightarrow> (case map_get h a of Some x \<Rightarrow> to_lower (to_name x @ '' '' @ to_message x) | None \<Rightarrow> '' '')
      | _ \<Rightarrow> '' '')"

definition shouldTryNextReplica :: "error_heap \<Rightarrow> thrown_value \<Rightarrow> bool" where
  "shouldTryNextReplica h e =
     (case readStatus h e of
        Some status \<Rightarrow> if status = 408 \<or> status = 409 \<or> status = 429 then True else status \<ge> 500
      | None \<Rightarrow> list_ex (includes_str (error_signal h e)) TRAVELLING_WORDS)"

section \<open>Failover\<close>

type_synonym ('s, 'v) attempt = "IModel \<Rightarrow> ResolvedReplica \<Rightarrow> 's \<Rightarrow> ((error_heap \<times> thrown_value) + 'v) \<times> 's"

fun try_replicas ::
  "('s, 'v) attempt \<Rightarrow> IModel \<Rightarrow> ResolvedReplica list \<Rightarrow> ResolvedReplica list \<Rightarrow> 's \<Rightarrow>
     ((error_heap \<times> thrown_value) + 'v \<times> ResolvedReplica \<times> ResolvedReplica list) option \<times> 's" where
  "try_replicas attempt model failed [] s = (None, s)"
| "try_replicas attempt model failed (replica # rest) s =
     (case attempt (modelForReplica model replica) replica s of
        (Inr v, s) \<Rightarrow> (Some (Inr (v, replica, failed)), s)
      | (Inl (h, e), s) \<Rightarrow>
          if rest = [] \<or> \<not> shouldTryNextReplica h e then (Some (Inl (h, e)), s)
          else try_replicas attempt model (failed @ [replica]) rest s)"

text \<open>The order is fixed when the call starts. It is never empty, so the throw after the loop is not reached (\<open>None\<close>).\<close>

definition runAcrossReplicas where
  "runAcrossReplicas cs model p draws attempt s = try_replicas attempt model [] (replicaOrder cs model p draws) s"

section \<open>The order\<close>

lemma mset_splice_out: "i < length xs \<Longrightarrow> mset xs = add_mset (xs ! i) (mset (splice_out i xs))"
proof -
  assume i: "i < length xs"
  have "mset xs = mset (take i xs @ xs ! i # drop (Suc i) xs)" by (simp add: id_take_nth_drop [OF i, symmetric])
  then show ?thesis by (simp add: splice_out_def)
qed

lemma mset_weightedShuffle: "mset (weightedShuffle draws k pool) = mset pool"
proof (induction draws k pool rule: weightedShuffle.induct)
  case (1 draws k pool)
  show ?case
  proof (cases "pool = []")
    case True
    then show ?thesis by (simp add: weightedShuffle.simps)
  next
    case False
    let ?i = "pick (draws k * total_weight pool) pool"
    have "mset (weightedShuffle draws (Suc k) (splice_out ?i pool)) = mset (splice_out ?i pool)" using 1 [OF False refl] .
    then show ?thesis
      using False mset_splice_out [of ?i pool] by (subst weightedShuffle.simps) (simp add: Let_def)
  qed
qed

lemma weightedShuffle_set [simp]: "set (weightedShuffle draws k pool) = set pool"
  using mset_weightedShuffle by (rule mset_eq_setD)

lemma mset_replicaOrder: "mset (replicaOrder cs model p draws) = mset (listReplicas model)"
  using multiset_partition [of "mset (listReplicas model)" "\<lambda>r. \<not> isCooling cs p r", symmetric]
  by (simp add: replicaOrder_def Let_def mset_weightedShuffle)

text \<open>
  The order of a call holds each replica of the pool once, and no replica whose breaker counts as open comes before one
  whose breaker does not.
\<close>

theorem healthy_replicas_come_first:
  "mset (replicaOrder cs model p draws) = mset (listReplicas model) \<and> sorted (map (isCooling cs p) (replicaOrder cs model p draws))"
proof (cases "length (listReplicas model) = 1")
  case True
  then show ?thesis by (cases "listReplicas model") (simp_all add: replicaOrder_def)
next
  case False
  let ?healthy = "filter (\<lambda>r. \<not> isCooling cs p r) (listReplicas model)" and ?cooling = "filter (isCooling cs p) (listReplicas model)"
  have flat: "sorted (map (isCooling cs p) xs)" if "\<forall>x \<in> set xs. isCooling cs p x = b" for xs b
    using that by (induction xs) auto
  have "sorted (map (isCooling cs p) (weightedShuffle draws 0 ?healthy))" by (rule flat [of _ False]) simp
  moreover have "sorted (map (isCooling cs p) (weightedShuffle draws (length ?healthy) ?cooling))" by (rule flat [of _ True]) simp
  ultimately have "sorted (map (isCooling cs p) (replicaOrder cs model p draws))"
    using False by (auto simp: replicaOrder_def Let_def sorted_append)
  then show ?thesis by (simp add: mset_replicaOrder)
qed

definition reach_weight :: "nat \<Rightarrow> ResolvedReplica list \<Rightarrow> jsnum" where
  "reach_weight i pool = total_weight (take i pool)"

lemma weights_positive: "r \<in> set (listReplicas model) \<Longrightarrow> 0 < weight r"
  by (auto simp: listReplicas_def Let_def split: if_splits option.splits)

text \<open>
  A draw picks by share of weight: the replica whose stretch of the summed weights the drawn number falls into, each
  stretch as long as the weight.
\<close>

theorem draw_picks_by_weight:
  assumes "\<forall>r \<in> set pool. 0 < weight r" "0 \<le> ticket" "ticket \<le> total_weight pool" "i < length pool"
  shows "pick ticket pool = i \<longleftrightarrow> (i = 0 \<or> reach_weight i pool < ticket) \<and> ticket \<le> reach_weight (Suc i) pool"
  using assms
proof (induction ticket pool arbitrary: i rule: pick.induct)
  case (2 ticket r)
  then show ?case by (simp add: reach_weight_def total_weight_def)
next
  case (3 ticket r r' rs)
  have w: "0 < weight r" "\<forall>x \<in> set (r' # rs). 0 < weight x" using 3(2) by simp_all
  have nonneg: "0 \<le> reach_weight n (r' # rs)" for n
  proof -
    have "\<forall>x \<in> set (take n (r' # rs)). 0 < weight x" using w(2) in_set_takeD by fast
    then show ?thesis unfolding reach_weight_def total_weight_def by (intro sum_list_nonneg) auto
  qed
  have reach: "reach_weight (Suc n) (r # r' # rs) = weight r + reach_weight n (r' # rs)" for n
    by (simp add: reach_weight_def total_weight_def)
  show ?case
  proof (cases "ticket - weight r \<le> 0")
    case True
    then show ?thesis using nonneg [of "i - 1"] by (cases i) (auto simp: reach reach_weight_def total_weight_def)
  next
    case False
    show ?thesis
    proof (cases i)
      case 0
      then show ?thesis using False by (simp add: reach reach_weight_def total_weight_def)
    next
      case (Suc j)
      have "pick (ticket - weight r) (r' # rs) = j \<longleftrightarrow> (j = 0 \<or> reach_weight j (r' # rs) < ticket - weight r) \<and> ticket - weight r \<le> reach_weight (Suc j) (r' # rs)"
        using 3(1) [OF False] False w(2) 3(4,5) Suc by (simp add: total_weight_def)
      then show ?thesis using False Suc by (auto simp: reach reach_weight_def total_weight_def algebra_simps)
    qed
  qed
qed simp

section \<open>Breakers\<close>

lemma key_of_pool: "js_join '':'' [prefix_text p, a, b] = prefix_text p @ CHR '':'' # a @ CHR '':'' # b"
  by simp

lemma colon_free: "CHR '':'' \<notin> set (prefix_text p)"
  by (cases p) (simp_all add: prefix_text_def)

lemma first_part:
  assumes "CHR '':'' \<notin> set a" "CHR '':'' \<notin> set b" "a @ CHR '':'' # x = b @ CHR '':'' # y"
  shows "a = b \<and> x = y"
proof -
  have "split_on CHR '':'' (a @ CHR '':'' # x) = split_on CHR '':'' (b @ CHR '':'' # y)" using assms(3) by simp
  then have "a = b" using assms(1,2) by (simp add: split_on_append)
  then show ?thesis using assms(3) by simp
qed

text \<open>
  C23: The breakers never reach the pool. The gateway counts failures under keys that hold the tenant; the pool looks for keys that
  do not. Whatever breakers the calls of any tenants have opened, no replica counts as cooling, and the order is that of a pool
  without breakers, as long as no provider key is the name of a tenant's database.
\<close>

theorem breakers_never_reach_the_pool:
  assumes "\<forall>key \<in> fst ` set cs. \<exists>p t m. t \<in> tenants \<and> key = chatResilienceKey p t m"
    "\<forall>t \<in> tenants. CHR '':'' \<notin> set t"
    "\<forall>r \<in> set (listReplicas model). CHR '':'' \<notin> set (providerKey r) \<and> providerKey r \<notin> tenants"
  shows "(\<forall>r \<in> set (listReplicas model). \<not> isCooling cs p r) \<and> replicaOrder cs model p draws = replicaOrder [] model p draws"
proof -
  have not: "\<not> isCooling cs p r" if r: "r \<in> set (listReplicas model)" for r
  proof
    assume "isCooling cs p r"
    then obtain c where "map_get cs (js_join '':'' [prefix_text p, providerKey r, modelId r]) = Some c"
      by (auto simp: isCooling_def getCircuitState_def)
    then have "js_join '':'' [prefix_text p, providerKey r, modelId r] \<in> fst ` set cs" by (force dest: map_of_SomeD)
    then obtain q t m where t: "t \<in> tenants" and key: "js_join '':'' [prefix_text p, providerKey r, modelId r] = chatResilienceKey q t m"
      using assms(1) by blast
    from key have "prefix_text p @ CHR '':'' # (providerKey r @ CHR '':'' # modelId r) =
        prefix_text q @ CHR '':'' # (t @ CHR '':'' # m_providerKey m @ CHR '':'' # m_modelId m)" by (simp add: chatResilienceKey_def)
    from first_part [OF colon_free colon_free this] have
      "providerKey r @ CHR '':'' # modelId r = t @ CHR '':'' # m_providerKey m @ CHR '':'' # m_modelId m" by blast
    from first_part [OF _ _ this] have "providerKey r = t" using assms(2,3) r t by blast
    then show False using assms(3) r t by blast
  qed
  moreover have "\<not> isCooling [] p r" for r by (simp add: isCooling_def getCircuitState_def)
  ultimately show ?thesis by (auto simp: replicaOrder_def Let_def cong: filter_cong)
qed

section \<open>The status of an error\<close>

inductive reaches :: "error_heap \<Rightarrow> thrown_value \<Rightarrow> nat \<Rightarrow> bool" for h v where
  itself: "v = ThrownObject a \<Longrightarrow> reaches h v a"
| link: "reaches h v a \<Longrightarrow> map_get h a = Some e \<Longrightarrow> ThrownObject b \<in> set (error_links e) \<Longrightarrow> reaches h v b"

lemma search_simps:
  "search_status h seen [] = None"
  "search_status h seen (ThrownObject a # rest) =
     (if a \<in> set seen then search_status h seen rest
      else (case map_get h a of
              None \<Rightarrow> search_status h seen rest
            | Some e \<Rightarrow> (case own_status e of Some n \<Rightarrow> Some n | None \<Rightarrow> search_status h (a # seen) (rest @ error_links e))))"
  "search_status h seen (ThrownNumber x # rest) = search_status h seen rest"
  "search_status h seen (ThrownOther # rest) = search_status h seen rest"
  by (subst search_status.simps, simp)+

lemma search_finds:
  "search_status h seen queue = Some n \<Longrightarrow> (\<forall>v \<in> set queue. \<forall>a. v = ThrownObject a \<longrightarrow> reaches h start a) \<Longrightarrow>
     \<exists>a e. reaches h start a \<and> map_get h a = Some e \<and> own_status e = Some n"
proof (induction h seen queue rule: search_status.induct)
  case (1 h seen queue)
  show ?case
  proof (cases queue)
    case Nil
    then show ?thesis using 1(6) by (simp add: search_simps)
  next
    case (Cons v rest)
    show ?thesis
    proof (cases v)
      case (ThrownObject a)
      have a: "reaches h start a" using 1(7) Cons ThrownObject by simp
      show ?thesis
      proof (cases "a \<in> set seen \<or> map_get h a = None")
        case True
        then have "search_status h seen rest = Some n" using 1(6) Cons ThrownObject True by (auto simp: search_simps split: if_splits)
        then show ?thesis using 1(1,2) [OF Cons ThrownObject] True 1(7) Cons by auto
      next
        case False
        then obtain e where e: "map_get h a = Some e" "a \<notin> set seen" by auto
        show ?thesis
        proof (cases "own_status e")
          case (Some m)
          then have "m = n" using 1(6) Cons ThrownObject e by (simp add: search_simps)
          then show ?thesis using a e(1) Some by blast
        next
          case None
          then have "search_status h (a # seen) (rest @ error_links e) = Some n"
            using 1(6) Cons ThrownObject e by (simp add: search_simps)
          moreover have "\<forall>v \<in> set (rest @ error_links e). \<forall>b. v = ThrownObject b \<longrightarrow> reaches h start b"
            using 1(7) Cons link [OF a e(1)] by auto
          ultimately show ?thesis using 1(3) [OF Cons ThrownObject e(2,1) None] by blast
        qed
      qed
    next
      case (ThrownNumber x)
      then have "search_status h seen rest = Some n" using 1(6) Cons by (simp add: search_simps)
      then show ?thesis using 1(4) [OF Cons] ThrownNumber 1(7) Cons by auto
    next
      case ThrownOther
      then have "search_status h seen rest = Some n" using 1(6) Cons by (simp add: search_simps)
      then show ?thesis using 1(5) [OF Cons] ThrownOther 1(7) Cons by auto
    qed
  qed
qed


text \<open>What has been seen has no status, and its links are seen or queued.\<close>

definition explored :: "error_heap \<Rightarrow> nat list \<Rightarrow> thrown_value list \<Rightarrow> bool" where
  "explored h seen queue \<longleftrightarrow>
     (\<forall>a \<in> set seen. \<forall>e. map_get h a = Some e \<longrightarrow> own_status e = None \<and>
        (\<forall>b. ThrownObject b \<in> set (error_links e) \<longrightarrow> b \<in> set seen \<or> ThrownObject b \<in> set queue \<or> map_get h b = None))"

lemma search_misses_none:
  "search_status h seen queue = None \<Longrightarrow> explored h seen queue \<Longrightarrow>
     \<exists>S. set seen \<union> {a. ThrownObject a \<in> set queue \<and> map_get h a \<noteq> None} \<subseteq> S \<and>
       (\<forall>a \<in> S. \<forall>e. map_get h a = Some e \<longrightarrow> own_status e = None \<and> (\<forall>b. ThrownObject b \<in> set (error_links e) \<longrightarrow> b \<in> S \<or> map_get h b = None))"
proof (induction h seen queue rule: search_status.induct)
  case (1 h seen queue)
  show ?case
  proof (cases queue)
    case Nil
    then show ?thesis using 1(7) by (intro exI [of _ "set seen"]) (auto simp: explored_def)
  next
    case (Cons v rest)
    show ?thesis
    proof (cases v)
      case (ThrownObject a)
      consider (old) "a \<in> set seen" | (gone) "a \<notin> set seen" "map_get h a = None" | (new) e where "a \<notin> set seen" "map_get h a = Some e" by fastforce
      then show ?thesis
      proof cases
        case old
        have "explored h seen rest" using 1(7) Cons ThrownObject old by (auto simp: explored_def) (metis option.distinct(1))
        moreover have "search_status h seen rest = None" using 1(6) Cons ThrownObject old by (simp add: search_simps)
        ultimately obtain S where "set seen \<union> {a. ThrownObject a \<in> set rest \<and> map_get h a \<noteq> None} \<subseteq> S"
          "\<forall>a \<in> S. \<forall>e. map_get h a = Some e \<longrightarrow> own_status e = None \<and> (\<forall>b. ThrownObject b \<in> set (error_links e) \<longrightarrow> b \<in> S \<or> map_get h b = None)"
          using 1(1) [OF Cons ThrownObject old] by blast
        then show ?thesis using old Cons ThrownObject by (intro exI [of _ S]) auto
      next
        case gone
        have "explored h seen rest" using 1(7) Cons ThrownObject gone by (auto simp: explored_def) (metis option.distinct(1))
        moreover have "search_status h seen rest = None" using 1(6) Cons ThrownObject gone by (simp add: search_simps)
        ultimately obtain S where "set seen \<union> {a. ThrownObject a \<in> set rest \<and> map_get h a \<noteq> None} \<subseteq> S"
          "\<forall>a \<in> S. \<forall>e. map_get h a = Some e \<longrightarrow> own_status e = None \<and> (\<forall>b. ThrownObject b \<in> set (error_links e) \<longrightarrow> b \<in> S \<or> map_get h b = None)"
          using 1(2) [OF Cons ThrownObject gone] by blast
        then show ?thesis using gone Cons ThrownObject by (intro exI [of _ S]) auto
      next
        case (new e)
        then have status: "own_status e = None" and rec: "search_status h (a # seen) (rest @ error_links e) = None"
          using 1(6) Cons ThrownObject by (auto simp: search_simps split: option.splits)
        have "explored h (a # seen) (rest @ error_links e)"
          using 1(7) Cons ThrownObject new status by (auto simp: explored_def) (metis option.distinct(1))
        from 1(3) [OF Cons ThrownObject new status rec this] obtain S where "set (a # seen) \<union> {b. ThrownObject b \<in> set (rest @ error_links e) \<and> map_get h b \<noteq> None} \<subseteq> S"
          "\<forall>a \<in> S. \<forall>e. map_get h a = Some e \<longrightarrow> own_status e = None \<and> (\<forall>b. ThrownObject b \<in> set (error_links e) \<longrightarrow> b \<in> S \<or> map_get h b = None)"
          by blast
        then show ?thesis using Cons ThrownObject by (intro exI [of _ S]) auto
      qed
    next
      case (ThrownNumber x)
      have "explored h seen rest" "search_status h seen rest = None" using 1(6,7) Cons ThrownNumber by (auto simp: explored_def search_simps)
      from 1(4) [OF Cons ThrownNumber this(2,1)] show ?thesis using Cons ThrownNumber by simp
    next
      case ThrownOther
      have "explored h seen rest" "search_status h seen rest = None" using 1(6,7) Cons ThrownOther by (auto simp: explored_def search_simps)
      from 1(5) [OF Cons ThrownOther this(2,1)] show ?thesis using Cons ThrownOther by simp
    qed
  qed
qed


lemma reaches_inside:
  assumes "reaches h v a" "\<forall>b. v = ThrownObject b \<and> map_get h b \<noteq> None \<longrightarrow> b \<in> S"
    "\<forall>a \<in> S. \<forall>e. map_get h a = Some e \<longrightarrow> own_status e = None \<and> (\<forall>b. ThrownObject b \<in> set (error_links e) \<longrightarrow> b \<in> S \<or> map_get h b = None)"
  shows "map_get h a = Some e \<longrightarrow> a \<in> S"
  using assms(1)
proof (induction arbitrary: e)
  case (itself a)
  then show ?case using assms(2) by auto
next
  case (link a e' b)
  then have "a \<in> S" by blast
  from bspec [OF assms(3) this] have "b \<in> S \<or> map_get h b = None" using link(2,3) by simp
  then show ?case by auto
qed

text \<open>
  C24: The status of an error is found exactly when there is one, and the search ends though links may be cyclic: a status that is
  read belongs to an object that the error leads to, and if none is read no object that the error leads to has one.
\<close>

theorem status_is_read_exactly:
  "case readStatus h v of
     Some n \<Rightarrow> \<exists>a e. reaches h v a \<and> map_get h a = Some e \<and> own_status e = Some n
   | None \<Rightarrow> \<forall>a e. reaches h v a \<and> map_get h a = Some e \<longrightarrow> own_status e = None"
proof (cases "readStatus h v")
  case (Some n)
  have "\<forall>x \<in> set [v]. \<forall>a. x = ThrownObject a \<longrightarrow> reaches h v a" by (auto intro: reaches.itself)
  from search_finds [OF Some [unfolded readStatus_def] this] show ?thesis using Some by simp
next
  case None
  have "explored h [] [v]" by (simp add: explored_def)
  from search_misses_none [OF None [unfolded readStatus_def] this] obtain S where S:
    "{a. ThrownObject a \<in> set [v] \<and> map_get h a \<noteq> None} \<subseteq> S"
    "\<forall>a \<in> S. \<forall>e. map_get h a = Some e \<longrightarrow> own_status e = None \<and> (\<forall>b. ThrownObject b \<in> set (error_links e) \<longrightarrow> b \<in> S \<or> map_get h b = None)"
    by auto
  have "\<forall>b. v = ThrownObject b \<and> map_get h b \<noteq> None \<longrightarrow> b \<in> S" using S(1) by auto
  note reaches_inside [OF _ this S(2)]
  then have "\<forall>a e. reaches h v a \<and> map_get h a = Some e \<longrightarrow> own_status e = None" using S(2) by blast
  then show ?thesis using None by simp
qed

section \<open>What failover gives\<close>

fun attempts :: "('s, 'v) attempt \<Rightarrow> IModel \<Rightarrow> ResolvedReplica list \<Rightarrow> 's \<Rightarrow> ((error_heap \<times> thrown_value) + 'v) list" where
  "attempts attempt model [] s = []"
| "attempts attempt model (r # rs) s =
     (case attempt (modelForReplica model r) r s of (result, s) \<Rightarrow> result # attempts attempt model rs s)"

definition travels :: "(error_heap \<times> thrown_value) + 'v \<Rightarrow> bool" where
  "travels result \<longleftrightarrow> (case result of Inl (h, e) \<Rightarrow> shouldTryNextReplica h e | Inr _ \<Rightarrow> False)"

definition failover_result ::
  "ResolvedReplica list \<Rightarrow> ResolvedReplica list \<Rightarrow> ((error_heap \<times> thrown_value) + 'v) list \<Rightarrow> nat \<Rightarrow>
     ((error_heap \<times> thrown_value) + 'v \<times> ResolvedReplica \<times> ResolvedReplica list)" where
  "failover_result failed order results i =
     (case results ! i of Inl e \<Rightarrow> Inl e | Inr v \<Rightarrow> Inr (v, order ! i, failed @ take i order))"

lemma length_attempts [simp]: "length (attempts attempt model rs s) = length rs"
  by (induction rs arbitrary: s) (auto split: prod.split)

lemma try_replicas_stops:
  "rs \<noteq> [] \<Longrightarrow> \<exists>i < length rs. fst (try_replicas attempt model failed rs s) = Some (failover_result failed rs (attempts attempt model rs s) i) \<and>
     (\<forall>j < i. travels (attempts attempt model rs s ! j)) \<and>
     (Suc i = length rs \<or> \<not> travels (attempts attempt model rs s ! i))"
proof (induction rs arbitrary: failed s)
  case (Cons r rs)
  obtain result s' where a: "attempt (modelForReplica model r) r s = (result, s')" by fastforce
  show ?case
  proof (cases "rs = [] \<or> \<not> travels result")
    case True
    then have "fst (try_replicas attempt model failed (r # rs) s) = Some (failover_result failed (r # rs) (result # attempts attempt model rs s') 0)"
      by (cases result) (auto simp: a failover_result_def travels_def)
    then show ?thesis using True by (intro exI [of _ 0]) (auto simp: a)
  next
    case False
    then obtain h e where result: "result = Inl (h, e)" "shouldTryNextReplica h e" by (auto simp: travels_def split: sum.splits)
    obtain i where i: "i < length rs"
      "fst (try_replicas attempt model (failed @ [r]) rs s') = Some (failover_result (failed @ [r]) rs (attempts attempt model rs s') i)"
      "\<forall>j < i. travels (attempts attempt model rs s' ! j)" "Suc i = length rs \<or> \<not> travels (attempts attempt model rs s' ! i)"
      using Cons.IH [of "failed @ [r]" s'] False by blast
    have "fst (try_replicas attempt model failed (r # rs) s) = Some (failover_result failed (r # rs) (result # attempts attempt model rs s') (Suc i))"
      using i(2) False result by (simp add: a failover_result_def split: sum.split)
    moreover have "\<forall>j < Suc i. travels ((result # attempts attempt model rs s') ! j)"
      using i(3) False by (auto simp: nth_Cons' less_Suc_eq_0_disj)
    ultimately show ?thesis using i(1,4) by (intro exI [of _ "Suc i"]) (simp add: a)
  qed
qed simp

lemma listReplicas_not_Nil: "listReplicas model \<noteq> []"
  by (auto simp: listReplicas_def Let_def enumerate_eq_zip)

text \<open>
  C34: Failover ends, always with a result: that of the first replica in order whose attempt succeeds or fails with an error that
  does not travel, or of the last one. So if every failure travels, a call is answered whenever one replica of the pool answers,
  and the replicas reported as failed are those tried before it.
\<close>

theorem failover_finds_an_answer:
  fixes attempt :: "('s, 'v) attempt"
  assumes "order = replicaOrder cs model p draws" "results = attempts attempt model order s"
    "\<forall>result \<in> set results. travels result \<or> (\<exists>v. result = Inr v)"
  shows "(\<exists>i v. i < length order \<and> results ! i = Inr v \<and> (\<forall>j < i. \<not> (\<exists>u. results ! j = Inr u)) \<and>
      fst (runAcrossReplicas cs model p draws attempt s) = Some (Inr (v, order ! i, take i order))) \<or>
    (\<forall>result \<in> set results. \<not> (\<exists>v. result = Inr v)) \<and> (\<exists>e. fst (runAcrossReplicas cs model p draws attempt s) = Some (Inl e))"
proof -
  have "mset order = mset (listReplicas model)" unfolding assms(1) by (rule mset_replicaOrder)
  then have "order \<noteq> []" using listReplicas_not_Nil [of model] by auto
  from try_replicas_stops [OF this, of attempt model "[]" s]
  obtain i where i: "i < length order" "fst (runAcrossReplicas cs model p draws attempt s) = Some (failover_result [] order results i)"
    "\<forall>j < i. travels (results ! j)" "Suc i = length order \<or> \<not> travels (results ! i)"
    unfolding runAcrossReplicas_def assms(1,2) by blast
  have len: "length results = length order" by (simp add: assms(2))
  have no: "\<not> (\<exists>u. result = Inr u)" if "travels result" for result :: "(error_heap \<times> thrown_value) + 'v" using that by (auto simp: travels_def)
  show ?thesis
  proof (cases "results ! i")
    case (Inr v)
    then have "fst (runAcrossReplicas cs model p draws attempt s) = Some (Inr (v, order ! i, take i order))"
      using i(2) by (simp add: failover_result_def)
    then show ?thesis using i(1,3) Inr no by blast
  next
    case (Inl e)
    then have "travels (results ! i)" using assms(3) i(1) len by (metis nth_mem Inl_Inr_False)
    then have "Suc i = length order" using i(4) by blast
    then have "travels (results ! j)" if "j < length results" for j using i(3) \<open>travels (results ! i)\<close> that len by (metis less_Suc_eq)
    then have "\<forall>result \<in> set results. \<not> (\<exists>v. result = Inr v)" using no by (metis in_set_conv_nth)
    then show ?thesis using i(2) Inl by (simp add: failover_result_def)
  qed
qed

definition deployment :: "string \<Rightarrow> jsnum \<Rightarrow> IModelReplica" where
  "deployment name w = \<lparr>r_providerKey = name, r_modelId = ''m'', r_weight = Some w, r_enabled = None, r_settings = None, r_label = None\<rparr>"

definition pooled :: IModel where
  "pooled = \<lparr>m_key = ''m'', m_providerKey = ''east'', m_modelId = ''m'',
     m_replicas = Some [deployment ''east'' 3, deployment ''west'' 1], m_settings = None\<rparr>"

lemma pooled_replicas:
  "listReplicas pooled =
     [\<lparr>index = 0, providerKey = ''east'', modelId = ''m'', weight = 3, label = None, settings = None\<rparr>,
      \<lparr>index = 1, providerKey = ''west'', modelId = ''m'', weight = 1, label = None, settings = None\<rparr>]"
  by (simp add: listReplicas_def pooled_def deployment_def Let_def)

theorem draw_picks_by_weight_witness:
  "pick (1 / 2 * total_weight (listReplicas pooled)) (listReplicas pooled) = 0"
proof -
  have "\<forall>r \<in> set (listReplicas pooled). 0 < weight r" "0 \<le> (2::jsnum)" "2 \<le> total_weight (listReplicas pooled)" "0 < length (listReplicas pooled)"
    by (simp_all add: pooled_replicas total_weight_def)
  from draw_picks_by_weight [OF this] show ?thesis by (simp add: pooled_replicas total_weight_def reach_weight_def)
qed

text \<open>A breaker that a call of the tenant \<open>acme\<close> opened for the deployment \<open>east\<close>.\<close>

definition opened :: circuits where
  "opened = [(chatResilienceKey Chat ''acme'' pooled, \<lparr>state = Open, failures = 5, lastFailureAt = 0, lastAttemptAt = 0\<rparr>)]"

theorem breakers_never_reach_the_pool_witness:
  "replicaOrder opened pooled Chat (\<lambda>_. 0) = listReplicas pooled"
proof -
  have "\<forall>key \<in> fst ` set opened. \<exists>p t m. t \<in> {''acme''} \<and> key = chatResilienceKey p t m" by (auto simp: opened_def)
  moreover have "\<forall>t \<in> {''acme''}. CHR '':'' \<notin> set t" by simp
  moreover have "\<forall>r \<in> set (listReplicas pooled). CHR '':'' \<notin> set (providerKey r) \<and> providerKey r \<notin> {''acme''}" by (simp add: pooled_replicas)
  ultimately have "replicaOrder opened pooled Chat (\<lambda>_. 0) = replicaOrder [] pooled Chat (\<lambda>_. 0)"
    by (rule breakers_never_reach_the_pool [THEN conjunct2])
  also have "\<dots> = listReplicas pooled"
    by (simp add: replicaOrder_def pooled_replicas isCooling_def getCircuitState_def weightedShuffle.simps total_weight_def splice_out_def Let_def)
  finally show ?thesis .
qed

definition looped :: error_heap where
  "looped = [(0, \<lparr>to_status = None, to_statusCode = None, to_status_code = None, to_error = ThrownOther, to_response = ThrownObject 1,
       to_cause = ThrownObject 0, to_name = ''Error'', to_message = ''x''\<rparr>),
     (1, \<lparr>to_status = None, to_statusCode = Some (ThrownNumber 503), to_status_code = None, to_error = ThrownObject 0, to_response = ThrownOther,
       to_cause = ThrownOther, to_name = ''Error'', to_message = ''y''\<rparr>)]"

lemma looped_status: "readStatus looped (ThrownObject 0) = Some 503"
  by (simp add: readStatus_def search_simps looped_def own_status_def status_field_def error_links_def)

theorem status_is_read_exactly_witness:
  "\<exists>a e. reaches looped (ThrownObject 0) a \<and> map_get looped a = Some e \<and> own_status e = Some 503"
  using status_is_read_exactly [of looped "ThrownObject 0"] by (simp add: looped_status)

definition east_is_down :: "(nat, string) attempt" where
  "east_is_down m r n = (if providerKey r = ''east'' then Inl (looped, ThrownObject 0) else Inr ''hello'', n + 1)"

theorem failover_finds_an_answer_witness:
  "\<exists>i v. fst (runAcrossReplicas [] pooled Chat (\<lambda>_. 0) east_is_down 0) = Some (Inr (v, listReplicas pooled ! i, take i (listReplicas pooled)))"
proof -
  have order: "listReplicas pooled = replicaOrder [] pooled Chat (\<lambda>_. 0)"
    by (simp add: replicaOrder_def pooled_replicas isCooling_def getCircuitState_def weightedShuffle.simps total_weight_def splice_out_def Let_def)
  let ?results = "attempts east_is_down pooled (listReplicas pooled) 0"
  have results: "?results = [Inl (looped, ThrownObject 0), Inr ''hello'']" by (simp add: pooled_replicas east_is_down_def)
  have "shouldTryNextReplica looped (ThrownObject 0)" by (simp add: shouldTryNextReplica_def looped_status)
  then have all: "\<forall>result \<in> set ?results. travels result \<or> (\<exists>v. result = Inr v)" by (simp add: results travels_def)
  from failover_finds_an_answer [OF order refl all] show ?thesis by (auto simp: results)
qed

end
