(* ===== verification/PolicyRaces.thy ===== *)
theory PolicyRaces
  imports QuotaService
begin

text \<open>
  The policy cache under concurrency: \<^verbatim>\<open>loadPolicySource\<close> and \<^verbatim>\<open>fetchPolicies\<close> of \<^verbatim>\<open>src/lib/quota/quotaGuard.ts\<close>
  against the writes of \<^verbatim>\<open>src/lib/services/quota/quotaService.ts\<close>, cut at their awaits.

  A load looks the cache up, reads the tenant, the policies of the project and the tenant-wide ones, and stores what it read,
  each at a moment of its own (\<open>cached_source\<close>, \<open>load_own\<close>, \<open>load_wide\<close>, \<open>cache_source\<close>). A write changes the rows first and
  drops the cached entries later. In between, and in between the steps of other loads and writes, anything may run.
  \<open>loadPolicySource\<close> of \<^verbatim>\<open>QuotaChecks.thy\<close> is the load that nothing disturbs; the statements here say what such a load is
  given after any interleaving.
\<close>

section \<open>Loads and edits under way\<close>

text \<open>A load that missed the cache, with the lists it has read. A ghost flag says that rows it had read have changed since.\<close>

record policy_load =
  ld_tenantDb :: string
  ld_tenantId :: string
  ld_project :: string
  ld_own :: "QuotaPolicy list option"
  ld_wide :: "QuotaPolicy list option"
  ld_overtaken :: bool

type_synonym place = "string \<times> string \<times> string"

text \<open>
  The guard, the loads under way, the writes whose invalidation is still to come, and, as ghost state, the projects whose
  entry was stored by an overtaken load, with the time of it.
\<close>

record policy_system =
  ps_guard :: guard_state
  ps_loads :: "policy_load list"
  ps_edits :: "(string \<times> string \<times> string option list) list"
  ps_raced :: "place \<Rightarrow> jsnum option"

definition started :: policy_system where
  "started = \<lparr>ps_guard = empty_guard, ps_loads = [], ps_edits = [], ps_raced = (\<lambda>_. None)\<rparr>"

definition load_key :: "policy_load \<Rightarrow> string" where
  "load_key l = quotaPolicyCacheKey (ld_tenantDb l) (ld_tenantId l) (ld_project l)"

definition new_load :: "string \<Rightarrow> string \<Rightarrow> string \<Rightarrow> policy_load" where
  "new_load t i p = \<lparr>ld_tenantDb = t, ld_tenantId = i, ld_project = p, ld_own = None, ld_wide = None, ld_overtaken = False\<rparr>"

definition load_own :: "guard_state \<Rightarrow> policy_load \<Rightarrow> policy_load" where
  "load_own s l = l\<lparr>ld_own := Some (listQuotaPolicies (g_policies s (ld_tenantDb l)) (ld_tenantId l) (Some (ld_project l)))\<rparr>"

definition load_wide :: "guard_state \<Rightarrow> policy_load \<Rightarrow> policy_load" where
  "load_wide s l = l\<lparr>ld_wide := Some (listTenantWideQuotaPolicies (g_policies s (ld_tenantDb l)) (ld_tenantId l))\<rparr>"

text \<open>What a load stores: the license defaults it read, and the lists put together.\<close>

definition loaded_source :: "QuotaLimits \<Rightarrow> policy_load \<Rightarrow> QuotaPolicySource" where
  "loaded_source defaults l =
     \<lparr>source_licenseDefaults = defaults, source_policies = fetchPolicies (nullish (ld_own l) []) (nullish (ld_wide l) [])\<rparr>"

text \<open>An undisturbed load is these steps one after the other.\<close>

lemma loadPolicySource_steps:
  "loadPolicySource w s ctx now =
     (let l = new_load (ctx_tenantDbName ctx) (ctx_tenantId ctx) (ctx_projectId ctx)
      in case cached_source w s (load_key l) now of
           (Some source, s') \<Rightarrow> (Some source, s')
         | (None, s') \<Rightarrow>
             if w_policyReadFails w then (None, s')
             else let source = loaded_source (getQuotaLimitsForTenant (w_policyConfig w) (w_tenants w (ctx_tenantId ctx)) now)
                                 (load_wide s' (load_own s' l))
                  in (Some source, cache_source w s' (load_key l) source now))"
  by (simp add: loadPolicySource_def load_key_def new_load_def load_own_def load_wide_def loaded_source_def read_source_def Let_def
      split: prod.split option.split)

text \<open>
  The rows a write of the policy API leaves, and the projects its invalidation is called with. An edit addresses the row by the
  project in which it found it (\<open>q\<close>); the row is still there when the statement runs.
\<close>

inductive policy_write :: "guard_state \<Rightarrow> string \<Rightarrow> string \<Rightarrow> QuotaPolicy list \<Rightarrow> string option list \<Rightarrow> bool" for s t i where
  created: "createQuotaPolicy (g_policies s t) (payload\<lparr>pol_tenantId := i\<rparr>) newId now = (created, rows) \<Longrightarrow>
    policy_write s t i rows [pol_projectId payload]"
| deleted: "deleteQuotaPolicy (g_policies s t) j i q = (gone, rows) \<Longrightarrow> policy_write s t i rows [q]"
| edited: "updateQuotaPolicy (g_policies s t) j i patch q = (updated, rows) \<Longrightarrow>
    distinct (map pol_id (g_policies s t)) \<Longrightarrow>
    (\<And>row. row \<in> set (g_policies s t) \<Longrightarrow> pol_id row = j \<Longrightarrow> pol_tenantId row = i \<Longrightarrow>
       q = given_project (pol_projectId row) \<and> keeps_place patch row) \<Longrightarrow>
    policy_write s t i rows [q, patch_project (pt_projectId patch), (case updated of None \<Rightarrow> None | Some u \<Rightarrow> pol_projectId u)]"

text \<open>The writes of the policy API are such a write and its invalidation with nothing in between.\<close>

lemma service_writes:
  "\<exists>rows ids. policy_write s t i rows ids
     \<and> snd (service_createQuotaPolicy w s t i payload newId now) = invalidatePolicyCache w (set_rows s t rows) t i ids"
  "\<exists>rows ids. policy_write s t i rows ids
     \<and> snd (service_deleteQuotaPolicy w s t i j q) = invalidatePolicyCache w (set_rows s t rows) t i ids"
proof -
  obtain created rows where c: "createQuotaPolicy (g_policies s t) (payload\<lparr>pol_tenantId := i\<rparr>) newId now = (created, rows)" by fastforce
  from policy_write.created [OF c]
  show "\<exists>rows ids. policy_write s t i rows ids
     \<and> snd (service_createQuotaPolicy w s t i payload newId now) = invalidatePolicyCache w (set_rows s t rows) t i ids"
    by (auto simp: service_createQuotaPolicy_def c)
  obtain gone rows where d: "deleteQuotaPolicy (g_policies s t) j i q = (gone, rows)" by fastforce
  from policy_write.deleted [OF d]
  show "\<exists>rows ids. policy_write s t i rows ids
     \<and> snd (service_deleteQuotaPolicy w s t i j q) = invalidatePolicyCache w (set_rows s t rows) t i ids"
    by (auto simp: service_deleteQuotaPolicy_def d)
qed

lemma service_edits:
  assumes "findExistingPolicy s t i j = Some row" "distinct (map pol_id (g_policies s t))" "keeps_place patch row"
  shows "\<exists>rows ids. policy_write s t i rows ids
     \<and> snd (edit_policy w s t i j patch) = invalidatePolicyCache w (set_rows s t rows) t i ids"
proof -
  let ?q = "given_project (pol_projectId row)"
  obtain updated rows where u: "updateQuotaPolicy (g_policies s t) j i patch ?q = (updated, rows)" by fastforce
  have row: "row \<in> set (g_policies s t)" "pol_id row = j"
    using find_SomeD [OF assms(1) [unfolded findExistingPolicy_def]] by (auto simp: set_listQuotaPolicies)
  have "other = row" if "other \<in> set (g_policies s t)" "pol_id other = j" for other
    using assms(2) row that by (auto simp: distinct_map dest: inj_onD)
  then have "policy_write s t i rows [?q, patch_project (pt_projectId patch), (case updated of None \<Rightarrow> None | Some u \<Rightarrow> pol_projectId u)]"
    using policy_write.edited [OF u assms(2)] assms(3) by blast
  then show ?thesis using u by (auto simp: edit_policy_def assms(1) service_updateQuotaPolicy_def)
qed

definition overtake :: "guard_world \<Rightarrow> string \<Rightarrow> string \<Rightarrow> string option list \<Rightarrow> policy_load \<Rightarrow> policy_load" where
  "overtake w t i ids l =
     (if ld_own l \<noteq> None \<and> ld_tenantDb l = t \<and> ld_tenantId l = i \<and> ld_project l \<in> set (targets w t i ids)
      then l\<lparr>ld_overtaken := True\<rparr> else l)"

inductive race_step :: "guard_world \<Rightarrow> policy_system \<Rightarrow> policy_system \<Rightarrow> bool" for w where
  looks_up: "race_step w ps (ps\<lparr>ps_guard := snd (cached_source w (ps_guard ps) (quotaPolicyCacheKey t i p) now)\<rparr>)"
| misses: "plain t \<Longrightarrow> plain i \<Longrightarrow> race_step w ps (ps\<lparr>ps_loads := new_load t i p # ps_loads ps\<rparr>)"
| reads_own: "ps_loads ps = before @ l # after \<Longrightarrow> ld_own l = None \<Longrightarrow>
    race_step w ps (ps\<lparr>ps_loads := before @ load_own (ps_guard ps) l # after\<rparr>)"
| reads_wide: "ps_loads ps = before @ l # after \<Longrightarrow> ld_own l \<noteq> None \<Longrightarrow> ld_wide l = None \<Longrightarrow>
    race_step w ps (ps\<lparr>ps_loads := before @ load_wide (ps_guard ps) l # after\<rparr>)"
| stores: "ps_loads ps = before @ l # after \<Longrightarrow> ld_own l \<noteq> None \<Longrightarrow> ld_wide l \<noteq> None \<Longrightarrow> 0 \<le> now \<Longrightarrow>
    race_step w ps (ps\<lparr>ps_loads := before @ after,
      ps_guard := cache_source w (ps_guard ps) (load_key l) (loaded_source defaults l) now,
      ps_raced := (ps_raced ps)((ld_tenantDb l, ld_tenantId l, ld_project l) := (if ld_overtaken l then Some now else None))\<rparr>)"
| fails: "ps_loads ps = before @ l # after \<Longrightarrow> race_step w ps (ps\<lparr>ps_loads := before @ after\<rparr>)"
| writes: "plain t \<Longrightarrow> plain i \<Longrightarrow> policy_write (ps_guard ps) t i rows ids \<Longrightarrow>
    race_step w ps (ps\<lparr>ps_guard := set_rows (ps_guard ps) t rows, ps_loads := map (overtake w t i ids) (ps_loads ps),
      ps_edits := (t, i, ids) # ps_edits ps\<rparr>)"
| invalidates: "ps_edits ps = before @ (t, i, ids) # after \<Longrightarrow>
    race_step w ps (ps\<lparr>ps_guard := invalidatePolicyCache w (ps_guard ps) t i ids, ps_edits := before @ after\<rparr>)"
| sweeps: "race_step w ps (ps\<lparr>ps_guard := (ps_guard ps)\<lparr>g_cache := evict (g_cache (ps_guard ps)) now\<rparr>\<rparr>)"

inductive race_run :: "guard_world \<Rightarrow> policy_system \<Rightarrow> bool" for w where
  start: "race_run w started"
| step: "race_run w ps \<Longrightarrow> race_step w ps ps' \<Longrightarrow> race_run w ps'"

section \<open>Writes leave alone what they do not invalidate\<close>

definition spares :: "guard_world \<Rightarrow> guard_state \<Rightarrow> string \<Rightarrow> string \<Rightarrow> QuotaPolicy list \<Rightarrow> string option list \<Rightarrow> bool" where
  "spares w s t i rows ids \<longleftrightarrow>
     (\<forall>t' i' p. listed_project w t' i' p \<longrightarrow> (t', i') \<noteq> (t, i) \<or> p \<notin> set (targets w t i ids) \<longrightarrow>
        filter (sees i' p) (g_policies (set_rows s t rows) t') = filter (sees i' p) (g_policies s t'))"

lemma created_spares:
  assumes "createQuotaPolicy (g_policies s t) (payload\<lparr>pol_tenantId := i\<rparr>) newId now = (created, rows)"
  shows "spares w s t i rows [pol_projectId payload]"
  unfolding spares_def
proof (intro allI impI)
  fix t' i' p
  assume listed: "listed_project w t' i' p" and other: "(t', i') \<noteq> (t, i) \<or> p \<notin> set (targets w t i [pol_projectId payload])"
  have rows: "rows = g_policies s t @ [created\<lparr>pol_scopeId := stored_field (pol_scopeId created)\<rparr>]"
    and row: "pol_tenantId created = i" "pol_projectId created = pol_projectId payload"
    using assms by (auto simp: createQuotaPolicy_def Let_def)
  have "\<not> sees i' p (created\<lparr>pol_scopeId := stored_field (pol_scopeId created)\<rparr>)" if "t' = t"
  proof
    assume "sees i' p (created\<lparr>pol_scopeId := stored_field (pol_scopeId created)\<rparr>)"
    then have "i' = i" and seen: "pol_projectId payload = Some p \<or> given_project (pol_projectId payload) = None"
      using row by (auto simp: sees_def no_project_iff)
    then show False
      using listed_is_target [of w t i p "[pol_projectId payload]"] other that listed
      by (auto simp: named_projects_Nil given_project_Some given_project_None listed_project_def)
  qed
  then show "filter (sees i' p) (g_policies (set_rows s t rows) t') = filter (sees i' p) (g_policies s t')"
    by (simp add: set_rows_def rows)
qed

lemma deleted_spares:
  assumes "deleteQuotaPolicy (g_policies s t) j i q = (gone, rows)"
  shows "spares w s t i rows [q]"
  unfolding spares_def
proof (intro allI impI)
  fix t' i' p
  assume listed: "listed_project w t' i' p" and other: "(t', i') \<noteq> (t, i) \<or> p \<notin> set (targets w t i [q])"
  have rows: "rows = filter (\<lambda>row. \<not> addressed j i q row) (g_policies s t)" using assms by (auto simp: deleteQuotaPolicy_def)
  have "\<not> sees i' p row" if "t' = t" "addressed j i q row" for row
  proof
    assume "sees i' p row"
    then have "i' = i" "pol_projectId row = Some p \<or> given_project (pol_projectId row) = None"
      using that by (auto simp: sees_def addressed_def no_project_iff)
    then show False
      using listed_is_target [of w t i p "[q]"] other that listed
      by (auto simp: named_projects_Nil given_project_Some given_project_None addressed_def in_project_def listed_project_def
          split: option.splits)
  qed
  then show "filter (sees i' p) (g_policies (set_rows s t rows) t') = filter (sees i' p) (g_policies s t')"
    by (auto simp: set_rows_def rows intro: filter_cong)
qed

lemma edited_spares:
  assumes update: "updateQuotaPolicy (g_policies s t) j i patch q = (updated, rows)"
    and ids: "distinct (map pol_id (g_policies s t))"
    and place: "\<And>row. row \<in> set (g_policies s t) \<Longrightarrow> pol_id row = j \<Longrightarrow> pol_tenantId row = i \<Longrightarrow>
       q = given_project (pol_projectId row) \<and> keeps_place patch row"
  shows "spares w s t i rows [q, patch_project (pt_projectId patch), (case updated of None \<Rightarrow> None | Some u \<Rightarrow> pol_projectId u)]"
  unfolding spares_def
proof (intro allI impI)
  let ?ids = "[q, patch_project (pt_projectId patch), (case updated of None \<Rightarrow> None | Some u \<Rightarrow> pol_projectId u)]"
  fix t' i' p
  assume listed: "listed_project w t' i' p" and other: "(t', i') \<noteq> (t, i) \<or> p \<notin> set (targets w t i ?ids)"
  have rows: "rows = map (\<lambda>row. if addressed j i q row then patch_row patch row else row) (g_policies s t)"
    using update by (simp add: updateQuotaPolicy_def Let_def)
  have unseen: "\<not> sees i' p row \<and> \<not> sees i' p (patch_row patch row)"
    if row: "row \<in> set (g_policies s t)" "addressed j i q row" and t: "t' = t" for row
  proof (cases "i' = i")
    case False
    then show ?thesis using row(2) by (auto simp: sees_def addressed_def)
  next
    case True
    have at: "pol_id row = j" "pol_tenantId row = i" using row(2) by (simp_all add: addressed_def)
    have q: "q = given_project (pol_projectId row)" and keeps: "keeps_place patch row" using place [OF row(1) at] by simp_all
    have "find (\<lambda>r. pol_id r = pol_id row) rows = Some (patch_row patch row)"
      unfolding rows
    proof (rule find_updated [OF ids row(1)])
      fix r
      assume "r \<in> set (g_policies s t)" "r \<noteq> row"
      then have "pol_id r \<noteq> pol_id row" using ids row(1) by (auto simp: distinct_map dest: inj_onD)
      then show "(if addressed j i q r then patch_row patch r else r) = r" using at by (simp add: addressed_def)
    qed (use row(2) in simp_all)
    then have updated: "updated = Some (patch_row patch row)"
      using update at by (simp add: updateQuotaPolicy_def Let_def rows [symmetric])
    have named: "named_projects ?ids \<noteq> []" "given_project q \<noteq> Some p" "given_project (pol_projectId (patch_row patch row)) \<noteq> Some p"
      using listed_is_target [of w t i p ?ids] other listed t True by (auto simp: updated)
    have "q \<noteq> None"
    proof
      assume none: "q = None"
      then have "given_project (pol_projectId (patch_row patch row)) = None" using keeps q by (simp add: keeps_place_def)
      then have "given_project (patch_project (pt_projectId patch)) = None"
        by (cases "pt_projectId patch") (simp_all add: patch_row_def given_project_None given_project_def split: if_splits)
      then show False using named(1) none keeps q by (simp add: named_projects_Nil given_project_def keeps_place_def updated)
    qed
    then show ?thesis
      using named(2,3) keeps q by (auto simp: sees_def no_project_iff given_project_Some given_project_None keeps_place_def)
  qed
  show "filter (sees i' p) (g_policies (set_rows s t rows) t') = filter (sees i' p) (g_policies s t')"
  proof (cases "t' = t")
    case True
    have "filter (sees i' p) rows = filter (sees i' p) (g_policies s t)"
      unfolding rows by (rule filter_map_same) (use unseen [OF _ _ True] in auto)
    then show ?thesis using True by (simp add: set_rows_def)
  qed (simp add: set_rows_def)
qed

lemma write_spares: "policy_write s t i rows ids \<Longrightarrow> spares w s t i rows ids"
  by (induction rule: policy_write.induct) (auto intro: created_spares deleted_spares edited_spares)

lemma sparesD:
  assumes "spares w s t i rows ids" "listed_project w t' i' p" "(t', i') \<noteq> (t, i) \<or> p \<notin> set (targets w t i ids)"
  shows "listQuotaPolicies (g_policies (set_rows s t rows) t') i' (Some p) = listQuotaPolicies (g_policies s t') i' (Some p)"
    "listTenantWideQuotaPolicies (g_policies (set_rows s t rows) t') i' = listTenantWideQuotaPolicies (g_policies s t') i'"
proof -
  have f: "filter (sees i' p) (g_policies (set_rows s t rows) t') = filter (sees i' p) (g_policies s t')"
    using assms unfolding spares_def by blast
  have p: "p \<noteq> []" using assms(2) by (simp add: listed_project_def)
  have sub: "filter P (g_policies (set_rows s t rows) t') = filter P (g_policies s t')" if "\<And>row. P row \<Longrightarrow> sees i' p row" for P
  proof -
    have "filter P xs = filter P (filter (sees i' p) xs)" for xs using that by (induction xs) auto
    then show ?thesis using f by metis
  qed
  have "filter (\<lambda>row. pol_tenantId row = i' \<and> in_project (Some p) row) (g_policies (set_rows s t rows) t')
      = filter (\<lambda>row. pol_tenantId row = i' \<and> in_project (Some p) row) (g_policies s t')"
    by (rule sub) (simp add: sees_def in_project_iff [OF p])
  then show "listQuotaPolicies (g_policies (set_rows s t rows) t') i' (Some p) = listQuotaPolicies (g_policies s t') i' (Some p)"
    by (simp add: listQuotaPolicies_def)
  have "filter (\<lambda>row. pol_tenantId row = i' \<and> has_no_project row) (g_policies (set_rows s t rows) t')
      = filter (\<lambda>row. pol_tenantId row = i' \<and> has_no_project row) (g_policies s t')"
    by (rule sub) (simp add: sees_def)
  then show "listTenantWideQuotaPolicies (g_policies (set_rows s t rows) t') i' = listTenantWideQuotaPolicies (g_policies s t') i'"
    by (simp add: listTenantWideQuotaPolicies_def)
qed

section \<open>The invariant\<close>

text \<open>What a load that was not overtaken has read is what is stored now.\<close>

definition load_current :: "guard_world \<Rightarrow> guard_state \<Rightarrow> policy_load \<Rightarrow> bool" where
  "load_current w s l \<longleftrightarrow>
     plain (ld_tenantDb l) \<and> plain (ld_tenantId l) \<and> (ld_wide l \<noteq> None \<longrightarrow> ld_own l \<noteq> None)
     \<and> (listed_project w (ld_tenantDb l) (ld_tenantId l) (ld_project l) \<longrightarrow> \<not> ld_overtaken l \<longrightarrow>
          (ld_own l \<noteq> None \<longrightarrow> ld_own l = ld_own (load_own s l)) \<and> (ld_wide l \<noteq> None \<longrightarrow> ld_wide l = ld_wide (load_wide s l)))"

text \<open>A cached entry is what is stored now, or a write under way will drop it, or an overtaken load stored it.\<close>

definition entry_current :: "guard_world \<Rightarrow> policy_system \<Rightarrow> place \<Rightarrow> bool" where
  "entry_current w ps = (\<lambda>(t, i, p).
     \<forall>e. map_get (cache_store (g_cache (ps_guard ps))) (quotaPolicyCacheKey t i p) = Some e \<longrightarrow>
       w_policyTtl w > 0
       \<and> (source_policies (entry_value e) = visible (g_policies (ps_guard ps) t) i p
          \<or> (\<exists>ids. (t, i, ids) \<in> set (ps_edits ps) \<and> p \<in> set (targets w t i ids))
          \<or> (\<exists>stored. ps_raced ps (t, i, p) = Some stored \<and> 0 \<le> stored \<and> entry_expiresAt e = stored + w_policyTtl w * 1000)))"

definition races_ok :: "guard_world \<Rightarrow> policy_system \<Rightarrow> bool" where
  "races_ok w ps \<longleftrightarrow>
     cache_ok (g_cache (ps_guard ps)) \<and> (\<forall>l \<in> set (ps_loads ps). load_current w (ps_guard ps) l)
     \<and> (\<forall>(t, i, ids) \<in> set (ps_edits ps). plain t \<and> plain i)
     \<and> (\<forall>t i p. listed_project w t i p \<longrightarrow> entry_current w ps (t, i, p))"

lemma started_ok: "races_ok w started"
  by (simp add: races_ok_def started_def entry_current_def empty_guard_def new_cache_def cache_ok_def)

text \<open>A step that only drops entries and leaves rows, loads and writes under way as they are.\<close>

lemma dropping_ok:
  assumes "races_ok w ps" "g_policies s' = g_policies (ps_guard ps)" "cache_ok (g_cache s')"
    and "\<And>k. map_get (cache_store (g_cache s')) k = None
      \<or> map_get (cache_store (g_cache s')) k = map_get (cache_store (g_cache (ps_guard ps))) k"
  shows "races_ok w (ps\<lparr>ps_guard := s'\<rparr>)"
proof -
  have "load_current w s' l = load_current w (ps_guard ps) l" for l
    by (simp add: load_current_def load_own_def load_wide_def assms(2))
  moreover have "entry_current w (ps\<lparr>ps_guard := s'\<rparr>) (t, i, p)" if "entry_current w ps (t, i, p)" for t i p
    using assms(4) [of "quotaPolicyCacheKey t i p"] that by (auto simp: entry_current_def assms(2))
  ultimately show ?thesis using assms(1,3) by (simp add: races_ok_def)
qed

lemma cached_source_entry:
  "g_policies (snd (cached_source w s key now)) = g_policies s"
  "cache_ok (g_cache s) \<Longrightarrow> cache_ok (g_cache (snd (cached_source w s key now)))"
  "map_get (cache_store (g_cache (snd (cached_source w s key now)))) k = None
    \<or> map_get (cache_store (g_cache (snd (cached_source w s key now)))) k = map_get (cache_store (g_cache s)) k"
  by (auto simp: cached_source_def split_beta cache_get_def split: option.splits)


lemma loads_ok:
  "races_ok w ps \<Longrightarrow> (\<And>l. l \<in> set ls \<Longrightarrow> load_current w (ps_guard ps) l) \<Longrightarrow> races_ok w (ps\<lparr>ps_loads := ls\<rparr>)"
  by (simp add: races_ok_def entry_current_def)

lemma load_own_current: "load_current w s l \<Longrightarrow> ld_own l = None \<Longrightarrow> load_current w s (load_own s l)"
  by (auto simp: load_current_def load_own_def)

lemma load_wide_current: "load_current w s l \<Longrightarrow> ld_own l \<noteq> None \<Longrightarrow> load_current w s (load_wide s l)"
  by (auto simp: load_current_def load_own_def load_wide_def)

lemma loaded_visible:
  assumes "load_current w s l" "listed_project w (ld_tenantDb l) (ld_tenantId l) (ld_project l)" "\<not> ld_overtaken l"
    "ld_own l \<noteq> None" "ld_wide l \<noteq> None"
  shows "source_policies (loaded_source defaults l) = visible (g_policies s (ld_tenantDb l)) (ld_tenantId l) (ld_project l)"
proof -
  have "ld_own l = ld_own (load_own s l)" "ld_wide l = ld_wide (load_wide s l)" using assms by (simp_all add: load_current_def)
  then show ?thesis by (simp add: loaded_source_def visible_def load_own_def load_wide_def)
qed

lemma cache_source_parts:
  "g_policies (cache_source w s key source now) = g_policies s"
  "cache_ok (g_cache s) \<Longrightarrow> cache_ok (g_cache (cache_source w s key source now))"
  "map_get (cache_store (g_cache (cache_source w s key source now))) k =
     (if w_policyTtl w > 0 \<and> \<not> w_cacheFails w \<and> w_cacheKind w = CacheMemory \<and> k = key
      then Some \<lparr>entry_value = source, entry_expiresAt = now + w_policyTtl w * 1000\<rparr>
      else map_get (cache_store (g_cache s)) k)"
  by (auto simp: cache_source_def cache_set_def expiry_def Let_def)

lemma stores_ok:
  assumes ok: "races_ok w ps" and loads: "ps_loads ps = before @ l # after" "ld_own l \<noteq> None" "ld_wide l \<noteq> None"
    and mem: "\<not> w_cacheFails w" "w_cacheKind w = CacheMemory" "0 \<le> now"
  shows "races_ok w (ps\<lparr>ps_loads := before @ after,
      ps_guard := cache_source w (ps_guard ps) (load_key l) (loaded_source defaults l) now,
      ps_raced := (ps_raced ps)((ld_tenantDb l, ld_tenantId l, ld_project l) := (if ld_overtaken l then Some now else None))\<rparr>)"
    (is "races_ok w ?ps'")
proof -
  let ?s' = "cache_source w (ps_guard ps) (load_key l) (loaded_source defaults l) now"
  have l: "load_current w (ps_guard ps) l" using ok loads(1) by (simp add: races_ok_def)
  have plain: "plain (ld_tenantDb l)" "plain (ld_tenantId l)" using l by (simp_all add: load_current_def)
  have same: "load_current w ?s' m = load_current w (ps_guard ps) m" for m
    by (simp add: load_current_def load_own_def load_wide_def cache_source_parts(1))
  have "entry_current w ?ps' (t, i, p)" if listed: "listed_project w t i p" for t i p
  proof (cases "(t, i, p) = (ld_tenantDb l, ld_tenantId l, ld_project l)")
    case True
    show ?thesis
    proof (cases "w_policyTtl w > 0")
      case ttl: True
      show ?thesis
      proof (cases "ld_overtaken l")
        case True
        then show ?thesis
          using \<open>(t, i, p) = _\<close> ttl mem by (simp add: entry_current_def cache_source_parts load_key_def)
      next
        case False
        have "source_policies (loaded_source defaults l) = visible (g_policies (ps_guard ps) t) i p"
          using loaded_visible [OF l _ False loads(2,3)] True listed by simp
        then show ?thesis
          using True ttl mem by (simp add: entry_current_def cache_source_parts load_key_def)
      qed
    next
      case False
      then have "?s' = ps_guard ps" by (simp add: cache_source_def)
      moreover have "entry_current w ps (t, i, p)" using ok listed by (simp add: races_ok_def)
      ultimately show ?thesis using False by (simp add: entry_current_def)
    qed
  next
    case False
    have "quotaPolicyCacheKey t i p \<noteq> load_key l"
      using False cache_key_inject [of t i "ld_tenantDb l" "ld_tenantId l" p "ld_project l"] listed plain
      by (auto simp: load_key_def listed_project_def)
    moreover have "entry_current w ps (t, i, p)" using ok listed by (simp add: races_ok_def)
    ultimately show ?thesis
      using False by (auto simp: entry_current_def cache_source_parts)
  qed
  then show ?thesis using ok loads(1) same by (simp add: races_ok_def cache_source_parts(2))
qed

lemma overtake_parts:
  "ld_tenantDb (overtake w t i ids l) = ld_tenantDb l" "ld_tenantId (overtake w t i ids l) = ld_tenantId l"
  "ld_project (overtake w t i ids l) = ld_project l" "ld_own (overtake w t i ids l) = ld_own l" "ld_wide (overtake w t i ids l) = ld_wide l"
  by (simp_all add: overtake_def)

lemma overtake_current:
  assumes "load_current w s l" "spares w s t i rows ids"
  shows "load_current w (set_rows s t rows) (overtake w t i ids l)"
proof (cases "ld_own l = None")
  case True
  then have "overtake w t i ids l = l" by (simp add: overtake_def)
  then show ?thesis using assms(1) True by (simp add: load_current_def)
next
  case False
  show ?thesis
  proof (cases "listed_project w (ld_tenantDb l) (ld_tenantId l) (ld_project l)
      \<and> ((ld_tenantDb l, ld_tenantId l) \<noteq> (t, i) \<or> ld_project l \<notin> set (targets w t i ids))")
    case True
    then have "overtake w t i ids l = l" by (auto simp: overtake_def)
    moreover have "load_own (set_rows s t rows) l = load_own s l" "load_wide (set_rows s t rows) l = load_wide s l"
      using True sparesD [OF assms(2) conjunct1 [OF True] conjunct2 [OF True]] by (simp_all add: load_own_def load_wide_def)
    ultimately show ?thesis using assms(1) by (simp add: load_current_def)
  next
    case out: False
    show ?thesis
    proof (cases "listed_project w (ld_tenantDb l) (ld_tenantId l) (ld_project l)")
      case True
      then have "ld_overtaken (overtake w t i ids l)" using out False by (auto simp: overtake_def)
      then show ?thesis using assms(1) by (simp add: load_current_def overtake_parts)
    next
      case False
      then show ?thesis using assms(1) by (simp add: load_current_def overtake_parts)
    qed
  qed
qed

lemma writes_ok:
  assumes ok: "races_ok w ps" and plain: "plain t" "plain i" and spares: "spares w (ps_guard ps) t i rows ids"
  shows "races_ok w (ps\<lparr>ps_guard := set_rows (ps_guard ps) t rows, ps_loads := map (overtake w t i ids) (ps_loads ps),
      ps_edits := (t, i, ids) # ps_edits ps\<rparr>)" (is "races_ok w ?ps'")
proof -
  have cache: "g_cache (set_rows (ps_guard ps) t rows) = g_cache (ps_guard ps)" by (simp add: set_rows_def)
  have "entry_current w ?ps' (t', i', p)" if listed: "listed_project w t' i' p" for t' i' p
  proof -
    have old: "entry_current w ps (t', i', p)" using ok listed by (simp add: races_ok_def)
    show ?thesis
    proof (cases "(t', i') = (t, i) \<and> p \<in> set (targets w t i ids)")
      case True
      then show ?thesis using old by (auto simp: entry_current_def cache)
    next
      case False
      then have "(t', i') \<noteq> (t, i) \<or> p \<notin> set (targets w t i ids)" by blast
      then have "visible (g_policies (set_rows (ps_guard ps) t rows) t') i' p = visible (g_policies (ps_guard ps) t') i' p"
        using sparesD [OF spares listed] unfolding visible_def by metis
      then show ?thesis using old by (auto simp: entry_current_def cache)
    qed
  qed
  then show ?thesis
    using ok plain overtake_current [OF _ spares] by (auto simp: races_ok_def cache)
qed

lemma invalidates_ok:
  assumes ok: "races_ok w ps" and edits: "ps_edits ps = before @ (t, i, ids) # after"
    and mem: "\<not> w_cacheFails w" "w_cacheKind w = CacheMemory"
  shows "races_ok w (ps\<lparr>ps_guard := invalidatePolicyCache w (ps_guard ps) t i ids, ps_edits := before @ after\<rparr>)" (is "races_ok w ?ps'")
proof -
  let ?s' = "invalidatePolicyCache w (ps_guard ps) t i ids"
  have plain: "plain t" "plain i" using ok by (auto simp: races_ok_def edits)
  have entry: "map_get (cache_store (g_cache ?s')) (quotaPolicyCacheKey t' i' p) =
      (if t' = t \<and> i' = i \<and> p \<in> set (targets w t i ids) then None
       else map_get (cache_store (g_cache (ps_guard ps))) (quotaPolicyCacheKey t' i' p))" if "plain t'" "plain i'" for t' i' p
  proof -
    have "map_get (cache_store (g_cache (drop_cached w t i qs (ps_guard ps)))) (quotaPolicyCacheKey t' i' p) =
        (if t' = t \<and> i' = i \<and> p \<in> set qs then None
         else map_get (cache_store (g_cache (ps_guard ps))) (quotaPolicyCacheKey t' i' p))" for qs
      using mem(2) cache_key_inject [OF that plain] by (auto simp: drop_cached_def fold_cache_del)
    then show ?thesis
      using mem(1) by (auto simp: invalidatePolicyCache_def targets_def Let_def split: option.splits)
  qed
  have "entry_current w ?ps' (t', i', p)" if listed: "listed_project w t' i' p" for t' i' p
  proof -
    have pl: "plain t'" "plain i'" using listed by (simp_all add: listed_project_def)
    have old: "entry_current w ps (t', i', p)" using ok listed by (simp add: races_ok_def)
    show ?thesis
    proof (cases "t' = t \<and> i' = i \<and> p \<in> set (targets w t i ids)")
      case False
      then show ?thesis using old by (auto simp: entry_current_def entry [OF pl] edits)
    qed (use entry [OF pl, of p] in \<open>simp add: entry_current_def\<close>)
  qed
  moreover have "cache_ok (g_cache ?s')"
    using ok by (auto simp: races_ok_def invalidatePolicyCache_def drop_cached_def Let_def cache_ok_fold_del split: option.split)
  moreover have "load_current w ?s' l = load_current w (ps_guard ps) l" for l
    by (simp add: load_current_def load_own_def load_wide_def)
  ultimately show ?thesis using ok by (auto simp: races_ok_def edits)
qed

lemma race_step_ok:
  assumes "race_step w ps ps'" "races_ok w ps" "\<not> w_cacheFails w" "w_cacheKind w = CacheMemory"
  shows "races_ok w ps'"
  using assms
proof (induction rule: race_step.induct)
  case (looks_up ps t i p now)
  then have "cache_ok (g_cache (ps_guard ps))" by (simp add: races_ok_def)
  from dropping_ok [OF looks_up(1) cached_source_entry(1) cached_source_entry(2) [OF this] cached_source_entry(3)]
  show ?case .
next
  case (misses t i ps p)
  then show ?case by (intro loads_ok) (auto simp: races_ok_def load_current_def new_load_def)
next
  case (reads_own ps before l after)
  then show ?case by (intro loads_ok) (auto simp: races_ok_def intro: load_own_current)
next
  case (reads_wide ps before l after)
  then show ?case by (intro loads_ok) (auto simp: races_ok_def intro: load_wide_current)
next
  case (stores ps before l after defaults now)
  then show ?case by (intro stores_ok)
next
  case (fails ps before l after)
  then show ?case by (intro loads_ok) (auto simp: races_ok_def)
next
  case (writes t i ps rows ids)
  then show ?case by (intro writes_ok write_spares)
next
  case (invalidates ps before t i ids after)
  then show ?case by (intro invalidates_ok)
next
  case (sweeps ps now)
  then have "cache_ok (g_cache (ps_guard ps))" by (simp add: races_ok_def)
  then have "map_get (cache_store (evict (g_cache (ps_guard ps)) now)) k = None
      \<or> map_get (cache_store (evict (g_cache (ps_guard ps)) now)) k = map_get (cache_store (g_cache (ps_guard ps))) k"
    "cache_ok (evict (g_cache (ps_guard ps)) now)" for k
    by (auto simp: evict_def cache_ok_def map_get_delete_if map_delete_if_distinct split: option.splits)
  then show ?case using sweeps by (intro dropping_ok) simp_all
qed

lemma race_run_ok: "race_run w ps \<Longrightarrow> \<not> w_cacheFails w \<Longrightarrow> w_cacheKind w = CacheMemory \<Longrightarrow> races_ok w ps"
  by (induction rule: race_run.induct) (auto intro: started_ok race_step_ok)

text \<open>
  C3: a policy edit applies to the next check, whatever runs at the same time. Take any interleaving of loads, creations, deletions,
  edits that leave a policy in its project, their invalidations and cache sweeps, with the in-memory cache of one process
  and no failing calls. Once no write that concerns a project is under way, a check for it decides on the policies that the
  store holds at that moment, whether it reads them or finds them cached. The one exception is an entry stored by a load
  that a write overtook: it may be served until its time to live has passed.
\<close>

theorem policy_edits_reach_every_project:
  assumes "race_run w ps" "\<not> w_cacheFails w" "w_cacheKind w = CacheMemory" "\<not> w_policyReadFails w"
    and "listed_project w (ctx_tenantDbName ctx) (ctx_tenantId ctx) (ctx_projectId ctx)"
    and "\<forall>(t, i, ids) \<in> set (ps_edits ps).
      t = ctx_tenantDbName ctx \<longrightarrow> i = ctx_tenantId ctx \<longrightarrow> ctx_projectId ctx \<notin> set (targets w t i ids)"
  shows "\<exists>source. fst (loadPolicySource w (ps_guard ps) ctx now) = Some source
     \<and> (source_policies source = visible (g_policies (ps_guard ps) (ctx_tenantDbName ctx)) (ctx_tenantId ctx) (ctx_projectId ctx)
        \<or> (\<exists>stored. ps_raced ps (ctx_tenantDbName ctx, ctx_tenantId ctx, ctx_projectId ctx) = Some stored
              \<and> now \<le> stored + w_policyTtl w * 1000))"
proof -
  let ?t = "ctx_tenantDbName ctx" and ?i = "ctx_tenantId ctx" and ?p = "ctx_projectId ctx"
  let ?key = "quotaPolicyCacheKey ?t ?i ?p"
  have entry: "entry_current w ps (?t, ?i, ?p)"
    using race_run_ok [OF assms(1-3)] assms(5) by (simp add: races_ok_def)
  obtain found s' where got: "cached_source w (ps_guard ps) ?key now = (found, s')" by fastforce
  have rows: "g_policies s' = g_policies (ps_guard ps)" using cached_source_entry(1) [of w "ps_guard ps" ?key now] got by simp
  show ?thesis
  proof (cases found)
    case None
    then show ?thesis using got assms(4) rows by (simp add: loadPolicySource_def Let_def read_source_def visible_def)
  next
    case (Some source)
    then obtain e where e: "map_get (cache_store (g_cache (ps_guard ps))) ?key = Some e" "entry_value e = source"
      "\<not> entry_expired now e" "w_policyTtl w > 0"
      using got by (auto simp: cached_source_def cache_get_def split_beta split: if_splits option.splits)
    have load: "fst (loadPolicySource w (ps_guard ps) ctx now) = Some source"
      using got Some by (simp add: loadPolicySource_def Let_def)
    have "source_policies source = visible (g_policies (ps_guard ps) ?t) ?i ?p
        \<or> (\<exists>stored. ps_raced ps (?t, ?i, ?p) = Some stored \<and> 0 \<le> stored \<and> entry_expiresAt e = stored + w_policyTtl w * 1000)"
      using entry assms(6) e(1,2) by (auto simp: entry_current_def)
    then show ?thesis
    proof
      assume "\<exists>stored. ps_raced ps (?t, ?i, ?p) = Some stored \<and> 0 \<le> stored \<and> entry_expiresAt e = stored + w_policyTtl w * 1000"
      then obtain stored where st: "ps_raced ps (?t, ?i, ?p) = Some stored" "0 \<le> stored" "entry_expiresAt e = stored + w_policyTtl w * 1000"
        by blast
      have "now \<le> stored + w_policyTtl w * 1000" using e(3,4) st(2,3) by (simp add: entry_expired_def not_less)
      then show ?thesis using load st(1) by blast
    qed (use load in blast)
  qed
qed

section \<open>A write and a race\<close>

definition created_rows :: "QuotaPolicy list" where
  "created_rows = snd (createQuotaPolicy (g_policies empty_guard ''t'') ((sample_budget 1)\<lparr>pol_tenantId := ''t1''\<rparr>) ''n'' 3)"

definition created_ids :: "string option list" where
  "created_ids = [pol_projectId (sample_budget 1)]"

lemma sample_write: "policy_write empty_guard ''t'' ''t1'' created_rows created_ids"
  unfolding created_ids_def created_rows_def by (rule policy_write.created [where now = 3, OF prod.collapse [symmetric]])

definition written :: "policy_load list \<Rightarrow> policy_system" where
  "written ls = started\<lparr>ps_guard := set_rows empty_guard ''t'' created_rows, ps_loads := ls, ps_edits := [(''t'', ''t1'', created_ids)]\<rparr>"

definition answered_write :: "policy_load list \<Rightarrow> policy_system" where
  "answered_write ls =
     (written ls)\<lparr>ps_guard := invalidatePolicyCache (sample_world RateMongodb) (set_rows empty_guard ''t'' created_rows) ''t'' ''t1'' created_ids,
        ps_edits := []\<rparr>"

lemma plain_samples: "plain ''t''" "plain ''t1''"
  by (simp_all add: plain_def)

lemma write_is_answered:
  assumes "race_run (sample_world RateMongodb) (started\<lparr>ps_loads := ls\<rparr>)"
  shows "race_run (sample_world RateMongodb) (answered_write (map (overtake (sample_world RateMongodb) ''t'' ''t1'' created_ids) ls))"
proof -
  let ?w = "sample_world RateMongodb"
  have "race_step ?w (started\<lparr>ps_loads := ls\<rparr>) (written (map (overtake ?w ''t'' ''t1'' created_ids) ls))"
    using race_step.writes [OF plain_samples, of "started\<lparr>ps_loads := ls\<rparr>" created_rows created_ids ?w] sample_write
    by (simp add: written_def started_def)
  moreover have "race_step ?w (written ls') (answered_write ls')" for ls'
    using race_step.invalidates [of "written ls'" "[]" "''t''" "''t1''" created_ids "[]" ?w]
    by (simp add: written_def answered_write_def)
  ultimately show ?thesis using assms race_run.step by blast
qed

theorem policy_edits_reach_every_project_witness:
  "\<exists>source. fst (loadPolicySource (sample_world RateMongodb) (ps_guard (answered_write [])) sample_context 5) = Some source
     \<and> source_policies source = visible (g_policies (ps_guard (answered_write [])) ''t'') ''t1'' ''p''"
proof -
  have "race_run (sample_world RateMongodb) (started\<lparr>ps_loads := []\<rparr>)"
    using race_run.start by (simp add: started_def)
  from write_is_answered [OF this] have "race_run (sample_world RateMongodb) (answered_write [])" by simp
  then show ?thesis
    using policy_edits_reach_every_project [of "sample_world RateMongodb" "answered_write []" sample_context 5]
    by (simp add: sample_world_def sample_context_def listed_project_def plain_def answered_write_def written_def started_def)
qed

text \<open>
  The exception is real. A load of a project reads its policies; a policy is created and its invalidation runs; then the load
  stores what it read. The next check goes by the stored empty set, although no write is under way and the policy is in
  the store.
\<close>

definition overtaken_load :: policy_load where
  "overtaken_load = overtake (sample_world RateMongodb) ''t'' ''t1'' created_ids
     (load_wide empty_guard (load_own empty_guard (new_load ''t'' ''t1'' ''p'')))"

definition raced_system :: policy_system where
  "raced_system =
     (answered_write [])\<lparr>ps_guard := cache_source (sample_world RateMongodb) (ps_guard (answered_write [])) (load_key overtaken_load)
          (loaded_source (getQuotaLimitsForTenant (w_policyConfig (sample_world RateMongodb)) None 4) overtaken_load) 4,
        ps_raced := (\<lambda>_. None)((''t'', ''t1'', ''p'') := Some 4)\<rparr>"

theorem overtaken_load_outlives_edit:
  "race_run (sample_world RateMongodb) raced_system \<and> ps_edits raced_system = []
   \<and> map_option source_policies (fst (loadPolicySource (sample_world RateMongodb) (ps_guard raced_system) sample_context 6)) = Some []
   \<and> map pol_id (visible (g_policies (ps_guard raced_system) ''t'') ''t1'' ''p'') = [''n'']"
proof (intro conjI)
  let ?w = "sample_world RateMongodb" and ?l = "new_load ''t'' ''t1'' ''p''"
  have s1: "race_run ?w (started\<lparr>ps_loads := [?l]\<rparr>)"
    using race_run.step [OF race_run.start race_step.misses [OF plain_samples, of ?w started "''p''"]] by (simp add: started_def)
  have "race_step ?w (started\<lparr>ps_loads := [?l]\<rparr>) (started\<lparr>ps_loads := [load_own empty_guard ?l]\<rparr>)"
    using race_step.reads_own [of "started\<lparr>ps_loads := [?l]\<rparr>" "[]" ?l "[]" ?w] by (simp add: started_def new_load_def)
  note s2 = race_run.step [OF s1 this]
  have "race_step ?w (started\<lparr>ps_loads := [load_own empty_guard ?l]\<rparr>) (started\<lparr>ps_loads := [load_wide empty_guard (load_own empty_guard ?l)]\<rparr>)"
    using race_step.reads_wide [of "started\<lparr>ps_loads := [load_own empty_guard ?l]\<rparr>" "[]" "load_own empty_guard ?l" "[]" ?w]
    by (simp add: started_def new_load_def load_own_def)
  note s3 = race_run.step [OF s2 this]
  have s4: "race_run ?w (answered_write [overtaken_load])" using write_is_answered [OF s3] by (simp add: overtaken_load_def)
  have flag: "ld_overtaken overtaken_load"
    by (simp add: overtaken_load_def overtake_def load_wide_def load_own_def new_load_def created_ids_def targets_def sample_world_def
        named_projects_def given_project_def js_unique_def sample_budget_def sample_policy_def)
  have place: "ld_tenantDb overtaken_load = ''t''" "ld_tenantId overtaken_load = ''t1''" "ld_project overtaken_load = ''p''"
    "ld_own overtaken_load \<noteq> None" "ld_wide overtaken_load \<noteq> None"
    by (simp_all add: overtaken_load_def overtake_parts load_wide_def load_own_def new_load_def)
  have "race_step ?w (answered_write [overtaken_load]) raced_system"
    using race_step.stores [of "answered_write [overtaken_load]" "[]" overtaken_load "[]" 4 ?w
        "getQuotaLimitsForTenant (w_policyConfig ?w) None 4"] flag place
    by (simp add: raced_system_def answered_write_def written_def started_def)
  with s4 show "race_run ?w raced_system" by (rule race_run.step)
  show "ps_edits raced_system = []" by (simp add: raced_system_def answered_write_def)
  have rows: "g_policies (ps_guard raced_system) = (\<lambda>t. if t = ''t'' then created_rows else [])"
    by (simp add: raced_system_def cache_source_parts answered_write_def written_def policies_after_invalidate set_rows_def started_def
        empty_guard_def fun_upd_def)
  have created: "created_rows = [(sample_budget 1)\<lparr>pol_id := ''n'', pol_tenantId := ''t1'', pol_createdAt := 3\<rparr>]"
    by (simp add: created_rows_def createQuotaPolicy_def empty_guard_def sample_budget_def sample_policy_def Let_def)
  have key: "load_key overtaken_load = quotaPolicyCacheKey ''t'' ''t1'' ''p''" by (simp add: load_key_def place)
  have stale: "source_policies (loaded_source defaults overtaken_load) = []" for defaults
    by (simp add: loaded_source_def overtaken_load_def overtake_parts load_wide_def load_own_def new_load_def load_eval empty_guard_def)
  have entry: "map_get (cache_store (g_cache (ps_guard raced_system))) (quotaPolicyCacheKey ''t'' ''t1'' ''p'') =
      Some \<lparr>entry_value = loaded_source (getQuotaLimitsForTenant (w_policyConfig ?w) None 4) overtaken_load, entry_expiresAt = 30004\<rparr>"
    by (simp add: raced_system_def cache_source_parts key sample_world_def)
  show "map_option source_policies (fst (loadPolicySource ?w (ps_guard raced_system) sample_context 6)) = Some []"
    using entry by (simp add: loadPolicySource_def cached_source_def cache_get_def entry_expired_def Let_def sample_world_def sample_context_def stale)
  show "map pol_id (visible (g_policies (ps_guard raced_system) ''t'') ''t1'' ''p'') = [''n'']"
    by (simp add: rows created visible_def load_eval sample_budget_def sample_policy_def)
qed

end
