(* ===== verification/Spec2Isabelle.thy ===== *)
theory Spec2Isabelle
  imports IpAllowlist Resilience MemoryCache RuntimePool MemoryQueue Cluster QuotaService PrincipalCache TokenPolicy AuthRateLimiter TokenAuth PrivateAddress OutboundGuard PrivateNetworks AhoCorasick PiiText PiiFusion UsageRollup BrowserLimiter SessionBudget ReplicaPool PolicyRaces
begin

text \<open>
  A verification library for the Cognipeer Console, a multi-tenant gateway for language models and the services around
  them. The paths below are under \<^verbatim>\<open>src/\<close>. The library models the parts of the server that decide: who may call
  what, how much of it, where the call runs and what happens when it fails.

  A request passes them in this order. The limiter in front of sign-in and of the public endpoints counts its
  address (\<open>AuthRateLimiter\<close>). An API token is checked against its allowlist of addresses (\<open>IpAllowlist\<close>); what a workspace
  lets a token be is decided when the token is made and edited (\<open>TokenPolicy\<close>). The caller's context is read from a
  cache (\<open>PrincipalCache\<close>), narrowed to a project (\<open>ProjectAccess\<close>) and turned into a permission level for the service
  the path belongs to (\<open>Rbac\<close>). The quota guard resolves the limits that hold for the caller from the license, the stored
  policies, the groups and the address (\<open>QuotaGuard\<close>, \<open>License\<close>, \<open>QuotaStore\<close>), counts requests and money against them
  (\<open>QuotaChecks\<close>, \<open>QuotaBudget\<close>, over the counters of \<open>Counters\<close> and \<open>MemoryCache\<close>), and the services report what
  they used (\<open>QuotaService\<close>). The call is routed to a node of the cluster (\<open>Cluster\<close>), uses a pooled client of its provider
  (\<open>RuntimePool\<close>) under retries and a circuit breaker (\<open>Resilience\<close>), or becomes a job of the queue (\<open>MemoryQueue\<close>).

  Theories, in the order of their imports:

  \<^item> \<open>Prelude\<close>, \<open>JsString\<close>: numbers, insertion-ordered maps, the string operations of the language, and the lemmas the
    components share.
  \<^item> \<open>IpAllowlist\<close>: \<^verbatim>\<open>src/lib/services/apiTokens/ipAllowlist.ts\<close>. Parsers, matching, the memo table, delegation and
    validation; ranges get their meaning as sets of numbers, and containment, delegation and normal forms are shown exact.
  \<^item> \<open>Resilience\<close>: \<^verbatim>\<open>src/lib/core/resilience.ts\<close>. The retry loop and the breaker with other calls as interference; the locale
    \<open>circuit_rely\<close> carries an invariant of the breakers through a call.
  \<^item> \<open>Counters\<close>, \<open>MemoryCache\<close>: fixed-window counters behind the locales \<open>window_counter\<close> and \<open>timed_window_counter\<close>, with
    the database counter (\<^verbatim>\<open>sqlite/provider-record.mixin.ts\<close>) and the cache counter (\<^verbatim>\<open>memoryCacheProvider.ts\<close>) as their
    interpretations; the cache's values refine a history of writes, its locks are the locale \<open>lease_lock\<close>.
  \<^item> \<open>RuntimePool\<close>: \<^verbatim>\<open>src/lib/core/runtimePool.ts\<close>. Every runtime is accounted for while builds interleave.
  \<^item> \<open>MemoryQueue\<close>: \<^verbatim>\<open>src/lib/core/queue/memoryQueueProvider.ts\<close>. Jobs are in one place, attempts and concurrency are bounded.
  \<^item> \<open>Cluster\<close>: \<^verbatim>\<open>src/lib/core/cluster/\<close>. Registry, assignments with a per-process cache, and routing.
  \<^item> \<open>QuotaTypes\<close>, \<open>QuotaGuard\<close>, \<open>QuotaStore\<close>, \<open>License\<close>, \<open>QuotaChecks\<close>, \<open>QuotaBudget\<close>, \<open>QuotaService\<close>, \<open>PolicyRaces\<close>:
    \<^verbatim>\<open>src/lib/quota/\<close>, \<^verbatim>\<open>sqlite/quota.mixin.ts\<close>, \<^verbatim>\<open>src/lib/license/license-manager.ts\<close> and
    \<^verbatim>\<open>src/lib/services/quota/quotaService.ts\<close>. Which limits apply, what a check counts, refuses and leaves alone; and
    how far an edit of a policy reaches while loads and writes interleave, with the race that keeps a stale entry.
  \<^item> \<open>Rbac\<close>: \<^verbatim>\<open>src/lib/security/rbac.ts\<close>. Levels, the service table, the path table and the decisions.
  \<^item> \<open>ProjectAccess\<close>, \<open>PrincipalCache\<close>: \<^verbatim>\<open>src/lib/iam/\<close> (\<^verbatim>\<open>projectLevels.ts\<close>, \<^verbatim>\<open>projectMembership.ts\<close>,
    \<^verbatim>\<open>projectNarrowing.ts\<close>, \<^verbatim>\<open>groupGrants.ts\<close>, \<^verbatim>\<open>entities.ts\<close> in part, \<^verbatim>\<open>principalCache.ts\<close>) and
    \<^verbatim>\<open>projectContext.ts\<close>. Levels in a project, group loading over the store (locale \<open>group_directory\<close>), and the cache
    with loads in flight as a step relation.
  \<^item> \<open>TokenPolicy\<close>: \<^verbatim>\<open>src/lib/iam/settings.ts\<close> and \<^verbatim>\<open>src/lib/services/apiTokens/tokenPolicy.ts\<close>.
  \<^item> \<open>AuthRateLimiter\<close>: \<^verbatim>\<open>src/lib/services/auth/rateLimiter.ts\<close>, \<^verbatim>\<open>sharedRateCounter.ts\<close> and
    \<^verbatim>\<open>src/server/api/platformIpLimit.ts\<close>.
  \<^item> \<open>TokenAuth\<close>: \<^verbatim>\<open>src/lib/services/apiTokenAuth.ts\<close>, \<^verbatim>\<open>projects/projectAccess.ts\<close> and the tokens of the SQLite store. A
    request with a token, from the header to the context. Lookups, edits, invalidations and sweeps interleave
    (\<open>auth_step\<close>); the cache of answers is used through the locale \<open>expiring_cache\<close> that \<open>MemoryCache\<close> interprets.
  \<^item> \<open>PrivateAddress\<close>, \<open>OutboundGuard\<close>, \<open>PrivateNetworks\<close>: \<^verbatim>\<open>src/lib/security/outboundFetch.ts\<close>,
    \<^verbatim>\<open>providerPrivateNetworks.ts\<close> and the tests of private addresses they use. Each address dialled was checked, redirects are
    followed without the credentials of another origin, each dispatcher is closed, and the networks that an operator opened,
    and no others, are open.
  \<^item> \<open>AhoCorasick\<close>: \<^verbatim>\<open>src/lib/services/pii/ahoCorasick.ts\<close> and the phrases of \<^verbatim>\<open>dictionary.ts\<close>. The automaton finds what
    a search at every position finds; the locale \<open>keyword_trie\<close> holds what its links mean and is interpreted on the trie the
    insertions make.
  \<^item> \<open>PiiText\<close>, \<open>PiiFusion\<close>: \<^verbatim>\<open>src/lib/services/pii/detector.ts\<close> and \<^verbatim>\<open>confidence.ts\<close>. Findings, masks, tokens that
    can be put back, and the fusion of several detectors; what both ways to resolve overlaps share is the locale
    \<open>span_resolution\<close>.
  \<^item> \<open>UsageRollup\<close>: \<^verbatim>\<open>src/lib/services/usage/\<close> and \<^verbatim>\<open>sqlite/usage.mixin.ts\<close>. Events, the buffer, flushes that overlap and
    fail; usage is conserved.
  \<^item> \<open>SessionBudget\<close>: \<^verbatim>\<open>src/lib/services/agents/sessionBudget.ts\<close>, \<^verbatim>\<open>sessionBudgetService.ts\<close> and the statement of
    \<^verbatim>\<open>sqlite/agent.mixin.ts\<close> they rest on. What clients may change, what a turn may spend, and that overlapping turns lose
    no spend.
  \<^item> \<open>ReplicaPool\<close>: \<^verbatim>\<open>src/lib/services/models/replicaPool.ts\<close> and the failover of \<^verbatim>\<open>gatewayCore.ts\<close>, over the breakers of
    \<open>Resilience\<close>. The order of replicas, the status of an error, what failover ends with, and that the breakers of the gateway are
    kept under keys the pool does not look up.
  \<^item> \<open>BrowserLimiter\<close>: \<^verbatim>\<open>src/lib/services/browser/concurrency.ts\<close>. Permits, waiters and handles of a tenant.

  How code became definitions. An object is a record, an enumeration or tagged union a datatype, a \<^verbatim>\<open>Map\<close> an association
  list in insertion order, module state an argument that is returned updated. A thrown error is a value of an option
  or of a sum. A method that does not await is one function; at an \<^verbatim>\<open>await\<close> the method is split, and an inductive step
  relation (\<open>pool_step\<close>, \<open>queue_step\<close>, \<open>pc_step\<close> and their like) interleaves the parts in every order. The clock,
  random numbers, digests and what another process answers are arguments.

  Every loop ends. Recursions that are not structural have a measure: the retry loop the attempts that are left, the
  drain of the queue the free slots and the queued jobs, the eviction of the principal cache the entries and maps that
  are left, the digits of a number the number. The two loops of the automaton are bounded by fuel that is proved enough: the climb along failure links by the depth of the
  node, since each link leads to a shorter path, and the queue by the total length of the patterns, which bounds its nodes.

  Not modelled: the rounding of doubles (numbers are rationals, with NaN and the infinities where the code tests for
  them); characters outside one byte; log lines, metrics and the wording of messages; the Redis and BullMQ drivers and the
  MongoDB provider, which are other processes; Cedar, which decides policies in a third-party engine; the enterprise
  overlay, which is not part of the repository; and the features that mostly call external services (models, agents,
  retrieval, crawling, evaluation) with their user interface.
\<close>

end
